(* ===== verification/ZuPrelude.thy ===== *)
theory ZuPrelude
  imports Main "HOL-Library.Word" "HOL-Library.Monad_Syntax"
begin

text \<open>
  What the components share: the machine types, the error type of
  \<^verbatim>\<open>crates/zu-common/src/error.rs\<close>, the reading and writing of little endian
  integers, and the slice operations of the Rust standard library the sources use.

  Conventions of the whole development.
  \<^item> \<^verbatim>\<open>u8, u16, u32, u64, i64\<close> are words of their width. \<^verbatim>\<open>usize\<close>, and the widths
    and lengths the code computes in \<^verbatim>\<open>u32\<close> but that stay below a few thousand, are
    natural numbers.
  \<^item> A Rust panic (a failed \<^verbatim>\<open>assert!\<close>, an index or slice out of range, an
    \<^verbatim>\<open>unwrap\<close> of nothing) is the value \<open>None\<close> of an \<open>option\<close>; a theorem that an
    operation does not panic says that its value is \<open>Some\<close>.
  \<^item> A \<^verbatim>\<open>Result\<close> is a sum: \<open>Inl\<close> holds the error, \<open>Inr\<close> the value. A decoder that
    appends to the caller's vector returns the pair of its result and the vector as the
    call leaves it, because what an error leaves behind is part of the contract.
  \<^item> An encoder appends to the caller's vector only; it returns what it appends.
\<close>

unbundle bit_operations_syntax

type_synonym u8 = "8 word"
type_synonym u16 = "16 word"
type_synonym u32 = "32 word"
type_synonym u64 = "64 word"
type_synonym u128 = "128 word"

named_theorems codec_simps
  \<comment> \<open>what the round trip proofs of the containers share\<close>

subsection \<open>Errors\<close>

datatype gql_status = GqlStatus u16

record position =
  pos_offset :: u32
  pos_line :: u32
  pos_column :: u32

datatype subject =
    SubjGraph string
  | SubjSchema string
  | SubjLabel string
  | SubjProperty string
  | SubjVariable string
  | SubjType string
  | SubjFunction string

record diagnostic_record =
  diag_status :: gql_status
  diag_detail :: string
  diag_position :: "position option"
  diag_excerpt :: "string option"
  diag_subject :: "subject option"
  diag_graph :: "string option"
  diag_schema :: "string option"

text \<open>
  \<^verbatim>\<open>ZuError\<close>. The payload of \<open>Io\<close> is the operating system's error, which the code
  only carries; here it is its text.
\<close>

datatype zu_error =
    Gql diagnostic_record
  | Io string
  | Corrupt string string
  | Unsupported string nat
  | InvalidArgument string
  | Conflict string
  | Interrupted

type_synonym 'a result = "zu_error + 'a"

text \<open>The decimal text of a number, as \<^verbatim>\<open>format!("{n}")\<close> writes it.\<close>

fun show_nat :: "nat \<Rightarrow> string" where
  "show_nat n = (if n < 10 then [char_of (48 + n)]
                 else show_nat (n div 10) @ [char_of (48 + n mod 10)])"

declare show_nat.simps [simp del]

subsection \<open>Slices\<close>

text \<open>\<^verbatim>\<open>xs.get(a..b)\<close>, which is \<open>None\<close> out of range.\<close>

definition get_range :: "'a list \<Rightarrow> nat \<Rightarrow> nat \<Rightarrow> 'a list option" where
  "get_range xs a b =
     (if a \<le> b \<and> b \<le> length xs then Some (take (b - a) (drop a xs)) else None)"

text \<open>\<^verbatim>\<open>xs.get(a..)\<close>\<close>

definition get_from :: "'a list \<Rightarrow> nat \<Rightarrow> 'a list option" where
  "get_from xs a = (if a \<le> length xs then Some (drop a xs) else None)"

text \<open>\<^verbatim>\<open>xs[i]\<close> and \<^verbatim>\<open>xs.get(i)\<close>: a panic and an absent value are both \<open>None\<close>.\<close>

definition idx :: "'a list \<Rightarrow> nat \<Rightarrow> 'a option" where
  "idx xs i = (if i < length xs then Some (xs ! i) else None)"

text \<open>\<^verbatim>\<open>xs[i] = f(xs[i])\<close>, a panic out of range.\<close>

definition modify_at :: "'a list \<Rightarrow> nat \<Rightarrow> ('a \<Rightarrow> 'a) \<Rightarrow> 'a list option" where
  "modify_at xs i f = (if i < length xs then Some (xs[i := f (xs ! i)]) else None)"

text \<open>\<^verbatim>\<open>xs.chunks(n)\<close>\<close>

fun chunks :: "nat \<Rightarrow> 'a list \<Rightarrow> 'a list list" where
  "chunks n xs = (if xs = [] \<or> n = 0 then [] else take n xs # chunks n (drop n xs))"

declare chunks.simps [simp del]

text \<open>Mapping an operation that may panic: the first panic is the panic of the loop.\<close>

fun map_opt :: "('a \<Rightarrow> 'b option) \<Rightarrow> 'a list \<Rightarrow> 'b list option" where
  "map_opt f [] = Some []"
| "map_opt f (x # xs) = do { y \<leftarrow> f x; ys \<leftarrow> map_opt f xs; Some (y # ys) }"

text \<open>A loop over a slice whose body may panic or stop.\<close>

fun fold_opt :: "('a \<Rightarrow> 's \<Rightarrow> 's option) \<Rightarrow> 'a list \<Rightarrow> 's \<Rightarrow> 's option" where
  "fold_opt f [] s = Some s"
| "fold_opt f (x # xs) s = do { s1 \<leftarrow> f x s; fold_opt f xs s1 }"

text \<open>\<^verbatim>\<open>xs.starts_with(p)\<close>\<close>

definition starts_with :: "'a list \<Rightarrow> 'a list \<Rightarrow> bool" where
  "starts_with xs p \<longleftrightarrow> take (length p) xs = p"

lemma map_opt_Some:
  "(\<And>x. x \<in> set xs \<Longrightarrow> f x = Some (g x)) \<Longrightarrow> map_opt f xs = Some (map g xs)"
  by (induction xs) auto

lemma map_opt_length: "map_opt f xs = Some ys \<Longrightarrow> length ys = length xs"
  by (induction xs arbitrary: ys) (auto split: bind_splits)

lemma get_range_append1 [codec_simps]:
  "length xs = n \<Longrightarrow> get_range (xs @ ys) 0 n = Some xs"
  by (simp add: get_range_def)

lemma get_range_append [codec_simps]:
  "length xs = a \<Longrightarrow> b = a + length ys \<Longrightarrow> get_range (xs @ ys @ zs) a b = Some ys"
  by (simp add: get_range_def)

lemma get_range_append_end [codec_simps]:
  "length xs = a \<Longrightarrow> b = a + length ys \<Longrightarrow> get_range (xs @ ys) a b = Some ys"
  by (simp add: get_range_def)

lemma get_from_append [codec_simps]: "length xs = a \<Longrightarrow> get_from (xs @ ys) a = Some ys"
  by (simp add: get_from_def)

lemma get_range_SomeD: "get_range xs a b = Some ys \<Longrightarrow> a \<le> b \<and> b \<le> length xs \<and> length ys = b - a"
  by (auto simp: get_range_def split: if_splits)

lemma idx_Some [simp]: "i < length xs \<Longrightarrow> idx xs i = Some (xs ! i)"
  by (simp add: idx_def)

lemma modify_at_Some [simp]: "i < length xs \<Longrightarrow> modify_at xs i f = Some (xs[i := f (xs ! i)])"
  by (simp add: modify_at_def)

lemma chunks_Nil [simp]: "chunks n [] = []"
  by (simp add: chunks.simps)

lemma concat_chunks: "0 < n \<Longrightarrow> concat (chunks n xs) = xs"
  by (induction n xs rule: chunks.induct) (subst chunks.simps, auto)

lemma chunks_short: "xs \<noteq> [] \<Longrightarrow> length xs \<le> n \<Longrightarrow> chunks n xs = [xs]"
  by (cases xs) (subst chunks.simps, auto)+

lemma length_chunk_le: "c \<in> set (chunks n xs) \<Longrightarrow> length c \<le> n"
proof (induction n xs rule: chunks.induct)
  case (1 n xs)
  show ?case
  proof (cases "xs = [] \<or> n = 0")
    case False
    then show ?thesis using 1 by (subst (asm) (2) chunks.simps) (auto split: if_splits)
  qed (use 1 in \<open>auto simp: chunks.simps\<close>)
qed

lemma chunk_nonempty: "c \<in> set (chunks n xs) \<Longrightarrow> c \<noteq> []"
proof (induction n xs rule: chunks.induct)
  case (1 n xs)
  then show ?case by (subst (asm) (2) chunks.simps) (auto split: if_splits)
qed

lemma zip_take_left: "zip (take n xs) (take n ys) = zip (take n xs) ys"
  by (intro nth_equalityI) auto

lemma length_concat_uniform:
  "\<forall>x \<in> set xss. length x = k \<Longrightarrow> length (concat xss) = k * length xss"
  by (induction xss) auto

lemma nth_concat_uniform:
  "\<forall>x \<in> set xss. length x = k \<Longrightarrow> i < k * length xss \<Longrightarrow>
    concat xss ! i = xss ! (i div k) ! (i mod k)"
proof (induction xss arbitrary: i)
  case Nil
  then show ?case by simp
next
  case (Cons x xss)
  show ?case
  proof (cases "i < k")
    case True
    then show ?thesis using Cons.prems by (simp add: nth_append)
  next
    case False
    then have "0 < k" using Cons.prems by (cases k) auto
    then show ?thesis using False Cons by (simp add: nth_append le_div_geq le_mod_geq)
  qed
qed

lemma div_eq_between: "0 < w \<Longrightarrow> p div w = t \<longleftrightarrow> t * w \<le> p \<and> p < t * w + (w::nat)"
proof -
  assume w: "0 < w"
  have "p div w = t \<longleftrightarrow> t \<le> p div w \<and> p div w < Suc t" by auto
  also have "\<dots> \<longleftrightarrow> t * w \<le> p \<and> p < t * w + w"
    using w by (simp add: less_eq_div_iff_mult_less_eq div_less_iff_less_mult add.commute)
  finally show ?thesis .
qed

subsection \<open>Little endian integers\<close>

text \<open>\<^verbatim>\<open>x.to_le_bytes()\<close> for an integer of \<open>n\<close> bytes, and its reader.\<close>

definition to_le :: "nat \<Rightarrow> 'a::len word \<Rightarrow> u8 list" where
  "to_le n w = map (\<lambda>i. ucast (drop_bit (8 * i) w)) [0..<n]"

fun from_le :: "u8 list \<Rightarrow> 'a::len word" where
  "from_le [] = 0"
| "from_le (b # bs) = ucast b OR push_bit 8 (from_le bs)"

definition u16_le :: "u16 \<Rightarrow> u8 list" where "u16_le w = to_le 2 w"
definition u32_le :: "u32 \<Rightarrow> u8 list" where "u32_le w = to_le 4 w"
definition u64_le :: "u64 \<Rightarrow> u8 list" where "u64_le w = to_le 8 w"

text \<open>\<^verbatim>\<open>(n as u32).to_le_bytes()\<close> of a length, which keeps the low 32 bits.\<close>

definition len_le :: "nat \<Rightarrow> u8 list" where "len_le n = u32_le (word_of_nat n)"

definition read_u16 :: "u8 list \<Rightarrow> u16" where "read_u16 bs = from_le bs"
definition read_u32 :: "u8 list \<Rightarrow> nat" where "read_u32 bs = unat (from_le bs :: u32)"
definition read_u64 :: "u8 list \<Rightarrow> u64" where "read_u64 bs = from_le bs"

text \<open>\<^verbatim>\<open>bytes.as_chunks::<8>().0.iter().map(|c| u64::from_le_bytes(*c))\<close>: a ragged
  tail of fewer than eight bytes is left out.\<close>

fun le_words :: "u8 list \<Rightarrow> u64 list" where
  "le_words bs = (if length bs < 8 then [] else read_u64 (take 8 bs) # le_words (drop 8 bs))"

declare le_words.simps [simp del]

lemma length_to_le [simp]: "length (to_le n w) = n"
  by (simp add: to_le_def)

lemma length_le [simp]:
  "length (u16_le a) = 2" "length (u32_le b) = 4" "length (u64_le c) = 8" "length (len_le n) = 4"
  by (simp_all add: u16_le_def u32_le_def u64_le_def len_le_def)

lemma to_le_Suc: "to_le (Suc n) w = ucast w # to_le n (drop_bit 8 w)"
proof -
  have "map (\<lambda>i. ucast (drop_bit (8 * i) w)) [0..<Suc n] =
      ucast w # map (\<lambda>i. ucast (drop_bit (8 * Suc i) w) :: u8) [0..<n]"
    by (simp add: upt_conv_Cons map_Suc_upt [symmetric] del: upt_Suc)
  then show ?thesis by (simp add: to_le_def drop_bit_drop_bit add.commute)
qed

lemma from_le_to_le: "LENGTH('a) \<le> k + 8 * n \<Longrightarrow> k \<le> LENGTH('a) \<Longrightarrow>
    from_le (to_le n (drop_bit k (w::'a::len word))) = drop_bit k w"
proof (induction n arbitrary: k)
  case 0
  then show ?case
    by (intro bit_word_eqI) (auto simp: to_le_def bit_simps dest: bit_imp_le_length)
next
  case (Suc n)
  have rec: "from_le (to_le n (drop_bit (k + 8) w)) = drop_bit (k + 8) w"
  proof (cases "k + 8 \<le> LENGTH('a)")
    case True
    then show ?thesis using Suc by simp
  next
    case False
    then have "drop_bit (k + 8) w = drop_bit LENGTH('a) w"
      by (intro bit_word_eqI) (auto simp: bit_simps dest: bit_imp_le_length)
    then show ?thesis using Suc.IH [of "LENGTH('a)"] by simp
  qed
  have "from_le (to_le (Suc n) (drop_bit k w)) =
      (ucast (ucast (drop_bit k w) :: u8) :: 'a word) OR push_bit 8 (drop_bit (k + 8) w)"
    using rec by (simp add: to_le_Suc drop_bit_drop_bit add.commute)
  also have "\<dots> = drop_bit k w"
  proof (rule bit_word_eqI)
    fix i
    assume "i < LENGTH('a)"
    then show "bit ((ucast (ucast (drop_bit k w) :: u8) :: 'a word) OR push_bit 8 (drop_bit (k + 8) w)) i
        = bit (drop_bit k w) i"
      by (cases "i < 8") (auto simp: bit_simps add.commute add.left_commute le_Suc_ex not_less)
  qed
  finally show ?case .
qed

lemma read_u16_le [codec_simps, simp]: "read_u16 (u16_le w) = w"
  using from_le_to_le [of 0 2 w] by (simp add: read_u16_def u16_le_def)

lemma read_u32_le [codec_simps, simp]: "read_u32 (u32_le w) = unat w"
  using from_le_to_le [of 0 4 w] by (simp add: read_u32_def u32_le_def)

lemma read_u64_le [codec_simps, simp]: "read_u64 (u64_le w) = w"
  using from_le_to_le [of 0 8 w] by (simp add: read_u64_def u64_le_def)

lemma read_len_le [codec_simps]: "n < 2 ^ 32 \<Longrightarrow> read_u32 (len_le n) = n"
  by (simp add: len_le_def unat_of_nat take_bit_nat_eq_self)

lemma read_u32_bound: "read_u32 bs < 2 ^ 32"
  unfolding read_u32_def using unsigned_less [of "from_le bs :: u32"] by simp

lemma le_words_u64_le [simp]: "le_words (u64_le w @ bs) = w # le_words bs"
  by (subst le_words.simps) simp

lemma le_words_Nil [simp]: "le_words [] = []"
  by (simp add: le_words.simps)

lemma le_words_concat [codec_simps]: "le_words (concat (map u64_le ws)) = ws"
  by (induction ws) auto

lemma length_le_words: "length (le_words bs) = length bs div 8"
  by (induction bs rule: le_words.induct)
    (subst le_words.simps, auto simp: div_less not_less le_div_geq)

text \<open>Bytes read as an integer and written again are the same bytes.\<close>

lemma bit_from_le: "bit (from_le bs :: 'a::len word) i \<longleftrightarrow>
    i < LENGTH('a) \<and> i div 8 < length bs \<and> bit (bs ! (i div 8)) (i mod 8)"
proof (induction bs arbitrary: i)
  case (Cons b bs)
  show ?case
  proof (cases "i < 8")
    case True
    then show ?thesis by (auto simp: bit_simps)
  next
    case False
    have "i div 8 = Suc ((i - 8) div 8)" "i mod 8 = (i - 8) mod 8"
      using False by (auto simp: le_div_geq le_mod_geq)
    then show ?thesis using False Cons [of "i - 8"] by (auto simp: bit_simps dest: bit_imp_le_length)
  qed
qed simp

lemma to_le_from_le:
  assumes "length bs = n" "8 * n \<le> LENGTH('a::len)"
  shows "to_le n (from_le bs :: 'a word) = bs"
proof (rule nth_equalityI)
  fix i
  assume "i < length (to_le n (from_le bs :: 'a word))"
  then have i: "i < n" by simp
  show "to_le n (from_le bs :: 'a word) ! i = bs ! i"
  proof (rule bit_word_eqI)
    fix j assume "j < LENGTH(8)"
    then have "(8 * i + j) div 8 = i" "(8 * i + j) mod 8 = j" "8 * i + j < LENGTH('a)"
      using i assms by auto
    then show "bit (to_le n (from_le bs :: 'a word) ! i) j = bit (bs ! i) j"
      using i assms \<open>j < LENGTH(8)\<close> by (simp add: to_le_def bit_simps bit_from_le)
  qed
qed (use assms in simp)

lemma u64_le_read [simp]: "length bs = 8 \<Longrightarrow> u64_le (read_u64 bs) = bs"
  by (simp add: u64_le_def read_u64_def to_le_from_le)

lemma len_le_read: "length bs = 4 \<Longrightarrow> len_le (read_u32 bs) = bs"
  by (simp add: len_le_def u32_le_def read_u32_def to_le_from_le)

lemma concat_le_words: "length bs mod 8 = 0 \<Longrightarrow> concat (map u64_le (le_words bs)) = bs"
proof (induction bs rule: le_words.induct)
  case (1 bs)
  show ?case
  proof (cases "length bs < 8")
    case True
    then show ?thesis using 1 by (simp add: le_words.simps)
  next
    case False
    then have "le_words bs = read_u64 (take 8 bs) # le_words (drop 8 bs)" by (subst le_words.simps) simp
    then show ?thesis using 1 False by (simp add: le_mod_geq)
  qed
qed

end
