(* ===== verification/Bitpack.thy ===== *)
theory Bitpack
  imports ZuPrelude
begin

text \<open>
  \<^verbatim>\<open>crates/zu-encoding/src/bitpack.rs\<close>: fixed width packing of up to 1024 values into
  whole little endian words, in the sequential layout of a short tail and in the
  transposed layout of a full chunk, and the two readers. The lemmas show that packing
  and unpacking are inverse up to the width, that the packed size alone tells the reader
  which layout it holds, and that neither direction panics on what the containers feed it.
\<close>

definition CHUNK :: nat where "CHUNK = 1024"

definition LANES :: nat where "LANES = 16"

definition packed_bytes :: "nat \<Rightarrow> nat \<Rightarrow> nat" where
  "packed_bytes width count = ((count * width + 63) div 64) * 8"

text \<open>\<^verbatim>\<open>bits_needed\<close> of the crate root: \<^verbatim>\<open>64 - max.leading_zeros()\<close>.\<close>

fun bits_needed_from :: "nat \<Rightarrow> u64 \<Rightarrow> nat" where
  "bits_needed_from 0 w = 0"
| "bits_needed_from (Suc n) w = (if bit w n then Suc n else bits_needed_from n w)"

definition bits_needed :: "u64 \<Rightarrow> nat" where
  "bits_needed w = bits_needed_from 64 w"

definition width_mask :: "nat \<Rightarrow> u64" where
  "width_mask width = (if width = 64 then - 1 else push_bit width 1 - 1)"

subsection \<open>Packing\<close>

text \<open>The accumulator loop of \<^verbatim>\<open>pack\<close>: it returns the bytes it pushes.\<close>

fun pack_loop :: "nat \<Rightarrow> u64 \<Rightarrow> u64 list \<Rightarrow> u64 \<Rightarrow> nat \<Rightarrow> u8 list" where
  "pack_loop width m [] acc bits = (if bits > 0 then u64_le acc else [])"
| "pack_loop width m (raw # vs) acc bits =
     (let v = raw AND m;
          acc1 = acc OR push_bit bits v;
          bits1 = bits + width
      in if bits1 \<ge> 64
         then u64_le acc1 @
              pack_loop width m vs
                (if bits1 - 64 = 0 then 0 else drop_bit (width - (bits1 - 64)) v) (bits1 - 64)
         else pack_loop width m vs acc1 bits1)"

fun pack_transposed_loop ::
    "nat \<Rightarrow> u64 \<Rightarrow> nat \<Rightarrow> u64 list \<Rightarrow> u64 list \<Rightarrow> u64 list option" where
  "pack_transposed_loop w m i [] words = Some words"
| "pack_transposed_loop w m i (raw # vs) words =
     (let bits = i div LANES * w;
          r = bits div 64;
          s = bits mod 64;
          v = raw AND m
      in do {
        words1 \<leftarrow> modify_at words (LANES * r + i mod LANES) (\<lambda>x. x OR push_bit s v);
        words2 \<leftarrow> (if s + w > 64
                   then modify_at words1 (LANES * (r + 1) + i mod LANES)
                          (\<lambda>x. x OR drop_bit (64 - s) v)
                   else Some words1);
        pack_transposed_loop w m (Suc i) vs words2
      })"

definition pack_transposed :: "u64 list \<Rightarrow> nat \<Rightarrow> u64 \<Rightarrow> u8 list option" where
  "pack_transposed values width m =
     do {
       words \<leftarrow> get_range (replicate (LANES * 63) 0) 0 (LANES * width);
       words \<leftarrow> pack_transposed_loop width m 0 values words;
       Some (concat (map u64_le words))
     }"

definition pack :: "u64 list \<Rightarrow> nat \<Rightarrow> u8 list option" where
  "pack values width =
     (if \<not> length values \<le> CHUNK \<or> \<not> width \<le> 64 then None
      else if width = 0 then Some []
      else let m = width_mask width in
        if width > 1 \<and> width < 64 \<and> packed_bytes width (length values) = 128 * width
        then pack_transposed values width m
        else Some (pack_loop width m values 0 0))"

subsection \<open>Unpacking\<close>

text \<open>
  The scratch array of both readers: \<^verbatim>\<open>[0u64; 16 * 63]\<close> whose first \<^verbatim>\<open>16 * W\<close> words
  are overwritten by as many words as the bytes hold.
\<close>

definition scratch_words :: "nat \<Rightarrow> u8 list \<Rightarrow> u64 list" where
  "scratch_words W packed =
     (let ws = take (16 * W) (le_words packed)
      in ws @ replicate (16 * 63 - length ws) 0)"

text \<open>
  One step of the transposed reader: row \<open>r\<close> of the sixteen lanes, with the row behind
  it where the values cross a word.
\<close>

definition unpack_transposed_row :: "nat \<Rightarrow> u64 list \<Rightarrow> nat \<Rightarrow> u64 list option" where
  "unpack_transposed_row W words t =
     (let m = push_bit W 1 - 1;
          bits = t * W;
          r = bits div 64;
          s = bits mod 64
      in do {
        lo \<leftarrow> get_range words (LANES * r) (LANES * (r + 1));
        if s + W > 64
        then do {
          hi \<leftarrow> get_range words (LANES * (r + 1)) (LANES * (r + 2));
          Some (map (\<lambda>(l, h). (drop_bit s l OR push_bit (64 - s) h) AND m) (zip lo hi))
        }
        else Some (map (\<lambda>l. drop_bit s l AND m) lo)
      })"

definition unpack_transposed :: "nat \<Rightarrow> u8 list \<Rightarrow> u64 list option" where
  "unpack_transposed W packed =
     do {
       rows \<leftarrow> map_opt (unpack_transposed_row W (scratch_words W packed)) [0..<CHUNK div LANES];
       Some (concat rows)
     }"

definition unpack_const_slot :: "nat \<Rightarrow> u64 list \<Rightarrow> nat \<Rightarrow> nat \<Rightarrow> u64 option" where
  "unpack_const_slot W words block i =
     (let m = push_bit W 1 - 1;
          base = block * W;
          bits = i * W;
          w = base + bits div 64;
          s = bits mod 64
      in do {
        x \<leftarrow> idx words w;
        let lo = drop_bit s x in
        if s + W > 64
        then do { y \<leftarrow> idx words (w + 1); Some ((lo OR push_bit (64 - s) y) AND m) }
        else Some (lo AND m)
      })"

definition unpack_const :: "nat \<Rightarrow> u8 list \<Rightarrow> u64 list option" where
  "unpack_const W packed =
     (let words = scratch_words W packed
      in do {
        blocks \<leftarrow> map_opt (\<lambda>block. map_opt (unpack_const_slot W words block) [0..<64])
                    [0..<CHUNK div 64];
        Some (concat blocks)
      })"

text \<open>\<^verbatim>\<open>unpack\<close> returns the 1024 slots it writes; the caller's slice is that long.\<close>

definition unpack :: "u8 list \<Rightarrow> nat \<Rightarrow> u64 list option" where
  "unpack packed width =
     (if \<not> width \<le> 64 \<or> length packed mod 8 \<noteq> 0 then None
      else if width = 0 then Some (replicate CHUNK 0)
      else if width = 64
      then let n = min (length packed div 8) CHUNK
           in Some (take CHUNK (le_words packed) @ replicate (CHUNK - n) 0)
      else let full = (width > 1 \<and> length packed = 128 * width)
           in if full then unpack_transposed width packed else unpack_const width packed)"

subsection \<open>Widths and masks\<close>

lemma bits_needed_from_le: "bits_needed_from n w \<le> n"
  by (induction n) auto

lemma bits_needed_le_64 [simp]: "bits_needed w \<le> 64"
  unfolding bits_needed_def by (rule bits_needed_from_le)

lemma bits_needed_from_bit: "i < n \<Longrightarrow> bits_needed_from n w \<le> i \<Longrightarrow> \<not> bit w i"
  by (induction n) (auto simp: less_Suc_eq split: if_splits)

lemma bits_needed_bit: "bits_needed w \<le> i \<Longrightarrow> \<not> bit w i"
  using bits_needed_from_bit [of i 64 w] bit_imp_le_length [of w i]
  by (auto simp: bits_needed_def)

lemma bit_less_bits_needed: "bit w i \<Longrightarrow> i < bits_needed w"
  using bits_needed_bit not_less by blast

lemma bits_needed_top: "bits_needed w = Suc n \<Longrightarrow> bit w n"
proof -
  have "bits_needed_from k w = Suc n \<Longrightarrow> bit w n" for k
    by (induction k) (auto split: if_splits)
  then show "bits_needed w = Suc n \<Longrightarrow> bit w n" unfolding bits_needed_def .
qed

lemma take_bit_bits_needed: "bits_needed w \<le> n \<Longrightarrow> take_bit n w = w"
  by (intro bit_word_eqI) (auto simp: bit_simps dest: bit_less_bits_needed)

lemma bits_needed_le_iff: "bits_needed w \<le> n \<longleftrightarrow> unat w < 2 ^ n"
proof (cases "n \<ge> 64")
  case True
  have "unat w < 2 ^ 64" using unsigned_less [of w] by simp
  also have "(2::nat) ^ 64 \<le> 2 ^ n" using True by (intro power_increasing) auto
  finally have "unat w < 2 ^ n" .
  moreover have "bits_needed w \<le> n" using bits_needed_le_64 True by (rule le_trans)
  ultimately show ?thesis by simp
next
  case False
  show ?thesis
  proof
    assume "bits_needed w \<le> n"
    then have "unat w = unat (take_bit n w)" by (simp add: take_bit_bits_needed)
    also have "\<dots> < 2 ^ n" by (simp add: unsigned_take_bit_eq)
    finally show "unat w < 2 ^ n" .
  next
    assume lt: "unat w < 2 ^ n"
    show "bits_needed w \<le> n"
    proof (rule ccontr)
      assume "\<not> bits_needed w \<le> n"
      then obtain k where k: "bits_needed w = Suc k" "n \<le> k" by (cases "bits_needed w") auto
      then have "bit (unat w) k" using bits_needed_top [of w k] by (simp add: bit_unsigned_iff)
      moreover have "take_bit n (unat w) = unat w" using lt by (simp add: take_bit_nat_eq_self)
      ultimately show False using k(2) by (metis bit_take_bit_iff not_less)
    qed
  qed
qed

lemma bits_needed_mono: "v \<le> w \<Longrightarrow> bits_needed v \<le> bits_needed w"
  by (metis bits_needed_le_iff le_less_trans order_refl word_le_nat_alt)

lemma width_mask_eq: "width \<le> 64 \<Longrightarrow> width_mask width = mask width"
proof -
  assume "width \<le> 64"
  have "(mask 64 :: u64) = - 1"
    by (intro bit_word_eqI) (simp add: bit_simps)
  then show ?thesis by (simp add: width_mask_def mask_eq_exp_minus_1 push_bit_eq_mult)
qed

lemma and_width_mask: "width \<le> 64 \<Longrightarrow> v AND width_mask width = take_bit width v"
  by (simp add: width_mask_eq take_bit_eq_mask)

lemma and_shift_mask: "v AND (push_bit W 1 - 1) = take_bit W (v :: u64)"
  by (simp add: take_bit_eq_mask mask_eq_exp_minus_1 push_bit_eq_mult)

lemma packed_bytes_mod8 [simp]: "packed_bytes w n mod 8 = 0"
  by (simp add: packed_bytes_def)

lemma packed_bytes_0 [simp]: "packed_bytes 0 n = 0" "packed_bytes w 0 = 0"
  by (simp_all add: packed_bytes_def)

lemma packed_bytes_full: "packed_bytes w CHUNK = 128 * w"
  by (simp add: packed_bytes_def CHUNK_def)

lemma packed_bytes_le: "n \<le> CHUNK \<Longrightarrow> packed_bytes w n \<le> 128 * w"
proof -
  assume "n \<le> CHUNK"
  then have "n * w \<le> 1024 * w" by (simp add: CHUNK_def)
  then have "(n * w + 63) div 64 \<le> (1024 * w + 63) div 64" by (intro div_le_mono) simp
  then show ?thesis by (simp add: packed_bytes_def)
qed

subsection \<open>The bit stream both layouts hold\<close>

text \<open>
  Bit \<open>p\<close> of the stream of \<open>n\<close> values of width \<open>w\<close>: value \<open>p div w\<close>, bit
  \<open>p mod w\<close>. The sequential layout is one such stream, the transposed layout sixteen.
\<close>

definition stream :: "nat \<Rightarrow> nat \<Rightarrow> (nat \<Rightarrow> u64) \<Rightarrow> nat \<Rightarrow> bool" where
  "stream w n g p \<longleftrightarrow> p div w < n \<and> bit (g (p div w)) (p mod w)"

lemma stream_0 [simp]: "stream w 0 g p = False"
  by (simp add: stream_def)

lemma stream_Cons:
  "0 < w \<Longrightarrow> stream w (Suc n) ((!) (x # xs)) q
    \<longleftrightarrow> (if q < w then bit x q else stream w n ((!) xs) (q - w))"
  by (auto simp: stream_def not_less le_div_geq le_mod_geq)

lemma stream_at: "0 < w \<Longrightarrow> j < w \<Longrightarrow> stream w n g (i * w + j) \<longleftrightarrow> i < n \<and> bit (g i) j"
  by (simp add: stream_def)

text \<open>
  Reading \<open>w\<close> bits at position \<open>i * w\<close> out of two neighbouring words, as both readers
  do, gives value \<open>i\<close> of the stream the words hold.
\<close>

lemma read_stream:
  fixes f :: "nat \<Rightarrow> u64"
  assumes w: "0 < w" "w \<le> 64"
    and f: "\<And>k j. j < 64 \<Longrightarrow> bit (f k) j = stream w n g (64 * k + j)"
    and k: "k = i * w div 64" and s: "s = i * w mod 64"
  shows "(if s + w > 64 then (drop_bit s (f k) OR push_bit (64 - s) (f (k + 1))) AND (push_bit w 1 - 1)
          else drop_bit s (f k) AND (push_bit w 1 - 1))
         = (if i < n then take_bit w (g i) else 0)"
    (is "?lhs = ?rhs")
proof (rule bit_word_eqI)
  fix j assume "j < LENGTH(64)"
  then have j: "j < 64" by simp
  have ks: "64 * k + s = i * w" by (simp add: k s)
  have s64: "s < 64" by (simp add: s)
  show "bit ?lhs j = bit ?rhs j"
  proof (cases "j < w")
    case False
    then show ?thesis unfolding and_shift_mask by (auto simp: bit_simps)
  next
    case jw: True
    have here: "s + j < 64 \<Longrightarrow> bit (f k) (s + j) = (i < n \<and> bit (g i) j)"
      using f [of "s + j" k] ks stream_at [OF w(1) jw, of n g i] by (simp add: add.assoc [symmetric])
    have there: "\<not> s + j < 64 \<Longrightarrow> bit (f (k + 1)) (s + j - 64) = (i < n \<and> bit (g i) j)"
    proof -
      assume ge: "\<not> s + j < 64"
      have "64 * (k + 1) + (s + j - 64) = i * w + j" using ge ks by simp
      then show ?thesis
        using f [of "s + j - 64" "k + 1"] s64 j stream_at [OF w(1) jw, of n g i] by simp
    qed
    have big: "\<not> s + j < 64 \<Longrightarrow> \<not> bit (f k) (s + j)"
      using bit_imp_le_length [of "f k" "s + j"] by auto
    show ?thesis
    proof (cases "s + j < 64")
      case True
      then have "\<not> 64 - s \<le> j" by simp
      then show ?thesis using True jw j here unfolding and_shift_mask
        by (auto simp: bit_simps)
    next
      case False
      then have "s + w > 64" using jw by simp
      moreover have "j - (64 - s) = s + j - 64" using False s64 by simp
      ultimately show ?thesis using False jw j there big unfolding and_shift_mask
        by (auto simp: bit_simps)
    qed
  qed
qed

subsection \<open>The sequential layout\<close>

text \<open>The words the accumulator loop pushes.\<close>

fun pack_loop_words :: "nat \<Rightarrow> u64 list \<Rightarrow> u64 \<Rightarrow> nat \<Rightarrow> u64 list" where
  "pack_loop_words width [] acc bits = (if bits > 0 then [acc] else [])"
| "pack_loop_words width (raw # vs) acc bits =
     (let v = take_bit width raw; acc1 = acc OR push_bit bits v in
      if bits + width \<ge> 64
      then acc1 # pack_loop_words width vs (drop_bit (64 - bits) v) (bits + width - 64)
      else pack_loop_words width vs acc1 (bits + width))"

lemma pack_loop_eq:
  "0 < width \<Longrightarrow> width \<le> 64 \<Longrightarrow> bits < 64 \<Longrightarrow>
   pack_loop width (width_mask width) vs acc bits = concat (map u64_le (pack_loop_words width vs acc bits))"
proof (induction vs arbitrary: acc bits)
  case Nil
  then show ?case by simp
next
  case (Cons raw vs)
  have zero: "bits + width = 64 \<Longrightarrow> drop_bit (64 - bits) (take_bit width raw) = 0"
    by (intro bit_word_eqI) (auto simp: bit_simps)
  show ?case
    using Cons zero by (auto simp: Let_def and_width_mask)
qed

lemma pack_loop_words_stream:
  assumes "0 < w" "w \<le> 64" "bits < 64" "\<And>j. bits \<le> j \<Longrightarrow> \<not> bit acc j"
  shows "length (pack_loop_words w vs acc bits) = (bits + length vs * w + 63) div 64 \<and>
    (\<forall>k j. j < 64 \<longrightarrow> k < length (pack_loop_words w vs acc bits) \<longrightarrow>
       bit (pack_loop_words w vs acc bits ! k) j =
       (if 64 * k + j < bits then bit acc (64 * k + j)
        else stream w (length vs) ((!) vs) (64 * k + j - bits)))"
  using assms
proof (induction vs arbitrary: acc bits)
  case Nil
  then show ?case by auto
next
  case (Cons raw vs)
  let ?v = "take_bit w raw"
  let ?acc1 = "acc OR push_bit bits ?v"
  show ?case
  proof (cases "bits + w \<ge> 64")
    case False
    have "\<And>j. bits + w \<le> j \<Longrightarrow> \<not> bit ?acc1 j"
      using Cons.prems(4) by (auto simp: bit_simps)
    from Cons.IH [OF Cons.prems(1,2) _ this] False
    have len: "length (pack_loop_words w vs ?acc1 (bits + w)) = (bits + w + length vs * w + 63) div 64"
      and b: "\<And>k j. j < 64 \<Longrightarrow> k < length (pack_loop_words w vs ?acc1 (bits + w)) \<Longrightarrow>
        bit (pack_loop_words w vs ?acc1 (bits + w) ! k) j =
        (if 64 * k + j < bits + w then bit ?acc1 (64 * k + j)
         else stream w (length vs) ((!) vs) (64 * k + j - (bits + w)))" by simp_all
    have acc1: "p < bits + w \<Longrightarrow> bit ?acc1 p = (if p < bits then bit acc p else bit raw (p - bits))" for p
      using Cons.prems(4) [of p] False by (auto simp: bit_simps)
    show ?thesis using False len b acc1 Cons.prems(1)
      by (auto simp: Let_def stream_Cons add.assoc)
  next
    case True
    let ?acc2 = "drop_bit (64 - bits) ?v" and ?bits2 = "bits + w - 64"
    let ?ws = "pack_loop_words w vs ?acc2 ?bits2"
    have "\<And>j. ?bits2 \<le> j \<Longrightarrow> \<not> bit ?acc2 j"
      using True Cons.prems(3) by (auto simp: bit_simps)
    from Cons.IH [OF Cons.prems(1,2) _ this] Cons.prems(2,3) True
    have len: "length ?ws = (?bits2 + length vs * w + 63) div 64"
      and b: "\<And>k j. j < 64 \<Longrightarrow> k < length ?ws \<Longrightarrow>
        bit (?ws ! k) j =
        (if 64 * k + j < ?bits2 then bit ?acc2 (64 * k + j)
         else stream w (length vs) ((!) vs) (64 * k + j - ?bits2))" by auto
    have "(bits + length (raw # vs) * w + 63) div 64 = Suc ((?bits2 + length vs * w + 63) div 64)"
      using True by (simp add: le_div_geq [symmetric] algebra_simps div_add_self2)
    then have "length (?acc1 # ?ws) = (bits + length (raw # vs) * w + 63) div 64"
      using len by simp
    moreover have "bit ((?acc1 # ?ws) ! k) j =
       (if 64 * k + j < bits then bit acc (64 * k + j)
        else stream w (length (raw # vs)) ((!) (raw # vs)) (64 * k + j - bits))"
      if j: "j < 64" and k: "k < length (?acc1 # ?ws)" for k j
    proof (cases k)
      case 0
      then show ?thesis using j True Cons.prems(1,4)
        by (auto simp: stream_Cons bit_simps)
    next
      case (Suc k')
      have p: "64 * k + j = 64 + (64 * k' + j)" using Suc by simp
      have "bit (?ws ! k') j =
        (if 64 * k' + j < ?bits2 then bit raw (64 * k' + j + 64 - bits)
         else stream w (length vs) ((!) vs) (64 * k' + j - ?bits2))"
        using b [OF j, of k'] k Suc True Cons.prems(3)
        by (auto simp: bit_simps add.commute)
      then show ?thesis using Suc Cons.prems(1,3) True unfolding p
        by (auto simp: stream_Cons algebra_simps)
    qed
    ultimately show ?thesis using True by (simp add: Let_def del: stream_0)
  qed
qed

subsection \<open>The transposed layout\<close>

lemma lane_index:
  assumes "L < 16" "L' < (16::nat)"
  shows "16 * r + L = 16 * r' + L' \<longleftrightarrow> r = r' \<and> L = L'"
proof
  assume eq: "16 * r + L = 16 * r' + L'"
  have "(16 * r + L) div 16 = r" "(16 * r' + L') div 16 = r'" using assms by simp_all
  then have "r = r'" using eq by simp
  then show "r = r' \<and> L = L'" using eq by simp
qed simp

text \<open>One step of the transposed packer sets the bits of value \<open>i\<close> and no other.\<close>

lemma transposed_step:
  fixes w i :: nat and raw :: u64
  defines "t \<equiv> i div 16" and "L \<equiv> i mod 16"
  defines "r \<equiv> t * w div 64" and "s \<equiv> t * w mod 64" and "v \<equiv> take_bit w raw"
  assumes w: "0 < w" "w \<le> 64" and len: "length words = 16 * w" and i: "i < 1024"
  shows "16 * r + L < 16 * w" "s + w > 64 \<Longrightarrow> 16 * (r + 1) + L < 16 * w"
    and "\<And>r' L' j. r' < w \<Longrightarrow> L' < 16 \<Longrightarrow> j < 64 \<Longrightarrow>
      bit ((let words1 = words[16 * r + L := words ! (16 * r + L) OR push_bit s v]
            in if s + w > 64
               then words1[16 * (r + 1) + L := words1 ! (16 * (r + 1) + L) OR drop_bit (64 - s) v]
               else words1) ! (16 * r' + L')) j
      \<longleftrightarrow> bit (words ! (16 * r' + L')) j \<or>
          L' = L \<and> (64 * r' + j) div w = t \<and> bit raw ((64 * r' + j) mod w)"
proof -
  have t: "t \<le> 63" using i by (simp add: t_def)
  have L: "L < 16" by (simp add: L_def)
  have rs: "64 * r + s = t * w" by (simp add: r_def s_def)
  have s64: "s < 64" by (simp add: s_def)
  have tw: "t * w + w \<le> 64 * w" using t mult_le_mono1 [of "t + 1" 64 w] by simp
  have rw: "r < w" using rs tw w by linarith
  then show b1: "16 * r + L < 16 * w" using L by linarith
  have rw2: "s + w > 64 \<Longrightarrow> r + 1 < w" using rs tw by linarith
  show b2: "s + w > 64 \<Longrightarrow> 16 * (r + 1) + L < 16 * w" using rw2 L by simp
  fix r' L' j :: nat
  assume r': "r' < w" and L': "L' < 16" and j: "j < 64"
  let ?p = "64 * r' + j"
  let ?words1 = "words[16 * r + L := words ! (16 * r + L) OR push_bit s v]"
  have idx1: "16 * r' + L' = 16 * r + L \<longleftrightarrow> r' = r \<and> L' = L"
    and idx2: "16 * r' + L' = 16 * (r + 1) + L \<longleftrightarrow> r' = r + 1 \<and> L' = L"
    using lane_index [OF L' L] by blast+
  have hit: "?p div w = t \<and> bit raw (?p mod w) \<longleftrightarrow> 64 * r + s \<le> ?p \<and> ?p < 64 * r + s + w \<and> bit raw (?p - (64 * r + s))"
  proof (cases "?p div w = t")
    case True
    then have "?p mod w = ?p - t * w" by (simp add: modulo_nat_def mult.commute)
    then show ?thesis using True div_eq_between [OF w(1), of ?p t] rs by simp
  next
    case False
    then show ?thesis using div_eq_between [OF w(1), of ?p t] rs by auto
  qed
  have one: "bit (?words1 ! (16 * r' + L')) j \<longleftrightarrow> bit (words ! (16 * r' + L')) j \<or>
      r' = r \<and> L' = L \<and> s \<le> j \<and> j < s + w \<and> bit raw (j - s)"
  proof (cases "r' = r \<and> L' = L")
    case True
    then show ?thesis using b1 len j unfolding v_def by (auto simp: bit_simps)
  next
    case False
    then show ?thesis using idx1 by auto
  qed
  show "bit ((let words1 = ?words1
            in if s + w > 64
               then words1[16 * (r + 1) + L := words1 ! (16 * (r + 1) + L) OR drop_bit (64 - s) v]
               else words1) ! (16 * r' + L')) j
      \<longleftrightarrow> bit (words ! (16 * r' + L')) j \<or>
          L' = L \<and> ?p div w = t \<and> bit raw (?p mod w)"
  proof (cases "s + w > 64")
    case False
    then have "?p div w = t \<and> bit raw (?p mod w) \<longleftrightarrow> r' = r \<and> s \<le> j \<and> j < s + w \<and> bit raw (j - s)"
      using hit j s64 w by (cases "r' = r"; cases "r' < r") auto
    then show ?thesis using False one by auto
  next
    case True
    have two: "bit (?words1[16 * (r + 1) + L := ?words1 ! (16 * (r + 1) + L) OR drop_bit (64 - s) v] ! (16 * r' + L')) j
      \<longleftrightarrow> bit (?words1 ! (16 * r' + L')) j \<or> r' = r + 1 \<and> L' = L \<and> 64 + j < s + w \<and> bit raw (64 + j - s)"
    proof (cases "r' = r + 1 \<and> L' = L")
      case t1: True
      have "bit (drop_bit (64 - s) v) j \<longleftrightarrow> 64 + j < s + w \<and> bit raw (64 + j - s)"
        using s64 unfolding v_def by (auto simp: bit_simps)
      then show ?thesis using t1 b2 [OF True] len by (auto simp: bit_or_iff)
    next
      case False
      then show ?thesis using idx2 by auto
    qed
    have "?p div w = t \<and> bit raw (?p mod w) \<longleftrightarrow>
       r' = r \<and> s \<le> j \<and> j < s + w \<and> bit raw (j - s) \<or> r' = r + 1 \<and> 64 + j < s + w \<and> bit raw (64 + j - s)"
      using hit j s64 w True
      by (cases "r' = r"; cases "r' = r + 1"; cases "r' < r") auto
    then show ?thesis using True one two by auto
  qed
qed

lemma transposed_loop:
  assumes w: "0 < w" "w \<le> 64" and "length words = 16 * w" and "i + length vs \<le> 1024"
  shows "\<exists>words'. pack_transposed_loop w (width_mask w) i vs words = Some words' \<and>
    length words' = 16 * w \<and>
    (\<forall>r L j. r < w \<longrightarrow> L < 16 \<longrightarrow> j < 64 \<longrightarrow>
      (bit (words' ! (16 * r + L)) j \<longleftrightarrow> bit (words ! (16 * r + L)) j \<or>
        (let k = 16 * ((64 * r + j) div w) + L
         in i \<le> k \<and> k < i + length vs \<and> bit (vs ! (k - i)) ((64 * r + j) mod w))))"
  using assms(3,4)
proof (induction vs arbitrary: i words)
  case Nil
  then show ?case by (auto simp: Let_def)
next
  case (Cons raw vs)
  define t L where "t = i div 16" and "L = i mod 16"
  define r s where "r = t * w div 64" and "s = t * w mod 64"
  define v where "v = take_bit w raw"
  define words1 where "words1 = words[16 * r + L := words ! (16 * r + L) OR push_bit s v]"
  define words2 where "words2 = (if s + w > 64
      then words1[16 * (r + 1) + L := words1 ! (16 * (r + 1) + L) OR drop_bit (64 - s) v] else words1)"
  have i: "i < 1024" using Cons.prems by simp
  note step12 = transposed_step(1,2) [OF w Cons.prems(1) i, folded t_def L_def, folded r_def s_def]
  note step3 = transposed_step(3) [OF w Cons.prems(1) i, where raw = raw,
      folded t_def L_def, folded r_def s_def v_def, folded words1_def]
  have len2: "length words2 = 16 * w" using Cons.prems(1) by (simp add: words1_def words2_def)
  have iL: "i = 16 * t + L" "L < 16" by (simp_all add: t_def L_def)
  have run: "pack_transposed_loop w (width_mask w) i (raw # vs) words =
      pack_transposed_loop w (width_mask w) (Suc i) vs words2"
    using step12 Cons.prems(1) w unfolding words2_def words1_def
    by (simp add: LANES_def Let_def and_width_mask flip: t_def L_def r_def s_def v_def)
  have "Suc i + length vs \<le> 1024" using Cons.prems(2) by simp
  from Cons.IH [OF len2 this] obtain words' where
    w': "pack_transposed_loop w (width_mask w) (Suc i) vs words2 = Some words'" "length words' = 16 * w"
    and b: "\<And>r L j. r < w \<Longrightarrow> L < 16 \<Longrightarrow> j < 64 \<Longrightarrow>
      (bit (words' ! (16 * r + L)) j \<longleftrightarrow> bit (words2 ! (16 * r + L)) j \<or>
        (let k = 16 * ((64 * r + j) div w) + L
         in Suc i \<le> k \<and> k < Suc i + length vs \<and> bit (vs ! (k - Suc i)) ((64 * r + j) mod w)))"
    by blast
  have "bit (words' ! (16 * r' + L')) j \<longleftrightarrow> bit (words ! (16 * r' + L')) j \<or>
        (let k = 16 * ((64 * r' + j) div w) + L'
         in i \<le> k \<and> k < i + length (raw # vs) \<and> bit ((raw # vs) ! (k - i)) ((64 * r' + j) mod w))"
    if h: "r' < w" "L' < 16" "j < 64" for r' L' j
  proof -
    let ?d = "(64 * r' + j) div w"
    have same: "16 * ?d + L' = i \<longleftrightarrow> L' = L \<and> ?d = t"
      using iL lane_index [OF h(2) iL(2), of ?d t] by auto
    have s2: "bit (words2 ! (16 * r' + L')) j \<longleftrightarrow> bit (words ! (16 * r' + L')) j \<or>
          L' = L \<and> ?d = t \<and> bit raw ((64 * r' + j) mod w)"
      using step3 [OF h] by (simp add: Let_def words2_def)
    show ?thesis
      using b [OF h] s2 same
      by (cases "16 * ?d + L' = i") (auto simp: Let_def nth_Cons' Suc_le_eq)
  qed
  then show ?case using run w' by auto
qed

subsection \<open>Both readers on a packed stream\<close>

text \<open>The scratch array read as a function on word indices, zero past the packed words.\<close>

lemma scratch_words_concat:
  "length ws \<le> 16 * W \<Longrightarrow> W \<le> 63 \<Longrightarrow>
   scratch_words W (concat (map u64_le ws)) = ws @ replicate (1008 - length ws) 0"
  by (simp add: scratch_words_def le_words_concat)

lemma unpack_const_stream:
  assumes w: "0 < w" "w \<le> 63" and len: "length words = 1008"
    and f: "\<And>k j. k < 1008 \<Longrightarrow> j < 64 \<Longrightarrow> bit (words ! k) j = stream w n g (64 * k + j)"
    and n: "n \<le> 1024"
    and b: "block < 16" and i: "i < 64"
  shows "unpack_const_slot w words block i =
    Some (if 64 * block + i < n then take_bit w (g (64 * block + i)) else 0)"
proof -
  let ?i = "64 * block + i"
  define f' where "f' k = (if k < 1008 then words ! k else 0)" for k
  have f': "j < 64 \<Longrightarrow> bit (f' k) j = stream w n g (64 * k + j)" for k j
  proof (cases "k < 1008")
    case False
    assume "j < 64"
    have "n * w \<le> 1024 * 63" using n w by (intro mult_le_mono) auto
    then have "\<not> 64 * k + j < n * w" using False by simp
    then have "\<not> stream w n g (64 * k + j)"
      using w(1) by (simp add: stream_def div_less_iff_less_mult)
    then show ?thesis using False by (simp add: f'_def)
  qed (simp add: f f'_def)
  have e: "?i * w = i * w + block * w * 64" by (simp add: algebra_simps)
  have k: "block * w + i * w div 64 = ?i * w div 64" unfolding e by simp
  have s: "i * w mod 64 = ?i * w mod 64" unfolding e by (rule mod_mult_self1 [symmetric])
  have "?i * w \<le> 1023 * 63" using b i w by (intro mult_le_mono) auto
  then have k1: "?i * w div 64 < 1008" by simp
  have "64 * (?i * w div 64) + ?i * w mod 64 = ?i * w" by simp
  then have k2: "?i * w mod 64 + w > 64 \<Longrightarrow> ?i * w div 64 + 1 < 1008"
  proof -
    assume cross: "?i * w mod 64 + w > 64"
    have "?i + 1 \<le> 1024" using b i by simp
    then have "(?i + 1) * w \<le> 1024 * 63" using w by (intro mult_le_mono) auto
    then have "?i * w + w \<le> 1024 * 63" by simp
    then show ?thesis using cross \<open>64 * (?i * w div 64) + ?i * w mod 64 = ?i * w\<close> by linarith
  qed
  have w64: "w \<le> 64" using w by simp
  from read_stream [of w f' n g "?i * w div 64" ?i "?i * w mod 64", OF w(1) w64 f' refl refl]
  show ?thesis using k1 k2 len
    by (auto simp: unpack_const_slot_def Let_def k s f'_def split: if_splits)
qed

lemma unpack_row_stream:
  assumes w: "0 < w" "w \<le> 63" and len: "length words = 1008"
    and f: "\<And>r L j. r < w \<Longrightarrow> L < 16 \<Longrightarrow> j < 64 \<Longrightarrow>
      bit (words ! (16 * r + L)) j = stream w (n L) (\<lambda>t. g (16 * t + L)) (64 * r + j)"
    and t: "t < 64"
  shows "unpack_transposed_row w words t =
    Some (map (\<lambda>L. if t < n L then take_bit w (g (16 * t + L)) else 0) [0..<16])"
proof -
  let ?r = "t * w div 64" and ?s = "t * w mod 64"
  have rs: "64 * ?r + ?s = t * w" by simp
  have tw: "t * w + w \<le> 64 * w" using t mult_le_mono1 [of "t + 1" 64 w] by simp
  have s64: "?s < 64" by simp
  have r1: "?r < w" using rs tw w by linarith
  have r2: "?s + w > 64 \<Longrightarrow> ?r + 1 < w" using rs tw by linarith
  have lo: "get_range words (16 * ?r) (16 * (?r + 1)) = Some (map (\<lambda>L. words ! (16 * ?r + L)) [0..<16])"
    using r1 w len by (auto simp: get_range_def intro!: nth_equalityI)
  have hi: "?s + w > 64 \<Longrightarrow> get_range words (16 * (?r + 1)) (16 * (?r + 2)) =
      Some (map (\<lambda>L. words ! (16 * (?r + 1) + L)) [0..<16])"
    using r2 w len by (auto simp: get_range_def intro!: nth_equalityI)
  have val: "(if ?s + w > 64
      then (drop_bit ?s (words ! (16 * ?r + L)) OR push_bit (64 - ?s) (words ! (16 * (?r + 1) + L))) AND (push_bit w 1 - 1)
      else drop_bit ?s (words ! (16 * ?r + L)) AND (push_bit w 1 - 1)) =
      (if t < n L then take_bit w (g (16 * t + L)) else 0)" if L: "L < 16" for L
  proof -
    define f' where "f' k = (if k < w then words ! (16 * k + L)
        else horner_sum of_bool 2 (map (\<lambda>j. stream w (n L) (\<lambda>t. g (16 * t + L)) (64 * k + j)) [0..<64]))" for k
    have f': "j < 64 \<Longrightarrow> bit (f' k) j = stream w (n L) (\<lambda>t. g (16 * t + L)) (64 * k + j)" for k j
      using f [OF _ L] by (auto simp: f'_def bit_horner_sum_bit_word_iff)
    have w64: "w \<le> 64" using w by simp
    show ?thesis
      using read_stream [of w f' "n L" "\<lambda>t. g (16 * t + L)" ?r t ?s, OF w(1) w64 f' refl refl] r1 r2
      by (auto simp: f'_def split: if_splits)
  qed
  show ?thesis
  proof (cases "?s + w > 64")
    case True
    have "map (\<lambda>(l, h). (drop_bit ?s l OR push_bit (64 - ?s) h) AND (push_bit w 1 - 1))
        (zip (map (\<lambda>L. words ! (16 * ?r + L)) [0..<16]) (map (\<lambda>L. words ! (16 * (?r + 1) + L)) [0..<16]))
      = map (\<lambda>L. if t < n L then take_bit w (g (16 * t + L)) else 0) [0..<16]"
      using val True by (intro nth_equalityI) auto
    then show ?thesis using True lo hi by (simp add: unpack_transposed_row_def LANES_def Let_def)
  next
    case False
    have "map (\<lambda>l. drop_bit ?s l AND (push_bit w 1 - 1)) (map (\<lambda>L. words ! (16 * ?r + L)) [0..<16])
      = map (\<lambda>L. if t < n L then take_bit w (g (16 * t + L)) else 0) [0..<16]"
      using val False by (intro nth_equalityI) auto
    then show ?thesis using False lo by (simp add: unpack_transposed_row_def LANES_def Let_def)
  qed
qed

text \<open>How many of the \<open>len\<close> values lane \<open>L\<close> holds.\<close>

lemma lane_count: "L < 16 \<Longrightarrow> t < (len + 15 - L) div 16 \<longleftrightarrow> 16 * t + L < (len::nat)"
  by (simp add: less_eq_div_iff_mult_less_eq Suc_le_eq [symmetric]) linarith

lemma unpack_pack_const:
  assumes w: "0 < w" "w \<le> 63" and n: "length vs \<le> 1024"
  shows "unpack_const w (pack_loop w (width_mask w) vs 0 0) =
    Some (map (take_bit w) vs @ replicate (1024 - length vs) 0)"
proof -
  define ws where "ws = pack_loop_words w vs 0 0"
  have w64: "w \<le> 64" using w by simp
  have bytes: "pack_loop w (width_mask w) vs 0 0 = concat (map u64_le ws)"
    using pack_loop_eq [of w 0 vs 0] w by (simp add: ws_def)
  have len: "length ws = (length vs * w + 63) div 64"
    and bits: "\<And>k j. j < 64 \<Longrightarrow> k < length ws \<Longrightarrow>
       bit (ws ! k) j = stream w (length vs) ((!) vs) (64 * k + j)"
    using pack_loop_words_stream [of w 0 0 vs] w by (simp_all add: ws_def)
  have "length vs * w \<le> 1024 * w" using n by simp
  then have len16: "length ws \<le> 16 * w" unfolding len by linarith
  define words where "words = ws @ replicate (1008 - length ws) 0"
  have len1008: "length words = 1008" using len16 w by (simp add: words_def)
  have scratch: "scratch_words w (concat (map u64_le ws)) = words"
    using len16 w by (simp add: scratch_words_concat words_def)
  have f: "bit (words ! k) j = stream w (length vs) ((!) vs) (64 * k + j)" if "k < 1008" "j < 64" for k j
  proof (cases "k < length ws")
    case True
    then show ?thesis using bits that by (simp add: words_def nth_append)
  next
    case False
    then have "length vs * w \<le> 64 * k + j" unfolding len by linarith
    then have "\<not> stream w (length vs) ((!) vs) (64 * k + j)"
      using w(1) by (simp add: stream_def not_less less_eq_div_iff_mult_less_eq)
    then show ?thesis using False that by (simp add: words_def nth_append)
  qed
  let ?val = "\<lambda>i. if i < length vs then take_bit w (vs ! i) else 0"
  have slot: "map_opt (unpack_const_slot w words block) [0..<64] =
      Some (map (\<lambda>i. ?val (64 * block + i)) [0..<64])" if "block < 16" for block
    using unpack_const_stream [OF w len1008 f n that] by (intro map_opt_Some) simp
  have "unpack_const w (pack_loop w (width_mask w) vs 0 0) =
      Some (concat (map (\<lambda>block. map (\<lambda>i. ?val (64 * block + i)) [0..<64]) [0..<16]))"
    using slot unfolding unpack_const_def bytes scratch
    by (simp add: CHUNK_def)
      (subst map_opt_Some [where g = "\<lambda>block. map (\<lambda>i. ?val (64 * block + i)) [0..<64]"], auto)
  also have "concat (map (\<lambda>block. map (\<lambda>i. ?val (64 * block + i)) [0..<64]) [0..<16]) = map ?val [0..<1024]"
    (is "concat ?rows = _")
  proof (rule nth_equalityI)
    show len: "length (concat ?rows) = length (map ?val [0..<1024])"
      using length_concat_uniform [of ?rows 64] by simp
    fix i assume "i < length (concat ?rows)"
    then have i: "i < 1024" using len by simp
    have "concat ?rows ! i = ?rows ! (i div 64) ! (i mod 64)"
      by (rule nth_concat_uniform) (use i in auto)
    then show "concat ?rows ! i = map ?val [0..<1024] ! i" using i by simp
  qed
  also have "map ?val [0..<1024] = map (take_bit w) vs @ replicate (1024 - length vs) 0"
    using n by (intro nth_equalityI) (auto simp: nth_append)
  finally show ?thesis .
qed

lemma unpack_pack_transposed:
  assumes w: "0 < w" "w \<le> 63" and n: "length vs \<le> 1024"
  shows "\<exists>b. pack_transposed vs w (width_mask w) = Some b \<and> length b = 128 * w \<and>
    unpack_transposed w b = Some (map (take_bit w) vs @ replicate (1024 - length vs) 0)"
proof -
  have w64: "w \<le> 64" using w by simp
  obtain ws where ws: "pack_transposed_loop w (width_mask w) 0 vs (replicate (16 * w) 0) = Some ws"
      "length ws = 16 * w"
    and b: "\<And>r L j. r < w \<Longrightarrow> L < 16 \<Longrightarrow> j < 64 \<Longrightarrow>
      (bit (ws ! (16 * r + L)) j \<longleftrightarrow>
        (let k = 16 * ((64 * r + j) div w) + L
         in k < length vs \<and> bit (vs ! k) ((64 * r + j) mod w)))"
    using transposed_loop [of w "replicate (16 * w) 0" 0 vs] w n by auto
  have rng: "get_range (replicate 1008 (0::u64)) 0 (16 * w) = Some (replicate (16 * w) 0)"
    using w by (simp add: get_range_def)
  have packed: "pack_transposed vs w (width_mask w) = Some (concat (map u64_le ws))"
    using ws rng by (simp add: pack_transposed_def LANES_def)
  have len: "length (concat (map u64_le ws)) = 128 * w"
    using length_concat_uniform [of "map u64_le ws" 8] ws(2) by simp
  define words where "words = ws @ replicate (1008 - length ws) 0"
  have len1008: "length words = 1008" using ws w by (simp add: words_def)
  have scratch: "scratch_words w (concat (map u64_le ws)) = words"
    using ws w by (simp add: scratch_words_concat words_def)
  have f: "bit (words ! (16 * r + L)) j =
      stream w ((length vs + 15 - L) div 16) (\<lambda>t. vs ! (16 * t + L)) (64 * r + j)"
    if h: "r < w" "L < 16" "j < 64" for r L j
  proof -
    have "16 * r + L < length ws" using h ws by simp
    then show ?thesis using b [OF h] h(2)
      by (simp add: words_def nth_append stream_def lane_count Let_def)
  qed
  let ?val = "\<lambda>i. if i < length vs then take_bit w (vs ! i) else 0"
  have row: "unpack_transposed_row w words t = Some (map (\<lambda>L. ?val (16 * t + L)) [0..<16])"
    if t: "t < 64" for t
  proof -
    have "map (\<lambda>L. if t < (length vs + 15 - L) div 16 then take_bit w (vs ! (16 * t + L)) else 0) [0..<16]
        = map (\<lambda>L. ?val (16 * t + L)) [0..<16]"
      by (intro map_cong refl) (simp add: lane_count)
    with unpack_row_stream [where g = "(!) vs", OF w len1008 f t] show ?thesis by simp
  qed
  have "unpack_transposed w (concat (map u64_le ws)) =
      Some (concat (map (\<lambda>t. map (\<lambda>L. ?val (16 * t + L)) [0..<16]) [0..<64]))"
    using row unfolding unpack_transposed_def scratch
    by (simp add: CHUNK_def LANES_def)
      (subst map_opt_Some [where g = "\<lambda>t. map (\<lambda>L. ?val (16 * t + L)) [0..<16]"], auto)
  also have "concat (map (\<lambda>t. map (\<lambda>L. ?val (16 * t + L)) [0..<16]) [0..<64]) = map ?val [0..<1024]"
    (is "concat ?rows = _")
  proof (rule nth_equalityI)
    show len: "length (concat ?rows) = length (map ?val [0..<1024])"
      using length_concat_uniform [of ?rows 16] by simp
    fix i assume "i < length (concat ?rows)"
    then have i: "i < 1024" using len by simp
    have "concat ?rows ! i = ?rows ! (i div 16) ! (i mod 16)"
      by (rule nth_concat_uniform) (use i in auto)
    then show "concat ?rows ! i = map ?val [0..<1024] ! i" using i by simp
  qed
  also have "map ?val [0..<1024] = map (take_bit w) vs @ replicate (1024 - length vs) 0"
    using n by (intro nth_equalityI) (auto simp: nth_append)
  finally show ?thesis using packed len by auto
qed

lemma pack_loop_words_64: "pack_loop_words 64 vs 0 0 = vs"
proof (induction vs)
  case (Cons v vs)
  have "take_bit 64 v = v" by (intro bit_word_eqI) (simp add: bit_simps)
  moreover have "drop_bit 64 v = 0" by (intro bit_word_eqI) (auto simp: bit_simps dest: bit_imp_le_length)
  ultimately show ?case using Cons by (simp add: Let_def)
qed simp

text \<open>
  The contract of the module: packing succeeds on at most 1024 values at a width of at
  most 64 and writes exactly \<^verbatim>\<open>packed_bytes\<close>; unpacking gives the low bits of every
  value back and zeros behind them.
\<close>

lemma pack_unpack:
  assumes w: "w \<le> 64" and n: "length vs \<le> CHUNK"
  obtains b where "pack vs w = Some b" "length b = packed_bytes w (length vs)"
    "unpack b w = Some (map (take_bit w) vs @ replicate (CHUNK - length vs) 0)"
proof -
  have n': "length vs \<le> 1024" using n by (simp add: CHUNK_def)
  have len: "length (pack_loop w (width_mask w) vs 0 0) = packed_bytes w (length vs)" if "0 < w"
    using pack_loop_eq [of w 0 vs 0] pack_loop_words_stream [of w 0 0 vs] that w
      length_concat_uniform [of "map u64_le (pack_loop_words w vs 0 0)" 8]
    by (simp add: packed_bytes_def)
  consider "w = 0" | "w = 64" | "1 < w" "w < 64" "packed_bytes w (length vs) = 128 * w"
    | "0 < w" "w < 64" "\<not> (1 < w \<and> packed_bytes w (length vs) = 128 * w)"
    using w by linarith
  then show thesis
  proof cases
    case 1
    have "take_bit 0 = (\<lambda>v::u64. 0)" by (simp add: fun_eq_iff)
    then show thesis using that [of "[]"] 1 n
      by (simp add: pack_def unpack_def map_replicate_const replicate_add [symmetric])
  next
    case 2
    have id: "map (take_bit 64) vs = vs"
      by (intro map_idI bit_word_eqI) (simp add: bit_simps)
    have bytes: "pack_loop 64 (width_mask 64) vs 0 0 = concat (map u64_le vs)"
      using pack_loop_eq [of 64 0 vs 0] by (simp add: pack_loop_words_64)
    have "length (concat (map u64_le vs)) = 8 * length vs"
      using length_concat_uniform [of "map u64_le vs" 8] by simp
    then show thesis using that [of "concat (map u64_le vs)"] 2 n len
      by (simp add: pack_def unpack_def bytes id le_words_concat packed_bytes_def min_def)
  next
    case 3
    then show thesis
      using unpack_pack_transposed [of w vs] n n' that
      by (auto simp: pack_def unpack_def CHUNK_def)
  next
    case 4
    then show thesis
      using unpack_pack_const [of w vs] len n n' that [of "pack_loop w (width_mask w) vs 0 0"]
      by (auto simp: pack_def unpack_def CHUNK_def)
  qed
qed

text \<open>Unpacking never panics on whole words, whatever they hold, and fills the chunk.\<close>

lemma map_opt_total:
  "(\<And>x. x \<in> set xs \<Longrightarrow> \<exists>y. f x = Some y \<and> P y) \<Longrightarrow>
   \<exists>ys. map_opt f xs = Some ys \<and> length ys = length xs \<and> (\<forall>y \<in> set ys. P y)"
proof (induction xs)
  case (Cons x xs)
  then obtain y ys where "f x = Some y" "P y" "map_opt f xs = Some ys"
    "length ys = length xs" "\<forall>y \<in> set ys. P y" by fastforce
  then show ?case by simp
qed simp

lemma length_scratch_words: "W \<le> 63 \<Longrightarrow> length (scratch_words W packed) = 1008"
  by (simp add: scratch_words_def)

lemma unpack_total:
  assumes w: "w \<le> 64" and "length packed mod 8 = 0"
  obtains out where "unpack packed w = Some out" "length out = CHUNK"
proof -
  consider "w = 0" | "w = 64" | "0 < w" "w \<le> 63" using w by linarith
  then show thesis
  proof cases
    case 1
    then show thesis using that assms by (simp add: unpack_def)
  next
    case 2
    then show thesis using that assms by (simp add: unpack_def length_le_words)
  next
    case 3
    let ?ws = "scratch_words w packed"
    note len = length_scratch_words [OF 3(2), of packed]
    have slot: "\<exists>v. unpack_const_slot w ?ws b i = Some v" if "b < 16" "i < 64" for b i
    proof -
      have "i * w \<le> 63 * w" using that by simp
      then have lt: "64 * (i * w div 64) + i * w mod 64 + w \<le> 64 * w" by simp
      have "b * w \<le> 15 * w" using that by simp
      then have b: "b * w + i * w div 64 < 1008" using lt 3 by linarith
      have "i * w mod 64 + w > 64 \<Longrightarrow> b * w + i * w div 64 + 1 < 1008"
        using lt 3 \<open>b * w \<le> 15 * w\<close> by linarith
      then show ?thesis using b len by (auto simp: unpack_const_slot_def Let_def)
    qed
    have "\<exists>bs. map_opt (\<lambda>b. map_opt (unpack_const_slot w ?ws b) [0..<64]) [0..<16] = Some bs \<and>
        length bs = length [0..<16] \<and> (\<forall>x \<in> set bs. length x = 64)"
    proof (rule map_opt_total)
      fix b :: nat
      assume "b \<in> set [0..<16]"
      then show "\<exists>y. map_opt (unpack_const_slot w ?ws b) [0..<64] = Some y \<and> length y = 64"
        using map_opt_total [of "[0..<64]" "unpack_const_slot w ?ws b" "\<lambda>_. True"] slot [of b] by auto
    qed
    then obtain bs where "map_opt (\<lambda>b. map_opt (unpack_const_slot w ?ws b) [0..<64]) [0..<16] = Some bs"
        "length (concat bs) = CHUNK"
      using length_concat_uniform [of _ 64] by (fastforce simp: CHUNK_def)
    then obtain out where c: "unpack_const w packed = Some out" "length out = CHUNK"
      by (simp add: unpack_const_def CHUNK_def Let_def)
    have row: "\<exists>xs. unpack_transposed_row w ?ws t = Some xs \<and> length xs = 16" if "t < 64" for t
    proof -
      have "t * w \<le> 63 * w" using that by simp
      then have lt: "64 * (t * w div 64) + t * w mod 64 + w \<le> 64 * w" by simp
      then have "t * w div 64 < w" using 3 by linarith
      moreover have small: "x < w \<Longrightarrow> 16 * (x + 1) \<le> 1008" for x using 3(2) by simp
      ultimately have "16 * (t * w div 64 + 1) \<le> 1008" by blast
      moreover have "t * w mod 64 + w > 64 \<Longrightarrow> t * w div 64 + 1 < w" using lt by linarith
      then have "t * w mod 64 + w > 64 \<Longrightarrow> 16 * (t * w div 64 + 2) \<le> 1008"
        using small [of "t * w div 64 + 1"] by simp
      ultimately show ?thesis using len
        by (auto simp: unpack_transposed_row_def Let_def get_range_def LANES_def)
    qed
    have "\<exists>xss. map_opt (unpack_transposed_row w ?ws) [0..<64] = Some xss \<and>
        length xss = length [0..<64] \<and> (\<forall>x \<in> set xss. length x = 16)"
      using row by (intro map_opt_total) simp
    then obtain xss where "map_opt (unpack_transposed_row w ?ws) [0..<64] = Some xss"
        "length (concat xss) = CHUNK"
      using length_concat_uniform [of _ 16] by (fastforce simp: CHUNK_def)
    then obtain out' where t: "unpack_transposed w packed = Some out'" "length out' = CHUNK"
      by (simp add: unpack_transposed_def CHUNK_def LANES_def)
    have "unpack packed w = Some (if 1 < w \<and> length packed = 128 * w then out' else out)"
      using c t 3 assms by (simp add: unpack_def Let_def)
    then show thesis by (rule that) (use c t in simp)
  qed
qed

text \<open>At width 1 bit \<open>i\<close> of the stream is value \<open>i\<close>, which bitmap readers rely on.\<close>

lemma pack_width_1:
  assumes n: "length vs \<le> CHUNK"
  obtains b where "pack vs 1 = Some b" "length b = packed_bytes 1 (length vs)"
    "b = concat (map u64_le (le_words b))" "length (le_words b) = (length vs + 63) div 64"
    "\<And>p. p < 64 * length (le_words b) \<Longrightarrow>
       bit (le_words b ! (p div 64)) (p mod 64) = (p < length vs \<and> bit (vs ! p) 0)"
proof -
  let ?ws = "pack_loop_words 1 vs 0 0"
  have b: "pack_loop 1 (width_mask 1) vs 0 0 = concat (map u64_le ?ws)"
    using pack_loop_eq [of 1 0 vs 0] by simp
  have ws: "length ?ws = (length vs + 63) div 64"
    "\<And>k j. j < 64 \<Longrightarrow> k < length ?ws \<Longrightarrow> bit (?ws ! k) j = stream 1 (length vs) ((!) vs) (64 * k + j)"
    using pack_loop_words_stream [of 1 0 0 vs] by simp_all
  have "bit (?ws ! (p div 64)) (p mod 64) = (p < length vs \<and> bit (vs ! p) 0)" if "p < 64 * length ?ws" for p
    using ws(2) [of "p mod 64" "p div 64"] that by (simp add: stream_def less_mult_imp_div_less mult.commute)
  moreover have "length (concat (map u64_le ?ws)) = packed_bytes 1 (length vs)"
    using length_concat_uniform [of "map u64_le ?ws" 8] ws(1) by (simp add: packed_bytes_def)
  moreover have "pack vs 1 = Some (concat (map u64_le ?ws))"
    using n b by (simp add: pack_def)
  ultimately show thesis using that ws(1) by (simp add: le_words_concat)
qed

end
