(* ===== verification/ForBitpack.thy ===== *)
theory ForBitpack
  imports Bitpack
begin

text \<open>
  \<^verbatim>\<open>crates/zu-encoding/src/for_bitpack.rs\<close>: the frame of reference container, which
  every other integer container of the crate stores its streams in. The pull cursor of
  the lockstep decoders, the chunk loop with its sink and the two entry points are
  translated; the lemmas give the cursor's behaviour on an encoded stream, the round
  trip, the size bound the callers' length fields rely on, and that decoding arbitrary
  bytes never panics.
\<close>

text \<open>\<^verbatim>\<open>chunk.iter().copied().min().unwrap_or(0)\<close>, and the same for the maximum.\<close>

fun min_or_zero :: "u64 list \<Rightarrow> u64" where
  "min_or_zero [] = 0"
| "min_or_zero (x # xs) = fold min xs x"

fun max_or_zero :: "u64 list \<Rightarrow> u64" where
  "max_or_zero [] = 0"
| "max_or_zero (x # xs) = fold max xs x"

definition for_encode_chunk :: "u64 list \<Rightarrow> u8 list option" where
  "for_encode_chunk chunk =
     (let mn = min_or_zero chunk;
          mx = max_or_zero chunk;
          width = bits_needed (mx - mn)
      in do {
        body \<leftarrow> pack (map (\<lambda>v. v - mn) chunk) width;
        Some (u64_le mn @ [word_of_nat width] @ body)
      })"

definition for_encode :: "u64 list \<Rightarrow> u8 list option" where
  "for_encode values =
     do {
       cs \<leftarrow> map_opt for_encode_chunk (chunks CHUNK values);
       Some (len_le (length values) @ concat cs)
     }"

record chunk_cursor =
  cc_bytes :: "u8 list"
  cc_pos :: nat
  cc_remaining :: nat
  cc_count :: nat

definition cursor_new :: "u8 list \<Rightarrow> nat \<Rightarrow> chunk_cursor result" where
  "cursor_new bytes max_values =
     (case get_range bytes 0 4 of
        None \<Rightarrow> Inl (Corrupt ''for_bitpack'' ''truncated count'')
      | Some hd4 \<Rightarrow>
          let count = read_u32 hd4 in
          if count > max_values
          then Inl (Corrupt ''for_bitpack''
                 (''claims '' @ show_nat count @ '' values, caller allows '' @ show_nat max_values))
          else Inr \<lparr>cc_bytes = bytes, cc_pos = 4, cc_remaining = count, cc_count = count\<rparr>)"

text \<open>
  \<^verbatim>\<open>ChunkCursor::next\<close>: \<open>None\<close> is a panic of the unpacker, otherwise the result and the
  cursor after the call. A chunk is its minimum, how many values it holds, and the 1024
  slots of the scratch array.
\<close>

definition cursor_next ::
    "chunk_cursor \<Rightarrow> ((u64 \<times> nat \<times> u64 list) option result \<times> chunk_cursor) option" where
  "cursor_next c =
     (if cc_remaining c = 0 then Some (Inr None, c)
      else case get_range (cc_bytes c) (cc_pos c) (cc_pos c + 9) of
        None \<Rightarrow> Some (Inl (Corrupt ''for_bitpack'' ''truncated chunk header''), c)
      | Some header \<Rightarrow>
          let mn = read_u64 (take 8 header); width = unat (header ! 8) in
          if width > 64 then Some (Inl (Corrupt ''for_bitpack'' ''width > 64''), c)
          else
            let c1 = c\<lparr>cc_pos := cc_pos c + 9\<rparr>;
                tk = min (cc_remaining c) CHUNK;
                plen = packed_bytes width tk
            in case get_range (cc_bytes c) (cc_pos c1) (cc_pos c1 + plen) of
                 None \<Rightarrow> Some (Inl (Corrupt ''for_bitpack'' ''truncated chunk body''), c1)
               | Some packed \<Rightarrow> do {
                   scratch \<leftarrow> unpack packed width;
                   Some (Inr (Some (mn, tk, scratch)),
                         c1\<lparr>cc_pos := cc_pos c1 + plen, cc_remaining := cc_remaining c - tk\<rparr>)
                 })"

lemma cursor_next_remaining:
  "cursor_next c = Some (Inr (Some x), c') \<Longrightarrow> cc_remaining c' < cc_remaining c"
  by (auto simp: cursor_next_def Let_def CHUNK_def split: if_splits option.splits bind_splits)

text \<open>
  The loop of \<^verbatim>\<open>decode_chunks\<close>; the state \<open>s\<close> is what the sink closes over.
\<close>

function for_chunks_loop ::
    "('s \<Rightarrow> u64 \<Rightarrow> u64 list \<Rightarrow> nat \<Rightarrow> 's) \<Rightarrow> chunk_cursor \<Rightarrow> 's \<Rightarrow> (unit result \<times> 's) option" where
  "for_chunks_loop sink c s =
     (case cursor_next c of
        None \<Rightarrow> None
      | Some (Inl e, c') \<Rightarrow> Some (Inl e, s)
      | Some (Inr None, c') \<Rightarrow> Some (Inr (), s)
      | Some (Inr (Some (mn, tk, scratch)), c') \<Rightarrow> for_chunks_loop sink c' (sink s mn scratch tk))"
  by pat_completeness auto
termination
  by (relation "measure (\<lambda>(_, c, _). cc_remaining c)") (auto dest: cursor_next_remaining)

declare for_chunks_loop.simps [simp del]

definition for_decode_chunks ::
    "u8 list \<Rightarrow> nat \<Rightarrow> ('s \<Rightarrow> u64 \<Rightarrow> u64 list \<Rightarrow> nat \<Rightarrow> 's) \<Rightarrow> 's \<Rightarrow> (nat result \<times> 's) option" where
  "for_decode_chunks bytes max_values sink s =
     (case cursor_new bytes max_values of
        Inl e \<Rightarrow> Some (Inl e, s)
      | Inr cursor \<Rightarrow>
          (case for_chunks_loop sink cursor s of
             None \<Rightarrow> None
           | Some (Inl e, s') \<Rightarrow> Some (Inl e, s')
           | Some (Inr _, s') \<Rightarrow> Some (Inr (cc_count cursor), s')))"

definition for_decode :: "u8 list \<Rightarrow> nat \<Rightarrow> u64 list \<Rightarrow> (unit result \<times> u64 list) option" where
  "for_decode bytes max_values out =
     (case for_decode_chunks bytes max_values
             (\<lambda>out mn scratch tk. out @ map (\<lambda>v. mn + v) (take tk scratch)) out of
        None \<Rightarrow> None
      | Some (Inl e, out') \<Rightarrow> Some (Inl e, out')
      | Some (Inr _, out') \<Rightarrow> Some (Inr (), out'))"

subsection \<open>One chunk\<close>

lemma fold_min_le: "fold min xs (x::u64) \<le> x \<and> (\<forall>y \<in> set xs. fold min xs x \<le> y)"
  by (induction xs arbitrary: x) (fastforce simp: min_def split: if_splits)+

lemma fold_max_ge: "(x::u64) \<le> fold max xs x \<and> (\<forall>y \<in> set xs. y \<le> fold max xs x)"
  by (induction xs arbitrary: x) (fastforce simp: max_def split: if_splits)+

lemma min_or_zero_le: "v \<in> set chunk \<Longrightarrow> min_or_zero chunk \<le> v"
  using fold_min_le by (cases chunk) auto

lemma max_or_zero_ge: "v \<in> set chunk \<Longrightarrow> v \<le> max_or_zero chunk"
  using fold_max_ge by (cases chunk) auto

text \<open>Every offset from the frame fits the chunk's width, so the packer loses nothing.\<close>

lemma frame_fits:
  assumes "v \<in> set chunk"
  shows "bits_needed (v - min_or_zero chunk) \<le> bits_needed (max_or_zero chunk - min_or_zero chunk)"
proof (rule bits_needed_mono)
  note b = min_or_zero_le [OF assms] max_or_zero_ge [OF assms]
  then show "v - min_or_zero chunk \<le> max_or_zero chunk - min_or_zero chunk"
    by (simp add: word_le_nat_alt unat_sub diff_le_mono le_trans)
qed

lemma for_encode_chunk_parts:
  assumes "length chunk \<le> CHUNK"
  obtains w body where "w \<le> 64" "for_encode_chunk chunk = Some (u64_le (min_or_zero chunk) @ [word_of_nat w] @ body)"
    "length body = packed_bytes w (length chunk)"
    "unpack body w = Some (map (\<lambda>v. v - min_or_zero chunk) chunk @ replicate (CHUNK - length chunk) 0)"
proof -
  let ?mn = "min_or_zero chunk"
  let ?w = "bits_needed (max_or_zero chunk - ?mn)"
  let ?offs = "map (\<lambda>v. v - ?mn) chunk"
  have "map (take_bit ?w) ?offs = ?offs"
    by (intro map_idI) (auto intro!: take_bit_bits_needed frame_fits)
  moreover obtain body where "pack ?offs ?w = Some body" "length body = packed_bytes ?w (length ?offs)"
      "unpack body ?w = Some (map (take_bit ?w) ?offs @ replicate (CHUNK - length ?offs) 0)"
    by (rule pack_unpack [of ?w ?offs]) (use assms in auto)
  ultimately show thesis using that [of ?w body]
    by (simp add: for_encode_chunk_def Let_def)
qed

lemma unat_width [simp]: "w \<le> 64 \<Longrightarrow> unat (word_of_nat w :: u8) = w"
  by (simp add: unat_of_nat take_bit_nat_eq_self)

subsection \<open>The cursor on an encoded stream\<close>

definition cursor_at :: "chunk_cursor \<Rightarrow> u64 list \<Rightarrow> bool" where
  "cursor_at c vs \<longleftrightarrow> cc_remaining c = length vs \<and>
     (\<exists>pre cs rest. map_opt for_encode_chunk (chunks CHUNK vs) = Some cs \<and>
        cc_bytes c = pre @ concat cs @ rest \<and> length pre = cc_pos c)"

lemma cursor_at_Nil: "cursor_at c [] \<Longrightarrow> cursor_next c = Some (Inr None, c)"
  by (simp add: cursor_at_def cursor_next_def)

lemma cursor_at_step:
  assumes at: "cursor_at c vs" and ne: "vs \<noteq> []"
  obtains mn scratch c' where
    "cursor_next c = Some (Inr (Some (mn, min (length vs) CHUNK, scratch)), c')"
    "length scratch = CHUNK"
    "map (\<lambda>v. mn + v) (take (min (length vs) CHUNK) scratch) = take CHUNK vs"
    "cursor_at c' (drop CHUNK vs)"
proof -
  let ?ch = "take CHUNK vs" and ?n = "min (length vs) CHUNK"
  from at obtain pre cs rest where
    cs: "map_opt for_encode_chunk (chunks CHUNK vs) = Some cs" and
    bytes: "cc_bytes c = pre @ concat cs @ rest" "length pre = cc_pos c" and
    rem: "cc_remaining c = length vs"
    by (auto simp: cursor_at_def)
  have split: "chunks CHUNK vs = ?ch # chunks CHUNK (drop CHUNK vs)"
    using ne by (subst chunks.simps) (simp add: CHUNK_def)
  have "length ?ch \<le> CHUNK" by simp
  then obtain w body where w: "w \<le> 64"
    and enc: "for_encode_chunk ?ch = Some (u64_le (min_or_zero ?ch) @ [word_of_nat w] @ body)"
    and len: "length body = packed_bytes w (length ?ch)"
    and un: "unpack body w = Some (map (\<lambda>v. v - min_or_zero ?ch) ?ch @ replicate (CHUNK - length ?ch) 0)"
    by (rule for_encode_chunk_parts)
  obtain cs' where cs': "map_opt for_encode_chunk (chunks CHUNK (drop CHUNK vs)) = Some cs'"
    "cs = (u64_le (min_or_zero ?ch) @ [word_of_nat w] @ body) # cs'"
    using cs enc unfolding split by (auto split: bind_splits)
  let ?hd = "u64_le (min_or_zero ?ch) @ [word_of_nat w]"
  let ?tl = "concat cs' @ rest"
  have b: "cc_bytes c = pre @ ?hd @ body @ ?tl" using bytes(1) cs'(2) by simp
  have g1: "get_range (cc_bytes c) (cc_pos c) (cc_pos c + 9) = Some ?hd"
    unfolding b by (rule get_range_append) (use bytes in auto)
  have "get_range ((pre @ ?hd) @ body @ ?tl) (cc_pos c + 9) (cc_pos c + 9 + packed_bytes w ?n) = Some body"
    by (rule get_range_append) (use bytes len in \<open>auto simp: min.commute\<close>)
  then have g2: "get_range (cc_bytes c) (cc_pos c + 9) (cc_pos c + 9 + packed_bytes w ?n) = Some body"
    unfolding b by simp
  let ?scratch = "map (\<lambda>v. v - min_or_zero ?ch) ?ch @ replicate (CHUNK - length ?ch) 0"
  let ?c' = "c\<lparr>cc_pos := cc_pos c + 9 + packed_bytes w ?n, cc_remaining := length vs - ?n\<rparr>"
  have hd8: "take 8 ?hd = u64_le (min_or_zero ?ch)" "?hd ! 8 = word_of_nat w"
    by (simp_all add: nth_append)
  have "cursor_next c = Some (Inr (Some (min_or_zero ?ch, ?n, ?scratch)), ?c')"
    using ne rem w un unfolding cursor_next_def g1 by (simp add: Let_def hd8 g2)
  moreover have "length ?scratch = CHUNK" by simp
  moreover have "map (\<lambda>v. min_or_zero ?ch + v) (take ?n ?scratch) = ?ch"
    by (intro nth_equalityI) (auto simp: nth_append)
  moreover have "cursor_at ?c' (drop CHUNK vs)"
    unfolding cursor_at_def
  proof (intro conjI exI)
    show "cc_remaining ?c' = length (drop CHUNK vs)" by (simp add: min_def)
    show "map_opt for_encode_chunk (chunks CHUNK (drop CHUNK vs)) = Some cs'" by (rule cs'(1))
    show "cc_bytes ?c' = (pre @ ?hd @ body) @ concat cs' @ rest" using b by simp
    show "length (pre @ ?hd @ body) = cc_pos ?c'" using bytes(2) len by (simp add: min.commute)
  qed
  ultimately show thesis by (rule that)
qed

lemma for_encode_Some:
  obtains cs where "map_opt for_encode_chunk (chunks CHUNK vs) = Some cs"
    "for_encode vs = Some (len_le (length vs) @ concat cs)"
    "length (concat cs) \<le> 17 * length vs"
proof -
  have "\<exists>cs. map_opt for_encode_chunk (chunks CHUNK vs) = Some cs \<and> length (concat cs) \<le> 17 * length vs"
  proof (induction "CHUNK" vs rule: chunks.induct)
    case (1 xs)
    show ?case
    proof (cases "xs = []")
      case True
      then show ?thesis by simp
    next
      case False
      then have split: "chunks CHUNK xs = take CHUNK xs # chunks CHUNK (drop CHUNK xs)"
        by (subst chunks.simps) (simp add: CHUNK_def)
      from False 1 obtain cs where cs: "map_opt for_encode_chunk (chunks CHUNK (drop CHUNK xs)) = Some cs"
          "length (concat cs) \<le> 17 * length (drop CHUNK xs)" by (auto simp: CHUNK_def)
      have "length (take CHUNK xs) \<le> CHUNK" by simp
      then obtain w body where e: "w \<le> 64"
        "for_encode_chunk (take CHUNK xs) = Some (u64_le (min_or_zero (take CHUNK xs)) @ [word_of_nat w] @ body)"
        "length body = packed_bytes w (length (take CHUNK xs))"
        by (rule for_encode_chunk_parts)
      let ?n = "length (take CHUNK xs)"
      have "?n * w \<le> ?n * 64" using e(1) by simp
      then have "(?n * w + 63) div 64 \<le> (?n * 64 + 63) div 64" by (intro div_le_mono) simp
      then have "length body \<le> 8 * ?n" unfolding e(3) packed_bytes_def by simp
      moreover have "1 \<le> ?n" using False by (cases xs) (auto simp: CHUNK_def)
      moreover have "?n + length (drop CHUNK xs) = length xs" by simp
      ultimately have "9 + length body + length (concat cs) \<le> 17 * length xs" using cs(2) by linarith
      then show ?thesis using cs e(2) split by simp
    qed
  qed
  then show thesis using that by (auto simp: for_encode_def)
qed

lemma for_encode_length:
  assumes "for_encode vs = Some b"
  shows "length b \<le> 4 + 17 * length vs"
proof -
  obtain cs where "for_encode vs = Some (len_le (length vs) @ concat cs)"
    "length (concat cs) \<le> 17 * length vs"
    by (rule for_encode_Some)
  then show ?thesis using assms by simp
qed

lemma cursor_new_encoded:
  assumes "for_encode vs = Some b" "length vs < 2 ^ 32" "length vs \<le> max_values"
  obtains c where "cursor_new (b @ rest) max_values = Inr c" "cc_count c = length vs" "cursor_at c vs"
proof -
  obtain cs where cs: "map_opt for_encode_chunk (chunks CHUNK vs) = Some cs"
      "b = len_le (length vs) @ concat cs"
    using assms(1) for_encode_Some [of vs] by (metis option.inject)
  let ?c = "\<lparr>cc_bytes = b @ rest, cc_pos = 4, cc_remaining = length vs, cc_count = length vs\<rparr>"
  have "cursor_at ?c vs"
    unfolding cursor_at_def using cs
    by (intro conjI exI [of _ "len_le (length vs)"] exI [of _ cs] exI [of _ rest]) auto
  moreover have "cursor_new (b @ rest) max_values = Inr ?c"
    using assms cs(2) by (simp add: cursor_new_def get_range_append1 read_len_le Let_def)
  ultimately show thesis using that by simp
qed

subsection \<open>The container\<close>

lemma for_chunks_loop_at:
  assumes "cursor_at c vs"
    and "\<And>s mn scratch tk. length scratch = CHUNK \<Longrightarrow> tk \<le> CHUNK \<Longrightarrow>
      sink s mn scratch tk = step s (map (\<lambda>v. mn + v) (take tk scratch))"
  shows "for_chunks_loop sink c s = Some (Inr (), fold (\<lambda>ch s. step s ch) (chunks CHUNK vs) s)"
  using assms(1)
proof (induction CHUNK vs arbitrary: c s rule: chunks.induct)
  case (1 vs)
  show ?case
  proof (cases "vs = []")
    case True
    then show ?thesis using cursor_at_Nil "1.prems" by (subst for_chunks_loop.simps) simp
  next
    case False
    obtain mn scratch c' where nx: "cursor_next c = Some (Inr (Some (mn, min (length vs) CHUNK, scratch)), c')"
      and sc: "length scratch = CHUNK" "map (\<lambda>v. mn + v) (take (min (length vs) CHUNK) scratch) = take CHUNK vs"
      and at: "cursor_at c' (drop CHUNK vs)"
      by (rule cursor_at_step [OF "1.prems" False])
    have "chunks CHUNK vs = take CHUNK vs # chunks CHUNK (drop CHUNK vs)"
      using False by (subst chunks.simps) (simp add: CHUNK_def)
    moreover have "\<not> (vs = [] \<or> CHUNK = 0)" using False by (simp add: CHUNK_def)
    ultimately show ?thesis
      using "1.hyps" [OF _ at] assms(2) [of scratch "min (length vs) CHUNK"] sc nx
      by (subst for_chunks_loop.simps) simp
  qed
qed

lemma for_decode_chunks_encoded:
  assumes "for_encode vs = Some b" "length vs < 2 ^ 32" "length vs \<le> max_values"
    and "\<And>s mn scratch tk. length scratch = CHUNK \<Longrightarrow> tk \<le> CHUNK \<Longrightarrow>
      sink s mn scratch tk = step s (map (\<lambda>v. mn + v) (take tk scratch))"
  shows "for_decode_chunks (b @ rest) max_values sink s =
    Some (Inr (length vs), fold (\<lambda>ch s. step s ch) (chunks CHUNK vs) s)"
proof -
  obtain c where "cursor_new (b @ rest) max_values = Inr c" "cc_count c = length vs" "cursor_at c vs"
    using cursor_new_encoded [OF assms(1-3)] .
  then show ?thesis using for_chunks_loop_at [of c vs sink step s, OF _ assms(4)]
    by (simp add: for_decode_chunks_def)
qed

lemma fold_append_concat: "fold (\<lambda>x out. out @ x) xss out = out @ concat xss"
  by (induction xss arbitrary: out) auto

lemma for_roundtrip:
  assumes "for_encode vs = Some b" "length vs < 2 ^ 32" "length vs \<le> max_values"
  shows "for_decode (b @ rest) max_values out = Some (Inr (), out @ vs)"
proof -
  have "for_decode_chunks (b @ rest) max_values
          (\<lambda>out mn scratch tk. out @ map (\<lambda>v. mn + v) (take tk scratch)) out =
        Some (Inr (length vs), fold (\<lambda>ch out. out @ ch) (chunks CHUNK vs) out)"
    by (rule for_decode_chunks_encoded [OF assms, where step = "(@)"]) simp
  then show ?thesis by (simp add: for_decode_def fold_append_concat concat_chunks CHUNK_def)
qed

text \<open>Hostile bytes: an error or values, never a panic, and never more than the ceiling.\<close>

lemma cursor_next_total:
  "\<exists>r c'. cursor_next c = Some (r, c') \<and> cc_remaining c' \<le> cc_remaining c \<and>
    (\<forall>mn tk scratch. r = Inr (Some (mn, tk, scratch)) \<longrightarrow>
       length scratch = CHUNK \<and> tk \<le> CHUNK \<and> 0 < tk \<and> cc_remaining c = tk + cc_remaining c')
    \<and> (r = Inr None \<longrightarrow> cc_remaining c' = 0)"
proof -
  have un: "\<exists>out. unpack packed w = Some out \<and> length out = CHUNK"
    if "\<not> 64 < w" "get_range bs a (a + packed_bytes w n) = Some packed" for w packed bs a n
    using unpack_total [of w packed] get_range_SomeD [OF that(2)] that(1) by auto
  show ?thesis
    by (auto simp: cursor_next_def Let_def CHUNK_def min_def split: option.splits dest!: un)
qed

lemma for_chunks_loop_total:
  assumes sink: "\<And>s n mn scratch tk. I s (tk + n) \<Longrightarrow> length scratch = CHUNK \<Longrightarrow> tk \<le> CHUNK \<Longrightarrow>
      I (sink s mn scratch tk) n"
  shows "I s (cc_remaining c) \<Longrightarrow>
    \<exists>r s' n. for_chunks_loop sink c s = Some (r, s') \<and> I s' n \<and> (r = Inr () \<longrightarrow> n = 0)"
proof (induction "cc_remaining c" arbitrary: c s rule: less_induct)
  case less
  obtain r c' where nx: "cursor_next c = Some (r, c')"
    and step: "\<And>mn tk scratch. r = Inr (Some (mn, tk, scratch)) \<Longrightarrow>
       length scratch = CHUNK \<and> tk \<le> CHUNK \<and> 0 < tk \<and> cc_remaining c = tk + cc_remaining c'"
    and fin: "r = Inr None \<Longrightarrow> cc_remaining c' = 0"
    using cursor_next_total [of c] by blast
  show ?case
  proof (cases r)
    case (Inl e)
    then show ?thesis using nx less.prems by (subst for_chunks_loop.simps) auto
  next
    case (Inr x)
    show ?thesis
    proof (cases x)
      case None
      then have "cc_remaining c = 0" using nx Inr
        by (auto simp: cursor_next_def Let_def split: if_splits option.splits bind_splits)
      then show ?thesis using nx less.prems None Inr by (subst for_chunks_loop.simps) auto
    next
      case (Some y)
      obtain mn tk scratch where y: "y = (mn, tk, scratch)" by (cases y)
      then have st: "length scratch = CHUNK" "tk \<le> CHUNK" "0 < tk" "cc_remaining c = tk + cc_remaining c'"
        using step Some Inr by auto
      then have "cc_remaining c' < cc_remaining c" "I (sink s mn scratch tk) (cc_remaining c')"
        using less.prems sink by simp_all
      from less.hyps [OF this] show ?thesis
        using nx Inr Some y by (subst for_chunks_loop.simps) simp
    qed
  qed
qed

lemma for_decode_total:
  obtains r vs where "for_decode bytes max_values out = Some (r, out @ vs)" "length vs \<le> max_values"
proof (cases "cursor_new bytes max_values")
  case (Inl e)
  then show thesis using that [of "Inl e" "[]"] by (simp add: for_decode_def for_decode_chunks_def)
next
  case (Inr c)
  let ?sink = "\<lambda>out mn scratch tk. out @ map (\<lambda>v. mn + v) (take tk scratch)"
  let ?I = "\<lambda>s n. \<exists>vs. s = out @ vs \<and> length vs + n \<le> max_values"
  have "cc_remaining c \<le> max_values"
    using Inr by (auto simp: cursor_new_def Let_def split: option.splits if_splits)
  then have "\<exists>r s' n. for_chunks_loop ?sink c out = Some (r, s') \<and> ?I s' n \<and> (r = Inr () \<longrightarrow> n = 0)"
    by (intro for_chunks_loop_total [where I = ?I]) auto
  then obtain r vs where "for_chunks_loop ?sink c out = Some (r, out @ vs)" "length vs \<le> max_values"
    by auto
  then show thesis using that Inr
    by (cases r) (auto simp: for_decode_def for_decode_chunks_def)
qed

end
