(* ===== verification/BitIter.thy ===== *)
theory BitIter
  imports ForBitpack
begin

text \<open>
  Walking the set bits of a word, as the exception patcher of the encodings and the
  bitmap kernels of the executor do it: \<^verbatim>\<open>trailing_zeros\<close>, \<^verbatim>\<open>count_ones\<close> and the
  idiom \<^verbatim>\<open>word &= word - 1\<close>, with the lemmas that the walk visits exactly the set
  bits, in ascending order.
\<close>

definition trailing_zeros :: "u64 \<Rightarrow> nat" where
  "trailing_zeros w = length (takeWhile (\<lambda>i. \<not> bit w i) [0..<64])"

definition count_ones :: "'a::len word \<Rightarrow> nat" where
  "count_ones w = length (filter (bit w) [0..<LENGTH('a)])"

text \<open>The positions of the set bits, lowest first.\<close>

definition ones :: "u64 \<Rightarrow> nat list" where
  "ones w = filter (bit w) [0..<64]"

lemma set_ones: "set (ones w) = {i. bit w i}"
  using bit_imp_le_length [of w] by (auto simp: ones_def)

lemma length_ones: "length (ones w) = count_ones w"
  by (simp add: ones_def count_ones_def)

lemma ones_0 [simp]: "ones 0 = []"
  by (simp add: ones_def)

lemma trailing_zeros_ones: "w \<noteq> 0 \<Longrightarrow> ones w \<noteq> [] \<and> trailing_zeros w = hd (ones w)"
proof -
  assume "w \<noteq> 0"
  then obtain k where k: "bit w k" by (auto simp: bit_eq_iff)
  then have "k < 64" using bit_imp_le_length by fastforce
  have ne: "ones w \<noteq> []" using k set_ones [of w] by auto
  have "hd (filter P [0..<n]) = length (takeWhile (\<lambda>i. \<not> P i) [0..<n])"
    if "filter P [0..<n] \<noteq> []" for P and n :: nat
  proof -
    from that have "\<exists>i. i < n \<and> P i" by (auto simp: filter_empty_conv)
    then obtain i where i: "i < n" "P i" "\<And>j. j < i \<Longrightarrow> \<not> P j"
      by (metis (no_types, lifting) exists_least_iff [of P] less_trans nat_neq_iff)
    have split: "[0..<n] = [0..<i] @ i # [Suc i..<n]"
      using i(1) by (metis le_add_diff_inverse less_imp_le_nat upt_add_eq_append upt_conv_Cons zero_le)
    have "filter P [0..<i] = []" using i(3) by (simp add: filter_empty_conv)
    moreover have "takeWhile (\<lambda>i. \<not> P i) ([0..<i] @ i # [Suc i..<n]) = [0..<i]"
      using i by (subst takeWhile_append2) auto
    ultimately show ?thesis unfolding split using i(2) by simp
  qed
  from this [of "bit w" 64] ne show ?thesis by (simp add: trailing_zeros_def ones_def)
qed

text \<open>Clearing the lowest set bit.\<close>

lemma clear_lowest_bit:
  fixes w :: u64
  assumes "bit w k" and low: "\<And>j. j < k \<Longrightarrow> \<not> bit w j"
  shows "w AND (w - 1) = unset_bit k w"
proof -
  let ?w' = "unset_bit k w"
  have k: "k < 64" using assms(1) bit_imp_le_length by fastforce
  have "w = ?w' + push_bit k 1"
    by (subst disjunctive_add_eq_or)
      (use assms(1) in \<open>auto intro!: bit_word_eqI bit_eqI simp: bit_simps\<close>)
  then have "w - 1 = ?w' + mask k"
    by (simp add: mask_eq_exp_minus_1 push_bit_eq_mult)
  also have "\<dots> = ?w' OR mask k"
    by (rule disjunctive_add_eq_or) (use low in \<open>auto intro!: bit_word_eqI simp: bit_simps\<close>)
  finally have "w - 1 = ?w' OR mask k" .
  then show ?thesis
    using low by (auto intro!: bit_word_eqI simp: bit_simps)
qed

lemma ones_rec:
  assumes "w \<noteq> 0"
  shows "ones w = trailing_zeros w # ones (w AND (w - 1))"
proof -
  obtain k ks where e: "ones w = k # ks" "trailing_zeros w = k"
    using trailing_zeros_ones [OF assms] by (cases "ones w") auto
  have sorted: "sorted_wrt (<) (k # ks)"
    unfolding e(1) [symmetric] ones_def by (intro sorted_wrt_filter) simp
  have bk: "bit w k" using e(1) set_ones [of w] by auto
  have "\<not> bit w j" if "j < k" for j
    using that e(1) set_ones [of w] sorted by (auto dest: bspec)
  then have c: "w AND (w - 1) = unset_bit k w" using clear_lowest_bit bk by blast
  have "ones (unset_bit k w) = filter (\<lambda>i. i \<noteq> k) (ones w)"
    by (auto simp: ones_def bit_simps intro!: filter_cong)
  also have "\<dots> = ks" unfolding e(1) using sorted by (auto simp: filter_id_conv)
  finally show ?thesis using e c by simp
qed

lemma clear_lowest_less: "w \<noteq> 0 \<Longrightarrow> length (ones (w AND (w - 1))) < length (ones w)"
  by (simp add: ones_rec [of w])

text \<open>Counting a word's bits through its bytes.\<close>

lemma filter_upt_blocks:
  "filter P [0..<k * n] = concat (map (\<lambda>i. map (\<lambda>j. k * i + j) (filter (\<lambda>j. P (k * i + j)) [0..<k])) [0..<n])"
proof (induction n)
  case 0
  then show ?case by simp
next
  case (Suc n)
  have "[0..<k * Suc n] = [0..<k * n] @ map (\<lambda>j. k * n + j) [0..<k]"
    using map_add_upt [of "k * n" k] upt_add_eq_append [of 0 "k * n" k] by (simp add: add.commute)
  then show ?case using Suc by (simp add: filter_map o_def)
qed

lemma count_ones_bytes: "sum_list (map count_ones (u64_le w)) = count_ones w"
proof -
  have "length (filter (bit w) [0..<8 * 8]) =
      sum_list (map (\<lambda>i. length (filter (\<lambda>j. bit w (8 * i + j)) [0..<8])) [0..<8])"
    unfolding filter_upt_blocks by (simp add: length_concat o_def)
  also have "\<dots> = sum_list (map count_ones (u64_le w))"
    unfolding u64_le_def to_le_def count_ones_def map_map o_def
    by (intro arg_cong [where f = sum_list] map_cong refl arg_cong [where f = length] filter_cong)
      (auto simp: bit_simps)
  finally show ?thesis by (simp add: count_ones_def)
qed

lemma count_ones_word_bytes: "sum_list (map count_ones (concat (map u64_le ws))) = sum_list (map count_ones ws)"
  by (induction ws) (simp_all add: count_ones_bytes)

end
