(* ===== verification/Patch.thy ===== *)
theory Patch
  imports BitIter
begin

text \<open>
  \<^verbatim>\<open>crates/zu-encoding/src/patch.rs\<close>: patched bit packing. The encoder picks the packed
  width that makes the chunk smallest and moves the values above it into an exception
  stream behind a presence bitmap; the decoder unpacks the three parts and writes the
  exceptions back by walking the bitmap's set bits. The lemmas show that the width
  histogram prices every width exactly, that the walk finds a width of least cost, that a
  chunk round trips whatever width is picked, and that hostile bytes never panic.
\<close>

definition width_hist :: "u64 list \<Rightarrow> nat list" where
  "width_hist chunk =
     fold (\<lambda>v hist. hist[bits_needed v := Suc (hist ! bits_needed v)]) chunk (replicate 65 0)"

definition chunk_max_width :: "u64 list \<Rightarrow> nat" where
  "chunk_max_width chunk = fold (\<lambda>v w. max w (bits_needed v)) chunk 0"

text \<open>
  The reverse suffix walk \<^verbatim>\<open>for w in (0..max_width).rev()\<close>; the fifth argument counts the
  widths left. It returns the width picked and its cost.
\<close>

fun width_walk :: "nat list \<Rightarrow> nat \<Rightarrow> nat \<Rightarrow> nat \<Rightarrow> nat \<Rightarrow> nat \<Rightarrow> nat \<Rightarrow> nat \<times> nat" where
  "width_walk hist tk max_width width 0 best exc_count = (width, best)"
| "width_walk hist tk max_width width (Suc w) best exc_count =
     (let exc1 = exc_count + hist ! (w + 1);
          cost = packed_bytes w tk + packed_bytes 1 tk + packed_bytes max_width exc1
      in if cost < best then width_walk hist tk max_width w w cost exc1
         else width_walk hist tk max_width width w best exc1)"

definition patch_width :: "u64 list \<Rightarrow> nat \<times> nat" where
  "patch_width chunk =
     (let tk = length chunk; mx = chunk_max_width chunk
      in width_walk (width_hist chunk) tk mx mx mx (packed_bytes mx tk + packed_bytes 1 tk) 0)"

definition patch_encode_chunk :: "u64 list \<Rightarrow> u8 list option" where
  "patch_encode_chunk chunk =
     (let max_width = chunk_max_width chunk;
          width = fst (patch_width chunk);
          low = map (\<lambda>v. if bits_needed v > width then 0 else v) chunk;
          flags = map (\<lambda>v. if bits_needed v > width then 1 else 0) chunk;
          excs = filter (\<lambda>v. bits_needed v > width) chunk
      in do {
        a \<leftarrow> pack low width;
        b \<leftarrow> pack flags 1;
        c \<leftarrow> pack excs max_width;
        Some ([word_of_nat width, word_of_nat max_width] @ a @ b @ c)
      })"

definition patch_encode :: "u64 list \<Rightarrow> u8 list option" where
  "patch_encode values =
     do {
       cs \<leftarrow> map_opt patch_encode_chunk (chunks CHUNK values);
       Some (len_le (length values) @ concat cs)
     }"

subsection \<open>Decoding\<close>

text \<open>
  The inner loop over one bitmap word: \<open>low\<close> is the chunk being patched, \<open>k\<close> the next
  exception.
\<close>

function patch_word ::
    "nat \<Rightarrow> nat \<Rightarrow> u64 list \<Rightarrow> u64 \<Rightarrow> u64 list \<Rightarrow> nat \<Rightarrow> (u64 list \<times> nat) option" where
  "patch_word base tk excs word low k =
     (if word = 0 then Some (low, k)
      else let i = base + trailing_zeros word in do {
        low1 \<leftarrow> (if i < tk then do { e \<leftarrow> idx excs k; modify_at low i (\<lambda>_. e) } else Some low);
        patch_word base tk excs (word AND (word - 1)) low1 (k + 1)
      })"
  by pat_completeness auto
termination
  by (relation "measure (\<lambda>(_, _, _, word, _, _). length (ones word))") (auto intro: clear_lowest_less)

declare patch_word.simps [simp del]

fun patch_words ::
    "nat \<Rightarrow> u64 list \<Rightarrow> nat \<Rightarrow> u64 list \<Rightarrow> u64 list \<Rightarrow> nat \<Rightarrow> (u64 list \<times> nat) option" where
  "patch_words tk excs word_idx [] low k = Some (low, k)"
| "patch_words tk excs word_idx (word # words) low k =
     do {
       (low1, k1) \<leftarrow> patch_word (word_idx * 64) tk excs word low k;
       patch_words tk excs (Suc word_idx) words low1 k1
     }"

definition patch_corrupt :: "string \<Rightarrow> zu_error" where
  "patch_corrupt detail = Corrupt ''patch'' detail"

text \<open>
  One turn of the chunk loop at byte \<open>pos\<close> with \<open>remaining\<close> values to go: the patched
  chunk, how many values of it count, and the byte behind it.
\<close>

definition patch_next ::
    "u8 list \<Rightarrow> nat \<Rightarrow> nat \<Rightarrow> (u64 list \<times> nat \<times> nat) result option" where
  "patch_next bytes pos remaining =
     (case get_range bytes pos (pos + 2) of
        None \<Rightarrow> Some (Inl (patch_corrupt ''truncated chunk header''))
      | Some header \<Rightarrow>
        let width = unat (header ! 0); exc_width = unat (header ! 1) in
        if width > 64 \<or> exc_width > 64 then Some (Inl (patch_corrupt ''width > 64''))
        else
        let pos1 = pos + 2; tk = min remaining CHUNK; plen = packed_bytes width tk in
        case get_range bytes pos1 (pos1 + plen) of
          None \<Rightarrow> Some (Inl (patch_corrupt ''truncated chunk body''))
        | Some packed \<Rightarrow> do {
          low \<leftarrow> unpack packed width;
          let pos2 = pos1 + plen; blen = packed_bytes 1 tk in
          case get_range bytes pos2 (pos2 + blen) of
            None \<Rightarrow> Some (Inl (patch_corrupt ''truncated bitmap''))
          | Some bitmap \<Rightarrow>
            let pos3 = pos2 + blen;
                exc_count = sum_list (map count_ones bitmap);
                elen = packed_bytes exc_width exc_count
            in case get_range bytes pos3 (pos3 + elen) of
                 None \<Rightarrow> Some (Inl (patch_corrupt ''truncated exceptions''))
               | Some packed_excs \<Rightarrow> do {
                   excs \<leftarrow> unpack packed_excs exc_width;
                   (low1, k) \<leftarrow> patch_words tk excs 0 (le_words bitmap) low 0;
                   Some (Inr (low1, tk, pos3 + elen))
                 }
        })"

lemma patch_next_take: "patch_next bytes pos remaining = Some (Inr (low, tk, pos')) \<Longrightarrow> tk = min remaining CHUNK"
  by (auto simp: patch_next_def Let_def split: option.splits if_splits bind_splits)

function patch_chunks_loop ::
    "('s \<Rightarrow> u64 list \<Rightarrow> nat \<Rightarrow> 's) \<Rightarrow> u8 list \<Rightarrow> nat \<Rightarrow> nat \<Rightarrow> 's \<Rightarrow> (unit result \<times> 's) option" where
  "patch_chunks_loop sink bytes pos remaining s =
     (if remaining = 0 then Some (Inr (), s)
      else case patch_next bytes pos remaining of
        None \<Rightarrow> None
      | Some (Inl e) \<Rightarrow> Some (Inl e, s)
      | Some (Inr (low, tk, pos')) \<Rightarrow>
          patch_chunks_loop sink bytes pos' (remaining - tk) (sink s low tk))"
  by pat_completeness auto
termination
  by (relation "measure (\<lambda>(_, _, _, remaining, _). remaining)")
    (auto dest!: patch_next_take simp: CHUNK_def)

declare patch_chunks_loop.simps [simp del]

definition patch_decode_chunks ::
    "u8 list \<Rightarrow> nat \<Rightarrow> ('s \<Rightarrow> u64 list \<Rightarrow> nat \<Rightarrow> 's) \<Rightarrow> 's \<Rightarrow> (nat result \<times> 's) option" where
  "patch_decode_chunks bytes max_values sink s =
     (case get_range bytes 0 4 of
        None \<Rightarrow> Some (Inl (patch_corrupt ''truncated count''), s)
      | Some hd4 \<Rightarrow>
          let count = read_u32 hd4 in
          if count > max_values
          then Some (Inl (patch_corrupt
                 (''claims '' @ show_nat count @ '' values, caller allows '' @ show_nat max_values)), s)
          else case patch_chunks_loop sink bytes 4 count s of
                 None \<Rightarrow> None
               | Some (Inl e, s') \<Rightarrow> Some (Inl e, s')
               | Some (Inr _, s') \<Rightarrow> Some (Inr count, s'))"

definition patch_decode :: "u8 list \<Rightarrow> nat \<Rightarrow> u64 list \<Rightarrow> (unit result \<times> u64 list) option" where
  "patch_decode bytes max_values out =
     (case patch_decode_chunks bytes max_values (\<lambda>out values tk. out @ take tk values) out of
        None \<Rightarrow> None
      | Some (Inl e, out') \<Rightarrow> Some (Inl e, out')
      | Some (Inr _, out') \<Rightarrow> Some (Inr (), out'))"

subsection \<open>The price of a width\<close>

definition exceptions_above :: "u64 list \<Rightarrow> nat \<Rightarrow> u64 list" where
  "exceptions_above chunk w = filter (\<lambda>v. bits_needed v > w) chunk"

definition patch_cost :: "u64 list \<Rightarrow> nat \<Rightarrow> nat" where
  "patch_cost chunk w = packed_bytes w (length chunk) + packed_bytes 1 (length chunk) +
     packed_bytes (chunk_max_width chunk) (length (exceptions_above chunk w))"

lemma width_hist_nth:
  assumes "w \<le> 64"
  shows "width_hist chunk ! w = length (filter (\<lambda>v. bits_needed v = w) chunk)"
proof -
  have "length hist = 65 \<Longrightarrow>
      fold (\<lambda>v hist. hist[bits_needed v := Suc (hist ! bits_needed v)]) chunk hist ! w =
      hist ! w + length (filter (\<lambda>v. bits_needed v = w) chunk)" for hist
  proof (induction chunk arbitrary: hist)
    case (Cons v chunk)
    have "bits_needed v < 65" using bits_needed_le_64 [of v] by linarith
    then show ?case using Cons by (simp add: nth_list_update)
  qed simp
  from this [of "replicate 65 0"] show ?thesis using assms by (simp add: width_hist_def)
qed

lemma fold_max_width:
  "w \<le> fold (\<lambda>v w. max w (bits_needed v)) chunk w \<and>
   (\<forall>v \<in> set chunk. bits_needed v \<le> fold (\<lambda>v w. max w (bits_needed v)) chunk w) \<and>
   (w \<le> 64 \<longrightarrow> fold (\<lambda>v w. max w (bits_needed v)) chunk w \<le> 64)"
proof (induction chunk arbitrary: w)
  case (Cons v chunk)
  from Cons [of "max w (bits_needed v)"] show ?case by simp
qed simp

lemma bits_needed_le_max_width: "v \<in> set chunk \<Longrightarrow> bits_needed v \<le> chunk_max_width chunk"
  using fold_max_width [of 0 chunk] by (simp add: chunk_max_width_def)

lemma chunk_max_width_le: "chunk_max_width chunk \<le> 64"
  using fold_max_width [of 0 chunk] by (simp add: chunk_max_width_def)

lemma exceptions_above_Suc:
  "length (exceptions_above chunk w) =
   length (exceptions_above chunk (Suc w)) + length (filter (\<lambda>v. bits_needed v = Suc w) chunk)"
  unfolding exceptions_above_def by (induction chunk) auto

lemma exceptions_above_max: "exceptions_above chunk (chunk_max_width chunk) = []"
  using bits_needed_le_max_width by (fastforce simp: exceptions_above_def filter_empty_conv)

text \<open>The walk carries the exact cost of the best width so far and ends at the minimum.\<close>

lemma width_walk_best:
  assumes "m \<le> chunk_max_width chunk" "width \<le> chunk_max_width chunk"
    and "best = patch_cost chunk width"
    and "\<And>w. m \<le> w \<Longrightarrow> w \<le> chunk_max_width chunk \<Longrightarrow> best \<le> patch_cost chunk w"
  shows "case width_walk (width_hist chunk) (length chunk) (chunk_max_width chunk) width m best
      (length (exceptions_above chunk m)) of (w, c) \<Rightarrow>
    w \<le> chunk_max_width chunk \<and> c = patch_cost chunk w \<and>
    (\<forall>v \<le> chunk_max_width chunk. c \<le> patch_cost chunk v)"
  using assms
proof (induction m arbitrary: width best)
  case 0
  then show ?case by simp
next
  case (Suc m)
  have "width_hist chunk ! (m + 1) = length (filter (\<lambda>v. bits_needed v = Suc m) chunk)"
    using Suc.prems(1) chunk_max_width_le [of chunk] by (simp add: width_hist_nth)
  then have exc: "length (exceptions_above chunk (Suc m)) + width_hist chunk ! (m + 1) =
      length (exceptions_above chunk m)"
    by (simp add: exceptions_above_Suc [of chunk m])
  let ?cost = "patch_cost chunk m"
  have cost: "packed_bytes m (length chunk) + packed_bytes 1 (length chunk) +
      packed_bytes (chunk_max_width chunk) (length (exceptions_above chunk m)) = ?cost"
    by (simp add: patch_cost_def)
  have low: "x \<le> patch_cost chunk w"
    if "x \<le> ?cost" "x \<le> best" "m \<le> w" "w \<le> chunk_max_width chunk" for x w
    using that Suc.prems(4) [of w] by (cases "w = m") auto
  let ?walk = "width_walk (width_hist chunk) (length chunk) (chunk_max_width chunk)"
  have step: "?walk width (Suc m) best (length (exceptions_above chunk (Suc m))) =
      (if ?cost < best then ?walk m m ?cost (length (exceptions_above chunk m))
       else ?walk width m best (length (exceptions_above chunk m)))"
    by (simp only: width_walk.simps Let_def exc cost)
  show ?case
  proof (cases "?cost < best")
    case True
    have "?cost \<le> patch_cost chunk w" if "m \<le> w" "w \<le> chunk_max_width chunk" for w
      using low [of ?cost w] that True by linarith
    then show ?thesis
      using Suc.IH [of m ?cost] Suc.prems(1) True unfolding step by simp
  next
    case False
    have "best \<le> patch_cost chunk w" if "m \<le> w" "w \<le> chunk_max_width chunk" for w
      using low [of best w] that False by linarith
    then show ?thesis
      using Suc.IH [of width best] Suc.prems(1-3) False unfolding step if_not_P [OF False] by simp
  qed
qed

lemma patch_width_best:
  "fst (patch_width chunk) \<le> chunk_max_width chunk \<and>
   snd (patch_width chunk) = patch_cost chunk (fst (patch_width chunk)) \<and>
   (\<forall>w \<le> chunk_max_width chunk. snd (patch_width chunk) \<le> patch_cost chunk w)"
proof -
  let ?mx = "chunk_max_width chunk"
  have start: "packed_bytes ?mx (length chunk) + packed_bytes 1 (length chunk) = patch_cost chunk ?mx"
    by (simp add: patch_cost_def exceptions_above_max)
  have "case width_walk (width_hist chunk) (length chunk) ?mx ?mx ?mx (patch_cost chunk ?mx)
      (length (exceptions_above chunk ?mx)) of (w, c) \<Rightarrow>
    w \<le> ?mx \<and> c = patch_cost chunk w \<and> (\<forall>v \<le> ?mx. c \<le> patch_cost chunk v)"
    by (rule width_walk_best) auto
  then show ?thesis
    unfolding patch_width_def Let_def start exceptions_above_max list.size case_prod_beta .
qed

lemma patch_width_le_64: "fst (patch_width chunk) \<le> 64"
  using patch_width_best [of chunk] chunk_max_width_le [of chunk] by linarith

subsection \<open>The bitmap walk\<close>

text \<open>The walk as a loop over the positions it visits.\<close>

fun patch_positions ::
    "nat \<Rightarrow> u64 list \<Rightarrow> nat list \<Rightarrow> u64 list \<Rightarrow> nat \<Rightarrow> (u64 list \<times> nat) option" where
  "patch_positions tk excs [] low k = Some (low, k)"
| "patch_positions tk excs (p # ps) low k =
     do {
       low1 \<leftarrow> (if p < tk then do { e \<leftarrow> idx excs k; modify_at low p (\<lambda>_. e) } else Some low);
       patch_positions tk excs ps low1 (k + 1)
     }"

definition word_positions :: "nat \<Rightarrow> u64 list \<Rightarrow> nat list" where
  "word_positions i ws = concat (map (\<lambda>k. map (\<lambda>j. 64 * (i + k) + j) (ones (ws ! k))) [0..<length ws])"

lemma patch_positions_append:
  "patch_positions tk excs (ps @ qs) low k =
   do { (low1, k1) \<leftarrow> patch_positions tk excs ps low k; patch_positions tk excs qs low1 k1 }"
  by (induction ps arbitrary: low k) (simp_all add: bind_assoc)

lemma patch_word_positions:
  "patch_word base tk excs word low k = patch_positions tk excs (map ((+) base) (ones word)) low k"
proof (induction base tk excs word low k rule: patch_word.induct)
  case (1 base tk excs word low k)
  show ?case
  proof (cases "word = 0")
    case True
    then show ?thesis by (simp add: patch_word.simps)
  next
    case False
    then have "map ((+) base) (ones word) =
        (base + trailing_zeros word) # map ((+) base) (ones (word AND (word - 1)))"
      by (simp add: ones_rec)
    moreover have rest: "patch_word base tk excs (word AND (word - 1)) low1 (k + 1) =
        patch_positions tk excs (map ((+) base) (ones (word AND (word - 1)))) low1 (k + 1)"
      if "(if base + trailing_zeros word < tk
           then do { e \<leftarrow> idx excs k; modify_at low (base + trailing_zeros word) (\<lambda>_. e) }
           else Some low) = Some low1" for low1
      by (rule "1.IH" [OF False refl that])
    ultimately show ?thesis
      by (subst patch_word.simps)
        (simp only: False if_False Let_def patch_positions.simps,
          rule bind_option_cong [OF refl], rule rest, simp only: elem_set)
  qed
qed

lemma word_positions_Cons:
  "word_positions i (w # ws) = map ((+) (i * 64)) (ones w) @ word_positions (Suc i) ws"
proof -
  have "[0..<length (w # ws)] = 0 # map Suc [0..<length ws]"
    by (simp add: upt_conv_Cons map_Suc_upt del: upt_Suc)
  then show ?thesis unfolding word_positions_def by (simp add: o_def ac_simps del: upt_Suc)
qed

lemma patch_words_positions:
  "patch_words tk excs i ws low k = patch_positions tk excs (word_positions i ws) low k"
proof (induction ws arbitrary: i low k)
  case Nil
  then show ?case by (simp add: word_positions_def)
next
  case (Cons w ws)
  then show ?case
    by (simp add: word_positions_Cons patch_positions_append patch_word_positions case_prod_beta')
qed

lemma length_word_positions: "length (word_positions i ws) = sum_list (map count_ones ws)"
proof -
  have "map (\<lambda>k. count_ones (ws ! k)) [0..<length ws] = map count_ones ws"
    by (intro nth_equalityI) auto
  then show ?thesis by (simp add: word_positions_def length_concat o_def length_ones)
qed

lemma word_positions_filter:
  "word_positions 0 ws = filter (\<lambda>p. bit (ws ! (p div 64)) (p mod 64)) [0..<64 * length ws]"
  unfolding filter_upt_blocks word_positions_def ones_def
  by (intro arg_cong [where f = concat] map_cong refl filter_cong) auto

text \<open>With an exception for every position the walk cannot fail, and it writes them.\<close>

lemma patch_positions_total:
  assumes "k + length ps \<le> length excs" "tk \<le> length low"
  shows "\<exists>low'. patch_positions tk excs ps low k = Some (low', k + length ps) \<and> length low' = length low"
  using assms
proof (induction ps arbitrary: low k)
  case (Cons p ps)
  let ?low1 = "if p < tk then low[p := excs ! k] else low"
  have "\<exists>low'. patch_positions tk excs ps ?low1 (k + 1) = Some (low', k + 1 + length ps) \<and> length low' = length ?low1"
    using Cons.prems by (intro Cons.IH) auto
  then show ?case using Cons.prems by auto
qed simp

lemma patch_positions_writes:
  assumes "k + length ps \<le> length excs" "tk \<le> length low"
    and "\<forall>p \<in> set ps. p < tk" "\<And>i. i < length ps \<Longrightarrow> excs ! (k + i) = chunk ! (ps ! i)"
  shows "\<exists>low'. patch_positions tk excs ps low k = Some (low', k + length ps) \<and> length low' = length low \<and>
    (\<forall>p < length low. low' ! p = (if p \<in> set ps then chunk ! p else low ! p))"
  using assms
proof (induction ps arbitrary: low k)
  case (Cons p ps)
  let ?low1 = "low[p := excs ! k]"
  have 1: "excs ! (k + 1 + i) = chunk ! (ps ! i)" if "i < length ps" for i
    using Cons.prems(4) [of "Suc i"] that by simp
  have e: "excs ! k = chunk ! p" using Cons.prems(4) [of 0] by simp
  obtain low' where "patch_positions tk excs ps ?low1 (k + 1) = Some (low', k + 1 + length ps)"
    "length low' = length ?low1"
    "\<forall>q < length ?low1. low' ! q = (if q \<in> set ps then chunk ! q else ?low1 ! q)"
    using Cons.IH [of "k + 1" ?low1] Cons.prems 1 by auto
  then show ?case using Cons.prems e by (auto simp: nth_list_update)
qed simp

subsection \<open>One chunk\<close>

lemma filter_nth: "filter P xs = map ((!) xs) (filter (\<lambda>i. P (xs ! i)) [0..<length xs])"
proof -
  have "filter P xs = filter P (map ((!) xs) [0..<length xs])" by (simp add: map_nth)
  then show ?thesis by (simp add: filter_map o_def)
qed

lemma length_exceptions_le: "length (exceptions_above chunk w) \<le> length chunk"
  by (simp add: exceptions_above_def)

lemma patch_encode_chunk_Some:
  assumes n: "length chunk \<le> CHUNK"
  obtains w mx a b c where "patch_encode_chunk chunk = Some ([word_of_nat w, word_of_nat mx] @ a @ b @ c)"
    "w \<le> 64" "mx \<le> 64" "w = fst (patch_width chunk)" "mx = chunk_max_width chunk"
    "length a = packed_bytes w (length chunk)"
    "unpack a w = Some (map (\<lambda>v. if bits_needed v > w then 0 else v) chunk @ replicate (CHUNK - length chunk) 0)"
    "length b = packed_bytes 1 (length chunk)" "b = concat (map u64_le (le_words b))"
    "word_positions 0 (le_words b) = filter (\<lambda>i. bits_needed (chunk ! i) > w) [0..<length chunk]"
    "length c = packed_bytes mx (length (exceptions_above chunk w))"
    "unpack c mx = Some (exceptions_above chunk w @ replicate (CHUNK - length (exceptions_above chunk w)) 0)"
proof -
  let ?w = "fst (patch_width chunk)" and ?mx = "chunk_max_width chunk"
  let ?low = "map (\<lambda>v. if bits_needed v > ?w then 0 else v) chunk"
  let ?flags = "map (\<lambda>v. if bits_needed v > ?w then 1 else 0 :: u64) chunk"
  let ?excs = "exceptions_above chunk ?w"
  have w: "?w \<le> 64" "?mx \<le> 64" by (rule patch_width_le_64, rule chunk_max_width_le)
  have low: "map (take_bit ?w) ?low = ?low"
    by (intro map_idI) (auto intro: take_bit_bits_needed)
  have excs: "map (take_bit ?mx) ?excs = ?excs"
    by (intro map_idI) (auto simp: exceptions_above_def intro: take_bit_bits_needed bits_needed_le_max_width)
  have ne: "length ?excs \<le> CHUNK"
    using length_exceptions_le n by (rule le_trans)
  obtain a where a: "pack ?low ?w = Some a" "length a = packed_bytes ?w (length ?low)"
    "unpack a ?w = Some (map (take_bit ?w) ?low @ replicate (CHUNK - length ?low) 0)"
    by (rule pack_unpack [of ?w ?low]) (use w n in auto)
  obtain c where c: "pack ?excs ?mx = Some c" "length c = packed_bytes ?mx (length ?excs)"
    "unpack c ?mx = Some (map (take_bit ?mx) ?excs @ replicate (CHUNK - length ?excs) 0)"
    by (rule pack_unpack [of ?mx ?excs]) (use w ne in auto)
  have nf: "length ?flags \<le> CHUNK" using n by simp
  obtain b where b: "pack ?flags 1 = Some b" "length b = packed_bytes 1 (length ?flags)"
    "b = concat (map u64_le (le_words b))" "length (le_words b) = (length ?flags + 63) div 64"
    "\<And>p. p < 64 * length (le_words b) \<Longrightarrow>
       bit (le_words b ! (p div 64)) (p mod 64) = (p < length ?flags \<and> bit (?flags ! p) 0)"
    by (rule pack_width_1 [OF nf]) (rule that)
  let ?m = "64 * length (le_words b)"
  have nm: "length chunk \<le> ?m" using b(4) by simp
  have "word_positions 0 (le_words b) =
      filter (\<lambda>p. p < length chunk \<and> bits_needed (chunk ! p) > ?w) [0..<?m]"
    unfolding word_positions_filter by (intro filter_cong refl) (use b(5) in \<open>auto split: if_splits\<close>)
  also have "[0..<?m] = [0..<length chunk] @ [length chunk..<?m]"
    using nm by (metis le_add_diff_inverse upt_add_eq_append zero_le)
  also have "filter (\<lambda>p. p < length chunk \<and> bits_needed (chunk ! p) > ?w) \<dots> =
      filter (\<lambda>i. bits_needed (chunk ! i) > ?w) [0..<length chunk]"
    by (simp add: filter_empty_conv) (intro filter_cong, auto)
  finally have pos: "word_positions 0 (le_words b) =
      filter (\<lambda>i. bits_needed (chunk ! i) > ?w) [0..<length chunk]" .
  have "patch_encode_chunk chunk = Some ([word_of_nat ?w, word_of_nat ?mx] @ a @ b @ c)"
    using a(1) b(1) c(1) by (simp add: patch_encode_chunk_def Let_def exceptions_above_def)
  then show thesis
    by (rule that [OF _ w refl refl _ _ _ b(3) pos])
      (use a(2,3) low b(2) c(2,3) excs in simp_all)
qed

lemma patch_encode_chunk_length:
  assumes "length chunk \<le> CHUNK" "patch_encode_chunk chunk = Some cb"
  shows "length cb = 2 + snd (patch_width chunk)"
proof -
  obtain w mx a b c where p: "patch_encode_chunk chunk = Some ([word_of_nat w, word_of_nat mx] @ a @ b @ c)"
    "w = fst (patch_width chunk)" "mx = chunk_max_width chunk"
    "length a = packed_bytes w (length chunk)" "length b = packed_bytes 1 (length chunk)"
    "length c = packed_bytes mx (length (exceptions_above chunk w))"
    by (rule patch_encode_chunk_Some [OF assms(1)]) blast
  have "snd (patch_width chunk) = patch_cost chunk (fst (patch_width chunk))"
    using patch_width_best [of chunk] by blast
  then show ?thesis using p assms(2) by (simp add: patch_cost_def)
qed

text \<open>The whole turn of the decoder's loop on an encoded chunk gives the chunk back.\<close>

lemma patch_next_encoded:
  assumes enc: "patch_encode_chunk chunk = Some cb" and tk: "length chunk = min remaining CHUNK"
    and pos: "length pre = pos"
  shows "\<exists>low. patch_next (pre @ cb @ rest) pos remaining = Some (Inr (low, length chunk, pos + length cb))
    \<and> take (length chunk) low = chunk"
proof -
  have n: "length chunk \<le> CHUNK" using tk by simp
  obtain w mx a b c where p: "patch_encode_chunk chunk = Some ([word_of_nat w, word_of_nat mx] @ a @ b @ c)"
    and w: "w \<le> 64" "mx \<le> 64"
    and a: "length a = packed_bytes w (length chunk)"
    "unpack a w = Some (map (\<lambda>v. if bits_needed v > w then 0 else v) chunk @ replicate (CHUNK - length chunk) 0)"
    and b: "length b = packed_bytes 1 (length chunk)" "b = concat (map u64_le (le_words b))"
    "word_positions 0 (le_words b) = filter (\<lambda>i. bits_needed (chunk ! i) > w) [0..<length chunk]"
    and c: "length c = packed_bytes mx (length (exceptions_above chunk w))"
    "unpack c mx = Some (exceptions_above chunk w @ replicate (CHUNK - length (exceptions_above chunk w)) 0)"
    by (rule patch_encode_chunk_Some [OF n]) blast
  let ?hd = "[word_of_nat w, word_of_nat mx] :: u8 list"
  let ?bytes = "pre @ ?hd @ a @ b @ c @ rest"
  have cb: "cb = ?hd @ a @ b @ c" using p enc by simp
  let ?excs = "exceptions_above chunk w"
  let ?E = "?excs @ replicate (CHUNK - length ?excs) 0"
  let ?low = "map (\<lambda>v. if bits_needed v > w then 0 else v) chunk @ replicate (CHUNK - length chunk) 0"
  let ?ps = "word_positions 0 (le_words b)"
  have excs: "?excs = map ((!) chunk) ?ps"
    unfolding b(3) exceptions_above_def by (rule filter_nth)
  have len_ps: "length ?ps = length ?excs" by (simp add: excs)
  have count: "sum_list (map count_ones b) = length ?excs"
    using count_ones_word_bytes [of "le_words b"] length_word_positions [of 0 "le_words b"] len_ps b(2) by simp
  have ne: "length ?excs \<le> CHUNK"
    using length_exceptions_le n by (rule le_trans)
  obtain low' where low': "patch_positions (length chunk) ?E ?ps ?low 0 = Some (low', 0 + length ?ps)"
    "length low' = length ?low"
    "\<forall>p < length ?low. low' ! p = (if p \<in> set ?ps then chunk ! p else ?low ! p)"
  proof -
    have "\<exists>low'. patch_positions (length chunk) ?E ?ps ?low 0 = Some (low', 0 + length ?ps) \<and>
      length low' = length ?low \<and> (\<forall>p < length ?low. low' ! p = (if p \<in> set ?ps then chunk ! p else ?low ! p))"
    proof (rule patch_positions_writes)
      show "0 + length ?ps \<le> length ?E" using len_ps ne by simp
      show "length chunk \<le> length ?low" by simp
      show "\<forall>p \<in> set ?ps. p < length chunk" by (simp add: b(3))
      show "?E ! (0 + i) = chunk ! (?ps ! i)" if "i < length ?ps" for i
      proof -
        have "?E ! (0 + i) = ?excs ! i" using that len_ps by (simp add: nth_append)
        also have "\<dots> = map ((!) chunk) ?ps ! i" by (simp only: excs)
        also have "\<dots> = chunk ! (?ps ! i)" using that by (rule nth_map)
        finally show ?thesis .
      qed
    qed
    then show thesis using that by blast
  qed
  have "take (length chunk) low' = chunk"
  proof (rule nth_equalityI)
    show len: "length (take (length chunk) low') = length chunk" using low'(2) by simp
    fix i assume "i < length (take (length chunk) low')"
    then have i: "i < length chunk" using len by simp
    have "low' ! i = (if i \<in> set ?ps then chunk ! i else ?low ! i)" using low'(3) i by simp
    then show "take (length chunk) low' ! i = chunk ! i"
      using i by (auto simp: b(3) nth_append)
  qed
  moreover have g0: "get_range ?bytes pos (pos + 2) = Some ?hd"
    by (rule get_range_append) (use pos in auto)
  moreover have "get_range ((pre @ ?hd) @ a @ (b @ c @ rest)) (pos + 2) (pos + 2 + packed_bytes w (length chunk)) = Some a"
    by (rule get_range_append) (use pos a(1) in auto)
  moreover have "get_range ((pre @ ?hd @ a) @ b @ (c @ rest)) (pos + 2 + packed_bytes w (length chunk))
      (pos + 2 + packed_bytes w (length chunk) + packed_bytes 1 (length chunk)) = Some b"
    by (rule get_range_append) (use pos a(1) b(1) in auto)
  moreover have "get_range ((pre @ ?hd @ a @ b) @ c @ rest)
      (pos + 2 + packed_bytes w (length chunk) + packed_bytes 1 (length chunk))
      (pos + 2 + packed_bytes w (length chunk) + packed_bytes 1 (length chunk) + packed_bytes mx (length ?excs)) = Some c"
    by (rule get_range_append) (use pos a(1) b(1) c(1) in auto)
  moreover have "min remaining CHUNK = length chunk" using tk by simp
  moreover have "patch_words (length chunk) ?E 0 (le_words b) ?low 0 = Some (low', length ?ps)"
    using low'(1) by (simp add: patch_words_positions)
  ultimately show ?thesis
    using w a b(1) c(1) c(2) count unfolding cb
    by (intro exI [of _ low']) (simp add: patch_next_def Let_def)
qed

subsection \<open>The container\<close>

lemma patch_encode_Some:
  obtains cs where "map_opt patch_encode_chunk (chunks CHUNK vs) = Some cs"
    "patch_encode vs = Some (len_le (length vs) @ concat cs)"
    "length (concat cs) \<le> 18 * length vs"
proof -
  have "\<exists>cs. map_opt patch_encode_chunk (chunks CHUNK vs) = Some cs \<and> length (concat cs) \<le> 18 * length vs"
  proof (induction "CHUNK" vs rule: chunks.induct)
    case (1 xs)
    show ?case
    proof (cases "xs = []")
      case True
      then show ?thesis by simp
    next
      case False
      then have split: "chunks CHUNK xs = take CHUNK xs # chunks CHUNK (drop CHUNK xs)"
        by (subst chunks.simps) (simp add: CHUNK_def)
      from False 1 obtain cs where cs: "map_opt patch_encode_chunk (chunks CHUNK (drop CHUNK xs)) = Some cs"
          "length (concat cs) \<le> 18 * length (drop CHUNK xs)" by (auto simp: CHUNK_def)
      let ?c = "take CHUNK xs"
      have n: "length ?c \<le> CHUNK" by simp
      obtain cb where e: "patch_encode_chunk ?c = Some cb"
        by (rule patch_encode_chunk_Some [OF n]) blast
      have "snd (patch_width ?c) \<le> patch_cost ?c (chunk_max_width ?c)"
        using patch_width_best [of ?c] by blast
      also have "\<dots> = packed_bytes (chunk_max_width ?c) (length ?c) + packed_bytes 1 (length ?c)"
        by (simp add: patch_cost_def exceptions_above_max)
      also have "\<dots> \<le> packed_bytes 64 (length ?c) + packed_bytes 64 (length ?c)"
        unfolding packed_bytes_def using chunk_max_width_le [of ?c]
        by (intro add_mono mult_le_mono1 div_le_mono) simp_all
      finally have "length cb \<le> 2 + 16 * length ?c"
        using patch_encode_chunk_length [OF n e] by (simp add: packed_bytes_def)
      moreover have "1 \<le> length ?c" using False by (cases xs) (auto simp: CHUNK_def)
      moreover have "length ?c + length (drop CHUNK xs) = length xs" by simp
      ultimately have "length cb + length (concat cs) \<le> 18 * length xs" using cs(2) by linarith
      then show ?thesis using cs e split by simp
    qed
  qed
  then show thesis using that by (auto simp: patch_encode_def)
qed

lemma patch_encode_length:
  assumes "patch_encode vs = Some b"
  shows "length b \<le> 4 + 18 * length vs"
proof -
  obtain cs where "patch_encode vs = Some (len_le (length vs) @ concat cs)"
    "length (concat cs) \<le> 18 * length vs"
    by (rule patch_encode_Some)
  then show ?thesis using assms by simp
qed

lemma patch_chunks_loop_at:
  assumes "\<And>s low tk. sink s low tk = step s (take tk low)"
    and "map_opt patch_encode_chunk (chunks CHUNK vs) = Some cs" "length pre = pos"
  shows "patch_chunks_loop sink (pre @ concat cs @ rest) pos (length vs) s =
    Some (Inr (), fold (\<lambda>ch s. step s ch) (chunks CHUNK vs) s)"
  using assms(2,3)
proof (induction CHUNK vs arbitrary: pre pos cs s rule: chunks.induct)
  case (1 vs)
  show ?case
  proof (cases "vs = []")
    case True
    then show ?thesis by (subst patch_chunks_loop.simps) simp
  next
    case False
    then have split: "chunks CHUNK vs = take CHUNK vs # chunks CHUNK (drop CHUNK vs)"
      by (subst chunks.simps) (simp add: CHUNK_def)
    then obtain cb cs' where cs: "patch_encode_chunk (take CHUNK vs) = Some cb"
      "map_opt patch_encode_chunk (chunks CHUNK (drop CHUNK vs)) = Some cs'" "cs = cb # cs'"
      using "1.prems"(1) by (auto split: bind_splits)
    let ?ch = "take CHUNK vs"
    have tk: "length ?ch = min (length vs) CHUNK" by (simp add: min.commute)
    obtain low where nx: "patch_next (pre @ cb @ (concat cs' @ rest)) pos (length vs) =
        Some (Inr (low, length ?ch, pos + length cb))" and low: "take (length ?ch) low = ?ch"
      using patch_next_encoded [OF cs(1) tk "1.prems"(2)] by blast
    have "\<not> (vs = [] \<or> CHUNK = 0)" using False by (simp add: CHUNK_def)
    note hyp = "1.hyps" [OF this cs(2), of "pre @ cb" "pos + length cb" "step s ?ch"]
    have l: "length (drop CHUNK vs) = length vs - length ?ch" by (simp add: min_def)
    have rest: "patch_chunks_loop sink (pre @ cb @ concat cs' @ rest) (pos + length cb) (length vs - length ?ch)
        (step s ?ch) = Some (Inr (), fold (\<lambda>ch s. step s ch) (chunks CHUNK (drop CHUNK vs)) (step s ?ch))"
      using hyp "1.prems"(2) unfolding l by simp
    have "length vs \<noteq> 0" using False by simp
    then show ?thesis
      unfolding split cs(3)
      by (subst patch_chunks_loop.simps)
        (simp only: if_False concat.simps append_assoc nx option.case sum.case prod.case assms(1) low rest
          fold.simps o_apply)
  qed
qed

lemma patch_decode_chunks_encoded:
  assumes "patch_encode vs = Some b" "length vs < 2 ^ 32" "length vs \<le> max_values"
    and "\<And>s low tk. sink s low tk = step s (take tk low)"
  shows "patch_decode_chunks (b @ rest) max_values sink s =
    Some (Inr (length vs), fold (\<lambda>ch s. step s ch) (chunks CHUNK vs) s)"
proof -
  obtain cs where cs: "map_opt patch_encode_chunk (chunks CHUNK vs) = Some cs"
      "b = len_le (length vs) @ concat cs"
    using assms(1) patch_encode_Some [of vs] by (metis option.inject)
  have "patch_chunks_loop sink (len_le (length vs) @ concat cs @ rest) 4 (length vs) s =
      Some (Inr (), fold (\<lambda>ch s. step s ch) (chunks CHUNK vs) s)"
    by (rule patch_chunks_loop_at [where step = step, OF assms(4) cs(1)]) (rule length_le)
  then show ?thesis using assms cs(2)
    by (simp add: patch_decode_chunks_def get_range_append1 read_len_le Let_def)
qed

lemma patch_roundtrip:
  assumes "patch_encode vs = Some b" "length vs < 2 ^ 32" "length vs \<le> max_values"
  shows "patch_decode (b @ rest) max_values out = Some (Inr (), out @ vs)"
proof -
  have "patch_decode_chunks (b @ rest) max_values (\<lambda>out values tk. out @ take tk values) out =
        Some (Inr (length vs), fold (\<lambda>ch out. out @ ch) (chunks CHUNK vs) out)"
    by (rule patch_decode_chunks_encoded [OF assms, where step = "(@)"]) (rule refl)
  then show ?thesis by (simp add: patch_decode_def fold_append_concat concat_chunks CHUNK_def)
qed

text \<open>Hostile bytes.\<close>

lemma patch_next_total:
  "\<exists>r. patch_next bytes pos remaining = Some r \<and>
    (\<forall>low tk pos'. r = Inr (low, tk, pos') \<longrightarrow> tk = min remaining CHUNK \<and> length low = CHUNK)"
proof -
  have un: "\<exists>out. unpack packed w = Some out \<and> length out = CHUNK"
    if "\<not> 64 < w" "get_range bs a (a + packed_bytes w n) = Some packed" for w packed bs a n
    using unpack_total [of w packed] get_range_SomeD [OF that(2)] that(1) by auto
  have walk: "\<exists>low' k. patch_words tk excs 0 (le_words bm) low 0 = Some (low', k) \<and> length low' = CHUNK"
    if "length low = CHUNK" "length excs = CHUNK" "tk \<le> CHUNK"
      "get_range bs a (a + packed_bytes 1 tk) = Some bm" for low excs tk bs a bm
  proof -
    have "length bm \<le> 128" using get_range_SomeD [OF that(4)] packed_bytes_le [OF that(3), of 1] by simp
    then have "length (le_words bm) \<le> 16" by (simp add: length_le_words)
    moreover have "length (word_positions 0 (le_words bm)) \<le> 64 * length (le_words bm)"
      unfolding word_positions_filter by (rule le_trans [OF length_filter_le]) simp
    ultimately have "0 + length (word_positions 0 (le_words bm)) \<le> length excs"
      using that(2) by (simp add: CHUNK_def)
    from patch_positions_total [OF this, of tk low] show ?thesis
      using that by (auto simp: patch_words_positions)
  qed
  show ?thesis
  proof (cases "get_range bytes pos (pos + 2)")
    case None
    then show ?thesis by (simp add: patch_next_def)
  next
    case (Some header)
    let ?w = "unat (header ! 0)" and ?x = "unat (header ! 1)" and ?tk = "min remaining CHUNK"
    show ?thesis
    proof (cases "?w > 64 \<or> ?x > 64")
      case True
      then show ?thesis using Some by (simp add: patch_next_def Let_def)
    next
      case False
      then have wx: "\<not> 64 < ?w" "\<not> 64 < ?x" by auto
      let ?p2 = "pos + 2 + packed_bytes ?w ?tk"
      let ?p3 = "?p2 + packed_bytes 1 ?tk"
      show ?thesis
      proof (cases "get_range bytes (pos + 2) ?p2")
        case None
        then show ?thesis using Some wx by (simp add: patch_next_def Let_def)
      next
        case s1: (Some packed)
        obtain low where low: "unpack packed ?w = Some low" "length low = CHUNK"
          using un [OF wx(1) s1] by blast
        show ?thesis
        proof (cases "get_range bytes ?p2 ?p3")
          case None
          then show ?thesis using Some wx s1 low by (simp add: patch_next_def Let_def)
        next
          case s2: (Some bm)
          let ?p4 = "?p3 + packed_bytes ?x (sum_list (map count_ones bm))"
          show ?thesis
          proof (cases "get_range bytes ?p3 ?p4")
            case None
            then show ?thesis using Some wx s1 low s2 by (simp add: patch_next_def Let_def)
          next
            case s3: (Some pe)
            obtain excs where excs: "unpack pe ?x = Some excs" "length excs = CHUNK"
              using un [OF wx(2) s3] by blast
            obtain low' k where "patch_words ?tk excs 0 (le_words bm) low 0 = Some (low', k)" "length low' = CHUNK"
              using walk [OF low(2) excs(2) _ s2] by auto
            then show ?thesis using Some wx s1 low s2 s3 excs by (simp add: patch_next_def Let_def)
          qed
        qed
      qed
    qed
  qed
qed

lemma patch_chunks_loop_total:
  assumes sink: "\<And>s n low tk. I s (tk + n) \<Longrightarrow> length low = CHUNK \<Longrightarrow> tk \<le> CHUNK \<Longrightarrow> I (sink s low tk) n"
  shows "I s remaining \<Longrightarrow>
    \<exists>r s' n. patch_chunks_loop sink bytes pos remaining s = Some (r, s') \<and> I s' n \<and> (r = Inr () \<longrightarrow> n = 0)"
proof (induction remaining arbitrary: pos s rule: less_induct)
  case (less remaining)
  show ?case
  proof (cases "remaining = 0")
    case True
    then show ?thesis using less.prems by (subst patch_chunks_loop.simps) auto
  next
    case False
    obtain r where r: "patch_next bytes pos remaining = Some r"
      "\<And>low tk pos'. r = Inr (low, tk, pos') \<Longrightarrow> tk = min remaining CHUNK \<and> length low = CHUNK"
      using patch_next_total by metis
    show ?thesis
    proof (cases r)
      case (Inl e)
      then show ?thesis using r False less.prems by (subst patch_chunks_loop.simps) auto
    next
      case (Inr x)
      obtain low tk pos' where x: "x = (low, tk, pos')" by (cases x)
      then have tk: "tk = min remaining CHUNK" "length low = CHUNK" using r(2) Inr by auto
      then have "remaining - tk < remaining" "I (sink s low tk) (remaining - tk)"
        using False less.prems sink [of s tk "remaining - tk" low] by (auto simp: CHUNK_def)
      from less.IH [OF this, of pos'] show ?thesis
        using r(1) False Inr x by (subst patch_chunks_loop.simps) simp
    qed
  qed
qed

end
