(* ===== verification/Delta.thy ===== *)
theory Delta
  imports Patch
begin

text \<open>
  \<^verbatim>\<open>crates/zu-encoding/src/delta.rs\<close> and \<^verbatim>\<open>delta_patch.rs\<close>: the two delta encodings.
  They share one front end, the zigzag differences from the running previous value, over
  two containers, so the inverse of the front end is proved once in the locale of a
  container that streams its chunks into a sink, and the locale is interpreted on both
  containers.
\<close>

definition zigzag :: "u64 \<Rightarrow> u64" where
  "zigzag v = push_bit 1 v XOR signed_drop_bit 63 v"

definition unzigzag :: "u64 \<Rightarrow> u64" where
  "unzigzag v = drop_bit 1 v XOR - (v AND 1)"

text \<open>The loop that fills \<^verbatim>\<open>deltas\<close>, from the running previous value.\<close>

fun deltas :: "u64 \<Rightarrow> u64 list \<Rightarrow> u64 list" where
  "deltas prev [] = []"
| "deltas prev (v # vs) = zigzag (v - prev) # deltas v vs"

text \<open>\<^verbatim>\<open>values.first().copied().unwrap_or(0)\<close>\<close>

definition first_or_zero :: "u64 list \<Rightarrow> u64" where
  "first_or_zero values = (case values of [] \<Rightarrow> 0 | v # _ \<Rightarrow> v)"

definition delta_encode :: "u64 list \<Rightarrow> u8 list option" where
  "delta_encode values =
     (let base = first_or_zero values
      in do { body \<leftarrow> for_encode (deltas base values); Some (u64_le base @ body) })"

definition delta_patch_encode :: "u64 list \<Rightarrow> u8 list option" where
  "delta_patch_encode values =
     (let base = first_or_zero values
      in do { body \<leftarrow> patch_encode (deltas base values); Some (u64_le base @ body) })"

text \<open>
  What both sinks do to the deltas of a chunk: \<^verbatim>\<open>prev = prev.wrapping_add(unzigzag(d)); prev\<close>
  for each. The state is the running previous value and the caller's vector.
\<close>

fun undelta :: "u64 \<Rightarrow> u64 list \<Rightarrow> u64 \<times> u64 list" where
  "undelta prev [] = (prev, [])"
| "undelta prev (d # ds) =
     (let prev1 = prev + unzigzag d; (prev2, vs) = undelta prev1 ds in (prev2, prev1 # vs))"

definition undelta_step :: "u64 \<times> u64 list \<Rightarrow> u64 list \<Rightarrow> u64 \<times> u64 list" where
  "undelta_step s ds = (case s of (prev, out) \<Rightarrow>
     let (prev1, vs) = undelta prev ds in (prev1, out @ vs))"

definition delta_decode :: "u8 list \<Rightarrow> nat \<Rightarrow> u64 list \<Rightarrow> (unit result \<times> u64 list) option" where
  "delta_decode bytes max_values out =
     (case get_range bytes 0 8 of
        None \<Rightarrow> Some (Inl (Corrupt ''delta'' ''truncated base''), out)
      | Some base_bytes \<Rightarrow>
          (case for_decode_chunks (drop 8 bytes) max_values
                  (\<lambda>s mn scratch tk. undelta_step s (map (\<lambda>v. mn + v) (take tk scratch)))
                  (read_u64 base_bytes, out) of
             None \<Rightarrow> None
           | Some (Inl e, (prev, out')) \<Rightarrow> Some (Inl e, out')
           | Some (Inr _, (prev, out')) \<Rightarrow> Some (Inr (), out')))"

definition delta_patch_decode :: "u8 list \<Rightarrow> nat \<Rightarrow> u64 list \<Rightarrow> (unit result \<times> u64 list) option" where
  "delta_patch_decode bytes max_values out =
     (case get_range bytes 0 8 of
        None \<Rightarrow> Some (Inl (Corrupt ''delta_patch'' ''truncated base''), out)
      | Some base_bytes \<Rightarrow>
          (case patch_decode_chunks (drop 8 bytes) max_values
                  (\<lambda>s deltas tk. undelta_step s (take tk deltas))
                  (read_u64 base_bytes, out) of
             None \<Rightarrow> None
           | Some (Inl e, (prev, out')) \<Rightarrow> Some (Inl e, out')
           | Some (Inr _, (prev, out')) \<Rightarrow> Some (Inr (), out')))"

subsection \<open>Zigzag\<close>

lemma bit_uminus_and_1: "bit (- (v AND 1) :: u64) i \<longleftrightarrow> i < 64 \<and> bit v 0"
proof (cases "bit v 0")
  case True
  then have "v AND 1 = 1" by (simp add: and_one_eq odd_iff_mod_2_eq_one bit_0)
  then show ?thesis using True by simp
next
  case False
  then have "v AND 1 = 0" by (simp add: and_one_eq even_iff_mod_2_eq_zero bit_0)
  then show ?thesis using False by simp
qed

lemma bit_zigzag: "bit (zigzag v) i \<longleftrightarrow> i < 64 \<and> ((1 \<le> i \<and> bit v (i - 1)) \<noteq> bit v 63)"
  unfolding zigzag_def bit_xor_iff bit_push_bit_iff bit_signed_drop_bit_iff
  by (cases "i = 0"; cases "i < 64") (auto dest: bit_imp_le_length)

lemma bit_unzigzag: "bit (unzigzag v) i \<longleftrightarrow> i < 64 \<and> ((i < 63 \<and> bit v (i + 1)) \<noteq> bit v 0)"
  unfolding unzigzag_def bit_xor_iff bit_drop_bit_eq bit_uminus_and_1
  by (auto simp: dest: bit_imp_le_length)

lemma unzigzag_zigzag [simp]: "unzigzag (zigzag v) = v"
proof (rule bit_word_eqI)
  fix i assume "i < LENGTH(64)"
  then show "bit (unzigzag (zigzag v)) i = bit v i"
    by (cases "i = 63") (auto simp: bit_zigzag bit_unzigzag)
qed

lemma zigzag_unzigzag [simp]: "zigzag (unzigzag v) = v"
proof (rule bit_word_eqI)
  fix i assume "i < LENGTH(64)"
  then show "bit (zigzag (unzigzag v)) i = bit v i"
    by (cases i) (auto simp: bit_zigzag bit_unzigzag)
qed

text \<open>Zigzag sends \<open>0, -1, 1, -2, 2, ...\<close> to \<open>0, 1, 2, 3, 4, ...\<close>.\<close>

lemma top_bit: "bit (v :: u64) 63 \<longleftrightarrow> 2 ^ 63 \<le> uint v"
proof -
  have "bit v 63 \<longleftrightarrow> bit (uint v) 63" by (simp add: bit_unsigned_iff)
  also have "\<dots> \<longleftrightarrow> odd (uint v div 2 ^ 63)" by (simp add: bit_iff_odd)
  also have "uint v div 2 ^ 63 = (if 2 ^ 63 \<le> uint v then 1 else 0)"
    using uint_bounded [of v] uint_nonnegative [of v] by auto
  finally show ?thesis by simp
qed

lemma sint_value: "sint (v :: u64) = (if 2 ^ 63 \<le> uint v then uint v - 2 ^ 64 else uint v)"
  unfolding sint_uint signed_take_bit_eq_take_bit_minus using top_bit [of v] uint_bounded [of v]
  by (auto simp: bit_unsigned_iff take_bit_int_eq_self_iff)

lemma zigzag_value: "uint (zigzag v) = (if sint v < 0 then - 2 * sint v - 1 else 2 * sint v)"
proof -
  let ?k = "uint v"
  have k: "0 \<le> ?k" "?k < 2 ^ 64" using uint_bounded [of v] uint_nonnegative [of v] by auto
  show ?thesis
  proof (cases "bit v 63")
    case True
    then have "zigzag v = NOT (push_bit 1 v)"
      by (intro bit_word_eqI) (use bit_imp_le_length [of v] in \<open>simp only: bit_zigzag bit_not_iff bit_push_bit_iff, auto\<close>)
    then have "uint (zigzag v) = take_bit 64 (NOT (take_bit 64 (push_bit 1 ?k)))"
      by (simp only: unsigned_not_eq unsigned_push_bit_eq) simp
    also have "take_bit 64 (push_bit 1 ?k) = 2 * ?k - 2 ^ 64"
    proof -
      have "take_bit 64 (push_bit 1 ?k) = (2 * ?k) mod 2 ^ 64" by (simp add: push_bit_eq_mult take_bit_eq_mod mult.commute)
      also have "\<dots> = (2 * ?k - 2 ^ 64) mod 2 ^ 64" by (simp add: mod_diff_right_eq [symmetric])
      also have "\<dots> = 2 * ?k - 2 ^ 64" using k True top_bit [of v] by (intro mod_pos_pos_trivial) auto
      finally show ?thesis .
    qed
    also have "take_bit 64 (NOT (2 * ?k - 2 ^ 64)) = 2 ^ 65 - 1 - 2 * ?k"
    proof -
      have "take_bit 64 (NOT (2 * ?k - 2 ^ 64)) = (2 ^ 64 - 1 - 2 * ?k) mod 2 ^ 64"
        by (simp add: not_eq_complement take_bit_eq_mod)
      also have "\<dots> = (2 ^ 64 - 1 - 2 * ?k + 2 ^ 64) mod 2 ^ 64" by (simp only: mod_add_self2)
      also have "\<dots> = 2 ^ 65 - 1 - 2 * ?k" using k True top_bit [of v] by (subst mod_pos_pos_trivial) auto
      finally show ?thesis .
    qed
    finally show ?thesis using k True top_bit [of v] by (auto simp: sint_value)
  next
    case False
    then have "zigzag v = push_bit 1 v"
      by (intro bit_word_eqI) (use bit_imp_le_length [of v] in \<open>simp only: bit_zigzag bit_not_iff bit_push_bit_iff, auto\<close>)
    then have "uint (zigzag v) = take_bit 64 (push_bit 1 ?k)" by (simp only: unsigned_push_bit_eq) simp
    also have "\<dots> = 2 * ?k" using k False top_bit [of v]
      by (subst take_bit_int_eq_self) (auto simp: push_bit_eq_mult)
    finally show ?thesis using k False top_bit [of v] by (auto simp: sint_value)
  qed
qed

lemma length_deltas [simp]: "length (deltas prev vs) = length vs"
  by (induction vs arbitrary: prev) auto

lemma undelta_deltas: "snd (undelta prev (deltas prev vs)) = vs"
proof (induction vs arbitrary: prev)
  case (Cons v vs)
  then show ?case by (simp add: Let_def case_prod_beta)
qed simp

lemma undelta_append:
  "undelta prev (ds @ es) =
   (let (p1, vs) = undelta prev ds; (p2, ws) = undelta p1 es in (p2, vs @ ws))"
  by (induction ds arbitrary: prev) (simp_all add: Let_def case_prod_beta)

lemma length_undelta: "length (snd (undelta prev ds)) = length ds"
  by (induction ds arbitrary: prev) (simp_all add: Let_def case_prod_beta)

lemma fold_undelta_step:
  "fold (\<lambda>ch s. undelta_step s ch) chs (prev, out) =
   (fst (undelta prev (concat chs)), out @ snd (undelta prev (concat chs)))"
  by (induction chs arbitrary: prev out)
    (simp_all add: undelta_step_def undelta_append Let_def case_prod_beta)

subsection \<open>The front end over any streaming container\<close>

text \<open>
  What a container promises the delta front end: a stream it wrote is delivered to the
  sink chunk by chunk, in order, and no bytes at all make it panic or deliver more than
  the ceiling.
\<close>

locale delta_container =
  fixes enc :: "u64 list \<Rightarrow> u8 list option"
    and run :: "u8 list \<Rightarrow> nat \<Rightarrow> u64 \<times> u64 list \<Rightarrow> (nat result \<times> (u64 \<times> u64 list)) option"
  assumes enc_total: "\<exists>b. enc vs = Some b \<and> length b \<le> 4 + 18 * length vs"
    and run_enc: "enc vs = Some b \<Longrightarrow> length vs < 2 ^ 32 \<Longrightarrow> length vs \<le> max_values \<Longrightarrow>
      run (b @ rest) max_values s = Some (Inr (length vs), fold (\<lambda>ch s. undelta_step s ch) (chunks CHUNK vs) s)"
    and run_total: "\<exists>r prev' vs. run bytes max_values (prev, out) = Some (r, (prev', out @ vs)) \<and>
      length vs \<le> max_values"
begin

lemma deltas_roundtrip:
  assumes "enc (deltas base vs) = Some b" "length vs < 2 ^ 32" "length vs \<le> max_values"
  shows "\<exists>prev. run (b @ rest) max_values (base, out) = Some (Inr (length vs), (prev, out @ vs))"
  using run_enc [OF assms(1), of max_values rest "(base, out)"] assms(2,3)
  by (simp add: fold_undelta_step concat_chunks CHUNK_def undelta_deltas)

end

interpretation for_delta: delta_container for_encode
  "\<lambda>bytes max_values. for_decode_chunks bytes max_values
     (\<lambda>s mn scratch tk. undelta_step s (map (\<lambda>v. mn + v) (take tk scratch)))"
proof unfold_locales
  fix vs
  show "\<exists>b. for_encode vs = Some b \<and> length b \<le> 4 + 18 * length vs"
    using for_encode_Some [of vs] for_encode_length [of vs] by fastforce
next
  fix vs b max_values rest s
  assume "for_encode vs = Some b" "length vs < 2 ^ 32" "length vs \<le> max_values"
  then show "for_decode_chunks (b @ rest) max_values
      (\<lambda>s mn scratch tk. undelta_step s (map (\<lambda>v. mn + v) (take tk scratch))) s =
    Some (Inr (length vs), fold (\<lambda>ch s. undelta_step s ch) (chunks CHUNK vs) s)"
    by (rule for_decode_chunks_encoded) (rule refl)
next
  fix bytes max_values prev and out :: "u64 list"
  let ?sink = "\<lambda>s mn scratch tk. undelta_step s (map (\<lambda>v. mn + v) (take tk scratch))"
  show "\<exists>r prev' vs. for_decode_chunks bytes max_values ?sink (prev, out) = Some (r, (prev', out @ vs)) \<and>
      length vs \<le> max_values"
  proof (cases "cursor_new bytes max_values")
    case (Inl e)
    then show ?thesis by (auto simp: for_decode_chunks_def intro!: exI [of _ "[]"])
  next
    case (Inr c)
    let ?I = "\<lambda>s n. \<exists>vs. snd s = out @ vs \<and> length vs + n \<le> max_values"
    have "cc_remaining c \<le> max_values"
      using Inr by (auto simp: cursor_new_def Let_def split: option.splits if_splits)
    then have "\<exists>r s' n. for_chunks_loop ?sink c (prev, out) = Some (r, s') \<and> ?I s' n \<and> (r = Inr () \<longrightarrow> n = 0)"
      by (intro for_chunks_loop_total [where I = ?I])
        (auto simp: undelta_step_def case_prod_beta Let_def length_undelta)
    then show ?thesis using Inr
      by (auto simp: for_decode_chunks_def split: sum.splits)
  qed
qed

interpretation patch_delta: delta_container patch_encode
  "\<lambda>bytes max_values. patch_decode_chunks bytes max_values (\<lambda>s deltas tk. undelta_step s (take tk deltas))"
proof unfold_locales
  fix vs
  show "\<exists>b. patch_encode vs = Some b \<and> length b \<le> 4 + 18 * length vs"
    using patch_encode_Some [of vs] patch_encode_length [of vs] by fastforce
next
  fix vs b max_values rest s
  assume "patch_encode vs = Some b" "length vs < 2 ^ 32" "length vs \<le> max_values"
  then show "patch_decode_chunks (b @ rest) max_values (\<lambda>s deltas tk. undelta_step s (take tk deltas)) s =
    Some (Inr (length vs), fold (\<lambda>ch s. undelta_step s ch) (chunks CHUNK vs) s)"
    by (rule patch_decode_chunks_encoded) (rule refl)
next
  fix bytes max_values prev and out :: "u64 list"
  let ?sink = "\<lambda>s deltas tk. undelta_step s (take tk deltas)"
  show "\<exists>r prev' vs. patch_decode_chunks bytes max_values ?sink (prev, out) = Some (r, (prev', out @ vs)) \<and>
      length vs \<le> max_values"
  proof (cases "get_range bytes 0 4")
    case None
    then show ?thesis by (auto simp: patch_decode_chunks_def intro!: exI [of _ "[]"])
  next
    case (Some hd4)
    let ?I = "\<lambda>s n. \<exists>vs. snd s = out @ vs \<and> length vs + n \<le> max_values"
    have "read_u32 hd4 \<le> max_values \<Longrightarrow>
        \<exists>r s' n. patch_chunks_loop ?sink bytes 4 (read_u32 hd4) (prev, out) = Some (r, s') \<and> ?I s' n \<and> (r = Inr () \<longrightarrow> n = 0)"
      by (intro patch_chunks_loop_total [where I = ?I])
        (auto simp: undelta_step_def case_prod_beta Let_def length_undelta)
    then show ?thesis using Some
      by (cases "read_u32 hd4 \<le> max_values")
        (auto simp: patch_decode_chunks_def Let_def split: sum.splits intro!: exI [of _ "[]"])
  qed
qed

subsection \<open>The two encodings\<close>

lemma delta_encode_Some:
  obtains b where "delta_encode vs = Some b" "length b \<le> 12 + 18 * length vs"
  using for_delta.enc_total [of "deltas (first_or_zero vs) vs"] by (auto simp: delta_encode_def)

lemma delta_patch_encode_Some:
  obtains b where "delta_patch_encode vs = Some b" "length b \<le> 12 + 18 * length vs"
  using patch_delta.enc_total [of "deltas (first_or_zero vs) vs"] by (auto simp: delta_patch_encode_def)

lemma delta_roundtrip:
  assumes "delta_encode vs = Some b" "length vs < 2 ^ 32" "length vs \<le> max_values"
  shows "delta_decode (b @ rest) max_values out = Some (Inr (), out @ vs)"
proof -
  obtain body where body: "for_encode (deltas (first_or_zero vs) vs) = Some body"
      "b = u64_le (first_or_zero vs) @ body"
    using assms(1) by (auto simp: delta_encode_def Let_def split: bind_splits)
  show ?thesis
    using for_delta.deltas_roundtrip [OF body(1) assms(2,3), of rest out] body(2)
    by (auto simp: delta_decode_def get_range_append1)
qed

lemma delta_patch_roundtrip:
  assumes "delta_patch_encode vs = Some b" "length vs < 2 ^ 32" "length vs \<le> max_values"
  shows "delta_patch_decode (b @ rest) max_values out = Some (Inr (), out @ vs)"
proof -
  obtain body where body: "patch_encode (deltas (first_or_zero vs) vs) = Some body"
      "b = u64_le (first_or_zero vs) @ body"
    using assms(1) by (auto simp: delta_patch_encode_def Let_def split: bind_splits)
  show ?thesis
    using patch_delta.deltas_roundtrip [OF body(1) assms(2,3), of rest out] body(2)
    by (auto simp: delta_patch_decode_def get_range_append1)
qed

lemma delta_decode_total:
  "\<exists>r vs. delta_decode bytes max_values out = Some (r, out @ vs) \<and> length vs \<le> max_values"
proof (cases "get_range bytes 0 8")
  case None
  then show ?thesis by (auto simp: delta_decode_def intro!: exI [of _ "[]"])
next
  case (Some b)
  then show ?thesis
    using for_delta.run_total [of "drop 8 bytes" max_values "read_u64 b" out]
    by (auto simp: delta_decode_def split: sum.splits)
qed

lemma delta_patch_decode_total:
  "\<exists>r vs. delta_patch_decode bytes max_values out = Some (r, out @ vs) \<and> length vs \<le> max_values"
proof (cases "get_range bytes 0 8")
  case None
  then show ?thesis by (auto simp: delta_patch_decode_def intro!: exI [of _ "[]"])
next
  case (Some b)
  then show ?thesis
    using patch_delta.run_total [of "drop 8 bytes" max_values "read_u64 b" out]
    by (auto simp: delta_patch_decode_def split: sum.splits)
qed

end
