(* ===== verification/Rle.thy ===== *)
theory Rle
  imports Delta
begin

text \<open>
  \<^verbatim>\<open>crates/zu-encoding/src/rle.rs\<close>: run-length encoding. The runs are split into a value
  stream and a length stream, each in the frame of reference container, and the decoder
  pulls both cursors in lockstep. The lemmas: the runs expand to the values, the round
  trip, and that arbitrary bytes end in values within the ceiling or in an error that
  leaves the caller's vector as it was.
\<close>

text \<open>The loop of \<^verbatim>\<open>encode\<close> from its current run: what it pushes to the two streams.\<close>

fun rle_runs :: "u64 \<Rightarrow> u64 \<Rightarrow> u64 list \<Rightarrow> u64 list \<times> u64 list" where
  "rle_runs cur len [] = ([cur], [len])"
| "rle_runs cur len (v # vs) =
     (if v = cur then rle_runs cur (len + 1) vs
      else let (rv, rl) = rle_runs v 1 vs in (cur # rv, len # rl))"

definition rle_split :: "u64 list \<Rightarrow> u64 list \<times> u64 list" where
  "rle_split values = (case values of [] \<Rightarrow> ([], []) | first # rest \<Rightarrow> rle_runs first 1 rest)"

definition rle_encode :: "u64 list \<Rightarrow> u8 list option" where
  "rle_encode values =
     (let (run_values, run_lengths) = rle_split values
      in do {
        values_buf \<leftarrow> for_encode run_values;
        lengths_buf \<leftarrow> for_encode run_lengths;
        Some (len_le (length run_values) @ len_le (length values_buf) @ values_buf @ lengths_buf)
      })"

definition rle_corrupt :: "string \<Rightarrow> zu_error" where
  "rle_corrupt detail = Corrupt ''rle'' detail"

text \<open>
  The inner loop over one pair of chunks: the values and lengths it zips, the running
  total, the caller's vector. The sum \<^verbatim>\<open>total.checked_add(len)\<close> is taken in \<open>nat\<close>, where
  it overflows exactly when it reaches \<open>2 ^ 64\<close>.
\<close>

fun rle_expand :: "nat \<Rightarrow> (u64 \<times> u64) list \<Rightarrow> u64 \<Rightarrow> u64 list \<Rightarrow> (zu_error + u64) \<times> u64 list" where
  "rle_expand max_values [] tot out = (Inr tot, out)"
| "rle_expand max_values ((v, len) # rs) tot out =
     (let t = unat tot + unat len in
      if t \<ge> 2 ^ 64 then (Inl (rle_corrupt ''total length overflow''), out)
      else if t \<le> max_values
      then rle_expand max_values rs (tot + len) (out @ replicate (unat len) v)
      else (Inl (rle_corrupt (''claims '' @ show_nat t @ '' values, caller allows '' @ show_nat max_values)), out))"

text \<open>The loop \<^verbatim>\<open>'chunks\<close>: what it breaks with, and the vector at that moment.\<close>

function rle_chunks_loop ::
    "nat \<Rightarrow> chunk_cursor \<Rightarrow> chunk_cursor \<Rightarrow> u64 \<Rightarrow> u64 list \<Rightarrow> (zu_error option \<times> u64 list) option" where
  "rle_chunks_loop max_values vc lc tot out =
     (case cursor_next vc of
        None \<Rightarrow> None
      | Some (Inl e, _) \<Rightarrow> Some (Some e, out)
      | Some (Inr None, _) \<Rightarrow> Some (None, out)
      | Some (Inr (Some (vmin, tk1, sv)), vc') \<Rightarrow>
          (case cursor_next lc of
             None \<Rightarrow> None
           | Some (Inl e, _) \<Rightarrow> Some (Some e, out)
           | Some (Inr None, _) \<Rightarrow> Some (Some (rle_corrupt ''length stream ended early''), out)
           | Some (Inr (Some (lmin, tk2, sl)), lc') \<Rightarrow>
               (case rle_expand max_values
                       (map (\<lambda>(v, l). (vmin + v, lmin + l)) (zip (take (min tk1 tk2) sv) sl)) tot out of
                  (Inl e, out') \<Rightarrow> Some (Some e, out')
                | (Inr tot', out') \<Rightarrow> rle_chunks_loop max_values vc' lc' tot' out')))"
  by pat_completeness auto
termination
  by (relation "measure (\<lambda>(_, c, _). cc_remaining c)") (auto dest: cursor_next_remaining)

declare rle_chunks_loop.simps [simp del]

definition rle_decode :: "u8 list \<Rightarrow> nat \<Rightarrow> u64 list \<Rightarrow> (unit result \<times> u64 list) option" where
  "rle_decode bytes max_values out =
     (case get_range bytes 0 8 of
        None \<Rightarrow> Some (Inl (rle_corrupt ''truncated header''), out)
      | Some header \<Rightarrow>
          let run_count = read_u32 (take 4 header);
              values_len = read_u32 (take 4 (drop 4 header))
          in if run_count > max_values
             then Some (Inl (rle_corrupt (''claims '' @ show_nat run_count @
                    '' runs, caller allows '' @ show_nat max_values @ '' values'')), out)
             else case get_range bytes 8 (8 + values_len) of
               None \<Rightarrow> Some (Inl (rle_corrupt ''truncated values''), out)
             | Some values_bytes \<Rightarrow>
                 (case get_from bytes (8 + values_len) of
                    None \<Rightarrow> Some (Inl (rle_corrupt ''truncated lengths''), out)
                  | Some lengths_bytes \<Rightarrow>
                      (case cursor_new values_bytes run_count of
                         Inl e \<Rightarrow> Some (Inl e, out)
                       | Inr vc \<Rightarrow>
                           (case cursor_new lengths_bytes run_count of
                              Inl e \<Rightarrow> Some (Inl e, out)
                            | Inr lc \<Rightarrow>
                                if cc_count vc \<noteq> run_count \<or> cc_count lc \<noteq> run_count
                                then Some (Inl (rle_corrupt ''stream length mismatch''), out)
                                else case rle_chunks_loop max_values vc lc 0 out of
                                  None \<Rightarrow> None
                                | Some (Some e, out') \<Rightarrow> Some (Inl e, take (length out) out')
                                | Some (None, out') \<Rightarrow> Some (Inr (), out')))))"

subsection \<open>The runs\<close>

definition run_expand :: "u64 list \<Rightarrow> u64 list \<Rightarrow> u64 list" where
  "run_expand rv rl = concat (map2 (\<lambda>v l. replicate (unat l) v) rv rl)"

lemma run_expand_simps [simp]:
  "run_expand [] rl = []"
  "run_expand (v # rv) (l # rl) = replicate (unat l) v @ run_expand rv rl"
  by (simp_all add: run_expand_def)

lemma rle_runs_expand:
  assumes "unat len + length vs < 2 ^ 64"
  shows "length (fst (rle_runs cur len vs)) = length (snd (rle_runs cur len vs)) \<and>
    length (fst (rle_runs cur len vs)) \<le> Suc (length vs) \<and>
    run_expand (fst (rle_runs cur len vs)) (snd (rle_runs cur len vs)) = replicate (unat len) cur @ vs"
  using assms
proof (induction vs arbitrary: cur len)
  case Nil
  then show ?case by simp
next
  case (Cons v vs)
  have len1: "unat (len + 1) = Suc (unat len)" using Cons.prems
    by (simp add: unat_word_ariths)
  show ?case
  proof (cases "v = cur")
    case True
    then show ?thesis using Cons.IH [of "len + 1" cur] Cons.prems
      by (auto simp: len1 replicate_append_same)
  next
    case False
    then show ?thesis using Cons.IH [of 1 v] Cons.prems
      by (auto simp: case_prod_beta Let_def)
  qed
qed

lemma rle_split_expand:
  assumes "length vs < 2 ^ 64"
  shows "length (fst (rle_split vs)) = length (snd (rle_split vs))"
    "length (fst (rle_split vs)) \<le> length vs"
    "run_expand (fst (rle_split vs)) (snd (rle_split vs)) = vs"
  using rle_runs_expand [of 1 "tl vs" "hd vs"] assms
  by (auto simp: rle_split_def split: list.splits)

lemma rle_encode_Some:
  assumes "length vs < 2 ^ 64"
  obtains vb lb where "for_encode (fst (rle_split vs)) = Some vb" "for_encode (snd (rle_split vs)) = Some lb"
    "rle_encode vs = Some (len_le (length (fst (rle_split vs))) @ len_le (length vb) @ vb @ lb)"
    "length vb \<le> 4 + 17 * length vs" "length lb \<le> 4 + 17 * length vs"
proof -
  obtain vb lb where b: "for_encode (fst (rle_split vs)) = Some vb" "for_encode (snd (rle_split vs)) = Some lb"
    by (metis for_encode_Some)
  then show thesis
    using that [of vb lb] for_encode_length [OF b(1)] for_encode_length [OF b(2)] rle_split_expand [OF assms]
    by (simp add: rle_encode_def case_prod_beta)
qed

subsection \<open>The round trip\<close>

lemma rle_expand_ok:
  assumes "unat tot + length (run_expand rv rl) \<le> max_values"
    "unat tot + length (run_expand rv rl) < 2 ^ 64" "length rv = length rl"
  shows "\<exists>t. rle_expand max_values (zip rv rl) tot out = (Inr t, out @ run_expand rv rl) \<and>
    unat t = unat tot + length (run_expand rv rl)"
  using assms(3,1,2)
proof (induction rv rl arbitrary: tot out rule: list_induct2)
  case Nil
  then show ?case by simp
next
  case (Cons v rv l rl)
  have t: "unat (tot + l) = unat tot + unat l"
    using Cons.prems by (simp add: unat_word_ariths)
  then show ?case using Cons.prems Cons.IH [of "tot + l" "out @ replicate (unat l) v"]
    by (simp add: Let_def add.assoc)
qed

lemma run_expand_append:
  "length a = length b \<Longrightarrow> run_expand (a @ a') (b @ b') = run_expand a b @ run_expand a' b'"
  by (induction a b rule: list_induct2) auto

lemma rle_chunks_loop_at:
  assumes "cursor_at vc rv" "cursor_at lc rl" "length rv = length rl"
    "unat tot + length (run_expand rv rl) \<le> max_values"
    "unat tot + length (run_expand rv rl) < 2 ^ 64"
  shows "rle_chunks_loop max_values vc lc tot out = Some (None, out @ run_expand rv rl)"
  using assms
proof (induction CHUNK rv arbitrary: vc lc rl tot out rule: chunks.induct)
  case (1 rv)
  show ?case
  proof (cases "rv = []")
    case True
    then show ?thesis using cursor_at_Nil "1.prems"
      by (subst rle_chunks_loop.simps) simp
  next
    case False
    let ?n = "min (length rv) CHUNK"
    obtain vmin sv vc' where v: "cursor_next vc = Some (Inr (Some (vmin, ?n, sv)), vc')"
        "length sv = CHUNK" "map (\<lambda>v. vmin + v) (take ?n sv) = take CHUNK rv" "cursor_at vc' (drop CHUNK rv)"
      by (rule cursor_at_step [OF "1.prems"(1) False])
    have "rl \<noteq> []" using False "1.prems"(3) by auto
    then obtain lmin sl lc' where l: "cursor_next lc = Some (Inr (Some (lmin, ?n, sl)), lc')"
        "length sl = CHUNK" "map (\<lambda>v. lmin + v) (take ?n sl) = take CHUNK rl" "cursor_at lc' (drop CHUNK rl)"
      using cursor_at_step [OF "1.prems"(2)] "1.prems"(3) by metis
    have z: "map (\<lambda>(v, l). (vmin + v, lmin + l)) (zip (take ?n sv) sl) = zip (take CHUNK rv) (take CHUNK rl)"
      unfolding v(3) [symmetric] l(3) [symmetric] zip_map_map
      by (simp only: zip_take_left)
    have app: "run_expand rv rl = run_expand (take CHUNK rv) (take CHUNK rl) @ run_expand (drop CHUNK rv) (drop CHUNK rl)"
      using "1.prems"(3) run_expand_append [of "take CHUNK rv" "take CHUNK rl" "drop CHUNK rv" "drop CHUNK rl"]
      by simp
    obtain t where t: "rle_expand max_values (zip (take CHUNK rv) (take CHUNK rl)) tot out =
          (Inr t, out @ run_expand (take CHUNK rv) (take CHUNK rl))"
        "unat t = unat tot + length (run_expand (take CHUNK rv) (take CHUNK rl))"
      using rle_expand_ok [of tot "take CHUNK rv" "take CHUNK rl" max_values out] "1.prems" app by auto
    have "\<not> (rv = [] \<or> CHUNK = 0)" using False by (simp add: CHUNK_def)
    from "1.hyps" [OF this v(4) l(4), of t "out @ run_expand (take CHUNK rv) (take CHUNK rl)"]
    show ?thesis using v(1) l(1) z t app "1.prems"
      by (subst rle_chunks_loop.simps) simp
  qed
qed

lemma rle_roundtrip:
  assumes enc: "rle_encode vs = Some b" and len: "length vs \<le> 2 ^ 27" "length vs \<le> max_values"
  shows "rle_decode (b @ rest) max_values out = Some (Inr (), out @ vs)"
proof -
  let ?rv = "fst (rle_split vs)" and ?rl = "snd (rle_split vs)"
  have small: "length vs < 2 ^ 64" "length vs < 2 ^ 32" using len by simp_all
  note sp = rle_split_expand [OF small(1)]
  obtain vb lb where vl: "for_encode ?rv = Some vb" "for_encode ?rl = Some lb"
      "b = len_le (length ?rv) @ len_le (length vb) @ vb @ lb" and vb: "length vb \<le> 4 + 17 * length vs"
    using rle_encode_Some [OF small(1)] enc by (metis option.inject)
  have h: "length ?rv < 2 ^ 32" "length vb < 2 ^ 32" using sp small vb len by simp_all
  obtain vc where vc: "cursor_new (vb @ []) (length ?rv) = Inr vc" "cc_count vc = length ?rv" "cursor_at vc ?rv"
    using cursor_new_encoded [OF vl(1) h(1) order_refl] by metis
  obtain lc where lc: "cursor_new (lb @ rest) (length ?rl) = Inr lc" "cc_count lc = length ?rl" "cursor_at lc ?rl"
    using cursor_new_encoded [OF vl(2), of "length ?rl" rest] h(1) sp(1) by (metis order_refl)
  have loop: "rle_chunks_loop max_values vc lc 0 out = Some (None, out @ vs)"
    using rle_chunks_loop_at [OF vc(3) lc(3) sp(1), of 0 max_values out] sp(3) len(2) small by simp
  let ?hd = "len_le (length ?rv) @ len_le (length vb)"
  have g1: "get_range (b @ rest) 0 8 = Some ?hd"
    using vl(3) get_range_append1 [of ?hd 8 "vb @ lb @ rest"] by simp
  have g2: "get_range (b @ rest) 8 (8 + length vb) = Some vb"
    using vl(3) get_range_append [of ?hd 8 "8 + length vb" vb "lb @ rest"] by simp
  have g3: "get_from (b @ rest) (8 + length vb) = Some (lb @ rest)"
    using vl(3) get_from_append [of "?hd @ vb" "8 + length vb" "lb @ rest"] by simp
  show ?thesis
    unfolding rle_decode_def g1
    using h sp vc lc loop len(2) by (simp add: Let_def read_len_le g2 g3)
qed

subsection \<open>Arbitrary bytes\<close>

lemma rle_expand_total:
  assumes "length vs = unat tot" "unat tot \<le> max_values"
  shows "\<exists>r ws. rle_expand max_values rs tot (out @ vs) = (r, out @ ws) \<and>
    (\<forall>t. r = Inr t \<longrightarrow> length ws = unat t \<and> unat t \<le> max_values)"
  using assms
proof (induction rs arbitrary: tot vs)
  case Nil
  then show ?case by auto
next
  case (Cons r rs)
  obtain v len where r: "r = (v, len)" by (cases r)
  show ?case
  proof (cases "unat tot + unat len < 2 ^ 64 \<and> unat tot + unat len \<le> max_values")
    case True
    then have "unat (tot + len) = unat tot + unat len"
      by (simp add: unat_word_ariths)
    then show ?thesis using True Cons.IH [of "vs @ replicate (unat len) v" "tot + len"] Cons.prems r
      by (simp add: Let_def)
  qed (use r in \<open>auto simp: Let_def\<close>)
qed

lemma rle_chunks_loop_total:
  assumes "length vs = unat tot" "unat tot \<le> max_values"
  shows "\<exists>r ws. rle_chunks_loop max_values vc lc tot (out @ vs) = Some (r, out @ ws) \<and>
    (r = None \<longrightarrow> length ws \<le> max_values)"
  using assms
proof (induction "cc_remaining vc" arbitrary: vc lc tot vs rule: less_induct)
  case less
  obtain r vc' where v: "cursor_next vc = Some (r, vc')" using cursor_next_total by blast
  obtain q lc' where l: "cursor_next lc = Some (q, lc')" using cursor_next_total by blast
  show ?case
  proof (cases "\<exists>x y. r = Inr (Some x) \<and> q = Inr (Some y)")
    case False
    have "\<exists>r. rle_chunks_loop max_values vc lc tot (out @ vs) = Some (r, out @ vs)"
      using False v l by (subst rle_chunks_loop.simps) (simp split: sum.split option.split, blast)
    then show ?thesis using less.prems by auto
  next
    case True
    then obtain vmin tk1 sv lmin tk2 sl where
      rq: "r = Inr (Some (vmin, tk1, sv))" "q = Inr (Some (lmin, tk2, sl))"
      by (metis prod_cases3)
    let ?rs = "map (\<lambda>(v, l). (vmin + v, lmin + l)) (zip (take (min tk1 tk2) sv) sl)"
    obtain e ws where e: "rle_expand max_values ?rs tot (out @ vs) = (e, out @ ws)"
        "\<And>t. e = Inr t \<Longrightarrow> length ws = unat t \<and> unat t \<le> max_values"
      using rle_expand_total [OF less.prems, of ?rs out] by blast
    have "cc_remaining vc' < cc_remaining vc" using v rq by (auto dest: cursor_next_remaining)
    note IH = less.hyps [OF this, of ws _ lc']
    show ?thesis
    proof (cases e)
      case (Inl x)
      then show ?thesis using v l rq e(1) by (subst rle_chunks_loop.simps) simp
    next
      case (Inr t)
      then show ?thesis using v l rq e(1) IH [of t] e(2) by (subst rle_chunks_loop.simps) simp
    qed
  qed
qed

lemma rle_decode_total:
  "\<exists>r vs. rle_decode bytes max_values out = Some (r, out @ vs) \<and> length vs \<le> max_values \<and>
    ((\<exists>e. r = Inl e) \<longrightarrow> vs = [])"
proof -
  have loop: "\<exists>r ws. rle_chunks_loop max_values vc lc 0 out = Some (r, out @ ws) \<and>
      (r = None \<longrightarrow> length ws \<le> max_values)" for vc lc
    using rle_chunks_loop_total [of "[]" 0 max_values vc lc out] by simp
  then obtain R W where RW: "\<And>vc lc. rle_chunks_loop max_values vc lc 0 out = Some (R vc lc, out @ W vc lc)"
      "\<And>vc lc. R vc lc = None \<Longrightarrow> length (W vc lc) \<le> max_values"
    by metis
  show ?thesis
    unfolding rle_decode_def Let_def by (auto simp: RW split: option.split sum.split)
qed

end
