(* ===== verification/Counts.thy ===== *)
theory Counts
  imports ZuPrelude
begin

text \<open>
  \<^verbatim>\<open>crates/zu-encoding/src/counts.rs\<close>: counting values in an open addressed table that
  is kept between calls. The table, its clearing and the probing loop are translated;
  the loop is a partial function, so that it returns is proved and not assumed. The
  abstract specification is the number of occurrences of each value.
\<close>

definition GOLDEN :: u64 where "GOLDEN = 0x9E3779B97F4A7C15"

record counts =
  c_distinct :: "nat option"
  c_top :: u64
  c_top_count :: nat

record count_table =
  ct_slots :: "(u64 \<times> u32) list"
  ct_used :: "u32 list"

text \<open>\<^verbatim>\<open>Table::default()\<close>\<close>

definition empty_table :: count_table where
  "empty_table = \<lparr>ct_slots = [], ct_used = []\<rparr>"

text \<open>\<^verbatim>\<open>n.next_power_of_two()\<close>\<close>

function pow2_from :: "nat \<Rightarrow> nat \<Rightarrow> nat" where
  "pow2_from p n = (if n \<le> p \<or> p = 0 then p else pow2_from (2 * p) n)"
  by pat_completeness auto
termination by (relation "measure (\<lambda>(p, n). n - p)") auto

declare pow2_from.simps [simp del]

definition next_power_of_two :: "nat \<Rightarrow> nat" where
  "next_power_of_two n = pow2_from 1 n"

text \<open>The loop that clears the slots the previous pass wrote.\<close>

fun clear_slots :: "(u64 \<times> u32) list \<Rightarrow> u32 list \<Rightarrow> (u64 \<times> u32) list option" where
  "clear_slots slots [] = Some slots"
| "clear_slots slots (s # ss) = do { slots1 \<leftarrow> modify_at slots (unat s) (\<lambda>_. (0, 0)); clear_slots slots1 ss }"

text \<open>Where a value's probing starts: \<^verbatim>\<open>(v.wrapping_mul(GOLDEN) >> 32) as usize & mask\<close>.\<close>

definition hash_slot :: "nat \<Rightarrow> u64 \<Rightarrow> nat" where
  "hash_slot msk v = unat (drop_bit 32 (v * GOLDEN)) AND msk"

text \<open>The inner \<^verbatim>\<open>loop\<close>: the first slot on the way that is empty or holds the value.\<close>

partial_function (option) probe :: "(u64 \<times> u32) list \<Rightarrow> nat \<Rightarrow> u64 \<Rightarrow> nat \<Rightarrow> nat option" where
  "probe slots msk v at =
     do {
       s \<leftarrow> idx slots at;
       if snd s = 0 \<or> fst s = v then Some at else probe slots msk v ((at + 1) AND msk)
     }"

text \<open>One value: the state is the table, \<open>full\<close>, the top value and its count.\<close>

record count_state =
  cs_slots :: "(u64 \<times> u32) list"
  cs_used :: "u32 list"
  cs_full :: bool
  cs_top :: u64
  cs_top_count :: nat

definition count_step :: "nat \<Rightarrow> nat \<Rightarrow> u64 \<Rightarrow> count_state \<Rightarrow> count_state option" where
  "count_step msk cap v st =
     do {
       at \<leftarrow> probe (cs_slots st) msk v (hash_slot msk v);
       let n = snd (cs_slots st ! at) in
       if n = 0 then
         if length (cs_used st) = cap then Some (st\<lparr>cs_full := True\<rparr>)
         else
           let st1 = st\<lparr>cs_slots := (cs_slots st)[at := (v, 1)], cs_used := cs_used st @ [word_of_nat at]\<rparr> in
           Some (if cs_top_count st = 0 then st1\<lparr>cs_top := v, cs_top_count := 1\<rparr> else st1)
       else
         let n1 = n + 1;
             st1 = st\<lparr>cs_slots := (cs_slots st)[at := (fst (cs_slots st ! at), n1)]\<rparr> in
         Some (if unat n1 > cs_top_count st then st1\<lparr>cs_top := v, cs_top_count := unat n1\<rparr> else st1)
     }"

fun count_loop :: "nat \<Rightarrow> nat \<Rightarrow> u64 list \<Rightarrow> count_state \<Rightarrow> count_state option" where
  "count_loop msk cap [] st = Some st"
| "count_loop msk cap (v # vs) st = do { st1 \<leftarrow> count_step msk cap v st; count_loop msk cap vs st1 }"

definition count_values :: "count_table \<Rightarrow> u64 list \<Rightarrow> nat \<Rightarrow> (counts \<times> count_table) option" where
  "count_values table values cap0 =
     (let want = max (next_power_of_two (min cap0 (length values) * 2)) 64;
          table1 = if length (ct_slots table) < want
                   then \<lparr>ct_slots = replicate want (0, 0), ct_used = []\<rparr> else table
      in do {
        slots \<leftarrow> clear_slots (ct_slots table1) (ct_used table1);
        let msk = length slots - 1; cap = min cap0 (length values);
            top0 = (case values of [] \<Rightarrow> 0 | v # _ \<Rightarrow> v) in do {
        st \<leftarrow> count_loop msk cap values
                 \<lparr>cs_slots = slots, cs_used = [], cs_full = False, cs_top = top0, cs_top_count = 0\<rparr>;
        Some (\<lparr>c_distinct = (if \<not> cs_full st then Some (length (cs_used st)) else None),
               c_top = cs_top st, c_top_count = cs_top_count st\<rparr>,
              \<lparr>ct_slots = cs_slots st, ct_used = cs_used st\<rparr>)
      }})"

subsection \<open>Probing\<close>

definition occ :: "(u64 \<times> u32) list \<Rightarrow> nat \<Rightarrow> bool" where
  "occ slots i \<longleftrightarrow> snd (slots ! i) \<noteq> 0"

definition way :: "nat \<Rightarrow> u64 \<Rightarrow> nat \<Rightarrow> nat" where
  "way n v j = (hash_slot (n - 1) v + j) mod n"

text \<open>A key sits on its own way, and every slot before it there holds another key.\<close>

definition probing_ok :: "(u64 \<times> u32) list \<Rightarrow> bool" where
  "probing_ok slots \<longleftrightarrow> (\<forall>i < length slots. occ slots i \<longrightarrow>
     (\<exists>d. i = way (length slots) (fst (slots ! i)) d \<and>
       (\<forall>j < d. occ slots (way (length slots) (fst (slots ! i)) j) \<and>
                fst (slots ! way (length slots) (fst (slots ! i)) j) \<noteq> fst (slots ! i))))"

definition pow2_sized :: "nat \<Rightarrow> bool" where
  "pow2_sized n \<longleftrightarrow> (\<exists>k \<le> 32. n = 2 ^ k)"

lemma pow2_pos: "pow2_sized n \<Longrightarrow> 0 < n"
  by (auto simp: pow2_sized_def)

lemma and_msk: "pow2_sized n \<Longrightarrow> a AND (n - Suc 0) = a mod n"
proof -
  assume "pow2_sized n"
  then obtain k where "n = 2 ^ k" by (auto simp: pow2_sized_def)
  moreover have "a AND Bit_Operations.mask k = a mod 2 ^ k"
    by (simp only: take_bit_eq_mask [symmetric] take_bit_eq_mod)
  ultimately show ?thesis by (simp add: mask_eq_exp_minus_1)
qed

lemma way_0: "pow2_sized n \<Longrightarrow> way n v 0 = hash_slot (n - 1) v"
  by (simp add: way_def hash_slot_def and_msk pow2_pos)

lemma way_Suc: "pow2_sized n \<Longrightarrow> way n v (Suc j) = (way n v j + 1) AND (n - 1)"
  by (simp add: way_def and_msk mod_Suc_eq)

lemma way_less: "pow2_sized n \<Longrightarrow> way n v j < n"
  by (simp add: way_def pow2_pos)

lemma way_onto:
  assumes "pow2_sized n" "i < n"
  shows "\<exists>j. way n v j = i"
proof
  let ?h = "hash_slot (n - 1) v mod n"
  have "?h < n" using assms by (simp add: pow2_pos)
  have "way n v (n - ?h + i) = (?h + (n - ?h + i)) mod n" by (simp add: way_def mod_add_left_eq)
  also have "?h + (n - ?h + i) = n + i" using \<open>?h < n\<close> by simp
  also have "(n + i) mod n = i" using assms(2) by simp
  finally show "way n v (n - ?h + i) = i" .
qed

definition stops :: "(u64 \<times> u32) list \<Rightarrow> u64 \<Rightarrow> nat \<Rightarrow> bool" where
  "stops slots v i \<longleftrightarrow> \<not> occ slots i \<or> fst (slots ! i) = v"

lemma probe_from:
  assumes n: "pow2_sized (length slots)" and stop: "stops slots v (way (length slots) v d)"
    and before: "\<forall>j < d. \<not> stops slots v (way (length slots) v j)" and j: "j \<le> d"
  shows "probe slots (length slots - 1) v (way (length slots) v j) = Some (way (length slots) v d)"
  using j
proof (induction j rule: inc_induct)
  case base
  then show ?case using stop way_less [OF n] by (subst probe.simps) (simp add: stops_def occ_def)
next
  case (step j)
  have "\<not> stops slots v (way (length slots) v j)" using before step.hyps by simp
  then show ?case using step.IH way_less [OF n] n
    by (subst probe.simps) (simp add: stops_def occ_def way_Suc)
qed

lemma probe_hash:
  assumes n: "pow2_sized (length slots)" and free: "i < length slots" "\<not> occ slots i"
  obtains d where "probe slots (length slots - 1) v (hash_slot (length slots - 1) v) = Some (way (length slots) v d)"
    "stops slots v (way (length slots) v d)" "\<forall>j < d. \<not> stops slots v (way (length slots) v j)"
proof -
  obtain j where "way (length slots) v j = i" using way_onto [OF n free(1)] by blast
  then have "\<exists>j. stops slots v (way (length slots) v j)" using free by (auto simp: stops_def)
  then obtain d where "stops slots v (way (length slots) v d)" "\<forall>j < d. \<not> stops slots v (way (length slots) v j)"
    using exists_least_iff [of "\<lambda>j. stops slots v (way (length slots) v j)"] by blast
  then show thesis using that probe_from [OF n, of v d 0] way_0 [OF n] by simp
qed

text \<open>An empty slot at the end of a value's way means the value is not in the table.\<close>

lemma probe_absent:
  assumes ok: "probing_ok slots" and n: "pow2_sized (length slots)"
    and free: "\<not> occ slots (way (length slots) v d)"
    and i: "i < length slots" "occ slots i" and before: "\<forall>j < d. \<not> stops slots v (way (length slots) v j)"
  shows "fst (slots ! i) \<noteq> v"
proof
  assume v: "fst (slots ! i) = v"
  then obtain e where e: "i = way (length slots) v e" "\<forall>j < e. occ slots (way (length slots) v j)"
    using ok i by (auto simp: probing_ok_def)
  have "\<not> d < e" using e(2) free by auto
  moreover have "\<not> e < d" using before e(1) i(2) v by (auto simp: stops_def)
  ultimately have "d = e" by simp
  then show False using e(1) free i(2) by simp
qed

lemma keys_distinct:
  assumes ok: "probing_ok slots" and i: "i < length slots" "occ slots i" and j: "j < length slots" "occ slots j"
    and same: "fst (slots ! i) = fst (slots ! j)"
  shows "i = j"
proof -
  obtain v where v: "fst (slots ! i) = v" "fst (slots ! j) = v" using same by simp
  obtain d where d: "i = way (length slots) v d" "\<forall>m < d. fst (slots ! way (length slots) v m) \<noteq> v"
    using ok i unfolding probing_ok_def v(1) [symmetric] by blast
  obtain e where e: "j = way (length slots) v e" "\<forall>m < e. fst (slots ! way (length slots) v m) \<noteq> v"
    using ok j unfolding probing_ok_def v(2) [symmetric] by blast
  have "\<not> d < e" using e(2) d(1) v(1) by blast
  moreover have "\<not> e < d" using d(2) e(1) v(2) by blast
  ultimately have "d = e" by simp
  then show ?thesis unfolding d(1) e(1) by (rule arg_cong)
qed

subsection \<open>The loop against the number of occurrences\<close>

definition keys :: "(u64 \<times> u32) list \<Rightarrow> u64 set" where
  "keys slots = {fst (slots ! i) |i. i < length slots \<and> occ slots i}"

text \<open>What holds after the values \<open>ps\<close>, for a table of \<open>n\<close> slots and the cap in force.\<close>

definition counted :: "nat \<Rightarrow> nat \<Rightarrow> u64 list \<Rightarrow> count_state \<Rightarrow> bool" where
  "counted n cap ps st \<longleftrightarrow>
     length (cs_slots st) = n \<and> probing_ok (cs_slots st) \<and>
     unat ` set (cs_used st) = {i. i < n \<and> occ (cs_slots st) i} \<and> distinct (cs_used st) \<and>
     length (cs_used st) \<le> cap \<and>
     (\<forall>i < n. occ (cs_slots st) i \<longrightarrow> unat (snd (cs_slots st ! i)) = count_list ps (fst (cs_slots st ! i))) \<and>
     keys (cs_slots st) \<subseteq> set ps \<and>
     (cs_full st \<longrightarrow> length (cs_used st) = cap \<and> keys (cs_slots st) \<noteq> set ps) \<and>
     (\<not> cs_full st \<longrightarrow> keys (cs_slots st) = set ps) \<and>
     (ps = [] \<longrightarrow> cs_top_count st = 0) \<and>
     (ps \<noteq> [] \<longrightarrow> cs_top st \<in> keys (cs_slots st) \<and> cs_top_count st = count_list ps (cs_top st) \<and>
        (\<forall>k \<in> keys (cs_slots st). count_list ps k \<le> cs_top_count st))"

lemma counted_free:
  assumes "counted n cap ps st" "cap < n"
  obtains i where "i < n" "\<not> occ (cs_slots st) i"
proof -
  have "card {i. i < n \<and> occ (cs_slots st) i} \<le> length (cs_used st)"
    using assms(1) card_image_le [of "set (cs_used st)" unat] card_length [of "cs_used st"]
    by (simp add: counted_def)
  then have "card {i. i < n \<and> occ (cs_slots st) i} < n" using assms by (simp add: counted_def)
  then have "{i. i < n \<and> occ (cs_slots st) i} \<noteq> {..<n}" by (metis card_lessThan less_irrefl)
  then show thesis using that by blast
qed

lemma counted_card:
  assumes "counted n cap ps st"
  shows "length (cs_used st) = card (keys (cs_slots st))"
proof -
  let ?O = "{i. i < n \<and> occ (cs_slots st) i}"
  have "keys (cs_slots st) = (\<lambda>i. fst (cs_slots st ! i)) ` ?O"
    using assms by (auto simp: keys_def counted_def)
  moreover have "inj_on (\<lambda>i. fst (cs_slots st ! i)) ?O"
    using assms keys_distinct by (intro inj_onI) (auto simp: counted_def)
  ultimately have "card (keys (cs_slots st)) = card ?O" by (simp add: card_image)
  also have "\<dots> = card (unat ` set (cs_used st))" using assms by (simp add: counted_def)
  also have "\<dots> = card (set (cs_used st))" by (rule card_image) (intro inj_onI, simp add: word_unat_eq_iff)
  also have "\<dots> = length (cs_used st)" using assms by (simp add: counted_def distinct_card)
  finally show ?thesis by simp
qed

text \<open>Writing a value into the empty slot its probing ended in keeps the probing order.\<close>

lemma probing_ok_update:
  assumes ok: "probing_ok slots" and n: "pow2_sized (length slots)"
    and at: "at = way (length slots) v d"
    and before: "\<forall>j < d. \<not> stops slots v (way (length slots) v j)"
    and new: "occ slots at \<longrightarrow> fst (slots ! at) = v" and c: "c \<noteq> 0"
  shows "probing_ok (slots[at := (v, c)])"
  unfolding probing_ok_def
proof (intro allI impI)
  fix i assume i: "i < length (slots[at := (v, c)])" "occ (slots[at := (v, c)]) i"
  let ?s = "slots[at := (v, c)]" and ?k = "fst (slots[at := (v, c)] ! i)"
  have keep: "occ ?s j \<and> fst (?s ! j) = fst (slots ! j)" if "occ slots j" "j < length slots" for j
    using that new c by (cases "j = at") (auto simp: occ_def)
  have lt: "way (length slots) u j < length slots" for u j using way_less [OF n] .
  show "\<exists>d. i = way (length ?s) ?k d \<and> (\<forall>j < d. occ ?s (way (length ?s) ?k j) \<and>
      fst (?s ! way (length ?s) ?k j) \<noteq> ?k)"
  proof (cases "i = at")
    case True
    then have k: "?k = v" using i by simp
    have "\<forall>j < d. occ ?s (way (length slots) v j) \<and> fst (?s ! way (length slots) v j) \<noteq> v"
      using before keep lt by (auto simp: stops_def)
    then show ?thesis using k True at by auto
  next
    case False
    then have o: "occ slots i" and k: "?k = fst (slots ! i)" using i by (auto simp: occ_def)
    then obtain e where "i = way (length slots) (fst (slots ! i)) e"
      "\<forall>j < e. occ slots (way (length slots) (fst (slots ! i)) j) \<and>
         fst (slots ! way (length slots) (fst (slots ! i)) j) \<noteq> fst (slots ! i)"
      using ok i unfolding probing_ok_def by auto
    then show ?thesis unfolding k length_list_update using keep lt by metis
  qed
qed

lemma keys_update:
  "at < length slots \<Longrightarrow> c \<noteq> 0 \<Longrightarrow> (occ slots at \<longrightarrow> fst (slots ! at) = v) \<Longrightarrow>
    keys (slots[at := (v, c)]) = insert v (keys slots)"
  unfolding keys_def occ_def by (auto simp: nth_list_update)

lemma count_list_snoc: "count_list (ps @ [v]) k = count_list ps k + (if k = v then 1 else 0)"
  by simp

lemma nth_update_occ:
  "at < length slots \<Longrightarrow> c \<noteq> 0 \<Longrightarrow>
    {i. i < length slots \<and> occ (slots[at := (v, c)]) i} = insert at {i. i < length slots \<and> occ slots i}"
  by (auto simp: occ_def nth_list_update)

lemma unat_small_slot: "pow2_sized n \<Longrightarrow> at < n \<Longrightarrow> unat (word_of_nat at :: u32) = at"
proof -
  assume "pow2_sized n" "at < n"
  then obtain k where "k \<le> 32" "at < 2 ^ k" by (auto simp: pow2_sized_def)
  then have "at < 2 ^ 32" using power_increasing [of k 32 "2::nat"] by linarith
  then show ?thesis by (simp add: unat_of_nat take_bit_nat_eq_self)
qed

lemma counted_step_full:
  assumes inv: "counted n cap ps st" and v: "v \<notin> keys (cs_slots st)" and full: "length (cs_used st) = cap"
    and cap: "0 < cap"
  shows "counted n cap (ps @ [v]) (st\<lparr>cs_full := True\<rparr>)"
proof -
  have k: "fst (cs_slots st ! i) \<noteq> v" if "i < n" "occ (cs_slots st) i" for i
    using v that inv by (auto simp: keys_def counted_def)
  have "ps \<noteq> []"
    using counted_card [OF inv] inv full cap by (auto simp: counted_def)
  then show ?thesis using inv v full k unfolding counted_def
    by (auto simp: count_list_snoc)
qed

lemma counted_step_new:
  assumes inv: "counted n cap ps st" and n: "pow2_sized n" and room: "length (cs_used st) \<noteq> cap"
    and v: "v \<notin> keys (cs_slots st)" and at: "at = way n v d" "\<not> occ (cs_slots st) at"
    and before: "\<forall>j < d. \<not> stops (cs_slots st) v (way n v j)"
    and st1: "st1 = st\<lparr>cs_slots := (cs_slots st)[at := (v, 1)], cs_used := cs_used st @ [word_of_nat at]\<rparr>"
    and st2: "st2 = (if cs_top_count st = 0 then st1\<lparr>cs_top := v, cs_top_count := 1\<rparr> else st1)"
  shows "counted n cap (ps @ [v]) st2"
proof -
  have nf: "\<not> cs_full st" using inv room by (auto simp: counted_def)
  then have vps: "v \<notin> set ps" and keys: "keys (cs_slots st) = set ps" using inv v by (auto simp: counted_def)
  have len: "length (cs_slots st) = n" using inv by (simp add: counted_def)
  have lt: "at < n" using at(1) way_less [OF n] by simp
  have slots: "cs_slots st2 = (cs_slots st)[at := (v, 1)]" "cs_used st2 = cs_used st @ [word_of_nat at]"
    "cs_full st2 = cs_full st"
    by (simp_all add: st1 st2)
  have un: "unat (word_of_nat at :: u32) = at" using unat_small_slot [OF n lt] by simp
  have used: "unat ` set (cs_used st2) = {i. i < n \<and> occ (cs_slots st2) i}"
    using inv un nth_update_occ [of at "cs_slots st" 1 v] lt len
    unfolding slots counted_def by simp
  have "word_of_nat at \<notin> set (cs_used st)"
  proof
    assume "word_of_nat at \<in> set (cs_used st)"
    then have "at \<in> unat ` set (cs_used st)" using un by force
    then show False using inv at(2) by (simp add: counted_def)
  qed
  then have dist: "distinct (cs_used st2)" using inv slots by (simp add: counted_def)
  have ok: "probing_ok (cs_slots st2)" unfolding slots
    by (rule probing_ok_update) (use inv n at before len in \<open>auto simp: counted_def\<close>)
  have keys2: "keys (cs_slots st2) = insert v (set ps)"
    using keys_update [of at "cs_slots st" 1 v] lt len at(2) keys unfolding slots by simp
  have cnt: "unat (snd (cs_slots st2 ! i)) = count_list (ps @ [v]) (fst (cs_slots st2 ! i))"
    if "i < n" "occ (cs_slots st2) i" for i
  proof (cases "i = at")
    case True
    then show ?thesis using slots lt len vps by (simp add: count_list_0_iff)
  next
    case False
    then have o: "occ (cs_slots st) i" "cs_slots st2 ! i = cs_slots st ! i" using that slots by (auto simp: occ_def)
    then have "fst (cs_slots st ! i) \<in> set ps" using that keys len by (auto simp: keys_def)
    then show ?thesis using o inv that vps by (auto simp: counted_def)
  qed
  have top: "cs_top st2 \<in> insert v (set ps) \<and> cs_top_count st2 = count_list (ps @ [v]) (cs_top st2) \<and>
      (\<forall>k \<in> insert v (set ps). count_list (ps @ [v]) k \<le> cs_top_count st2)"
  proof (cases "ps = []")
    case True
    then show ?thesis using inv by (simp add: st1 st2 counted_def)
  next
    case False
    then have t: "cs_top st \<in> set ps" "cs_top_count st = count_list ps (cs_top st)"
        "\<forall>k \<in> set ps. count_list ps k \<le> cs_top_count st"
      using inv keys by (auto simp: counted_def)
    then have "0 < cs_top_count st" by (simp add: count_list_0_iff flip: neq0_conv)
    then show ?thesis using t vps by (auto simp: st1 st2 count_list_0_iff)
  qed
  have "length (cs_used st2) \<le> cap" using inv room slots by (simp add: counted_def)
  then show ?thesis
    unfolding counted_def using used dist ok keys2 cnt top len nf slots by auto
qed

lemma counted_step_again:
  assumes inv: "counted n cap ps st" and n: "pow2_sized n" and small: "length ps + 1 < 2 ^ 32"
    and at: "at < n" "occ (cs_slots st) at" "fst (cs_slots st ! at) = v"
    and ok': "probing_ok ((cs_slots st)[at := (v, snd (cs_slots st ! at) + 1)])"
    and st1: "st1 = st\<lparr>cs_slots := (cs_slots st)[at := (v, snd (cs_slots st ! at) + 1)]\<rparr>"
    and st2: "st2 = (if unat (snd (cs_slots st ! at) + 1) > cs_top_count st
        then st1\<lparr>cs_top := v, cs_top_count := unat (snd (cs_slots st ! at) + 1)\<rparr> else st1)"
  shows "counted n cap (ps @ [v]) st2"
proof -
  let ?c = "snd (cs_slots st ! at)"
  have len: "length (cs_slots st) = n" using inv by (simp add: counted_def)
  have c: "unat ?c = count_list ps v" using inv at by (auto simp: counted_def)
  have c1: "unat (?c + 1) = count_list ps v + 1"
    using c small count_le_length [of ps v] by (simp add: unat_word_ariths)
  then have c0: "?c + 1 \<noteq> 0" by (metis add_is_0 unat_0 zero_neq_one)
  have slots: "cs_slots st2 = (cs_slots st)[at := (v, ?c + 1)]" "cs_used st2 = cs_used st"
    "cs_full st2 = cs_full st"
    by (simp_all add: st1 st2)
  have vk: "v \<in> keys (cs_slots st)" using at len by (auto simp: keys_def)
  have keys2: "keys (cs_slots st2) = keys (cs_slots st)"
    using keys_update [of at "cs_slots st" "?c + 1" v] at len c0 vk unfolding slots by auto
  have occ2: "{i. i < n \<and> occ (cs_slots st2) i} = {i. i < n \<and> occ (cs_slots st) i}"
    using nth_update_occ [of at "cs_slots st" "?c + 1" v] at len c0 unfolding slots by auto
  have cnt: "unat (snd (cs_slots st2 ! i)) = count_list (ps @ [v]) (fst (cs_slots st2 ! i))"
    if "i < n" "occ (cs_slots st2) i" for i
  proof (cases "i = at")
    case True
    then show ?thesis using slots at len c1 by simp
  next
    case False
    then have o: "occ (cs_slots st) i" "cs_slots st2 ! i = cs_slots st ! i" using that slots by (auto simp: occ_def)
    then have "fst (cs_slots st ! i) \<noteq> v"
      using keys_distinct [of "cs_slots st" i at] inv that at len False by (auto simp: counted_def)
    then show ?thesis using o inv that by (auto simp: counted_def)
  qed
  have "v \<in> set ps" using vk inv by (auto simp: counted_def)
  then have t: "cs_top st \<in> keys (cs_slots st)" "cs_top_count st = count_list ps (cs_top st)"
      "\<forall>k \<in> keys (cs_slots st). count_list ps k \<le> cs_top_count st"
    using inv by (auto simp: counted_def)
  have top: "cs_top st2 \<in> keys (cs_slots st) \<and> cs_top_count st2 = count_list (ps @ [v]) (cs_top st2) \<and>
      (\<forall>k \<in> keys (cs_slots st). count_list (ps @ [v]) k \<le> cs_top_count st2)"
    using t vk c1 by (cases "cs_top st = v") (force simp: st1 st2)+
  have vps: "set (ps @ [v]) = set ps" using \<open>v \<in> set ps\<close> by auto
  have "length (cs_slots st2) = n" "probing_ok (cs_slots st2)" using len ok' slots by simp_all
  then show ?thesis
    unfolding counted_def keys2 occ2 vps
    using inv cnt top unfolding counted_def slots(2,3) by (auto simp del: count_list_append)
qed

lemma count_step_counted:
  assumes inv: "counted n cap ps st" and n: "pow2_sized n" and cap: "0 < cap" "cap < n"
    and small: "length ps + 1 < 2 ^ 32"
  obtains st' where "count_step (n - 1) cap v st = Some st'" "counted n cap (ps @ [v]) st'"
proof -
  have len: "length (cs_slots st) = n" and ok: "probing_ok (cs_slots st)" using inv by (simp_all add: counted_def)
  obtain i where i: "i < n" "\<not> occ (cs_slots st) i" by (rule counted_free [OF inv cap(2)])
  obtain d where d: "probe (cs_slots st) (n - 1) v (hash_slot (n - 1) v) = Some (way n v d)"
      "stops (cs_slots st) v (way n v d)" "\<forall>j < d. \<not> stops (cs_slots st) v (way n v j)"
    using probe_hash [of "cs_slots st" i v] n i len by metis
  have lt: "way n v d < n" by (rule way_less [OF n])
  show thesis
  proof (cases "occ (cs_slots st) (way n v d)")
    case False
    then have fresh: "v \<notin> keys (cs_slots st)"
      using probe_absent [of "cs_slots st" v d] ok n len d(3) by (auto simp: keys_def)
    show thesis
    proof (cases "length (cs_used st) = cap")
      case True
      show thesis
        by (rule that [OF _ counted_step_full [OF inv fresh True cap(1)]])
          (use d(1) False True in \<open>simp add: count_step_def occ_def Let_def\<close>)
    next
      case room: False
      show thesis
        by (rule that [OF _ counted_step_new [OF inv n room fresh refl False d(3) refl refl]])
          (use d(1) False room in \<open>simp add: count_step_def occ_def Let_def\<close>)
    qed
  next
    case True
    then have key: "fst (cs_slots st ! way n v d) = v" using d(2) by (simp add: stops_def)
    let ?c = "snd (cs_slots st ! way n v d)"
    have "unat ?c = count_list ps v" using inv lt True key by (auto simp: counted_def)
    then have "unat (?c + 1) = count_list ps v + 1"
      using small count_le_length [of ps v] by (simp add: unat_word_ariths)
    then have "?c + 1 \<noteq> 0" by (metis add_is_0 unat_0 zero_neq_one)
    then have ok': "probing_ok ((cs_slots st)[way n v d := (v, ?c + 1)])"
      using probing_ok_update [OF ok, of "way n v d" v d "?c + 1"] n len d(3) key by auto
    show thesis
      by (rule that [OF _ counted_step_again [OF inv n small lt True key ok' refl refl]])
        (use d(1) True key in \<open>simp add: count_step_def occ_def Let_def\<close>)
  qed
qed

lemma count_loop_counted:
  assumes "counted n cap ps st" "pow2_sized n" "0 < cap" "cap < n" "length ps + length vs < 2 ^ 32"
  shows "\<exists>st'. count_loop (n - 1) cap vs st = Some st' \<and> counted n cap (ps @ vs) st'"
  using assms(1,5)
proof (induction vs arbitrary: ps st)
  case (Cons v vs)
  obtain st1 where "count_step (n - 1) cap v st = Some st1" "counted n cap (ps @ [v]) st1"
    by (rule count_step_counted [OF Cons.prems(1) assms(2-4), of v]) (use Cons.prems(2) in simp)
  then show ?case using Cons.IH [of "ps @ [v]" st1] Cons.prems(2) by simp
qed simp

subsection \<open>A call of \<^verbatim>\<open>count\<close>\<close>

lemma pow2_from_2:
  "\<exists>k \<ge> a. pow2_from (2 ^ a) n = 2 ^ k \<and> n \<le> 2 ^ k \<and> (k = a \<or> 2 ^ k < 2 * n)"
proof (induction "n - 2 ^ a" arbitrary: a rule: less_induct)
  case less
  show ?case
  proof (cases "n \<le> 2 ^ a")
    case True
    then show ?thesis by (subst pow2_from.simps) auto
  next
    case False
    have "0 < (2::nat) ^ a" by simp
    then have "n - 2 ^ Suc a < n - 2 ^ a" using False unfolding power_Suc by linarith
    then obtain k where "Suc a \<le> k" "pow2_from (2 ^ Suc a) n = 2 ^ k" "n \<le> 2 ^ k" "k = Suc a \<or> 2 ^ k < 2 * n"
      using less [of "Suc a"] by auto
    moreover from False have "pow2_from (2 ^ a) n = pow2_from (2 ^ Suc a) n"
      by (subst pow2_from.simps) simp
    ultimately show ?thesis using False by (intro exI [of _ k]) auto
  qed
qed

lemma next_power_of_two_le:
  obtains k where "next_power_of_two n = 2 ^ k" "n \<le> 2 ^ k" "k = 0 \<or> 2 ^ k < 2 * n"
  using pow2_from_2 [of 0 n] by (auto simp: next_power_of_two_def)

text \<open>A table as a call leaves it: its used slots cover the occupied ones.\<close>

definition table_ok :: "count_table \<Rightarrow> bool" where
  "table_ok t \<longleftrightarrow> (\<forall>u \<in> set (ct_used t). unat u < length (ct_slots t)) \<and>
     (\<forall>i < length (ct_slots t). occ (ct_slots t) i \<longrightarrow> i \<in> unat ` set (ct_used t)) \<and>
     (ct_slots t = [] \<or> pow2_sized (length (ct_slots t)))"

lemma table_ok_empty: "table_ok empty_table"
  by (simp add: table_ok_def empty_table_def)

lemma clear_slots_ok:
  assumes "\<forall>u \<in> set used. unat u < length slots"
    "\<forall>i < length slots. occ slots i \<longrightarrow> i \<in> unat ` set used"
  shows "\<exists>slots'. clear_slots slots used = Some slots' \<and> length slots' = length slots \<and>
    (\<forall>i < length slots'. \<not> occ slots' i)"
  using assms
proof (induction used arbitrary: slots)
  case (Cons u us)
  have "\<forall>i < length slots. occ (slots[unat u := (0, 0)]) i \<longrightarrow> i \<in> unat ` set us"
    using Cons.prems by (auto simp: occ_def nth_list_update split: if_splits)
  then show ?case using Cons.IH [of "slots[unat u := (0, 0)]"] Cons.prems by simp
qed simp

lemma count_start:
  assumes t: "table_ok t" and small: "length vs \<le> 2 ^ 27"
  obtains slots where
    "clear_slots (ct_slots (if length (ct_slots t) < max (next_power_of_two (min cap0 (length vs) * 2)) 64
        then \<lparr>ct_slots = replicate (max (next_power_of_two (min cap0 (length vs) * 2)) 64) (0, 0), ct_used = []\<rparr> else t))
      (ct_used (if length (ct_slots t) < max (next_power_of_two (min cap0 (length vs) * 2)) 64
        then \<lparr>ct_slots = replicate (max (next_power_of_two (min cap0 (length vs) * 2)) 64) (0, 0), ct_used = []\<rparr> else t))
      = Some slots"
    "pow2_sized (length slots)" "min cap0 (length vs) < length slots" "\<forall>i < length slots. \<not> occ slots i"
proof -
  let ?m = "min cap0 (length vs)"
  let ?want = "max (next_power_of_two (?m * 2)) 64"
  let ?t = "if length (ct_slots t) < ?want then \<lparr>ct_slots = replicate ?want (0, 0), ct_used = []\<rparr> else t"
  obtain k where k: "next_power_of_two (?m * 2) = 2 ^ k" "?m * 2 \<le> 2 ^ k" "k = 0 \<or> 2 ^ k < 2 * (?m * 2)"
    by (rule next_power_of_two_le)
  have "(2::nat) ^ k < 2 ^ 30" using k(3) small by (cases "k = 0") auto
  then have "k < 30" by (rule power_less_imp_less_exp [rotated]) simp
  have want: "?want = 2 ^ max k 6" unfolding k(1) by (cases "k \<le> 6")
    (use power_increasing [of k 6 "2::nat"] power_increasing [of 6 k "2::nat"] in \<open>auto simp: max_def\<close>)
  then have pw: "pow2_sized ?want" unfolding pow2_sized_def using \<open>k < 30\<close> by (intro exI [of _ "max k 6"]) simp
  have wm: "?m < ?want" using k(1,2) by (cases "?m = 0") auto
  have ok: "table_ok ?t"
    using t pw by (auto simp: table_ok_def occ_def)
  have ge: "?want \<le> length (ct_slots ?t)" by (auto simp: not_less)
  obtain slots where "clear_slots (ct_slots ?t) (ct_used ?t) = Some slots" "length slots = length (ct_slots ?t)"
      "\<forall>i < length slots. \<not> occ slots i"
    using clear_slots_ok [of "ct_used ?t" "ct_slots ?t"] ok unfolding table_ok_def by blast
  moreover have "pow2_sized (length (ct_slots ?t))"
    using ok pw ge wm unfolding table_ok_def by fastforce
  ultimately show thesis using that [of slots] ge wm by simp
qed

lemma counted_start:
  "\<forall>i < length slots. \<not> occ slots i \<Longrightarrow>
    counted (length slots) cap []
      \<lparr>cs_slots = slots, cs_used = [], cs_full = False, cs_top = top0, cs_top_count = 0\<rparr>"
  by (auto simp: counted_def probing_ok_def keys_def)

lemma count_values_correct:
  assumes t: "table_ok t" and small: "length vs \<le> 2 ^ 27" and cap: "0 < cap0"
  obtains c t' where "count_values t vs cap0 = Some (c, t')" "table_ok t'"
    "c_distinct c = (if card (set vs) \<le> cap0 then Some (card (set vs)) else None)"
    "vs \<noteq> [] \<Longrightarrow> c_top c \<in> set vs" "c_top_count c = count_list vs (c_top c)"
    "card (set vs) \<le> cap0 \<Longrightarrow> \<forall>v. count_list vs v \<le> c_top_count c"
proof -
  let ?cap = "min cap0 (length vs)"
  let ?top0 = "case vs of [] \<Rightarrow> 0 | v # _ \<Rightarrow> v"
  obtain slots where s: "clear_slots (ct_slots (if length (ct_slots t) < max (next_power_of_two (min cap0 (length vs) * 2)) 64
        then \<lparr>ct_slots = replicate (max (next_power_of_two (min cap0 (length vs) * 2)) 64) (0, 0), ct_used = []\<rparr> else t))
      (ct_used (if length (ct_slots t) < max (next_power_of_two (min cap0 (length vs) * 2)) 64
        then \<lparr>ct_slots = replicate (max (next_power_of_two (min cap0 (length vs) * 2)) 64) (0, 0), ct_used = []\<rparr> else t))
      = Some slots"
    "pow2_sized (length slots)" "?cap < length slots" "\<forall>i < length slots. \<not> occ slots i"
    using count_start [OF t small, of cap0] by blast
  let ?st = "\<lparr>cs_slots = slots, cs_used = [], cs_full = False, cs_top = ?top0, cs_top_count = 0\<rparr>"
  have start: "counted (length slots) ?cap [] ?st" by (rule counted_start [OF s(4)])
  obtain st' where st': "count_loop (length slots - 1) ?cap vs ?st = Some st'" "counted (length slots) ?cap vs st'"
  proof (cases "vs = []")
    case True
    then show thesis using that [of ?st] start by simp
  next
    case False
    then have "0 < ?cap" using cap by simp
    then show thesis using that count_loop_counted [OF start s(2) _ s(3), of vs] small by auto
  qed
  let ?c = "\<lparr>c_distinct = (if \<not> cs_full st' then Some (length (cs_used st')) else None),
               c_top = cs_top st', c_top_count = cs_top_count st'\<rparr>"
  let ?t = "\<lparr>ct_slots = cs_slots st', ct_used = cs_used st'\<rparr>"
  have run: "count_values t vs cap0 = Some (?c, ?t)"
    unfolding count_values_def Let_def s(1) using st'(1) by simp
  have card: "length (cs_used st') = card (keys (cs_slots st'))" by (rule counted_card [OF st'(2)])
  have ok: "table_ok ?t" using st'(2) s(2) unfolding table_ok_def counted_def by auto
  have le: "card (keys (cs_slots st')) \<le> ?cap" using st'(2) card by (simp add: counted_def)
  have full: "card (set vs) > cap0" if "cs_full st'"
  proof -
    have ss: "keys (cs_slots st') \<subset> set vs" and l: "length (cs_used st') = ?cap"
      using st'(2) that by (auto simp: counted_def)
    have "?cap < card (set vs)" using psubset_card_mono [OF finite_set ss] l card by simp
    then show ?thesis using card_length [of vs] by (cases "cap0 \<le> length vs") auto
  qed
  have notfull: "keys (cs_slots st') = set vs" if "\<not> cs_full st'" using st'(2) that by (simp add: counted_def)
  have distinct: "c_distinct ?c = (if card (set vs) \<le> cap0 then Some (card (set vs)) else None)"
    using full notfull le card by auto
  have top: "vs \<noteq> [] \<Longrightarrow> c_top ?c \<in> set vs" "c_top_count ?c = count_list vs (c_top ?c)"
    using st'(2) by (cases "vs = []"; auto simp: counted_def)+
  have best: "\<forall>v. count_list vs v \<le> c_top_count ?c" if "card (set vs) \<le> cap0"
  proof
    fix v
    have "\<not> cs_full st'" using full that by auto
    then show "count_list vs v \<le> c_top_count ?c"
      using st'(2) notfull by (cases "v \<in> set vs") (auto simp: counted_def)
  qed
  show thesis by (rule that [OF run ok distinct top best])
qed

end
