(* ===== verification/Frequency.thy ===== *)
theory Frequency
  imports Rle Counts
begin

text \<open>
  \<^verbatim>\<open>crates/zu-encoding/src/frequency.rs\<close>: frequency encoding. The most common value is
  stored once and the rest are patched in by position. The encoder takes the counting
  table of the thread and gives it back; the decoder pulls both exception streams in
  lockstep.
\<close>

text \<open>The loop of \<^verbatim>\<open>encode\<close> from position \<open>i\<close>: the positions and the values it pushes.\<close>

fun freq_exceptions :: "u64 \<Rightarrow> nat \<Rightarrow> u64 list \<Rightarrow> u64 list \<times> u64 list" where
  "freq_exceptions tv i [] = ([], [])"
| "freq_exceptions tv i (v # vs) =
     (let (ps, es) = freq_exceptions tv (Suc i) vs
      in if v \<noteq> tv then (word_of_nat i # ps, v # es) else (ps, es))"

definition freq_top :: "count_table \<Rightarrow> u64 list \<Rightarrow> (u64 \<times> count_table) option" where
  "freq_top table values =
     (if values = [] then Some (0, table)
      else do { (c, table1) \<leftarrow> count_values table values (length values); Some (c_top c, table1) })"

definition freq_encode :: "count_table \<Rightarrow> u64 list \<Rightarrow> (u8 list \<times> count_table) option" where
  "freq_encode table values =
     do {
       (tv, table1) \<leftarrow> freq_top table values;
       let (positions, exceptions) = freq_exceptions tv 0 values in do {
       positions_buf \<leftarrow> for_encode positions;
       values_buf \<leftarrow> for_encode exceptions;
       Some (len_le (length values) @ u64_le tv @ len_le (length positions_buf) @
             positions_buf @ values_buf, table1)
     }}"

definition freq_corrupt :: "string \<Rightarrow> zu_error" where
  "freq_corrupt detail = Corrupt ''frequency'' detail"

text \<open>The inner loop over one pair of chunks.\<close>

fun freq_patch :: "nat \<Rightarrow> nat \<Rightarrow> (u64 \<times> u64) list \<Rightarrow> u64 list \<Rightarrow> zu_error option \<times> u64 list" where
  "freq_patch count base [] out = (None, out)"
| "freq_patch count base ((pos, v) # rs) out =
     (if unat pos \<ge> count then (Some (freq_corrupt ''position past the value count''), out)
      else freq_patch count base rs (out[base + unat pos := v]))"

function freq_chunks_loop ::
    "nat \<Rightarrow> nat \<Rightarrow> chunk_cursor \<Rightarrow> chunk_cursor \<Rightarrow> u64 list \<Rightarrow> (zu_error option \<times> u64 list) option" where
  "freq_chunks_loop count base pc vc out =
     (case cursor_next pc of
        None \<Rightarrow> None
      | Some (Inl e, _) \<Rightarrow> Some (Some e, out)
      | Some (Inr None, _) \<Rightarrow> Some (None, out)
      | Some (Inr (Some (pmin, tp, sp)), pc') \<Rightarrow>
          (case cursor_next vc of
             None \<Rightarrow> None
           | Some (Inl e, _) \<Rightarrow> Some (Some e, out)
           | Some (Inr None, _) \<Rightarrow> Some (Some (freq_corrupt ''value stream ended early''), out)
           | Some (Inr (Some (vmin, tk, sv)), vc') \<Rightarrow>
               (case freq_patch count base
                       (map (\<lambda>(p, v). (pmin + p, vmin + v)) (zip (take (min tp tk) sp) sv)) out of
                  (Some e, out') \<Rightarrow> Some (Some e, out')
                | (None, out') \<Rightarrow> freq_chunks_loop count base pc' vc' out')))"
  by pat_completeness auto
termination
  by (relation "measure (\<lambda>(_, _, c, _). cc_remaining c)") (auto dest: cursor_next_remaining)

declare freq_chunks_loop.simps [simp del]

definition freq_decode :: "u8 list \<Rightarrow> nat \<Rightarrow> u64 list \<Rightarrow> (unit result \<times> u64 list) option" where
  "freq_decode bytes max_values out =
     (case get_range bytes 0 16 of
        None \<Rightarrow> Some (Inl (freq_corrupt ''truncated header''), out)
      | Some header \<Rightarrow>
          let count = read_u32 (take 4 header);
              tv = read_u64 (take 8 (drop 4 header));
              positions_len = read_u32 (take 4 (drop 12 header))
          in if count > max_values
             then Some (Inl (freq_corrupt ''count above the caller ceiling''), out)
             else case get_range bytes 16 (16 + positions_len) of
               None \<Rightarrow> Some (Inl (freq_corrupt ''truncated positions''), out)
             | Some positions_bytes \<Rightarrow>
                 (case get_from bytes (16 + positions_len) of
                    None \<Rightarrow> Some (Inl (freq_corrupt ''truncated exception values''), out)
                  | Some values_bytes \<Rightarrow>
                      (case cursor_new positions_bytes count of
                         Inl e \<Rightarrow> Some (Inl e, out)
                       | Inr pc \<Rightarrow>
                           (case cursor_new values_bytes count of
                              Inl e \<Rightarrow> Some (Inl e, out)
                            | Inr vc \<Rightarrow>
                                if cc_count pc \<noteq> cc_count vc
                                then Some (Inl (freq_corrupt ''stream length mismatch''), out)
                                else case freq_chunks_loop count (length out) pc vc (out @ replicate count tv) of
                                  None \<Rightarrow> None
                                | Some (Some e, out') \<Rightarrow> Some (Inl e, take (length out) out')
                                | Some (None, out') \<Rightarrow> Some (Inr (), out')))))"

subsection \<open>The exceptions\<close>

definition put_all :: "nat \<Rightarrow> (u64 \<times> u64) list \<Rightarrow> u64 list \<Rightarrow> u64 list" where
  "put_all base rs out = fold (\<lambda>(p, v) o1. o1[base + unat p := v]) rs out"

lemma length_put_all [simp]: "length (put_all base rs out) = length out"
  by (induction rs arbitrary: out) (auto simp: put_all_def)

lemma put_all_append: "put_all base (xs @ ys) out = put_all base ys (put_all base xs out)"
  by (simp add: put_all_def)

lemma freq_exceptions_length:
  "length (fst (freq_exceptions tv i vs)) = length (snd (freq_exceptions tv i vs)) \<and>
   length (fst (freq_exceptions tv i vs)) \<le> length vs"
proof (induction vs arbitrary: i)
  case (Cons v vs)
  then show ?case using Cons [of "Suc i"] by (simp add: case_prod_beta Let_def)
qed simp

lemma freq_exceptions_bound:
  "i + length vs < 2 ^ 64 \<Longrightarrow> p \<in> set (fst (freq_exceptions tv i vs)) \<Longrightarrow> unat p < i + length vs"
proof (induction vs arbitrary: i)
  case (Cons v vs)
  have "unat (word_of_nat i :: u64) = i" using Cons.prems(1)
    by (simp add: unat_of_nat take_bit_nat_eq_self)
  then show ?case using Cons.IH [of "Suc i"] Cons.prems
    by (auto simp: case_prod_beta Let_def split: if_splits)
qed simp

lemma put_exceptions:
  assumes "base + i = length pre" "i + length vs < 2 ^ 64"
  shows "put_all base (zip (fst (freq_exceptions tv i vs)) (snd (freq_exceptions tv i vs)))
      (pre @ replicate (length vs) tv) = pre @ vs"
  using assms
proof (induction vs arbitrary: i pre)
  case (Cons v vs)
  have i: "unat (word_of_nat i :: u64) = i" using Cons.prems(2)
    by (simp add: unat_of_nat take_bit_nat_eq_self)
  have IH: "put_all base (zip (fst (freq_exceptions tv (Suc i) vs)) (snd (freq_exceptions tv (Suc i) vs)))
      ((pre @ [u]) @ replicate (length vs) tv) = pre @ u # vs" for u
    using Cons.IH [of "Suc i" "pre @ [u]"] Cons.prems by simp
  have up: "(pre @ tv # replicate (length vs) tv)[base + i := v] = pre @ v # replicate (length vs) tv"
    using Cons.prems(1) by (simp add: list_update_append)
  show ?case
  proof (cases "v = tv")
    case True
    then show ?thesis using IH [of tv] by (simp add: case_prod_beta Let_def)
  next
    case False
    then show ?thesis using IH [of v] up i by (simp add: case_prod_beta Let_def put_all_def)
  qed
qed (simp add: put_all_def)

subsection \<open>The round trip\<close>

lemma freq_top_Some:
  assumes "table_ok t" "length vs \<le> 2 ^ 27"
  obtains tv t' where "freq_top t vs = Some (tv, t')" "table_ok t'" "\<And>v. count_list vs v \<le> count_list vs tv"
proof (cases "vs = []")
  case True
  then show thesis using that [of 0 t] assms by (simp add: freq_top_def)
next
  case False
  show thesis
  proof (rule count_values_correct [OF assms, of "length vs"])
    show "0 < length vs" using False by simp
  next
    fix c t' assume c: "count_values t vs (length vs) = Some (c, t')" "table_ok t'"
      "c_top_count c = count_list vs (c_top c)"
      "card (set vs) \<le> length vs \<Longrightarrow> \<forall>v. count_list vs v \<le> c_top_count c"
    show thesis by (rule that [of "c_top c" t']) (use c False card_length [of vs] in \<open>auto simp: freq_top_def\<close>)
  qed
qed

lemma freq_encode_Some:
  assumes "table_ok t" "length vs \<le> 2 ^ 27"
  obtains tv t' pb vb where "freq_encode t vs =
      Some (len_le (length vs) @ u64_le tv @ len_le (length pb) @ pb @ vb, t')" "table_ok t'"
    "for_encode (fst (freq_exceptions tv 0 vs)) = Some pb"
    "for_encode (snd (freq_exceptions tv 0 vs)) = Some vb"
    "length pb \<le> 4 + 17 * length vs" "length vb \<le> 4 + 17 * length vs"
proof -
  obtain tv t' where t: "freq_top t vs = Some (tv, t')" "table_ok t'"
    using freq_top_Some [OF assms] by metis
  obtain pb where pb: "for_encode (fst (freq_exceptions tv 0 vs)) = Some pb" by (metis for_encode_Some)
  obtain vb where vb: "for_encode (snd (freq_exceptions tv 0 vs)) = Some vb" by (metis for_encode_Some)
  show thesis
    by (rule that [OF _ t(2) pb vb])
      (use t pb vb for_encode_length [OF pb] for_encode_length [OF vb] freq_exceptions_length [of tv 0 vs]
        in \<open>auto simp: freq_encode_def case_prod_beta Let_def\<close>)
qed

lemma freq_patch_ok:
  "\<forall>p \<in> set rs. unat (fst p) < count \<Longrightarrow> freq_patch count base rs out = (None, put_all base rs out)"
  by (induction rs arbitrary: out) (auto simp: put_all_def)

lemma freq_chunks_loop_at:
  assumes "cursor_at pc ps" "cursor_at vc es" "length ps = length es" "\<forall>p \<in> set ps. unat p < count"
  shows "freq_chunks_loop count base pc vc out = Some (None, put_all base (zip ps es) out)"
  using assms
proof (induction CHUNK ps arbitrary: pc vc es out rule: chunks.induct)
  case (1 ps)
  show ?case
  proof (cases "ps = []")
    case True
    then show ?thesis using cursor_at_Nil "1.prems"
      by (subst freq_chunks_loop.simps) (simp add: put_all_def)
  next
    case False
    let ?n = "min (length ps) CHUNK"
    obtain pmin sp pc' where p: "cursor_next pc = Some (Inr (Some (pmin, ?n, sp)), pc')"
        "map (\<lambda>v. pmin + v) (take ?n sp) = take CHUNK ps" "cursor_at pc' (drop CHUNK ps)"
      by (rule cursor_at_step [OF "1.prems"(1) False])
    have "es \<noteq> []" using False "1.prems"(3) by auto
    then obtain vmin sv vc' where v: "cursor_next vc = Some (Inr (Some (vmin, ?n, sv)), vc')"
        "map (\<lambda>v. vmin + v) (take ?n sv) = take CHUNK es" "cursor_at vc' (drop CHUNK es)"
      using cursor_at_step [OF "1.prems"(2)] "1.prems"(3) by metis
    have z: "map (\<lambda>(p, v). (pmin + p, vmin + v)) (zip (take ?n sp) sv) = zip (take CHUNK ps) (take CHUNK es)"
      unfolding p(2) [symmetric] v(2) [symmetric] zip_map_map by (simp only: zip_take_left)
    have "\<forall>q \<in> set (zip (take CHUNK ps) (take CHUNK es)). unat (fst q) < count"
      using "1.prems"(4) by (auto dest!: set_zip_leftD in_set_takeD)
    then have patch: "freq_patch count base (zip (take CHUNK ps) (take CHUNK es)) out =
        (None, put_all base (zip (take CHUNK ps) (take CHUNK es)) out)"
      by (rule freq_patch_ok)
    have app: "put_all base (zip (drop CHUNK ps) (drop CHUNK es)) (put_all base (zip (take CHUNK ps) (take CHUNK es)) out) =
        put_all base (zip ps es) out"
      using put_all_append [of base "take CHUNK (zip ps es)" "drop CHUNK (zip ps es)" out]
      unfolding append_take_drop_id by (simp only: take_zip drop_zip)
    have ne: "\<not> (ps = [] \<or> CHUNK = 0)" using False by (simp add: CHUNK_def)
    have "\<forall>p \<in> set (drop CHUNK ps). unat p < count" using "1.prems"(4) by (auto dest: in_set_dropD)
    with "1.hyps" [OF ne p(3) v(3)] show ?thesis using p(1) v(1) z patch app "1.prems"(3)
      by (subst freq_chunks_loop.simps) simp
  qed
qed

lemma freq_roundtrip:
  assumes enc: "freq_encode t vs = Some (b, t')" and t: "table_ok t"
    and len: "length vs \<le> 2 ^ 27" "length vs \<le> max_values"
  shows "freq_decode (b @ rest) max_values out = Some (Inr (), out @ vs)"
proof -
  obtain tv pb vb where b: "b = len_le (length vs) @ u64_le tv @ len_le (length pb) @ pb @ vb"
    and pv: "for_encode (fst (freq_exceptions tv 0 vs)) = Some pb"
      "for_encode (snd (freq_exceptions tv 0 vs)) = Some vb"
    and pb: "length pb \<le> 4 + 17 * length vs"
    by (rule freq_encode_Some [OF t len(1)]) (use enc in simp)
  let ?ps = "fst (freq_exceptions tv 0 vs)" and ?es = "snd (freq_exceptions tv 0 vs)"
  note l = freq_exceptions_length [of tv 0 vs]
  have small: "length vs < 2 ^ 32" "length pb < 2 ^ 32" "length ?ps < 2 ^ 32" "length ?es < 2 ^ 32"
    using len pb l by auto
  obtain pc where pc: "cursor_new (pb @ []) (length vs) = Inr pc" "cc_count pc = length ?ps" "cursor_at pc ?ps"
    by (rule cursor_new_encoded [OF pv(1) small(3), of "length vs" "[]"]) (use l in auto)
  obtain vc where vc: "cursor_new (vb @ rest) (length vs) = Inr vc" "cc_count vc = length ?es" "cursor_at vc ?es"
    by (rule cursor_new_encoded [OF pv(2) small(4), of "length vs" rest]) (use l in auto)
  have "\<forall>p \<in> set ?ps. unat p < length vs"
    using freq_exceptions_bound [of 0 vs] len by auto
  then have loop: "freq_chunks_loop (length vs) (length out) pc vc (out @ replicate (length vs) tv) = Some (None, out @ vs)"
    using freq_chunks_loop_at [OF pc(3) vc(3)] put_exceptions [of "length out" 0 out vs tv] l len by simp
  let ?hd = "len_le (length vs) @ u64_le tv @ len_le (length pb)"
  have g1: "get_range (b @ rest) 0 16 = Some ?hd"
    using b get_range_append1 [of ?hd 16 "pb @ vb @ rest"] by simp
  have g2: "get_range (b @ rest) 16 (16 + length pb) = Some pb"
    using b get_range_append [of ?hd 16 "16 + length pb" pb "vb @ rest"] by simp
  have g3: "get_from (b @ rest) (16 + length pb) = Some (vb @ rest)"
    using b get_from_append [of "?hd @ pb" "16 + length pb" "vb @ rest"] by simp
  have hd: "take 4 ?hd = len_le (length vs)" "take 8 (drop 4 ?hd) = u64_le tv" "take 4 (drop 12 ?hd) = len_le (length pb)"
    by simp_all
  show ?thesis
    unfolding freq_decode_def g1 using small pc vc loop l len(2)
    by (simp add: Let_def hd read_len_le g2 g3 del: take_append drop_append)
qed

subsection \<open>Arbitrary bytes\<close>

lemma freq_patch_keeps:
  "length (snd (freq_patch count base rs out)) = length out \<and>
   take base (snd (freq_patch count base rs out)) = take base out"
  by (induction count base rs out rule: freq_patch.induct) auto

lemma freq_chunks_loop_total:
  "\<exists>r out'. freq_chunks_loop count base pc vc out = Some (r, out') \<and> length out' = length out \<and>
    take base out' = take base out"
proof (induction "cc_remaining pc" arbitrary: pc vc out rule: less_induct)
  case less
  obtain r pc' where p: "cursor_next pc = Some (r, pc')" using cursor_next_total by blast
  obtain q vc' where v: "cursor_next vc = Some (q, vc')" using cursor_next_total by blast
  show ?case
  proof (cases "\<exists>x y. r = Inr (Some x) \<and> q = Inr (Some y)")
    case False
    then have "\<exists>r. freq_chunks_loop count base pc vc out = Some (r, out)"
      using p v by (subst freq_chunks_loop.simps) (simp split: sum.split option.split, blast)
    then show ?thesis by auto
  next
    case True
    then obtain pmin tp sp vmin tk sv where
      rq: "r = Inr (Some (pmin, tp, sp))" "q = Inr (Some (vmin, tk, sv))"
      by (metis prod_cases3)
    let ?rs = "map (\<lambda>(p, v). (pmin + p, vmin + v)) (zip (take (min tp tk) sp) sv)"
    obtain e out1 where e: "freq_patch count base ?rs out = (e, out1)" by fastforce
    then have k: "length out1 = length out" "take base out1 = take base out"
      using freq_patch_keeps [of count base ?rs out] by simp_all
    have "cc_remaining pc' < cc_remaining pc" using p rq by (auto dest: cursor_next_remaining)
    from less [OF this, of vc' out1] show ?thesis using p v rq e k
      by (subst freq_chunks_loop.simps) (cases e; simp)
  qed
qed

lemma freq_decode_total:
  "\<exists>r vs. freq_decode bytes max_values out = Some (r, out @ vs) \<and> length vs \<le> max_values \<and>
    ((\<exists>e. r = Inl e) \<longrightarrow> vs = [])"
proof -
  have loop: "\<exists>r ws. freq_chunks_loop count (length out) pc vc (out @ replicate count tv) = Some (r, out @ ws) \<and>
      length ws = count" for count pc vc tv
  proof -
    obtain r out' where r: "freq_chunks_loop count (length out) pc vc (out @ replicate count tv) = Some (r, out')"
        "length out' = length out + count" "take (length out) out' = out"
      using freq_chunks_loop_total [of count "length out" pc vc "out @ replicate count tv"] by auto
    then have "out' = out @ drop (length out) out'" by (metis append_take_drop_id)
    then show ?thesis using r by (metis add_diff_cancel_left' length_drop)
  qed
  then obtain R W where RW: "\<And>count pc vc tv. freq_chunks_loop count (length out) pc vc (out @ replicate count tv) =
        Some (R count pc vc tv, out @ W count pc vc tv)"
      "\<And>count pc vc tv. length (W count pc vc tv) = count"
    by metis
  show ?thesis
    unfolding freq_decode_def Let_def by (auto simp: RW split: option.split sum.split)
qed

end
