(* ===== verification/Dict.thy ===== *)
theory Dict
  imports ForBitpack
begin

text \<open>
  \<^verbatim>\<open>crates/zu-encoding/src/dict.rs\<close>: dictionary encoding. The sorted distinct values and
  the rows' codes are two frame of reference containers. The lemmas: the dictionary
  resolves every code the encoder writes, the round trip up to the format's cap on
  entries, and that arbitrary bytes never panic and never exceed the ceiling.
\<close>

definition MAX_ENTRIES :: nat where "MAX_ENTRIES = 8192"

text \<open>
  \<^verbatim>\<open>dict.binary_search(v)\<close>. On a strictly sorted slice the matching index, when there
  is one, is unique, so its value does not depend on the probing order of the search.
\<close>

fun search_from :: "nat \<Rightarrow> u64 list \<Rightarrow> u64 \<Rightarrow> nat option" where
  "search_from i [] v = None"
| "search_from i (x # xs) v = (if x = v then Some i else search_from (Suc i) xs v)"

definition dict_of :: "u64 list \<Rightarrow> u64 list" where
  "dict_of values = remdups_adj (sort values)"

definition dict_encode :: "u64 list \<Rightarrow> u8 list option" where
  "dict_encode values =
     (let dict = dict_of values
      in do {
        codes \<leftarrow> map_opt (\<lambda>v. map_option word_of_nat (search_from 0 dict v)) values;
        dict_buf \<leftarrow> for_encode dict;
        codes_buf \<leftarrow> for_encode codes;
        Some (len_le (length dict_buf) @ dict_buf @ codes_buf)
      })"

definition dict_corrupt :: "string \<Rightarrow> zu_error" where
  "dict_corrupt detail = Corrupt ''dict'' detail"

text \<open>The loop over \<^verbatim>\<open>&mut out[start..]\<close>: an error stops it with the rest still codes.\<close>

fun dict_resolve :: "u64 list \<Rightarrow> u64 list \<Rightarrow> unit result \<times> u64 list" where
  "dict_resolve dict [] = (Inr (), [])"
| "dict_resolve dict (slot # slots) =
     (case idx dict (unat slot) of
        None \<Rightarrow> (Inl (dict_corrupt ''code out of range''), slot # slots)
      | Some v \<Rightarrow> (case dict_resolve dict slots of (r, rest) \<Rightarrow> (r, v # rest)))"

definition dict_decode :: "u8 list \<Rightarrow> nat \<Rightarrow> u64 list \<Rightarrow> (unit result \<times> u64 list) option" where
  "dict_decode bytes max_values out =
     (case get_range bytes 0 4 of
        None \<Rightarrow> Some (Inl (dict_corrupt ''truncated header''), out)
      | Some hd4 \<Rightarrow>
          let dict_len = read_u32 hd4 in
          (case get_range bytes 4 (4 + dict_len) of
             None \<Rightarrow> Some (Inl (dict_corrupt ''truncated dictionary''), out)
           | Some dict_bytes \<Rightarrow>
               (case get_from bytes (4 + dict_len) of
                  None \<Rightarrow> Some (Inl (dict_corrupt ''truncated codes''), out)
                | Some codes_bytes \<Rightarrow>
                    (case for_decode dict_bytes (min MAX_ENTRIES max_values) [] of
                       None \<Rightarrow> None
                     | Some (Inl e, _) \<Rightarrow> Some (Inl e, out)
                     | Some (Inr _, dict) \<Rightarrow>
                         (case for_decode codes_bytes max_values out of
                            None \<Rightarrow> None
                          | Some (Inl e, out1) \<Rightarrow> Some (Inl e, out1)
                          | Some (Inr _, out1) \<Rightarrow>
                              (case dict_resolve dict (drop (length out) out1) of
                                 (r, slots) \<Rightarrow> Some (r, take (length out) out1 @ slots)))))))"

subsection \<open>The dictionary\<close>

lemma search_from_in: "v \<in> set xs \<Longrightarrow> \<exists>i. search_from k xs v = Some (k + i) \<and> i < length xs \<and> xs ! i = v"
proof (induction xs arbitrary: k)
  case (Cons x xs)
  show ?case
  proof (cases "x = v")
    case False
    then obtain i where "search_from (Suc k) xs v = Some (Suc k + i)" "i < length xs" "xs ! i = v"
      using Cons by (metis set_ConsD)
    then show ?thesis using False by (intro exI [of _ "Suc i"]) auto
  qed auto
qed simp

lemma set_dict_of [simp]: "set (dict_of values) = set values"
  by (simp add: dict_of_def)

lemma distinct_dedup_sorted: "sorted xs \<Longrightarrow> distinct (remdups_adj (xs :: u64 list))"
  by (induction xs rule: remdups_adj.induct) fastforce+

lemma dict_of_strictly_sorted: "sorted (dict_of values) \<and> distinct (dict_of values)"
  unfolding dict_of_def
  by (simp add: sorted_remdups_adj distinct_dedup_sorted)

lemma length_dict_of: "length (dict_of values) = card (set values)"
  using dict_of_strictly_sorted [of "values"] distinct_card [of "dict_of values"] by simp

lemma length_dict_of_le: "length (dict_of values) \<le> length values"
  by (simp add: length_dict_of card_length)

definition dict_codes :: "u64 list \<Rightarrow> u64 list \<Rightarrow> u64 list" where
  "dict_codes dict values = map (\<lambda>v. word_of_nat (the (search_from 0 dict v))) values"

lemma dict_codes_map_opt:
  "set values \<subseteq> set dict \<Longrightarrow>
    map_opt (\<lambda>v. map_option word_of_nat (search_from 0 dict v)) values = Some (dict_codes dict values)"
  unfolding dict_codes_def
  by (rule map_opt_Some) (use search_from_in [of _ dict 0] in fastforce)

lemma dict_resolve_codes:
  assumes "set values \<subseteq> set dict" "length dict < 2 ^ 64"
  shows "dict_resolve dict (dict_codes dict values) = (Inr (), values)"
  using assms(1)
proof (induction "values")
  case Nil
  then show ?case by (simp add: dict_codes_def)
next
  case (Cons v vs)
  then obtain i where "search_from 0 dict v = Some i" "i < length dict" "dict ! i = v"
    using search_from_in [of v dict 0] by auto
  moreover from this assms(2) have "unat (word_of_nat i :: u64) = i"
    by (simp add: unat_of_nat take_bit_nat_eq_self)
  ultimately show ?case using Cons by (simp add: dict_codes_def)
qed

subsection \<open>The round trip\<close>

lemma dict_encode_Some:
  obtains db cb where "for_encode (dict_of vs) = Some db" "for_encode (dict_codes (dict_of vs) vs) = Some cb"
    "dict_encode vs = Some (len_le (length db) @ db @ cb)"
    "length db \<le> 4 + 17 * length vs" "length cb \<le> 4 + 17 * length vs"
proof -
  obtain db cb where b: "for_encode (dict_of vs) = Some db" "for_encode (dict_codes (dict_of vs) vs) = Some cb"
    by (metis for_encode_Some)
  have "length (dict_codes (dict_of vs) vs) = length vs" by (simp add: dict_codes_def)
  then show thesis
    using that [of db cb] for_encode_length [OF b(1)] for_encode_length [OF b(2)] length_dict_of_le [of vs] b
    by (simp add: dict_encode_def Let_def dict_codes_map_opt)
qed

lemma dict_roundtrip:
  assumes enc: "dict_encode vs = Some b" and len: "length vs \<le> 2 ^ 27" "length vs \<le> max_values"
    and cap: "card (set vs) \<le> MAX_ENTRIES"
  shows "dict_decode (b @ rest) max_values out = Some (Inr (), out @ vs)"
proof -
  obtain db cb where dc: "for_encode (dict_of vs) = Some db" "for_encode (dict_codes (dict_of vs) vs) = Some cb"
      "b = len_le (length db) @ db @ cb" and db: "length db \<le> 4 + 17 * length vs"
    using dict_encode_Some [of vs] enc by (metis option.inject)
  have n: "length (dict_of vs) \<le> length vs" by (rule length_dict_of_le)
  have h: "length db < 2 ^ 32" "length (dict_of vs) < 2 ^ 32" using db len n by simp_all
  have l: "length (dict_codes (dict_of vs) vs) = length vs" by (simp add: dict_codes_def)
  have d1: "for_decode db (min MAX_ENTRIES max_values) [] = Some (Inr (), dict_of vs)"
    using for_roundtrip [OF dc(1) h(2), of "min MAX_ENTRIES max_values" "[]" "[]"] cap n len(2)
    by (simp add: length_dict_of)
  have d2: "for_decode (cb @ rest) max_values out = Some (Inr (), out @ dict_codes (dict_of vs) vs)"
    by (rule for_roundtrip [OF dc(2)]) (use len l in simp_all)
  have d3: "dict_resolve (dict_of vs) (dict_codes (dict_of vs) vs) = (Inr (), vs)"
    by (rule dict_resolve_codes) (use h in simp_all)
  have g1: "get_range (b @ rest) 0 4 = Some (len_le (length db))"
    using dc(3) by (simp add: get_range_append1)
  have g2: "get_range (b @ rest) 4 (4 + length db) = Some db"
    using dc(3) get_range_append [of "len_le (length db)" 4 "4 + length db" db "cb @ rest"] by simp
  have g3: "get_from (b @ rest) (4 + length db) = Some (cb @ rest)"
    using dc(3) get_from_append [of "len_le (length db) @ db" "4 + length db" "cb @ rest"] by simp
  show ?thesis
    unfolding dict_decode_def g1 using h by (simp add: Let_def read_len_le g2 g3 d1 d2 d3)
qed

lemma length_dict_resolve: "length (snd (dict_resolve dict slots)) = length slots"
  by (induction slots) (auto split: option.split prod.split)

lemma dict_resolve_ok:
  "dict_resolve dict slots = (Inr (), vs) \<Longrightarrow> set vs \<subseteq> set dict \<and> (\<forall>s \<in> set slots. unat s < length dict)"
  by (induction slots arbitrary: vs) (fastforce simp: idx_def split: option.splits prod.splits if_splits)+

lemma dict_decode_total:
  "\<exists>r vs. dict_decode bytes max_values out = Some (r, out @ vs) \<and> length vs \<le> max_values"
proof -
  have "\<exists>r ws. for_decode bs m o1 = Some (r, o1 @ ws) \<and> length ws \<le> m" for bs m o1
    by (metis for_decode_total)
  then obtain R W where RW: "\<And>bs m o1. for_decode bs m o1 = Some (R bs m o1, o1 @ W bs m o1)"
      "\<And>bs m o1. length (W bs m o1) \<le> m"
    by metis
  show ?thesis
    unfolding dict_decode_def Let_def
    using length_dict_resolve
    by (auto simp: RW case_prod_beta split: option.split sum.split)
qed

end
