(* ===== verification/BoolBitpack.thy ===== *)
theory BoolBitpack
  imports ForBitpack
begin

text \<open>
  \<^verbatim>\<open>crates/zu-encoding/src/bool_bitpack.rs\<close>: one bit per value. The encoder's debug
  assertion that every value is binary is a panic of the model.
\<close>

text \<open>The loop over a chunk of eight from its bit number and byte so far.\<close>

fun bool_byte :: "nat \<Rightarrow> u8 \<Rightarrow> u64 list \<Rightarrow> u8 option" where
  "bool_byte b byte [] = Some byte"
| "bool_byte b byte (v # vs) =
     (if v \<le> 1 then bool_byte (Suc b) (byte OR push_bit b (ucast v)) vs else None)"

definition bool_encode :: "u64 list \<Rightarrow> u8 list option" where
  "bool_encode values =
     do { bs \<leftarrow> map_opt (bool_byte 0 0) (chunks 8 values); Some (len_le (length values) @ bs) }"

definition bool_corrupt :: "string \<Rightarrow> zu_error" where
  "bool_corrupt detail = Corrupt ''bool_bitpack'' detail"

definition bits_of :: "u8 \<Rightarrow> nat \<Rightarrow> u64 list" where
  "bits_of byte n = map (\<lambda>b. ucast (drop_bit b byte AND 1)) [0..<n]"

definition bool_unpack :: "u8 list \<Rightarrow> nat \<Rightarrow> u64 list option" where
  "bool_unpack body count =
     (let full = count div 8
      in if count mod 8 = 0 then Some (concat (map (\<lambda>byte. bits_of byte 8) (take full body)))
         else do {
           byte \<leftarrow> idx body full;
           Some (concat (map (\<lambda>byte. bits_of byte 8) (take full body)) @ bits_of byte (count mod 8))
         })"

definition bool_decode :: "u8 list \<Rightarrow> nat \<Rightarrow> u64 list \<Rightarrow> (unit result \<times> u64 list) option" where
  "bool_decode bytes max_values out =
     (case get_range bytes 0 4 of
        None \<Rightarrow> Some (Inl (bool_corrupt ''truncated count''), out)
      | Some hd4 \<Rightarrow>
          let count = read_u32 hd4 in
          if count > max_values then Some (Inl (bool_corrupt ''count above the caller ceiling''), out)
          else case get_range bytes 4 (4 + (count + 7) div 8) of
                 None \<Rightarrow> Some (Inl (bool_corrupt ''truncated body''), out)
               | Some body \<Rightarrow> do { vs \<leftarrow> bool_unpack body count; Some (Inr (), out @ vs) })"

lemma word_le_1: "(v::u64) \<le> 1 \<longleftrightarrow> v = 0 \<or> v = 1"
  unfolding word_le_nat_alt word_unat_eq_iff by auto

lemma and_one_if: "(w :: 'a::len word) AND 1 = (if bit w 0 then 1 else 0)"
  by (cases "bit w 0") (simp_all add: and_one_eq bit_0 odd_iff_mod_2_eq_one)

lemma bool_byte_bits:
  assumes "\<forall>v \<in> set vs. v \<le> 1" "k + length vs \<le> 8" "\<forall>i \<ge> k. \<not> bit byte i"
  shows "\<exists>byte'. bool_byte k byte vs = Some byte' \<and>
    (\<forall>i < 8. bit byte' i \<longleftrightarrow> (if i < k then bit byte i else i < k + length vs \<and> vs ! (i - k) = 1))"
  using assms
proof (induction vs arbitrary: k byte)
  case Nil
  then show ?case by auto
next
  case (Cons v vs)
  have v: "v = 0 \<or> v = 1" using Cons.prems(1) by (auto simp: word_le_1)
  let ?b = "byte OR push_bit k (ucast v)"
  have b: "bit ?b i \<longleftrightarrow> (if i = k then v = 1 else bit byte i)" if "i < 8" for i
    using v Cons.prems(3) that by (auto simp: bit_simps)
  have "\<forall>i \<ge> Suc k. \<not> bit ?b i"
  proof (intro allI impI)
    fix i assume "Suc k \<le> i"
    then show "\<not> bit ?b i" using b [of i] Cons.prems(3) bit_imp_le_length [of ?b i] by (cases "i < 8") auto
  qed
  then obtain byte' where byte': "bool_byte (Suc k) ?b vs = Some byte'"
      "\<forall>i < 8. bit byte' i \<longleftrightarrow> (if i < Suc k then bit ?b i else i < Suc k + length vs \<and> vs ! (i - Suc k) = 1)"
    using Cons.IH [of "Suc k" ?b] Cons.prems by auto
  have "bit byte' i \<longleftrightarrow> (if i < k then bit byte i else i < k + length (v # vs) \<and> (v # vs) ! (i - k) = 1)" if "i < 8" for i
  proof (cases "i = k")
    case True
    then show ?thesis using byte'(2) b that by simp
  next
    case False
    then show ?thesis using byte'(2) b that by (auto simp: nth_Cons')
  qed
  then show ?case using byte'(1) Cons.prems(1) by auto
qed

lemma bool_byte_bits_of:
  assumes "\<forall>v \<in> set vs. v \<le> 1" "length vs \<le> 8"
  obtains byte where "bool_byte 0 0 vs = Some byte" "bits_of byte (length vs) = vs"
proof -
  obtain byte where byte: "bool_byte 0 0 vs = Some byte"
      "\<forall>i < 8. bit byte i \<longleftrightarrow> i < length vs \<and> vs ! i = 1"
    using bool_byte_bits [of vs 0 0] assms by auto
  have "bits_of byte (length vs) = vs"
  proof (rule nth_equalityI)
    fix i assume "i < length (bits_of byte (length vs))"
    then have i: "i < length vs" by (simp add: bits_of_def)
    then have "vs ! i \<le> 1" using assms(1) by simp
    then have "vs ! i = 0 \<or> vs ! i = 1" by (auto simp: word_le_1)
    moreover have "drop_bit i byte AND 1 = (if vs ! i = 1 then 1 else 0)"
      using byte(2) i assms(2) unfolding and_one_if bit_drop_bit_eq by simp
    ultimately show "bits_of byte (length vs) ! i = vs ! i"
      using i by (auto simp: bits_of_def)
  qed (simp add: bits_of_def)
  then show thesis using that byte(1) by blast
qed

lemma bool_bytes_unpack:
  assumes "\<forall>v \<in> set vs. v \<le> 1"
  shows "\<exists>bs. map_opt (bool_byte 0 0) (chunks 8 vs) = Some bs \<and> length bs = (length vs + 7) div 8 \<and>
    bool_unpack bs (length vs) = Some vs"
  using assms
proof (induction "8::nat" vs rule: chunks.induct)
  case (1 vs)
  show ?case
  proof (cases "length vs < 8")
    case True
    show ?thesis
    proof (cases "vs = []")
      case False
      obtain byte where b: "bool_byte 0 0 vs = Some byte" "bits_of byte (length vs) = vs"
        by (rule bool_byte_bits_of [OF "1.prems"]) (use True in simp_all)
      have "length vs div 8 = 0" "length vs mod 8 = length vs" "length vs \<noteq> 0" using True False by simp_all
      moreover have "(length vs + 7) div 8 = 1"
        using True False by (intro iffD2 [OF div_eq_between]) (auto simp: Suc_le_eq)
      ultimately show ?thesis using True False b by (simp add: chunks_short bool_unpack_def Let_def)
    qed (simp add: bool_unpack_def)
  next
    case False
    let ?t = "take 8 vs" and ?d = "drop 8 vs"
    have split: "chunks 8 vs = ?t # chunks 8 ?d" using False by (subst chunks.simps) auto
    have sub: "\<forall>v \<in> set ?t. v \<le> 1" "\<forall>v \<in> set ?d. v \<le> 1"
      using "1.prems" by (auto dest: in_set_takeD in_set_dropD)
    obtain bs where bs: "map_opt (bool_byte 0 0) (chunks 8 ?d) = Some bs" "length bs = (length ?d + 7) div 8"
        "bool_unpack bs (length ?d) = Some ?d"
      using "1.hyps" sub(2) False by fastforce
    obtain byte where b: "bool_byte 0 0 ?t = Some byte" "bits_of byte 8 = ?t"
      by (rule bool_byte_bits_of [OF sub(1)]) (use False in \<open>simp_all add: min_absorb2\<close>)
    have l: "length vs = 8 + length ?d" using False by simp
    have dm: "length vs div 8 = Suc (length ?d div 8)" "length vs mod 8 = length ?d mod 8"
        "(length vs + 7) div 8 = Suc ((length ?d + 7) div 8)"
      unfolding l by simp_all
    have "bool_unpack (byte # bs) (length vs) = map_option (\<lambda>ws. bits_of byte 8 @ ws) (bool_unpack bs (length ?d))"
      unfolding bool_unpack_def Let_def dm
      by (cases "length ?d div 8 < length bs") (auto simp: idx_def)
    then show ?thesis using bs b split dm(3) by simp
  qed
qed

lemma bool_encode_Some:
  assumes "\<forall>v \<in> set vs. v \<le> 1"
  obtains b where "bool_encode vs = Some b" "length b = 4 + (length vs + 7) div 8"
  using bool_bytes_unpack [OF assms] by (auto simp: bool_encode_def)

lemma bool_roundtrip:
  assumes enc: "bool_encode vs = Some b" and bin: "\<forall>v \<in> set vs. v \<le> 1"
    and len: "length vs < 2 ^ 32" "length vs \<le> max_values"
  shows "bool_decode (b @ rest) max_values out = Some (Inr (), out @ vs)"
proof -
  obtain bs where bs: "b = len_le (length vs) @ bs" "length bs = (length vs + 7) div 8"
      "bool_unpack bs (length vs) = Some vs"
    using bool_bytes_unpack [OF bin] enc by (auto simp: bool_encode_def)
  have g1: "get_range (b @ rest) 0 4 = Some (len_le (length vs))"
    using bs(1) by (simp add: get_range_append1)
  have g2: "get_range (b @ rest) 4 (4 + (length vs + 7) div 8) = Some bs"
    using bs get_range_append [of "len_le (length vs)" 4 _ bs rest] by simp
  show ?thesis
    unfolding bool_decode_def g1 using len by (simp add: read_len_le Let_def g2 bs(3))
qed

lemma bool_unpack_total:
  assumes "length body = (count + 7) div 8"
  shows "\<exists>vs. bool_unpack body count = Some vs \<and> length vs = count"
proof -
  have c: "count = 8 * (count div 8) + count mod 8" "count mod 8 < 8" by simp_all
  have bits: "length (bits_of byte n) = n" for byte n by (simp add: bits_of_def)
  have le: "count div 8 \<le> length body" unfolding assms by (simp add: div_le_mono)
  have full: "length (concat (map (\<lambda>byte. bits_of byte 8) (take (count div 8) body))) = 8 * (count div 8)"
    using le length_concat_uniform [of "map (\<lambda>byte. bits_of byte 8) (take (count div 8) body)" 8]
    by (simp add: bits)
  show ?thesis
  proof (cases "count mod 8 = 0")
    case True
    then show ?thesis using full c by (simp add: bool_unpack_def Let_def)
  next
    case False
    then have "count div 8 < (count + 7) div 8" using c by linarith
    then have "count div 8 < length body" using assms by simp
    then show ?thesis using full c False by (simp add: bool_unpack_def Let_def bits)
  qed
qed

lemma bool_decode_total:
  "\<exists>r vs. bool_decode bytes max_values out = Some (r, out @ vs) \<and> length vs \<le> max_values \<and>
    ((\<exists>e. r = Inl e) \<longrightarrow> vs = [])"
proof -
  have un: "\<exists>vs. bool_unpack body count = Some vs \<and> length vs = count"
    if "get_range bytes 4 (4 + (count + 7) div 8) = Some body" for body count
    using bool_unpack_total get_range_SomeD [OF that] by simp
  show ?thesis
  proof (cases "get_range bytes 0 4")
    case (Some h)
    show ?thesis
    proof (cases "get_range bytes 4 (4 + (read_u32 h + 7) div 8)")
      case None
      then show ?thesis using Some by (simp add: bool_decode_def Let_def)
    next
      case (Some body)
      then show ?thesis using \<open>get_range bytes 0 4 = Some h\<close> un [OF Some]
        by (auto simp: bool_decode_def Let_def)
    qed
  qed (simp add: bool_decode_def)
qed

end
