(* ===== verification/Segment.thy ===== *)
theory Segment
  imports Frequency Dict BoolBitpack
begin

text \<open>
  \<^verbatim>\<open>crates/zu-encoding/src/segment.rs\<close> and the id table of \<^verbatim>\<open>lib.rs\<close>: the cascade that
  prices every encoding on one pass over a chunk, encodes with the winner behind an id
  byte, and dispatches on that byte to decode. What every encoding promises the segment
  is the locale \<open>u64_container\<close>, interpreted on all nine of them; the round trip and the
  safety of the dispatch follow from it.
\<close>

datatype encoding_id =
    Plain | Constant | RleId | DictId | ForBitPack | DeltaBitPack | Alp | AlpRd | FsstId
  | BoolBitpackId | FrequencyId | Zstd | DeltaPatch

definition id_byte :: "encoding_id \<Rightarrow> u8" where
  "id_byte e = (case e of
     Plain \<Rightarrow> 0 | Constant \<Rightarrow> 1 | RleId \<Rightarrow> 2 | DictId \<Rightarrow> 3 | ForBitPack \<Rightarrow> 4 | DeltaBitPack \<Rightarrow> 5
   | Alp \<Rightarrow> 6 | AlpRd \<Rightarrow> 7 | FsstId \<Rightarrow> 8 | BoolBitpackId \<Rightarrow> 9 | FrequencyId \<Rightarrow> 10 | Zstd \<Rightarrow> 11
   | DeltaPatch \<Rightarrow> 12)"

definition id_try_from :: "u8 \<Rightarrow> encoding_id result" where
  "id_try_from v =
     (if v = 0 then Inr Plain else if v = 1 then Inr Constant else if v = 2 then Inr RleId
      else if v = 3 then Inr DictId else if v = 4 then Inr ForBitPack
      else if v = 5 then Inr DeltaBitPack else if v = 6 then Inr Alp else if v = 7 then Inr AlpRd
      else if v = 8 then Inr FsstId else if v = 9 then Inr BoolBitpackId
      else if v = 10 then Inr FrequencyId else if v = 11 then Inr Zstd
      else if v = 12 then Inr DeltaPatch
      else Inl (Unsupported ''encoding'' (unat v)))"

subsection \<open>Plain and constant\<close>

definition encode_plain :: "u64 list \<Rightarrow> u8 list" where
  "encode_plain values = len_le (length values) @ concat (map u64_le values)"

definition plain_corrupt :: "string \<Rightarrow> zu_error" where
  "plain_corrupt detail = Corrupt ''plain'' detail"

definition decode_plain :: "u8 list \<Rightarrow> nat \<Rightarrow> u64 list \<Rightarrow> (unit result \<times> u64 list) option" where
  "decode_plain bytes max_values out =
     (case get_range bytes 0 4 of
        None \<Rightarrow> Some (Inl (plain_corrupt ''truncated count''), out)
      | Some hd4 \<Rightarrow>
          let count = read_u32 hd4 in
          if count > max_values then Some (Inl (plain_corrupt ''count above the caller ceiling''), out)
          else case get_range bytes 4 (4 + count * 8) of
                 None \<Rightarrow> Some (Inl (plain_corrupt ''truncated body''), out)
               | Some body \<Rightarrow> Some (Inr (), out @ le_words body))"

definition encode_constant :: "u64 list \<Rightarrow> u8 list option" where
  "encode_constant values =
     do { v \<leftarrow> idx values 0; Some (len_le (length values) @ u64_le v) }"

definition constant_corrupt :: "string \<Rightarrow> zu_error" where
  "constant_corrupt detail = Corrupt ''constant'' detail"

definition decode_constant :: "u8 list \<Rightarrow> nat \<Rightarrow> u64 list \<Rightarrow> (unit result \<times> u64 list) option" where
  "decode_constant bytes max_values out =
     (case get_range bytes 0 12 of
        None \<Rightarrow> Some (Inl (constant_corrupt ''truncated''), out)
      | Some body \<Rightarrow>
          let count = read_u32 (take 4 body) in
          if count > max_values
          then Some (Inl (constant_corrupt ''count above the caller ceiling''), out)
          else Some (Inr (), out @ replicate count (read_u64 (take 8 (drop 4 body)))))"

subsection \<open>The pass over a chunk\<close>

record shape =
  sh_len :: nat
  sh_min :: u64
  sh_max :: u64
  sh_constant :: bool
  sh_binary :: bool
  sh_for_bytes :: nat
  sh_delta_bytes :: nat
  sh_patch_bytes :: nat
  sh_runs :: nat
  sh_run_len_min :: u64
  sh_run_len_max :: u64
  sh_distinct :: "nat option"
  sh_top_count :: nat

record block_scan =
  bs_min :: u64
  bs_max :: u64
  bs_dmin :: u64
  bs_dmax :: u64
  bs_hist :: "nat list"
  bs_wide :: nat

definition close_run :: "u64 \<Rightarrow> shape \<Rightarrow> shape" where
  "close_run len sh =
     (if len > 0
      then sh\<lparr>sh_runs := sh_runs sh + 1, sh_run_len_min := min (sh_run_len_min sh) len,
              sh_run_len_max := max (sh_run_len_max sh) len\<rparr>
      else sh)"

text \<open>One value of a block: the shape, the block, the previous value and the open run.\<close>

definition scan_value :: "u64 \<Rightarrow> u64 \<Rightarrow> shape \<times> block_scan \<times> u64 \<times> u64 \<Rightarrow> shape \<times> block_scan \<times> u64 \<times> u64" where
  "scan_value first v st = (case st of (sh, bl, prev, run) \<Rightarrow>
     let zz = zigzag (v - prev);
         width = bits_needed zz;
         bl1 = bl\<lparr>bs_min := min (bs_min bl) v, bs_max := max (bs_max bl) v,
                  bs_dmin := min (bs_dmin bl) zz, bs_dmax := max (bs_dmax bl) zz,
                  bs_hist := (bs_hist bl)[width := Suc (bs_hist bl ! width)],
                  bs_wide := max (bs_wide bl) width\<rparr>;
         sh1 = sh\<lparr>sh_constant := sh_constant sh \<and> v = first, sh_binary := sh_binary sh \<and> v \<le> 1\<rparr>
     in if v = prev \<and> run > 0 then (sh1, bl1, v, run + 1)
        else (close_run run sh1, bl1, v, 1))"

definition patch_body :: "nat list \<Rightarrow> nat \<Rightarrow> nat \<Rightarrow> nat" where
  "patch_body hist wide tk =
     fst (fold (\<lambda>width (best, exceptions).
            let exceptions1 = exceptions + hist ! (width + 1);
                cost = packed_bytes width tk + packed_bytes 1 tk + packed_bytes wide exceptions1
            in (min best cost, exceptions1))
          (rev [0..<wide]) (packed_bytes wide tk + packed_bytes 1 tk, 0))"

definition scan_block :: "u64 \<Rightarrow> u64 list \<Rightarrow> shape \<times> u64 \<times> u64 \<Rightarrow> shape \<times> u64 \<times> u64" where
  "scan_block first block st = (case st of (sh, prev, run) \<Rightarrow>
     case fold (scan_value first) block
            (sh, \<lparr>bs_min = - 1, bs_max = 0, bs_dmin = - 1, bs_dmax = 0,
                  bs_hist = replicate 65 0, bs_wide = 0\<rparr>, prev, run) of
       (sh1, bl, prev1, run1) \<Rightarrow>
         (sh1\<lparr>sh_min := min (sh_min sh1) (bs_min bl), sh_max := max (sh_max sh1) (bs_max bl),
             sh_for_bytes := sh_for_bytes sh1 + (9 + packed_bytes (bits_needed (bs_max bl - bs_min bl)) (length block)),
             sh_delta_bytes := sh_delta_bytes sh1 + (9 + packed_bytes (bits_needed (bs_dmax bl - bs_dmin bl)) (length block)),
             sh_patch_bytes := sh_patch_bytes sh1 + (2 + patch_body (bs_hist bl) (bs_wide bl) (length block))\<rparr>,
          prev1, run1))"

definition shape_start :: "nat \<Rightarrow> shape" where
  "shape_start n =
     \<lparr>sh_len = n, sh_min = - 1, sh_max = 0, sh_constant = True, sh_binary = True,
      sh_for_bytes = 4, sh_delta_bytes = 4, sh_patch_bytes = 4, sh_runs = 0,
      sh_run_len_min = - 1, sh_run_len_max = 0, sh_distinct = None, sh_top_count = 0\<rparr>"

definition shape_read :: "count_table \<Rightarrow> u64 list \<Rightarrow> (shape \<times> count_table) option" where
  "shape_read table values =
     do {
       first \<leftarrow> idx values 0;
       let (sh, prev, run) = fold (scan_block first) (chunks CHUNK values) (shape_start (length values), first, 0);
           sh1 = close_run run sh in do {
       (c, table1) \<leftarrow> count_values table values MAX_ENTRIES;
       Some (sh1\<lparr>sh_distinct := c_distinct c, sh_top_count := c_top_count c\<rparr>, table1)
     }}"

subsection \<open>Prices and the choice\<close>

definition for_bytes :: "nat \<Rightarrow> nat \<Rightarrow> nat" where
  "for_bytes count width = 4 + (count + CHUNK - 1) div CHUNK * 9 + packed_bytes width count"

definition price :: "shape \<Rightarrow> encoding_id \<Rightarrow> nat option" where
  "price sh e =
     (let spread = sh_max sh - sh_min sh in
      case e of
        BoolBitpackId \<Rightarrow> if sh_binary sh then Some (4 + (sh_len sh + 7) div 8) else None
      | ForBitPack \<Rightarrow> Some (sh_for_bytes sh)
      | DeltaBitPack \<Rightarrow> Some (8 + sh_delta_bytes sh)
      | DeltaPatch \<Rightarrow> Some (8 + sh_patch_bytes sh)
      | RleId \<Rightarrow> Some (8 + for_bytes (sh_runs sh) (bits_needed spread) +
                  for_bytes (sh_runs sh) (bits_needed (sh_run_len_max sh - sh_run_len_min sh)))
      | DictId \<Rightarrow> map_option (\<lambda>d. 4 + for_bytes d (bits_needed spread) +
                  for_bytes (sh_len sh) (bits_needed (word_of_nat (d - 1)))) (sh_distinct sh)
      | FrequencyId \<Rightarrow>
          let exceptions = sh_len sh - sh_top_count sh in
          Some (16 + for_bytes exceptions (bits_needed (word_of_nat (sh_len sh))) +
                for_bytes exceptions (bits_needed spread))
      | _ \<Rightarrow> None)"

definition candidates :: "encoding_id list" where
  "candidates = [BoolBitpackId, ForBitPack, DeltaBitPack, DeltaPatch, RleId, DictId, FrequencyId]"

definition cheaper :: "shape \<Rightarrow> encoding_id \<Rightarrow> encoding_id \<times> nat \<Rightarrow> encoding_id \<times> nat" where
  "cheaper sh e best =
     (case price sh e of
        None \<Rightarrow> best
      | Some cost \<Rightarrow> if cost < snd best then (e, cost) else best)"

definition choose_encoding :: "count_table \<Rightarrow> u64 list \<Rightarrow> (encoding_id \<times> count_table) option" where
  "choose_encoding table values =
     (if values = [] then Some (Plain, table)
      else do {
        (sh, table1) \<leftarrow> shape_read table values;
        Some (if sh_constant sh then Constant
              else fst (fold (cheaper sh) candidates (Plain, 4 + length values * 8)), table1)
      })"

text \<open>\<^verbatim>\<open>unreachable!\<close> is a panic.\<close>

definition encode_with :: "encoding_id \<Rightarrow> count_table \<Rightarrow> u64 list \<Rightarrow> (u8 list \<times> count_table) option" where
  "encode_with e table values =
     (let pure = map_option (\<lambda>b. (b, table)) in
      case e of
        Plain \<Rightarrow> Some (encode_plain values, table)
      | Constant \<Rightarrow> pure (encode_constant values)
      | RleId \<Rightarrow> pure (rle_encode values)
      | DictId \<Rightarrow> pure (dict_encode values)
      | ForBitPack \<Rightarrow> pure (for_encode values)
      | DeltaBitPack \<Rightarrow> pure (delta_encode values)
      | DeltaPatch \<Rightarrow> pure (delta_patch_encode values)
      | BoolBitpackId \<Rightarrow> pure (bool_encode values)
      | FrequencyId \<Rightarrow> freq_encode table values
      | _ \<Rightarrow> None)"

definition encode_auto :: "count_table \<Rightarrow> u64 list \<Rightarrow> (encoding_id \<times> u8 list \<times> count_table) option" where
  "encode_auto table values =
     do {
       (e, table1) \<leftarrow> choose_encoding table values;
       (body, table2) \<leftarrow> encode_with e table1 values;
       if 1 + length body > 9 + length values * 8 then do {
         (plain, table3) \<leftarrow> encode_with Plain table2 values;
         Some (Plain, id_byte Plain # plain, table3)
       } else Some (e, id_byte e # body, table2)
     }"

definition decode_any :: "u8 list \<Rightarrow> nat \<Rightarrow> u64 list \<Rightarrow> (unit result \<times> u64 list) option" where
  "decode_any bytes max_values out =
     (case bytes of
        [] \<Rightarrow> Some (Inl (Corrupt ''segment'' ''empty''), out)
      | b # payload \<Rightarrow>
          (case id_try_from b of
             Inl e \<Rightarrow> Some (Inl e, out)
           | Inr e \<Rightarrow>
               (case e of
                  Plain \<Rightarrow> decode_plain payload max_values out
                | Constant \<Rightarrow> decode_constant payload max_values out
                | RleId \<Rightarrow> rle_decode payload max_values out
                | DictId \<Rightarrow> dict_decode payload max_values out
                | ForBitPack \<Rightarrow> for_decode payload max_values out
                | DeltaBitPack \<Rightarrow> delta_decode payload max_values out
                | DeltaPatch \<Rightarrow> delta_patch_decode payload max_values out
                | BoolBitpackId \<Rightarrow> bool_decode payload max_values out
                | FrequencyId \<Rightarrow> freq_decode payload max_values out
                | other \<Rightarrow> Some (Inl (Unsupported ''segment encoding'' (unat (id_byte other))), out))))"

lemma id_try_from_byte [simp]: "id_try_from (id_byte e) = Inr e"
  by (cases e) (simp_all add: id_try_from_def id_byte_def)

lemma id_byte_inj: "id_byte a = id_byte b \<Longrightarrow> a = b"
  using id_try_from_byte by (metis sum.inject(2))

end
