(* ===== verification/SegmentRoundtrip.thy ===== *)
theory SegmentRoundtrip
  imports Segment
begin

text \<open>
  The contract every encoding keeps with the segment layer, as the locale
  \<open>u64_container\<close>, its interpretation on the nine encodings, and what the id byte's
  dispatch gets from it.
\<close>

locale u64_container =
  fixes enc :: "count_table \<Rightarrow> u64 list \<Rightarrow> (u8 list \<times> count_table) option"
    and dec :: "u8 list \<Rightarrow> nat \<Rightarrow> u64 list \<Rightarrow> (unit result \<times> u64 list) option"
    and legal :: "u64 list \<Rightarrow> bool"
  assumes enc_total: "table_ok t \<Longrightarrow> legal vs \<Longrightarrow> length vs \<le> 2 ^ 27 \<Longrightarrow>
      \<exists>b t'. enc t vs = Some (b, t') \<and> table_ok t'"
    and dec_enc: "enc t vs = Some (b, t') \<Longrightarrow> table_ok t \<Longrightarrow> legal vs \<Longrightarrow> length vs \<le> 2 ^ 27 \<Longrightarrow>
      length vs \<le> max_values \<Longrightarrow> dec (b @ rest) max_values out = Some (Inr (), out @ vs)"
    and dec_safe: "\<exists>r vs. dec bytes max_values out = Some (r, out @ vs) \<and> length vs \<le> max_values"
begin

text \<open>Two inputs that encode to the same bytes are equal.\<close>

lemma enc_injective:
  assumes "enc t vs = Some (b, t1)" "enc u ws = Some (b, u1)" "table_ok t" "table_ok u"
    "legal vs" "legal ws" "length vs \<le> 2 ^ 27" "length ws \<le> 2 ^ 27"
  shows "vs = ws"
proof -
  let ?m = "max (length vs) (length ws)"
  have "dec (b @ []) ?m [] = Some (Inr (), [] @ vs)" by (rule dec_enc [OF assms(1,3,5,7)]) simp
  moreover have "dec (b @ []) ?m [] = Some (Inr (), [] @ ws)" by (rule dec_enc [OF assms(2,4,6,8)]) simp
  ultimately show ?thesis by simp
qed

text \<open>An accepted payload never grows the vector past the ceiling.\<close>

lemma dec_ceiling: "dec bytes max_values out = Some (r, out') \<Longrightarrow> length out' \<le> length out + max_values"
  using dec_safe [of bytes max_values out] by auto

lemma dec_keeps: "dec bytes max_values out = Some (r, out') \<Longrightarrow> take (length out) out' = out"
  using dec_safe [of bytes max_values out] by auto

end

subsection \<open>The nine encodings\<close>

definition constant_legal :: "u64 list \<Rightarrow> bool" where
  "constant_legal vs \<longleftrightarrow> vs \<noteq> [] \<and> (\<forall>v \<in> set vs. v = hd vs)"

definition pure_enc :: "(u64 list \<Rightarrow> u8 list option) \<Rightarrow> count_table \<Rightarrow> u64 list \<Rightarrow> (u8 list \<times> count_table) option" where
  "pure_enc enc table vs = map_option (\<lambda>b. (b, table)) (enc vs)"

lemma pure_enc_SomeD: "pure_enc enc t vs = Some (b, t') \<Longrightarrow> enc vs = Some b"
  by (auto simp: pure_enc_def)

lemma u64_container_pure:
  assumes "\<And>vs. legal vs \<Longrightarrow> length vs \<le> 2 ^ 27 \<Longrightarrow> \<exists>b. enc vs = Some b"
    and "\<And>vs b max_values rest out. enc vs = Some b \<Longrightarrow> legal vs \<Longrightarrow> length vs \<le> 2 ^ 27 \<Longrightarrow>
      length vs \<le> max_values \<Longrightarrow> dec (b @ rest) max_values out = Some (Inr (), out @ vs)"
    and "\<And>bytes max_values out. \<exists>r vs. dec bytes max_values out = Some (r, out @ vs) \<and> length vs \<le> max_values"
  shows "u64_container (pure_enc enc) dec legal"
  by unfold_locales (use assms in \<open>auto simp: pure_enc_def\<close>)

lemma plain_roundtrip:
  assumes "length vs < 2 ^ 32" "length vs \<le> max_values"
  shows "decode_plain (encode_plain vs @ rest) max_values out = Some (Inr (), out @ vs)"
proof -
  let ?body = "concat (map u64_le vs)"
  have body: "length ?body = length vs * 8"
    using length_concat_uniform [of "map u64_le vs" 8] by simp
  have g1: "get_range (encode_plain vs @ rest) 0 4 = Some (len_le (length vs))"
    by (simp add: encode_plain_def get_range_append1)
  have g2: "get_range (encode_plain vs @ rest) 4 (4 + length vs * 8) = Some ?body"
    using body get_range_append [of "len_le (length vs)" 4 "4 + length vs * 8" ?body rest] by (simp add: encode_plain_def)
  show ?thesis
    unfolding decode_plain_def g1 using assms by (simp add: read_len_le Let_def g2 le_words_concat)
qed

lemma plain_decode_total:
  "\<exists>r vs. decode_plain bytes max_values out = Some (r, out @ vs) \<and> length vs \<le> max_values"
  unfolding decode_plain_def Let_def
  by (auto simp: length_le_words dest!: get_range_SomeD split: option.split)

lemma constant_roundtrip:
  assumes "encode_constant vs = Some b" "constant_legal vs" "length vs < 2 ^ 32" "length vs \<le> max_values"
  shows "decode_constant (b @ rest) max_values out = Some (Inr (), out @ vs)"
proof -
  have ne: "vs \<noteq> []" and same: "\<forall>v \<in> set vs. v = hd vs" using assms(2) by (simp_all add: constant_legal_def)
  have b: "b = len_le (length vs) @ u64_le (hd vs)"
    using assms(1) ne by (simp add: encode_constant_def hd_conv_nth idx_def)
  have "vs = replicate (length vs) (hd vs)" using same by (simp add: replicate_length_same)
  moreover have g1: "get_range (b @ rest) 0 12 = Some b" by (rule get_range_append1) (simp add: b)
  ultimately show ?thesis
    unfolding decode_constant_def g1 using assms(3,4) by (simp add: b read_len_le Let_def)
qed

lemma constant_decode_total:
  "\<exists>r vs. decode_constant bytes max_values out = Some (r, out @ vs) \<and> length vs \<le> max_values"
  unfolding decode_constant_def Let_def by (auto split: option.split)

interpretation plain_c: u64_container "pure_enc (\<lambda>vs. Some (encode_plain vs))" decode_plain "\<lambda>_. True"
  by (rule u64_container_pure) (auto simp: plain_roundtrip intro: plain_decode_total)

interpretation constant_c: u64_container "pure_enc encode_constant" decode_constant constant_legal
  by (rule u64_container_pure)
    (auto simp: constant_roundtrip constant_legal_def encode_constant_def intro: constant_decode_total)

interpretation rle_c: u64_container "pure_enc rle_encode" rle_decode "\<lambda>_. True"
proof (rule u64_container_pure)
  fix vs :: "u64 list" assume "length vs \<le> 2 ^ 27"
  then show "\<exists>b. rle_encode vs = Some b" using rle_encode_Some [of vs] by fastforce
next
  fix bytes max_values out
  show "\<exists>r vs. rle_decode bytes max_values out = Some (r, out @ vs) \<and> length vs \<le> max_values"
    using rle_decode_total [of bytes max_values out] by blast
qed (rule rle_roundtrip)

interpretation dict_c: u64_container "pure_enc dict_encode" dict_decode "\<lambda>vs. card (set vs) \<le> MAX_ENTRIES"
proof (rule u64_container_pure)
  fix vs :: "u64 list" show "\<exists>b. dict_encode vs = Some b" by (rule dict_encode_Some [of vs]) blast
qed (auto simp: dict_roundtrip intro: dict_decode_total)

interpretation for_c: u64_container "pure_enc for_encode" for_decode "\<lambda>_. True"
proof (rule u64_container_pure)
  fix vs :: "u64 list" show "\<exists>b. for_encode vs = Some b" by (rule for_encode_Some [of vs]) blast
next
  fix bytes max_values out
  show "\<exists>r vs. for_decode bytes max_values out = Some (r, out @ vs) \<and> length vs \<le> max_values"
    by (rule for_decode_total [of bytes max_values out]) blast
qed (auto simp: for_roundtrip)

interpretation delta_c: u64_container "pure_enc delta_encode" delta_decode "\<lambda>_. True"
proof (rule u64_container_pure)
  fix vs :: "u64 list" show "\<exists>b. delta_encode vs = Some b" by (rule delta_encode_Some [of vs]) blast
qed (auto simp: delta_roundtrip intro: delta_decode_total)

interpretation delta_patch_c: u64_container "pure_enc delta_patch_encode" delta_patch_decode "\<lambda>_. True"
proof (rule u64_container_pure)
  fix vs :: "u64 list" show "\<exists>b. delta_patch_encode vs = Some b" by (rule delta_patch_encode_Some [of vs]) blast
qed (auto simp: delta_patch_roundtrip intro: delta_patch_decode_total)

interpretation bool_c: u64_container "pure_enc bool_encode" bool_decode "\<lambda>vs. \<forall>v \<in> set vs. v \<le> 1"
proof (rule u64_container_pure)
  fix vs :: "u64 list" assume "\<forall>v \<in> set vs. v \<le> 1"
  then show "\<exists>b. bool_encode vs = Some b" by (rule bool_encode_Some [of vs]) blast
next
  fix bytes max_values out
  show "\<exists>r vs. bool_decode bytes max_values out = Some (r, out @ vs) \<and> length vs \<le> max_values"
    using bool_decode_total [of bytes max_values out] by blast
qed (auto simp: bool_roundtrip)

interpretation freq_c: u64_container freq_encode freq_decode "\<lambda>_. True"
proof unfold_locales
  fix t and vs :: "u64 list" assume "table_ok t" "length vs \<le> 2 ^ 27"
  then show "\<exists>b t'. freq_encode t vs = Some (b, t') \<and> table_ok t'"
    by (rule freq_encode_Some [of t vs]) blast
next
  fix bytes max_values out
  show "\<exists>r vs. freq_decode bytes max_values out = Some (r, out @ vs) \<and> length vs \<le> max_values"
    using freq_decode_total [of bytes max_values out] by blast
qed (auto simp: freq_roundtrip)

subsection \<open>The dispatch\<close>

text \<open>When the format allows an encoding for a chunk.\<close>

definition legal_for :: "encoding_id \<Rightarrow> u64 list \<Rightarrow> bool" where
  "legal_for e vs = (case e of
     Plain \<Rightarrow> True | Constant \<Rightarrow> constant_legal vs | RleId \<Rightarrow> True | DictId \<Rightarrow> card (set vs) \<le> MAX_ENTRIES
   | ForBitPack \<Rightarrow> True | DeltaBitPack \<Rightarrow> True | DeltaPatch \<Rightarrow> True
   | BoolBitpackId \<Rightarrow> \<forall>v \<in> set vs. v \<le> 1 | FrequencyId \<Rightarrow> True | _ \<Rightarrow> False)"

lemma encode_with_total:
  assumes "legal_for e vs" "table_ok t" "length vs \<le> 2 ^ 27"
  shows "\<exists>b t'. encode_with e t vs = Some (b, t') \<and> table_ok t'"
proof (cases e)
  case Plain then show ?thesis using assms plain_c.enc_total [of t vs] by (simp add: encode_with_def)
next case Constant then show ?thesis using assms constant_c.enc_total [of t vs] by (simp add: encode_with_def legal_for_def pure_enc_def)
next case RleId then show ?thesis using assms rle_c.enc_total [of t vs] by (simp add: encode_with_def pure_enc_def)
next case DictId then show ?thesis using assms dict_c.enc_total [of t vs] by (simp add: encode_with_def legal_for_def pure_enc_def)
next case ForBitPack then show ?thesis using assms for_c.enc_total [of t vs] by (simp add: encode_with_def pure_enc_def)
next case DeltaBitPack then show ?thesis using assms delta_c.enc_total [of t vs] by (simp add: encode_with_def pure_enc_def)
next case DeltaPatch then show ?thesis using assms delta_patch_c.enc_total [of t vs] by (simp add: encode_with_def pure_enc_def)
next case BoolBitpackId then show ?thesis using assms bool_c.enc_total [of t vs] by (simp add: encode_with_def legal_for_def pure_enc_def)
next case FrequencyId then show ?thesis using assms freq_c.enc_total [of t vs] by (simp add: encode_with_def)
qed (use assms in \<open>simp_all add: legal_for_def\<close>)

lemma decode_any_roundtrip:
  assumes enc: "encode_with e t vs = Some (b, t')" and ok: "legal_for e vs" "table_ok t" "length vs \<le> 2 ^ 27" "length vs \<le> max_values"
  shows "decode_any (id_byte e # b @ rest) max_values out = Some (Inr (), out @ vs)"
proof (cases e)
  case Plain then show ?thesis using enc ok plain_roundtrip [of vs max_values rest out]
    by (auto simp: encode_with_def decode_any_def)
next case Constant then show ?thesis using enc ok constant_roundtrip [of vs b]
    by (auto simp: encode_with_def decode_any_def legal_for_def)
next case RleId then show ?thesis using enc ok rle_roundtrip [of vs b] by (auto simp: encode_with_def decode_any_def)
next case DictId then show ?thesis using enc ok dict_roundtrip [of vs b]
    by (auto simp: encode_with_def decode_any_def legal_for_def)
next case ForBitPack then show ?thesis using enc ok for_roundtrip [of vs b] by (auto simp: encode_with_def decode_any_def)
next case DeltaBitPack then show ?thesis using enc ok delta_roundtrip [of vs b] by (auto simp: encode_with_def decode_any_def)
next case DeltaPatch then show ?thesis using enc ok delta_patch_roundtrip [of vs b] by (auto simp: encode_with_def decode_any_def)
next case BoolBitpackId then show ?thesis using enc ok bool_roundtrip [of vs b]
    by (auto simp: encode_with_def decode_any_def legal_for_def)
next case FrequencyId then show ?thesis using enc ok freq_roundtrip [of t vs b t'] by (simp add: encode_with_def decode_any_def)
qed (use ok in \<open>simp_all add: legal_for_def\<close>)

lemma decode_any_safe:
  "\<exists>r vs. decode_any bytes max_values out = Some (r, out @ vs) \<and> length vs \<le> max_values"
proof -
  have err: "\<exists>r vs. Some (Inl e :: unit result, out) = Some (r, out @ vs) \<and> length vs \<le> max_values" for e
    by (intro exI [of _ "Inl e"] exI [of _ "[]"]) simp
  show ?thesis
  proof (cases bytes)
    case Nil
    then show ?thesis using err by (simp add: decode_any_def)
  next
    case (Cons b payload)
    show ?thesis
    proof (cases "id_try_from b")
      case (Inl e)
      then show ?thesis using err Cons by (simp add: decode_any_def)
    next
      case (Inr e)
      show ?thesis
        using plain_c.dec_safe constant_c.dec_safe rle_c.dec_safe dict_c.dec_safe for_c.dec_safe
          delta_c.dec_safe delta_patch_c.dec_safe bool_c.dec_safe freq_c.dec_safe err
        by (cases e) (simp_all only: Cons Inr decode_any_def list.case sum.case encoding_id.case)
    qed
  qed
qed

end
