(* ===== verification/SegmentPrice.thy ===== *)
theory SegmentPrice
  imports SegmentRoundtrip
begin

text \<open>
  The arithmetic of the cascade: the frame of reference, delta and patched prices are the
  exact encoded sizes, the other prices are never below the encoded size, and so the
  chosen encoding is never larger than Plain and the guard that re-encodes as Plain is
  never taken.
\<close>

subsection \<open>The exact sizes\<close>

definition for_cost :: "u64 list \<Rightarrow> nat" where
  "for_cost vs = sum_list (map (\<lambda>c. 9 + packed_bytes (bits_needed (max_or_zero c - min_or_zero c)) (length c)) (chunks CHUNK vs))"

definition patch_total :: "u64 list \<Rightarrow> nat" where
  "patch_total vs = sum_list (map (\<lambda>c. 2 + snd (patch_width c)) (chunks CHUNK vs))"

lemma chunks_split: "vs \<noteq> [] \<Longrightarrow> chunks CHUNK vs = take CHUNK vs # chunks CHUNK (drop CHUNK vs)"
  by (subst chunks.simps) (simp add: CHUNK_def)

lemma for_cost_split: "vs \<noteq> [] \<Longrightarrow> for_cost vs =
    9 + packed_bytes (bits_needed (max_or_zero (take CHUNK vs) - min_or_zero (take CHUNK vs))) (min (length vs) CHUNK)
      + for_cost (drop CHUNK vs)"
  by (simp add: for_cost_def chunks_split)

lemma patch_total_split: "vs \<noteq> [] \<Longrightarrow> patch_total vs = 2 + snd (patch_width (take CHUNK vs)) + patch_total (drop CHUNK vs)"
  by (simp add: patch_total_def chunks_split)

lemma cost_Nil [simp]: "for_cost [] = 0" "patch_total [] = 0"
  by (simp_all add: for_cost_def patch_total_def)

lemma for_encode_chunk_length:
  assumes "length chunk \<le> CHUNK" "for_encode_chunk chunk = Some b"
  shows "length b = 9 + packed_bytes (bits_needed (max_or_zero chunk - min_or_zero chunk)) (length chunk)"
proof -
  let ?w = "bits_needed (max_or_zero chunk - min_or_zero chunk)"
  obtain body where "pack (map (\<lambda>v. v - min_or_zero chunk) chunk) ?w = Some body"
      "length body = packed_bytes ?w (length (map (\<lambda>v. v - min_or_zero chunk) chunk))"
    by (rule pack_unpack [of ?w "map (\<lambda>v. v - min_or_zero chunk) chunk"]) (use assms in auto)
  then show ?thesis using assms(2) by (auto simp: for_encode_chunk_def Let_def)
qed

lemma map_opt_concat_length:
  "map_opt f xs = Some ys \<Longrightarrow> (\<And>x y. x \<in> set xs \<Longrightarrow> f x = Some y \<Longrightarrow> length y = g x) \<Longrightarrow>
    length (concat ys) = sum_list (map g xs)"
  by (induction xs arbitrary: ys) (auto split: bind_splits)

lemma for_encode_bytes: "for_encode vs = Some b \<Longrightarrow> length b = 4 + for_cost vs"
  unfolding for_encode_def for_cost_def
  by (auto split: bind_splits intro!: map_opt_concat_length for_encode_chunk_length length_chunk_le)

lemma patch_encode_bytes:
  assumes "patch_encode vs = Some b"
  shows "length b = 4 + patch_total vs"
proof -
  obtain cs where cs: "map_opt patch_encode_chunk (chunks CHUNK vs) = Some cs" "b = len_le (length vs) @ concat cs"
    using assms by (auto simp: patch_encode_def split: bind_splits)
  have "length (concat cs) = patch_total vs"
    unfolding patch_total_def
    by (rule map_opt_concat_length [OF cs(1)]) (rule patch_encode_chunk_length [OF length_chunk_le])
  then show ?thesis using cs(2) by simp
qed

lemma delta_encode_bytes:
  "delta_encode vs = Some b \<Longrightarrow> length b = 12 + for_cost (deltas (first_or_zero vs) vs)"
  by (auto simp: delta_encode_def Let_def for_encode_bytes split: bind_splits)

lemma delta_patch_encode_bytes:
  "delta_patch_encode vs = Some b \<Longrightarrow> length b = 12 + patch_total (deltas (first_or_zero vs) vs)"
  by (auto simp: delta_patch_encode_def Let_def patch_encode_bytes split: bind_splits)

subsection \<open>A container priced from its spread\<close>

lemma packed_bytes_mono: "w \<le> w' \<Longrightarrow> n \<le> n' \<Longrightarrow> packed_bytes w n \<le> packed_bytes w' n'"
  unfolding packed_bytes_def by (intro mult_le_mono1 div_le_mono add_le_mono mult_le_mono) auto

lemma packed_bytes_split: "CHUNK \<le> n \<Longrightarrow> packed_bytes w n = packed_bytes w CHUNK + packed_bytes w (n - CHUNK)"
proof -
  assume "CHUNK \<le> n"
  then obtain k where k: "n = CHUNK + k" by (metis le_iff_add)
  have "(CHUNK + k) * w + 63 = 64 * (16 * w) + (k * w + 63)" by (simp add: CHUNK_def algebra_simps)
  then have "((CHUNK + k) * w + 63) div 64 = 16 * w + (k * w + 63) div 64" by (simp only: div_mult_self4)
  then show ?thesis unfolding k packed_bytes_full by (simp add: packed_bytes_def)
qed

lemma for_bytes_mono: "n \<le> n' \<Longrightarrow> for_bytes n w \<le> for_bytes n' w"
  unfolding for_bytes_def
  by (intro add_le_mono mult_le_mono1 div_le_mono packed_bytes_mono) auto

lemma min_or_zero_in: "vs \<noteq> [] \<Longrightarrow> min_or_zero vs \<in> set vs"
proof -
  have "fold min xs x \<in> insert x (set xs)" for xs and x :: u64
    by (induction xs arbitrary: x) (fastforce simp: min_def)+
  then show "vs \<noteq> [] \<Longrightarrow> min_or_zero vs \<in> set vs" by (cases vs) auto
qed

lemma max_or_zero_in: "vs \<noteq> [] \<Longrightarrow> max_or_zero vs \<in> set vs"
proof -
  have "fold max xs x \<in> insert x (set xs)" for xs and x :: u64
    by (induction xs arbitrary: x) (fastforce simp: max_def)+
  then show "vs \<noteq> [] \<Longrightarrow> max_or_zero vs \<in> set vs" by (cases vs) auto
qed

lemma spread_le:
  assumes "lo \<le> a" "a \<le> b" "b \<le> (hi :: u64)"
  shows "b - a \<le> hi - lo"
proof -
  have "lo \<le> hi" "lo \<le> b" "a \<le> hi" using assms by auto
  then show ?thesis using assms by (simp add: word_le_nat_alt unat_sub)
qed

lemma for_cost_spread:
  assumes "\<forall>v \<in> set vs. lo \<le> v \<and> v \<le> hi"
  shows "4 + for_cost vs \<le> for_bytes (length vs) (bits_needed (hi - lo))"
  using assms
proof (induction CHUNK vs rule: chunks.induct)
  case (1 vs)
  let ?w = "bits_needed (hi - lo)"
  show ?case
  proof (cases "vs = []")
    case True
    then show ?thesis by (simp add: for_bytes_def)
  next
    case False
    let ?t = "take CHUNK vs" and ?d = "drop CHUNK vs"
    have C: "CHUNK = 1024" by (simp add: CHUNK_def)
    have "?t \<noteq> []" using False by (simp add: C)
    then have "min_or_zero ?t \<in> set vs" "max_or_zero ?t \<in> set vs" "min_or_zero ?t \<le> max_or_zero ?t"
      using min_or_zero_in [of ?t] max_or_zero_in [of ?t] min_or_zero_le by (auto dest: in_set_takeD)
    then have w: "bits_needed (max_or_zero ?t - min_or_zero ?t) \<le> ?w"
      using "1.prems" by (intro bits_needed_mono spread_le) auto
    have IH: "4 + for_cost ?d \<le> for_bytes (length ?d) ?w"
      using "1.hyps" "1.prems" False by (auto simp: C dest: in_set_dropD)
    have p: "packed_bytes (bits_needed (max_or_zero ?t - min_or_zero ?t)) (min (length vs) CHUNK) \<le>
        packed_bytes ?w (min (length vs) CHUNK)"
      using w by (rule packed_bytes_mono) simp
    have "for_bytes (length vs) ?w = 9 + packed_bytes ?w (min (length vs) CHUNK) + for_bytes (length ?d) ?w"
    proof (cases "CHUNK \<le> length vs")
      case True
      then obtain k where k: "length vs = 1024 + k" by (metis C le_iff_add)
      have "(2047 + k) div 1024 = 1 + (1023 + k) div 1024" using div_add_self1 [of 1024 "1023 + k"] by simp
      then show ?thesis using packed_bytes_split [OF True, of ?w] k by (simp add: for_bytes_def C)
    next
      case less: False
      then have "(length vs + CHUNK - 1) div CHUNK = 1"
        using False by (intro iffD2 [OF div_eq_between]) (auto simp: C Suc_le_eq)
      then show ?thesis using less by (simp add: for_bytes_def min_def C)
    qed
    then show ?thesis using for_cost_split [OF False] p IH by simp
  qed
qed

subsection \<open>The patched body's walk\<close>

lemma patch_body_walk:
  "fst (fold (\<lambda>width (best, exceptions).
          let exceptions1 = exceptions + hist ! (width + 1);
              cost = packed_bytes width tk + packed_bytes 1 tk + packed_bytes wide exceptions1
          in (min best cost, exceptions1)) (rev [0..<m]) (best, exc)) =
   snd (width_walk hist tk wide width m best exc)"
  by (induction m arbitrary: width best exc) (auto simp: Let_def min_def)

lemma patch_body_width:
  "patch_body (width_hist c) (chunk_max_width c) (length c) = snd (patch_width c)"
proof -
  let ?w = "chunk_max_width c"
  have "patch_body (width_hist c) ?w (length c) =
      snd (width_walk (width_hist c) (length c) ?w ?w ?w (packed_bytes ?w (length c) + packed_bytes 1 (length c)) 0)"
    unfolding patch_body_def by (rule patch_body_walk)
  then show ?thesis by (simp add: patch_width_def Let_def)
qed

subsection \<open>What the scan computes\<close>

lemma close_run_fields [simp]:
  "sh_len (close_run l sh) = sh_len sh" "sh_min (close_run l sh) = sh_min sh" "sh_max (close_run l sh) = sh_max sh"
  "sh_constant (close_run l sh) = sh_constant sh" "sh_binary (close_run l sh) = sh_binary sh"
  "sh_for_bytes (close_run l sh) = sh_for_bytes sh" "sh_delta_bytes (close_run l sh) = sh_delta_bytes sh"
  "sh_patch_bytes (close_run l sh) = sh_patch_bytes sh" "sh_distinct (close_run l sh) = sh_distinct sh"
  "sh_top_count (close_run l sh) = sh_top_count sh"
  by (simp_all add: close_run_def)

lemma fold_min_acc: "fold min xs (min a b) = min a (fold min xs (b :: u64))"
  by (induction xs arbitrary: b) (simp, metis (no_types) fold_simps(2) min.left_commute)

lemma fold_max_acc: "fold max xs (max a b) = max a (fold max xs (b :: u64))"
  by (induction xs arbitrary: b) (simp, metis (no_types) fold_simps(2) max.left_commute)

lemma scan_value_shape: "\<exists>sh1 bl1 run1. scan_value first v (sh, bl, prev, run) = (sh1, bl1, v, run1)"
  by (cases "v = prev \<and> 0 < run") (auto simp: scan_value_def Let_def)

lemma scan_values_block:
  assumes "fold (scan_value first) c (sh, bl, prev, run) = (sh', bl', prev', run')"
  shows "bs_min bl' = fold min c (bs_min bl) \<and> bs_max bl' = fold max c (bs_max bl) \<and>
    bs_dmin bl' = fold min (deltas prev c) (bs_dmin bl) \<and> bs_dmax bl' = fold max (deltas prev c) (bs_dmax bl) \<and>
    bs_hist bl' = fold (\<lambda>v hist. hist[bits_needed v := Suc (hist ! bits_needed v)]) (deltas prev c) (bs_hist bl) \<and>
    bs_wide bl' = fold (\<lambda>v w. max w (bits_needed v)) (deltas prev c) (bs_wide bl) \<and>
    prev' = last (prev # c) \<and>
    sh_len sh' = sh_len sh \<and> sh_min sh' = sh_min sh \<and> sh_max sh' = sh_max sh \<and>
    sh_constant sh' = (sh_constant sh \<and> (\<forall>v \<in> set c. v = first)) \<and>
    sh_binary sh' = (sh_binary sh \<and> (\<forall>v \<in> set c. v \<le> 1)) \<and>
    sh_for_bytes sh' = sh_for_bytes sh \<and> sh_delta_bytes sh' = sh_delta_bytes sh \<and>
    sh_patch_bytes sh' = sh_patch_bytes sh"
  using assms
proof (induction c arbitrary: sh bl prev run)
  case (Cons v c)
  obtain sh1 bl1 run1 where s: "scan_value first v (sh, bl, prev, run) = (sh1, bl1, v, run1)"
    using scan_value_shape by blast
  then have f: "bs_min bl1 = min v (bs_min bl)" "bs_max bl1 = max v (bs_max bl)"
      "bs_dmin bl1 = min (zigzag (v - prev)) (bs_dmin bl)" "bs_dmax bl1 = max (zigzag (v - prev)) (bs_dmax bl)"
      "bs_hist bl1 = (bs_hist bl)[bits_needed (zigzag (v - prev)) := Suc (bs_hist bl ! bits_needed (zigzag (v - prev)))]"
      "bs_wide bl1 = max (bs_wide bl) (bits_needed (zigzag (v - prev)))"
      "sh_len sh1 = sh_len sh" "sh_min sh1 = sh_min sh" "sh_max sh1 = sh_max sh"
      "sh_constant sh1 = (sh_constant sh \<and> v = first)" "sh_binary sh1 = (sh_binary sh \<and> v \<le> 1)"
      "sh_for_bytes sh1 = sh_for_bytes sh" "sh_delta_bytes sh1 = sh_delta_bytes sh" "sh_patch_bytes sh1 = sh_patch_bytes sh"
    by (auto simp: scan_value_def Let_def min.commute max.commute split: if_splits)
  have "fold (scan_value first) c (sh1, bl1, v, run1) = (sh', bl', prev', run')" using Cons.prems s by simp
  from Cons.IH [OF this] show ?case unfolding f by (simp add: conj_assoc)
qed auto

definition runs_are :: "shape \<Rightarrow> u64 list \<Rightarrow> bool" where
  "runs_are sh L \<longleftrightarrow> sh_runs sh = length L \<and> sh_run_len_min sh = fold min L (- 1) \<and>
     sh_run_len_max sh = fold max L 0"

definition runs_from :: "u64 \<Rightarrow> u64 \<Rightarrow> u64 list \<Rightarrow> u64 list" where
  "runs_from prev run rest =
     (if run = 0 then (case rest of [] \<Rightarrow> [] | v # r \<Rightarrow> snd (rle_runs v 1 r)) else snd (rle_runs prev run rest))"

lemma runs_are_close: "runs_are sh L \<Longrightarrow> runs_are (close_run run sh) (L @ runs_from prev run [])"
  by (auto simp: runs_are_def close_run_def runs_from_def word_neq_0_conv min.commute max.commute)

lemma scan_values_runs:
  assumes "fold (scan_value first) c (sh, bl, prev, run) = (sh', bl', prev', run')"
    and "runs_are sh L" "unat run + length c < 2 ^ 64"
  shows "\<exists>L'. runs_are sh' L' \<and> (\<forall>rest. L' @ runs_from prev' run' rest = L @ runs_from prev run (c @ rest)) \<and>
    unat run' \<le> unat run + length c"
  using assms
proof (induction c arbitrary: sh bl prev run L)
  case Nil
  then show ?case by auto
next
  case (Cons v c)
  obtain sh1 bl1 run1 where s: "scan_value first v (sh, bl, prev, run) = (sh1, bl1, v, run1)"
    using scan_value_shape by blast
  have "\<exists>L1. runs_are sh1 L1 \<and> (\<forall>rest. L1 @ runs_from v run1 rest = L @ runs_from prev run (v # rest)) \<and> unat run1 \<le> unat run + 1"
  proof (cases "v = prev \<and> run > 0")
    case True
    have u: "unat (run + 1) = unat run + 1" using Cons.prems(3) by (simp add: unat_word_ariths)
    then have "run + 1 \<noteq> 0" by (metis add_is_0 unat_0 zero_neq_one)
    moreover have "run1 = run + 1" "runs_are sh1 L" using s True Cons.prems(2)
      by (auto simp: scan_value_def Let_def runs_are_def)
    ultimately show ?thesis using True u by (intro exI [of _ L]) (auto simp: runs_from_def)
  next
    case False
    then have r1: "run1 = 1" and sh1: "runs_are sh1 (L @ runs_from prev run [])"
      using s runs_are_close [of sh L run prev] Cons.prems(2)
      by (auto simp: scan_value_def Let_def runs_are_def close_run_def split: if_splits)
    have "(L @ runs_from prev run []) @ runs_from v run1 rest = L @ runs_from prev run (v # rest)" for rest
      using False by (auto simp: r1 runs_from_def word_neq_0_conv case_prod_beta Let_def)
    then show ?thesis using sh1 r1 by (intro exI [of _ "L @ runs_from prev run []"]) simp
  qed
  then obtain L1 where L1: "runs_are sh1 L1" "\<forall>rest. L1 @ runs_from v run1 rest = L @ runs_from prev run (v # rest)"
      "unat run1 \<le> unat run + 1"
    by blast
  have f: "fold (scan_value first) c (sh1, bl1, v, run1) = (sh', bl', prev', run')" using Cons.prems(1) s by simp
  show ?case using Cons.IH [OF f L1(1)] L1 Cons.prems(3) by fastforce
qed

lemma fold_min_top: "c \<noteq> [] \<Longrightarrow> fold min c (- 1) = min_or_zero c"
  by (cases c) (simp_all add: min_absorb1 word_order.extremum)

lemma fold_max_bot: "c \<noteq> [] \<Longrightarrow> fold max c 0 = max_or_zero c"
  by (cases c) (simp_all add: max_absorb1)

lemma deltas_append: "deltas p (xs @ ys) = deltas p xs @ deltas (last (p # xs)) ys"
  by (induction xs arbitrary: p) auto

lemma deltas_take_drop:
  "take n (deltas p vs) = deltas p (take n vs)" "drop n (deltas p vs) = deltas (last (p # take n vs)) (drop n vs)"
proof -
  have e: "deltas p vs = deltas p (take n vs) @ deltas (last (p # take n vs)) (drop n vs)"
    using deltas_append [of p "take n vs" "drop n vs"] by simp
  show "take n (deltas p vs) = deltas p (take n vs)" "drop n (deltas p vs) = deltas (last (p # take n vs)) (drop n vs)"
    by (subst e, cases "n \<le> length vs", simp_all)+
qed

text \<open>One block adds its exact sizes.\<close>

lemma scan_block_fields:
  assumes s: "scan_block first c (sh, prev, run) = (sh', prev', run')" and ne: "c \<noteq> []"
  shows "prev' = last (prev # c) \<and> sh_len sh' = sh_len sh \<and>
    sh_min sh' = min (sh_min sh) (min_or_zero c) \<and> sh_max sh' = max (sh_max sh) (max_or_zero c) \<and>
    sh_constant sh' = (sh_constant sh \<and> (\<forall>v \<in> set c. v = first)) \<and>
    sh_binary sh' = (sh_binary sh \<and> (\<forall>v \<in> set c. v \<le> 1)) \<and>
    sh_for_bytes sh' = sh_for_bytes sh + (9 + packed_bytes (bits_needed (max_or_zero c - min_or_zero c)) (length c)) \<and>
    sh_delta_bytes sh' = sh_delta_bytes sh +
      (9 + packed_bytes (bits_needed (max_or_zero (deltas prev c) - min_or_zero (deltas prev c))) (length c)) \<and>
    sh_patch_bytes sh' = sh_patch_bytes sh + (2 + snd (patch_width (deltas prev c)))"
proof -
  let ?b0 = "\<lparr>bs_min = - 1, bs_max = 0, bs_dmin = - 1, bs_dmax = 0, bs_hist = replicate 65 0, bs_wide = 0\<rparr>"
  obtain sh1 bl prev1 run1 where f: "fold (scan_value first) c (sh, ?b0, prev, run) = (sh1, bl, prev1, run1)"
    by (metis prod_cases4)
  have d: "deltas prev c \<noteq> []" using ne length_deltas [of prev c] by (metis length_0_conv)
  note b = scan_values_block [OF f]
  have m: "bs_min bl = min_or_zero c" "bs_max bl = max_or_zero c"
      "bs_dmin bl = min_or_zero (deltas prev c)" "bs_dmax bl = max_or_zero (deltas prev c)"
    using b by (simp_all add: fold_min_top fold_max_bot ne d)
  have h: "bs_hist bl = width_hist (deltas prev c)" "bs_wide bl = chunk_max_width (deltas prev c)"
    using b by (simp_all add: width_hist_def chunk_max_width_def)
  have pb: "patch_body (bs_hist bl) (bs_wide bl) (length c) = snd (patch_width (deltas prev c))"
    unfolding h using patch_body_width [of "deltas prev c"] by simp
  have r: "prev' = prev1" "sh' = sh1\<lparr>sh_min := min (sh_min sh1) (min_or_zero c), sh_max := max (sh_max sh1) (max_or_zero c),
      sh_for_bytes := sh_for_bytes sh1 + (9 + packed_bytes (bits_needed (max_or_zero c - min_or_zero c)) (length c)),
      sh_delta_bytes := sh_delta_bytes sh1 +
        (9 + packed_bytes (bits_needed (max_or_zero (deltas prev c) - min_or_zero (deltas prev c))) (length c)),
      sh_patch_bytes := sh_patch_bytes sh1 + (2 + snd (patch_width (deltas prev c)))\<rparr>"
    using s unfolding scan_block_def prod.case f pb m by simp_all
  have q: "prev1 = last (prev # c)" "sh_len sh1 = sh_len sh" "sh_min sh1 = sh_min sh" "sh_max sh1 = sh_max sh"
      "sh_constant sh1 = (sh_constant sh \<and> (\<forall>v \<in> set c. v = first))"
      "sh_binary sh1 = (sh_binary sh \<and> (\<forall>v \<in> set c. v \<le> 1))"
      "sh_for_bytes sh1 = sh_for_bytes sh" "sh_delta_bytes sh1 = sh_delta_bytes sh"
      "sh_patch_bytes sh1 = sh_patch_bytes sh"
    using b by blast+
  show ?thesis unfolding r(1) q(1) unfolding r(2) by (simp add: q(2-))
qed

lemma scan_block_runs:
  assumes s: "scan_block first c (sh, prev, run) = (sh', prev', run')"
    and "runs_are sh L" "unat run + length c < 2 ^ 64"
  shows "\<exists>L'. runs_are sh' L' \<and> (\<forall>rest. L' @ runs_from prev' run' rest = L @ runs_from prev run (c @ rest)) \<and>
    unat run' \<le> unat run + length c"
proof -
  let ?b0 = "\<lparr>bs_min = - 1, bs_max = 0, bs_dmin = - 1, bs_dmax = 0, bs_hist = replicate 65 0, bs_wide = 0\<rparr>"
  obtain sh1 bl prev1 run1 where f: "fold (scan_value first) c (sh, ?b0, prev, run) = (sh1, bl, prev1, run1)"
    by (metis prod_cases4)
  have "prev' = prev1" "run' = run1" "\<And>L. runs_are sh' L = runs_are sh1 L"
    using s unfolding scan_block_def prod.case f by (auto simp: runs_are_def)
  then show ?thesis using scan_values_runs [OF f assms(2,3)] by simp
qed

lemma scan_blocks:
  assumes "fold (scan_block first) (chunks CHUNK vs) (sh, prev, run) = (sh', prev', run')"
    and "runs_are sh L" "unat run + length vs < 2 ^ 64"
  shows "sh_len sh' = sh_len sh \<and>
    sh_min sh' \<le> sh_min sh \<and> sh_max sh \<le> sh_max sh' \<and> (\<forall>v \<in> set vs. sh_min sh' \<le> v \<and> v \<le> sh_max sh') \<and>
    sh_constant sh' = (sh_constant sh \<and> (\<forall>v \<in> set vs. v = first)) \<and>
    sh_binary sh' = (sh_binary sh \<and> (\<forall>v \<in> set vs. v \<le> 1)) \<and>
    sh_for_bytes sh' = sh_for_bytes sh + for_cost vs \<and>
    sh_delta_bytes sh' = sh_delta_bytes sh + for_cost (deltas prev vs) \<and>
    sh_patch_bytes sh' = sh_patch_bytes sh + patch_total (deltas prev vs) \<and>
    (\<exists>L'. runs_are sh' L' \<and> L' @ runs_from prev' run' [] = L @ runs_from prev run vs)"
  using assms
proof (induction CHUNK vs arbitrary: sh prev run L rule: chunks.induct)
  case (1 vs)
  show ?case
  proof (cases "vs = []")
    case True
    then show ?thesis using "1.prems" by auto
  next
    case False
    let ?t = "take CHUNK vs" and ?d = "drop CHUNK vs"
    have nC: "\<not> (vs = [] \<or> CHUNK = 0)" and ne: "?t \<noteq> []" using False by (simp_all add: CHUNK_def)
    obtain sh1 prev1 run1 where s: "scan_block first ?t (sh, prev, run) = (sh1, prev1, run1)"
      by (metis prod_cases3)
    note b = scan_block_fields [OF s ne]
    obtain L1 where L1: "runs_are sh1 L1" "\<forall>rest. L1 @ runs_from prev1 run1 rest = L @ runs_from prev run (?t @ rest)"
        "unat run1 \<le> unat run + length ?t"
    proof -
      have "unat run + length ?t < 2 ^ 64" using "1.prems"(3) by (simp add: min_def)
      then show ?thesis using that scan_block_runs [OF s "1.prems"(2)] by blast
    qed
    have f: "fold (scan_block first) (chunks CHUNK ?d) (sh1, prev1, run1) = (sh', prev', run')"
      using "1.prems"(1) s False by (simp add: chunks_split)
    have "length ?t + length ?d = length vs" by simp
    then have "unat run1 + length ?d < 2 ^ 64" using L1(3) "1.prems"(3) by linarith
    note IH = "1.hyps" [OF nC f L1(1) this]
    have D: "deltas prev vs \<noteq> []" using False length_deltas [of prev vs] by (metis length_0_conv)
    have dl: "take CHUNK (deltas prev vs) = deltas prev ?t" "drop CHUNK (deltas prev vs) = deltas prev1 ?d"
      using b deltas_take_drop [of CHUNK prev vs] by simp_all
    have sets: "(\<forall>v \<in> set vs. P v) \<longleftrightarrow> (\<forall>v \<in> set ?t. P v) \<and> (\<forall>v \<in> set ?d. P v)" for P
      by (metis Un_iff append_take_drop_id set_append)
    have rng: "\<forall>v \<in> set ?t. sh_min sh' \<le> v \<and> v \<le> sh_max sh'"
    proof
      fix v assume v: "v \<in> set ?t"
      have "sh_min sh1 \<le> min_or_zero ?t" "max_or_zero ?t \<le> sh_max sh1" using b by simp_all
      moreover have "min_or_zero ?t \<le> v" "v \<le> max_or_zero ?t" using v by (rule min_or_zero_le, rule max_or_zero_ge)
      ultimately show "sh_min sh' \<le> v \<and> v \<le> sh_max sh'" using IH by (meson order_trans)
    qed
    have L: "\<exists>L'. runs_are sh' L' \<and> L' @ runs_from prev' run' [] = L @ runs_from prev run vs"
      using IH L1(2) by (metis append_take_drop_id)
    have mm: "sh_min sh' \<le> sh_min sh" "sh_max sh \<le> sh_max sh'"
      using IH b by (metis min.cobounded1 order_trans, metis max.cobounded1 order_trans)
    show ?thesis
      using IH b rng mm L for_cost_split [OF False] for_cost_split [OF D] patch_total_split [OF D]
      unfolding sets dl by (simp add: ac_simps)
  qed
qed

subsection \<open>The shape of a chunk\<close>

definition shape_of :: "u64 list \<Rightarrow> shape \<Rightarrow> bool" where
  "shape_of vs sh \<longleftrightarrow> sh_len sh = length vs \<and>
     (\<forall>v \<in> set vs. sh_min sh \<le> v \<and> v \<le> sh_max sh) \<and>
     sh_constant sh = (\<forall>v \<in> set vs. v = hd vs) \<and> sh_binary sh = (\<forall>v \<in> set vs. v \<le> 1) \<and>
     sh_for_bytes sh = 4 + for_cost vs \<and>
     sh_delta_bytes sh = 4 + for_cost (deltas (hd vs) vs) \<and>
     sh_patch_bytes sh = 4 + patch_total (deltas (hd vs) vs) \<and>
     runs_are sh (snd (rle_split vs)) \<and>
     sh_distinct sh = (if card (set vs) \<le> MAX_ENTRIES then Some (card (set vs)) else None) \<and>
     (\<exists>v \<in> set vs. sh_top_count sh = count_list vs v)"

lemma runs_are_start: "runs_are (shape_start n) []"
  by (simp add: runs_are_def shape_start_def)

lemma shape_read_correct:
  assumes t: "table_ok t" and small: "length vs \<le> 2 ^ 27" and ne: "vs \<noteq> []"
  obtains sh t' where "shape_read t vs = Some (sh, t')" "table_ok t'" "shape_of vs sh"
proof -
  obtain sh prev run where f: "fold (scan_block (hd vs)) (chunks CHUNK vs) (shape_start (length vs), hd vs, 0) = (sh, prev, run)"
    by (metis prod_cases3)
  note b = scan_blocks [OF f runs_are_start]
  have run: "runs_from (hd vs) 0 vs = snd (rle_split vs)"
    using ne by (cases vs) (auto simp: runs_from_def rle_split_def)
  have "(0::nat) < MAX_ENTRIES" by (simp add: MAX_ENTRIES_def)
  then obtain c t' where c: "count_values t vs MAX_ENTRIES = Some (c, t')" "table_ok t'"
      "c_distinct c = (if card (set vs) \<le> MAX_ENTRIES then Some (card (set vs)) else None)"
      "c_top c \<in> set vs" "c_top_count c = count_list vs (c_top c)"
    using count_values_correct [OF t small, of MAX_ENTRIES] ne by metis
  let ?sh = "(close_run run sh)\<lparr>sh_distinct := c_distinct c, sh_top_count := c_top_count c\<rparr>"
  have read: "shape_read t vs = Some (?sh, t')"
    using ne f c(1) by (simp add: shape_read_def hd_conv_nth idx_def)
  have small': "unat (0::u64) + length vs < 2 ^ 64" using small by simp
  obtain L where L: "runs_are sh L" "L @ runs_from prev run [] = snd (rle_split vs)"
    using b [OF small'] run by auto
  have "runs_are ?sh (snd (rle_split vs))"
    using runs_are_close [OF L(1), of run prev] L(2) by (simp add: runs_are_def)
  then have "shape_of vs ?sh"
    using b [OF small'] c by (auto simp: shape_of_def shape_start_def)
  then show thesis using that [OF read c(2)] by blast
qed

subsection \<open>No encoding costs more than its price\<close>

lemma rle_values_subset: "set (fst (rle_runs cur len vs)) \<subseteq> insert cur (set vs)"
proof (induction vs arbitrary: cur len)
  case (Cons v vs)
  show ?case using Cons.IH [of cur "len + 1"] Cons.IH [of v 1] by (auto simp: Let_def case_prod_beta)
qed simp

lemma fold_min_top_le: "v \<in> set xs \<Longrightarrow> fold min xs (- 1) \<le> (v :: u64)"
  using fold_min_le [of xs "- 1"] by blast

lemma fold_max_bot_ge: "v \<in> set xs \<Longrightarrow> (v :: u64) \<le> fold max xs 0"
  using fold_max_ge [of 0 xs] by blast

lemma rle_price:
  assumes sh: "shape_of vs sh" and enc: "rle_encode vs = Some b" and small: "length vs \<le> 2 ^ 27"
    and p: "price sh RleId = Some n"
  shows "length b \<le> n"
proof -
  let ?rv = "fst (rle_split vs)" and ?rl = "snd (rle_split vs)"
  have s64: "length vs < 2 ^ 64" using small by simp
  obtain vb lb where vl: "for_encode ?rv = Some vb" "for_encode ?rl = Some lb"
      "b = len_le (length ?rv) @ len_le (length vb) @ vb @ lb"
    using rle_encode_Some [OF s64] enc by (metis option.inject)
  have "set ?rv \<subseteq> set vs" using rle_values_subset by (auto simp: rle_split_def split: list.splits)
  then have v: "4 + for_cost ?rv \<le> for_bytes (length ?rv) (bits_needed (sh_max sh - sh_min sh))"
    using sh by (intro for_cost_spread) (auto simp: shape_of_def)
  have r: "runs_are sh ?rl" using sh by (simp add: shape_of_def)
  then have l: "4 + for_cost ?rl \<le> for_bytes (length ?rl) (bits_needed (sh_run_len_max sh - sh_run_len_min sh))"
    by (intro for_cost_spread) (auto simp: runs_are_def fold_min_top_le fold_max_bot_ge)
  show ?thesis
    using v l r p rle_split_expand(1) [OF s64] for_encode_bytes [OF vl(1)] for_encode_bytes [OF vl(2)] vl(3)
    by (simp add: price_def Let_def runs_are_def)
qed

lemma dict_code_bound:
  assumes "v \<in> set dict" "length dict < 2 ^ 64"
  shows "(word_of_nat (the (search_from 0 dict v)) :: u64) \<le> word_of_nat (length dict - 1)"
proof -
  obtain i where i: "search_from 0 dict v = Some i" "i < length dict"
    using search_from_in [OF assms(1), of 0] by auto
  have u: "unat (word_of_nat k :: u64) = k" if "k < length dict" for k
    using that assms(2) by (simp add: unat_of_nat take_bit_nat_eq_self)
  have "length dict - 1 < length dict" using i(2) by simp
  from u [OF this] u [OF i(2)] show ?thesis using i unfolding word_le_nat_alt by simp
qed

lemma dict_price:
  assumes sh: "shape_of vs sh" and enc: "dict_encode vs = Some b" and small: "length vs \<le> 2 ^ 27"
    and p: "price sh DictId = Some n"
  shows "length b \<le> n"
proof -
  let ?d = "dict_of vs" and ?c = "dict_codes (dict_of vs) vs"
  obtain db cb where dc: "for_encode ?d = Some db" "for_encode ?c = Some cb" "b = len_le (length db) @ db @ cb"
    using dict_encode_Some [of vs] enc by (metis option.inject)
  have n: "length ?d < 2 ^ 64" using length_dict_of_le [of vs] small by simp
  have d: "4 + for_cost ?d \<le> for_bytes (length ?d) (bits_needed (sh_max sh - sh_min sh))"
    using sh by (intro for_cost_spread) (auto simp: shape_of_def)
  have "4 + for_cost ?c \<le> for_bytes (length ?c) (bits_needed (word_of_nat (length ?d - 1) - 0))"
    using dict_code_bound [OF _ n] by (intro for_cost_spread) (auto simp: dict_codes_def)
  then have c: "4 + for_cost ?c \<le> for_bytes (length vs) (bits_needed (word_of_nat (length ?d - 1)))"
    by (simp add: dict_codes_def)
  show ?thesis
    using d c p sh for_encode_bytes [OF dc(1)] for_encode_bytes [OF dc(2)] dc(3) length_dict_of [of vs]
    by (auto simp: price_def Let_def shape_of_def split: if_splits)
qed

lemma freq_exceptions_count: "length (snd (freq_exceptions tv i vs)) + count_list vs tv = length vs"
  by (induction vs arbitrary: i) (auto simp: case_prod_beta Let_def)

lemma freq_exceptions_subset: "set (snd (freq_exceptions tv i vs)) \<subseteq> set vs"
  by (induction vs arbitrary: i) (auto simp: case_prod_beta Let_def split: if_splits)

lemma freq_encode_split:
  assumes t: "table_ok t" and small: "length vs \<le> 2 ^ 27" and enc: "freq_encode t vs = Some (b, t')"
  obtains tv pb vb where "b = len_le (length vs) @ u64_le tv @ len_le (length pb) @ pb @ vb"
    "for_encode (fst (freq_exceptions tv 0 vs)) = Some pb" "for_encode (snd (freq_exceptions tv 0 vs)) = Some vb"
    "\<And>v. count_list vs v \<le> count_list vs tv"
proof -
  obtain tv t1 where t: "freq_top t vs = Some (tv, t1)" "\<And>v. count_list vs v \<le> count_list vs tv"
    using freq_top_Some [OF t small] by metis
  obtain pb where pb: "for_encode (fst (freq_exceptions tv 0 vs)) = Some pb" by (metis for_encode_Some)
  obtain vb where vb: "for_encode (snd (freq_exceptions tv 0 vs)) = Some vb" by (metis for_encode_Some)
  show thesis
    by (rule that [OF _ pb vb t(2)])
      (use enc t(1) pb vb in \<open>auto simp: freq_encode_def case_prod_beta Let_def split: bind_splits\<close>)
qed

lemma freq_price:
  assumes sh: "shape_of vs sh" and t: "table_ok t" and enc: "freq_encode t vs = Some (b, t')"
    and small: "length vs \<le> 2 ^ 27" and p: "price sh FrequencyId = Some n"
  shows "length b \<le> n"
proof -
  obtain tv pb vb where f: "b = len_le (length vs) @ u64_le tv @ len_le (length pb) @ pb @ vb"
      "for_encode (fst (freq_exceptions tv 0 vs)) = Some pb" "for_encode (snd (freq_exceptions tv 0 vs)) = Some vb"
      "\<And>v. count_list vs v \<le> count_list vs tv"
    by (rule freq_encode_split [OF t small enc]) blast
  let ?ps = "fst (freq_exceptions tv 0 vs)" and ?es = "snd (freq_exceptions tv 0 vs)"
  have le: "length ?ps \<le> length vs - sh_top_count sh" "length ?es \<le> length vs - sh_top_count sh"
    using freq_exceptions_count [of tv 0 vs] freq_exceptions_length [of tv 0 vs] f(4) sh
    by (auto simp: shape_of_def) (metis add_diff_cancel_right' diff_le_mono2)+
  have "unat (word_of_nat (length vs) :: u64) = length vs"
    using small by (simp add: unat_of_nat take_bit_nat_eq_self)
  then have "\<forall>q \<in> set ?ps. 0 \<le> q \<and> q \<le> word_of_nat (length vs)"
    using freq_exceptions_bound [of 0 vs _ tv] small by (fastforce simp: word_le_nat_alt)
  then have "4 + for_cost ?ps \<le> for_bytes (length ?ps) (bits_needed (word_of_nat (length vs) - 0))"
    by (rule for_cost_spread)
  also have "\<dots> \<le> for_bytes (length vs - sh_top_count sh) (bits_needed (word_of_nat (length vs)))"
    using for_bytes_mono [OF le(1)] by simp
  finally have ps: "4 + for_cost ?ps \<le> for_bytes (length vs - sh_top_count sh) (bits_needed (word_of_nat (length vs)))" .
  have "4 + for_cost ?es \<le> for_bytes (length ?es) (bits_needed (sh_max sh - sh_min sh))"
    using sh freq_exceptions_subset [of tv 0 vs] by (intro for_cost_spread) (auto simp: shape_of_def)
  also have "\<dots> \<le> for_bytes (length vs - sh_top_count sh) (bits_needed (sh_max sh - sh_min sh))"
    by (rule for_bytes_mono [OF le(2)])
  finally have es: "4 + for_cost ?es \<le> for_bytes (length vs - sh_top_count sh) (bits_needed (sh_max sh - sh_min sh))" .
  show ?thesis
    using ps es p sh f(1) for_encode_bytes [OF f(2)] for_encode_bytes [OF f(3)]
    by (simp add: price_def Let_def shape_of_def)
qed

text \<open>Every candidate with a price is legal, and its encoding fits the price.\<close>

lemma price_legal:
  assumes "shape_of vs sh" "price sh e = Some n"
  shows "legal_for e vs"
  using assms by (cases e) (auto simp: price_def legal_for_def shape_of_def Let_def split: if_splits)

lemma price_bounds:
  assumes sh: "shape_of vs sh" and p: "price sh e = Some n" and t: "table_ok t" and small: "length vs \<le> 2 ^ 27"
    and enc: "encode_with e t vs = Some (b, t')" and ne: "vs \<noteq> []"
  shows "length b \<le> n"
proof -
  have first: "first_or_zero vs = hd vs" using ne by (cases vs) (auto simp: first_or_zero_def)
  show ?thesis
  proof (cases e)
    case RleId then show ?thesis using rle_price [OF sh _ small] enc p by (auto simp: encode_with_def)
  next case DictId then show ?thesis using dict_price [OF sh _ small] enc p by (auto simp: encode_with_def)
  next case FrequencyId then show ?thesis using freq_price [OF sh t _ small] enc p by (auto simp: encode_with_def)
  next case ForBitPack then show ?thesis using enc p sh
      by (auto simp: encode_with_def price_def Let_def shape_of_def for_encode_bytes)
  next case DeltaBitPack then show ?thesis using enc p sh
      by (auto simp: encode_with_def price_def Let_def shape_of_def delta_encode_bytes first)
  next case DeltaPatch then show ?thesis using enc p sh
      by (auto simp: encode_with_def price_def Let_def shape_of_def delta_patch_encode_bytes first)
  next case BoolBitpackId
    then have bin: "\<forall>v \<in> set vs. v \<le> 1" using p sh by (auto simp: price_def shape_of_def Let_def split: if_splits)
    obtain b' where "bool_encode vs = Some b'" "length b' = 4 + (length vs + 7) div 8"
      by (rule bool_encode_Some [OF bin])
    then show ?thesis using BoolBitpackId enc p sh
      by (auto simp: encode_with_def price_def Let_def shape_of_def split: if_splits)
  qed (use p in \<open>simp_all add: price_def Let_def\<close>)
qed

text \<open>The exact ones.\<close>

lemma price_exact:
  assumes sh: "shape_of vs sh" and p: "price sh e = Some n" and e: "e \<in> {ForBitPack, DeltaBitPack, DeltaPatch, BoolBitpackId}"
    and enc: "encode_with e t vs = Some (b, t')" and ne: "vs \<noteq> []"
  shows "length b = n"
proof -
  have first: "first_or_zero vs = hd vs" using ne by (cases vs) (auto simp: first_or_zero_def)
  consider "e = ForBitPack" | "e = DeltaBitPack" | "e = DeltaPatch" | "e = BoolBitpackId" using e by auto
  then show ?thesis
  proof cases
    case 4
    then have bin: "\<forall>v \<in> set vs. v \<le> 1" using p sh by (auto simp: price_def shape_of_def Let_def split: if_splits)
    obtain b' where "bool_encode vs = Some b'" "length b' = 4 + (length vs + 7) div 8"
      by (rule bool_encode_Some [OF bin])
    then show ?thesis using 4 enc p sh
      by (auto simp: encode_with_def price_def Let_def shape_of_def split: if_splits)
  qed (use enc p sh in \<open>auto simp: encode_with_def price_def Let_def shape_of_def for_encode_bytes
        delta_encode_bytes delta_patch_encode_bytes first\<close>)
qed

subsection \<open>The choice\<close>

lemma cheaper_fold:
  "fold (cheaper sh) es (e0, s0) = (e, s) \<Longrightarrow>
    s \<le> s0 \<and> ((e, s) = (e0, s0) \<or> e \<in> set es \<and> price sh e = Some s) \<and>
    (\<forall>e' \<in> set es. \<forall>s'. price sh e' = Some s' \<longrightarrow> s \<le> s')"
proof (induction es arbitrary: e0 s0)
  case (Cons c es)
  obtain e1 s1 where c: "cheaper sh c (e0, s0) = (e1, s1)" by fastforce
  then have c1: "s1 \<le> s0" "(e1, s1) = (e0, s0) \<or> e1 = c \<and> price sh c = Some s1"
      "\<forall>s'. price sh c = Some s' \<longrightarrow> s1 \<le> s'"
    by (auto simp: cheaper_def split: option.splits if_splits)
  then show ?case using Cons.IH [of e1 s1] Cons.prems c by fastforce
qed auto

lemma choose_correct:
  assumes t: "table_ok t" and small: "length vs \<le> 2 ^ 27"
  obtains e t1 b t2 where "choose_encoding t vs = Some (e, t1)" "table_ok t1" "legal_for e vs"
    "encode_with e t1 vs = Some (b, t2)" "table_ok t2" "length b \<le> 4 + 8 * length vs"
proof (cases "vs = []")
  case True
  then show thesis using that [of Plain t "encode_plain vs" t] t
    by (simp add: choose_encoding_def legal_for_def encode_with_def encode_plain_def)
next
  case False
  obtain sh t1 where sh: "shape_read t vs = Some (sh, t1)" "table_ok t1" "shape_of vs sh"
    by (rule shape_read_correct [OF t small False])
  define e where "e = (if sh_constant sh then Constant else fst (fold (cheaper sh) candidates (Plain, 4 + length vs * 8)))"
  have ch: "choose_encoding t vs = Some (e, t1)" using False sh(1) by (simp add: choose_encoding_def e_def)
  have leg: "legal_for e vs \<and> (\<forall>b t2. encode_with e t1 vs = Some (b, t2) \<longrightarrow> length b \<le> 4 + 8 * length vs)"
  proof (cases "sh_constant sh")
    case True
    have "1 \<le> length vs" using False by (cases vs) auto
    then show ?thesis using True sh(3) False
      by (auto simp: e_def legal_for_def constant_legal_def shape_of_def encode_with_def encode_constant_def)
  next
    case nc: False
    obtain e1 s where f: "fold (cheaper sh) candidates (Plain, 4 + length vs * 8) = (e1, s)" by fastforce
    then have e1: "e = e1" using nc by (simp add: e_def)
    note cf = cheaper_fold [OF f]
    show ?thesis
    proof (cases "(e1, s) = (Plain, 4 + length vs * 8)")
      case True
      have "length (encode_plain vs) = 4 + 8 * length vs"
        using length_concat_uniform [of "map u64_le vs" 8] by (simp add: encode_plain_def)
      then show ?thesis using True e1 by (simp add: legal_for_def encode_with_def)
    next
      case other: False
      then have p: "price sh e1 = Some s" "s \<le> 4 + length vs * 8" using cf by auto
      then show ?thesis using price_legal [OF sh(3) p(1)] price_bounds [OF sh(3) p(1) sh(2) small _ False] e1
        by fastforce
    qed
  qed
  obtain b t2 where "encode_with e t1 vs = Some (b, t2)" "table_ok t2"
    using encode_with_total [of e vs t1] leg sh(2) small by blast
  then show thesis using that [OF ch sh(2)] leg by blast
qed

lemma encode_auto_correct:
  assumes "table_ok t" "length vs \<le> 2 ^ 27"
  obtains e t1 b t2 where "choose_encoding t vs = Some (e, t1)" "encode_with e t1 vs = Some (b, t2)"
    "encode_auto t vs = Some (e, id_byte e # b, t2)" "table_ok t1" "table_ok t2" "legal_for e vs"
    "length b \<le> 4 + 8 * length vs"
proof -
  obtain e t1 b t2 where c: "choose_encoding t vs = Some (e, t1)" "table_ok t1" "legal_for e vs"
    "encode_with e t1 vs = Some (b, t2)" "table_ok t2" "length b \<le> 4 + 8 * length vs"
    by (rule choose_correct [OF assms])
  then have "encode_auto t vs = Some (e, id_byte e # b, t2)" by (simp add: encode_auto_def)
  then show thesis using that c by blast
qed

text \<open>
  No frame container beats the choice: the winner's bytes are at most its price, and every
  one of these candidates was priced to the byte.
\<close>

lemma encode_with_grows:
  assumes "encode_with e t vs = Some (b, t')" "vs \<noteq> []" "e \<in> {Plain, ForBitPack, DeltaBitPack, DeltaPatch}"
  shows "12 \<le> length b"
proof -
  have n: "1 \<le> length vs" using assms(2) by (cases vs) auto
  have cost: "9 \<le> for_cost ws" "2 \<le> patch_total ws" if "ws \<noteq> []" for ws
    using that by (simp_all add: for_cost_split patch_total_split)
  have d: "deltas p vs \<noteq> []" for p using assms(2) by (cases vs) auto
  have "length (encode_plain vs) = 4 + 8 * length vs"
    using length_concat_uniform [of "map u64_le vs" 8] by (simp add: encode_plain_def)
  then show ?thesis using assms(1,3) n cost [OF assms(2)] cost [OF d]
    by (auto simp: encode_with_def for_encode_bytes delta_encode_bytes delta_patch_encode_bytes intro: le_trans)
qed

lemma encode_auto_unbeaten:
  assumes t: "table_ok t" and small: "length vs \<le> 2 ^ 27" and ne: "vs \<noteq> []"
    and auto: "encode_auto t vs = Some (e, b, t2)"
    and e': "e' \<in> {Plain, ForBitPack, DeltaBitPack, DeltaPatch}" and enc': "encode_with e' t' vs = Some (b', t'')"
  shows "length b \<le> 1 + length b'"
proof -
  obtain e0 t1 b0 t20 where c: "choose_encoding t vs = Some (e0, t1)" "encode_with e0 t1 vs = Some (b0, t20)"
      "encode_auto t vs = Some (e0, id_byte e0 # b0, t20)" "table_ok t1"
    using encode_auto_correct [OF t small] by metis
  obtain sh t1' where sh: "shape_read t vs = Some (sh, t1')" "table_ok t1'" "shape_of vs sh"
    by (rule shape_read_correct [OF t small ne])
  have plain: "length (encode_plain vs) = 4 + length vs * 8"
    using length_concat_uniform [of "map u64_le vs" 8] by (simp add: encode_plain_def)
  have "length b0 \<le> length b'"
  proof (cases "sh_constant sh")
    case True
    then have "e0 = Constant" using c(1) sh(1) ne by (simp add: choose_encoding_def)
    then have "length b0 = 12" using c(2) by (auto simp: encode_with_def encode_constant_def split: bind_splits)
    then show ?thesis using encode_with_grows [OF enc' ne e'] by simp
  next
    case False
    obtain e1 s where f: "fold (cheaper sh) candidates (Plain, 4 + length vs * 8) = (e1, s)" by fastforce
    then have e1: "e0 = e1" using False c(1) sh(1) ne by (auto simp: choose_encoding_def)
    note cf = cheaper_fold [OF f]
    have "length b0 \<le> s"
    proof (cases "(e1, s) = (Plain, 4 + length vs * 8)")
      case True then show ?thesis using c(2) e1 plain by (auto simp: encode_with_def)
    next
      case False
      then have "price sh e1 = Some s" using cf by auto
      then show ?thesis using price_bounds [OF sh(3) _ c(4) small c(2) ne] e1 by blast
    qed
    also have "s \<le> length b'"
    proof (cases "e' = Plain")
      case True then show ?thesis using enc' plain cf by (auto simp: encode_with_def)
    next
      case False
      then obtain n where n: "price sh e' = Some n" using e' by (auto simp: price_def Let_def)
      have "length b' = n" by (rule price_exact [OF sh(3) n _ enc' ne]) (use e' False in auto)
      moreover have "e' \<in> set candidates" using e' False by (auto simp: candidates_def)
      ultimately show ?thesis using cf n by auto
    qed
    finally show ?thesis .
  qed
  moreover have "b = id_byte e0 # b0" using auto c(3) by auto
  ultimately show ?thesis by simp
qed

end
