(* ===== verification/BitWords.thy ===== *)
theory BitWords
  imports BitIter
begin

text \<open>
  Bitmaps kept in 64-bit words, lowest bit first: the facts that the validity container of
  the encodings and the predicate bitmap of the vectors share, and the interface both
  provide, as the locale \<open>bit_vector\<close>.
\<close>

definition wbit :: "u64 list \<Rightarrow> nat \<Rightarrow> bool" where
  "wbit ws i \<longleftrightarrow> bit (ws ! (i div 64)) (i mod 64)"

text \<open>\<^verbatim>\<open>n.div_ceil(64)\<close>\<close>

definition words_for :: "nat \<Rightarrow> nat" where
  "words_for n = (n + 63) div 64"

text \<open>\<^verbatim>\<open>words[i / 64] |= 1 << (i % 64)\<close> and \<^verbatim>\<open>words[i / 64] &= !(1 << (i % 64))\<close>\<close>

definition or_bit :: "u64 list \<Rightarrow> nat \<Rightarrow> u64 list option" where
  "or_bit ws i = modify_at ws (i div 64) (\<lambda>w. w OR push_bit (i mod 64) 1)"

definition and_not_bit :: "u64 list \<Rightarrow> nat \<Rightarrow> u64 list option" where
  "and_not_bit ws i = modify_at ws (i div 64) (\<lambda>w. w AND NOT (push_bit (i mod 64) 1))"

text \<open>\<^verbatim>\<open>words[i / 64] >> (i % 64) & 1 == 1\<close>\<close>

definition test_bit :: "u64 list \<Rightarrow> nat \<Rightarrow> bool option" where
  "test_bit ws i = do { w \<leftarrow> idx ws (i div 64); Some (drop_bit (i mod 64) w AND 1 = 1) }"

definition count_words :: "u64 list \<Rightarrow> nat" where
  "count_words ws = sum_list (map count_ones ws)"

text \<open>No bit at or above \<open>n\<close> is set.\<close>

definition tail_zero :: "nat \<Rightarrow> u64 list \<Rightarrow> bool" where
  "tail_zero n ws \<longleftrightarrow> (\<forall>i. n \<le> i \<and> i < 64 * length ws \<longrightarrow> \<not> wbit ws i)"

lemma words_for_less: "i < n \<Longrightarrow> i div 64 < words_for n"
  unfolding words_for_def by (simp add: div_less_iff_less_mult)

lemma words_for_cover: "n \<le> 64 * words_for n"
  using div_mult_mod_eq [of "n + 63" 64] mod_less_divisor [of 64 "n + 63"]
  unfolding words_for_def by linarith

lemma and_1_eq_1: "(w :: u64) AND 1 = 1 \<longleftrightarrow> bit w 0"
  by (simp add: and_one_eq bit_0 odd_iff_mod_2_eq_one)

lemma test_bit_eq: "i div 64 < length ws \<Longrightarrow> test_bit ws i = Some (wbit ws i)"
  by (simp add: test_bit_def wbit_def and_1_eq_1 bit_drop_bit_eq)

lemma div_mod_64_eq: "i div 64 = j div 64 \<Longrightarrow> i mod 64 = j mod 64 \<Longrightarrow> i = (j::nat)"
  by (metis div_mult_mod_eq)

lemma bit_one_shift: "m < 64 \<Longrightarrow> bit (push_bit m 1 :: u64) k \<longleftrightarrow> k = m"
  by (auto simp: bit_exp_iff)

lemma or_bit_Some:
  assumes "i div 64 < length ws"
  obtains ws' where "or_bit ws i = Some ws'" "length ws' = length ws"
    "\<And>j. wbit ws' j \<longleftrightarrow> j = i \<or> wbit ws j"
proof
  let ?ws = "ws[i div 64 := ws ! (i div 64) OR push_bit (i mod 64) 1]"
  show "or_bit ws i = Some ?ws" using assms by (simp add: or_bit_def)
  show "length ?ws = length ws" by simp
  have "bit (push_bit (i mod 64) 1 :: u64) (j mod 64) \<longleftrightarrow> j mod 64 = i mod 64" for j
    by (rule bit_one_shift) simp
  then have new: "bit (ws ! (i div 64) OR push_bit (i mod 64) 1) (j mod 64) \<longleftrightarrow>
      bit (ws ! (i div 64)) (j mod 64) \<or> j mod 64 = i mod 64" for j
    by (simp only: bit_or_iff)
  show "wbit ?ws j \<longleftrightarrow> j = i \<or> wbit ws j" for j
  proof (cases "j div 64 = i div 64")
    case True
    then have "j mod 64 = i mod 64 \<longleftrightarrow> j = i" using div_mod_64_eq by blast
    then show ?thesis using True assms new [of j] unfolding wbit_def by simp blast
  next
    case False
    then show ?thesis unfolding wbit_def by auto
  qed
qed

lemma and_not_bit_Some:
  assumes "i div 64 < length ws"
  obtains ws' where "and_not_bit ws i = Some ws'" "length ws' = length ws"
    "\<And>j. j div 64 < length ws \<Longrightarrow> wbit ws' j \<longleftrightarrow> j \<noteq> i \<and> wbit ws j"
proof
  let ?ws = "ws[i div 64 := ws ! (i div 64) AND NOT (push_bit (i mod 64) 1)]"
  show "and_not_bit ws i = Some ?ws" using assms by (simp add: and_not_bit_def)
  show "length ?ws = length ws" by simp
  have "bit (push_bit (i mod 64) 1 :: u64) (j mod 64) \<longleftrightarrow> j mod 64 = i mod 64" for j
    by (rule bit_one_shift) simp
  then have new: "bit (ws ! (i div 64) AND NOT (push_bit (i mod 64) 1)) (j mod 64) \<longleftrightarrow>
      bit (ws ! (i div 64)) (j mod 64) \<and> j mod 64 \<noteq> i mod 64" for j
    unfolding bit_and_iff bit_not_iff by (simp only: possible_bit_word) simp
  show "wbit ?ws j \<longleftrightarrow> j \<noteq> i \<and> wbit ws j" for j
  proof (cases "j div 64 = i div 64")
    case True
    then have "j mod 64 = i mod 64 \<longleftrightarrow> j = i" using div_mod_64_eq by blast
    then show ?thesis using True assms new [of j] unfolding wbit_def by simp blast
  next
    case False
    then show ?thesis unfolding wbit_def by auto
  qed
qed

lemma card_block: "card {i. a \<le> i \<and> i < a + 64 \<and> bit (w::u64) (i - a)} = count_ones w"
proof -
  have "{i. a \<le> i \<and> i < a + 64 \<and> bit w (i - a)} = (\<lambda>i. a + i) ` {i. i < 64 \<and> bit w i}"
  proof (intro set_eqI iffI)
    fix x assume "x \<in> {i. a \<le> i \<and> i < a + 64 \<and> bit w (i - a)}"
    then show "x \<in> (\<lambda>i. a + i) ` {i. i < 64 \<and> bit w i}" by (intro image_eqI [of _ _ "x - a"]) auto
  qed auto
  moreover have "{i. i < 64 \<and> bit w i} = set (filter (bit w) [0..<64])" by auto
  ultimately show ?thesis
    by (simp add: card_image count_ones_def distinct_card [of "filter (bit w) [0..<64]", symmetric] del: set_filter)
qed

lemma count_words_snoc: "count_words (ws @ [w]) = count_words ws + count_ones w"
  by (simp add: count_words_def)

lemma count_words_card: "count_words ws = card {i. i < 64 * length ws \<and> wbit ws i}"
proof (induction ws rule: rev_induct)
  case Nil
  then show ?case by (simp add: count_words_def)
next
  case (snoc w ws)
  let ?n = "64 * length ws"
  have "{i. i < 64 * length (ws @ [w]) \<and> wbit (ws @ [w]) i} =
      {i. i < ?n \<and> wbit ws i} \<union> {i. ?n \<le> i \<and> i < ?n + 64 \<and> bit w (i - ?n)}"
  proof (intro set_eqI)
    fix i
    show "i \<in> {i. i < 64 * length (ws @ [w]) \<and> wbit (ws @ [w]) i} \<longleftrightarrow>
        i \<in> {i. i < ?n \<and> wbit ws i} \<union> {i. ?n \<le> i \<and> i < ?n + 64 \<and> bit w (i - ?n)}"
    proof (cases "i < ?n")
      case True
      then have "i div 64 < length ws" by (simp add: div_less_iff_less_mult)
      then show ?thesis using True by (simp add: wbit_def nth_append)
    next
      case False
      then obtain j where j: "i = ?n + j" by (metis le_iff_add not_less)
      then show ?thesis by (cases "j < 64") (simp_all add: wbit_def nth_append)
    qed
  qed
  moreover have "card ({i. i < ?n \<and> wbit ws i} \<union> {i. ?n \<le> i \<and> i < ?n + 64 \<and> bit w (i - ?n)}) =
      card {i. i < ?n \<and> wbit ws i} + card {i. ?n \<le> i \<and> i < ?n + 64 \<and> bit w (i - ?n)}"
    by (rule card_Un_disjoint) auto
  ultimately show ?case using snoc.IH by (simp add: count_words_snoc card_block)
qed

lemma count_words_below:
  assumes "tail_zero n ws" "n \<le> 64 * length ws"
  shows "count_words ws = card {i. i < n \<and> wbit ws i}"
proof -
  have "{i. i < 64 * length ws \<and> wbit ws i} = {i. i < n \<and> wbit ws i}"
    using assms by (auto simp: tail_zero_def not_less[symmetric])
  then show ?thesis by (simp add: count_words_card)
qed

text \<open>What the tail test of the decoders looks at: the last word above \<open>n mod 64\<close>.\<close>

lemma tail_zero_last:
  assumes len: "length ws = words_for n"
  shows "tail_zero n ws \<longleftrightarrow> n mod 64 = 0 \<or> last ws AND NOT (push_bit (n mod 64) 1 - 1) = 0"
proof (cases "n mod 64 = 0")
  case True
  then obtain k where "n = 64 * k" by (metis dvdE mod_eq_0_iff_dvd)
  then have "64 * length ws = n" unfolding len words_for_def by simp
  then show ?thesis using True by (auto simp: tail_zero_def)
next
  case False
  have "n = n div 64 * 64 + n mod 64" "0 < n mod 64" "n mod 64 < 64" using False by simp_all
  then have "(n + 63) div 64 = n div 64 + 1"
    unfolding div_eq_between [of 64 "n + 63" "n div 64 + 1", simplified] by linarith
  then have l: "length ws = n div 64 + 1" unfolding len words_for_def .
  then have "ws \<noteq> []" by auto
  then have last: "last ws = ws ! (n div 64)" by (simp add: last_conv_nth l)
  have m: "push_bit (n mod 64) 1 - 1 = (mask (n mod 64) :: u64)"
    by (simp add: mask_eq_exp_minus_1 push_bit_eq_mult)
  have "last ws AND NOT (mask (n mod 64)) = 0 \<longleftrightarrow> (\<forall>k. n mod 64 \<le> k \<and> k < 64 \<longrightarrow> \<not> bit (last ws) k)"
    by (auto simp: bit_eq_iff bit_simps not_less)
  also have "\<dots> \<longleftrightarrow> tail_zero n ws"
  proof
    assume a: "\<forall>k. n mod 64 \<le> k \<and> k < 64 \<longrightarrow> \<not> bit (last ws) k"
    show "tail_zero n ws" unfolding tail_zero_def
    proof (intro allI impI)
      fix i assume i: "n \<le> i \<and> i < 64 * length ws"
      then have d: "i div 64 = n div 64"
        unfolding div_eq_between [of 64 i "n div 64", simplified] using l div_mult_mod_eq [of n 64] by linarith
      then have "n mod 64 \<le> i mod 64"
        using i div_mult_mod_eq [of n 64] div_mult_mod_eq [of i 64] by linarith
      then show "\<not> wbit ws i" using a last d by (simp add: wbit_def)
    qed
  next
    assume t: "tail_zero n ws"
    show "\<forall>k. n mod 64 \<le> k \<and> k < 64 \<longrightarrow> \<not> bit (last ws) k"
    proof (intro allI impI)
      fix k assume k: "n mod 64 \<le> k \<and> k < 64"
      let ?i = "64 * (n div 64) + k"
      have "n = 64 * (n div 64) + n mod 64" by simp
      then have "n \<le> ?i" "?i < 64 * length ws" using k l by linarith+
      then have "\<not> wbit ws ?i" using t by (simp add: tail_zero_def)
      then show "\<not> bit (last ws) k" using k last by (simp add: wbit_def)
    qed
  qed
  finally show ?thesis using False m by simp
qed

subsection \<open>The interface\<close>

text \<open>
  A bitmap of a fixed length, as its clients see it: reading and writing a bit inside the
  length never panics, a write changes that bit only, and the count is the number of set
  bits.
\<close>

locale bit_vector =
  fixes wf :: "'v \<Rightarrow> bool"
    and bits :: "'v \<Rightarrow> nat"
    and get :: "'v \<Rightarrow> nat \<Rightarrow> bool option"
    and put1 :: "'v \<Rightarrow> nat \<Rightarrow> 'v option"
    and put0 :: "'v \<Rightarrow> nat \<Rightarrow> 'v option"
    and count :: "'v \<Rightarrow> nat"
  assumes get_total: "wf v \<Longrightarrow> i < bits v \<Longrightarrow> \<exists>b. get v i = Some b"
    and put1_law: "wf v \<Longrightarrow> i < bits v \<Longrightarrow> \<exists>v'. put1 v i = Some v' \<and> wf v' \<and> bits v' = bits v \<and>
      (\<forall>j < bits v. get v' j = (if j = i then Some True else get v j))"
    and put0_law: "wf v \<Longrightarrow> i < bits v \<Longrightarrow> \<exists>v'. put0 v i = Some v' \<and> wf v' \<and> bits v' = bits v \<and>
      (\<forall>j < bits v. get v' j = (if j = i then Some False else get v j))"
    and count_law: "wf v \<Longrightarrow> count v = card {i. i < bits v \<and> get v i = Some True}"
begin

lemma count_put1:
  assumes "wf v" "i < bits v" "put1 v i = Some v'"
  shows "count v' = (if get v i = Some True then count v else count v + 1)"
proof -
  have v': "wf v'" "bits v' = bits v" "\<forall>j < bits v. get v' j = (if j = i then Some True else get v j)"
    using put1_law [OF assms(1,2)] assms(3) by auto
  have "{j. j < bits v' \<and> get v' j = Some True} = insert i {j. j < bits v \<and> get v j = Some True}"
    using v' assms(2) by auto
  then show ?thesis using assms v'(1) by (simp add: count_law insert_absorb)
qed

lemma count_put0:
  assumes "wf v" "i < bits v" "put0 v i = Some v'"
  shows "count v' = (if get v i = Some True then count v - 1 else count v)"
proof -
  have v': "wf v'" "bits v' = bits v" "\<forall>j < bits v. get v' j = (if j = i then Some False else get v j)"
    using put0_law [OF assms(1,2)] assms(3) by auto
  have "{j. j < bits v' \<and> get v' j = Some True} = {j. j < bits v \<and> get v j = Some True} - {i}"
    using v' assms(2) by (auto split: if_splits)
  then show ?thesis using assms v'(1) by (simp add: count_law)
qed

lemma count_le: "wf v \<Longrightarrow> count v \<le> bits v"
  unfolding count_law by (rule order_trans [OF card_mono [of "{..<bits v}"]]) auto

end

end
