(* ===== verification/Validity.thy ===== *)
theory Validity
  imports BitWords
begin

text \<open>
  \<^verbatim>\<open>crates/zu-encoding/src/validity.rs\<close>: the validity bitmap of a segment and its
  container. A debug assertion that fails is a panic, as an index out of range is.
\<close>

record validity =
  v_len :: nat
  v_words :: "u64 list"

definition validity_wf :: "validity \<Rightarrow> bool" where
  "validity_wf v \<longleftrightarrow> length (v_words v) = words_for (v_len v) \<and> tail_zero (v_len v) (v_words v)"

definition clear_tail :: "validity \<Rightarrow> validity" where
  "clear_tail v =
     (let tail = v_len v mod 64
      in if tail \<noteq> 0 \<and> v_words v \<noteq> []
         then v\<lparr>v_words := (v_words v)[length (v_words v) - 1 := last (v_words v) AND (push_bit tail 1 - 1)]\<rparr>
         else v)"

definition new_all_valid :: "nat \<Rightarrow> validity" where
  "new_all_valid len = clear_tail \<lparr>v_len = len, v_words = replicate (words_for len) (- 1)\<rparr>"

definition new_all_null :: "nat \<Rightarrow> validity" where
  "new_all_null len = \<lparr>v_len = len, v_words = replicate (words_for len) 0\<rparr>"

definition v_set :: "validity \<Rightarrow> nat \<Rightarrow> validity option" where
  "v_set v i = (if i < v_len v then map_option (\<lambda>ws. v\<lparr>v_words := ws\<rparr>) (or_bit (v_words v) i) else None)"

definition v_unset :: "validity \<Rightarrow> nat \<Rightarrow> validity option" where
  "v_unset v i = (if i < v_len v then map_option (\<lambda>ws. v\<lparr>v_words := ws\<rparr>) (and_not_bit (v_words v) i) else None)"

definition v_get :: "validity \<Rightarrow> nat \<Rightarrow> bool option" where
  "v_get v i = (if i < v_len v then test_bit (v_words v) i else None)"

definition v_is_empty :: "validity \<Rightarrow> bool" where
  "v_is_empty v \<longleftrightarrow> v_len v = 0"

definition count_valid :: "validity \<Rightarrow> nat" where
  "count_valid v = count_words (v_words v)"

text \<open>The loop of \<^verbatim>\<open>from_bools\<close> from bit \<open>i\<close>.\<close>

fun set_bools :: "nat \<Rightarrow> bool list \<Rightarrow> validity \<Rightarrow> validity option" where
  "set_bools i [] v = Some v"
| "set_bools i (b # bs) v =
     (if b then do { v1 \<leftarrow> v_set v i; set_bools (Suc i) bs v1 } else set_bools (Suc i) bs v)"

definition from_bools :: "bool list \<Rightarrow> validity option" where
  "from_bools bs = set_bools 0 bs (new_all_null (length bs))"

definition validity_encode :: "validity \<Rightarrow> u8 list" where
  "validity_encode v = len_le (v_len v) @ len_le (count_valid v) @ concat (map u64_le (v_words v))"

definition validity_corrupt :: "string \<Rightarrow> zu_error" where
  "validity_corrupt detail = Corrupt ''validity'' detail"

definition validity_decode :: "u8 list \<Rightarrow> validity result" where
  "validity_decode bytes =
     (case get_range bytes 0 8 of
        None \<Rightarrow> Inl (validity_corrupt ''truncated header'')
      | Some header \<Rightarrow>
          let len = read_u32 (take 4 header);
              set_count = read_u32 (take 4 (drop 4 header));
              n_words = words_for len
          in case get_range bytes 8 (8 + n_words * 8) of
               None \<Rightarrow> Inl (validity_corrupt ''truncated body'')
             | Some body \<Rightarrow>
                 let v = \<lparr>v_len = len, v_words = le_words body\<rparr>
                 in if count_valid v \<noteq> set_count then Inl (validity_corrupt ''set_count mismatch'')
                    else if v_len v mod 64 \<noteq> 0 \<and> v_words v \<noteq> [] \<and>
                            last (v_words v) AND NOT (push_bit (v_len v mod 64) 1 - 1) \<noteq> 0
                    then Inl (validity_corrupt ''nonzero tail bits'')
                    else Inr v)"

subsection \<open>The bits\<close>

lemma wf_in_words: "validity_wf v \<Longrightarrow> i < v_len v \<Longrightarrow> i div 64 < length (v_words v)"
  by (simp add: validity_wf_def words_for_less)

lemma v_get_eq: "validity_wf v \<Longrightarrow> i < v_len v \<Longrightarrow> v_get v i = Some (wbit (v_words v) i)"
  by (simp add: v_get_def test_bit_eq wf_in_words)

interpretation validity_bits: bit_vector validity_wf v_len v_get v_set v_unset count_valid
proof unfold_locales
  fix v i assume v: "validity_wf v" "i < v_len v"
  show "\<exists>b. v_get v i = Some b" using v by (simp add: v_get_eq)
  have words: "validity_wf (v\<lparr>v_words := ws\<rparr>)"
    if "length ws = length (v_words v)" "\<And>j. j \<noteq> i \<Longrightarrow> wbit ws j \<Longrightarrow> j div 64 < length (v_words v) \<Longrightarrow> wbit (v_words v) j" for ws
    using that v by (fastforce simp: validity_wf_def tail_zero_def div_less_iff_less_mult)
  obtain w1 where w1: "or_bit (v_words v) i = Some w1" "length w1 = length (v_words v)"
      "\<And>j. wbit w1 j \<longleftrightarrow> j = i \<or> wbit (v_words v) j"
    by (rule or_bit_Some [OF wf_in_words [OF v]]) blast
  then have "validity_wf (v\<lparr>v_words := w1\<rparr>)" by (intro words) auto
  then show "\<exists>v'. v_set v i = Some v' \<and> validity_wf v' \<and> v_len v' = v_len v \<and>
      (\<forall>j < v_len v. v_get v' j = (if j = i then Some True else v_get v j))"
    using w1 v by (simp add: v_set_def v_get_eq)
  obtain w0 where w0: "and_not_bit (v_words v) i = Some w0" "length w0 = length (v_words v)"
      "\<And>j. j div 64 < length (v_words v) \<Longrightarrow> wbit w0 j \<longleftrightarrow> j \<noteq> i \<and> wbit (v_words v) j"
    by (rule and_not_bit_Some [OF wf_in_words [OF v]]) blast
  then have "validity_wf (v\<lparr>v_words := w0\<rparr>)" by (intro words) auto
  then show "\<exists>v'. v_unset v i = Some v' \<and> validity_wf v' \<and> v_len v' = v_len v \<and>
      (\<forall>j < v_len v. v_get v' j = (if j = i then Some False else v_get v j))"
    using w0 v wf_in_words [OF v(1)] by (simp add: v_unset_def v_get_eq)
next
  fix v assume v: "validity_wf v"
  then have "count_valid v = card {i. i < v_len v \<and> wbit (v_words v) i}"
    using words_for_cover [of "v_len v"]
    by (simp add: count_valid_def validity_wf_def count_words_below)
  also have "{i. i < v_len v \<and> wbit (v_words v) i} = {i. i < v_len v \<and> v_get v i = Some True}"
    using v by (auto simp: v_get_eq)
  finally show "count_valid v = card {i. i < v_len v \<and> v_get v i = Some True}" .
qed

lemma wbit_replicate_0: "wbit (replicate n 0) i \<Longrightarrow> i div 64 < n \<Longrightarrow> False"
  by (simp add: wbit_def)

lemma wf_new_all_null: "validity_wf (new_all_null n)"
  by (auto simp: validity_wf_def new_all_null_def tail_zero_def div_less_iff_less_mult dest!: wbit_replicate_0)

lemma set_bools_get:
  assumes "validity_wf v" "i + length bs = v_len v"
  shows "\<exists>v'. set_bools i bs v = Some v' \<and> validity_wf v' \<and> v_len v' = v_len v \<and>
    (\<forall>j < v_len v. v_get v' j = (if i \<le> j \<and> bs ! (j - i) then Some True else v_get v j))"
  using assms
proof (induction bs arbitrary: i v)
  case Nil
  then show ?case by auto
next
  case (Cons b bs)
  obtain v1 where v1: "set_bools i (b # bs) v = set_bools (Suc i) bs v1" "validity_wf v1" "v_len v1 = v_len v"
      "\<forall>j < v_len v. v_get v1 j = (if b \<and> j = i then Some True else v_get v j)"
  proof (cases b)
    case True
    obtain v1 where "v_set v i = Some v1" "validity_wf v1" "v_len v1 = v_len v"
        "\<forall>j < v_len v. v_get v1 j = (if j = i then Some True else v_get v j)"
      using validity_bits.put1_law [of v i] Cons.prems by auto
    then show thesis using True by (intro that [of v1]) auto
  qed (use Cons.prems in \<open>auto intro!: that [of v]\<close>)
  obtain v' where v': "set_bools (Suc i) bs v1 = Some v'" "validity_wf v'" "v_len v' = v_len v1"
      "\<forall>j < v_len v1. v_get v' j = (if Suc i \<le> j \<and> bs ! (j - Suc i) then Some True else v_get v1 j)"
    using Cons.IH [of v1 "Suc i"] v1 Cons.prems by auto
  have "v_get v' j = (if i \<le> j \<and> (b # bs) ! (j - i) then Some True else v_get v j)" if "j < v_len v" for j
  proof (cases "j = i")
    case False
    then show ?thesis using v1 v' that by (cases "i \<le> j") (auto simp: nth_Cons' Suc_le_eq)
  qed (use v1 v' that in auto)
  then show ?case using v1 v' by auto
qed

lemma new_all_valid_get: "validity_wf (new_all_valid n) \<and> (\<forall>i < n. v_get (new_all_valid n) i = Some True)"
proof -
  let ?ws = "replicate (words_for n) (- 1 :: u64)"
  have len: "length (v_words (new_all_valid n)) = words_for n" "v_len (new_all_valid n) = n"
    by (simp_all add: new_all_valid_def clear_tail_def Let_def)
  have m: "2 ^ k - 1 = (mask k :: u64)" for k
    by (simp add: mask_eq_exp_minus_1)
  have bits: "wbit (v_words (new_all_valid n)) i \<longleftrightarrow> i < n" if "i div 64 < words_for n" for i
  proof (cases "n mod 64 = 0")
    case True
    then obtain k where k: "n = 64 * k" by (metis dvdE mod_eq_0_iff_dvd)
    then have "words_for n = k" by (simp add: words_for_def)
    then show ?thesis using that k
      by (simp add: new_all_valid_def clear_tail_def wbit_def div_less_iff_less_mult)
  next
    case False
    have n: "n = n div 64 * 64 + n mod 64" "0 < n mod 64" "n mod 64 < 64" using False by simp_all
    then have wf: "words_for n = n div 64 + 1"
      unfolding words_for_def div_eq_between [of 64 "n + 63" "n div 64 + 1", simplified] by linarith
    then have ws: "v_words (new_all_valid n) = ?ws[n div 64 := mask (n mod 64)]"
      using False by (simp add: new_all_valid_def clear_tail_def Let_def m last_replicate del: replicate_Suc)
    show ?thesis
    proof (cases "i div 64 = n div 64")
      case True
      have "bit (mask (n mod 64) :: u64) (i mod 64) \<longleftrightarrow> i mod 64 < n mod 64"
        by (simp add: bit_mask_iff)
      moreover have "i mod 64 < n mod 64 \<longleftrightarrow> i < n"
        using True n(1) div_mult_mod_eq [of i 64] by linarith
      ultimately show ?thesis unfolding ws wbit_def True using that True by simp
    next
      case neq: False
      then have "i div 64 < n div 64" using that wf by simp
      then have "i < n" by (metis div_le_mono not_less)
      then show ?thesis unfolding ws wbit_def using neq that by simp
    qed
  qed
  have "tail_zero n (v_words (new_all_valid n))"
    unfolding tail_zero_def len using bits by (auto simp: div_less_iff_less_mult)
  then have wf: "validity_wf (new_all_valid n)" using len by (simp add: validity_wf_def)
  then show ?thesis using bits len by (simp add: v_get_eq words_for_less)
qed

subsection \<open>The container\<close>

lemma validity_roundtrip:
  assumes v: "validity_wf v" and small: "v_len v < 2 ^ 32"
  shows "validity_decode (validity_encode v @ rest) = Inr v"
proof -
  let ?body = "concat (map u64_le (v_words v))"
  have lw: "length (v_words v) = words_for (v_len v)" and tz: "tail_zero (v_len v) (v_words v)"
    using v by (simp_all add: validity_wf_def)
  have body: "length ?body = words_for (v_len v) * 8"
    using length_concat_uniform [of "map u64_le (v_words v)" 8] lw by simp
  have cnt: "count_valid v < 2 ^ 32" using validity_bits.count_le [OF v] small by simp
  have g1: "get_range (validity_encode v @ rest) 0 8 = Some (len_le (v_len v) @ len_le (count_valid v))"
    unfolding validity_encode_def
    using get_range_append1 [of "len_le (v_len v) @ len_le (count_valid v)" 8 "?body @ rest"] by simp
  have g2: "get_range (validity_encode v @ rest) 8 (8 + words_for (v_len v) * 8) = Some ?body"
    unfolding validity_encode_def
    using get_range_append [of "len_le (v_len v) @ len_le (count_valid v)" 8 "8 + words_for (v_len v) * 8" ?body rest] body
    by simp
  have ok: "\<not> (v_len v mod 64 \<noteq> 0 \<and> v_words v \<noteq> [] \<and>
      last (v_words v) AND NOT (push_bit (v_len v mod 64) 1 - 1) \<noteq> 0)"
    using tz unfolding tail_zero_last [OF lw] by auto
  have c: "count_valid \<lparr>v_len = v_len v, v_words = v_words v\<rparr> = count_valid v" by (simp add: count_valid_def)
  show ?thesis
    unfolding validity_decode_def g1
    using small cnt ok by (simp add: Let_def read_len_le g2 le_words_concat c)
qed

text \<open>Whatever the bytes, a bitmap that decodes is well formed.\<close>

lemma validity_decode_wf:
  assumes "validity_decode bytes = Inr v"
  shows "validity_wf v"
proof -
  obtain header body where h: "get_range bytes 0 8 = Some header"
      "get_range bytes 8 (8 + words_for (read_u32 (take 4 header)) * 8) = Some body"
      "v = \<lparr>v_len = read_u32 (take 4 header), v_words = le_words body\<rparr>"
      "\<not> (v_len v mod 64 \<noteq> 0 \<and> v_words v \<noteq> [] \<and> last (v_words v) AND NOT (push_bit (v_len v mod 64) 1 - 1) \<noteq> 0)"
    using assms unfolding validity_decode_def
    by (auto simp: Let_def split: option.splits if_splits)
  have lw: "length (v_words v) = words_for (v_len v)"
    using get_range_SomeD [OF h(2)] h(3) by (simp add: length_le_words)
  have "tail_zero (v_len v) (v_words v)"
  proof (cases "v_words v = []")
    case False
    then show ?thesis using h(4) unfolding tail_zero_last [OF lw] by auto
  qed (simp add: tail_zero_def)
  then show ?thesis using lw by (simp add: validity_wf_def)
qed

text \<open>The container is canonical: the bytes that decode are the bytes the bitmap encodes to.\<close>

lemma validity_decode_canonical:
  assumes "validity_decode bytes = Inr v"
  shows "\<exists>rest. bytes = validity_encode v @ rest"
proof -
  obtain header body where h: "get_range bytes 0 8 = Some header"
      "get_range bytes 8 (8 + words_for (read_u32 (take 4 header)) * 8) = Some body"
      "v = \<lparr>v_len = read_u32 (take 4 header), v_words = le_words body\<rparr>"
      "count_valid v = read_u32 (take 4 (drop 4 header))"
    using assms unfolding validity_decode_def
    by (auto simp: Let_def split: option.splits if_splits)
  have hd: "length header = 8" "header = take 8 bytes" "8 \<le> length bytes"
    using h(1) by (auto simp: get_range_def split: if_splits)
  have bd: "length body mod 8 = 0" "body = take (length body) (drop 8 bytes)"
    using h(2) by (auto simp: get_range_def split: if_splits)
  have "validity_encode v = take 4 header @ take 4 (drop 4 header) @ body"
    using hd(1) bd(1) h(3,4) by (simp add: validity_encode_def len_le_read concat_le_words)
  also have "\<dots> = header @ body" 
  proof -
    have "drop 4 header = take 4 (drop 4 header)" using hd(1) by simp
    then show ?thesis by (metis append.assoc append_take_drop_id)
  qed
  finally have "validity_encode v = take 8 bytes @ take (length body) (drop 8 bytes)" using hd(2) bd(2) by simp
  then have "validity_encode v @ drop (8 + length body) bytes = bytes"
    by (metis append.assoc append_take_drop_id drop_drop add.commute)
  then show ?thesis by metis
qed

end
