(* ===== verification/Fsst.thy ===== *)
theory Fsst
  imports ZuPrelude "HOL-Library.List_Lexorder" "HOL-Library.Product_Lexorder"
begin

text \<open>
  \<^verbatim>\<open>crates/zu-encoding/src/fsst.rs\<close>: the static symbol table compressor. The lookup
  index (a slot per byte, a chain per two-byte prefix), the training rounds, the table in
  a buffer's header, the encoder and the decoder are translated. The lemmas: the chains
  find the longest symbol at a position, training always returns a legal table, what any
  legal table encodes decodes to the same bytes, the header reads back the table, and
  arbitrary bytes decode to the claimed length or leave the vector as it was.

  The lookups by one byte and by two are arrays of every index in the code; here they are
  functions. The chain walk, the encode loop and the training loop are partial functions:
  that they return is proved.
\<close>

definition MAX_SYMBOLS :: nat where "MAX_SYMBOLS = 255"
definition MAX_SYMBOL_LEN :: nat where "MAX_SYMBOL_LEN = 8"
definition ESCAPE :: u8 where "ESCAPE = 255"
definition TRAIN_ROUNDS :: nat where "TRAIN_ROUNDS = 7"
definition SAMPLE_TARGET :: nat where "SAMPLE_TARGET = 65536"
definition NO_SYM :: u16 where "NO_SYM = - 1"

record fsst_index =
  fi_syms :: "u8 list list"
  fi_single :: "u8 \<Rightarrow> u16"
  fi_heads :: "nat \<Rightarrow> u16"
  fi_next :: "u16 list"

definition bucket :: "u8 \<Rightarrow> u8 \<Rightarrow> nat" where
  "bucket a b = push_bit 8 (unat a) OR unat b"

text \<open>The body of the loop over \<^verbatim>\<open>order\<close>.\<close>

definition index_insert :: "u8 list list \<Rightarrow> nat \<Rightarrow> (u8 \<Rightarrow> u16) \<times> (nat \<Rightarrow> u16) \<times> u16 list \<Rightarrow>
    ((u8 \<Rightarrow> u16) \<times> (nat \<Rightarrow> u16) \<times> u16 list) option" where
  "index_insert syms i st = (case st of (single, heads, next) \<Rightarrow> do {
     sym \<leftarrow> idx syms i;
     s0 \<leftarrow> idx sym 0;
     if length sym = 1 then Some (single(s0 := word_of_nat i), heads, next)
     else do {
       s1 \<leftarrow> idx sym 1;
       next1 \<leftarrow> modify_at next i (\<lambda>_. heads (bucket s0 s1));
       Some (single, heads(bucket s0 s1 := word_of_nat i), next1)
     }})"

definition index_new :: "u8 list list \<Rightarrow> fsst_index option" where
  "index_new syms =
     do {
       (single, heads, next) \<leftarrow>
         fold_opt (index_insert syms) (sort_key (\<lambda>i. length (syms ! i)) [0..<length syms])
           (\<lambda>_. NO_SYM, \<lambda>_. NO_SYM, replicate (length syms) NO_SYM);
       Some \<lparr>fi_syms = syms, fi_single = single, fi_heads = heads, fi_next = next\<rparr>
     }"

text \<open>The \<^verbatim>\<open>while i != NONE\<close> loop: the code and length of the first symbol on the chain
  that the input starts with.\<close>

partial_function (option) chain_match ::
    "u8 list list \<Rightarrow> u16 list \<Rightarrow> u8 list \<Rightarrow> u16 \<Rightarrow> (u8 \<times> nat) option option" where
  "chain_match syms next rest i =
     (if i = NO_SYM then Some None
      else do {
        sym \<leftarrow> idx syms (unat i);
        if starts_with rest sym then Some (Some (ucast i, length sym))
        else do { j \<leftarrow> idx next (unat i); chain_match syms next rest j }
      })"

definition best_match :: "fsst_index \<Rightarrow> u8 list \<Rightarrow> nat \<Rightarrow> (u8 \<times> nat) option option" where
  "best_match ix bytes pos =
     do {
       rest \<leftarrow> get_from bytes pos;
       hit \<leftarrow> (if length rest \<ge> 2
               then chain_match (fi_syms ix) (fi_next ix) rest (fi_heads ix (bucket (rest ! 0) (rest ! 1)))
               else Some None);
       (case hit of
          Some m \<Rightarrow> Some (Some m)
        | None \<Rightarrow> do {
            r0 \<leftarrow> idx rest 0;
            let code = fi_single ix r0 in
            Some (if code = NO_SYM then None else Some (ucast code, 1))
          })
     }"

subsection \<open>Training\<close>

record candidate =
  cand_bytes :: "u8 list"
  cand_len :: nat

definition candidate_new :: "u8 list \<Rightarrow> candidate option" where
  "candidate_new bytes =
     (if length bytes \<le> MAX_SYMBOL_LEN
      then Some \<lparr>cand_bytes = bytes @ replicate (MAX_SYMBOL_LEN - length bytes) 0, cand_len = length bytes\<rparr>
      else None)"

definition as_slice :: "candidate \<Rightarrow> u8 list" where
  "as_slice c = take (cand_len c) (cand_bytes c)"

definition sample :: "u8 list \<Rightarrow> u8 list" where
  "sample bytes =
     (if length bytes \<le> SAMPLE_TARGET then bytes
      else let chunk = 512; chunks = SAMPLE_TARGET div chunk; stride = length bytes div chunks
           in concat (map (\<lambda>i. take (min (length bytes) (i * stride + chunk) - i * stride)
                                   (drop (i * stride) bytes)) [0..<chunks]))"

text \<open>\<^verbatim>\<open>*gain.entry(c).or_insert(0) += n\<close>, the map as a list in the order of insertion.\<close>

fun add_gain :: "candidate \<Rightarrow> nat \<Rightarrow> (candidate \<times> nat) list \<Rightarrow> (candidate \<times> nat) list" where
  "add_gain c n [] = [(c, n)]"
| "add_gain c n ((d, m) # gs) = (if d = c then (d, m + n) # gs else (d, m) # add_gain c n gs)"

text \<open>The parse of one round from \<open>pos\<close>, with the previous match.\<close>

partial_function (option) train_parse ::
    "fsst_index \<Rightarrow> u8 list \<Rightarrow> nat \<Rightarrow> (nat \<times> nat) option \<Rightarrow> (candidate \<times> nat) list \<Rightarrow> (candidate \<times> nat) list option" where
  "train_parse ix smp pos prev gain =
     (if pos < length smp
      then do {
        m \<leftarrow> best_match ix smp pos;
        let len = (case m of None \<Rightarrow> 1 | Some (_, len) \<Rightarrow> len) in do {
        piece \<leftarrow> get_range smp pos (pos + len);
        c \<leftarrow> candidate_new piece;
        gain2 \<leftarrow> (case prev of
           None \<Rightarrow> Some (add_gain c len gain)
         | Some (p_pos, p_len) \<Rightarrow>
             if p_len + len \<le> MAX_SYMBOL_LEN
             then do { both \<leftarrow> get_range smp p_pos (pos + len); d \<leftarrow> candidate_new both;
                       Some (add_gain d (p_len + len) (add_gain c len gain)) }
             else Some (add_gain c len gain));
        train_parse ix smp (pos + len) (Some (pos, len)) gain2
      }}
      else Some gain)"

text \<open>
  The survivors. The comparison is a total order on the entries (the keys of the map are
  distinct), so selecting the first \<open>keep\<close> of them and sorting those is taking the first
  \<open>keep\<close> of the sorted entries, whatever order the hash map yields.
\<close>

definition survivors :: "(candidate \<times> nat) list \<Rightarrow> u8 list list" where
  "survivors gain =
     (let keep = min (length gain) MAX_SYMBOLS
      in map (\<lambda>(c, _). as_slice c) (take keep (sort_key (\<lambda>(c, n). (- int n, as_slice c)) gain)))"

fun train_rounds :: "nat \<Rightarrow> u8 list \<Rightarrow> u8 list list \<Rightarrow> u8 list list option" where
  "train_rounds 0 smp table = Some table"
| "train_rounds (Suc k) smp table =
     do {
       ix \<leftarrow> index_new table;
       gain \<leftarrow> train_parse ix smp 0 None [];
       train_rounds k smp (survivors gain)
     }"

definition train :: "u8 list \<Rightarrow> u8 list list option" where
  "train smp = train_rounds TRAIN_ROUNDS smp []"

subsection \<open>A table\<close>

definition table_train :: "u8 list \<Rightarrow> fsst_index option" where
  "table_train bytes = do { syms \<leftarrow> train (sample bytes); index_new syms }"

definition fsst_corrupt :: "string \<Rightarrow> zu_error" where
  "fsst_corrupt detail = Corrupt ''fsst'' detail"

text \<open>Cutting the symbol bytes by the lengths, \<^verbatim>\<open>syms[at..at + l]\<close>.\<close>

fun split_lens :: "u8 list \<Rightarrow> nat \<Rightarrow> u8 list \<Rightarrow> u8 list list option" where
  "split_lens [] at syms = Some []"
| "split_lens (l # ls) at syms =
     do { sym \<leftarrow> get_range syms at (at + unat l); rest \<leftarrow> split_lens ls (at + unat l) syms; Some (sym # rest) }"

definition bad_len :: "u8 \<Rightarrow> bool" where
  "bad_len l \<longleftrightarrow> l = 0 \<or> unat l > MAX_SYMBOL_LEN"

definition lens_total :: "u8 list \<Rightarrow> nat" where
  "lens_total lens = sum_list (map unat lens)"

definition table_read :: "u8 list \<Rightarrow> fsst_index result option" where
  "table_read bytes =
     (case get_range bytes 0 5 of
        None \<Rightarrow> Some (Inl (fsst_corrupt ''truncated header''))
      | Some header \<Rightarrow>
          let count = unat (header ! 4) in
          case get_range bytes 5 (5 + count) of
            None \<Rightarrow> Some (Inl (fsst_corrupt ''truncated symbol lengths''))
          | Some lens \<Rightarrow>
              if list_ex bad_len lens then Some (Inl (fsst_corrupt ''symbol length outside 1..=8''))
              else case get_range bytes (5 + count) (5 + count + lens_total lens) of
                     None \<Rightarrow> Some (Inl (fsst_corrupt ''truncated symbol bytes''))
                   | Some syms \<Rightarrow> do { table \<leftarrow> split_lens lens 0 syms; ix \<leftarrow> index_new table; Some (Inr ix) })"

definition header_len :: "fsst_index \<Rightarrow> nat" where
  "header_len ix = 5 + length (fi_syms ix) + sum_list (map length (fi_syms ix))"

partial_function (option) encode_codes :: "fsst_index \<Rightarrow> u8 list \<Rightarrow> nat \<Rightarrow> u8 list option" where
  "encode_codes ix bytes pos =
     (if pos < length bytes
      then do {
        m \<leftarrow> best_match ix bytes pos;
        (case m of
           Some (code, len) \<Rightarrow> do { rest \<leftarrow> encode_codes ix bytes (pos + len); Some (code # rest) }
         | None \<Rightarrow> do {
             b \<leftarrow> idx bytes pos;
             rest \<leftarrow> encode_codes ix bytes (pos + 1);
             Some (ESCAPE # b # rest)
           })
      }
      else Some [])"

definition table_encode :: "fsst_index \<Rightarrow> u8 list \<Rightarrow> u8 list option" where
  "table_encode ix bytes =
     do {
       codes \<leftarrow> encode_codes ix bytes 0;
       Some (len_le (length bytes) @ [word_of_nat (length (fi_syms ix))] @
             map (\<lambda>sym. word_of_nat (length sym)) (fi_syms ix) @ concat (fi_syms ix) @ codes)
     }"

definition fsst_encode :: "u8 list \<Rightarrow> u8 list option" where
  "fsst_encode bytes = do { ix \<leftarrow> table_train bytes; table_encode ix bytes }"

subsection \<open>Decoding\<close>

text \<open>The padded table: every symbol as eight bytes.\<close>

definition pad_syms :: "u8 list list \<Rightarrow> u8 list list" where
  "pad_syms syms = map (\<lambda>s. s @ replicate (MAX_SYMBOL_LEN - length s) 0) syms"

text \<open>
  The hot loop over the payload: \<open>dst\<close> is the sized window of the output and \<open>n\<close> the
  bytes written. It returns the error text of the first bad code, with \<open>n\<close> and the window
  as they are then.
\<close>

fun decode_codes :: "u8 list list \<Rightarrow> u8 list \<Rightarrow> u8 list \<Rightarrow> u8 list \<Rightarrow> nat \<Rightarrow> string option \<times> u8 list \<times> nat" where
  "decode_codes table tlen [] dst n = (None, dst, n)"
| "decode_codes table tlen (code # payload) dst n =
     (if unat code < length table
      then if n + MAX_SYMBOL_LEN \<le> length dst
           then decode_codes table tlen payload
                  (take n dst @ table ! unat code @ drop (n + MAX_SYMBOL_LEN) dst) (n + unat (tlen ! unat code))
           else (Some ''decoded past the claimed length'', dst, n)
      else if code = ESCAPE
      then (case payload of
              [] \<Rightarrow> (Some ''payload ends inside an escape'', dst, n)
            | literal # payload1 \<Rightarrow>
                if n < length dst
                then decode_codes table tlen payload1 (dst[n := literal]) (n + 1)
                else (Some ''decoded past the claimed length'', dst, n))
      else (Some ''code past the symbol count'', dst, n))"

definition fsst_decode :: "u8 list \<Rightarrow> nat \<Rightarrow> u8 list \<Rightarrow> (unit result \<times> u8 list) option" where
  "fsst_decode bytes max_bytes out =
     (case get_range bytes 0 5 of
        None \<Rightarrow> Some (Inl (fsst_corrupt ''truncated header''), out)
      | Some header \<Rightarrow>
          let raw_len = read_u32 (take 4 header); count = unat (header ! 4) in
          if raw_len > max_bytes then Some (Inl (fsst_corrupt ''length above the caller ceiling''), out)
          else case get_range bytes 5 (5 + count) of
            None \<Rightarrow> Some (Inl (fsst_corrupt ''truncated symbol lengths''), out)
          | Some lens \<Rightarrow>
              if list_ex bad_len lens then Some (Inl (fsst_corrupt ''symbol length outside 1..=8''), out)
              else case get_range bytes (5 + count) (5 + count + lens_total lens) of
                None \<Rightarrow> Some (Inl (fsst_corrupt ''truncated symbol bytes''), out)
              | Some syms \<Rightarrow> do {
                  payload \<leftarrow> get_from bytes (5 + count + lens_total lens);
                  table \<leftarrow> split_lens lens 0 syms;
                  Some (case decode_codes (pad_syms table) lens payload (replicate (raw_len + MAX_SYMBOL_LEN) 0) 0 of
                          (Some detail, dst, n) \<Rightarrow> (Inl (fsst_corrupt detail), out)
                        | (None, dst, n) \<Rightarrow>
                            if n \<noteq> raw_len
                            then (Inl (fsst_corrupt ''decoded length disagrees with the claim''), out)
                            else (Inr (), out @ take raw_len dst))
                })"

subsection \<open>The index\<close>

definition symbols_ok :: "u8 list list \<Rightarrow> bool" where
  "symbols_ok syms \<longleftrightarrow> length syms \<le> MAX_SYMBOLS \<and> (\<forall>s \<in> set syms. s \<noteq> [] \<and> length s \<le> MAX_SYMBOL_LEN)"

text \<open>The chain from \<open>h\<close> runs through the symbols \<open>is\<close>.\<close>

fun chain :: "u16 list \<Rightarrow> u16 \<Rightarrow> nat list \<Rightarrow> bool" where
  "chain next h [] \<longleftrightarrow> h = NO_SYM"
| "chain next h (i # is) \<longleftrightarrow> h = word_of_nat i \<and> i < length next \<and> chain next (next ! i) is"

definition in_bucket :: "u8 list list \<Rightarrow> nat \<Rightarrow> nat \<Rightarrow> bool" where
  "in_bucket syms b i \<longleftrightarrow> 2 \<le> length (syms ! i) \<and> bucket (syms ! i ! 0) (syms ! i ! 1) = b"

text \<open>What the loop has built after the symbols \<open>done\<close>.\<close>

definition indexed :: "u8 list list \<Rightarrow> nat list \<Rightarrow> (u8 \<Rightarrow> u16) \<times> (nat \<Rightarrow> u16) \<times> u16 list \<Rightarrow> bool" where
  "indexed syms done st \<longleftrightarrow> (case st of (single, heads, next) \<Rightarrow>
     length next = length syms \<and>
     (\<forall>b. chain next (heads b) (rev (filter (in_bucket syms b) done))) \<and>
     (\<forall>c. (single c = NO_SYM \<and> (\<forall>i \<in> set done. syms ! i \<noteq> [c])) \<or>
          (\<exists>i \<in> set done. single c = word_of_nat i \<and> syms ! i = [c])))"

lemma chain_update: "j \<notin> set is \<Longrightarrow> chain (next[j := x]) h is = chain next h is"
  by (induction "is" arbitrary: h) auto

lemma small_u16: "i < 65536 \<Longrightarrow> unat (word_of_nat i :: u16) = i"
  by (simp add: unat_of_nat take_bit_nat_eq_self)

lemma not_NO_SYM: "i < 65535 \<Longrightarrow> (word_of_nat i :: u16) \<noteq> NO_SYM"
proof
  assume "i < 65535" "(word_of_nat i :: u16) = NO_SYM"
  then have "i = unat NO_SYM" using small_u16 [of i] by simp
  also have "unat NO_SYM = 65535" by (simp add: NO_SYM_def unsigned_minus_1_eq_mask mask_eq_exp_minus_1)
  finally show False using \<open>i < 65535\<close> by simp
qed

lemma index_insert_step:
  assumes ok: "symbols_ok syms" and inv: "indexed syms done st" and i: "i < length syms" "i \<notin> set done"
  obtains st' where "index_insert syms i st = Some st'" "indexed syms (done @ [i]) st'"
proof -
  obtain single heads nx where st: "st = (single, heads, nx)" by (cases st)
  have len: "length nx = length syms"
    and ch: "\<And>b. chain nx (heads b) (rev (filter (in_bucket syms b) done))"
    and sg: "\<And>c. (single c = NO_SYM \<and> (\<forall>i \<in> set done. syms ! i \<noteq> [c])) \<or>
          (\<exists>i \<in> set done. single c = word_of_nat i \<and> syms ! i = [c])"
    using inv st by (auto simp: indexed_def)
  have ne: "syms ! i \<noteq> []" using ok i(1) by (auto simp: symbols_ok_def)
  show thesis
  proof (cases "length (syms ! i) = 1")
    case True
    then obtain c where c: "syms ! i = [c]" by (cases "syms ! i") auto
    have "\<not> in_bucket syms b i" for b using True by (simp add: in_bucket_def)
    then have "indexed syms (done @ [i]) (single(c := word_of_nat i), heads, nx)"
      using len ch sg c by (fastforce simp: indexed_def)
    moreover have "index_insert syms i st = Some (single(c := word_of_nat i), heads, nx)"
      using i c by (simp add: index_insert_def st idx_def)
    ultimately show thesis using that by blast
  next
    case False
    then have l2: "2 \<le> length (syms ! i)" using ne by (cases "syms ! i" rule: remdups_adj.cases) auto
    let ?b = "bucket (syms ! i ! 0) (syms ! i ! 1)"
    let ?next = "nx[i := heads ?b]" and ?heads = "heads(?b := word_of_nat i)"
    have "chain ?next (?heads b) (rev (filter (in_bucket syms b) (done @ [i])))" for b
    proof (cases "b = ?b")
      case True
      have "chain ?next (heads ?b) (rev (filter (in_bucket syms ?b) done))"
        using ch i(2) by (subst chain_update) auto
      then show ?thesis using True l2 i(1) len by (simp add: in_bucket_def)
    next
      case nb: False
      then have "chain ?next (heads b) (rev (filter (in_bucket syms b) done))"
        using ch i(2) by (subst chain_update) auto
      then show ?thesis using nb by (simp add: in_bucket_def)
    qed
    moreover have "(single c = NO_SYM \<and> (\<forall>j \<in> set (done @ [i]). syms ! j \<noteq> [c])) \<or>
          (\<exists>j \<in> set (done @ [i]). single c = word_of_nat j \<and> syms ! j = [c])" for c
      using sg [of c] l2 by auto
    ultimately have "indexed syms (done @ [i]) (single, ?heads, ?next)"
      using len by (simp add: indexed_def)
    moreover have "index_insert syms i st = Some (single, ?heads, ?next)"
      using i l2 len False ne by (simp add: index_insert_def st)
    ultimately show thesis using that by blast
  qed
qed

lemma index_loop:
  assumes ok: "symbols_ok syms" and inv: "indexed syms done st"
    and todo: "set todo \<subseteq> {..<length syms}" "distinct (done @ todo)"
  shows "\<exists>st'. fold_opt (index_insert syms) todo st = Some st' \<and> indexed syms (done @ todo) st'"
  using inv todo
proof (induction todo arbitrary: "done" st)
  case (Cons i todo)
  obtain st1 where "index_insert syms i st = Some st1" "indexed syms (done @ [i]) st1"
    by (rule index_insert_step [OF ok Cons.prems(1), of i]) (use Cons.prems in auto)
  then show ?case using Cons.IH [of "done @ [i]" st1] Cons.prems by auto
qed auto

definition index_ok :: "fsst_index \<Rightarrow> bool" where
  "index_ok ix \<longleftrightarrow> symbols_ok (fi_syms ix) \<and>
     indexed (fi_syms ix) (sort_key (\<lambda>i. length (fi_syms ix ! i)) [0..<length (fi_syms ix)])
       (fi_single ix, fi_heads ix, fi_next ix)"

lemma index_new_ok:
  assumes "symbols_ok syms"
  obtains ix where "index_new syms = Some ix" "fi_syms ix = syms" "index_ok ix"
proof -
  let ?order = "sort_key (\<lambda>i. length (syms ! i)) [0..<length syms]"
  have "indexed syms [] (\<lambda>_. NO_SYM, \<lambda>_. NO_SYM, replicate (length syms) NO_SYM)"
    by (simp add: indexed_def)
  then obtain st where st: "fold_opt (index_insert syms) ?order
       (\<lambda>_. NO_SYM, \<lambda>_. NO_SYM, replicate (length syms) NO_SYM) = Some st" "indexed syms ?order st"
    using index_loop [OF assms, of "[]" _ ?order] by (force simp: atLeast0LessThan)
  obtain single heads nx where "st = (single, heads, nx)" by (cases st)
  then show thesis using that st assms by (simp add: index_new_def index_ok_def)
qed

subsection \<open>The longest match\<close>

lemma chain_match_chain:
  assumes "chain next h is" "length next = length syms" "length syms \<le> MAX_SYMBOLS"
  shows "chain_match syms next rest h =
    Some (case filter (\<lambda>i. starts_with rest (syms ! i)) is of [] \<Rightarrow> None
          | i # _ \<Rightarrow> Some (word_of_nat i, length (syms ! i)))"
  using assms(1)
proof (induction "is" arbitrary: h)
  case Nil
  then show ?case by (subst chain_match.simps) simp
next
  case (Cons i "is")
  then have i: "h = word_of_nat i" "i < length syms" and ch: "chain next (next ! i) is"
    using assms(2) by auto
  then have n: "i < 255" using assms(3) by (simp add: MAX_SYMBOLS_def)
  then have u: "unat h = i" "h \<noteq> NO_SYM" "(ucast h :: u8) = word_of_nat i"
    using i(1) small_u16 [of i] not_NO_SYM [of i] by (simp_all add: unsigned_of_nat take_bit_nat_eq_self)
  then show ?case using i(2) ch Cons.IH assms(2)
    by (subst chain_match.simps) simp
qed

definition longest :: "u8 list list \<Rightarrow> u8 list \<Rightarrow> (u8 \<times> nat) option \<Rightarrow> bool" where
  "longest syms rest m \<longleftrightarrow> (case m of
     None \<Rightarrow> \<forall>s \<in> set syms. \<not> starts_with rest s
   | Some (code, len) \<Rightarrow> unat code < length syms \<and> len = length (syms ! unat code) \<and>
       starts_with rest (syms ! unat code) \<and> (\<forall>s \<in> set syms. starts_with rest s \<longrightarrow> length s \<le> len))"

lemma starts_with_length: "starts_with xs p \<Longrightarrow> length p \<le> length xs"
  unfolding starts_with_def by (metis length_take min.cobounded1)

lemma starts_with_nth: "starts_with xs p \<Longrightarrow> i < length p \<Longrightarrow> xs ! i = p ! i"
  unfolding starts_with_def by (metis nth_take)

lemma index_single:
  assumes ok: "index_ok ix" and c: "fi_single ix c \<noteq> NO_SYM"
  obtains i where "i < length (fi_syms ix)" "fi_single ix c = word_of_nat i" "fi_syms ix ! i = [c]"
  using assms unfolding index_ok_def indexed_def by (auto dest: spec [of _ c])

lemma index_no_single:
  assumes ok: "index_ok ix" and c: "fi_single ix c = NO_SYM"
  shows "[c] \<notin> set (fi_syms ix)"
proof
  assume "[c] \<in> set (fi_syms ix)"
  then obtain k where k: "k < length (fi_syms ix)" "fi_syms ix ! k = [c]" by (auto simp: in_set_conv_nth)
  have "\<exists>i < length (fi_syms ix). fi_single ix c = word_of_nat i"
    using ok k unfolding index_ok_def indexed_def by (auto dest!: spec [of _ c])
  moreover have "length (fi_syms ix) \<le> 255" using ok by (simp add: index_ok_def symbols_ok_def MAX_SYMBOLS_def)
  ultimately show False using c not_NO_SYM by fastforce
qed

lemma chain_hit:
  assumes ok: "index_ok ix" and l2: "2 \<le> length rest"
  obtains m where "chain_match (fi_syms ix) (fi_next ix) rest (fi_heads ix (bucket (rest ! 0) (rest ! 1))) = Some m"
    "m = None \<Longrightarrow> \<forall>s \<in> set (fi_syms ix). starts_with rest s \<longrightarrow> length s < 2"
    "m \<noteq> None \<Longrightarrow> longest (fi_syms ix) rest m"
proof -
  let ?syms = "fi_syms ix"
  let ?order = "sort_key (\<lambda>i. length (?syms ! i)) [0..<length ?syms]"
  let ?b = "bucket (rest ! 0) (rest ! 1)"
  let ?is = "rev (filter (in_bucket ?syms ?b) ?order)"
  let ?hits = "filter (\<lambda>i. starts_with rest (?syms ! i)) ?is"
  have n: "length ?syms \<le> 255" and len: "length (fi_next ix) = length ?syms"
    and ch: "chain (fi_next ix) (fi_heads ix ?b) ?is"
    using ok by (auto simp: index_ok_def indexed_def symbols_ok_def MAX_SYMBOLS_def)
  have cm: "chain_match ?syms (fi_next ix) rest (fi_heads ix ?b) =
      Some (case ?hits of [] \<Rightarrow> None | i # _ \<Rightarrow> Some (word_of_nat i, length (?syms ! i)))"
    using chain_match_chain [OF ch len] n by (simp add: MAX_SYMBOLS_def)
  have mem: "i \<in> set ?hits \<longleftrightarrow> i < length ?syms \<and> 2 \<le> length (?syms ! i) \<and> starts_with rest (?syms ! i)" for i
  proof -
    have "in_bucket ?syms ?b i" if "2 \<le> length (?syms ! i)" "starts_with rest (?syms ! i)"
    proof -
      have "rest ! 0 = ?syms ! i ! 0" "rest ! 1 = ?syms ! i ! 1"
        by (rule starts_with_nth [OF that(2)], use that(1) in linarith)+
      then show ?thesis using that(1) by (simp add: in_bucket_def)
    qed
    then show ?thesis by (auto simp: in_bucket_def)
  qed
  have "sorted (map (\<lambda>i. length (?syms ! i)) (filter (in_bucket ?syms ?b) ?order))"
    by (rule sorted_filter) simp
  then have "sorted_wrt (\<lambda>i j. length (?syms ! j) \<le> length (?syms ! i)) ?is"
    by (simp add: sorted_wrt_rev sorted_map)
  then have srt: "sorted_wrt (\<lambda>i j. length (?syms ! j) \<le> length (?syms ! i)) ?hits"
    by (rule sorted_wrt_filter)
  show thesis
  proof (cases ?hits)
    case Nil
    have "length s < 2" if s: "s \<in> set ?syms" "starts_with rest s" for s
    proof -
      obtain k where "k < length ?syms" "s = ?syms ! k" using s(1) by (metis in_set_conv_nth)
      moreover have "k \<notin> set ?hits" unfolding Nil by simp
      ultimately show ?thesis using mem [of k] s(2) by auto
    qed
    then show thesis using cm Nil by (intro that [of None]) auto
  next
    case (Cons i js)
    have i: "i < length ?syms" "2 \<le> length (?syms ! i)" "starts_with rest (?syms ! i)"
      using mem [of i] Cons by (metis list.set_intros(1))+
    have "length s \<le> length (?syms ! i)" if s: "s \<in> set ?syms" "starts_with rest s" for s
    proof -
      obtain k where k: "k < length ?syms" "s = ?syms ! k" using s(1) by (metis in_set_conv_nth)
      show ?thesis
      proof (cases "2 \<le> length s")
        case True
        then have "k \<in> set (i # js)" using mem [of k] k s(2) Cons by metis
        then show ?thesis using srt Cons k by auto
      qed (use i in simp)
    qed
    moreover have "unat (word_of_nat i :: u8) = i" using i(1) n by (simp add: unat_of_nat take_bit_nat_eq_self)
    ultimately have "longest ?syms rest (Some (word_of_nat i, length (?syms ! i)))"
      using i by (simp add: longest_def)
    then show thesis using cm Cons by (intro that [of "Some (word_of_nat i, length (?syms ! i))"]) auto
  qed
qed

lemma best_match_longest:
  assumes ok: "index_ok ix" and pos: "pos < length bytes"
  obtains m where "best_match ix bytes pos = Some m" "longest (fi_syms ix) (drop pos bytes) m"
proof -
  let ?rest = "drop pos bytes" and ?syms = "fi_syms ix"
  have ne: "?rest \<noteq> []" using pos by simp
  have one: "longest ?syms ?rest (if fi_single ix (?rest ! 0) = NO_SYM then None
      else Some (ucast (fi_single ix (?rest ! 0)), 1))"
    if short: "\<forall>s \<in> set ?syms. starts_with ?rest s \<longrightarrow> length s < 2"
  proof -
    have s1: "s = [?rest ! 0]" if "s \<in> set ?syms" "starts_with ?rest s" for s
    proof -
      have "s \<noteq> []" "length s < 2" using that ok short by (auto simp: index_ok_def symbols_ok_def)
      then obtain x where "s = [x]" by (cases s) auto
      then show ?thesis using starts_with_nth [OF that(2), of 0] by simp
    qed
    show ?thesis
    proof (cases "fi_single ix (?rest ! 0) = NO_SYM")
      case True
      then show ?thesis using index_no_single [OF ok True] s1 by (auto simp: longest_def)
    next
      case False
      obtain i where i: "i < length ?syms" "fi_single ix (?rest ! 0) = word_of_nat i" "?syms ! i = [?rest ! 0]"
        by (rule index_single [OF ok False])
      have "length ?syms \<le> 255" using ok by (simp add: index_ok_def symbols_ok_def MAX_SYMBOLS_def)
      then have u: "unat (ucast (fi_single ix (?rest ! 0)) :: u8) = i"
        using i(1,2) by (simp add: unsigned_of_nat unat_of_nat take_bit_nat_eq_self)
      have "starts_with ?rest [?rest ! 0]" using ne by (simp add: starts_with_def take_Suc hd_conv_nth)
      moreover have "length s \<le> 1" if "s \<in> set ?syms" "starts_with ?rest s" for s
        using s1 [OF that] by simp
      ultimately show ?thesis using False u i unfolding longest_def by simp
    qed
  qed
  have r0: "idx ?rest 0 = Some (?rest ! 0)" using ne by (simp add: idx_def)
  have g: "get_from bytes pos = Some ?rest" using pos by (simp add: get_from_def)
  show thesis
  proof (cases "2 \<le> length ?rest")
    case True
    have "\<exists>m. chain_match ?syms (fi_next ix) ?rest (fi_heads ix (bucket (?rest ! 0) (?rest ! 1))) = Some m \<and>
        (m = None \<longrightarrow> (\<forall>s \<in> set ?syms. starts_with ?rest s \<longrightarrow> length s < 2)) \<and>
        (m \<noteq> None \<longrightarrow> longest ?syms ?rest m)"
      by (rule chain_hit [OF ok True]) blast
    then obtain m where m: "chain_match ?syms (fi_next ix) ?rest (fi_heads ix (bucket (?rest ! 0) (?rest ! 1))) = Some m"
        "m = None \<Longrightarrow> \<forall>s \<in> set ?syms. starts_with ?rest s \<longrightarrow> length s < 2"
        "m \<noteq> None \<Longrightarrow> longest ?syms ?rest m"
      by blast
    show thesis
    proof (cases m)
      case None
      show thesis by (rule that [OF _ one [OF m(2) [OF None]]]) (use True m(1) None r0 g in \<open>simp add: best_match_def Let_def\<close>)
    next
      case (Some x)
      show thesis by (rule that [OF _ m(3)]) (use True m(1) Some g in \<open>simp_all add: best_match_def\<close>)
    qed
  next
    case False
    then have "\<forall>s \<in> set ?syms. starts_with ?rest s \<longrightarrow> length s < 2"
      using starts_with_length [of ?rest] by fastforce
    show thesis by (rule that [OF _ one]) (use False r0 g \<open>\<forall>s \<in> set ?syms. _ s\<close> in \<open>simp_all add: best_match_def Let_def\<close>)
  qed
qed

subsection \<open>The round trip\<close>

lemma match_step:
  assumes ok: "symbols_ok syms" and m: "longest syms (drop pos bytes) (Some (code, len))"
  shows "unat code < length syms" "1 \<le> len" "len \<le> MAX_SYMBOL_LEN" "pos + len \<le> length bytes"
    "length (syms ! unat code) = len" "take (pos + len) bytes = take pos bytes @ syms ! unat code"
proof -
  show c: "unat code < length syms" and l: "length (syms ! unat code) = len"
    using m by (auto simp: longest_def)
  have sw: "starts_with (drop pos bytes) (syms ! unat code)" using m by (simp add: longest_def)
  have "syms ! unat code \<in> set syms" using c by simp
  then have "syms ! unat code \<noteq> []" "len \<le> MAX_SYMBOL_LEN" using ok l by (auto simp: symbols_ok_def)
  then show "1 \<le> len" "len \<le> MAX_SYMBOL_LEN" using l by (cases "syms ! unat code"; simp)+
  then show "pos + len \<le> length bytes" using starts_with_length [OF sw] l by simp
  show "take (pos + len) bytes = take pos bytes @ syms ! unat code"
    using sw l by (simp add: starts_with_def take_add)
qed

lemma pad_syms_nth:
  assumes "symbols_ok syms" "i < length syms"
  shows "length (pad_syms syms ! i) = MAX_SYMBOL_LEN" "take (length (syms ! i)) (pad_syms syms ! i) = syms ! i"
  using assms by (auto simp: pad_syms_def symbols_ok_def)

lemma codes_roundtrip:
  assumes ok: "index_ok ix"
  shows "pos \<le> length bytes \<Longrightarrow> \<exists>codes. encode_codes ix bytes pos = Some codes \<and>
    (\<forall>dst. length dst = length bytes + MAX_SYMBOL_LEN \<longrightarrow> take pos dst = take pos bytes \<longrightarrow>
       (\<exists>dst'. decode_codes (pad_syms (fi_syms ix)) (map (\<lambda>s. word_of_nat (length s)) (fi_syms ix)) codes dst pos =
           (None, dst', length bytes) \<and> take (length bytes) dst' = bytes))"
proof (induction "length bytes - pos" arbitrary: pos rule: less_induct)
  case less
  let ?syms = "fi_syms ix"
  let ?tlen = "map (\<lambda>s. word_of_nat (length s)) ?syms :: u8 list"
  have sok: "symbols_ok ?syms" using ok by (simp add: index_ok_def)
  show ?case
  proof (cases "pos = length bytes")
    case True
    then show ?thesis by (subst encode_codes.simps) auto
  next
    case False
    then have pos: "pos < length bytes" using less.prems by simp
    obtain m where m: "best_match ix bytes pos = Some m" "longest ?syms (drop pos bytes) m"
      by (rule best_match_longest [OF ok pos])
    show ?thesis
    proof (cases m)
      case (Some x)
      obtain code len where x: "x = (code, len)" by (cases x)
      note st = match_step [OF sok m(2) [unfolded Some x]]
      have "length bytes - (pos + len) < length bytes - pos" using st(2) pos by simp
      from less.hyps [OF this st(4)] obtain codes where
        codes: "encode_codes ix bytes (pos + len) = Some codes" and
        dec: "\<And>dst. length dst = length bytes + MAX_SYMBOL_LEN \<Longrightarrow> take (pos + len) dst = take (pos + len) bytes \<Longrightarrow>
           \<exists>dst'. decode_codes (pad_syms ?syms) ?tlen codes dst (pos + len) = (None, dst', length bytes) \<and>
             take (length bytes) dst' = bytes"
        by blast
      have e: "encode_codes ix bytes pos = Some (code # codes)"
        using pos m(1) Some x codes by (subst encode_codes.simps) simp
      have tl: "unat (?tlen ! unat code) = len"
        using st(1,3,5) by (simp add: unat_of_nat take_bit_nat_eq_self MAX_SYMBOL_LEN_def)
      have "\<exists>dst'. decode_codes (pad_syms ?syms) ?tlen (code # codes) dst pos = (None, dst', length bytes) \<and>
             take (length bytes) dst' = bytes"
        if dst: "length dst = length bytes + MAX_SYMBOL_LEN" "take pos dst = take pos bytes" for dst
      proof -
        let ?dst = "take pos dst @ pad_syms ?syms ! unat code @ drop (pos + MAX_SYMBOL_LEN) dst"
        have "length ?dst = length bytes + MAX_SYMBOL_LEN"
          using dst pos pad_syms_nth [OF sok st(1)] by simp
        moreover have "take (pos + len) ?dst = take (pos + len) bytes"
          using dst pos pad_syms_nth [OF sok st(1)] st by (simp add: take_add)
        ultimately obtain dst' where
          "decode_codes (pad_syms ?syms) ?tlen codes ?dst (pos + len) = (None, dst', length bytes)"
          "take (length bytes) dst' = bytes"
          using dec by blast
        moreover have "length (pad_syms ?syms) = length ?syms" by (simp add: pad_syms_def)
        ultimately show ?thesis using st(1) dst pos tl by simp
      qed
      then show ?thesis using e by blast
    next
      case None
      have "length bytes - (pos + 1) < length bytes - pos" "pos + 1 \<le> length bytes" using pos by simp_all
      from less.hyps [OF this] obtain codes where
        codes: "encode_codes ix bytes (pos + 1) = Some codes" and
        dec: "\<And>dst. length dst = length bytes + MAX_SYMBOL_LEN \<Longrightarrow> take (pos + 1) dst = take (pos + 1) bytes \<Longrightarrow>
           \<exists>dst'. decode_codes (pad_syms ?syms) ?tlen codes dst (pos + 1) = (None, dst', length bytes) \<and>
             take (length bytes) dst' = bytes"
        by blast
      have e: "encode_codes ix bytes pos = Some (ESCAPE # bytes ! pos # codes)"
        using pos m(1) None codes by (subst encode_codes.simps) simp
      have "length ?syms \<le> 255" using sok by (simp add: symbols_ok_def MAX_SYMBOLS_def)
      then have esc: "\<not> unat ESCAPE < length (pad_syms ?syms)" by (simp add: pad_syms_def ESCAPE_def)
      have "\<exists>dst'. decode_codes (pad_syms ?syms) ?tlen (ESCAPE # bytes ! pos # codes) dst pos = (None, dst', length bytes) \<and>
             take (length bytes) dst' = bytes"
        if dst: "length dst = length bytes + MAX_SYMBOL_LEN" "take pos dst = take pos bytes" for dst
      proof -
        let ?dst = "dst[pos := bytes ! pos]"
        have "take (pos + 1) ?dst = take (pos + 1) bytes"
          using dst pos by (simp add: take_Suc_conv_app_nth)
        then obtain dst' where
          "decode_codes (pad_syms ?syms) ?tlen codes ?dst (pos + 1) = (None, dst', length bytes)"
          "take (length bytes) dst' = bytes"
          using dec [of ?dst] dst by auto
        then show ?thesis using esc dst pos by simp
      qed
      then show ?thesis using e by blast
    qed
  qed
qed

lemma split_lens_concat:
  assumes "\<forall>s \<in> set syms. length s < 256"
  shows "split_lens (map (\<lambda>s. word_of_nat (length s)) syms) (length pre) (pre @ concat syms @ post) = Some syms"
  using assms
proof (induction syms arbitrary: pre)
  case (Cons s syms)
  have "unat (word_of_nat (length s) :: u8) = length s"
    using Cons.prems by (simp add: unat_of_nat take_bit_nat_eq_self)
  moreover have "get_range (pre @ concat (s # syms) @ post) (length pre) (length pre + length s) = Some s"
    using get_range_append [of pre "length pre" "length pre + length s" s "concat syms @ post"] by simp
  ultimately show ?case using Cons.IH [of "pre @ s"] Cons.prems by simp
qed simp

lemma lens_of_symbols:
  assumes "symbols_ok syms"
  shows "\<not> list_ex bad_len (map (\<lambda>s. word_of_nat (length s)) syms)"
    "lens_total (map (\<lambda>s. word_of_nat (length s)) syms) = length (concat syms)"
proof -
  have u: "unat (word_of_nat (length s) :: u8) = length s" "length s \<noteq> 0" "length s \<le> MAX_SYMBOL_LEN" if "s \<in> set syms" for s
    using that assms by (auto simp: symbols_ok_def MAX_SYMBOL_LEN_def unat_of_nat take_bit_nat_eq_self)
  show "\<not> list_ex bad_len (map (\<lambda>s. word_of_nat (length s)) syms)"
    using u by (fastforce simp: list_ex_iff bad_len_def)
  show "lens_total (map (\<lambda>s. word_of_nat (length s)) syms) = length (concat syms)"
    unfolding lens_total_def length_concat map_map o_def using u(1) by (metis (no_types, lifting) map_eq_conv)
qed

lemma table_encode_Some:
  assumes ok: "index_ok ix"
  obtains codes where "encode_codes ix bytes 0 = Some codes"
    "table_encode ix bytes = Some (len_le (length bytes) @ [word_of_nat (length (fi_syms ix))] @
       map (\<lambda>s. word_of_nat (length s)) (fi_syms ix) @ concat (fi_syms ix) @ codes)"
    "\<And>dst. length dst = length bytes + MAX_SYMBOL_LEN \<Longrightarrow>
       \<exists>dst'. decode_codes (pad_syms (fi_syms ix)) (map (\<lambda>s. word_of_nat (length s)) (fi_syms ix)) codes dst 0 =
           (None, dst', length bytes) \<and> take (length bytes) dst' = bytes"
  using codes_roundtrip [OF ok, of 0 bytes] by (auto simp: table_encode_def)

text \<open>The parts of an encoded buffer.\<close>

lemma encoded_parts:
  assumes ok: "index_ok ix" and b: "b = len_le n @ [word_of_nat (length (fi_syms ix))] @
       map (\<lambda>s. word_of_nat (length s)) (fi_syms ix) @ concat (fi_syms ix) @ codes"
    and hd: "hd5 = len_le n @ [word_of_nat (length (fi_syms ix))]"
    and lens: "lens = map (\<lambda>s. word_of_nat (length s)) (fi_syms ix)"
  shows "get_range b 0 5 = Some hd5" "unat (hd5 ! 4) = length (fi_syms ix)" "take 4 hd5 = len_le n"
    "get_range b 5 (5 + length (fi_syms ix)) = Some lens"
    "get_range b (5 + length (fi_syms ix)) (5 + length (fi_syms ix) + lens_total lens) = Some (concat (fi_syms ix))"
    "get_from b (5 + length (fi_syms ix) + lens_total lens) = Some codes"
    "split_lens lens 0 (concat (fi_syms ix)) = Some (fi_syms ix)"
proof -
  let ?syms = "fi_syms ix"
  have sok: "symbols_ok ?syms" using ok by (simp add: index_ok_def)
  have bb: "b = hd5 @ lens @ concat ?syms @ codes" by (simp add: b hd lens)
  have l5: "length hd5 = 5" by (simp add: hd)
  have tot: "lens_total lens = length (concat ?syms)" unfolding lens by (rule lens_of_symbols(2) [OF sok])
  show "get_range b 0 5 = Some hd5" unfolding bb by (rule get_range_append1 [OF l5])
  have "length ?syms < 256" using sok by (simp add: symbols_ok_def MAX_SYMBOLS_def)
  then show "unat (hd5 ! 4) = length ?syms" by (simp add: hd nth_append unat_of_nat take_bit_nat_eq_self)
  show "take 4 hd5 = len_le n" by (simp add: hd)
  show "get_range b 5 (5 + length ?syms) = Some lens" unfolding bb
    by (rule get_range_append) (simp_all add: l5 lens)
  have "length (hd5 @ lens) = 5 + length ?syms" by (simp add: l5 lens)
  then show "get_range b (5 + length ?syms) (5 + length ?syms + lens_total lens) = Some (concat ?syms)"
    using get_range_append [of "hd5 @ lens" "5 + length ?syms" _ "concat ?syms" codes] unfolding bb by (simp add: tot)
  show "get_from b (5 + length ?syms + lens_total lens) = Some codes"
    using get_from_append [of "hd5 @ lens @ concat ?syms" "5 + length ?syms + lens_total lens" codes] unfolding bb
    by (simp add: l5 lens tot [unfolded lens])
  have "\<forall>s \<in> set ?syms. length s < 256" using sok by (auto simp: symbols_ok_def MAX_SYMBOL_LEN_def)
  then show "split_lens lens 0 (concat ?syms) = Some ?syms"
    using split_lens_concat [of ?syms "[]" "[]"] by (simp add: lens)
qed

lemma fsst_table_roundtrip:
  assumes ok: "index_ok ix" and enc: "table_encode ix bytes = Some b" and len: "length bytes < 2 ^ 32" "length bytes \<le> max_bytes"
  shows "fsst_decode b max_bytes out = Some (Inr (), out @ bytes)"
proof -
  let ?syms = "fi_syms ix"
  obtain codes where c: "table_encode ix bytes = Some (len_le (length bytes) @ [word_of_nat (length ?syms)] @
       map (\<lambda>s. word_of_nat (length s)) ?syms @ concat ?syms @ codes)"
    "\<And>dst. length dst = length bytes + MAX_SYMBOL_LEN \<Longrightarrow>
       \<exists>dst'. decode_codes (pad_syms ?syms) (map (\<lambda>s. word_of_nat (length s)) ?syms) codes dst 0 =
           (None, dst', length bytes) \<and> take (length bytes) dst' = bytes"
    by (rule table_encode_Some [OF ok]) blast
  have b: "b = len_le (length bytes) @ [word_of_nat (length ?syms)] @
       map (\<lambda>s. word_of_nat (length s)) ?syms @ concat ?syms @ codes" using c(1) enc by simp
  note p = encoded_parts [OF ok b refl refl]
  obtain dst' where d: "decode_codes (pad_syms ?syms) (map (\<lambda>s. word_of_nat (length s)) ?syms) codes
      (replicate (length bytes + MAX_SYMBOL_LEN) 0) 0 = (None, dst', length bytes)" "take (length bytes) dst' = bytes"
    using c(2) [of "replicate (length bytes + MAX_SYMBOL_LEN) 0"] by auto
  have "symbols_ok ?syms" using ok by (simp add: index_ok_def)
  note l = lens_of_symbols(1) [OF this]
  show ?thesis
    unfolding fsst_decode_def p(1) option.case Let_def p(2,3) p(4) using len l
    by (simp add: read_len_le p(5-7) d)
qed

lemma fsst_table_read:
  assumes ok: "index_ok ix" and enc: "table_encode ix bytes = Some b"
  shows "table_read b = map_option Inr (index_new (fi_syms ix))"
proof -
  let ?syms = "fi_syms ix"
  obtain codes where c: "table_encode ix bytes = Some (len_le (length bytes) @ [word_of_nat (length ?syms)] @
       map (\<lambda>s. word_of_nat (length s)) ?syms @ concat ?syms @ codes)"
    by (rule table_encode_Some [OF ok]) blast
  have b: "b = len_le (length bytes) @ [word_of_nat (length ?syms)] @
       map (\<lambda>s. word_of_nat (length s)) ?syms @ concat ?syms @ codes" using c enc by simp
  note p = encoded_parts [OF ok b refl refl]
  have "symbols_ok ?syms" using ok by (simp add: index_ok_def)
  note l = lens_of_symbols(1) [OF this]
  show ?thesis
    unfolding table_read_def p(1) option.case Let_def p(2) p(4) using l
    by (cases "index_new ?syms") (simp_all add: p(5-7))
qed

subsection \<open>Training\<close>

definition cand_ok :: "candidate \<Rightarrow> bool" where
  "cand_ok c \<longleftrightarrow> 1 \<le> cand_len c \<and> cand_len c \<le> MAX_SYMBOL_LEN \<and> length (cand_bytes c) = MAX_SYMBOL_LEN"

lemma candidate_new_ok:
  assumes "1 \<le> length bs" "length bs \<le> MAX_SYMBOL_LEN"
  obtains c where "candidate_new bs = Some c" "cand_ok c" "as_slice c = bs"
  using assms by (auto simp: candidate_new_def cand_ok_def as_slice_def)

lemma add_gain_ok: "\<forall>g \<in> set gain. cand_ok (fst g) \<Longrightarrow> cand_ok c \<Longrightarrow> \<forall>g \<in> set (add_gain c n gain). cand_ok (fst g)"
  by (induction c n gain rule: add_gain.induct) auto

lemma train_parse_ok:
  assumes ok: "index_ok ix"
  shows "pos \<le> length smp \<Longrightarrow> (\<forall>g \<in> set gain. cand_ok (fst g)) \<Longrightarrow>
    (\<forall>p l. prev = Some (p, l) \<longrightarrow> p + l = pos \<and> 1 \<le> l) \<Longrightarrow>
    \<exists>gain'. train_parse ix smp pos prev gain = Some gain' \<and> (\<forall>g \<in> set gain'. cand_ok (fst g))"
proof (induction "length smp - pos" arbitrary: pos prev gain rule: less_induct)
  case less
  have sok: "symbols_ok (fi_syms ix)" using ok by (simp add: index_ok_def)
  show ?case
  proof (cases "pos < length smp")
    case False
    then show ?thesis using less.prems by (subst train_parse.simps) simp
  next
    case True
    obtain m where m: "best_match ix smp pos = Some m" "longest (fi_syms ix) (drop pos smp) m"
      by (rule best_match_longest [OF ok True])
    define len where "len = (case m of None \<Rightarrow> 1 | Some (_, len) \<Rightarrow> len)"
    have len: "1 \<le> len" "len \<le> MAX_SYMBOL_LEN" "pos + len \<le> length smp"
      using match_step(2-4) [OF sok, of pos smp] m(2) True
      by (auto simp: len_def MAX_SYMBOL_LEN_def split: option.splits)
    obtain c where c: "candidate_new (take len (drop pos smp)) = Some c" "cand_ok c"
      by (rule candidate_new_ok [of "take len (drop pos smp)"]) (use len in auto)
    have piece: "get_range smp pos (pos + len) = Some (take len (drop pos smp))"
      using len by (simp add: get_range_def)
    let ?g1 = "add_gain c len gain"
    have g1: "\<forall>g \<in> set ?g1. cand_ok (fst g)" by (rule add_gain_ok [OF less.prems(2) c(2)])
    obtain gain2 where g2: "(case prev of
           None \<Rightarrow> Some ?g1
         | Some (p_pos, p_len) \<Rightarrow>
             if p_len + len \<le> MAX_SYMBOL_LEN
             then do { both \<leftarrow> get_range smp p_pos (pos + len); d \<leftarrow> candidate_new both;
                       Some (add_gain d (p_len + len) ?g1) }
             else Some ?g1) = Some gain2" "\<forall>g \<in> set gain2. cand_ok (fst g)"
    proof (cases "\<exists>p l. prev = Some (p, l) \<and> l + len \<le> MAX_SYMBOL_LEN")
      case False
      then show thesis using that [of ?g1] g1 by (auto split: option.splits)
    next
      case has: True
      then obtain p l where p: "prev = Some (p, l)" "l + len \<le> MAX_SYMBOL_LEN" by blast
      then have pl: "p + l = pos" using less.prems(3) by simp
      let ?both = "take (l + len) (drop p smp)"
      have lb: "length ?both = l + len" using len pl by simp
      obtain d where d: "candidate_new ?both = Some d" "cand_ok d"
        by (rule candidate_new_ok [of ?both]) (use lb p len in auto)
      have "get_range smp p (pos + len) = Some ?both" using len pl by (auto simp: get_range_def)
      then show thesis using that [of "add_gain d (l + len) ?g1"] p d add_gain_ok [OF g1 d(2)] by simp
    qed
    have "length smp - (pos + len) < length smp - pos" using len True by simp
    from less.hyps [OF this len(3) g2(2), of "Some (pos, len)"] obtain gain' where
      "train_parse ix smp (pos + len) (Some (pos, len)) gain2 = Some gain'" "\<forall>g \<in> set gain'. cand_ok (fst g)"
      using len(1) by auto
    then show ?thesis using True m(1) piece c(1) g2(1)
      by (subst train_parse.simps) (simp only: True m(1) if_True Option.bind_lunit Let_def, unfold len_def [symmetric], simp)
  qed
qed

lemma survivors_ok: "\<forall>g \<in> set gain. cand_ok (fst g) \<Longrightarrow> symbols_ok (survivors gain)"
proof -
  assume ok: "\<forall>g \<in> set gain. cand_ok (fst g)"
  have "s \<noteq> [] \<and> length s \<le> MAX_SYMBOL_LEN" if s: "s \<in> set (survivors gain)" for s
  proof -
    obtain g where "g \<in> set gain" "s = as_slice (fst g)"
      using s by (auto simp: survivors_def Let_def dest!: in_set_takeD)
    moreover from this ok have "cand_ok (fst g)" by blast
    ultimately show ?thesis by (auto simp: as_slice_def cand_ok_def MAX_SYMBOL_LEN_def min_def)
  qed
  then show "symbols_ok (survivors gain)" by (auto simp: symbols_ok_def survivors_def Let_def)
qed

lemma train_rounds_ok: "symbols_ok table \<Longrightarrow> \<exists>t. train_rounds k smp table = Some t \<and> symbols_ok t"
proof (induction k arbitrary: table)
  case (Suc k)
  obtain ix where ix: "index_new table = Some ix" "index_ok ix" by (rule index_new_ok [OF Suc.prems])
  obtain gain where g: "train_parse ix smp 0 None [] = Some gain" "\<forall>g \<in> set gain. cand_ok (fst g)"
    using train_parse_ok [OF ix(2), of 0 smp "[]" None] by auto
  show ?case using Suc.IH [OF survivors_ok [OF g(2)]] ix(1) g(1) by simp
qed simp

lemma train_ok: "\<exists>t. train smp = Some t \<and> symbols_ok t"
  unfolding train_def by (rule train_rounds_ok) (simp add: symbols_ok_def)

lemma table_train_ok:
  obtains ix where "table_train bytes = Some ix" "index_ok ix"
proof -
  obtain t where t: "train (sample bytes) = Some t" "symbols_ok t" using train_ok by blast
  obtain ix where "index_new t = Some ix" "index_ok ix" by (rule index_new_ok [OF t(2)])
  then show thesis using that t(1) by (simp add: table_train_def)
qed

lemma fsst_roundtrip:
  assumes "length bytes < 2 ^ 32" "length bytes \<le> max_bytes"
  shows "\<exists>b. fsst_encode bytes = Some b \<and> fsst_decode b max_bytes out = Some (Inr (), out @ bytes)"
proof -
  obtain ix where ix: "table_train bytes = Some ix" "index_ok ix" by (rule table_train_ok)
  obtain b where b: "table_encode ix bytes = Some b" by (rule table_encode_Some [OF ix(2), of bytes]) blast
  then show ?thesis using fsst_table_roundtrip [OF ix(2) b assms] ix(1) by (simp add: fsst_encode_def)
qed

text \<open>What a writer takes out of a size to compare two encodings: the header is exactly
  the bytes in front of the codes.\<close>

lemma header_len_exact:
  assumes ok: "index_ok ix" and enc: "table_encode ix bytes = Some b" "encode_codes ix bytes 0 = Some codes"
  shows "length b = header_len ix + length codes"
  using enc by (auto simp: table_encode_def header_len_def length_concat)

subsection \<open>Arbitrary bytes\<close>

text \<open>An empty buffer is its header, and every buffer opens with the table.\<close>

lemma header_of_empty:
  assumes "table_encode ix bytes = Some b"
  shows "table_encode ix [] = Some (take (header_len ix) (len_le 0 @ drop 4 b))"
proof -
  have "encode_codes ix [] 0 = Some []" by (subst encode_codes.simps) simp
  moreover have "length (concat (fi_syms ix)) = sum_list (map length (fi_syms ix))" by (rule length_concat)
  ultimately show ?thesis
    using assms by (auto simp: table_encode_def header_len_def split: bind_splits)
qed

lemma split_lens_total:
  "at + lens_total lens \<le> length syms \<Longrightarrow>
    \<exists>t. split_lens lens at syms = Some t \<and> length t = length lens \<and> (\<forall>i < length lens. length (t ! i) = unat (lens ! i))"
proof (induction lens arbitrary: at)
  case (Cons l ls)
  then have a: "at + unat l \<le> length syms" "at + unat l + lens_total ls \<le> length syms" by (simp_all add: lens_total_def)
  obtain t where t: "split_lens ls (at + unat l) syms = Some t" "length t = length ls"
      "\<forall>i < length ls. length (t ! i) = unat (ls ! i)"
    using Cons.IH [OF a(2)] by blast
  have "get_range syms at (at + unat l) = Some (take (unat l) (drop at syms))" using a(1) by (simp add: get_range_def)
  moreover have "\<forall>i < length (l # ls). length ((take (unat l) (drop at syms) # t) ! i) = unat ((l # ls) ! i)"
  proof (intro allI impI)
    fix i assume "i < length (l # ls)"
    then show "length ((take (unat l) (drop at syms) # t) ! i) = unat ((l # ls) ! i)"
      using t(3) a(1) by (cases i) auto
  qed
  ultimately show ?case using t(1,2) by simp
qed simp

lemma decode_codes_length:
  assumes "\<forall>s \<in> set table. length s = MAX_SYMBOL_LEN"
  shows "length (fst (snd (decode_codes table tlen payload dst n))) = length dst"
  using assms
proof (induction table tlen payload dst n rule: decode_codes.induct)
  case (2 table tlen code payload dst n)
  show ?case
  proof (cases "unat code < length table")
    case True
    then have "length (table ! unat code) = MAX_SYMBOL_LEN" using "2.prems" by simp
    then show ?thesis using "2.IH"(1) [OF True _ "2.prems"] True by simp
  next
    case False
    then show ?thesis using "2.IH"(2) "2.prems" by (cases payload) auto
  qed
qed simp

lemma fsst_decode_total:
  "\<exists>r vs. fsst_decode bytes max_bytes out = Some (r, out @ vs) \<and> length vs \<le> max_bytes \<and>
    ((\<exists>e. r = Inl e) \<longrightarrow> vs = [])"
proof -
  have err: "\<exists>r vs. Some (Inl e :: unit result, out) = Some (r, out @ vs) \<and> length vs \<le> max_bytes \<and>
    ((\<exists>e. r = Inl e) \<longrightarrow> vs = [])" for e
    by (intro exI [of _ "Inl e"] exI [of _ "[]"]) simp
  show ?thesis
  proof (cases "get_range bytes 0 5")
    case None
    then show ?thesis using err by (simp add: fsst_decode_def)
  next
    case (Some header)
    let ?count = "unat (header ! 4)" and ?raw = "read_u32 (take 4 header)"
    show ?thesis
    proof (cases "?raw \<le> max_bytes \<and> (\<exists>lens. get_range bytes 5 (5 + ?count) = Some lens \<and> \<not> list_ex bad_len lens \<and>
        (\<exists>syms. get_range bytes (5 + ?count) (5 + ?count + lens_total lens) = Some syms))")
      case False
      then show ?thesis using err Some by (auto simp: fsst_decode_def Let_def split: option.split)
    next
      case True
      then obtain lens syms where ls: "?raw \<le> max_bytes" "get_range bytes 5 (5 + ?count) = Some lens" "\<not> list_ex bad_len lens"
          "get_range bytes (5 + ?count) (5 + ?count + lens_total lens) = Some syms"
        by blast
      have syms: "5 + ?count + lens_total lens \<le> length bytes" "length syms = lens_total lens"
        using get_range_SomeD [OF ls(4)] by simp_all
      obtain t where t: "split_lens lens 0 syms = Some t" "length t = length lens"
          "\<forall>i < length lens. length (t ! i) = unat (lens ! i)"
        using split_lens_total [of 0 lens syms] syms(2) by auto
      have "\<forall>l \<in> set lens. unat l \<le> MAX_SYMBOL_LEN" using ls(3) by (auto simp: list_ex_iff bad_len_def)
      then have "\<forall>s \<in> set t. length s \<le> MAX_SYMBOL_LEN" using t by (metis in_set_conv_nth)
      then have pad: "\<forall>s \<in> set (pad_syms t). length s = MAX_SYMBOL_LEN" by (auto simp: pad_syms_def)
      obtain payload where p: "get_from bytes (5 + ?count + lens_total lens) = Some payload"
        using syms(1) by (simp add: get_from_def)
      obtain d dst n where d: "decode_codes (pad_syms t) lens payload (replicate (?raw + MAX_SYMBOL_LEN) 0) 0 = (d, dst, n)"
        by (metis prod_cases3)
      then have "length dst = ?raw + MAX_SYMBOL_LEN"
        using decode_codes_length [OF pad, of lens payload "replicate (?raw + MAX_SYMBOL_LEN) 0" 0] by simp
      then show ?thesis using Some ls t p d err
        by (cases d) (auto simp: fsst_decode_def Let_def)
    qed
  qed
qed

end
