(* ===== verification/Ids.thy ===== *)
theory Ids
  imports ZuPrelude "HOL-Library.List_Lexorder"
begin

text \<open>
  The identifier and key formats of \<^verbatim>\<open>zu-common\<close>: the packed node ids of \<^verbatim>\<open>id.rs\<close>, the
  order-preserving integer keys of \<^verbatim>\<open>order.rs\<close>, the spelling of byte strings of
  \<^verbatim>\<open>bytes.rs\<close> and the id hash of \<^verbatim>\<open>ids.rs\<close>.
\<close>

subsection \<open>Node ids\<close>

definition GROUP_ROWS :: u32 where "GROUP_ROWS = push_bit 17 1"
definition TABLE_BITS :: nat where "TABLE_BITS = 14"
definition GROUP_BITS :: nat where "GROUP_BITS = 22"
definition ROW_BITS :: nat where "ROW_BITS = 17"
definition RESERVED_BITS :: nat where "RESERVED_BITS = 11"
definition ROW_SHIFT :: nat where "ROW_SHIFT = RESERVED_BITS"
definition GROUP_SHIFT :: nat where "GROUP_SHIFT = ROW_SHIFT + ROW_BITS"
definition TABLE_SHIFT :: nat where "TABLE_SHIFT = GROUP_SHIFT + GROUP_BITS"

lemmas id_layout = GROUP_ROWS_def TABLE_BITS_def GROUP_BITS_def ROW_BITS_def RESERVED_BITS_def
  ROW_SHIFT_def GROUP_SHIFT_def TABLE_SHIFT_def

datatype node_id = NodeId u64

definition node_new :: "u16 \<Rightarrow> u32 \<Rightarrow> u32 \<Rightarrow> node_id option" where
  "node_new tab grp row =
     (if (ucast tab :: u32) < push_bit TABLE_BITS 1 \<and> grp < push_bit GROUP_BITS 1 \<and> row < GROUP_ROWS
      then Some (NodeId (push_bit TABLE_SHIFT (ucast tab) OR push_bit GROUP_SHIFT (ucast grp) OR
                         push_bit ROW_SHIFT (ucast row)))
      else None)"

fun node_table :: "node_id \<Rightarrow> u16" where
  "node_table (NodeId w) = ucast (drop_bit TABLE_SHIFT w)"

fun node_group :: "node_id \<Rightarrow> u32" where
  "node_group (NodeId w) = ucast (drop_bit GROUP_SHIFT w AND (push_bit GROUP_BITS 1 - 1))"

fun node_row :: "node_id \<Rightarrow> u32" where
  "node_row (NodeId w) = ucast (drop_bit ROW_SHIFT w AND (push_bit ROW_BITS 1 - 1))"

definition table_row :: "node_id \<Rightarrow> u64" where
  "table_row n = ucast (node_group n) * ucast GROUP_ROWS + ucast (node_row n)"

text \<open>The derived order of \<^verbatim>\<open>NodeId(u64)\<close>.\<close>

instantiation node_id :: linorder
begin
definition less_eq_node_id :: "node_id \<Rightarrow> node_id \<Rightarrow> bool" where
  "a \<le> b \<longleftrightarrow> (case a of NodeId v \<Rightarrow> case b of NodeId w \<Rightarrow> v \<le> w)"
definition less_node_id :: "node_id \<Rightarrow> node_id \<Rightarrow> bool" where
  "a < b \<longleftrightarrow> (case a of NodeId v \<Rightarrow> case b of NodeId w \<Rightarrow> v < w)"
instance
  by intro_classes (auto simp: less_eq_node_id_def less_node_id_def split: node_id.splits)
end

lemma small_bits: "unat (w :: 'a::len word) < 2 ^ n \<Longrightarrow> bit w i \<Longrightarrow> i < n"
proof -
  assume "unat w < 2 ^ n" "bit w i"
  then have "take_bit n (unat w) = unat w" "bit (unat w) i"
    by (simp_all add: take_bit_nat_eq_self bit_unsigned_iff)
  then show "i < n" by (metis bit_take_bit_iff)
qed

lemma unat_ucast_up: "LENGTH('a) \<le> LENGTH('b) \<Longrightarrow> unat (ucast (w :: 'a::len word) :: 'b::len word) = unat w"
proof -
  assume "LENGTH('a) \<le> LENGTH('b)"
  then have "(2::nat) ^ LENGTH('a) \<le> 2 ^ LENGTH('b)" by (intro power_increasing) auto
  then have "unat w < 2 ^ LENGTH('b)" using unsigned_less [of w] by (metis less_le_trans)
  then show ?thesis by (simp add: unsigned_ucast_eq take_bit_nat_eq_self)
qed

lemma node_new_Some:
  "node_new tab grp row = Some n \<longleftrightarrow>
     unat tab < 2 ^ 14 \<and> unat grp < 2 ^ 22 \<and> unat row < 2 ^ 17 \<and>
     n = NodeId (push_bit 50 (ucast tab) OR push_bit 28 (ucast grp) OR push_bit 11 (ucast row))"
proof -
  have "(ucast tab :: u32) < push_bit TABLE_BITS 1 \<longleftrightarrow> unat tab < 2 ^ 14"
    by (simp add: word_less_nat_alt id_layout unat_ucast_up)
  then show ?thesis by (auto simp: node_new_def id_layout word_less_nat_alt)
qed

lemma node_unpack:
  assumes "node_new tab grp row = Some n"
  shows "node_table n = tab" "node_group n = grp" "node_row n = row"
proof -
  have b: "unat tab < 2 ^ 14" "unat grp < 2 ^ 22" "unat row < 2 ^ 17"
    and n: "n = NodeId (push_bit 50 (ucast tab) OR push_bit 28 (ucast grp) OR push_bit 11 (ucast row))"
    using assms by (simp_all add: node_new_Some)
  note hi = small_bits [OF b(1)] small_bits [OF b(2)] small_bits [OF b(3)]
  have m: "push_bit k 1 - 1 = (mask k :: u64)" for k
    by (simp add: mask_eq_exp_minus_1)
  show "node_table n = tab"
    unfolding n node_table.simps id_layout
    by (rule bit_word_eqI) (auto simp: bit_simps dest: hi bit_imp_le_length)
  show "node_group n = grp"
    unfolding n node_group.simps id_layout m
    by (rule bit_word_eqI) (auto simp: bit_simps dest: hi bit_imp_le_length)
  show "node_row n = row"
    unfolding n node_row.simps id_layout m
    by (rule bit_word_eqI) (auto simp: bit_simps dest: hi bit_imp_le_length)
qed

lemma node_new_value:
  assumes "node_new tab grp row = Some (NodeId w)"
  shows "unat w = unat tab * 2 ^ 50 + unat grp * 2 ^ 28 + unat row * 2 ^ 11"
proof -
  let ?t = "push_bit 50 (ucast tab) :: u64" and ?g = "push_bit 28 (ucast grp) :: u64" and ?r = "push_bit 11 (ucast row) :: u64"
  have b: "unat tab < 2 ^ 14" "unat grp < 2 ^ 22" "unat row < 2 ^ 17" and w: "w = ?t OR ?g OR ?r"
    using assms by (auto simp: node_new_Some)
  note hi = small_bits [OF b(1)] small_bits [OF b(2)] small_bits [OF b(3)]
  have "?g OR ?r = ?g + ?r"
    by (rule disjunctive_add_eq_or [symmetric]) (auto intro!: bit_word_eqI simp: bit_simps dest!: hi)
  moreover have "?t OR (?g OR ?r) = ?t + (?g OR ?r)"
    by (rule disjunctive_add_eq_or [symmetric]) (auto intro!: bit_word_eqI simp: bit_simps dest!: hi)
  ultimately have w: "w = ?t + (?g + ?r)" using w by simp
  have u: "unat (ucast tab :: u64) = unat tab" "unat (ucast grp :: u64) = unat grp" "unat (ucast row :: u64) = unat row"
    by (simp_all add: unat_ucast_up)
  have p: "unat (push_bit k (x :: u64)) = unat x * 2 ^ k" if "unat x * 2 ^ k < 2 ^ 64" for k x
    using that unfolding unsigned_push_bit_eq by (simp add: push_bit_eq_mult take_bit_nat_eq_self)
  have "unat ?t = unat tab * 2 ^ 50" "unat ?g = unat grp * 2 ^ 28" "unat ?r = unat row * 2 ^ 11"
    using p [of "ucast tab" 50] p [of "ucast grp" 28] p [of "ucast row" 11] u b by simp_all
  then show ?thesis unfolding w using b by (simp add: unat_word_ariths)
qed

text \<open>Comparing two ids compares table, then group, then row.\<close>

lemma node_order:
  assumes "node_new t g r = Some a" "node_new t' g' r' = Some b"
  shows "a < b \<longleftrightarrow> t < t' \<or> t = t' \<and> (g < g' \<or> g = g' \<and> r < r')"
proof -
  obtain v w where v: "a = NodeId v" and w: "b = NodeId w" by (cases a, cases b) auto
  have bv: "unat t < 2 ^ 14" "unat g < 2 ^ 22" "unat r < 2 ^ 17"
    and bw: "unat t' < 2 ^ 14" "unat g' < 2 ^ 22" "unat r' < 2 ^ 17"
    using assms by (simp_all add: node_new_Some)
  have "v < w \<longleftrightarrow> unat t * 2 ^ 50 + unat g * 2 ^ 28 + unat r * 2 ^ 11 <
      unat t' * 2 ^ 50 + unat g' * 2 ^ 28 + unat r' * 2 ^ 11"
    using node_new_value [OF assms(1) [unfolded v]] node_new_value [OF assms(2) [unfolded w]]
    by (simp add: word_less_nat_alt)
  also have "\<dots> \<longleftrightarrow> unat t < unat t' \<or> unat t = unat t' \<and>
      (unat g < unat g' \<or> unat g = unat g' \<and> unat r < unat r')"
    using bv bw by auto
  finally show ?thesis by (auto simp: v w less_node_id_def word_less_nat_alt word_unat_eq_iff)
qed

lemma node_reserved:
  assumes "node_new tab grp row = Some (NodeId w)" "i < 11"
  shows "\<not> bit w i"
  using assms by (auto simp: node_new_Some bit_simps)

lemma table_row_value:
  assumes "node_new tab grp row = Some n"
  shows "unat (table_row n) = unat grp * 2 ^ 17 + unat row" "unat (table_row n) < 2 ^ 39"
proof -
  have b: "unat grp < 2 ^ 22" "unat row < 2 ^ 17" using assms by (simp_all add: node_new_Some)
  show "unat (table_row n) = unat grp * 2 ^ 17 + unat row"
    using b by (simp add: table_row_def node_unpack [OF assms] GROUP_ROWS_def unat_word_ariths unat_ucast_up)
  then show "unat (table_row n) < 2 ^ 39" using b by simp
qed

subsection \<open>Order-preserving integer keys\<close>

text \<open>\<^verbatim>\<open>to_be_bytes\<close>\<close>

definition be_bytes :: "u64 \<Rightarrow> u8 list" where
  "be_bytes w = rev (u64_le w)"

definition int_key :: "u64 \<Rightarrow> u8 list" where
  "int_key v = be_bytes (v XOR push_bit 63 1)"

fun from_be :: "nat \<Rightarrow> u8 list \<Rightarrow> nat" where
  "from_be acc [] = acc"
| "from_be acc (b # bs) = from_be (acc * 256 + unat b) bs"

lemma from_be_acc: "from_be acc bs = acc * 256 ^ length bs + from_be 0 bs"
proof (induction bs arbitrary: acc)
  case (Cons b bs)
  show ?case using Cons [of "acc * 256 + unat b"] Cons [of "unat b"] by (simp add: algebra_simps)
qed simp

lemma from_be_less: "from_be 0 bs < 256 ^ length bs"
proof (induction bs)
  case (Cons b bs)
  have "unat b < 256" using unsigned_less [of b] by simp
  then have "(unat b + 1) * 256 ^ length bs \<le> 256 * 256 ^ length bs"
    by (intro mult_le_mono1) simp
  then have "unat b * 256 ^ length bs + 256 ^ length bs \<le> 256 ^ length (b # bs)"
    unfolding add_mult_distrib by simp
  moreover have "from_be 0 (b # bs) = from_be (unat b) bs" by simp
  ultimately show ?case using Cons from_be_acc [of "unat b" bs] by linarith
qed simp

text \<open>Byte lists of one length compare as the numbers they spell.\<close>

lemma be_order:
  "length xs = length ys \<Longrightarrow> xs < ys \<longleftrightarrow> from_be 0 xs < from_be 0 ys"
proof (induction xs ys rule: list_induct2)
  case (Cons x xs y ys)
  let ?p = "256 ^ length xs :: nat"
  have e: "from_be 0 (x # xs) = unat x * ?p + from_be 0 xs" "from_be 0 (y # ys) = unat y * ?p + from_be 0 ys"
    using from_be_acc [of "unat x" xs] from_be_acc [of "unat y" ys] Cons.hyps by simp_all
  have l: "from_be 0 xs < ?p" "from_be 0 ys < ?p" using from_be_less [of xs] from_be_less [of ys] Cons.hyps by simp_all
  have lex: "x # xs < y # ys \<longleftrightarrow> unat x < unat y \<or> unat x = unat y \<and> xs < ys"
    by (auto simp: word_less_nat_alt word_unat_eq_iff)
  have lt: "a * ?p + from_be 0 us < b * ?p + from_be 0 ws"
    if "a < b" "from_be 0 us < ?p" for a b :: nat and us ws
  proof -
    have "Suc a * ?p \<le> b * ?p" using that(1) by (intro mult_le_mono1) simp
    then show ?thesis using that(2) by simp
  qed
  show ?case
  proof (cases "unat x = unat y")
    case True
    then show ?thesis using Cons.IH e lex by simp
  next
    case False
    then consider "unat x < unat y" | "unat y < unat x" by linarith
    then show ?thesis
      using lt [of "unat x" "unat y" xs ys] lt [of "unat y" "unat x" ys xs] l e lex by cases auto
  qed
qed simp

lemma from_be_rev_le: "from_be 0 (rev bs) = unat (from_le bs :: u64)" if "length bs \<le> 8"
  using that
proof (induction bs)
  case (Cons b bs)
  have IH: "from_be 0 (rev bs) = unat (from_le bs :: u64)" using Cons by simp
  have snoc: "from_be acc (cs @ [b]) = from_be acc cs * 256 + unat b" for acc cs
    by (induction cs arbitrary: acc) auto
  have small: "unat (from_le bs :: u64) < 256 ^ length bs"
    using from_be_less [of "rev bs"] IH by simp
  have "256 ^ length bs \<le> (256::nat) ^ 7" using Cons.prems by (intro power_increasing) auto
  then have sm: "unat (from_le bs :: u64) < 256 ^ 7" using small by linarith
  have "(ucast b OR push_bit 8 (from_le bs) :: u64) = ucast b + push_bit 8 (from_le bs)"
    using bit_imp_le_length [of b]
    by (intro disjunctive_add_eq_or [symmetric] bit_word_eqI) (fastforce simp: bit_simps)
  moreover have "unat (push_bit 8 (from_le bs :: u64)) = unat (from_le bs :: u64) * 256"
    using sm unfolding unsigned_push_bit_eq by (simp add: unsigned_push_bit_eq push_bit_eq_mult take_bit_nat_eq_self)
  moreover have "unat b < 256" using unsigned_less [of b] by simp
  moreover have "unat (ucast b :: u64) = unat b" by (simp add: unat_ucast_up)
  ultimately have "unat (from_le (b # bs) :: u64) = unat b + unat (from_le bs :: u64) * 256"
    using sm by (simp add: unat_word_ariths)
  then show ?case using IH snoc by simp
qed simp

lemma flip_sign: "x XOR push_bit 63 1 = x + push_bit 63 (1 :: u64)"
proof -
  have off: "y XOR push_bit 63 1 = y + push_bit 63 1" if "\<not> bit y 63" for y :: u64
  proof -
    have one: "bit (push_bit k 1 :: u64) n \<longleftrightarrow> n = k" if "k < 64" for k n
      using that by (auto simp: bit_exp_iff)
    have "y AND push_bit 63 1 = 0"
    proof (rule bit_word_eqI)
      fix n show "bit (y AND push_bit 63 1) n = bit (0 :: u64) n"
        unfolding bit_and_iff using that one [of 63 n] by auto
    qed
    then have "y XOR push_bit 63 1 = y OR push_bit 63 1 \<and> y + push_bit 63 1 = y OR push_bit 63 1"
      by (auto simp: disjunctive_add_eq_or disjunctive_xor_eq_or)
    then show ?thesis by simp
  qed
  show ?thesis
  proof (cases "bit x 63")
    case True
    obtain y where y: "y = x XOR push_bit 63 1" by blast
    have "\<not> bit y 63" unfolding y flip_bit_eq_xor [symmetric] using True by (simp add: bit_flip_bit_iff)
    then have "y XOR push_bit 63 1 = y + push_bit 63 1" by (rule off)
    moreover have "y XOR push_bit 63 1 = x" unfolding y by (simp add: xor.assoc)
    ultimately have "x + push_bit 63 1 = y + (push_bit 63 1 + push_bit 63 1)" by (simp only: add.assoc)
    also have "push_bit 63 1 + push_bit 63 1 = (0 :: u64)" by simp
    finally show ?thesis by (simp only: y add_0_right)
  qed (rule off)
qed

lemma sign_flip_order: "(v XOR push_bit 63 1 < w XOR push_bit 63 1) \<longleftrightarrow> v <s (w :: u64)"
proof -
  have u: "uint (x XOR push_bit 63 1) = sint x + 2 ^ 63" for x :: u64
  proof -
    have "uint (x + push_bit 63 1) = take_bit 64 (uint x + 2 ^ 63)"
      by (simp add: uint_word_ariths take_bit_eq_mod)
    also have "\<dots> = sint x + 2 ^ 63"
      by (simp add: sint_uint signed_take_bit_eq_take_bit_shift)
    finally show ?thesis unfolding flip_sign .
  qed
  show ?thesis unfolding word_less_def word_sless_alt u by simp
qed

lemma int_key_order: "int_key v < int_key w \<longleftrightarrow> v <s w"
proof -
  have l: "from_be 0 (be_bytes x) = unat x" for x
    unfolding be_bytes_def using from_be_rev_le [of "u64_le x"] read_u64_le [of x] by (simp add: read_u64_def)
  have "int_key v < int_key w \<longleftrightarrow> from_be 0 (int_key v) < from_be 0 (int_key w)"
    by (rule be_order) (simp add: int_key_def be_bytes_def)
  also have "\<dots> \<longleftrightarrow> v XOR push_bit 63 1 < w XOR push_bit 63 1"
    unfolding int_key_def l by (simp add: word_less_nat_alt)
  finally show ?thesis unfolding sign_flip_order .
qed

subsection \<open>The spelling of byte strings\<close>

text \<open>\<^verbatim>\<open>char::from_digit(n, 16)\<close>, \<^verbatim>\<open>c.to_digit(16)\<close>, \<^verbatim>\<open>to_ascii_uppercase\<close> and
  \<^verbatim>\<open>is_ascii_whitespace\<close> of the standard library.\<close>

definition from_digit :: "nat \<Rightarrow> char option" where
  "from_digit n = (if n < 10 then Some (char_of (48 + n)) else if n < 16 then Some (char_of (87 + n)) else None)"

definition to_digit :: "char \<Rightarrow> nat option" where
  "to_digit c = (let k = of_char c in
     if 48 \<le> k \<and> k \<le> 57 then Some (k - 48)
     else if 97 \<le> k \<and> k \<le> 102 then Some (k - 87)
     else if 65 \<le> k \<and> k \<le> 70 then Some (k - 55) else None)"

definition ascii_upper :: "char \<Rightarrow> char" where
  "ascii_upper c = (let k = of_char c in if 97 \<le> k \<and> k \<le> (122::nat) then char_of (k - 32) else c)"

definition ascii_space :: "char \<Rightarrow> bool" where
  "ascii_space c \<longleftrightarrow> of_char c \<in> {9, 10, 12, 13, 32 :: nat}"

fun push_hexits :: "u8 list \<Rightarrow> string option" where
  "push_hexits [] = Some []"
| "push_hexits (b # bs) =
     do {
       hi \<leftarrow> from_digit (unat (drop_bit 4 b));
       lo \<leftarrow> from_digit (unat (b AND 15));
       rest \<leftarrow> push_hexits bs;
       Some (hi # lo # rest)
     }"

definition hexits :: "u8 list \<Rightarrow> string option" where
  "hexits bytes = map_option (map ascii_upper) (push_hexits bytes)"

definition bytes_literal :: "u8 list \<Rightarrow> string option" where
  "bytes_literal bytes = map_option (\<lambda>h. ''X'' @ [CHR 0x27] @ h @ [CHR 0x27]) (hexits bytes)"

fun nibbles_of :: "string \<Rightarrow> u8 list option" where
  "nibbles_of [] = Some []"
| "nibbles_of (c # cs) =
     (if ascii_space c then nibbles_of cs
      else do { d \<leftarrow> to_digit c; rest \<leftarrow> nibbles_of cs; Some (word_of_nat d # rest) })"

fun pair_nibbles :: "u8 list \<Rightarrow> u8 list" where
  "pair_nibbles (h # l # rest) = (push_bit 4 h OR l) # pair_nibbles rest"
| "pair_nibbles _ = []"

definition from_hexits :: "string \<Rightarrow> u8 list option" where
  "from_hexits txt =
     do { ns \<leftarrow> nibbles_of txt; if length ns mod 2 \<noteq> 0 then None else Some (pair_nibbles ns) }"

definition hexit :: "nat \<Rightarrow> char" where
  "hexit n = char_of (if n < 10 then 48 + n else 55 + n)"

lemma hexit_digit: "n < 16 \<Longrightarrow> to_digit (hexit n) = Some n \<and> \<not> ascii_space (hexit n)"
  by (auto simp: hexit_def to_digit_def ascii_space_def Let_def of_char_of)

lemma from_digit_upper: "n < 16 \<Longrightarrow> \<exists>c. from_digit n = Some c \<and> ascii_upper c = hexit n"
  by (auto simp: from_digit_def ascii_upper_def hexit_def Let_def of_char_of)

lemma nibbles_less: "unat (drop_bit 4 (b :: u8)) < 16" "unat (b AND 15) < 16"
proof -
  have "unat b < 256" using unsigned_less [of b] by simp
  then have "unat (drop_bit 4 b) = unat b div 16" unfolding unsigned_drop_bit_eq by (simp add: drop_bit_eq_div take_bit_nat_eq_self)
  then show "unat (drop_bit 4 b) < 16" using unsigned_less [of b] by (simp add: div_less_iff_less_mult)
  have "b AND 15 \<le> 15" by (rule word_and_le1)
  then show "unat (b AND 15) < 16" by (simp add: word_le_nat_alt)
qed

lemma hexits_eq: "hexits bs = Some (concat (map (\<lambda>b. [hexit (unat (drop_bit 4 b)), hexit (unat (b AND 15))]) bs))"
proof -
  have "\<exists>h. push_hexits bs = Some h \<and>
      map ascii_upper h = concat (map (\<lambda>b. [hexit (unat (drop_bit 4 b)), hexit (unat (b AND 15))]) bs)"
  proof (induction bs)
    case (Cons b bs)
    then show ?case using from_digit_upper [OF nibbles_less(1) [of b]] from_digit_upper [OF nibbles_less(2) [of b]] by auto
  qed simp
  then show ?thesis by (auto simp: hexits_def)
qed

lemma nibble_join: "push_bit 4 (drop_bit 4 b) OR (b AND 15) = (b :: u8)"
proof -
  have m: "(15 :: u8) = mask 4" by (simp add: mask_eq_exp_minus_1)
  show ?thesis unfolding m by (intro bit_word_eqI) (auto simp: bit_simps)
qed

lemma nibbles_of_hexits:
  "nibbles_of (concat (map (\<lambda>b. [hexit (unat (drop_bit 4 b)), hexit (unat (b AND 15))]) bs)) =
    Some (concat (map (\<lambda>b. [drop_bit 4 b, b AND 15]) bs))"
  by (induction bs) (simp_all add: hexit_digit nibbles_less)

lemma pair_nibbles_bytes: "pair_nibbles (concat (map (\<lambda>b. [drop_bit 4 b, b AND 15]) bs)) = bs"
  by (induction bs) (simp_all add: nibble_join)

lemma hexits_roundtrip: "\<exists>h. hexits bs = Some h \<and> from_hexits h = Some bs \<and> length h = 2 * length bs"
proof -
  have "length (concat (map (\<lambda>b. [drop_bit 4 b, b AND 15]) bs)) = 2 * length bs" by (induction bs) auto
  then show ?thesis
    using length_concat_uniform [of "map (\<lambda>b. [hexit (unat (drop_bit 4 b)), hexit (unat (b AND 15))]) bs" 2]
    by (simp add: hexits_eq from_hexits_def nibbles_of_hexits pair_nibbles_bytes)
qed

text \<open>Spaces do not matter to the reader, and neither does the case of a hexit.\<close>

lemma nibbles_of_spaces: "nibbles_of (filter (\<lambda>c. \<not> ascii_space c) txt) = nibbles_of txt"
  by (induction "txt") auto

lemma from_hexits_spaces: "from_hexits (filter (\<lambda>c. \<not> ascii_space c) txt) = from_hexits txt"
  by (simp add: from_hexits_def nibbles_of_spaces)

lemma to_digit_hexit: "to_digit c = Some d \<Longrightarrow> d < 16 \<and> hexit d = ascii_upper c \<and> \<not> ascii_space c"
proof -
  assume a: "to_digit c = Some d"
  have c: "c = char_of (of_char c :: nat)" by simp
  define k where "k = (of_char c :: nat)"
  have cond: "of_char c = k" "char_of k = c" using c by (simp_all add: k_def)
  show ?thesis using a cond(2)
    unfolding to_digit_def hexit_def ascii_upper_def ascii_space_def Let_def cond(1)
    by (auto split: if_splits)
qed

lemma nibbles_of_Some:
  "nibbles_of txt = Some ns \<Longrightarrow> map (\<lambda>n. hexit (unat n)) ns = map ascii_upper (filter (\<lambda>c. \<not> ascii_space c) txt) \<and>
    (\<forall>n \<in> set ns. unat n < 16)"
proof (induction "txt" arbitrary: ns)
  case (Cons c cs)
  show ?case
  proof (cases "ascii_space c")
    case True
    then show ?thesis using Cons by simp
  next
    case False
    then obtain d ms where d: "to_digit c = Some d" "nibbles_of cs = Some ms" "ns = word_of_nat d # ms"
      using Cons.prems by (auto split: bind_splits)
    have "unat (word_of_nat d :: u8) = d"
      using to_digit_hexit [OF d(1)] by (simp add: unat_of_nat take_bit_nat_eq_self)
    then show ?thesis using Cons.IH [OF d(2)] d(3) to_digit_hexit [OF d(1)] False by simp
  qed
qed simp

lemma pair_split:
  assumes "unat h < 16" "unat l < 16"
  shows "drop_bit 4 (push_bit 4 h OR l) = (h :: u8)" "(push_bit 4 h OR l) AND 15 = (l :: u8)"
proof -
  have hb: "i < 4" if "bit h i" for i using small_bits [of h 4 i] assms(1) that by simp
  have lb: "i < 4" if "bit l i" for i using small_bits [of l 4 i] assms(2) that by simp
  have m: "(15 :: u8) = mask 4" by (simp add: mask_eq_exp_minus_1)
  show "drop_bit 4 (push_bit 4 h OR l) = h"
    by (intro bit_word_eqI) (auto simp: bit_simps dest: lb hb)
  show "(push_bit 4 h OR l) AND 15 = l"
    unfolding m by (intro bit_word_eqI) (auto simp: bit_simps dest: lb)
qed

lemma pair_nibbles_split:
  "even (length ns) \<Longrightarrow> \<forall>n \<in> set ns. unat n < 16 \<Longrightarrow>
    concat (map (\<lambda>b. [drop_bit 4 b, b AND 15]) (pair_nibbles ns)) = ns"
proof (induction ns rule: pair_nibbles.induct)
  case (1 h l rest)
  then have "unat h < 16" "unat l < 16" by simp_all
  note ps = pair_split [OF this]
  show ?case using 1 by (simp only: pair_nibbles.simps list.map concat.simps append.simps ps) simp
qed auto

text \<open>Reading a spelling and writing it again gives its canonical form.\<close>

lemma hexits_canonical:
  assumes "from_hexits txt = Some bs"
  shows "hexits bs = Some (map ascii_upper (filter (\<lambda>c. \<not> ascii_space c) txt))"
proof -
  obtain ns where ns: "nibbles_of txt = Some ns" "even (length ns)" "bs = pair_nibbles ns"
    using assms by (auto simp: from_hexits_def even_iff_mod_2_eq_zero split: bind_splits if_splits)
  note n = nibbles_of_Some [OF ns(1)]
  have c: "concat (map (\<lambda>b. [drop_bit 4 b, b AND 15]) bs) = ns"
    unfolding ns(3) by (rule pair_nibbles_split) (use ns(2) n in auto)
  have "concat (map (\<lambda>b. [hexit (unat (drop_bit 4 b)), hexit (unat (b AND 15))]) bs) =
      map (\<lambda>n. hexit (unat n)) (concat (map (\<lambda>b. [drop_bit 4 b, b AND 15]) bs))"
    by (induction bs) auto
  then show ?thesis using n by (simp add: hexits_eq c)
qed

subsection \<open>The id hash\<close>

definition ID_GOLDEN :: u64 where "ID_GOLDEN = 0x9E3779B97F4A7C15"

definition mix :: "u64 \<Rightarrow> u64" where
  "mix key = (let spread = key * ID_GOLDEN in spread XOR drop_bit 32 spread)"

definition write_u64 :: "u64 \<Rightarrow> u64 \<Rightarrow> u64" where
  "write_u64 h n = mix (word_rotl 5 h XOR n)"

definition write_bytes :: "u8 list \<Rightarrow> u64 \<Rightarrow> u64" where
  "write_bytes bytes h = fold (\<lambda>b h. mix (h XOR ucast b)) bytes h"

definition unmix :: "u64 \<Rightarrow> u64" where
  "unmix m = (m XOR drop_bit 32 m) * 0xf1de83e19937733d"

lemma xor_shift_back: "(x XOR drop_bit 32 x) XOR drop_bit 32 (x XOR drop_bit 32 x) = (x :: u64)"
  by (intro bit_word_eqI) (auto simp: bit_simps dest: bit_imp_le_length)

lemma unmix_mix: "unmix (mix key) = key"
proof -
  have "unmix (mix key) = key * ID_GOLDEN * 0xf1de83e19937733d"
    unfolding unmix_def mix_def Let_def xor_shift_back ..
  also have "\<dots> = key * (ID_GOLDEN * 0xf1de83e19937733d)" by (rule mult.assoc)
  also have "ID_GOLDEN * 0xf1de83e19937733d = 1" by (simp add: ID_GOLDEN_def)
  finally show ?thesis by simp
qed

lemma mix_unmix: "mix (unmix m) = m"
proof -
  have "unmix m * ID_GOLDEN = (m XOR drop_bit 32 m) * (ID_GOLDEN * 0xf1de83e19937733d)"
    unfolding unmix_def by (simp only: mult.assoc mult.commute mult.left_commute)
  also have "ID_GOLDEN * 0xf1de83e19937733d = 1" by (simp add: ID_GOLDEN_def)
  finally have "unmix m * ID_GOLDEN = m XOR drop_bit 32 m" by simp
  then show ?thesis unfolding mix_def Let_def by (simp only: xor_shift_back)
qed

lemma mix_bij: "bij mix"
  by (rule bij_betw_byWitness [where f' = unmix]) (auto simp: unmix_mix mix_unmix)

end
