(* ===== verification/Epoch.thy ===== *)
theory Epoch
  imports ZuPrelude
begin

text \<open>
  \<^verbatim>\<open>crates/zu-zu1/src/epoch.rs\<close>: the ledger of pinned snapshots. The atomic operations
  are functions of the ledger; the reader's \<^verbatim>\<open>pin\<close> and \<^verbatim>\<open>unpin\<close> and the writer's
  \<^verbatim>\<open>advance\<close> and \<^verbatim>\<open>horizon\<close> are programs over them, and a step relation interleaves one
  atomic operation of one thread at a time. Every access in the code is sequentially
  consistent, so the interleavings are the executions and the fences are no steps.
  Invariants by rule induction give the rule the checkpoint relies on: no horizon ever
  returned is above an epoch that a reader has pinned.
\<close>

definition READER_SLOTS :: nat where "READER_SLOTS = 8"
definition EMPTY :: u64 where "EMPTY = - 1"

record ledger =
  lg_committed :: u64
  lg_slots :: "u64 list"

definition ledger_new :: "u64 \<Rightarrow> ledger" where
  "ledger_new e = \<lparr>lg_committed = e, lg_slots = replicate READER_SLOTS EMPTY\<rparr>"

text \<open>\<^verbatim>\<open>committed\<close> is \<open>lg_committed\<close>. \<^verbatim>\<open>advance\<close> swaps, and its debug assertion is a panic.\<close>

definition advance :: "u64 \<Rightarrow> ledger \<Rightarrow> ledger option" where
  "advance e l = (if lg_committed l \<le> e then Some (l\<lparr>lg_committed := e\<rparr>) else None)"

definition store_slot :: "nat \<Rightarrow> u64 \<Rightarrow> ledger \<Rightarrow> ledger option" where
  "store_slot s e l = do { ss \<leftarrow> modify_at (lg_slots l) s (\<lambda>_. e); Some (l\<lparr>lg_slots := ss\<rparr>) }"

definition unpin :: "nat \<Rightarrow> ledger \<Rightarrow> ledger option" where
  "unpin s l = store_slot s EMPTY l"

text \<open>One turn of the scan of \<^verbatim>\<open>horizon\<close>, and the scan with nothing in between.\<close>

definition scan_slot :: "u64 \<Rightarrow> u64 \<Rightarrow> u64" where
  "scan_slot pinned h = (if pinned \<noteq> EMPTY then min h pinned else h)"

definition horizon :: "ledger \<Rightarrow> u64" where
  "horizon l = fold scan_slot (lg_slots l) (lg_committed l)"

text \<open>One turn of the loop of \<^verbatim>\<open>pin\<close> with nothing in between: \<open>None\<close> in the second
  component asks for another turn.\<close>

definition pin_turn :: "nat \<Rightarrow> ledger \<Rightarrow> (ledger \<times> u64 option) option" where
  "pin_turn s l = do {
     l1 \<leftarrow> store_slot s (lg_committed l) l;
     Some (l1, if lg_committed l1 = lg_committed l then Some (lg_committed l) else None)
   }"

subsection \<open>The threads\<close>

text \<open>
  Where a reader is in \<^verbatim>\<open>pin\<close>: not in it, past the load, past the store, and returned
  with its epoch. Where the writer is: between calls, or in the scan with the next slot
  and the horizon so far.
\<close>

datatype reader_pc = Idle | Loaded u64 | Stored u64 | Pinned u64
datatype writer_pc = WIdle | Scanning nat u64

record epoch_state =
  es_ledger :: ledger
  es_readers :: "nat \<Rightarrow> reader_pc"
  es_writer :: writer_pc
  es_returned :: "u64 list" \<comment> \<open>every horizon \<^verbatim>\<open>horizon\<close> has returned\<close>

definition epoch_init :: "u64 \<Rightarrow> epoch_state" where
  "epoch_init e = \<lparr>es_ledger = ledger_new e, es_readers = (\<lambda>_. Idle), es_writer = WIdle, es_returned = []\<rparr>"

text \<open>
  The caller's contract for \<^verbatim>\<open>advance\<close> is that epochs only go up, and they stay below the
  marker of an empty slot. A reader uses its own slot only.
\<close>

inductive epoch_step :: "epoch_state \<Rightarrow> epoch_state \<Rightarrow> bool" where
  pin_load: "es_readers st s = Idle \<Longrightarrow> s < READER_SLOTS \<Longrightarrow>
    epoch_step st (st\<lparr>es_readers := (es_readers st)(s := Loaded (lg_committed (es_ledger st)))\<rparr>)"
| pin_store: "es_readers st s = Loaded e \<Longrightarrow> store_slot s e (es_ledger st) = Some l \<Longrightarrow>
    epoch_step st (st\<lparr>es_ledger := l, es_readers := (es_readers st)(s := Stored e)\<rparr>)"
| pin_return: "es_readers st s = Stored e \<Longrightarrow> lg_committed (es_ledger st) = e \<Longrightarrow>
    epoch_step st (st\<lparr>es_readers := (es_readers st)(s := Pinned e)\<rparr>)"
| pin_retry: "es_readers st s = Stored e \<Longrightarrow> lg_committed (es_ledger st) \<noteq> e \<Longrightarrow>
    epoch_step st (st\<lparr>es_readers := (es_readers st)(s := Idle)\<rparr>)"
| unpin: "es_readers st s = Pinned e \<Longrightarrow> unpin s (es_ledger st) = Some l \<Longrightarrow>
    epoch_step st (st\<lparr>es_ledger := l, es_readers := (es_readers st)(s := Idle)\<rparr>)"
| advance: "es_writer st = WIdle \<Longrightarrow> advance e (es_ledger st) = Some l \<Longrightarrow> e \<noteq> EMPTY \<Longrightarrow>
    epoch_step st (st\<lparr>es_ledger := l\<rparr>)"
| scan_start: "es_writer st = WIdle \<Longrightarrow>
    epoch_step st (st\<lparr>es_writer := Scanning 0 (lg_committed (es_ledger st))\<rparr>)"
| scan_next: "es_writer st = Scanning i h \<Longrightarrow> idx (lg_slots (es_ledger st)) i = Some p \<Longrightarrow>
    epoch_step st (st\<lparr>es_writer := Scanning (Suc i) (scan_slot p h)\<rparr>)"
| scan_return: "es_writer st = Scanning i h \<Longrightarrow> i = length (lg_slots (es_ledger st)) \<Longrightarrow>
    epoch_step st (st\<lparr>es_writer := WIdle, es_returned := es_returned st @ [h]\<rparr>)"

inductive_cases epoch_stepE: "epoch_step st st'"

inductive epoch_reachable :: "u64 \<Rightarrow> epoch_state \<Rightarrow> bool" for e0 where
  init: "epoch_reachable e0 (epoch_init e0)"
| step: "epoch_reachable e0 st \<Longrightarrow> epoch_step st st' \<Longrightarrow> epoch_reachable e0 st'"

subsection \<open>The invariant\<close>

definition slot_ok :: "u64 \<Rightarrow> u64 list \<Rightarrow> nat \<Rightarrow> reader_pc \<Rightarrow> bool" where
  "slot_ok c slots s r \<longleftrightarrow> (case r of
     Idle \<Rightarrow> True
   | Loaded e \<Rightarrow> s < READER_SLOTS \<and> e \<noteq> EMPTY \<and> e \<le> c
   | Stored e \<Rightarrow> s < READER_SLOTS \<and> e \<noteq> EMPTY \<and> e \<le> c \<and> slots ! s = e
   | Pinned e \<Rightarrow> s < READER_SLOTS \<and> e \<noteq> EMPTY \<and> e \<le> c \<and> slots ! s = e)"

definition epoch_inv :: "epoch_state \<Rightarrow> bool" where
  "epoch_inv st \<longleftrightarrow>
     length (lg_slots (es_ledger st)) = READER_SLOTS \<and> lg_committed (es_ledger st) \<noteq> EMPTY \<and>
     (\<forall>s. slot_ok (lg_committed (es_ledger st)) (lg_slots (es_ledger st)) s (es_readers st s)) \<and>
     (\<forall>h \<in> set (es_returned st). h \<le> lg_committed (es_ledger st)) \<and>
     (\<forall>h \<in> set (es_returned st). \<forall>s e. es_readers st s = Pinned e \<longrightarrow> h \<le> e) \<and>
     (\<forall>i h. es_writer st = Scanning i h \<longrightarrow> h \<le> lg_committed (es_ledger st) \<and>
        (\<forall>s e. s < i \<longrightarrow> es_readers st s = Pinned e \<longrightarrow> h \<le> e))"

lemma epoch_inv_init: "e0 \<noteq> EMPTY \<Longrightarrow> epoch_inv (epoch_init e0)"
  by (simp add: epoch_inv_def epoch_init_def ledger_new_def slot_ok_def)

lemma store_slot_Some:
  "store_slot s e l = Some l' \<longleftrightarrow> s < length (lg_slots l) \<and> l' = l\<lparr>lg_slots := (lg_slots l)[s := e]\<rparr>"
  by (auto simp: store_slot_def modify_at_def)

lemma slot_ok_other: "s \<noteq> t \<Longrightarrow> slot_ok c (slots[t := e]) s r = slot_ok c slots s r"
  by (auto simp: slot_ok_def split: reader_pc.split)

lemma slot_ok_mono: "slot_ok c slots s r \<Longrightarrow> c \<le> c' \<Longrightarrow> slot_ok c' slots s r"
  by (auto simp: slot_ok_def split: reader_pc.splits)

lemma scan_slot_le: "scan_slot p h \<le> h" "p \<noteq> EMPTY \<Longrightarrow> scan_slot p h \<le> p"
  by (simp_all add: scan_slot_def)

lemma epoch_inv_step:
  assumes "epoch_step st st'" "epoch_inv st"
  shows "epoch_inv st'"
  using assms
proof (induction rule: epoch_step.induct)
  case (pin_load st s)
  then show ?case by (auto simp: epoch_inv_def slot_ok_def)
next
  case (pin_store st s e l)
  then have l: "l = (es_ledger st)\<lparr>lg_slots := (lg_slots (es_ledger st))[s := e]\<rparr>"
    and s: "s < length (lg_slots (es_ledger st))" by (auto simp: store_slot_Some)
  have "slot_ok (lg_committed (es_ledger st)) (lg_slots (es_ledger st)) s (Loaded e)"
    using pin_store by (metis epoch_inv_def)
  then have "slot_ok (lg_committed l) (lg_slots l) s (Stored e)" using s by (simp add: slot_ok_def l)
  then have "\<forall>t. slot_ok (lg_committed l) (lg_slots l) t (((es_readers st)(s := Stored e)) t)"
    using pin_store.prems by (auto simp: epoch_inv_def l slot_ok_other)
  then show ?case using pin_store by (auto simp: epoch_inv_def l)
next
  case (pin_return st s e)
  have "slot_ok (lg_committed (es_ledger st)) (lg_slots (es_ledger st)) s (Stored e)"
    using pin_return by (metis epoch_inv_def)
  then have "\<forall>t. slot_ok (lg_committed (es_ledger st)) (lg_slots (es_ledger st)) t (((es_readers st)(s := Pinned e)) t)"
    using pin_return.prems by (auto simp: epoch_inv_def slot_ok_def)
  then show ?case using pin_return by (auto simp: epoch_inv_def)
next
  case (pin_retry st s e)
  then show ?case by (auto simp: epoch_inv_def slot_ok_def)
next
  case (unpin st s e l)
  then have l: "l = (es_ledger st)\<lparr>lg_slots := (lg_slots (es_ledger st))[s := EMPTY]\<rparr>"
    by (auto simp: unpin_def store_slot_Some)
  have "\<forall>t. slot_ok (lg_committed l) (lg_slots l) t (((es_readers st)(s := Idle)) t)"
    using unpin.prems by (auto simp: epoch_inv_def l slot_ok_other) (simp add: slot_ok_def)
  then show ?case using unpin by (auto simp: epoch_inv_def l)
next
  case (advance st e l)
  then have l: "l = (es_ledger st)\<lparr>lg_committed := e\<rparr>" "lg_committed (es_ledger st) \<le> e"
    by (auto simp: advance_def split: if_splits)
  then show ?case using advance by (auto simp: epoch_inv_def intro: slot_ok_mono order_trans)
next
  case (scan_start st)
  then show ?case by (auto simp: epoch_inv_def)
next
  case (scan_next st i h p)
  then have p: "p = lg_slots (es_ledger st) ! i" by (auto simp: idx_def split: if_splits)
  have new: "scan_slot p h \<le> e" if "es_readers st i = Pinned e" for e
  proof -
    have "slot_ok (lg_committed (es_ledger st)) (lg_slots (es_ledger st)) i (Pinned e)"
      using scan_next.prems that by (metis epoch_inv_def)
    then show ?thesis using scan_slot_le(2) [of p h] by (simp add: slot_ok_def p)
  qed
  have "h \<le> lg_committed (es_ledger st)" "\<forall>s e. s < i \<longrightarrow> es_readers st s = Pinned e \<longrightarrow> h \<le> e"
    using scan_next by (auto simp: epoch_inv_def)
  then have "scan_slot p h \<le> lg_committed (es_ledger st) \<and>
      (\<forall>s e. s < Suc i \<longrightarrow> es_readers st s = Pinned e \<longrightarrow> scan_slot p h \<le> e)"
    using new scan_slot_le(1) [of p h] by (auto simp: less_Suc_eq intro: order_trans)
  then show ?case using scan_next.prems by (auto simp: epoch_inv_def)
next
  case (scan_return st i h)
  then have "h \<le> e" if "es_readers st s = Pinned e" for s e
  proof -
    have "slot_ok (lg_committed (es_ledger st)) (lg_slots (es_ledger st)) s (Pinned e)"
      using scan_return.prems that by (metis epoch_inv_def)
    then have "s < i" using scan_return by (simp add: slot_ok_def epoch_inv_def)
    then show ?thesis using scan_return that by (auto simp: epoch_inv_def)
  qed
  then show ?case using scan_return by (auto simp: epoch_inv_def)
qed

lemma epoch_reachable_inv: "epoch_reachable e0 st \<Longrightarrow> e0 \<noteq> EMPTY \<Longrightarrow> epoch_inv st"
  by (induction rule: epoch_reachable.induct) (auto intro: epoch_inv_init epoch_inv_step)

text \<open>No horizon is above a pin, and none is above the committed epoch.\<close>

lemma horizon_below_pins:
  assumes "epoch_reachable e0 st" "e0 \<noteq> EMPTY" "h \<in> set (es_returned st)"
  shows "es_readers st s = Pinned e \<Longrightarrow> h \<le> e" "h \<le> lg_committed (es_ledger st)"
  using epoch_reachable_inv [OF assms(1,2)] assms(3) by (auto simp: epoch_inv_def)

text \<open>The sequential reading of the scan.\<close>

lemma horizon_fold:
  "fold scan_slot ps h \<le> h \<and> (\<forall>p \<in> set ps. p \<noteq> EMPTY \<longrightarrow> fold scan_slot ps h \<le> p) \<and>
    (fold scan_slot ps h = h \<or> fold scan_slot ps h \<in> set ps)"
proof (induction ps arbitrary: h)
  case (Cons p ps)
  have "scan_slot p h = h \<or> scan_slot p h = p" by (auto simp: scan_slot_def min_def)
  then show ?case using Cons [of "scan_slot p h"] scan_slot_le [of p h] by (auto intro: order_trans)
qed simp

text \<open>A turn of \<^verbatim>\<open>pin\<close> that nothing interrupts returns the committed epoch.\<close>

lemma pin_turn_alone:
  assumes "s < length (lg_slots l)"
  shows "\<exists>l'. pin_turn s l = Some (l', Some (lg_committed l)) \<and> lg_slots l' ! s = lg_committed l \<and>
    lg_committed l' = lg_committed l"
  using assms by (simp add: pin_turn_def store_slot_def)

subsection \<open>A run\<close>

text \<open>A scan of the slots that nothing interrupts returns the fold.\<close>

lemma scan_rest:
  assumes "epoch_reachable e0 st" "es_writer st = Scanning i h" "i \<le> length (lg_slots (es_ledger st))"
  shows "\<exists>st'. epoch_reachable e0 st' \<and> es_readers st' = es_readers st \<and>
    fold scan_slot (drop i (lg_slots (es_ledger st))) h \<in> set (es_returned st')"
  using assms
proof (induction "length (lg_slots (es_ledger st)) - i" arbitrary: st i h)
  case 0
  then have "i = length (lg_slots (es_ledger st))" by simp
  then show ?case
    using epoch_reachable.step [OF 0(2) epoch_step.scan_return [OF 0(3)]]
    by (intro exI [of _ "st\<lparr>es_writer := WIdle, es_returned := es_returned st @ [h]\<rparr>"]) simp
next
  case (Suc n)
  let ?p = "lg_slots (es_ledger st) ! i"
  let ?st = "st\<lparr>es_writer := Scanning (Suc i) (scan_slot ?p h)\<rparr>"
  have i: "i < length (lg_slots (es_ledger st))" using Suc.hyps(2) by simp
  then have r: "epoch_reachable e0 ?st"
    using epoch_reachable.step [OF Suc.prems(1) epoch_step.scan_next [OF Suc.prems(2)]] by simp
  have "\<exists>st'. epoch_reachable e0 st' \<and> es_readers st' = es_readers ?st \<and>
      fold scan_slot (drop (Suc i) (lg_slots (es_ledger ?st))) (scan_slot ?p h) \<in> set (es_returned st')"
    using Suc.hyps(2) i by (intro Suc.hyps(1) r) simp_all
  moreover have "drop i (lg_slots (es_ledger st)) = ?p # drop (Suc i) (lg_slots (es_ledger st))"
    using i by (rule Cons_nth_drop_Suc [symmetric])
  ultimately show ?case by simp
qed

lemma epoch_example:
  "\<exists>st. epoch_reachable 7 st \<and> 7 \<in> set (es_returned st) \<and> es_readers st 2 = Pinned 7"
proof -
  define a where "a = (epoch_init 7)\<lparr>es_readers := (es_readers (epoch_init 7))(2 := Loaded 7)\<rparr>"
  have a: "epoch_reachable 7 a"
    using epoch_reachable.step [OF epoch_reachable.init epoch_step.pin_load, of 7 2]
    by (simp add: a_def epoch_init_def ledger_new_def READER_SLOTS_def)
  define l where "l = (es_ledger a)\<lparr>lg_slots := (lg_slots (es_ledger a))[2 := 7]\<rparr>"
  define b where "b = a\<lparr>es_ledger := l, es_readers := (es_readers a)(2 := Stored 7)\<rparr>"
  have "store_slot 2 7 (es_ledger a) = Some l"
    by (simp add: store_slot_Some l_def a_def epoch_init_def ledger_new_def READER_SLOTS_def)
  then have b: "epoch_reachable 7 b"
    using epoch_reachable.step [OF a epoch_step.pin_store [of a 2 7 l]] by (simp add: b_def a_def)
  define c where "c = b\<lparr>es_readers := (es_readers b)(2 := Pinned 7)\<rparr>"
  have c: "epoch_reachable 7 c"
    using epoch_reachable.step [OF b epoch_step.pin_return [of b 2 7]]
    by (simp add: b_def c_def l_def a_def epoch_init_def ledger_new_def)
  define d where "d = c\<lparr>es_writer := Scanning 0 7\<rparr>"
  have d: "epoch_reachable 7 d"
    using epoch_reachable.step [OF c epoch_step.scan_start [of c]]
    by (simp add: d_def c_def b_def l_def a_def epoch_init_def ledger_new_def)
  have slots: "lg_slots (es_ledger d) = [EMPTY, EMPTY, 7, EMPTY, EMPTY, EMPTY, EMPTY, EMPTY]"
    by (simp add: d_def c_def b_def l_def a_def epoch_init_def ledger_new_def READER_SLOTS_def numeral_eq_Suc)
  have "es_readers d 2 = Pinned 7" by (simp add: d_def c_def)
  moreover have "fold scan_slot (lg_slots (es_ledger d)) 7 = 7"
    by (simp add: slots scan_slot_def EMPTY_def)
  ultimately show ?thesis
    using scan_rest [OF d, of 0 7] by (auto simp: d_def)
qed

end
