(* ===== verification/Vectors.thy ===== *)
theory Vectors
  imports Patch Validity
begin

text \<open>
  \<^verbatim>\<open>crates/zu-vector/src/bitmap.rs\<close> and \<^verbatim>\<open>sel.rs\<close>: the predicate bitmaps and the selection
  vectors of the executor. Both live in arena blocks that are recycled dirty, so every
  constructor takes the words its block holds and the lemmas hold whatever they are. The
  bitmap answers the same interface as the validity bitmap; the kernel that turns a bitmap
  into a selection is shown to list the set bits in order, and refining a selection to be
  the filter it stands for.
\<close>

subsection \<open>Bitmaps\<close>

record bitmap =
  bm_words :: "u64 list"
  bm_len :: nat

text \<open>
  \<open>buf\<close> is what the arena handed out, \<^verbatim>\<open>alloc_of::<u64>(len.div_ceil(64))\<close>. The length is
  kept as \<^verbatim>\<open>len as u32\<close>.
\<close>

definition bitmap_new :: "u64 list \<Rightarrow> nat \<Rightarrow> bool \<Rightarrow> bitmap option" where
  "bitmap_new buf len s =
     do {
       ws \<leftarrow> (if s
              then let w = replicate (length buf) (- 1); tail = len mod 64
                   in if tail \<noteq> 0
                      then modify_at w (words_for len - 1) (\<lambda>_. push_bit tail 1 - 1)
                      else Some w
              else Some (replicate (length buf) 0));
       Some \<lparr>bm_words = ws, bm_len = len mod 2 ^ 32\<rparr>
     }"

definition bm_is_empty :: "bitmap \<Rightarrow> bool" where
  "bm_is_empty b \<longleftrightarrow> bm_len b = 0"

definition bm_get :: "bitmap \<Rightarrow> nat \<Rightarrow> bool option" where
  "bm_get b i = (if i < bm_len b then test_bit (bm_words b) i else None)"

definition bm_set :: "bitmap \<Rightarrow> nat \<Rightarrow> bitmap option" where
  "bm_set b i = (if i < bm_len b then map_option (\<lambda>ws. b\<lparr>bm_words := ws\<rparr>) (or_bit (bm_words b) i) else None)"

definition bm_clear :: "bitmap \<Rightarrow> nat \<Rightarrow> bitmap option" where
  "bm_clear b i = (if i < bm_len b then map_option (\<lambda>ws. b\<lparr>bm_words := ws\<rparr>) (and_not_bit (bm_words b) i) else None)"

definition mask_tail :: "bitmap \<Rightarrow> bitmap option" where
  "mask_tail b =
     (let tail = bm_len b mod 64
      in if tail \<noteq> 0
         then map_option (\<lambda>ws. b\<lparr>bm_words := ws\<rparr>)
                (modify_at (bm_words b) (bm_len b div 64) (\<lambda>w. w AND (push_bit tail 1 - 1)))
         else Some b)"

text \<open>
  Writing \<^verbatim>\<open>self.words[..].iter_mut().zip(other.words())\<close>: words past the shorter of the two
  stay as they are.
\<close>

fun zip_words :: "(u64 \<Rightarrow> u64 \<Rightarrow> u64) \<Rightarrow> u64 list \<Rightarrow> u64 list \<Rightarrow> u64 list" where
  "zip_words f (w # ws) (z # zs) = f w z # zip_words f ws zs"
| "zip_words f ws _ = ws"

definition and_with :: "bitmap \<Rightarrow> bitmap \<Rightarrow> bitmap option" where
  "and_with b c = (if bm_len b = bm_len c then Some (b\<lparr>bm_words := zip_words (AND) (bm_words b) (bm_words c)\<rparr>) else None)"

definition or_with :: "bitmap \<Rightarrow> bitmap \<Rightarrow> bitmap option" where
  "or_with b c = (if bm_len b = bm_len c then Some (b\<lparr>bm_words := zip_words (OR) (bm_words b) (bm_words c)\<rparr>) else None)"

definition bm_count_ones :: "bitmap \<Rightarrow> nat" where
  "bm_count_ones b = count_words (bm_words b)"

subsection \<open>Selections\<close>

definition VECTOR_SIZE :: nat where "VECTOR_SIZE = 2048"

record sel_vector =
  sv_idx :: "u16 list"
  sv_len :: nat

text \<open>\<open>buf\<close> is the block of \<^verbatim>\<open>alloc_of::<u16>(cap)\<close>.\<close>

definition sel_with_capacity :: "u16 list \<Rightarrow> sel_vector option" where
  "sel_with_capacity buf = (if length buf \<le> VECTOR_SIZE then Some \<lparr>sv_idx = buf, sv_len = 0\<rparr> else None)"

text \<open>The first loop: where each word's indices start, and how many there are in all.\<close>

fun word_offsets :: "nat \<Rightarrow> u64 list \<Rightarrow> nat list \<times> nat" where
  "word_offsets n [] = ([], n)"
| "word_offsets n (w # ws) = (let (offs, m) = word_offsets (n + count_ones w) ws in (n # offs, m))"

text \<open>The \<^verbatim>\<open>while w != 0\<close> loop of one word.\<close>

function extract_word :: "u16 \<Rightarrow> nat \<Rightarrow> u64 \<Rightarrow> u16 list \<Rightarrow> u16 list option" where
  "extract_word base at w out =
     (if w = 0 then Some out
      else do {
        out1 \<leftarrow> modify_at out at (\<lambda>_. base + word_of_nat (trailing_zeros w));
        extract_word base (at + 1) (w AND (w - 1)) out1
      })"
  by auto
termination by (relation "measure (\<lambda>(base, at, w, out). length (ones w))") (auto intro: clear_lowest_less)

declare extract_word.simps [simp del]

fun extract_words :: "nat list \<Rightarrow> nat \<Rightarrow> u64 list \<Rightarrow> u16 list \<Rightarrow> u16 list option" where
  "extract_words offsets wi [] out = Some out"
| "extract_words offsets wi (w # ws) out =
     do {
       at \<leftarrow> idx offsets wi;
       out1 \<leftarrow> extract_word (word_of_nat (wi * 64)) at w out;
       extract_words offsets (wi + 1) ws out1
     }"

text \<open>
  The offsets array has one slot for each word a vector can have; the slots past the last
  word stay zero.
\<close>

definition sel_from_bitmap :: "u16 list \<Rightarrow> bitmap \<Rightarrow> sel_vector option" where
  "sel_from_bitmap buf bits =
     do {
       sel \<leftarrow> sel_with_capacity buf;
       let words = bm_words bits; slots = VECTOR_SIZE div 64 in
       if length words \<le> slots then
         let (offs, n) = word_offsets 0 words in do {
         out \<leftarrow> extract_words (offs @ replicate (slots - length words) 0) 0 words (sv_idx sel);
         Some (sel\<lparr>sv_idx := out, sv_len := n\<rparr>)
       }
       else None
     }"

definition sel_slice :: "sel_vector \<Rightarrow> u16 list" where
  "sel_slice sel = take (sv_len sel) (sv_idx sel)"

text \<open>Refining: every row is written, the cursor moves past it only when it is kept.\<close>

fun refine_rows :: "bitmap \<Rightarrow> u16 list \<Rightarrow> nat \<Rightarrow> u16 list \<Rightarrow> (nat \<times> u16 list) option" where
  "refine_rows bits [] n dst = Some (n, dst)"
| "refine_rows bits (row # rows) n dst =
     do {
       dst1 \<leftarrow> modify_at dst n (\<lambda>_. row);
       keep \<leftarrow> bm_get bits (unat row);
       refine_rows bits rows (n + (if keep then 1 else 0)) dst1
     }"

definition sel_refine :: "u16 list \<Rightarrow> sel_vector \<Rightarrow> bitmap \<Rightarrow> sel_vector option" where
  "sel_refine buf sel bits =
     do {
       out \<leftarrow> sel_with_capacity buf;
       (n, dst) \<leftarrow> refine_rows bits (sel_slice sel) 0 (sv_idx out);
       Some (out\<lparr>sv_idx := dst, sv_len := n\<rparr>)
     }"

definition sel_push :: "sel_vector \<Rightarrow> u16 \<Rightarrow> sel_vector option" where
  "sel_push sel row =
     do {
       ix \<leftarrow> modify_at (sv_idx sel) (sv_len sel) (\<lambda>_. row);
       Some (sel\<lparr>sv_idx := ix, sv_len := sv_len sel + 1\<rparr>)
     }"

definition sel_is_empty :: "sel_vector \<Rightarrow> bool" where
  "sel_is_empty sel \<longleftrightarrow> sv_len sel = 0"

subsection \<open>The bits of a bitmap\<close>

definition bitmap_wf :: "bitmap \<Rightarrow> bool" where
  "bitmap_wf b \<longleftrightarrow> length (bm_words b) = words_for (bm_len b) \<and> tail_zero (bm_len b) (bm_words b)"

text \<open>The same words read as a validity bitmap.\<close>

definition as_validity :: "bitmap \<Rightarrow> validity" where
  "as_validity b = \<lparr>v_len = bm_len b, v_words = bm_words b\<rparr>"

lemma as_validity_simps [simp]:
  "v_len (as_validity b) = bm_len b" "v_words (as_validity b) = bm_words b"
  "validity_wf (as_validity b) = bitmap_wf b" "v_get (as_validity b) i = bm_get b i"
  "count_valid (as_validity b) = bm_count_ones b"
  by (simp_all add: as_validity_def validity_wf_def bitmap_wf_def v_get_def bm_get_def count_valid_def bm_count_ones_def)

lemma bm_set_validity: "map_option as_validity (bm_set b i) = v_set (as_validity b) i"
  by (cases "or_bit (bm_words b) i") (simp_all add: bm_set_def v_set_def as_validity_def)

lemma bm_clear_validity: "map_option as_validity (bm_clear b i) = v_unset (as_validity b) i"
  by (cases "and_not_bit (bm_words b) i") (simp_all add: bm_clear_def v_unset_def as_validity_def)

lemma bm_get_eq: "bitmap_wf b \<Longrightarrow> i < bm_len b \<Longrightarrow> bm_get b i = Some (wbit (bm_words b) i)"
  using v_get_eq [of "as_validity b" i] by simp

interpretation bitmap_bits: bit_vector bitmap_wf bm_len bm_get bm_set bm_clear bm_count_ones
proof unfold_locales
  fix b i assume b: "bitmap_wf b" "i < bm_len b"
  then show "\<exists>x. bm_get b i = Some x" by (simp add: bm_get_eq)
  show "\<exists>b'. bm_set b i = Some b' \<and> bitmap_wf b' \<and> bm_len b' = bm_len b \<and>
      (\<forall>j < bm_len b. bm_get b' j = (if j = i then Some True else bm_get b j))"
    using validity_bits.put1_law [of "as_validity b" i] b
    by (auto simp flip: bm_set_validity simp: as_validity_simps(4) [symmetric] simp del: as_validity_simps(4))
  show "\<exists>b'. bm_clear b i = Some b' \<and> bitmap_wf b' \<and> bm_len b' = bm_len b \<and>
      (\<forall>j < bm_len b. bm_get b' j = (if j = i then Some False else bm_get b j))"
    using validity_bits.put0_law [of "as_validity b" i] b
    by (auto simp flip: bm_clear_validity simp: as_validity_simps(4) [symmetric] simp del: as_validity_simps(4))
next
  fix b assume "bitmap_wf b"
  then show "bm_count_ones b = card {i. i < bm_len b \<and> bm_get b i = Some True}"
    using validity_bits.count_law [of "as_validity b"] by simp
qed

lemma words_for_tail: "n mod 64 \<noteq> 0 \<Longrightarrow> words_for n = n div 64 + 1"
proof -
  assume "n mod 64 \<noteq> 0"
  then have "n = n div 64 * 64 + n mod 64" "0 < n mod 64" "n mod 64 < 64" by simp_all
  then show ?thesis
    unfolding words_for_def div_eq_between [of 64 "n + 63" "n div 64 + 1", simplified] by linarith
qed

lemma low_mask: "(push_bit k 1 - 1 :: u64) = mask k"
  by (simp add: mask_eq_exp_minus_1 push_bit_eq_mult)

text \<open>Masking the tail keeps the bits below the length and clears the others.\<close>

lemma mask_tail_correct:
  assumes len: "length (bm_words b) = words_for (bm_len b)"
  shows "\<exists>b'. mask_tail b = Some b' \<and> bitmap_wf b' \<and> bm_len b' = bm_len b \<and>
    (\<forall>i < bm_len b. bm_get b' i = bm_get b i)"
proof (cases "bm_len b mod 64 = 0")
  case True
  then have "64 * words_for (bm_len b) = bm_len b" by (auto simp: words_for_def)
  then show ?thesis using True len by (auto simp: mask_tail_def bitmap_wf_def tail_zero_def)
next
  case False
  let ?n = "bm_len b" and ?t = "bm_len b div 64"
  define ws where "ws = (bm_words b)[?t := bm_words b ! ?t AND mask (?n mod 64)]"
  have l: "length (bm_words b) = ?t + 1" using len words_for_tail [OF False] by simp
  have mt: "mask_tail b = Some (b\<lparr>bm_words := ws\<rparr>)"
    using False l unfolding mask_tail_def low_mask by (simp add: Let_def ws_def)
  have bits: "wbit ws i \<longleftrightarrow> i < ?n \<and> wbit (bm_words b) i" if "i < 64 * length (bm_words b)" for i
  proof (cases "i div 64 = ?t")
    case True
    have "i mod 64 < ?n mod 64 \<longleftrightarrow> i < ?n"
      using True div_mult_mod_eq [of i 64] div_mult_mod_eq [of ?n 64] by linarith
    then show ?thesis using True l by (auto simp: ws_def wbit_def bit_and_iff bit_mask_iff)
  next
    case neq: False
    have "i div 64 < ?t + 1" using that l by (simp add: div_less_iff_less_mult)
    then have "i div 64 < ?t" using neq by simp
    then have "i < ?n" by (metis div_le_mono not_less)
    then show ?thesis using neq by (simp add: ws_def wbit_def)
  qed
  have "tail_zero ?n ws" unfolding tail_zero_def using bits by (auto simp: ws_def)
  moreover have "length ws = words_for ?n" using len by (simp add: ws_def)
  moreover have "bm_get (b\<lparr>bm_words := ws\<rparr>) i = bm_get b i" if "i < ?n" for i
  proof -
    have d: "i div 64 < length (bm_words b)" using that len by (simp add: words_for_less)
    then have "i < 64 * length (bm_words b)" by (simp add: div_less_iff_less_mult)
    then show ?thesis using bits [of i] that d by (simp add: bm_get_def test_bit_eq ws_def)
  qed
  ultimately show ?thesis using mt by (simp add: bitmap_wf_def)
qed

lemma bitmap_new_correct:
  assumes buf: "length buf = words_for len" and small: "len < 2 ^ 32"
  shows "\<exists>b. bitmap_new buf len s = Some b \<and> bitmap_wf b \<and> bm_len b = len \<and> (\<forall>i < len. bm_get b i = Some s)"
proof (cases s)
  case True
  let ?b = "\<lparr>bm_words = replicate (words_for len) (- 1), bm_len = len\<rparr>"
  have "bitmap_new buf len s = mask_tail ?b"
  proof (cases "len mod 64 = 0")
    case True then show ?thesis using \<open>s\<close> small buf by (simp add: bitmap_new_def mask_tail_def)
  next
    case False
    then show ?thesis using \<open>s\<close> small buf words_for_tail [OF False]
      unfolding bitmap_new_def mask_tail_def low_mask by (simp add: Let_def del: replicate_Suc)
  qed
  moreover have "bm_get ?b i = Some True" if "i < len" for i
    using that words_for_less [OF that] by (simp add: bm_get_def test_bit_eq wbit_def)
  ultimately show ?thesis using mask_tail_correct [of ?b] True by auto
next
  case False
  have "bm_get \<lparr>bm_words = replicate (words_for len) 0, bm_len = len\<rparr> i = Some False" if "i < len" for i
    using that words_for_less [OF that] by (simp add: bm_get_def test_bit_eq wbit_def)
  then show ?thesis using False small buf
    by (auto simp: bitmap_new_def bitmap_wf_def tail_zero_def div_less_iff_less_mult dest!: wbit_replicate_0)
qed

lemma zip_words_nth:
  "length ws = length zs \<Longrightarrow> length (zip_words f ws zs) = length ws \<and> (\<forall>i < length ws. zip_words f ws zs ! i = f (ws ! i) (zs ! i))"
  by (induction ws zs rule: list_induct2) (auto simp: nth_Cons')

lemma combine_correct:
  assumes wf: "bitmap_wf b" "bitmap_wf c" "bm_len b = bm_len c"
    and f: "\<And>x y i. bit (f x y) i \<longleftrightarrow> g (bit x i) (bit y i)" and g: "\<not> g False False"
  shows "bitmap_wf (b\<lparr>bm_words := zip_words f (bm_words b) (bm_words c)\<rparr>) \<and>
    (\<forall>i < bm_len b. bm_get (b\<lparr>bm_words := zip_words f (bm_words b) (bm_words c)\<rparr>) i =
      Some (g (wbit (bm_words b) i) (wbit (bm_words c) i)))"
proof -
  let ?ws = "zip_words f (bm_words b) (bm_words c)"
  have len: "length (bm_words b) = length (bm_words c)" using wf by (simp add: bitmap_wf_def)
  have w: "wbit ?ws i \<longleftrightarrow> g (wbit (bm_words b) i) (wbit (bm_words c) i)" if "i div 64 < length (bm_words b)" for i
    using zip_words_nth [OF len, of f] that by (simp add: wbit_def f)
  have "bitmap_wf (b\<lparr>bm_words := ?ws\<rparr>)"
    using wf zip_words_nth [OF len, of f] w g len
    by (auto simp: bitmap_wf_def tail_zero_def div_less_iff_less_mult)
  then show ?thesis using w wf by (simp add: bm_get_eq bitmap_wf_def words_for_less)
qed

lemma and_with_correct:
  assumes "bitmap_wf b" "bitmap_wf c" "bm_len b = bm_len c"
  shows "\<exists>d. and_with b c = Some d \<and> bitmap_wf d \<and> bm_len d = bm_len b \<and>
    (\<forall>i < bm_len b. bm_get d i = Some (bm_get b i = Some True \<and> bm_get c i = Some True))"
  using combine_correct [OF assms, of "(AND)" "(\<and>)"] assms
  by (simp add: and_with_def bit_and_iff bm_get_eq [OF assms(1)] bm_get_eq [OF assms(2)])

lemma or_with_correct:
  assumes "bitmap_wf b" "bitmap_wf c" "bm_len b = bm_len c"
  shows "\<exists>d. or_with b c = Some d \<and> bitmap_wf d \<and> bm_len d = bm_len b \<and>
    (\<forall>i < bm_len b. bm_get d i = Some (bm_get b i = Some True \<or> bm_get c i = Some True))"
  using combine_correct [OF assms, of "(OR)" "(\<or>)"] assms
  by (simp add: or_with_def bit_or_iff bm_get_eq [OF assms(1)] bm_get_eq [OF assms(2)])

subsection \<open>Selections\<close>

lemma modify_set: "i < length xs \<Longrightarrow> modify_at xs i (\<lambda>_. y) = Some (take i xs @ y # drop (Suc i) xs)"
  by (simp add: upd_conv_take_nth_drop)

lemma extract_word_ones:
  "at + length (ones w) \<le> length out \<Longrightarrow>
    extract_word base at w out =
      Some (take at out @ map (\<lambda>i. base + word_of_nat i) (ones w) @ drop (at + length (ones w)) out)"
proof (induction base at w out rule: extract_word.induct)
  case (1 base at w out)
  show ?case
  proof (cases "w = 0")
    case True then show ?thesis by (simp add: extract_word.simps)
  next
    case False
    note o = ones_rec [OF False]
    let ?v = "base + word_of_nat (trailing_zeros w)"
    let ?out1 = "take at out @ ?v # drop (Suc at) out"
    have at: "at < length out" using "1.prems" o by simp
    have "extract_word base at w out = extract_word base (at + 1) (w AND (w - 1)) ?out1"
      using False modify_set [OF at, of ?v] by (subst extract_word.simps) simp
    also have "\<dots> = Some (take (at + 1) ?out1 @ map (\<lambda>i. base + word_of_nat i) (ones (w AND (w - 1))) @
        drop (at + 1 + length (ones (w AND (w - 1)))) ?out1)"
      using "1.IH" [OF False, of ?out1] modify_set [OF at, of ?v] "1.prems" o at by simp
    finally show ?thesis using o at by (simp add: min_def add.commute)
  qed
qed

lemma word_offsets_length: "length (fst (word_offsets n ws)) = length ws \<and> snd (word_offsets n ws) = n + length (word_positions i ws)"
proof (induction ws arbitrary: n)
  case (Cons w ws)
  obtain offs m where "word_offsets (n + count_ones w) ws = (offs, m)" by fastforce
  then show ?case using Cons [of "n + count_ones w"] by (simp add: length_word_positions)
qed (simp add: length_word_positions)

lemma extract_words_positions:
  assumes "word_offsets n ws = (offs, m)" "\<And>k. k < length ws \<Longrightarrow> wi + k < length offsets \<and> offsets ! (wi + k) = offs ! k"
    and "m \<le> length out"
  shows "extract_words offsets wi ws out = Some (take n out @ map word_of_nat (word_positions wi ws) @ drop m out)"
  using assms
proof (induction ws arbitrary: n offs wi out)
  case Nil
  then show ?case by (simp add: word_positions_def)
next
  case (Cons w ws)
  obtain offs1 where o1: "word_offsets (n + count_ones w) ws = (offs1, m)" "offs = n # offs1"
    using Cons.prems(1) by (auto simp: Let_def split: prod.splits)
  have at: "idx offsets wi = Some n" using Cons.prems(2) [of 0] o1(2) by simp
  have m: "m = n + count_ones w + length (word_positions (Suc wi) ws)"
    using word_offsets_length [of "n + count_ones w" ws "Suc wi"] o1(1) by simp
  let ?out1 = "take n out @ map (\<lambda>i. word_of_nat (wi * 64) + word_of_nat i) (ones w) @ drop (n + length (ones w)) out"
  have e: "extract_word (word_of_nat (wi * 64)) n w out = Some ?out1"
    using Cons.prems(3) m by (intro extract_word_ones) (simp add: length_ones)
  have nl: "n \<le> length out" using Cons.prems(3) m by simp
  have "extract_words offsets (Suc wi) ws ?out1 =
      Some (take (n + count_ones w) ?out1 @ map word_of_nat (word_positions (Suc wi) ws) @ drop m ?out1)"
  proof (rule Cons.IH [OF o1(1)])
    fix k assume "k < length ws"
    then show "Suc wi + k < length offsets \<and> offsets ! (Suc wi + k) = offs1 ! k"
      using Cons.prems(2) [of "Suc k"] o1(2) by simp
  qed (use Cons.prems(3) m nl in \<open>simp add: length_ones\<close>)
  moreover have "take (n + count_ones w) ?out1 = take n out @ map (\<lambda>i. word_of_nat (wi * 64) + word_of_nat i) (ones w)"
    using nl by (simp add: length_ones min_def)
  moreover have "drop m ?out1 = drop m out" using m nl by (simp add: length_ones ac_simps)
  ultimately show ?case
    using at e by (simp add: word_positions_Cons o_def add.commute)
qed

lemma sel_from_bitmap_correct:
  assumes wf: "bitmap_wf bits" and len: "bm_len bits \<le> VECTOR_SIZE" and buf: "length buf = bm_len bits"
  shows "\<exists>sel. sel_from_bitmap buf bits = Some sel \<and> sv_len sel = bm_count_ones bits \<and>
    sel_slice sel = map word_of_nat (filter (\<lambda>i. bm_get bits i = Some True) [0..<bm_len bits])"
proof -
  let ?ws = "bm_words bits"
  obtain offs n where o: "word_offsets 0 ?ws = (offs, n)" by fastforce
  have offs: "length offs = length ?ws" and n: "n = length (word_positions 0 ?ws)"
    using word_offsets_length [of 0 ?ws 0] o by auto
  have wl: "length ?ws \<le> 32"
    using wf len by (auto simp: bitmap_wf_def words_for_def VECTOR_SIZE_def)
  have pos: "word_positions 0 ?ws = filter (\<lambda>i. bm_get bits i = Some True) [0..<bm_len bits]"
  proof -
    have le: "bm_len bits \<le> 64 * length ?ws" using wf words_for_cover by (simp add: bitmap_wf_def)
    have split: "[0..<64 * length ?ws] = [0..<bm_len bits] @ [bm_len bits..<64 * length ?ws]"
      using upt_add_eq_append [of 0 "bm_len bits" "64 * length ?ws - bm_len bits"] le by simp
    have "word_positions 0 ?ws = filter (wbit ?ws) ([0..<bm_len bits] @ [bm_len bits..<64 * length ?ws])"
      unfolding word_positions_filter split wbit_def [abs_def] ..
    also have "\<dots> = filter (wbit ?ws) [0..<bm_len bits]"
      using wf by (simp add: bitmap_wf_def tail_zero_def filter_empty_conv)
    also have "\<dots> = filter (\<lambda>i. bm_get bits i = Some True) [0..<bm_len bits]"
      using wf by (intro filter_cong) (auto simp: bm_get_eq)
    finally show ?thesis .
  qed
  have nb: "n \<le> length buf"
    unfolding n pos buf by (rule order_trans [OF length_filter_le]) simp
  have "extract_words (offs @ replicate (32 - length ?ws) 0) 0 ?ws buf =
      Some (take 0 buf @ map word_of_nat (word_positions 0 ?ws) @ drop n buf)"
    by (rule extract_words_positions [OF o]) (use offs nb in \<open>auto simp: nth_append\<close>)
  moreover have "n = bm_count_ones bits" using n by (simp add: length_word_positions bm_count_ones_def count_words_def)
  ultimately show ?thesis
    using o wl len buf n pos by (simp add: sel_from_bitmap_def sel_with_capacity_def VECTOR_SIZE_def Let_def sel_slice_def)
qed

lemma refine_rows_correct:
  assumes "\<forall>r \<in> set rows. unat r < bm_len bits" "bitmap_wf bits" "n + length rows \<le> length dst"
  shows "\<exists>n' dst'. refine_rows bits rows n dst = Some (n', dst') \<and>
    take n' dst' = take n dst @ filter (\<lambda>r. bm_get bits (unat r) = Some True) rows"
  using assms
proof (induction rows arbitrary: n dst)
  case (Cons r rows)
  let ?dst1 = "take n dst @ r # drop (Suc n) dst"
  have n: "n < length dst" using Cons.prems by simp
  obtain k where k: "bm_get bits (unat r) = Some k" using Cons.prems by (simp add: bm_get_eq)
  let ?n1 = "n + (if k then 1 else 0)"
  have "\<exists>n' dst'. refine_rows bits rows ?n1 ?dst1 = Some (n', dst') \<and>
      take n' dst' = take ?n1 ?dst1 @ filter (\<lambda>r. bm_get bits (unat r) = Some True) rows"
    by (rule Cons.IH) (use Cons.prems n in auto)
  moreover have "take ?n1 ?dst1 = take n dst @ (if k then [r] else [])" using n by (simp add: min_def)
  ultimately show ?case using k modify_set [OF n, of r] by auto
qed simp

lemma sel_refine_correct:
  assumes "bitmap_wf bits" "\<forall>r \<in> set (sel_slice sel). unat r < bm_len bits"
    and "length buf = length (sel_slice sel)" "length buf \<le> VECTOR_SIZE"
  shows "\<exists>out. sel_refine buf sel bits = Some out \<and>
    sel_slice out = filter (\<lambda>r. bm_get bits (unat r) = Some True) (sel_slice sel)"
proof -
  obtain n dst where "refine_rows bits (sel_slice sel) 0 buf = Some (n, dst)"
      "take n dst = filter (\<lambda>r. bm_get bits (unat r) = Some True) (sel_slice sel)"
    using refine_rows_correct [OF assms(2,1), of 0 buf] assms(3) by auto
  then show ?thesis using assms(4) by (simp add: sel_refine_def sel_with_capacity_def sel_slice_def)
qed

lemma sel_push_correct:
  assumes "sv_len sel < length (sv_idx sel)"
  shows "\<exists>sel'. sel_push sel row = Some sel' \<and> sel_slice sel' = sel_slice sel @ [row]"
  using assms by (simp add: sel_push_def sel_slice_def take_Suc_conv_app_nth)

end
