(* ===== verification/SetOps.thy ===== *)
theory SetOps
  imports ZuPrelude
begin

text \<open>
  \<^verbatim>\<open>crates/zu-vector/src/kernels/setops.rs\<close>: intersection of two sorted, duplicate-free
  runs, the inner loop of the worst case optimal join. A balanced pair is merged, a long
  balanced pair is cut into segments merged in one interleaved loop, a lopsided pair is
  galloped. All three write into a caller's slice, modelled as a list of fixed length that
  an index out of range does not write; each is shown equal to the plain intersection.
\<close>

definition GALLOP_RATIO :: nat where "GALLOP_RATIO = 32"
definition SPLIT_MIN :: nat where "SPLIT_MIN = 64"

subsection \<open>The merge\<close>

function merge_loop :: "u64 list \<Rightarrow> u64 list \<Rightarrow> nat \<Rightarrow> nat \<Rightarrow> nat \<Rightarrow> u64 list \<Rightarrow> (nat \<times> u64 list) option" where
  "merge_loop a b i j n out =
     (if i < length a \<and> j < length b
      then let x = a ! i; y = b ! j in do {
        out1 \<leftarrow> modify_at out n (\<lambda>_. x);
        merge_loop a b (i + of_bool (x \<le> y)) (j + of_bool (y \<le> x)) (n + of_bool (x = y)) out1
      }
      else Some (n, out))"
  by auto
termination
  by (relation "measure (\<lambda>(a, b, i, j, n, out). (length a - i) + (length b - j))") auto

declare merge_loop.simps [simp del]

definition merge_runs :: "u64 list \<Rightarrow> u64 list \<Rightarrow> u64 list \<Rightarrow> (nat \<times> u64 list) option" where
  "merge_runs a b out = merge_loop a b 0 0 0 out"

subsection \<open>The segmented merge\<close>

text \<open>\<^verbatim>\<open>b.partition_point(p)\<close> of a partitioned slice.\<close>

definition partition_point :: "('a \<Rightarrow> bool) \<Rightarrow> 'a list \<Rightarrow> nat" where
  "partition_point p xs = length (takeWhile p xs)"

definition copy_within :: "'a list \<Rightarrow> nat \<Rightarrow> nat \<Rightarrow> nat \<Rightarrow> 'a list option" where
  "copy_within xs s e d =
     (if s \<le> e \<and> e \<le> length xs \<and> d + (e - s) \<le> length xs
      then Some (take d xs @ take (e - s) (drop s xs) @ drop (d + (e - s)) xs) else None)"

definition cuts_a :: "nat \<Rightarrow> u64 list \<Rightarrow> nat list" where
  "cuts_a N a = map (\<lambda>k. length a * k div N) [0..<N]"

definition cuts_a_end :: "nat \<Rightarrow> u64 list \<Rightarrow> nat list" where
  "cuts_a_end N a = map (\<lambda>k. length a * (k + 1) div N) [0..<N]"

definition cuts_b :: "nat \<Rightarrow> u64 list \<Rightarrow> u64 list \<Rightarrow> nat list option" where
  "cuts_b N a b =
     map_opt (\<lambda>k. if k = 0 then Some 0
                  else do { pivot \<leftarrow> idx a (cuts_a N a ! k); Some (partition_point (\<lambda>y. y < pivot) b) }) [0..<N]"

fun seg_offsets :: "nat \<Rightarrow> (nat \<times> nat) list \<Rightarrow> nat list" where
  "seg_offsets o1 [] = []"
| "seg_offsets o1 ((la, lb) # segs) = o1 # seg_offsets (o1 + min la lb) segs"

record seg_state =
  ss_i :: "nat list"
  ss_j :: "nat list"
  ss_n :: "nat list"
  ss_out :: "u64 list"

text \<open>One turn of segment \<open>k\<close>.\<close>

definition seg_step :: "u64 list \<Rightarrow> u64 list \<Rightarrow> nat \<Rightarrow> seg_state \<Rightarrow> seg_state option" where
  "seg_step a b k st =
     do {
       x \<leftarrow> idx a (ss_i st ! k);
       y \<leftarrow> idx b (ss_j st ! k);
       out1 \<leftarrow> modify_at (ss_out st) (ss_n st ! k) (\<lambda>_. x);
       Some \<lparr>ss_i = (ss_i st)[k := ss_i st ! k + of_bool (x \<le> y)],
             ss_j = (ss_j st)[k := ss_j st ! k + of_bool (y \<le> x)],
             ss_n = (ss_n st)[k := ss_n st ! k + of_bool (x = y)],
             ss_out = out1\<rparr>
     }"

definition all_active :: "nat \<Rightarrow> nat list \<Rightarrow> nat list \<Rightarrow> seg_state \<Rightarrow> bool" where
  "all_active N ca_end cb_end st \<longleftrightarrow>
     list_all (\<lambda>k. ss_i st ! k < ca_end ! k \<and> ss_j st ! k < cb_end ! k) [0..<N]"

partial_function (option) seg_loop ::
    "u64 list \<Rightarrow> u64 list \<Rightarrow> nat \<Rightarrow> nat list \<Rightarrow> nat list \<Rightarrow> seg_state \<Rightarrow> seg_state option" where
  "seg_loop a b N ca_end cb_end st =
     (if all_active N ca_end cb_end st
      then do { st1 \<leftarrow> fold_opt (seg_step a b) [0..<N] st; seg_loop a b N ca_end cb_end st1 }
      else Some st)"

text \<open>The tail of segment \<open>k\<close>: the plain merge on what is left of it.\<close>

definition seg_tail :: "u64 list \<Rightarrow> u64 list \<Rightarrow> nat \<Rightarrow> nat list \<Rightarrow> nat list \<Rightarrow> nat list \<Rightarrow> nat \<Rightarrow> seg_state \<Rightarrow> seg_state option" where
  "seg_tail a b N ca_end cb_end off k st =
     (let cap = (if k = N - 1 then length (ss_out st) else off ! (k + 1)) in do {
        sa \<leftarrow> get_range a (ss_i st ! k) (ca_end ! k);
        sb \<leftarrow> get_range b (ss_j st ! k) (cb_end ! k);
        so \<leftarrow> get_range (ss_out st) (ss_n st ! k) cap;
        (m, so1) \<leftarrow> merge_runs sa sb so;
        Some (st\<lparr>ss_n := (ss_n st)[k := ss_n st ! k + m],
                 ss_out := take (ss_n st ! k) (ss_out st) @ so1 @ drop cap (ss_out st)\<rparr>)
      })"

definition seg_compact :: "nat list \<Rightarrow> nat list \<Rightarrow> nat \<Rightarrow> nat \<times> u64 list \<Rightarrow> (nat \<times> u64 list) option" where
  "seg_compact off n k st =
     do {
       out1 \<leftarrow> copy_within (snd st) (off ! k) (n ! k) (fst st);
       Some (fst st + (n ! k - off ! k), out1)
     }"

definition split_merge :: "nat \<Rightarrow> u64 list \<Rightarrow> u64 list \<Rightarrow> u64 list \<Rightarrow> (nat \<times> u64 list) option" where
  "split_merge N a b out =
     do {
       cb \<leftarrow> cuts_b N a b;
       let ca = cuts_a N a; ca_end = cuts_a_end N a;
           cb_end = tl cb @ [length b];
           off = seg_offsets 0 (zip (map2 (-) ca_end ca) (map2 (-) cb_end cb)) in do {
       st \<leftarrow> seg_loop a b N ca_end cb_end \<lparr>ss_i = ca, ss_j = cb, ss_n = off, ss_out = out\<rparr>;
       st1 \<leftarrow> fold_opt (seg_tail a b N ca_end cb_end off) [0..<N] st;
       n0 \<leftarrow> idx (ss_n st1) 0;
       fold_opt (seg_compact off (ss_n st1)) [1..<N] (n0, ss_out st1)
     }}"

subsection \<open>The gallop\<close>

text \<open>\<^verbatim>\<open>xs.binary_search(&x)\<close> of a sorted, duplicate-free slice: where the element is, or
  where it would go.\<close>

definition binary_search :: "u64 list \<Rightarrow> u64 \<Rightarrow> nat + nat" where
  "binary_search xs x =
     (let k = length (takeWhile (\<lambda>y. y < x) xs) in if k < length xs \<and> xs ! k = x then Inr k else Inl k)"

partial_function (option) gallop_window :: "u64 list \<Rightarrow> u64 \<Rightarrow> nat \<Rightarrow> nat \<Rightarrow> nat option" where
  "gallop_window long x lo stp =
     (if lo + stp < length long \<and> long ! (lo + stp) < x then gallop_window long x lo (stp * 2) else Some stp)"

fun gallop_loop :: "u64 list \<Rightarrow> u64 list \<Rightarrow> nat \<Rightarrow> nat \<Rightarrow> u64 list \<Rightarrow> (nat \<times> u64 list) option" where
  "gallop_loop long [] n lo out = Some (n, out)"
| "gallop_loop long (x # xs) n lo out =
     do {
       stp \<leftarrow> gallop_window long x lo 1;
       w \<leftarrow> get_range long lo (min (lo + stp + 1) (length long));
       (n1, lo1, out1) \<leftarrow>
         (case binary_search w x of
            Inr off \<Rightarrow> do { out1 \<leftarrow> modify_at out n (\<lambda>_. x); Some (n + 1, lo + (off + 1), out1) }
          | Inl off \<Rightarrow> Some (n, lo + off, out));
       if lo1 \<ge> length long then Some (n1, out1) else gallop_loop long xs n1 lo1 out1
     }"

definition gallop_intersect :: "u64 list \<Rightarrow> u64 list \<Rightarrow> u64 list \<Rightarrow> (nat \<times> u64 list) option" where
  "gallop_intersect short long out = gallop_loop long short 0 0 out"

subsection \<open>The entry\<close>

definition intersect_sorted :: "u64 list \<Rightarrow> u64 list \<Rightarrow> u64 list \<Rightarrow> (nat \<times> u64 list) option" where
  "intersect_sorted a0 b0 out =
     (let (a, b) = (if length a0 \<le> length b0 then (a0, b0) else (b0, a0))
      in if a = [] then Some (0, out)
         else if length b div length a \<ge> GALLOP_RATIO then gallop_intersect a b out
         else if length a \<ge> 4 * SPLIT_MIN then split_merge 4 a b out
         else if length a \<ge> SPLIT_MIN then split_merge 2 a b out
         else merge_runs a b out)"

subsection \<open>The plain intersection\<close>

definition meet :: "u64 list \<Rightarrow> u64 list \<Rightarrow> u64 list" where
  "meet a b = filter (\<lambda>x. x \<in> set b) a"

abbreviation "asc \<equiv> sorted_wrt ((<) :: u64 \<Rightarrow> u64 \<Rightarrow> bool)"

lemma meet_simps [simp]: "meet [] b = []" "meet a [] = []"
  by (simp_all add: meet_def)

lemma meet_step:
  assumes "asc (x # xs)" "asc (y # ys)"
  shows "meet (x # xs) (y # ys) =
    (if x = y then x # meet xs ys else if x < y then meet xs (y # ys) else meet (x # xs) ys)"
proof -
  have y: "y \<notin> set xs" if "\<not> x < y" using assms(1) that by auto
  have x: "x \<notin> set ys" if "\<not> y < x" using assms(2) that by auto
  consider "x = y" | "x < y" | "y < x" by fastforce
  then show ?thesis unfolding meet_def by cases (use x y in \<open>auto intro!: filter_cong\<close>)
qed

lemma asc_drop: "asc xs \<Longrightarrow> asc (drop k xs)"
  by (rule sorted_wrt_drop)

lemma meet_length: "asc a \<Longrightarrow> asc b \<Longrightarrow> length (meet a b) \<le> min (length a) (length b)"
proof -
  assume s: "asc a" "asc b"
  have "distinct a" "distinct b" using s by (simp_all add: strict_sorted_iff)
  then have "card (set (meet a b)) \<le> card (set b)" "distinct (meet a b)"
    by (auto simp: meet_def intro: card_mono)
  then have "length (meet a b) \<le> length b"
    using \<open>distinct b\<close> by (simp add: distinct_card)
  then show ?thesis by (simp add: meet_def)
qed

lemma meet_commute: "asc a \<Longrightarrow> asc b \<Longrightarrow> meet a b = meet b a"
proof -
  assume "asc a" "asc b"
  then have "asc (meet a b)" "asc (meet b a)" "set (meet a b) = set (meet b a)"
    by (auto simp: meet_def intro: sorted_wrt_filter)
  then show ?thesis by (intro strict_sorted_equal)
qed

lemma modify_put: "i < length xs \<Longrightarrow> modify_at xs i (\<lambda>_. y) = Some (xs[i := y])"
  by simp

text \<open>The merge from any position.\<close>

lemma merge_loop_correct:
  assumes "asc a" "asc b" "n + min (length a - i) (length b - j) \<le> length out"
  shows "\<exists>out'. merge_loop a b i j n out = Some (n + length (meet (drop i a) (drop j b)), out') \<and>
    length out' = length out \<and>
    take (n + length (meet (drop i a) (drop j b))) out' = take n out @ meet (drop i a) (drop j b)"
  using assms
proof (induction a b i j n out rule: merge_loop.induct)
  case (1 a b i j n out)
  show ?case
  proof (cases "i < length a \<and> j < length b")
    case False
    then have "meet (drop i a) (drop j b) = []" by (auto simp: not_less)
    moreover have "merge_loop a b i j n out = Some (n, out)" 
      by (subst merge_loop.simps) (rule if_not_P [OF False])
    ultimately show ?thesis by simp
  next
    case True
    let ?x = "a ! i" and ?y = "b ! j"
    have d: "drop i a = ?x # drop (Suc i) a" "drop j b = ?y # drop (Suc j) b"
      using True by (simp_all add: Cons_nth_drop_Suc)
    have s: "asc (?x # drop (Suc i) a)" "asc (?y # drop (Suc j) b)"
      using asc_drop [OF "1.prems"(1), of i] asc_drop [OF "1.prems"(2), of j] d by simp_all
    have n: "n < length out" using "1.prems"(3) True by linarith
    let ?i = "i + of_bool (?x \<le> ?y)" and ?j = "j + of_bool (?y \<le> ?x)" and ?n = "n + of_bool (?x = ?y)"
    let ?I = "meet (drop ?i a) (drop ?j b)"
    have step: "meet (drop i a) (drop j b) = (if ?x = ?y then [?x] else []) @ ?I"
      unfolding d meet_step [OF s] by (auto simp: d [symmetric])
    have "?n + min (length a - ?i) (length b - ?j) \<le> length (out[n := ?x])"
    proof -
      have "min (length a - ?i) (length b - ?j) + of_bool (?x = ?y) \<le> min (length a - i) (length b - j)"
        using True by (cases "?x = ?y") auto
      then show ?thesis using "1.prems"(3) unfolding length_list_update by linarith
    qed
    then obtain out' where o: "merge_loop a b ?i ?j ?n (out[n := ?x]) = Some (?n + length ?I, out')"
        "length out' = length out" "take (?n + length ?I) out' = take ?n (out[n := ?x]) @ ?I"
      using "1.IH" [OF True refl refl modify_put [OF n]] "1.prems"(1,2) by auto
    have "merge_loop a b i j n out = Some (?n + length ?I, out')"
      using True o(1) modify_put [OF n, of ?x] by (subst merge_loop.simps) (simp add: Let_def)
    moreover have "take ?n (out[n := ?x]) = take n out @ (if ?x = ?y then [?x] else [])"
      using n by (simp add: take_Suc_conv_app_nth)
    ultimately show ?thesis using step o by auto
  qed
qed

lemma merge_runs_correct:
  assumes "asc a" "asc b" "min (length a) (length b) \<le> length out"
  shows "\<exists>out'. merge_runs a b out = Some (length (meet a b), out') \<and> length out' = length out \<and>
    take (length (meet a b)) out' = meet a b"
  using merge_loop_correct [of a b 0 0 0 out] assms by (simp add: merge_runs_def)

subsection \<open>The gallop is the intersection\<close>

lemma takeWhile_prefix:
  assumes "k \<le> length xs" "k = length xs \<or> (\<exists>i < k. \<not> P (xs ! i))"
  shows "takeWhile P (take k xs) = takeWhile P xs"
proof (cases "k = length xs")
  case False
  then obtain i where i: "i < k" "\<not> P (xs ! i)" using assms(2) by auto
  then have "xs ! i \<in> set (take k xs)" using assms(1) by (metis in_set_conv_nth length_take min.absorb2 nth_take)
  then have "takeWhile P (take k xs @ drop k xs) = takeWhile P (take k xs)"
    by (rule takeWhile_append1) (rule i(2))
  then show ?thesis by simp
qed simp

lemma gallop_window_total:
  assumes "0 < stp"
  shows "\<exists>s. gallop_window long x lo stp = Some s \<and> 0 < s \<and> \<not> (lo + s < length long \<and> long ! (lo + s) < x)"
  using assms
proof (induction "length long - (lo + stp)" arbitrary: stp rule: less_induct)
  case less
  show ?case
  proof (cases "lo + stp < length long \<and> long ! (lo + stp) < x")
    case True
    then have "length long - (lo + stp * 2) < length long - (lo + stp)" "0 < stp * 2" using less.prems by auto
    then have "\<exists>s. gallop_window long x lo (stp * 2) = Some s \<and> 0 < s \<and> \<not> (lo + s < length long \<and> long ! (lo + s) < x)"
      by (rule less.hyps)
    then show ?thesis using True by (subst gallop_window.simps) simp
  next
    case False
    then show ?thesis using less.prems by (subst gallop_window.simps) auto
  qed
qed

lemma takeWhile_less:
  "asc xs \<Longrightarrow> x \<in> set xs \<longleftrightarrow> length (takeWhile (\<lambda>y. y < x) xs) < length xs \<and> xs ! length (takeWhile (\<lambda>y. y < x) xs) = x"
  by (induction xs) (auto dest: less_imp_not_less)

text \<open>Everything the cursor has passed is below the elements still to come.\<close>

lemma gallop_loop_correct:
  assumes "asc xs" "asc long" "lo < length long" "n + length xs \<le> length out"
  shows "\<exists>out'. gallop_loop long xs n lo out = Some (n + length (meet xs (drop lo long)), out') \<and>
    length out' = length out \<and>
    take (n + length (meet xs (drop lo long))) out' = take n out @ meet xs (drop lo long)"
  using assms
proof (induction xs arbitrary: n lo out)
  case Nil
  then show ?case by simp
next
  case (Cons x xs)
  let ?d = "drop lo long"
  define k where "k = length (takeWhile (\<lambda>y. y < x) ?d)"
  obtain s where s: "gallop_window long x lo 1 = Some s" "\<not> (lo + s < length long \<and> long ! (lo + s) < x)"
    using gallop_window_total [of 1 long x lo] by auto
  let ?hi = "min (lo + s + 1) (length long)"
  have w: "get_range long lo ?hi = Some (take (?hi - lo) ?d)"
    using Cons.prems(3) by (simp add: get_range_def)
  have tw: "takeWhile (\<lambda>y. y < x) (take (?hi - lo) ?d) = takeWhile (\<lambda>y. y < x) ?d"
  proof (rule takeWhile_prefix)
    show "?hi - lo = length ?d \<or> (\<exists>i < ?hi - lo. \<not> ?d ! i < x)"
      using s(2) Cons.prems(3) by (cases "lo + s < length long") (auto intro!: exI [of _ s])
  qed simp
  have kd: "k \<le> length ?d" unfolding k_def by (rule length_takeWhile_le)
  have kw: "k \<le> length (take (?hi - lo) ?d)" unfolding k_def tw [symmetric] by (rule length_takeWhile_le)
  have ad: "asc ?d" using Cons.prems(2) by (rule asc_drop)
  have ax: "asc xs" "\<forall>y \<in> set xs. x < y" using Cons.prems(1) by auto
  have below: "y < x" if "y \<in> set (take k ?d)" for y
    using that set_takeWhileD [of y "\<lambda>y. y < x" ?d] by (simp add: k_def takeWhile_eq_take [symmetric])
  have rest: "meet xs ?d = meet xs (drop k ?d)"
  proof -
    have "y \<notin> set (take k ?d)" if "y \<in> set xs" for y using ax(2) that below by fastforce
    then show ?thesis unfolding meet_def
      by (intro filter_cong refl) (metis Un_iff append_take_drop_id set_append)
  qed
  show ?case
  proof (cases "x \<in> set ?d")
    case True
    then have kx: "k < length ?d" "?d ! k = x" using takeWhile_less [OF ad, of x] by (auto simp: k_def)
    have kl: "k < length (take (?hi - lo) ?d)"
    proof (rule ccontr)
      assume "\<not> ?thesis"
      then have "k = length (take (?hi - lo) ?d)" using kw by simp
      then have "length (takeWhile (\<lambda>y. y < x) (take (?hi - lo) ?d)) = ?hi - lo" unfolding tw k_def [symmetric] by simp
      then have "\<forall>i < ?hi - lo. ?d ! i < x"
        by (metis (no_types, lifting) length_take length_takeWhile_le min.absorb2 nth_mem nth_take set_takeWhileD takeWhile_eq_take take_all_iff min.cobounded2 length_drop diff_le_mono)
      moreover have "?hi - lo \<noteq> length ?d" using \<open>k = length (take (?hi - lo) ?d)\<close> kx(1) by auto
      ultimately show False using s(2) Cons.prems(3) by (auto simp: min_def split: if_splits)
    qed
    have b: "binary_search (take (?hi - lo) ?d) x = Inr k"
      using kl kx(2) unfolding binary_search_def tw k_def [symmetric] by (simp add: Let_def)
    let ?lo = "lo + (k + 1)"
    have n: "n < length out" using Cons.prems(4) by simp
    have rest1: "meet xs (drop k ?d) = meet xs (drop ?lo long)"
    proof -
      have "drop k ?d = x # drop (Suc k) ?d" using kx by (metis Cons_nth_drop_Suc)
      then show ?thesis using ax(2) by (auto simp: meet_def add.commute intro!: filter_cong)
    qed
    have m: "meet (x # xs) ?d = x # meet xs (drop ?lo long)"
      using True rest rest1 by (simp add: meet_def)
    show ?thesis
    proof (cases "?lo \<ge> length long")
      case True
      then have "gallop_loop long (x # xs) n lo out = Some (n + 1, out[n := x])"
        using s(1) w b modify_put [OF n, of x] by simp
      then show ?thesis using m True n by (simp add: take_Suc_conv_app_nth)
    next
      case False
      then obtain out' where "gallop_loop long xs (n + 1) ?lo (out[n := x]) = Some (n + 1 + length (meet xs (drop ?lo long)), out')"
          "length out' = length out" "take (n + 1 + length (meet xs (drop ?lo long))) out' =
           take (n + 1) (out[n := x]) @ meet xs (drop ?lo long)"
        using Cons.IH [OF ax(1) Cons.prems(2), of ?lo "n + 1" "out[n := x]"] Cons.prems(4) by auto
      moreover have "gallop_loop long (x # xs) n lo out = gallop_loop long xs (n + 1) ?lo (out[n := x])"
        using s(1) w b modify_put [OF n, of x] False by simp
      ultimately show ?thesis using m n by (simp add: take_Suc_conv_app_nth)
    qed
  next
    case False
    then have nk: "\<not> (k < length ?d \<and> ?d ! k = x)" using takeWhile_less [OF ad, of x] by (auto simp: k_def)
    have b: "binary_search (take (?hi - lo) ?d) x = Inl k"
      using nk kw unfolding binary_search_def tw k_def [symmetric] by (auto simp: Let_def)
    have m: "meet (x # xs) ?d = meet xs (drop (lo + k) long)"
      using False rest by (simp add: meet_def add.commute)
    show ?thesis
    proof (cases "lo + k \<ge> length long")
      case True
      then have "gallop_loop long (x # xs) n lo out = Some (n, out)" using s(1) w b by simp
      then show ?thesis using m True by simp
    next
      case F: False
      then have "gallop_loop long (x # xs) n lo out = gallop_loop long xs n (lo + k) out" using s(1) w b by simp
      then show ?thesis using m Cons.IH [OF ax(1) Cons.prems(2), of "lo + k" n out] F Cons.prems(4) by simp
    qed
  qed
qed

lemma gallop_intersect_correct:
  assumes "asc a" "asc b" "b \<noteq> []" "length a \<le> length out"
  shows "\<exists>out'. gallop_intersect a b out = Some (length (meet a b), out') \<and> length out' = length out \<and>
    take (length (meet a b)) out' = meet a b"
  using gallop_loop_correct [of a b 0 0 out] assms by (simp add: gallop_intersect_def)

subsection \<open>The segmented merge is the intersection\<close>

definition slice :: "'a list \<Rightarrow> nat \<Rightarrow> nat \<Rightarrow> 'a list" where
  "slice xs i e = take (e - i) (drop i xs)"

lemma slice_Cons: "i < e \<Longrightarrow> e \<le> length xs \<Longrightarrow> slice xs i e = xs ! i # slice xs (Suc i) e"
  by (simp add: slice_def Cons_nth_drop_Suc [symmetric] Suc_diff_Suc [symmetric])

lemma slice_drop_take: "slice xs i e = drop i (take e xs)"
  by (simp add: slice_def drop_take)

lemma slice_empty [simp]: "e \<le> i \<Longrightarrow> slice xs i e = []"
  by (simp add: slice_def)

lemma asc_slice: "asc xs \<Longrightarrow> asc (slice xs i e)"
  unfolding slice_def by (intro sorted_wrt_take asc_drop)

lemma length_slice: "e \<le> length xs \<Longrightarrow> length (slice xs i e) = e - i"
  by (simp add: slice_def)

lemma get_range_slice: "i \<le> e \<Longrightarrow> e \<le> length xs \<Longrightarrow> get_range xs i e = Some (slice xs i e)"
  by (simp add: get_range_def slice_def)

lemma slice_upd: "m < i \<or> e \<le> m \<Longrightarrow> slice (xs[m := x]) i e = slice xs i e"
  unfolding slice_def by (rule nth_equalityI) auto

lemma slice_snoc: "i \<le> e \<Longrightarrow> e < length xs \<Longrightarrow> slice xs i (Suc e) = slice xs i e @ [xs ! e]"
  by (simp add: slice_def Suc_diff_le take_Suc_conv_app_nth)

lemma take_slice: "i \<le> e \<Longrightarrow> e \<le> length xs \<Longrightarrow> take e xs = take i xs @ slice xs i e"
  unfolding slice_def by (metis le_add_diff_inverse take_add)

text \<open>
  One segment, between the merge of what it has passed and what is left: it owns the window
  \<open>[o1, c)\<close> of the output, has written \<open>[o1, n)\<close> of it and will write at most as much as
  the shorter of its two rests.
\<close>

definition seg_ok :: "u64 list \<Rightarrow> u64 list \<Rightarrow> nat \<Rightarrow> nat \<Rightarrow> nat \<Rightarrow> nat \<Rightarrow> u64 list \<Rightarrow> nat \<Rightarrow> nat \<Rightarrow> nat \<Rightarrow> u64 list \<Rightarrow> bool" where
  "seg_ok a b ce de o1 c S i j n out \<longleftrightarrow>
     i \<le> ce \<and> j \<le> de \<and> ce \<le> length a \<and> de \<le> length b \<and> o1 \<le> n \<and> n + min (ce - i) (de - j) \<le> c \<and>
     c \<le> length out \<and> slice out o1 n @ meet (slice a i ce) (slice b j de) = S"

lemma seg_ok_step:
  assumes ok: "seg_ok a b ce de o1 c S i j n out" and act: "i < ce" "j < de" and s: "asc a" "asc b"
  shows "i < length a \<and> j < length b \<and> n < c \<and> n < length out \<and>
    seg_ok a b ce de o1 c S (i + of_bool (a ! i \<le> b ! j)) (j + of_bool (b ! j \<le> a ! i))
      (n + of_bool (a ! i = b ! j)) (out[n := a ! i])"
proof -
  let ?x = "a ! i" and ?y = "b ! j"
  let ?i = "i + of_bool (?x \<le> ?y)" and ?j = "j + of_bool (?y \<le> ?x)" and ?n = "n + of_bool (?x = ?y)"
  have b: "ce \<le> length a" "de \<le> length b" "o1 \<le> n" "n + min (ce - i) (de - j) \<le> c" "c \<le> length out"
    and S: "slice out o1 n @ meet (slice a i ce) (slice b j de) = S" using ok by (simp_all add: seg_ok_def)
  have n: "n < c" using b(4) act by linarith
  have d: "slice a i ce = ?x # slice a (Suc i) ce" "slice b j de = ?y # slice b (Suc j) de"
    using act b slice_Cons by auto
  have a: "asc (?x # slice a (Suc i) ce)" "asc (?y # slice b (Suc j) de)"
    using asc_slice [OF s(1), of i ce] asc_slice [OF s(2), of j de] d by simp_all
  have step: "meet (slice a i ce) (slice b j de) = (if ?x = ?y then [?x] else []) @ meet (slice a ?i ce) (slice b ?j de)"
    unfolding d meet_step [OF a] by (auto simp: d [symmetric])
  have out: "slice (out[n := ?x]) o1 ?n = slice out o1 n @ (if ?x = ?y then [?x] else [])"
    using n b by (simp add: slice_snoc slice_upd)
  have "min (ce - ?i) (de - ?j) + of_bool (?x = ?y) \<le> min (ce - i) (de - j)"
    using act by (cases "?x = ?y") auto
  then have "?n + min (ce - ?i) (de - ?j) \<le> c" using b(4) by linarith
  moreover have "?i \<le> ce" "?j \<le> de" using act by auto
  ultimately show ?thesis using b n act S step out by (simp add: seg_ok_def)
qed

lemma seg_ok_other:
  "seg_ok a b ce de o1 c S i j n out \<Longrightarrow> m < o1 \<or> c \<le> m \<Longrightarrow> seg_ok a b ce de o1 c S i j n (out[m := x])"
  unfolding seg_ok_def by (auto simp: slice_upd)

text \<open>All segments of a state, with the cuts as functions of the segment number.\<close>

definition segs_ok :: "nat \<Rightarrow> u64 list \<Rightarrow> u64 list \<Rightarrow> (nat \<Rightarrow> nat) \<Rightarrow> (nat \<Rightarrow> nat) \<Rightarrow> (nat \<Rightarrow> nat) \<Rightarrow> nat \<Rightarrow> (nat \<Rightarrow> u64 list) \<Rightarrow> seg_state \<Rightarrow> bool" where
  "segs_ok N a b ca cb off L S st \<longleftrightarrow>
     length (ss_i st) = N \<and> length (ss_j st) = N \<and> length (ss_n st) = N \<and> length (ss_out st) = L \<and>
     (\<forall>k < N. seg_ok a b (ca (Suc k)) (cb (Suc k)) (off k) (off (Suc k)) (S k)
        (ss_i st ! k) (ss_j st ! k) (ss_n st ! k) (ss_out st))"

definition seg_left :: "nat \<Rightarrow> (nat \<Rightarrow> nat) \<Rightarrow> (nat \<Rightarrow> nat) \<Rightarrow> seg_state \<Rightarrow> nat" where
  "seg_left N ca cb st = (\<Sum>k < N. (ca (Suc k) - ss_i st ! k) + (cb (Suc k) - ss_j st ! k))"

lemma seg_step_correct:
  assumes ok: "segs_ok N a b ca cb off L S st" and s: "asc a" "asc b" and m: "mono off" and k: "k < N"
    and act: "ss_i st ! k < ca (Suc k)" "ss_j st ! k < cb (Suc k)"
  shows "\<exists>st'. seg_step a b k st = Some st' \<and> segs_ok N a b ca cb off L S st' \<and>
    (\<forall>l. l \<noteq> k \<longrightarrow> ss_i st' ! l = ss_i st ! l \<and> ss_j st' ! l = ss_j st ! l) \<and>
    seg_left N ca cb st' < seg_left N ca cb st"
proof -
  let ?i = "ss_i st ! k" and ?j = "ss_j st ! k" and ?n = "ss_n st ! k"
  have len: "length (ss_i st) = N" "length (ss_j st) = N" "length (ss_n st) = N" "length (ss_out st) = L"
    and segs: "\<And>l. l < N \<Longrightarrow> seg_ok a b (ca (Suc l)) (cb (Suc l)) (off l) (off (Suc l)) (S l)
        (ss_i st ! l) (ss_j st ! l) (ss_n st ! l) (ss_out st)" using ok by (simp_all add: segs_ok_def)
  note st = seg_ok_step [OF segs [OF k] act s]
  define st' where "st' = \<lparr>ss_i = (ss_i st)[k := ?i + of_bool (a ! ?i \<le> b ! ?j)],
      ss_j = (ss_j st)[k := ?j + of_bool (b ! ?j \<le> a ! ?i)],
      ss_n = (ss_n st)[k := ?n + of_bool (a ! ?i = b ! ?j)], ss_out = (ss_out st)[?n := a ! ?i]\<rparr>"
  have "seg_step a b k st = Some st'" using st by (simp add: seg_step_def st'_def)
  moreover have "segs_ok N a b ca cb off L S st'"
  proof -
    have "seg_ok a b (ca (Suc l)) (cb (Suc l)) (off l) (off (Suc l)) (S l)
        (ss_i st' ! l) (ss_j st' ! l) (ss_n st' ! l) (ss_out st')" if l: "l < N" for l
    proof (cases "l = k")
      case True then show ?thesis using st len k by (simp add: st'_def)
    next
      case False
      have "off k \<le> ?n" using segs [OF k] by (simp add: seg_ok_def)
      then have "?n < off l \<or> off (Suc l) \<le> ?n"
        using False st m by (cases "l < k") (auto dest: monoD [of off "Suc l" k] monoD [of off "Suc k" l])
      then show ?thesis using seg_ok_other [OF segs [OF l]] False by (simp add: st'_def)
    qed
    then show ?thesis using len by (simp add: segs_ok_def st'_def)
  qed
  moreover have "seg_left N ca cb st' < seg_left N ca cb st"
    unfolding seg_left_def
  proof (rule sum_strict_mono_ex1)
    show "\<forall>l \<in> {..<N}. ca (Suc l) - ss_i st' ! l + (cb (Suc l) - ss_j st' ! l) \<le>
        ca (Suc l) - ss_i st ! l + (cb (Suc l) - ss_j st ! l)"
    proof
      fix l assume "l \<in> {..<N}"
      then show "ca (Suc l) - ss_i st' ! l + (cb (Suc l) - ss_j st' ! l) \<le>
        ca (Suc l) - ss_i st ! l + (cb (Suc l) - ss_j st ! l)"
        using len by (cases "l = k") (auto simp: st'_def)
    qed
    show "\<exists>l \<in> {..<N}. ca (Suc l) - ss_i st' ! l + (cb (Suc l) - ss_j st' ! l) <
        ca (Suc l) - ss_i st ! l + (cb (Suc l) - ss_j st ! l)"
      using len act k by (intro bexI [of _ k]) (auto simp: st'_def)
  qed simp
  ultimately show ?thesis by (intro exI [of _ st']) (simp add: st'_def)
qed

lemma seg_round_correct:
  assumes "segs_ok N a b ca cb off L S st" "asc a" "asc b" "mono off" "distinct ks"
    "\<forall>k \<in> set ks. k < N \<and> ss_i st ! k < ca (Suc k) \<and> ss_j st ! k < cb (Suc k)"
  shows "\<exists>st'. fold_opt (seg_step a b) ks st = Some st' \<and> segs_ok N a b ca cb off L S st' \<and>
    seg_left N ca cb st' + length ks \<le> seg_left N ca cb st"
  using assms
proof (induction ks arbitrary: st)
  case (Cons k ks)
  obtain st1 where s1: "seg_step a b k st = Some st1" "segs_ok N a b ca cb off L S st1"
      "\<forall>l. l \<noteq> k \<longrightarrow> ss_i st1 ! l = ss_i st ! l \<and> ss_j st1 ! l = ss_j st ! l" "seg_left N ca cb st1 < seg_left N ca cb st"
    using seg_step_correct [OF Cons.prems(1-4), of k] Cons.prems(6) by auto
  have "\<forall>l \<in> set ks. l \<noteq> k" using Cons.prems(5) by auto
  then have "\<exists>st'. fold_opt (seg_step a b) ks st1 = Some st' \<and> segs_ok N a b ca cb off L S st' \<and>
      seg_left N ca cb st' + length ks \<le> seg_left N ca cb st1"
    using s1(3) Cons.prems(5,6) by (intro Cons.IH [OF s1(2) Cons.prems(2-4)]) auto
  then show ?case using s1 by fastforce
qed simp

lemma seg_loop_correct:
  assumes "segs_ok N a b ca cb off L S st" "asc a" "asc b" "mono off" "0 < N"
    and "\<And>k. k < N \<Longrightarrow> ce ! k = ca (Suc k) \<and> de ! k = cb (Suc k)"
  shows "\<exists>st'. seg_loop a b N ce de st = Some st' \<and> segs_ok N a b ca cb off L S st'"
  using assms(1)
proof (induction "seg_left N ca cb st" arbitrary: st rule: less_induct)
  case less
  show ?case
  proof (cases "all_active N ce de st")
    case True
    then have "\<forall>k \<in> set [0..<N]. k < N \<and> ss_i st ! k < ca (Suc k) \<and> ss_j st ! k < cb (Suc k)"
      using assms(6) by (auto simp: all_active_def list_all_iff)
    then obtain st1 where s1: "fold_opt (seg_step a b) [0..<N] st = Some st1" "segs_ok N a b ca cb off L S st1"
        "seg_left N ca cb st1 + N \<le> seg_left N ca cb st"
      using seg_round_correct [OF less.prems assms(2-4), of "[0..<N]"] by auto
    then have "seg_left N ca cb st1 < seg_left N ca cb st" using assms(5) by linarith
    then have "\<exists>st'. seg_loop a b N ce de st1 = Some st' \<and> segs_ok N a b ca cb off L S st'"
      using s1(2) by (rule less.hyps)
    then show ?thesis using True s1(1) by (subst seg_loop.simps) simp
  next
    case False
    then show ?thesis using less.prems by (subst seg_loop.simps) simp
  qed
qed

text \<open>After the tails: the segment's window opens with its whole intersection.\<close>

definition seg_done :: "nat \<Rightarrow> nat \<Rightarrow> u64 list \<Rightarrow> nat \<Rightarrow> u64 list \<Rightarrow> bool" where
  "seg_done o1 c S n out \<longleftrightarrow> o1 \<le> n \<and> n \<le> c \<and> c \<le> length out \<and> slice out o1 n = S"

lemma slice_splice:
  assumes "n \<le> cap" "cap \<le> length out" "length so = cap - n" "e \<le> n \<or> cap \<le> i"
  shows "slice (take n out @ so @ drop cap out) i e = slice out i e"
  using assms(4)
proof
  assume e: "e \<le> n"
  have "take e (take n out @ so @ drop cap out) = take e out" using assms(1-3) e by (simp add: min_def)
  then show ?thesis unfolding slice_def by (metis drop_take)
next
  assume i: "cap \<le> i"
  have "drop i (take n out @ so @ drop cap out) = drop i out" using assms(1-3) i by simp
  then show ?thesis by (simp add: slice_def)
qed

lemma seg_tail_correct:
  assumes ok: "seg_ok a b (ca (Suc k)) (cb (Suc k)) (off k) (off (Suc k)) (S k) (ss_i st ! k) (ss_j st ! k) (ss_n st ! k) (ss_out st)"
    and s: "asc a" "asc b" and k: "k < N"
    and lists: "ce ! k = ca (Suc k)" "de ! k = cb (Suc k)" "Suc k < N \<Longrightarrow> offs ! Suc k = off (Suc k)"
  shows "\<exists>n' so. seg_tail a b N ce de offs k st =
      Some (st\<lparr>ss_n := (ss_n st)[k := n'],
        ss_out := take (ss_n st ! k) (ss_out st) @ so @
          drop (if k = N - 1 then length (ss_out st) else off (Suc k)) (ss_out st)\<rparr>) \<and>
      off k \<le> ss_n st ! k \<and> length so = (if k = N - 1 then length (ss_out st) else off (Suc k)) - ss_n st ! k \<and>
      seg_done (off k) (off (Suc k)) (S k) n' (take (ss_n st ! k) (ss_out st) @ so @
          drop (if k = N - 1 then length (ss_out st) else off (Suc k)) (ss_out st))"
proof -
  let ?i = "ss_i st ! k" and ?j = "ss_j st ! k" and ?n = "ss_n st ! k" and ?out = "ss_out st"
  let ?cap = "if k = N - 1 then length ?out else off (Suc k)"
  let ?A = "slice a ?i (ca (Suc k))" and ?B = "slice b ?j (cb (Suc k))"
  have b: "?i \<le> ca (Suc k)" "?j \<le> cb (Suc k)" "ca (Suc k) \<le> length a" "cb (Suc k) \<le> length b" "off k \<le> ?n"
      "?n + min (ca (Suc k) - ?i) (cb (Suc k) - ?j) \<le> off (Suc k)" "off (Suc k) \<le> length ?out"
      "slice ?out (off k) ?n @ meet ?A ?B = S k"
    using ok by (simp_all add: seg_ok_def)
  have cap: "off (Suc k) \<le> ?cap" "?cap \<le> length ?out" "?n \<le> ?cap" using b(6,7) by auto
  have so0: "get_range ?out ?n ?cap = Some (slice ?out ?n ?cap)" using cap by (intro get_range_slice)
  have "min (length ?A) (length ?B) \<le> length (slice ?out ?n ?cap)"
    unfolding length_slice [OF b(3)] length_slice [OF b(4)] length_slice [OF cap(2)] using b(6) cap by linarith
  then obtain so where so: "merge_runs ?A ?B (slice ?out ?n ?cap) = Some (length (meet ?A ?B), so)"
      "length so = ?cap - ?n" "take (length (meet ?A ?B)) so = meet ?A ?B"
    using merge_runs_correct [of ?A ?B "slice ?out ?n ?cap"] s asc_slice cap by (metis length_slice)
  have cap': "(if k = N - 1 then length ?out else offs ! (k + 1)) = ?cap" using lists(3) k by auto
  let ?n' = "?n + length (meet ?A ?B)" and ?out' = "take ?n ?out @ so @ drop ?cap ?out"
  have e: "seg_tail a b N ce de offs k st = Some (st\<lparr>ss_n := (ss_n st)[k := ?n'], ss_out := ?out'\<rparr>)"
    unfolding seg_tail_def cap' Let_def lists using get_range_slice [OF b(1,3)] get_range_slice [OF b(2,4)] so0 so(1) by simp
  have ml: "length (meet ?A ?B) \<le> min (ca (Suc k) - ?i) (cb (Suc k) - ?j)"
    using meet_length [of ?A ?B] s asc_slice b(3,4) by (metis length_slice)
  then have n': "?n' \<le> off (Suc k)" using b(6) by linarith
  have len: "length ?out' = length ?out" using so(2) cap by simp
  have "slice ?out' (off k) ?n' = slice ?out (off k) ?n @ meet ?A ?B"
  proof -
    have "?n' \<le> ?cap" using n' cap(1) by linarith
    then have "length (meet ?A ?B) \<le> length so" using so(2) by simp
    have "take ?n' ?out' = take ?n ?out @ take (length (meet ?A ?B)) (so @ drop ?cap ?out)"
      using cap(2,3) by simp
    also have "\<dots> = take ?n ?out @ meet ?A ?B"
      using so(3) \<open>length (meet ?A ?B) \<le> length so\<close> by simp
    finally have "drop (off k) (take ?n' ?out') = drop (off k) (take ?n ?out) @ meet ?A ?B"
      using b(5) cap by simp
    then show ?thesis
      using slice_drop_take [of ?out' "off k" ?n'] slice_drop_take [of ?out "off k" ?n] by argo
  qed
  then have "seg_done (off k) (off (Suc k)) (S k) ?n' ?out'"
    using b n' len unfolding seg_done_def by simp
  then show ?thesis using e so(2) b(5) by blast
qed

lemma upt_step: "m < N \<Longrightarrow> [m..<N] = m # [Suc m..<N]"
  by (rule upt_conv_Cons)

lemma seg_done_splice:
  assumes "seg_done o1 c S n out" "p \<le> cap" "cap \<le> length out" "length so = cap - p" "c \<le> p \<or> cap \<le> o1"
  shows "seg_done o1 c S n (take p out @ so @ drop cap out)"
proof -
  have "slice (take p out @ so @ drop cap out) o1 n = slice out o1 n"
    using assms by (intro slice_splice) (auto simp: seg_done_def)
  then show ?thesis using assms by (simp add: seg_done_def)
qed

lemma seg_tails_correct:
  assumes "length (ss_n st) = N" "m \<le> N" "mono off" "asc a" "asc b" "off N \<le> length (ss_out st)"
    and "\<forall>k < m. seg_done (off k) (off (Suc k)) (S k) (ss_n st ! k) (ss_out st)"
    and "\<forall>k. m \<le> k \<and> k < N \<longrightarrow> seg_ok a b (ca (Suc k)) (cb (Suc k)) (off k) (off (Suc k)) (S k)
        (ss_i st ! k) (ss_j st ! k) (ss_n st ! k) (ss_out st)"
    and lists: "\<And>k. k < N \<Longrightarrow> ce ! k = ca (Suc k) \<and> de ! k = cb (Suc k) \<and> offs ! k = off k"
  shows "\<exists>st'. fold_opt (seg_tail a b N ce de offs) [m..<N] st = Some st' \<and> length (ss_n st') = N \<and>
    length (ss_out st') = length (ss_out st) \<and>
    (\<forall>k < N. seg_done (off k) (off (Suc k)) (S k) (ss_n st' ! k) (ss_out st'))"
  using assms(1,2,6-8)
proof (induction "N - m" arbitrary: m st)
  case 0
  then show ?case by auto
next
  case (Suc d)
  then have m: "m < N" by simp
  let ?n = "ss_n st ! m" and ?cap = "if m = N - 1 then length (ss_out st) else off (Suc m)"
  obtain n' so where t: "seg_tail a b N ce de offs m st =
      Some (st\<lparr>ss_n := (ss_n st)[m := n'], ss_out := take ?n (ss_out st) @ so @ drop ?cap (ss_out st)\<rparr>)"
      "off m \<le> ?n" "length so = ?cap - ?n"
      "seg_done (off m) (off (Suc m)) (S m) n' (take ?n (ss_out st) @ so @ drop ?cap (ss_out st))"
    using seg_tail_correct [of a b ca m cb off S st N ce de offs] Suc.prems(5) m assms(4,5) lists by blast
  let ?out' = "take ?n (ss_out st) @ so @ drop ?cap (ss_out st)"
  let ?st' = "st\<lparr>ss_n := (ss_n st)[m := n'], ss_out := ?out'\<rparr>"
  have ok: "seg_ok a b (ca (Suc m)) (cb (Suc m)) (off m) (off (Suc m)) (S m) (ss_i st ! m) (ss_j st ! m) ?n (ss_out st)"
    using Suc.prems(5) m by simp
  have cap: "?n \<le> ?cap" "?cap \<le> length (ss_out st)" using ok by (auto simp: seg_ok_def)
  have len: "length ?out' = length (ss_out st)" using cap t(3) by simp
  have "\<exists>st'. fold_opt (seg_tail a b N ce de offs) [Suc m..<N] ?st' = Some st' \<and> length (ss_n st') = N \<and>
      length (ss_out st') = length (ss_out ?st') \<and>
      (\<forall>k < N. seg_done (off k) (off (Suc k)) (S k) (ss_n st' ! k) (ss_out st'))"
  proof (rule Suc.hyps(1))
    show "d = N - Suc m" "length (ss_n ?st') = N" "Suc m \<le> N" "off N \<le> length (ss_out ?st')"
      using Suc.hyps(2) Suc.prems m len by simp_all
    show "\<forall>k < Suc m. seg_done (off k) (off (Suc k)) (S k) (ss_n ?st' ! k) (ss_out ?st')"
    proof (intro allI impI)
      fix k assume k: "k < Suc m"
      show "seg_done (off k) (off (Suc k)) (S k) (ss_n ?st' ! k) (ss_out ?st')"
      proof (cases "k = m")
        case True then show ?thesis using t(4) Suc.prems(1) m by simp
      next
        case False
        then have "off (Suc k) \<le> ?n" using k monoD [OF assms(3), of "Suc k" m] t(2) by simp
        then show ?thesis using Suc.prems(4) k False cap t(3) seg_done_splice by simp
      qed
    qed
    show "\<forall>k. Suc m \<le> k \<and> k < N \<longrightarrow> seg_ok a b (ca (Suc k)) (cb (Suc k)) (off k) (off (Suc k)) (S k)
        (ss_i ?st' ! k) (ss_j ?st' ! k) (ss_n ?st' ! k) (ss_out ?st')"
    proof (intro allI impI)
      fix k assume k: "Suc m \<le> k \<and> k < N"
      then have "?cap \<le> off k" using monoD [OF assms(3), of "Suc m" k] by auto
      then have "slice ?out' (off k) e = slice (ss_out st) (off k) e" for e
        using cap t(3) by (intro slice_splice) auto
      then show "seg_ok a b (ca (Suc k)) (cb (Suc k)) (off k) (off (Suc k)) (S k)
          (ss_i ?st' ! k) (ss_j ?st' ! k) (ss_n ?st' ! k) (ss_out ?st')"
        using Suc.prems(5) k len by (simp add: seg_ok_def)
    qed
  qed
  then show ?case using t(1) len by (simp add: upt_step [OF m])
qed

lemma seg_compact_correct:
  assumes "mono off" "m \<le> N" "take tot out = concat (map S [0..<m])" "tot = length (concat (map S [0..<m]))" "tot \<le> off m"
    and "\<forall>k. m \<le> k \<and> k < N \<longrightarrow> seg_done (off k) (off (Suc k)) (S k) (ns ! k) out"
    and offs: "\<And>k. k < N \<Longrightarrow> offs ! k = off k"
  shows "\<exists>out'. fold_opt (seg_compact offs ns) [m..<N] (tot, out) =
      Some (length (concat (map S [0..<N])), out') \<and> length out' = length out \<and>
    take (length (concat (map S [0..<N]))) out' = concat (map S [0..<N])"
  using assms(2-6)
proof (induction "N - m" arbitrary: m tot out)
  case 0
  then show ?case by auto
next
  case (Suc d)
  then have m: "m < N" by simp
  let ?n = "ns ! m"
  have dn: "seg_done (off m) (off (Suc m)) (S m) ?n out" using Suc.prems(5) m by simp
  then have b: "off m \<le> ?n" "?n \<le> off (Suc m)" "off (Suc m) \<le> length out" "slice out (off m) ?n = S m"
    by (auto simp: seg_done_def)
  have ls: "length (S m) = ?n - off m" using b by (metis length_slice le_trans)
  let ?e = "tot + length (S m)"
  have e: "?e \<le> ?n" using ls Suc.prems(4) b(1) by simp
  let ?out' = "take tot out @ S m @ drop ?e out"
  have len: "length ?out' = length out" using e b by simp
  have c: "copy_within out (offs ! m) ?n tot = Some ?out'"
    using b e offs [OF m] ls by (simp add: copy_within_def slice_def)
  have "\<exists>out'. fold_opt (seg_compact offs ns) [Suc m..<N] (?e, ?out') =
      Some (length (concat (map S [0..<N])), out') \<and> length out' = length ?out' \<and>
    take (length (concat (map S [0..<N]))) out' = concat (map S [0..<N])"
  proof (rule Suc.hyps(1))
    show "d = N - Suc m" "Suc m \<le> N" using Suc.hyps(2) m by simp_all
    have "tot \<le> length out" using e b by linarith
    then show "take ?e ?out' = concat (map S [0..<Suc m])" using Suc.prems(2,3) by simp
    show "?e = length (concat (map S [0..<Suc m]))" using Suc.prems(3) by simp
    show "?e \<le> off (Suc m)" using e b by linarith
    show "\<forall>k. Suc m \<le> k \<and> k < N \<longrightarrow> seg_done (off k) (off (Suc k)) (S k) (ns ! k) ?out'"
    proof (intro allI impI)
      fix k assume k: "Suc m \<le> k \<and> k < N"
      then have "?e \<le> off k" using monoD [OF assms(1), of "Suc m" k] e b by linarith
      then show "seg_done (off k) (off (Suc k)) (S k) (ns ! k) ?out'"
        using Suc.prems(5) k e b by (intro seg_done_splice) auto
    qed
  qed
  then show ?case using c len ls offs [OF m] by (simp add: upt_step [OF m] seg_compact_def)
qed

subsection \<open>The cuts\<close>

definition cut_a :: "nat \<Rightarrow> u64 list \<Rightarrow> nat \<Rightarrow> nat" where
  "cut_a N a k = length a * k div N"

definition cut_b :: "nat \<Rightarrow> u64 list \<Rightarrow> u64 list \<Rightarrow> nat \<Rightarrow> nat" where
  "cut_b N a b k = (if k = 0 then 0 else if k < N then partition_point (\<lambda>y. y < a ! cut_a N a k) b else length b)"

definition cut_off :: "nat \<Rightarrow> u64 list \<Rightarrow> u64 list \<Rightarrow> nat \<Rightarrow> nat" where
  "cut_off N a b k = (\<Sum>i < k. min (cut_a N a (Suc i) - cut_a N a i) (cut_b N a b (Suc i) - cut_b N a b i))"

definition seg_meet :: "nat \<Rightarrow> u64 list \<Rightarrow> u64 list \<Rightarrow> nat \<Rightarrow> u64 list" where
  "seg_meet N a b k = meet (slice a (cut_a N a k) (cut_a N a (Suc k))) (slice b (cut_b N a b k) (cut_b N a b (Suc k)))"

lemma cut_a_mono: "k \<le> l \<Longrightarrow> cut_a N a k \<le> cut_a N a l"
  by (simp add: cut_a_def div_le_mono)

lemma cut_a_ends: "cut_a N a 0 = 0" "0 < N \<Longrightarrow> cut_a N a N = length a"
  by (simp_all add: cut_a_def)

lemma cut_a_less: "0 < N \<Longrightarrow> a \<noteq> [] \<Longrightarrow> k < N \<Longrightarrow> cut_a N a k < length a"
  by (simp add: cut_a_def div_less_iff_less_mult)

lemma cut_a_le: "0 < N \<Longrightarrow> k \<le> N \<Longrightarrow> cut_a N a k \<le> length a"
  using cut_a_mono [of k N N a] cut_a_ends(2) [of N a] by simp

lemma partition_point_below: "y \<in> set (take (partition_point p xs) xs) \<Longrightarrow> p y"
  using set_takeWhileD by (fastforce simp: partition_point_def takeWhile_eq_take [symmetric])

lemma partition_point_above:
  assumes "asc xs" "y \<in> set (drop (partition_point (\<lambda>y. y < p) xs) xs)"
  shows "p \<le> y"
  using assms
proof (induction xs)
  case (Cons x xs)
  then show ?case by (cases "x < p") (auto simp: partition_point_def)
qed simp

lemma partition_point_mono:
  assumes "p \<le> (q :: u64)"
  shows "partition_point (\<lambda>y. y < p) xs \<le> partition_point (\<lambda>y. y < q) xs"
  unfolding partition_point_def
  by (induction xs) (use assms in auto)

lemma asc_nth_le: "asc a \<Longrightarrow> i \<le> j \<Longrightarrow> j < length a \<Longrightarrow> a ! i \<le> a ! j"
  by (metis less_imp_le order_refl order_le_less sorted_wrt_iff_nth_less)

lemma cut_b_le: "cut_b N a b k \<le> length b"
  by (auto simp: cut_b_def partition_point_def length_takeWhile_le)

lemma cut_b_mono:
  assumes "asc a" "a \<noteq> []" "0 < N" "k \<le> l"
  shows "cut_b N a b k \<le> cut_b N a b l"
proof (cases "0 < k \<and> l < N")
  case True
  then have "a ! cut_a N a k \<le> a ! cut_a N a l"
    using asc_nth_le [OF assms(1) cut_a_mono [OF assms(4)]] cut_a_less assms by blast
  then show ?thesis using True assms(4) by (simp add: cut_b_def partition_point_mono)
next
  case False
  then show ?thesis using cut_b_le [of N a b k] assms by (auto simp: cut_b_def)
qed

lemma cut_off_mono: "mono (cut_off N a b)"
  unfolding cut_off_def by (intro monoI sum_mono2) auto

lemma meet_append:
  assumes "\<forall>x \<in> set P. x \<notin> set B" "\<forall>x \<in> set A. x \<notin> set Q"
  shows "meet (P @ A) (Q @ B) = meet P Q @ meet A B"
proof -
  have "filter (\<lambda>x. x \<in> set (Q @ B)) P = filter (\<lambda>x. x \<in> set Q) P"
    "filter (\<lambda>x. x \<in> set (Q @ B)) A = filter (\<lambda>x. x \<in> set B) A"
    using assms by (auto intro!: filter_cong)
  then show ?thesis by (simp add: meet_def)
qed

text \<open>No value of one segment meets another's partner, so the segments' intersections are
  the whole one.\<close>

lemma seg_meets_upto:
  assumes s: "asc a" "asc b" and ne: "a \<noteq> []" and N: "0 < N"
  shows "m \<le> N \<Longrightarrow> meet (take (cut_a N a m) a) (take (cut_b N a b m) b) = concat (map (seg_meet N a b) [0..<m])"
proof (induction m)
  case 0
  then show ?case by (simp add: cut_a_def)
next
  case (Suc m)
  let ?P = "take (cut_a N a m) a" and ?A = "slice a (cut_a N a m) (cut_a N a (Suc m))"
  let ?Q = "take (cut_b N a b m) b" and ?B = "slice b (cut_b N a b m) (cut_b N a b (Suc m))"
  have m: "m < N" using Suc.prems by simp
  have a: "take (cut_a N a (Suc m)) a = ?P @ ?A"
    by (rule take_slice) (use cut_a_mono [of m "Suc m" N a] cut_a_le [OF N Suc.prems] in auto)
  have b: "take (cut_b N a b (Suc m)) b = ?Q @ ?B"
    by (rule take_slice) (use cut_b_mono [OF s(1) ne N, of m "Suc m"] cut_b_le in auto)
  have "meet (?P @ ?A) (?Q @ ?B) = meet ?P ?Q @ meet ?A ?B"
  proof (cases "m = 0")
    case True
    then show ?thesis by (simp add: cut_a_def cut_b_def)
  next
    case False
    let ?p = "a ! cut_a N a m"
    have cm: "cut_a N a m < length a" by (rule cut_a_less [OF N ne m])
    have cb: "cut_b N a b m = partition_point (\<lambda>y. y < ?p) b" using False m by (simp add: cut_b_def)
    have P: "x < ?p" if x: "x \<in> set ?P" for x
    proof -
      obtain i where "i < cut_a N a m" "x = a ! i" using x cm by (auto simp: in_set_conv_nth)
      then show ?thesis using s(1) cm by (simp add: sorted_wrt_iff_nth_less)
    qed
    have A: "?p \<le> x" if x: "x \<in> set ?A" for x
    proof -
      have "x \<in> set (drop (cut_a N a m) a)" using x set_take_subset by (fastforce simp: slice_def)
      then obtain i where "i < length a - cut_a N a m" "x = a ! (cut_a N a m + i)" by (auto simp: in_set_conv_nth)
      then show ?thesis using asc_nth_le [OF s(1), of "cut_a N a m" "cut_a N a m + i"] by simp
    qed
    have Q: "y < ?p" if "y \<in> set ?Q" for y using that unfolding cb by (rule partition_point_below)
    have B: "?p \<le> y" if y: "y \<in> set ?B" for y
    proof -
      have "y \<in> set (drop (cut_b N a b m) b)" using y set_take_subset by (fastforce simp: slice_def)
      then show ?thesis unfolding cb by (rule partition_point_above [OF s(2)])
    qed
    show ?thesis by (rule meet_append) (use P A Q B in \<open>force+\<close>)
  qed
  then show ?case using Suc by (simp add: a b seg_meet_def)
qed

lemma seg_meets:
  assumes "asc a" "asc b" "a \<noteq> []" "0 < N"
  shows "concat (map (seg_meet N a b) [0..<N]) = meet a b"
  using seg_meets_upto [OF assms, of N] cut_a_ends(2) [OF assms(4), of a] assms(4) by (simp add: cut_b_def)

lemma sum_min_le: "(\<Sum>i < k. min (f i) (g i)) \<le> min (\<Sum>i < k. f i) (\<Sum>i < (k::nat). (g i :: nat))"
  by (simp add: sum_mono)

lemma telescope: "(\<And>i. i < k \<Longrightarrow> f i \<le> f (Suc i)) \<Longrightarrow> (\<Sum>i < k. f (Suc i) - f i) = f k - (f 0 :: nat)"
proof (induction k)
  case (Suc k)
  have "f 0 \<le> f k" using Suc.prems by (induction k) (auto intro: le_trans)
  then show ?case using Suc by simp
qed simp

lemma cut_off_total:
  assumes "asc a" "a \<noteq> []" "0 < N"
  shows "cut_off N a b N \<le> min (length a) (length b)"
proof -
  have "cut_off N a b N \<le> min (\<Sum>i < N. cut_a N a (Suc i) - cut_a N a i) (\<Sum>i < N. cut_b N a b (Suc i) - cut_b N a b i)"
    unfolding cut_off_def by (rule sum_min_le)
  also have "(\<Sum>i < N. cut_a N a (Suc i) - cut_a N a i) = length a"
    using telescope [of N "cut_a N a"] cut_a_mono cut_a_ends [of N a] assms(3) by simp
  also have "(\<Sum>i < N. cut_b N a b (Suc i) - cut_b N a b i) = length b"
  proof -
    have "(\<Sum>i < N. cut_b N a b (Suc i) - cut_b N a b i) = cut_b N a b N - cut_b N a b 0"
      by (rule telescope) (rule cut_b_mono [OF assms], simp)
    then show ?thesis using assms(3) by (simp add: cut_b_def)
  qed
  finally show ?thesis .
qed

lemma seg_offsets_nth:
  "k < length ps \<Longrightarrow> seg_offsets o1 ps ! k = o1 + (\<Sum>i < k. min (fst (ps ! i)) (snd (ps ! i)))"
proof (induction ps arbitrary: o1 k)
  case (Cons p ps)
  show ?case
  proof (cases k)
    case (Suc j)
    have "(\<Sum>i < Suc j. min (fst ((p # ps) ! i)) (snd ((p # ps) ! i))) =
        min (fst p) (snd p) + (\<Sum>i < j. min (fst (ps ! i)) (snd (ps ! i)))"
      by (simp add: sum.lessThan_Suc_shift del: sum.lessThan_Suc)
    then show ?thesis using Cons Suc by (cases p) simp
  qed (cases p; simp)
qed simp

lemma length_seg_offsets [simp]: "length (seg_offsets o1 ps) = length ps"
  by (induction o1 ps rule: seg_offsets.induct) auto

lemma map_opt_map: "(\<And>x. x \<in> set xs \<Longrightarrow> f x = Some (g x)) \<Longrightarrow> map_opt f xs = Some (map g xs)"
  by (induction xs) auto

lemma split_merge_correct:
  assumes s: "asc a" "asc b" and ne: "a \<noteq> []" and N: "0 < N" and out: "min (length a) (length b) \<le> length out"
  shows "\<exists>out'. split_merge N a b out = Some (length (meet a b), out') \<and> length out' = length out \<and>
    take (length (meet a b)) out' = meet a b"
proof -
  let ?ca = "cut_a N a" and ?cb = "cut_b N a b" and ?off = "cut_off N a b" and ?S = "seg_meet N a b"
  have cb: "cuts_b N a b = Some (map ?cb [0..<N])"
    unfolding cuts_b_def
    by (rule map_opt_map) (use cut_a_less [OF N ne] in \<open>auto simp: cut_b_def cuts_a_def cut_a_def\<close>)
  define de where "de = tl (map ?cb [0..<N]) @ [length b]"
  have de: "de = map (\<lambda>k. ?cb (Suc k)) [0..<N]"
  proof -
    have "map (\<lambda>k. ?cb (Suc k)) [0..<N] = map ?cb [Suc 0..<Suc N]" 
      unfolding map_Suc_upt [symmetric] map_map o_def ..
    also have "[Suc 0..<Suc N] = [Suc 0..<N] @ [N]" using N by (simp add: upt_Suc)
    also have "map ?cb ([Suc 0..<N] @ [N]) = map ?cb [Suc 0..<N] @ [?cb N]" by simp
    also have "map ?cb [Suc 0..<N] = tl (map ?cb [0..<N])" by (simp add: map_tl [symmetric] tl_upt)
    finally show ?thesis using N by (simp add: de_def cut_b_def)
  qed
  let ?ce = "cuts_a_end N a"
  define offs where "offs = seg_offsets 0 (zip (map2 (-) ?ce (cuts_a N a)) (map2 (-) de (map ?cb [0..<N])))"
  have offs: "offs ! k = ?off k" "length offs = N" if "k < N" for k
    using that N by (simp_all add: offs_def de seg_offsets_nth cut_off_def cuts_a_def cuts_a_end_def cut_a_def)
  have lists: "?ce ! k = ?ca (Suc k) \<and> de ! k = ?cb (Suc k) \<and> offs ! k = ?off k" if "k < N" for k
    using that offs by (simp add: cuts_a_end_def cut_a_def de)
  let ?st = "\<lparr>ss_i = cuts_a N a, ss_j = map ?cb [0..<N], ss_n = offs, ss_out = out\<rparr>"
  have total: "?off N \<le> length out" using cut_off_total [OF s(1) ne N, of b] out by linarith
  have start: "segs_ok N a b ?ca ?cb ?off (length out) ?S ?st"
  proof -
    have "seg_ok a b (?ca (Suc k)) (?cb (Suc k)) (?off k) (?off (Suc k)) (?S k) (?ca k) (?cb k) (?off k) out" if k: "k < N" for k
    proof -
      have "?off (Suc k) = ?off k + min (?ca (Suc k) - ?ca k) (?cb (Suc k) - ?cb k)" by (simp add: cut_off_def)
      moreover have "?off (Suc k) \<le> length out"
        using monoD [OF cut_off_mono, of "Suc k" N N a b] k total by linarith
      ultimately show ?thesis
        using cut_a_mono [of k "Suc k" N a] cut_b_mono [OF s(1) ne N, of k "Suc k" b] cut_a_le [OF N, of "Suc k" a] k cut_b_le
        by (simp add: seg_ok_def seg_meet_def)
    qed
    then show ?thesis using offs N by (simp add: segs_ok_def cuts_a_def cut_a_def)
  qed
  obtain st1 where st1: "seg_loop a b N ?ce de ?st = Some st1" "segs_ok N a b ?ca ?cb ?off (length out) ?S st1"
    using seg_loop_correct [OF start s cut_off_mono N, of ?ce de] lists by blast
  obtain st2 where st2: "fold_opt (seg_tail a b N ?ce de offs) [0..<N] st1 = Some st2" "length (ss_n st2) = N"
      "length (ss_out st2) = length out"
      "\<forall>k < N. seg_done (?off k) (?off (Suc k)) (?S k) (ss_n st2 ! k) (ss_out st2)"
    using seg_tails_correct [of st1 N 0 ?off a b ?S ?ca ?cb ?ce de offs] st1(2) s cut_off_mono total lists
    unfolding segs_ok_def by auto
  have d0: "seg_done 0 (?off 1) (?S 0) (ss_n st2 ! 0) (ss_out st2)"
    using st2(4) N by (auto simp: cut_off_def)
  then have n0: "ss_n st2 ! 0 = length (?S 0)" "take (ss_n st2 ! 0) (ss_out st2) = ?S 0" "ss_n st2 ! 0 \<le> ?off 1"
    by (auto simp: seg_done_def slice_def dest: arg_cong [where f = length])
  obtain out' where "fold_opt (seg_compact offs (ss_n st2)) [1..<N] (ss_n st2 ! 0, ss_out st2) =
      Some (length (concat (map ?S [0..<N])), out')" "length out' = length (ss_out st2)"
      "take (length (concat (map ?S [0..<N]))) out' = concat (map ?S [0..<N])"
    using seg_compact_correct [of ?off 1 N "ss_n st2 ! 0" "ss_out st2" ?S "ss_n st2" offs] cut_off_mono n0 st2(4) N offs
    by auto
  moreover have "idx (ss_n st2) 0 = Some (ss_n st2 ! 0)" using st2(2) N by simp
  ultimately show ?thesis
    using st1(1) st2(1,3) seg_meets [OF s ne N]
    by (simp add: split_merge_def cb Let_def de_def [symmetric] offs_def [symmetric])
qed

text \<open>The entry: whatever branch is taken, the output opens with the intersection.\<close>

lemma intersect_sorted_correct:
  assumes s: "asc a" "asc b" and out: "min (length a) (length b) \<le> length out"
  shows "\<exists>out'. intersect_sorted a b out = Some (length (meet a b), out') \<and> length out' = length out \<and>
    take (length (meet a b)) out' = meet a b"
proof -
  have go: "\<exists>out'. intersect_sorted a b out = Some (length (meet x y), out') \<and> length out' = length out \<and>
      take (length (meet x y)) out' = meet x y"
    if xy: "(if length a \<le> length b then (a, b) else (b, a)) = (x, y)" for x y
  proof -
    have sx: "asc x" "asc y" and l: "length x \<le> length y" "min (length x) (length y) \<le> length out"
      using xy s out by (auto split: if_splits)
    have e: "intersect_sorted a b out = (if x = [] then Some (0, out)
         else if length y div length x \<ge> GALLOP_RATIO then gallop_intersect x y out
         else if length x \<ge> 4 * SPLIT_MIN then split_merge 4 x y out
         else if length x \<ge> SPLIT_MIN then split_merge 2 x y out
         else merge_runs x y out)" unfolding intersect_sorted_def xy by simp
    show ?thesis
    proof (cases "x = []")
      case True then show ?thesis using e by simp
    next
      case False
      then have "y \<noteq> []" using l by auto
      then show ?thesis
        using e False gallop_intersect_correct [OF sx, of out] split_merge_correct [OF sx False _ l(2), of 4]
          split_merge_correct [OF sx False _ l(2), of 2] merge_runs_correct [OF sx l(2)] l by simp
    qed
  qed
  show ?thesis
  proof (cases "length a \<le> length b")
    case True then show ?thesis using go [of a b] by simp
  next
    case False then show ?thesis using go [of b a] meet_commute [OF s] by simp
  qed
qed

end
