(* ===== verification/Manifest.thy ===== *)
theory Manifest
  imports ZuPrelude
begin

text \<open>
  \<^verbatim>\<open>crates/zu-s3/src/manifest.rs\<close>: the root of a database in the object store, one
  immutable byte string per commit. The checksum is \<^verbatim>\<open>crc32c::crc32c\<close> of a third-party
  crate and is the parameter \<open>crc\<close>; nothing is assumed of it, because the writer and the
  reader compute it over the same bytes. A Rust \<^verbatim>\<open>String\<close> is its UTF-8 bytes.
\<close>

subsection \<open>UTF-8\<close>

text \<open>\<^verbatim>\<open>std::str::from_utf8\<close> succeeds on the well formed byte sequences: no overlong form, no
  surrogate, nothing above \<open>0x10FFFF\<close>.\<close>

definition cont_byte :: "u8 \<Rightarrow> bool" where
  "cont_byte b \<longleftrightarrow> 0x80 \<le> b \<and> b \<le> 0xBF"

fun utf8_valid :: "u8 list \<Rightarrow> bool" where
  "utf8_valid [] = True"
| "utf8_valid (a # bs) =
     (if a < 0x80 then utf8_valid bs
      else if 0xC2 \<le> a \<and> a \<le> 0xDF then
        (case bs of b # cs \<Rightarrow> cont_byte b \<and> utf8_valid cs | _ \<Rightarrow> False)
      else if 0xE0 \<le> a \<and> a \<le> 0xEF then
        (case bs of b # c # ds \<Rightarrow>
           (if a = 0xE0 then 0xA0 \<le> b \<and> b \<le> 0xBF
            else if a = 0xED then 0x80 \<le> b \<and> b \<le> 0x9F else cont_byte b) \<and>
           cont_byte c \<and> utf8_valid ds
         | _ \<Rightarrow> False)
      else if 0xF0 \<le> a \<and> a \<le> 0xF4 then
        (case bs of b # c # d # es \<Rightarrow>
           (if a = 0xF0 then 0x90 \<le> b \<and> b \<le> 0xBF
            else if a = 0xF4 then 0x80 \<le> b \<and> b \<le> 0x8F else cont_byte b) \<and>
           cont_byte c \<and> cont_byte d \<and> utf8_valid es
         | _ \<Rightarrow> False)
      else False)"

definition text_of :: "u8 list \<Rightarrow> string" where
  "text_of bs = map (\<lambda>b. char_of (unat b)) bs"

subsection \<open>The snapshot\<close>

definition MAGIC :: "u8 list" where "MAGIC = [0x5A, 0x55, 0x53, 0x33]"
definition FORMAT_VERSION :: u16 where "FORMAT_VERSION = 1"
definition DIR_START :: nat where "DIR_START = 4 + 2 + 8 + 16 + 4"
definition MIN_LEN :: nat where "MIN_LEN = DIR_START + 4"

record manifest =
  m_epoch :: u64
  m_writer :: u128
  m_segments :: "u8 list list"

fun put_keys :: "u8 list list \<Rightarrow> u8 list result" where
  "put_keys [] = Inr []"
| "put_keys (key # keys) =
     (if length key \<ge> 2 ^ 16
      then Inl (InvalidArgument (''segment key exceeds '' @ show_nat 65535 @ '' bytes: '' @ text_of key))
      else case put_keys keys of
             Inl e \<Rightarrow> Inl e
           | Inr rest \<Rightarrow> Inr (u16_le (word_of_nat (length key)) @ key @ rest))"

definition manifest_head :: "manifest \<Rightarrow> u8 list" where
  "manifest_head m =
     MAGIC @ u16_le FORMAT_VERSION @ u64_le (m_epoch m) @ to_le 16 (m_writer m) @ len_le (length (m_segments m))"

definition manifest_encode :: "(u8 list \<Rightarrow> u32) \<Rightarrow> manifest \<Rightarrow> u8 list result" where
  "manifest_encode crc m =
     (if length (m_segments m) \<ge> 2 ^ 32
      then Inl (InvalidArgument ''manifest holds more than u32::MAX segment keys'')
      else case put_keys (m_segments m) of
             Inl e \<Rightarrow> Inl e
           | Inr dir \<Rightarrow> Inr (manifest_head m @ dir @ u32_le (crc (manifest_head m @ dir))))"

definition manifest_corrupt :: "string \<Rightarrow> zu_error" where
  "manifest_corrupt detail = Corrupt ''manifest'' detail"

text \<open>The directory loop over the body from \<open>pos\<close>: the keys and where it stopped.\<close>

fun get_keys :: "nat \<Rightarrow> u8 list \<Rightarrow> nat \<Rightarrow> (u8 list list \<times> nat) result" where
  "get_keys 0 body pos = Inr ([], pos)"
| "get_keys (Suc n) body pos =
     (case get_range body pos (pos + 2) of
        None \<Rightarrow> Inl (manifest_corrupt ''truncated segment length'')
      | Some len_bytes \<Rightarrow>
          let key_len = unat (read_u16 len_bytes) in
          case get_range body (pos + 2) (pos + 2 + key_len) of
            None \<Rightarrow> Inl (manifest_corrupt ''truncated segment key'')
          | Some key \<Rightarrow>
              if \<not> utf8_valid key then Inl (manifest_corrupt ''segment key not utf-8'')
              else case get_keys n body (pos + 2 + key_len) of
                     Inl e \<Rightarrow> Inl e
                   | Inr (keys, stop) \<Rightarrow> Inr (key # keys, stop))"

definition manifest_decode :: "(u8 list \<Rightarrow> u32) \<Rightarrow> u8 list \<Rightarrow> manifest result" where
  "manifest_decode crc bytes =
     (if length bytes < MIN_LEN then Inl (manifest_corrupt ''truncated header'')
      else if take 4 bytes \<noteq> MAGIC then Inl (manifest_corrupt ''bad magic'')
      else let version = read_u16 (take 2 (drop 4 bytes)) in
        if version \<noteq> FORMAT_VERSION then Inl (Unsupported ''manifest format'' (unat version))
        else let body_end = length bytes - 4; stored = (from_le (drop body_end bytes) :: u32) in
          if crc (take body_end bytes) \<noteq> stored then Inl (manifest_corrupt ''crc mismatch'')
          else let epoch = read_u64 (take 8 (drop 6 bytes));
                   writer_id = from_le (take 16 (drop 14 bytes));
                   count = read_u32 (take 4 (drop 30 bytes));
                   body = take body_end bytes
               in case get_keys count body DIR_START of
                    Inl e \<Rightarrow> Inl e
                  | Inr (segments, pos) \<Rightarrow>
                      if pos \<noteq> body_end then Inl (manifest_corrupt ''trailing bytes'')
                      else Inr \<lparr>m_epoch = epoch, m_writer = writer_id, m_segments = segments\<rparr>)"

subsection \<open>Encoding and decoding are inverse\<close>

lemma take_drop_append: "length xs = n \<Longrightarrow> take m (drop n (xs @ ys)) = take m ys"
  by simp

lemma read_u16_len: "n < 2 ^ 16 \<Longrightarrow> unat (read_u16 (u16_le (word_of_nat n))) = n"
  by (simp add: unat_of_nat take_bit_nat_eq_self)

lemma put_get_keys:
  "put_keys keys = Inr dir \<Longrightarrow> list_all utf8_valid keys \<Longrightarrow>
    get_keys (length keys) (pre @ dir) (length pre) = Inr (keys, length pre + length dir)"
proof (induction keys arbitrary: pre dir)
  case (Cons key keys)
  obtain rest where r: "put_keys keys = Inr rest" "dir = u16_le (word_of_nat (length key)) @ key @ rest" "length key < 2 ^ 16"
    using Cons.prems(1) by (auto split: if_splits sum.splits)
  let ?len = "u16_le (word_of_nat (length key))"
  have g1: "get_range (pre @ dir) (length pre) (length pre + 2) = Some ?len"
    using get_range_append [of pre "length pre" "length pre + 2" ?len "key @ rest"] r(2) by simp
  have g2: "get_range (pre @ dir) (length pre + 2) (length pre + 2 + length key) = Some key"
    using get_range_append [of "pre @ ?len" "length pre + 2" "length pre + 2 + length key" key rest] r(2) by simp
  have "get_keys (length keys) ((pre @ ?len @ key) @ rest) (length (pre @ ?len @ key)) =
      Inr (keys, length (pre @ ?len @ key) + length rest)"
    by (rule Cons.IH [OF r(1)]) (use Cons.prems in simp)
  then have "get_keys (length keys) (pre @ dir) (length pre + 2 + length key) =
      Inr (keys, length pre + length dir)" using r(2) by (simp add: add.assoc)
  moreover have "unat (word_of_nat (length key) :: u16) = length key"
    using r(3) by (simp add: unat_of_nat take_bit_nat_eq_self)
  ultimately show ?case using g1 g2 Cons.prems(2) by (simp add: Let_def)
qed simp

lemma get_put_keys:
  "get_keys n body pos = Inr (keys, stop) \<Longrightarrow> pos \<le> length body \<Longrightarrow>
    length keys = n \<and> list_all utf8_valid keys \<and> pos \<le> stop \<and> stop \<le> length body \<and>
    put_keys keys = Inr (take (stop - pos) (drop pos body))"
proof (induction n arbitrary: pos keys stop)
  case (Suc n)
  obtain len_bytes where l: "get_range body pos (pos + 2) = Some len_bytes"
    using Suc.prems(1) by (auto split: option.splits)
  define k where "k = unat (read_u16 len_bytes)"
  obtain key where key: "get_range body (pos + 2) (pos + 2 + k) = Some key" "utf8_valid key"
    using Suc.prems(1) l by (auto simp: Let_def k_def split: option.splits if_splits)
  obtain keys' where r: "get_keys n body (pos + 2 + k) = Inr (keys', stop)" "keys = key # keys'"
    using Suc.prems(1) l key by (auto simp: Let_def k_def [symmetric] split: sum.splits prod.splits)
  have kl: "pos + 2 + k \<le> length body" "length key = k" "length len_bytes = 2"
    using get_range_SomeD [OF key(1)] get_range_SomeD [OF l] by auto
  note ih = Suc.IH [OF r(1) kl(1)]
  have k16: "k < 2 ^ 16" unfolding k_def using unsigned_less [of "read_u16 len_bytes"] by simp
  have "(word_of_nat k :: u16) = read_u16 len_bytes" by (simp add: k_def)
  then have len: "u16_le (word_of_nat k) = len_bytes"
    using kl(3) by (simp add: u16_le_def read_u16_def to_le_from_le)
  have parts: "len_bytes = take 2 (drop pos body)" "key = take k (drop (pos + 2) body)"
    using l key(1) by (auto simp: get_range_def split: if_splits)
  have "len_bytes @ key @ take (stop - (pos + 2 + k)) (drop (pos + 2 + k) body) = take (stop - pos) (drop pos body)"
  proof -
    have "stop - pos = 2 + (k + (stop - (pos + 2 + k)))" using ih by linarith
    then show ?thesis unfolding parts by (simp only: take_add drop_drop) (simp add: add.commute add.left_commute)
  qed
  then show ?case using ih r(2) key(2) kl k16 len by simp
qed (auto simp: list_all_def)

lemma manifest_head_length: "length (manifest_head m) = DIR_START"
  by (simp add: manifest_head_def MAGIC_def DIR_START_def)

lemma read_u128_le: "from_le (to_le 16 (w :: u128)) = w"
  using from_le_to_le [of 0 16 w] by simp

lemma manifest_roundtrip:
  assumes enc: "manifest_encode crc m = Inr b" and utf8: "list_all utf8_valid (m_segments m)"
  shows "manifest_decode crc b = Inr m"
proof -
  obtain dir where d: "put_keys (m_segments m) = Inr dir" "length (m_segments m) < 2 ^ 32"
      "b = (manifest_head m @ dir) @ u32_le (crc (manifest_head m @ dir))"
    using enc by (auto simp: manifest_encode_def split: if_splits sum.splits)
  let ?body = "manifest_head m @ dir"
  have len: "length b = length ?body + 4" using d(3) by simp
  have b: "b = MAGIC @ u16_le FORMAT_VERSION @ u64_le (m_epoch m) @ to_le 16 (m_writer m) @
      len_le (length (m_segments m)) @ dir @ u32_le (crc ?body)"
    using d(3) by (simp add: manifest_head_def)
  have t: "take (length b - 4) b = ?body" "drop (length b - 4) b = u32_le (crc ?body)"
    using d(3) by simp_all
  have crc: "(from_le (drop (length b - 4) b) :: u32) = crc ?body"
    using from_le_to_le [of 0 4 "crc ?body"] t(2) by (simp add: u32_le_def)
  have fields: "take 4 b = MAGIC" "take 2 (drop 4 b) = u16_le FORMAT_VERSION" "take 8 (drop 6 b) = u64_le (m_epoch m)"
      "take 16 (drop 14 b) = to_le 16 (m_writer m)" "take 4 (drop 30 b) = len_le (length (m_segments m))"
    unfolding b by (simp_all add: MAGIC_def)
  have keys: "get_keys (length (m_segments m)) ?body DIR_START = Inr (m_segments m, length ?body)"
    using put_get_keys [OF d(1) utf8, of "manifest_head m"] manifest_head_length [of m] by simp
  have "\<not> length b < MIN_LEN" using len manifest_head_length [of m] by (simp add: MIN_LEN_def)
  then show ?thesis
    unfolding manifest_decode_def
    using fields crc t keys len d(2) by (simp add: Let_def read_len_le read_u128_le)
qed

lemma manifest_canonical:
  assumes "manifest_decode crc b = Inr m"
  shows "manifest_encode crc m = Inr b \<and> list_all utf8_valid (m_segments m)"
proof -
  define e where "e = length b - 4"
  define count where "count = read_u32 (take 4 (drop 30 b))"
  have len: "MIN_LEN \<le> length b" and mg: "take 4 b = MAGIC" and ver: "read_u16 (take 2 (drop 4 b)) = FORMAT_VERSION"
    and crc: "crc (take e b) = from_le (drop e b)"
    and keys: "get_keys count (take e b) DIR_START = Inr (m_segments m, e)"
    and m: "m = \<lparr>m_epoch = read_u64 (take 8 (drop 6 b)), m_writer = from_le (take 16 (drop 14 b)), m_segments = m_segments m\<rparr>"
    using assms unfolding manifest_decode_def e_def count_def
    by (auto simp: Let_def not_less split: if_splits sum.splits prod.splits)
  have l: "38 \<le> length b" using len by (simp add: MIN_LEN_def DIR_START_def)
  have el: "34 \<le> e" "length (take e b) = e" using l by (simp_all add: e_def)
  note g = get_put_keys [OF keys] 
  have g': "length (m_segments m) = count" "list_all utf8_valid (m_segments m)"
      "put_keys (m_segments m) = Inr (take (e - 34) (drop 34 (take e b)))"
    using g el by (simp_all add: DIR_START_def)
  have cnt: "count < 2 ^ 32" unfolding count_def by (rule read_u32_bound)
  have "u16_le FORMAT_VERSION = take 2 (drop 4 b)"
    using ver l by (simp flip: ver add: u16_le_def read_u16_def to_le_from_le)
  moreover have "u64_le (m_epoch m) = take 8 (drop 6 b)" using l by (subst m) simp
  moreover have "to_le 16 (m_writer m) = take 16 (drop 14 b)"
    using l by (subst m) (simp add: to_le_from_le)
  moreover have "len_le (length (m_segments m)) = take 4 (drop 30 b)"
    using l g'(1) by (simp add: count_def len_le_read)
  ultimately have head: "manifest_head m = take 34 b"
  proof -
    assume f: "u16_le FORMAT_VERSION = take 2 (drop 4 b)" "u64_le (m_epoch m) = take 8 (drop 6 b)"
      "to_le 16 (m_writer m) = take 16 (drop 14 b)" "len_le (length (m_segments m)) = take 4 (drop 30 b)"
    have "take (4 + (2 + (8 + (16 + 4)))) b =
        take 4 b @ take 2 (drop 4 b) @ take 8 (drop 6 b) @ take 16 (drop 14 b) @ take 4 (drop 30 b)"
      by (simp only: take_add drop_drop) simp
    then show ?thesis unfolding manifest_head_def f mg [symmetric] by simp
  qed
  have dir: "take (e - 34) (drop 34 (take e b)) = drop 34 (take e b)" using el by simp
  have "take 34 b @ drop 34 (take e b) = take e b" using el by (metis append_take_drop_id min.absorb1 take_take)
  then have body: "manifest_head m @ drop 34 (take e b) = take e b" using head by simp
  have "length (drop e b) = 4" using l by (simp add: e_def)
  then have "u32_le (crc (take e b)) = drop e b"
    by (simp add: crc u32_le_def to_le_from_le)
  then have "manifest_encode crc m = Inr (take e b @ drop e b)"
    unfolding manifest_encode_def using g' cnt dir body by (simp add: append.assoc [symmetric])
  then show ?thesis using g'(2) by simp
qed

end
