(* ===== verification/Disk.thy ===== *)
theory Disk
  imports ZuPrelude
begin

text \<open>
  \<^verbatim>\<open>crates/zu-zu1/src/vfs.rs\<close>: the file under the engine. The bytes are those of \<^verbatim>\<open>MemFile\<close>,
  whose rules (a read past the end fails, a write past the end fills the gap with zeros) the
  source states to be a real file's; every call that changes the file is logged before it is
  made, as \<^verbatim>\<open>RecordingFile\<close> does for the crash harness.
\<close>

datatype io_event =
    WriteEvent nat "u8 list"
  | SetLenEvent nat
  | SyncEvent

record disk =
  di_image :: "u8 list"
  di_writable :: bool
  di_log :: "io_event list"

definition disk_refused :: "disk \<Rightarrow> unit result" where
  "disk_refused d = (if di_writable d then Inr () else Inl (Io ''this database was opened read-only''))"

definition disk_read :: "disk \<Rightarrow> nat \<Rightarrow> nat \<Rightarrow> u8 list result" where
  "disk_read d off n =
     (if off + n > length (di_image d) then Inl (Io ''read past end of file'')
      else Inr (take n (drop off (di_image d))))"

definition resize :: "u8 list \<Rightarrow> nat \<Rightarrow> u8 list" where
  "resize img n = take n img @ replicate (n - length img) 0"

definition put_bytes :: "u8 list \<Rightarrow> nat \<Rightarrow> u8 list \<Rightarrow> u8 list" where
  "put_bytes img off bytes =
     (let img1 = (if off + length bytes > length img then resize img (off + length bytes) else img)
      in take off img1 @ bytes @ drop (off + length bytes) img1)"

definition disk_write :: "disk \<Rightarrow> u8 list \<Rightarrow> nat \<Rightarrow> unit result \<times> disk" where
  "disk_write d bytes off =
     (let d1 = d\<lparr>di_log := di_log d @ [WriteEvent off bytes]\<rparr>
      in case disk_refused d of
           Inl e \<Rightarrow> (Inl e, d1)
         | Inr _ \<Rightarrow> (Inr (), d1\<lparr>di_image := put_bytes (di_image d) off bytes\<rparr>))"

definition disk_set_len :: "disk \<Rightarrow> nat \<Rightarrow> unit result \<times> disk" where
  "disk_set_len d n =
     (let d1 = d\<lparr>di_log := di_log d @ [SetLenEvent n]\<rparr>
      in case disk_refused d of
           Inl e \<Rightarrow> (Inl e, d1)
         | Inr _ \<Rightarrow> (Inr (), d1\<lparr>di_image := resize (di_image d) n\<rparr>))"

definition disk_sync :: "disk \<Rightarrow> unit result \<times> disk" where
  "disk_sync d = (Inr (), d\<lparr>di_log := di_log d @ [SyncEvent]\<rparr>)"

definition disk_len :: "disk \<Rightarrow> nat" where
  "disk_len d = length (di_image d)"

subsection \<open>Reading back\<close>

lemma length_resize [simp]: "length (resize img n) = n"
  by (simp add: resize_def)

lemma length_put_bytes [simp]: "length (put_bytes img off bytes) = max (length img) (off + length bytes)"
  by (simp add: put_bytes_def Let_def)

lemma nth_resize: "i < n \<Longrightarrow> resize img n ! i = (if i < length img then img ! i else 0)"
  by (simp add: resize_def nth_append)

lemma nth_put_bytes:
  assumes "i < max (length img) (off + length bytes)"
  shows "put_bytes img off bytes ! i =
    (if off \<le> i \<and> i < off + length bytes then bytes ! (i - off) else if i < length img then img ! i else 0)"
proof -
  define img1 where "img1 = (if off + length bytes > length img then resize img (off + length bytes) else img)"
  have len: "length img1 = max (length img) (off + length bytes)" by (simp add: img1_def)
  have n1: "img1 ! i = (if i < length img then img ! i else 0)"
    using assms by (auto simp: img1_def nth_resize)
  have "put_bytes img off bytes ! i = (take off img1 @ bytes @ drop (off + length bytes) img1) ! i"
    by (simp add: put_bytes_def img1_def)
  also have "\<dots> = (if off \<le> i \<and> i < off + length bytes then bytes ! (i - off) else img1 ! i)"
    using assms len by (cases "i < off"; cases "i < off + length bytes") (auto simp: nth_append)
  finally show ?thesis using n1 by simp
qed

text \<open>\<open>window img off n\<close> is the bytes a read of \<open>n\<close> at \<open>off\<close> gives.\<close>

definition window :: "u8 list \<Rightarrow> nat \<Rightarrow> nat \<Rightarrow> u8 list" where
  "window img off n = take n (drop off img)"

lemma length_window [simp]: "off + n \<le> length img \<Longrightarrow> length (window img off n) = n"
  by (simp add: window_def)

lemma nth_window: "off + n \<le> length img \<Longrightarrow> i < n \<Longrightarrow> window img off n ! i = img ! (off + i)"
  by (simp add: window_def)

lemma disk_read_window: "off + n \<le> length (di_image d) \<Longrightarrow> disk_read d off n = Inr (window (di_image d) off n)"
  by (simp add: disk_read_def window_def)

lemma window_put_same: "window (put_bytes img off bytes) off (length bytes) = bytes"
  by (intro nth_equalityI) (simp_all add: length_put_bytes nth_window nth_put_bytes)

lemma window_put_other:
  assumes "off + n \<le> length img" "off + n \<le> at \<or> at + length bytes \<le> off"
  shows "window (put_bytes img at bytes) off n = window img off n"
  using assms by (intro nth_equalityI) (auto simp: length_put_bytes nth_window nth_put_bytes)

lemma disk_write_ok:
  "di_writable d \<Longrightarrow> disk_write d bytes off =
    (Inr (), d\<lparr>di_log := di_log d @ [WriteEvent off bytes], di_image := put_bytes (di_image d) off bytes\<rparr>)"
  by (simp add: disk_write_def disk_refused_def)

subsection \<open>What a crash leaves\<close>

definition apply_event :: "io_event \<Rightarrow> u8 list \<Rightarrow> u8 list" where
  "apply_event ev img =
     (case ev of
        WriteEvent off bytes \<Rightarrow> put_bytes img off bytes
      | SetLenEvent n \<Rightarrow> resize img n
      | SyncEvent \<Rightarrow> img)"

definition replay :: "io_event list \<Rightarrow> u8 list \<Rightarrow> u8 list" where
  "replay evs img = fold apply_event evs img"

lemma replay_append: "replay (xs @ ys) img = replay ys (replay xs img)"
  by (simp add: replay_def)

lemma replay_simps [simp]:
  "replay [] img = img" "replay [WriteEvent off bytes] img = put_bytes img off bytes" "replay [SyncEvent] img = img"
  by (simp_all add: replay_def apply_event_def)

text \<open>
  Until a sync returns, any of the writes since the one before may be missing, and one the
  crash interrupted may have left anything in its range. \<open>torn\<close> is every file that can be
  left: nothing outside the ranges of the writes has changed.
\<close>

definition covers :: "io_event \<Rightarrow> nat \<Rightarrow> bool" where
  "covers ev i \<longleftrightarrow> (case ev of WriteEvent off bytes \<Rightarrow> off \<le> i \<and> i < off + length bytes | SetLenEvent n \<Rightarrow> n \<le> i | SyncEvent \<Rightarrow> False)"

definition torn :: "io_event list \<Rightarrow> u8 list \<Rightarrow> u8 list \<Rightarrow> bool" where
  "torn evs img img1 \<longleftrightarrow>
     length img \<le> length img1 \<and> (\<forall>i < length img. (\<forall>ev \<in> set evs. \<not> covers ev i) \<longrightarrow> img1 ! i = img ! i)"

definition grows :: "io_event \<Rightarrow> bool" where
  "grows ev \<longleftrightarrow> (case ev of SetLenEvent n \<Rightarrow> False | _ \<Rightarrow> True)"

text \<open>Losing any of the writes is one of them.\<close>

lemma torn_lost: "list_all grows evs \<Longrightarrow> set evs' \<subseteq> set evs \<Longrightarrow> torn evs img (replay evs' img)"
proof (induction evs' rule: rev_induct)
  case Nil then show ?case by (simp add: torn_def)
next
  case (snoc ev evs')
  then have t: "torn evs img (replay evs' img)" and ev: "ev \<in> set evs" "grows ev" by (auto simp: list_all_iff)
  show ?case
  proof (cases ev)
    case (WriteEvent off bytes)
    have "replay (evs' @ [ev]) img = put_bytes (replay evs' img) off bytes" by (simp add: replay_append WriteEvent)
    moreover have "put_bytes (replay evs' img) off bytes ! i = replay evs' img ! i" if "i < length (replay evs' img)" "\<not> covers ev i" for i
      using that WriteEvent by (auto simp: nth_put_bytes covers_def)
    ultimately show ?thesis using t ev(1) by (auto simp: torn_def)
  next
    case SyncEvent then show ?thesis using t by (simp add: replay_append)
  qed (use ev in \<open>simp add: grows_def\<close>)
qed

lemma torn_window:
  assumes "torn evs img img1" "off + n \<le> length img"
    "\<And>ev i. ev \<in> set evs \<Longrightarrow> off \<le> i \<Longrightarrow> i < off + n \<Longrightarrow> \<not> covers ev i"
  shows "window img1 off n = window img off n"
proof (rule nth_equalityI)
  have l: "length img \<le> length img1" using assms(1) by (simp add: torn_def)
  show "length (window img1 off n) = length (window img off n)" using assms(2) l by simp
  fix i assume "i < length (window img1 off n)"
  then have i: "i < n" using assms(2) l by simp
  have "\<forall>ev \<in> set evs. \<not> covers ev (off + i)" using assms(3) i by auto
  then have "img1 ! (off + i) = img ! (off + i)" using assms(1,2) i by (simp add: torn_def)
  then show "window img1 off n ! i = window img off n ! i" using assms(2) l i by (simp add: nth_window)
qed

text \<open>
  A crash some way through a list of events. A sync makes what was written before it durable;
  of the writes after the last sync that returned, any may be lost or torn.
\<close>

inductive crash :: "io_event list \<Rightarrow> u8 list \<Rightarrow> u8 list \<Rightarrow> bool" where
  lost: "torn evs img img1 \<Longrightarrow> SyncEvent \<notin> set evs \<Longrightarrow> crash (evs @ rest) img img1"
| synced: "crash rest (replay evs img) img1 \<Longrightarrow> crash (evs @ SyncEvent # rest) img img1"

inductive_cases crash_nilE: "crash [] img img1"

lemma crash_nil: "crash [] img img1 \<Longrightarrow> torn [] img img1"
  by (auto elim: crash_nilE)

lemma torn_mono: "torn evs img img1 \<Longrightarrow> set evs \<subseteq> set evs' \<Longrightarrow> torn evs' img img1"
  by (auto simp: torn_def)

lemma torn_trans: "torn xs a b \<Longrightarrow> torn ys b c \<Longrightarrow> torn (xs @ ys) a c"
  unfolding torn_def by auto

lemma torn_replay: "list_all grows evs \<Longrightarrow> torn evs img (replay evs img)"
  by (rule torn_lost) simp_all

text \<open>A crash before the sync at the end of \<open>xs\<close> sees nothing of \<open>ys\<close>; one after it sees all of \<open>xs\<close>.\<close>

lemma crash_split: "crash (xs @ SyncEvent # ys) img img1 \<Longrightarrow> crash xs img img1 \<or> crash ys (replay xs img) img1"
proof (induction "xs @ SyncEvent # ys" img img1 arbitrary: xs rule: crash.induct)
  case (lost evs img img1 rest)
  then obtain us where "xs = evs @ us"
    by (auto simp: append_eq_append_conv2 append_eq_Cons_conv)
  then show ?case using crash.lost lost by blast
next
  case (synced rest evs img img1)
  then consider us where "xs = evs @ SyncEvent # us" "rest = us @ SyncEvent # ys" | "xs = evs" "rest = ys"
    | us where "evs = xs @ SyncEvent # us" "ys = us @ SyncEvent # rest"
    by (auto simp: append_eq_append_conv2 append_eq_Cons_conv Cons_eq_append_conv)
  then show ?case
  proof cases
    case 1
    then have "crash us (replay evs img) img1 \<or> crash ys (replay us (replay evs img)) img1" using synced(2) by blast
    moreover have "replay xs img = replay us (replay evs img)" using 1 by (simp add: replay_def apply_event_def)
    ultimately show ?thesis using 1(1) crash.synced by auto
  next
    case 3
    then have "replay evs img = replay us (replay xs img)" by (simp add: replay_def apply_event_def)
    then show ?thesis using synced(1) 3(2) crash.synced by metis
  qed (use synced in blast)
qed

lemma crash_torn: "crash evs img img1 \<Longrightarrow> list_all grows evs \<Longrightarrow> torn evs img img1"
proof (induction rule: crash.induct)
  case (lost evs img img1 rest) then show ?case by (auto elim: torn_mono)
next
  case (synced rest evs img img1)
  then have "torn (evs @ rest) img img1" by (intro torn_trans [OF torn_replay]) simp_all
  then show ?case by (auto elim: torn_mono)
qed

text \<open>A write followed by a sync: it is lost, torn, or there.\<close>

lemma crash_write: "crash [WriteEvent off bytes, SyncEvent] img img1 \<Longrightarrow>
  torn [WriteEvent off bytes] img img1 \<or> torn [] (put_bytes img off bytes) img1"
  using crash_split [of "[WriteEvent off bytes]" "[]" img img1]
  by (auto dest!: crash_nil crash_torn simp: grows_def)

end
