(* ===== verification/Cache.thy ===== *)
theory Cache
  imports ZuPrelude
begin

text \<open>
  \<^verbatim>\<open>crates/zu-zu1/src/cache.rs\<close>: the sharded block cache with its SIEVE hand, and the
  decoded pools with their byte budget. An \<^verbatim>\<open>Arc<Vec<u8>>\<close> is an address in a list of
  reference counted frames, so that a pin, which is a clone of a slot's \<^verbatim>\<open>Arc\<close>, aliases the
  frame of the slot and recycling a frame is an update in place. Every operation runs under
  its shard's lock and is one step.
\<close>

definition BLOCK_SIZE :: nat where "BLOCK_SIZE = 32768"
definition NULL_BLOCK :: u64 where "NULL_BLOCK = 0"
definition SHARDS :: nat where "SHARDS = 64"

subsection \<open>Frames\<close>

record arc =
  ar_bytes :: "u8 list"
  ar_count :: nat

definition arc_clone :: "arc list \<Rightarrow> nat \<Rightarrow> arc list option" where
  "arc_clone arcs a = modify_at arcs a (\<lambda>r. r\<lparr>ar_count := ar_count r + 1\<rparr>)"

definition arc_drop :: "arc list \<Rightarrow> nat \<Rightarrow> arc list option" where
  "arc_drop arcs a = modify_at arcs a (\<lambda>r. r\<lparr>ar_count := ar_count r - 1\<rparr>)"

subsection \<open>The block cache\<close>

record slot =
  sl_ptr :: u64
  sl_visited :: bool
  sl_frame :: nat

record shard =
  sh_map :: "u64 \<rightharpoonup> nat"
  sh_slots :: "slot list"
  sh_hand :: nat

record cache_stats =
  cs_hits :: u64
  cs_misses :: u64
  cs_evictions :: u64

record cache =
  ca_shards :: "shard list"
  ca_per_shard :: nat
  ca_stats :: cache_stats
  ca_arcs :: "arc list"

definition bc_new :: "nat \<Rightarrow> cache" where
  "bc_new budget =
     (let frames = max (budget div BLOCK_SIZE) SHARDS
      in \<lparr>ca_shards = replicate SHARDS \<lparr>sh_map = Map.empty, sh_slots = [], sh_hand = 0\<rparr>,
          ca_per_shard = (frames + SHARDS - 1) div SHARDS,
          ca_stats = \<lparr>cs_hits = 0, cs_misses = 0, cs_evictions = 0\<rparr>,
          ca_arcs = []\<rparr>)"

text \<open>A pinned block is the address of its frame.\<close>

definition bc_get :: "cache \<Rightarrow> u64 \<Rightarrow> (nat option \<times> cache) option" where
  "bc_get c ptr =
     (let k = unat ptr mod SHARDS in do {
        sh \<leftarrow> idx (ca_shards c) k;
        case sh_map sh ptr of
          None \<Rightarrow> Some (None, c\<lparr>ca_stats := (ca_stats c)\<lparr>cs_misses := cs_misses (ca_stats c) + 1\<rparr>\<rparr>)
        | Some i \<Rightarrow> do {
            slot \<leftarrow> idx (sh_slots sh) i;
            arcs \<leftarrow> arc_clone (ca_arcs c) (sl_frame slot);
            Some (Some (sl_frame slot),
                  c\<lparr>ca_shards := (ca_shards c)[k := sh\<lparr>sh_slots := (sh_slots sh)[i := slot\<lparr>sl_visited := True\<rparr>]\<rparr>],
                    ca_stats := (ca_stats c)\<lparr>cs_hits := cs_hits (ca_stats c) + 1\<rparr>,
                    ca_arcs := arcs\<rparr>)
          }
      })"

text \<open>The SIEVE hand, \<open>n\<close> steps of it: the slot it freed, the shard and the eviction count.\<close>

fun evict_loop :: "nat \<Rightarrow> arc list \<Rightarrow> shard \<Rightarrow> u64 \<Rightarrow> (nat option \<times> shard \<times> u64) option" where
  "evict_loop 0 arcs sh ev = Some (None, sh, ev)"
| "evict_loop (Suc n) arcs sh ev =
     (let i = sh_hand sh; sh1 = sh\<lparr>sh_hand := (i + 1) mod length (sh_slots sh)\<rparr> in do {
        slot \<leftarrow> idx (sh_slots sh) i;
        if sl_visited slot
        then evict_loop n arcs (sh1\<lparr>sh_slots := (sh_slots sh)[i := slot\<lparr>sl_visited := False\<rparr>]\<rparr>) ev
        else do {
          frame \<leftarrow> idx arcs (sl_frame slot);
          if ar_count frame > 1 then evict_loop n arcs sh1 ev
          else Some (Some i,
                 sh1\<lparr>sh_map := (if sl_ptr slot \<noteq> NULL_BLOCK then (sh_map sh)(sl_ptr slot := None) else sh_map sh),
                     sh_slots := (sh_slots sh)[i := slot\<lparr>sl_ptr := NULL_BLOCK\<rparr>]\<rparr>,
                 (if sl_ptr slot \<noteq> NULL_BLOCK then ev + 1 else ev))
        }
      })"

definition evict :: "arc list \<Rightarrow> shard \<Rightarrow> u64 \<Rightarrow> (nat option \<times> shard \<times> u64) option" where
  "evict arcs sh ev = evict_loop (2 * length (sh_slots sh)) arcs sh ev"

text \<open>
  The reader's \<^verbatim>\<open>fill\<close> closure gets the frame's bytes and leaves them as it leaves them,
  also when it fails.
\<close>

type_synonym fill = "u8 list \<Rightarrow> unit result \<times> u8 list"

definition fill_slot :: "cache \<Rightarrow> nat \<Rightarrow> shard \<Rightarrow> nat \<Rightarrow> u64 \<Rightarrow> fill \<Rightarrow> (nat result \<times> cache) option" where
  "fill_slot c k sh i ptr fill = do {
     slot \<leftarrow> idx (sh_slots sh) i;
     frame \<leftarrow> idx (ca_arcs c) (sl_frame slot);
     if ar_count frame \<noteq> 1 then None
     else case fill (ar_bytes frame) of
       (Inl e, bytes) \<Rightarrow>
         Some (Inl e, c\<lparr>ca_shards := (ca_shards c)[k := sh\<lparr>sh_slots := (sh_slots sh)[i := slot\<lparr>sl_ptr := NULL_BLOCK\<rparr>]\<rparr>],
                        ca_arcs := (ca_arcs c)[sl_frame slot := frame\<lparr>ar_bytes := bytes\<rparr>]\<rparr>)
     | (Inr _, bytes) \<Rightarrow>
         Some (Inr (sl_frame slot),
               c\<lparr>ca_shards := (ca_shards c)[k := sh\<lparr>sh_map := (sh_map sh)(ptr \<mapsto> i),
                                sh_slots := (sh_slots sh)[i := slot\<lparr>sl_ptr := ptr, sl_visited := False\<rparr>]\<rparr>],
                 ca_arcs := (ca_arcs c)[sl_frame slot := frame\<lparr>ar_bytes := bytes, ar_count := 2\<rparr>]\<rparr>)
   }"

definition bc_insert :: "cache \<Rightarrow> u64 \<Rightarrow> fill \<Rightarrow> (nat result \<times> cache) option" where
  "bc_insert c ptr fill =
     (let k = unat ptr mod SHARDS in do {
        sh \<leftarrow> idx (ca_shards c) k;
        case sh_map sh ptr of
          Some i \<Rightarrow> do {
            slot \<leftarrow> idx (sh_slots sh) i;
            arcs \<leftarrow> arc_clone (ca_arcs c) (sl_frame slot);
            Some (Inr (sl_frame slot),
                  c\<lparr>ca_shards := (ca_shards c)[k := sh\<lparr>sh_slots := (sh_slots sh)[i := slot\<lparr>sl_visited := True\<rparr>]\<rparr>],
                    ca_arcs := arcs\<rparr>)
          }
        | None \<Rightarrow>
            if length (sh_slots sh) < ca_per_shard c
            then let fresh = \<lparr>sl_ptr = NULL_BLOCK, sl_visited = False, sl_frame = length (ca_arcs c)\<rparr>
                 in fill_slot (c\<lparr>ca_arcs := ca_arcs c @ [\<lparr>ar_bytes = replicate BLOCK_SIZE 0, ar_count = 1\<rparr>]\<rparr>) k
                      (sh\<lparr>sh_slots := sh_slots sh @ [fresh]\<rparr>) (length (sh_slots sh)) ptr fill
            else do {
              (r, sh1, ev) \<leftarrow> evict (ca_arcs c) sh (cs_evictions (ca_stats c));
              let c1 = c\<lparr>ca_shards := (ca_shards c)[k := sh1], ca_stats := (ca_stats c)\<lparr>cs_evictions := ev\<rparr>\<rparr>;
              case r of
                Some i \<Rightarrow> fill_slot c1 k sh1 i ptr fill
              | None \<Rightarrow>
                  (case fill (replicate BLOCK_SIZE 0) of
                     (Inl e, _) \<Rightarrow> Some (Inl e, c1)
                   | (Inr _, bytes) \<Rightarrow>
                       Some (Inr (length (ca_arcs c)), c1\<lparr>ca_arcs := ca_arcs c @ [\<lparr>ar_bytes = bytes, ar_count = 1\<rparr>]\<rparr>))
            }
      })"

definition bc_remove :: "cache \<Rightarrow> u64 \<Rightarrow> cache option" where
  "bc_remove c ptr =
     (let k = unat ptr mod SHARDS in do {
        sh \<leftarrow> idx (ca_shards c) k;
        case sh_map sh ptr of
          None \<Rightarrow> Some c
        | Some i \<Rightarrow> do {
            slots \<leftarrow> modify_at (sh_slots sh) i (\<lambda>s. s\<lparr>sl_ptr := NULL_BLOCK, sl_visited := False\<rparr>);
            Some (c\<lparr>ca_shards := (ca_shards c)[k := sh\<lparr>sh_map := (sh_map sh)(ptr := None), sh_slots := slots\<rparr>]\<rparr>)
          }
      })"

text \<open>Dropping a pin.\<close>

definition bc_unpin :: "cache \<Rightarrow> nat \<Rightarrow> cache option" where
  "bc_unpin c a = map_option (\<lambda>arcs. c\<lparr>ca_arcs := arcs\<rparr>) (arc_drop (ca_arcs c) a)"

definition pinned_bytes :: "cache \<Rightarrow> nat \<Rightarrow> u8 list" where
  "pinned_bytes c a = (case idx (ca_arcs c) a of None \<Rightarrow> [] | Some r \<Rightarrow> ar_bytes r)"

subsection \<open>The index of one shard\<close>

text \<open>
  The map names exactly the slots that hold a block, each slot one block. \<open>ps\<close> are the
  pointers of the slots.
\<close>

definition shard_index_ok :: "nat \<Rightarrow> nat \<Rightarrow> (u64 \<rightharpoonup> nat) \<Rightarrow> u64 list \<Rightarrow> nat \<Rightarrow> bool" where
  "shard_index_ok cap k m ps h \<longleftrightarrow>
     length ps \<le> cap \<and> (ps = [] \<and> h = 0 \<or> h < length ps) \<and>
     (\<forall>p i. m p = Some i \<longrightarrow> p \<noteq> NULL_BLOCK \<and> unat p mod SHARDS = k \<and> i < length ps \<and> ps ! i = p) \<and>
     (\<forall>i < length ps. ps ! i \<noteq> NULL_BLOCK \<longrightarrow> m (ps ! i) = Some i)"

definition shard_ok :: "nat \<Rightarrow> nat \<Rightarrow> shard \<Rightarrow> bool" where
  "shard_ok cap k sh = shard_index_ok cap k (sh_map sh) (map sl_ptr (sh_slots sh)) (sh_hand sh)"

lemma shard_index_okI:
  "length ps \<le> cap \<Longrightarrow> ps = [] \<and> h = 0 \<or> h < length ps \<Longrightarrow>
    (\<And>p i. m p = Some i \<Longrightarrow> p \<noteq> NULL_BLOCK \<and> unat p mod SHARDS = k \<and> i < length ps \<and> ps ! i = p) \<Longrightarrow>
    (\<And>i. i < length ps \<Longrightarrow> ps ! i \<noteq> NULL_BLOCK \<Longrightarrow> m (ps ! i) = Some i) \<Longrightarrow> shard_index_ok cap k m ps h"
  unfolding shard_index_ok_def by blast

lemma shard_index_ok_hand_D: "shard_index_ok cap k m ps h \<Longrightarrow> length ps \<le> cap \<and> (ps = [] \<and> h = 0 \<or> h < length ps)"
  unfolding shard_index_ok_def by blast

lemma shard_index_ok_unmap:
  assumes ok: "shard_index_ok cap k m ps h" and i: "i < length ps"
  shows "shard_index_ok cap k (if ps ! i \<noteq> NULL_BLOCK then m(ps ! i := None) else m) (ps[i := NULL_BLOCK]) h"
    (is "shard_index_ok cap k ?m ?ps h")
proof -
  have m: "m p = Some j \<Longrightarrow> p \<noteq> NULL_BLOCK \<and> unat p mod SHARDS = k \<and> j < length ps \<and> ps ! j = p" for p j
    using ok by (simp add: shard_index_ok_def)
  have "p \<noteq> NULL_BLOCK \<and> unat p mod SHARDS = k \<and> j < length ?ps \<and> ?ps ! j = p" if e: "?m p = Some j" for p j
  proof -
    have e': "m p = Some j" and ne: "ps ! i \<noteq> NULL_BLOCK \<longrightarrow> p \<noteq> ps ! i"
      using e by (auto split: if_splits)
    then have "j \<noteq> i" using m [OF e'] by auto
    then show ?thesis using m [OF e'] by simp
  qed
  note A = this
  have "?m (?ps ! j) = Some j" if "j < length ?ps" "?ps ! j \<noteq> NULL_BLOCK" for j
  proof -
    have ji: "j \<noteq> i" using that i by (auto simp: nth_list_update)
    then have mj: "m (ps ! j) = Some j" using that ok by (simp add: shard_index_ok_def)
    have "ps ! j \<noteq> ps ! i" if "ps ! i \<noteq> NULL_BLOCK"
    proof
      assume eq: "ps ! j = ps ! i"
      have "m (ps ! i) = Some i" using that ok i by (simp add: shard_index_ok_def)
      then show False using mj ji eq by simp
    qed
    then show ?thesis using mj ji by simp
  qed
  note B = this
  show ?thesis
    by (rule shard_index_okI [OF _ _ A B]) (use shard_index_ok_hand_D [OF ok] in simp_all)
qed

lemma shard_index_ok_map:
  assumes ok: "shard_index_ok cap k m ps h" and i: "i < length ps" "ps ! i = NULL_BLOCK"
    and p: "p \<noteq> NULL_BLOCK" "unat p mod SHARDS = k" "m p = None"
  shows "shard_index_ok cap k (m(p \<mapsto> i)) (ps[i := p]) h"
proof -
  have m: "m q = Some j \<Longrightarrow> q \<noteq> NULL_BLOCK \<and> unat q mod SHARDS = k \<and> j < length ps \<and> ps ! j = q" for q j
    using ok by (simp add: shard_index_ok_def)
  have "q \<noteq> NULL_BLOCK \<and> unat q mod SHARDS = k \<and> j < length (ps[i := p]) \<and> ps[i := p] ! j = q"
    if e: "(m(p \<mapsto> i)) q = Some j" for q j
  proof (cases "q = p")
    case True then show ?thesis using e i p by simp
  next
    case False
    then have e': "m q = Some j" using e by simp
    have "j \<noteq> i" using m [OF e'] i by auto
    then show ?thesis using m [OF e'] by simp
  qed
  note A = this
  have "(m(p \<mapsto> i)) (ps[i := p] ! j) = Some j" if "j < length (ps[i := p])" "ps[i := p] ! j \<noteq> NULL_BLOCK" for j
  proof (cases "j = i")
    case True then show ?thesis using i by simp
  next
    case False
    then have "m (ps ! j) = Some j" using that ok by (simp add: shard_index_ok_def)
    then show ?thesis using False p(3) by auto
  qed
  note B = this
  show ?thesis
    by (rule shard_index_okI [OF _ _ A B]) (use shard_index_ok_hand_D [OF ok] in simp_all)
qed

lemma shard_index_ok_push: "shard_index_ok cap k m ps h \<Longrightarrow> length ps < cap \<Longrightarrow> shard_index_ok cap k m (ps @ [NULL_BLOCK]) h"
  unfolding shard_index_ok_def by (auto simp: nth_append less_Suc_eq)

lemma shard_index_ok_hand: "shard_index_ok cap k m ps h \<Longrightarrow> h' < length ps \<Longrightarrow> shard_index_ok cap k m ps h'"
  unfolding shard_index_ok_def by auto

lemma map_sl [simp]:
  "i < length xs \<Longrightarrow> map sl_ptr (xs[i := (xs ! i)\<lparr>sl_visited := b\<rparr>]) = map sl_ptr xs"
  "i < length xs \<Longrightarrow> map sl_frame (xs[i := (xs ! i)\<lparr>sl_visited := b\<rparr>]) = map sl_frame xs"
  "i < length xs \<Longrightarrow> map sl_frame (xs[i := (xs ! i)\<lparr>sl_ptr := p\<rparr>]) = map sl_frame xs"
  "i < length xs \<Longrightarrow> map sl_frame (xs[i := (xs ! i)\<lparr>sl_ptr := p, sl_visited := b\<rparr>]) = map sl_frame xs"
  by (simp_all add: map_update list_update_same_conv)

text \<open>What the hand answers: nothing, or a slot it has unmapped and that nobody pins.\<close>

lemma evict_loop_ok:
  "shard_ok cap k sh \<Longrightarrow> sh_slots sh \<noteq> [] \<Longrightarrow> \<forall>a \<in> set (map sl_frame (sh_slots sh)). a < length arcs \<Longrightarrow>
    \<exists>r sh' ev'. evict_loop n arcs sh ev = Some (r, sh', ev') \<and> shard_ok cap k sh' \<and>
      map sl_frame (sh_slots sh') = map sl_frame (sh_slots sh) \<and> sh_map sh' \<subseteq>\<^sub>m sh_map sh \<and>
      (case r of None \<Rightarrow> True
       | Some i \<Rightarrow> i < length (sh_slots sh') \<and> sl_ptr (sh_slots sh' ! i) = NULL_BLOCK \<and>
           ar_count (arcs ! sl_frame (sh_slots sh' ! i)) \<le> 1)"
proof (induction n arbitrary: sh ev)
  case (Suc n)
  let ?i = "sh_hand sh" and ?xs = "sh_slots sh"
  have i: "?i < length ?xs" and nz: "0 < length ?xs" using Suc.prems by (auto simp: shard_ok_def shard_index_ok_def)
  have h: "(?i + 1) mod length ?xs < length ?xs" using nz by simp
  have fr: "sl_frame (?xs ! ?i) < length arcs" using Suc.prems(3) i by simp
  let ?sh1 = "sh\<lparr>sh_hand := (?i + 1) mod length ?xs\<rparr>"
  have ok1: "shard_ok cap k ?sh1"
    using Suc.prems(1) h by (auto simp: shard_ok_def intro: shard_index_ok_hand)
  show ?case
  proof (cases "sl_visited (?xs ! ?i)")
    case True
    let ?sh2 = "?sh1\<lparr>sh_slots := ?xs[?i := (?xs ! ?i)\<lparr>sl_visited := False\<rparr>]\<rparr>"
    have "shard_ok cap k ?sh2" using ok1 i by (simp add: shard_ok_def)
    moreover have "\<forall>a \<in> set (map sl_frame (sh_slots ?sh2)). a < length arcs"
      using Suc.prems(3) i by (simp del: set_map)
    ultimately show ?thesis
      using Suc.IH [of ?sh2 ev] Suc.prems(2) True i by (simp add: Let_def)
  next
    case False
    show ?thesis
    proof (cases "ar_count (arcs ! sl_frame (?xs ! ?i)) > 1")
      case True
      then show ?thesis using False Suc.IH [OF ok1] Suc.prems(2,3) i fr by (simp add: Let_def)
    next
      case nt: False
      let ?p = "sl_ptr (?xs ! ?i)"
      have "shard_index_ok cap k (if ?p \<noteq> NULL_BLOCK then (sh_map sh)(?p := None) else sh_map sh)
          ((map sl_ptr ?xs)[?i := NULL_BLOCK]) ((?i + 1) mod length ?xs)"
        using shard_index_ok_unmap [OF shard_index_ok_hand [OF Suc.prems(1) [unfolded shard_ok_def]], of "(?i + 1) mod length ?xs" ?i] h i
        by (simp only: nth_map length_map)
      moreover have "(if ?p \<noteq> NULL_BLOCK then (sh_map sh)(?p := None) else sh_map sh) \<subseteq>\<^sub>m sh_map sh"
        by (auto simp: map_le_def)
      ultimately show ?thesis using False nt i fr
        by (simp add: Let_def shard_ok_def map_update list_update_same_conv)
    qed
  qed
qed auto

text \<open>
  The hand always finds an unpinned slot when there is one: two sweeps are enough, the
  first clears its visited bit at the latest and the second reaches it. \<open>j\<close> is such a
  slot and \<open>d\<close> the steps the hand needs to reach it.
\<close>

lemma hand_distance:
  assumes "h < n" "j < (n :: nat)" "h \<noteq> j"
  shows "(j + n - (h + 1) mod n) mod n = (j + n - h) mod n - 1 \<and> 0 < (j + n - h) mod n"
proof (cases "h < j")
  case True
  then have "(h + 1) mod n = h + 1" using assms by simp
  moreover have "(j + n - h) mod n = j - h" "(j + n - (h + 1)) mod n = j - (h + 1)"
    using True assms by (simp_all add: mod_if)
  ultimately show ?thesis using True by simp
next
  case False
  then have lt: "j < h" using assms by simp
  then have e: "(j + n - h) mod n = j + n - h" using assms by simp
  show ?thesis
  proof (cases "h + 1 = n")
    case True then show ?thesis using e lt assms by simp
  next
    case False then show ?thesis using e lt assms by simp
  qed
qed

lemma evict_loop_finds:
  assumes "shard_ok cap k sh" "\<forall>a \<in> set (map sl_frame (sh_slots sh)). a < length arcs"
    and "j < length (sh_slots sh)" "ar_count (arcs ! sl_frame (sh_slots sh ! j)) \<le> 1"
    and "(j + length (sh_slots sh) - sh_hand sh) mod length (sh_slots sh) +
      (if sl_visited (sh_slots sh ! j) then length (sh_slots sh) else 0) < n"
  shows "\<exists>i sh' ev'. evict_loop n arcs sh ev = Some (Some i, sh', ev')"
  using assms
proof (induction n arbitrary: sh ev)
  case (Suc n)
  let ?i = "sh_hand sh" and ?xs = "sh_slots sh"
  let ?N = "length ?xs"
  have i: "?i < ?N" using Suc.prems by (auto simp: shard_ok_def shard_index_ok_def)
  have h: "(?i + 1) mod ?N < ?N" using i by (intro mod_less_divisor) linarith
  have fr: "sl_frame (?xs ! ?i) < length arcs" using Suc.prems(2) i by simp
  let ?sh1 = "sh\<lparr>sh_hand := (?i + 1) mod ?N\<rparr>"
  have ok1: "shard_ok cap k ?sh1" using Suc.prems(1) h by (auto simp: shard_ok_def intro: shard_index_ok_hand)
  note dist = hand_distance [OF i Suc.prems(3)]
  show ?case
  proof (cases "sl_visited (?xs ! ?i)")
    case True
    let ?ys = "?xs[?i := (?xs ! ?i)\<lparr>sl_visited := False\<rparr>]"
    define sh2 where "sh2 = ?sh1\<lparr>sh_slots := ?ys\<rparr>"
    have s2: "sh_slots sh2 = ?ys" "sh_hand sh2 = (?i + 1) mod ?N" by (simp_all add: sh2_def)
    have "shard_ok cap k sh2" using ok1 i by (simp add: shard_ok_def sh2_def)
    moreover have "\<forall>a \<in> set (map sl_frame (sh_slots sh2)). a < length arcs"
      using Suc.prems(2) i by (simp add: s2 del: set_map)
    moreover have "ar_count (arcs ! sl_frame (?ys ! j)) \<le> 1"
      using Suc.prems(3,4) by (cases "j = ?i") simp_all
    moreover have "(j + ?N - (?i + 1) mod ?N) mod ?N + (if sl_visited (?ys ! j) then ?N else 0) < n"
    proof (cases "j = ?i")
      case True
      have "(j + ?N - (?i + 1) mod ?N) mod ?N < ?N" using i by (intro mod_less_divisor) linarith
      then show ?thesis using True Suc.prems(3,5) \<open>sl_visited (?xs ! ?i)\<close> by simp
    next
      case False
      then have "sl_visited (?ys ! j) = sl_visited (?xs ! j)" by simp
      then show ?thesis using dist False Suc.prems(5) by (cases "sl_visited (?xs ! j)") auto
    qed
    ultimately have "\<exists>i sh' ev'. evict_loop n arcs sh2 ev = Some (Some i, sh', ev')"
      using Suc.prems(3) by (intro Suc.IH) (simp_all only: s2 length_list_update)
    then show ?thesis using True i by (simp add: Let_def sh2_def)
  next
    case nv: False
    show ?thesis
    proof (cases "ar_count (arcs ! sl_frame (?xs ! ?i)) > 1")
      case True
      then have "j \<noteq> ?i" using Suc.prems(4) by auto
      then have d: "(j + ?N - (?i + 1) mod ?N) mod ?N + (if sl_visited (?xs ! j) then ?N else 0) < n"
        using dist Suc.prems(5) by (cases "sl_visited (?xs ! j)") auto
      define sh1 where "sh1 = ?sh1"
      have s1: "sh_slots sh1 = ?xs" "sh_hand sh1 = (?i + 1) mod ?N" "shard_ok cap k sh1"
        using ok1 by (simp_all add: sh1_def)
      have "\<exists>i sh' ev'. evict_loop n arcs sh1 ev = Some (Some i, sh', ev')"
        using Suc.prems(2-4) d by (intro Suc.IH s1) (simp_all only: s1)
      then show ?thesis using nv True i fr by (simp add: Let_def sh1_def)
    next
      case False then show ?thesis using nv i fr by (simp add: Let_def)
    qed
  qed
qed simp

lemma evict_finds:
  assumes "shard_ok cap k sh" "\<forall>a \<in> set (map sl_frame (sh_slots sh)). a < length arcs"
    and "j < length (sh_slots sh)" "ar_count (arcs ! sl_frame (sh_slots sh ! j)) \<le> 1"
  shows "\<exists>i sh' ev'. evict arcs sh ev = Some (Some i, sh', ev')"
proof -
  let ?n = "length (sh_slots sh)"
  have "(j + ?n - sh_hand sh) mod ?n < ?n" using assms(3) by (intro mod_less_divisor) linarith
  then show ?thesis unfolding evict_def by (intro evict_loop_finds [OF assms]) simp
qed

subsection \<open>The whole cache\<close>

text \<open>
  \<open>held\<close> lists the pins that are out, a frame as often as it is pinned. No two slots share
  a frame, and a frame's count is its slot's share plus its pins.
\<close>

definition slot_frames :: "cache \<Rightarrow> nat list list" where
  "slot_frames c = map (\<lambda>sh. map sl_frame (sh_slots sh)) (ca_shards c)"

definition apart :: "nat list list \<Rightarrow> bool" where
  "apart fss \<longleftrightarrow> (\<forall>k < length fss. \<forall>i < length (fss ! k). \<forall>l < length fss. \<forall>j < length (fss ! l).
     fss ! k ! i = fss ! l ! j \<longrightarrow> k = l \<and> i = j)"

lemma apartD:
  "apart fss \<Longrightarrow> fss ! k ! i = fss ! l ! j \<Longrightarrow> k < length fss \<Longrightarrow> i < length (fss ! k) \<Longrightarrow> l < length fss \<Longrightarrow>
    j < length (fss ! l) \<Longrightarrow> k = l \<and> i = j"
  unfolding apart_def by blast

definition owned :: "nat list list \<Rightarrow> nat \<Rightarrow> bool" where
  "owned fss a \<longleftrightarrow> (\<exists>k < length fss. a \<in> set (fss ! k))"

definition counts_ok :: "nat list list \<Rightarrow> arc list \<Rightarrow> nat list \<Rightarrow> bool" where
  "counts_ok fss arcs held \<longleftrightarrow>
     (\<forall>a. owned fss a \<or> a \<in> set held \<longrightarrow> a < length arcs) \<and>
     (\<forall>a < length arcs. length (ar_bytes (arcs ! a)) = BLOCK_SIZE \<and>
        ar_count (arcs ! a) = (if owned fss a then 1 else 0) + count_list held a)"

definition cache_ok :: "cache \<Rightarrow> nat list \<Rightarrow> bool" where
  "cache_ok c held \<longleftrightarrow>
     length (ca_shards c) = SHARDS \<and> 0 < ca_per_shard c \<and>
     (\<forall>k < SHARDS. shard_ok (ca_per_shard c) k (ca_shards c ! k)) \<and>
     apart (slot_frames c) \<and> counts_ok (slot_frames c) (ca_arcs c) held"

text \<open>The bytes the cache answers for a block.\<close>

definition cached :: "cache \<Rightarrow> u64 \<rightharpoonup> u8 list" where
  "cached c p =
     (let k = unat p mod SHARDS
      in case sh_map (ca_shards c ! k) p of
           None \<Rightarrow> None
         | Some i \<Rightarrow> Some (pinned_bytes c (slot_frames c ! k ! i)))"

lemma shard_index [simp]: "unat (p :: u64) mod SHARDS < SHARDS" by (simp add: SHARDS_def)

lemma slot_frames_keep:
  "k < length (ca_shards c) \<Longrightarrow> map sl_frame (sh_slots sh) = map sl_frame (sh_slots (ca_shards c ! k)) \<Longrightarrow>
    map (\<lambda>sh. map sl_frame (sh_slots sh)) ((ca_shards c)[k := sh]) = slot_frames c"
  unfolding slot_frames_def map_update by (simp add: list_update_same_conv)

lemma ownedI: "k < length fss \<Longrightarrow> i < length (fss ! k) \<Longrightarrow> owned fss (fss ! k ! i)"
  by (auto simp: owned_def)

lemma slot_frames_nth:
  "k < length (ca_shards c) \<Longrightarrow> i < length (sh_slots (ca_shards c ! k)) \<Longrightarrow>
    slot_frames c ! k ! i = sl_frame (sh_slots (ca_shards c ! k) ! i)"
  by (simp add: slot_frames_def)

lemma length_slot_frames [simp]:
  "length (slot_frames c) = length (ca_shards c)"
  "k < length (ca_shards c) \<Longrightarrow> length (slot_frames c ! k) = length (sh_slots (ca_shards c ! k))"
  by (simp_all add: slot_frames_def)

lemma bytes_count_update [simp]: "ar_bytes (xs[a := (xs ! a)\<lparr>ar_count := n\<rparr>] ! b) = ar_bytes (xs ! b)"
  by (cases "a < length xs"; cases "a = b") (simp_all add: list_update_beyond)

lemma counts_clone:
  assumes "counts_ok fss arcs held" "a < length arcs"
  shows "counts_ok fss (arcs[a := (arcs ! a)\<lparr>ar_count := ar_count (arcs ! a) + 1\<rparr>]) (a # held)" (is "counts_ok fss ?arcs _")
proof -
  have "ar_count (?arcs ! b) = (if owned fss b then 1 else 0) + count_list (a # held) b" if "b < length arcs" for b
    using assms that by (cases "b = a") (simp_all add: counts_ok_def)
  then show ?thesis using assms unfolding counts_ok_def by auto
qed

text \<open>Where a mapped block is.\<close>

lemma cached_slot:
  assumes "cache_ok c held" "k = unat p mod SHARDS" "sh_map (ca_shards c ! k) p = Some i"
  shows "p \<noteq> NULL_BLOCK" "i < length (sh_slots (ca_shards c ! k))" "sl_ptr (sh_slots (ca_shards c ! k) ! i) = p"
    "sl_frame (sh_slots (ca_shards c ! k) ! i) < length (ca_arcs c)"
    "cached c p = Some (pinned_bytes c (sl_frame (sh_slots (ca_shards c ! k) ! i)))"
proof -
  have k: "k < length (ca_shards c)" using assms by (simp add: cache_ok_def)
  have "shard_ok (ca_per_shard c) k (ca_shards c ! k)" using assms k by (simp add: cache_ok_def)
  then show a: "p \<noteq> NULL_BLOCK" "i < length (sh_slots (ca_shards c ! k))" "sl_ptr (sh_slots (ca_shards c ! k) ! i) = p"
    using assms(3) unfolding shard_ok_def shard_index_ok_def by (metis length_map nth_map)+
  have "owned (slot_frames c) (slot_frames c ! k ! i)" using k a by (intro ownedI) simp_all
  then show "sl_frame (sh_slots (ca_shards c ! k) ! i) < length (ca_arcs c)"
    using assms(1) k a by (simp add: cache_ok_def counts_ok_def slot_frames_nth)
  show "cached c p = Some (pinned_bytes c (sl_frame (sh_slots (ca_shards c ! k) ! i)))"
    using assms(2,3) k a by (simp add: cached_def Let_def slot_frames_nth)
qed

text \<open>A hit: the slot is visited and its frame pinned once more.\<close>

lemma touch_ok:
  assumes ok: "cache_ok c held" and k: "k = unat p mod SHARDS" and m: "sh_map (ca_shards c ! k) p = Some i"
    and c': "ca_shards c' = (ca_shards c)[k := (ca_shards c ! k)\<lparr>sh_slots :=
        (sh_slots (ca_shards c ! k))[i := (sh_slots (ca_shards c ! k) ! i)\<lparr>sl_visited := True\<rparr>]\<rparr>]"
      "ca_per_shard c' = ca_per_shard c"
      "ca_arcs c' = (ca_arcs c)[a := (ca_arcs c ! a)\<lparr>ar_count := ar_count (ca_arcs c ! a) + 1\<rparr>]"
    and a: "a = sl_frame (sh_slots (ca_shards c ! k) ! i)"
  shows "cache_ok c' (a # held) \<and> cached c' = cached c \<and> (\<forall>b. pinned_bytes c' b = pinned_bytes c b) \<and>
    cached c p = Some (pinned_bytes c' a)"
proof -
  note sl = cached_slot [OF ok k m]
  have kl: "k < length (ca_shards c)" using ok k by (simp add: cache_ok_def)
  have fss: "slot_frames c' = slot_frames c"
    unfolding slot_frames_def [of c'] c' by (rule slot_frames_keep [OF kl]) (use sl in simp)
  have pb: "pinned_bytes c' b = pinned_bytes c b" for b
    by (simp add: pinned_bytes_def idx_def c')
  have maps: "sh_map (ca_shards c' ! l) = sh_map (ca_shards c ! l)" for l
    using kl by (cases "l = k") (simp_all add: c')
  have "cached c' = cached c" unfolding cached_def fss pb maps ..
  moreover have "shard_ok (ca_per_shard c') l (ca_shards c' ! l)" if "l < SHARDS" for l
    using ok that sl kl by (cases "l = k") (simp_all add: c' cache_ok_def shard_ok_def)
  moreover have "counts_ok (slot_frames c') (ca_arcs c') (a # held)"
    unfolding fss c' by (rule counts_clone) (use ok sl a in \<open>simp_all add: cache_ok_def\<close>)
  ultimately show ?thesis using ok pb fss sl a c' unfolding cache_ok_def by simp
qed

lemma bc_get_ok:
  assumes ok: "cache_ok c held"
  shows "\<exists>r c'. bc_get c p = Some (r, c') \<and> cached c' = cached c \<and> (\<forall>b. pinned_bytes c' b = pinned_bytes c b) \<and>
    (case r of None \<Rightarrow> cached c p = None \<and> cache_ok c' held
     | Some a \<Rightarrow> cached c p = Some (pinned_bytes c' a) \<and> cache_ok c' (a # held))"
proof -
  let ?k = "unat p mod SHARDS"
  have kl: "?k < length (ca_shards c)" using ok by (simp add: cache_ok_def)
  show ?thesis
  proof (cases "sh_map (ca_shards c ! ?k) p")
    case None
    let ?c' = "c\<lparr>ca_stats := (ca_stats c)\<lparr>cs_misses := cs_misses (ca_stats c) + 1\<rparr>\<rparr>"
    have pb: "pinned_bytes ?c' b = pinned_bytes c b" for b by (simp add: pinned_bytes_def)
    have "slot_frames ?c' = slot_frames c" by (simp add: slot_frames_def)
    then show ?thesis using None kl ok pb
      by (simp add: bc_get_def Let_def cached_def fun_eq_iff cache_ok_def split: option.splits)
  next
    case (Some i)
    note sl = cached_slot [OF ok refl Some]
    show ?thesis
      using Some kl sl touch_ok [OF ok refl Some _ _ _ refl]
      by (simp add: bc_get_def Let_def arc_clone_def)
  qed
qed

text \<open>A fill must not change the length of the block; it is a read into the buffer.\<close>

definition sized_fill :: "fill \<Rightarrow> bool" where
  "sized_fill f \<longleftrightarrow> (\<forall>b. length b = BLOCK_SIZE \<longrightarrow> length (snd (f b)) = BLOCK_SIZE)"

lemma count_held:
  assumes "cache_ok c held" "k < SHARDS" "i < length (sh_slots (ca_shards c ! k))"
    "a = sl_frame (sh_slots (ca_shards c ! k) ! i)"
  shows "a < length (ca_arcs c)" "length (ar_bytes (ca_arcs c ! a)) = BLOCK_SIZE"
    "ar_count (ca_arcs c ! a) = 1 + count_list held a" "owned (slot_frames c) a"
proof -
  have kl: "k < length (ca_shards c)" using assms by (simp add: cache_ok_def)
  then show o: "owned (slot_frames c) a"
    using assms ownedI [of k "slot_frames c" i] by (simp add: slot_frames_nth)
  then show "a < length (ca_arcs c)" "length (ar_bytes (ca_arcs c ! a)) = BLOCK_SIZE"
    "ar_count (ca_arcs c ! a) = 1 + count_list held a"
    using assms(1) by (auto simp: cache_ok_def counts_ok_def)
qed

lemma counts_refill:
  assumes "counts_ok fss arcs held" "owned fss a" "length bytes = BLOCK_SIZE" "count_list held a = 0"
  shows "counts_ok fss (arcs[a := (arcs ! a)\<lparr>ar_bytes := bytes\<rparr>]) held"
    "counts_ok fss (arcs[a := (arcs ! a)\<lparr>ar_bytes := bytes, ar_count := 2\<rparr>]) (a # held)"
proof -
  have a: "a < length arcs" "ar_count (arcs ! a) = 1" using assms by (simp_all add: counts_ok_def)
  let ?x = "arcs[a := (arcs ! a)\<lparr>ar_bytes := bytes\<rparr>]"
  let ?y = "arcs[a := (arcs ! a)\<lparr>ar_bytes := bytes, ar_count := 2\<rparr>]"
  have x: "length (ar_bytes (?x ! b)) = BLOCK_SIZE \<and> ar_count (?x ! b) = (if owned fss b then 1 else 0) + count_list held b"
    if "b < length arcs" for b
    using assms a that by (cases "b = a") (simp_all add: counts_ok_def)
  have y: "length (ar_bytes (?y ! b)) = BLOCK_SIZE \<and> ar_count (?y ! b) = (if owned fss b then 1 else 0) + count_list (a # held) b"
    if "b < length arcs" for b
    using assms a that by (cases "b = a") (simp_all add: counts_ok_def)
  have bound: "owned fss b \<or> b \<in> set held \<Longrightarrow> b < length arcs" for b using assms(1) by (auto simp: counts_ok_def)
  show "counts_ok fss ?x held" unfolding counts_ok_def using x bound by simp
  show "counts_ok fss ?y (a # held)" unfolding counts_ok_def using y bound a by auto
qed

lemma fill_slot_ok:
  assumes ok: "cache_ok c held" and k: "k = unat p mod SHARDS" and sh: "sh = ca_shards c ! k"
    and i: "i < length (sh_slots sh)" "sl_ptr (sh_slots sh ! i) = NULL_BLOCK" "ar_count (ca_arcs c ! sl_frame (sh_slots sh ! i)) \<le> 1"
    and p: "p \<noteq> NULL_BLOCK" "sh_map sh p = None" and fill: "sized_fill fill"
  shows "\<exists>r c'. fill_slot c k sh i p fill = Some (r, c') \<and> ca_per_shard c' = ca_per_shard c \<and>
    (\<forall>b \<in> set held. pinned_bytes c' b = pinned_bytes c b) \<and>
    (case r of
       Inl e \<Rightarrow> cache_ok c' held \<and> cached c' = cached c \<and> (\<exists>b. length b = BLOCK_SIZE \<and> fst (fill b) = Inl e)
     | Inr a \<Rightarrow> cache_ok c' (a # held) \<and> cached c' = (cached c)(p \<mapsto> pinned_bytes c' a) \<and>
         (\<exists>b. length b = BLOCK_SIZE \<and> fill b = (Inr (), pinned_bytes c' a)))"
proof -
  define a where "a = sl_frame (sh_slots sh ! i)"
  define bytes where "bytes = snd (fill (ar_bytes (ca_arcs c ! a)))"
  have k64: "k < SHARDS" and kl: "k < length (ca_shards c)" using ok k by (simp_all add: cache_ok_def)
  note cnt = count_held [OF ok k64 i(1) [unfolded sh] a_def [unfolded sh]]
  have zero: "count_list held a = 0" and one: "ar_count (ca_arcs c ! a) = 1"
    using cnt(3) i(3) by (simp_all add: a_def)
  have notheld: "a \<notin> set held" using zero by (simp add: count_list_0_iff)
  have bl: "length bytes = BLOCK_SIZE" using fill cnt(2) by (simp add: sized_fill_def bytes_def)
  have cok: "counts_ok (slot_frames c) (ca_arcs c) held" using ok by (simp add: cache_ok_def)
  have shok: "shard_ok (ca_per_shard c) l (ca_shards c ! l)" if "l < SHARDS" for l using ok that by (simp add: cache_ok_def)
  have other: "slot_frames c ! (unat q mod SHARDS) ! j \<noteq> a" if m: "sh_map (ca_shards c ! (unat q mod SHARDS)) q = Some j" for q j
  proof
    let ?l = "unat q mod SHARDS"
    assume e: "slot_frames c ! ?l ! j = a"
    note sl = cached_slot [OF ok refl m]
    have "a = slot_frames c ! k ! i" using kl i(1) sh by (simp add: a_def slot_frames_nth)
    then have "?l = k \<and> j = i"
      using ok e kl i(1) sh sl by (intro apartD [of "slot_frames c"]) (simp_all add: cache_ok_def)
    then show False using sl i(2) sh by simp
  qed
  show ?thesis
  proof (cases "fst (fill (ar_bytes (ca_arcs c ! a)))")
    case (Inl e)
    define c' where "c' = c\<lparr>ca_shards := (ca_shards c)[k := sh\<lparr>sh_slots := (sh_slots sh)[i := (sh_slots sh ! i)\<lparr>sl_ptr := NULL_BLOCK\<rparr>]\<rparr>],
        ca_arcs := (ca_arcs c)[a := (ca_arcs c ! a)\<lparr>ar_bytes := bytes\<rparr>]\<rparr>"
    have run: "fill_slot c k sh i p fill = Some (Inl e, c')"
      using i(1) cnt(1) one Inl unfolding fill_slot_def c'_def
      by (cases "fill (ar_bytes (ca_arcs c ! a))") (simp add: a_def bytes_def)
    have same: "(sh_slots sh)[i := (sh_slots sh ! i)\<lparr>sl_ptr := NULL_BLOCK\<rparr>] = sh_slots sh"
      using i by (simp add: list_update_same_conv)
    then have "sh\<lparr>sh_slots := (sh_slots sh)[i := (sh_slots sh ! i)\<lparr>sl_ptr := NULL_BLOCK\<rparr>]\<rparr> = sh" by simp
    then have shs: "ca_shards c' = ca_shards c" using kl sh by (simp add: c'_def list_update_same_conv)
    have fss: "slot_frames c' = slot_frames c" by (simp add: slot_frames_def shs)
    have pb: "pinned_bytes c' b = pinned_bytes c b" if "b \<noteq> a" for b
      using that by (simp add: pinned_bytes_def idx_def c'_def)
    have "cached c' q = cached c q" for q
      using other [of q] pb by (auto simp: cached_def Let_def fss shs split: option.splits)
    moreover have "counts_ok (slot_frames c') (ca_arcs c') held"
      unfolding fss using counts_refill(1) [OF cok cnt(4) bl zero] by (simp add: c'_def)
    then have "cache_ok c' held" using ok shok fss shs by (simp add: cache_ok_def c'_def)
    moreover have "\<forall>b \<in> set held. pinned_bytes c' b = pinned_bytes c b" using pb notheld by metis
    moreover have "ca_per_shard c' = ca_per_shard c" by (simp add: c'_def)
    ultimately show ?thesis using run Inl cnt(2) by (auto simp: fun_eq_iff)
  next
    case (Inr u)
    define c' where "c' = c\<lparr>ca_shards := (ca_shards c)[k := sh\<lparr>sh_map := (sh_map sh)(p \<mapsto> i),
          sh_slots := (sh_slots sh)[i := (sh_slots sh ! i)\<lparr>sl_ptr := p, sl_visited := False\<rparr>]\<rparr>],
        ca_arcs := (ca_arcs c)[a := (ca_arcs c ! a)\<lparr>ar_bytes := bytes, ar_count := 2\<rparr>]\<rparr>"
    have run: "fill_slot c k sh i p fill = Some (Inr a, c')"
      using i(1) cnt(1) one Inr unfolding fill_slot_def c'_def
      by (cases "fill (ar_bytes (ca_arcs c ! a))") (simp add: a_def bytes_def)
    have fss: "slot_frames c' = slot_frames c"
      unfolding slot_frames_def [of c'] using slot_frames_keep [OF kl] i(1) sh by (simp add: c'_def)
    have pb: "pinned_bytes c' b = pinned_bytes c b" if "b \<noteq> a" for b
      using that by (simp add: pinned_bytes_def idx_def c'_def)
    have pa: "pinned_bytes c' a = bytes" using cnt(1) by (simp add: pinned_bytes_def c'_def)
    have maps: "sh_map (ca_shards c' ! l) = (if l = k then (sh_map sh)(p \<mapsto> i) else sh_map (ca_shards c ! l))" for l
      using kl by (cases "l = k") (simp_all add: c'_def)
    have C: "cached c' q = ((cached c)(p \<mapsto> bytes)) q" for q
    proof (cases "q = p")
      case True
      have "slot_frames c ! k ! i = a" using kl i(1) sh by (simp add: a_def slot_frames_nth)
      then show ?thesis using True k pa by (simp add: cached_def Let_def fss maps)
    next
      case False
      have "sh_map (ca_shards c' ! (unat q mod SHARDS)) q = sh_map (ca_shards c ! (unat q mod SHARDS)) q"
        using False sh by (simp add: maps)
      then show ?thesis using other [of q] pb False by (auto simp: cached_def Let_def fss split: option.splits)
    qed
    have "counts_ok (slot_frames c') (ca_arcs c') (a # held)"
      unfolding fss using counts_refill(2) [OF cok cnt(4) bl zero] by (simp add: c'_def)
    moreover have "shard_ok (ca_per_shard c') l (ca_shards c' ! l)" if l: "l < SHARDS" for l
    proof (cases "l = k")
      case True
      have "shard_index_ok (ca_per_shard c) k ((sh_map sh)(p \<mapsto> i)) ((map sl_ptr (sh_slots sh))[i := p]) (sh_hand sh)"
        by (rule shard_index_ok_map) (use shok [OF k64] sh i p k in \<open>simp_all add: shard_ok_def\<close>)
      then show ?thesis using True kl by (simp add: shard_ok_def c'_def map_update)
    qed (use shok [OF l] in \<open>simp add: c'_def\<close>)
    ultimately have "cache_ok c' (a # held)" using ok fss by (simp add: cache_ok_def c'_def)
    moreover have "cached c' = (cached c)(p \<mapsto> bytes)" using C by (rule ext)
    moreover have "\<forall>b \<in> set held. pinned_bytes c' b = pinned_bytes c b" using pb notheld by metis
    moreover have "ca_per_shard c' = ca_per_shard c" by (simp add: c'_def)
    moreover have "fill (ar_bytes (ca_arcs c ! a)) = (Inr (), bytes)"
      using Inr by (cases "fill (ar_bytes (ca_arcs c ! a))") (simp add: bytes_def)
    ultimately show ?thesis using run cnt(2) pa by auto
  qed
qed

lemma fill_slot_shards:
  "fill_slot (c\<lparr>ca_shards := (ca_shards c)[k := x]\<rparr>) k sh i p fill = fill_slot c k sh i p fill"
proof (cases "idx (sh_slots sh) i")
  case (Some slot)
  note s = Some
  show ?thesis
  proof (cases "idx (ca_arcs c) (sl_frame slot)")
    case (Some frame)
    obtain r b where "fill (ar_bytes frame) = (r, b)" by fastforce
    then show ?thesis using s Some by (cases r) (simp_all add: fill_slot_def)
  qed (simp add: s fill_slot_def)
qed (simp add: fill_slot_def)

text \<open>Putting back a shard whose slots hold the same frames and whose map says no more.\<close>

lemma shard_shrink_ok:
  assumes ok: "cache_ok c held" and k: "k < SHARDS" and sh: "shard_ok (ca_per_shard c) k sh"
    and fr: "map sl_frame (sh_slots sh) = map sl_frame (sh_slots (ca_shards c ! k))"
    and le: "sh_map sh \<subseteq>\<^sub>m sh_map (ca_shards c ! k)"
    and c': "ca_shards c' = (ca_shards c)[k := sh]" "ca_per_shard c' = ca_per_shard c" "ca_arcs c' = ca_arcs c"
  shows "cache_ok c' held \<and> cached c' \<subseteq>\<^sub>m cached c \<and> (\<forall>b. pinned_bytes c' b = pinned_bytes c b) \<and>
    (\<forall>p. unat p mod SHARDS \<noteq> k \<longrightarrow> cached c' p = cached c p) \<and>
    (\<forall>p. unat p mod SHARDS = k \<longrightarrow> cached c' p = (if sh_map sh p = None then None else cached c p))"
proof -
  have kl: "k < length (ca_shards c)" using ok k by (simp add: cache_ok_def)
  have fss: "slot_frames c' = slot_frames c"
    unfolding slot_frames_def [of c'] c' by (rule slot_frames_keep [OF kl fr])
  have pb: "pinned_bytes c' b = pinned_bytes c b" for b by (simp add: pinned_bytes_def c')
  have a: "cached c' p = cached c p" if "unat p mod SHARDS \<noteq> k" for p
    using that unfolding cached_def fss pb by (simp add: c' Let_def)
  have b: "cached c' p = (if sh_map sh p = None then None else cached c p)" if "unat p mod SHARDS = k" for p
  proof (cases "sh_map sh p")
    case (Some i)
    then have "sh_map (ca_shards c ! k) p = Some i" using le by (auto simp: map_le_def dest!: bspec [of _ _ p])
    then show ?thesis using that Some kl unfolding cached_def fss pb by (simp add: c' Let_def)
  qed (use that kl in \<open>simp add: cached_def c' Let_def\<close>)
  have "cached c' \<subseteq>\<^sub>m cached c"
  proof (unfold map_le_def, intro ballI)
    fix p assume "p \<in> dom (cached c')"
    then show "cached c' p = cached c p" using a [of p] b [of p] by (cases "unat p mod SHARDS = k") (auto split: if_splits)
  qed
  moreover have "cache_ok c' held"
    using ok sh kl unfolding cache_ok_def fss by (auto simp: c' nth_list_update)
  ultimately show ?thesis using a b pb by blast
qed

lemma pinned_bytes_append: "b < length (ca_arcs c) \<Longrightarrow> pinned_bytes (c\<lparr>ca_arcs := ca_arcs c @ xs\<rparr>) b = pinned_bytes c b"
  by (simp add: pinned_bytes_def nth_append idx_def)

lemma counts_append:
  assumes "counts_ok fss arcs held" "length (ar_bytes r) = BLOCK_SIZE"
  shows "ar_count r = 1 \<Longrightarrow> counts_ok fss (arcs @ [r]) (length arcs # held)"
    "\<lbrakk>ar_count r = 1; \<And>a. owned gss a \<longleftrightarrow> a = length arcs \<or> owned fss a\<rbrakk> \<Longrightarrow> counts_ok gss (arcs @ [r]) held"
proof -
  have fresh: "\<not> owned fss (length arcs)" "length arcs \<notin> set held" using assms(1) by (auto simp: counts_ok_def)
  then have z: "count_list held (length arcs) = 0" by (simp add: count_list_0_iff)
  have b: "owned fss a \<or> a \<in> set held \<Longrightarrow> a < length arcs" for a using assms(1) by (auto simp: counts_ok_def)
  show "counts_ok fss (arcs @ [r]) (length arcs # held)" if "ar_count r = 1"
    unfolding counts_ok_def using assms fresh z b that
    by (auto simp: nth_append less_Suc_eq counts_ok_def split: if_splits)
  show "counts_ok gss (arcs @ [r]) held" if "ar_count r = 1" "\<And>a. owned gss a \<longleftrightarrow> a = length arcs \<or> owned fss a"
    unfolding counts_ok_def using assms fresh z b that
    by (auto simp: nth_append less_Suc_eq counts_ok_def split: if_splits)
qed

text \<open>A new slot with a fresh frame.\<close>

lemma push_slot_ok:
  assumes ok: "cache_ok c held" and k: "k < SHARDS" and room: "length (sh_slots (ca_shards c ! k)) < ca_per_shard c"
    and sh: "sh = (ca_shards c ! k)\<lparr>sh_slots := sh_slots (ca_shards c ! k) @
        [\<lparr>sl_ptr = NULL_BLOCK, sl_visited = False, sl_frame = length (ca_arcs c)\<rparr>]\<rparr>"
    and c': "c' = c\<lparr>ca_arcs := ca_arcs c @ [\<lparr>ar_bytes = replicate BLOCK_SIZE 0, ar_count = 1\<rparr>], ca_shards := (ca_shards c)[k := sh]\<rparr>"
  shows "cache_ok c' held \<and> cached c' = cached c \<and> (\<forall>b \<in> set held. pinned_bytes c' b = pinned_bytes c b)"
proof -
  let ?N = "length (ca_arcs c)" and ?F = "slot_frames c"
  have kl: "k < length (ca_shards c)" using ok k by (simp add: cache_ok_def)
  have cok: "counts_ok ?F (ca_arcs c) held" and ap: "apart ?F" using ok by (simp_all add: cache_ok_def)
  have fss: "slot_frames c' = ?F[k := ?F ! k @ [?N]]"
    using kl by (simp add: slot_frames_def c' sh map_update)
  have own: "owned (slot_frames c') a \<longleftrightarrow> a = ?N \<or> owned ?F a" for a
  proof -
    have "(\<exists>l < length (ca_shards c). a \<in> set (?F[k := ?F ! k @ [?N]] ! l)) \<longleftrightarrow>
        a = ?N \<or> (\<exists>l < length (ca_shards c). a \<in> set (?F ! l))"
      using kl by (auto simp: nth_list_update split: if_splits)
    then show ?thesis by (simp add: owned_def fss)
  qed
  have fresh: "\<not> owned ?F ?N" using cok by (auto simp: counts_ok_def)
  have nf: "?F ! l ! i \<noteq> ?N" if "l < length ?F" "i < length (?F ! l)" for l i
    using ownedI [OF that] fresh by auto
  have "apart (slot_frames c')"
    unfolding apart_def fss
  proof (intro allI impI)
    fix l i l' i'
    assume a: "l < length (?F[k := ?F ! k @ [?N]])" "i < length (?F[k := ?F ! k @ [?N]] ! l)"
      "l' < length (?F[k := ?F ! k @ [?N]])" "i' < length (?F[k := ?F ! k @ [?N]] ! l')"
      "?F[k := ?F ! k @ [?N]] ! l ! i = ?F[k := ?F ! k @ [?N]] ! l' ! i'"
    have old: "?F[k := ?F ! k @ [?N]] ! m ! j = (if m = k \<and> j = length (?F ! k) then ?N else ?F ! m ! j) \<and>
        (m = k \<and> j = length (?F ! k) \<or> j < length (?F ! m))"
      if "m < length ?F" "j < length (?F[k := ?F ! k @ [?N]] ! m)" for m j
      using that by (cases "m = k") (auto simp: nth_append less_Suc_eq)
    have l: "l < length ?F" "l' < length ?F" using a by simp_all
    show "l = l' \<and> i = i'"
      using old [OF l(1) a(2)] old [OF l(2) a(4)] a(5) nf l apartD [OF ap, of l i l' i']
      by (auto split: if_splits)
  qed
  moreover have "counts_ok (slot_frames c') (ca_arcs c') held"
    using counts_append(2) [OF cok _ _ own] by (simp add: c')
  moreover have "shard_ok (ca_per_shard c') l (ca_shards c' ! l)" if l: "l < SHARDS" for l
  proof (cases "l = k")
    case True
    have "shard_ok (ca_per_shard c) k (ca_shards c ! k)" using ok k by (simp add: cache_ok_def)
    then show ?thesis using True kl room by (simp add: c' sh shard_ok_def shard_index_ok_push)
  qed (use ok l in \<open>simp add: c' cache_ok_def\<close>)
  ultimately have ok': "cache_ok c' held" using ok by (simp add: cache_ok_def c')
  have pb: "pinned_bytes c' b = pinned_bytes c b" if "b < ?N" for b
    using that by (simp add: pinned_bytes_def idx_def c' nth_append)
  have "cached c' q = cached c q" for q
  proof (cases "sh_map (ca_shards c ! (unat q mod SHARDS)) q")
    case None
    then show ?thesis using kl by (cases "unat q mod SHARDS = k") (simp_all add: cached_def c' sh Let_def)
  next
    case (Some i)
    let ?l = "unat q mod SHARDS"
    note sl = cached_slot [OF ok refl Some]
    have ll: "?l < length (ca_shards c)" using ok by (simp add: cache_ok_def)
    have "sh_map (ca_shards c' ! ?l) q = Some i" using Some kl by (cases "?l = k") (simp_all add: c' sh)
    moreover have "slot_frames c' ! ?l ! i = sl_frame (sh_slots (ca_shards c ! ?l) ! i)"
      using sl(2) ll kl by (cases "?l = k") (simp_all add: fss nth_append slot_frames_nth)
    ultimately show ?thesis using sl(4,5) pb by (simp add: cached_def Let_def)
  qed
  then show ?thesis using ok' pb cok by (auto simp: counts_ok_def)
qed

lemma bc_insert_ok:
  assumes ok: "cache_ok c held" and p: "p \<noteq> NULL_BLOCK" and fill: "sized_fill fill"
  shows "\<exists>r c'. bc_insert c p fill = Some (r, c') \<and> (\<forall>b \<in> set held. pinned_bytes c' b = pinned_bytes c b) \<and>
    (case r of
       Inl e \<Rightarrow> cache_ok c' held \<and> cached c' \<subseteq>\<^sub>m cached c \<and> (\<exists>b. length b = BLOCK_SIZE \<and> fst (fill b) = Inl e)
     | Inr a \<Rightarrow> cache_ok c' (a # held) \<and> cached c' \<subseteq>\<^sub>m (cached c)(p \<mapsto> pinned_bytes c' a) \<and>
         (case cached c p of Some bytes \<Rightarrow> pinned_bytes c' a = bytes
          | None \<Rightarrow> \<exists>b. length b = BLOCK_SIZE \<and> fill b = (Inr (), pinned_bytes c' a)))"
proof -
  define k where "k = unat p mod SHARDS"
  define sh where "sh = ca_shards c ! k"
  have k: "k < SHARDS" and kl: "k < length (ca_shards c)" using ok by (simp_all add: cache_ok_def k_def)
  have shok: "shard_ok (ca_per_shard c) k sh" and cok: "counts_ok (slot_frames c) (ca_arcs c) held"
    using ok k by (simp_all add: cache_ok_def sh_def)
  show ?thesis
  proof (cases "sh_map sh p")
    case (Some i)
    note m = Some [unfolded sh_def]
    note sl = cached_slot [OF ok k_def m]
    show ?thesis
      using Some kl sl touch_ok [OF ok k_def m _ _ _ refl]
      by (auto simp add: bc_insert_def Let_def arc_clone_def k_def [symmetric] sh_def map_le_def)
  next
    case None
    have nc: "cached c p = None" using None by (simp add: cached_def Let_def sh_def k_def)
    note fs = fill_slot_ok [OF _ k_def refl _ _ _ p _ fill]
    show ?thesis
    proof (cases "length (sh_slots sh) < ca_per_shard c")
      case True
      let ?sh = "sh\<lparr>sh_slots := sh_slots sh @ [\<lparr>sl_ptr = NULL_BLOCK, sl_visited = False, sl_frame = length (ca_arcs c)\<rparr>]\<rparr>"
      let ?c0 = "c\<lparr>ca_arcs := ca_arcs c @ [\<lparr>ar_bytes = replicate BLOCK_SIZE 0, ar_count = 1\<rparr>]\<rparr>"
      define c1 where "c1 = c\<lparr>ca_arcs := ca_arcs c @ [\<lparr>ar_bytes = replicate BLOCK_SIZE 0, ar_count = 1\<rparr>], ca_shards := (ca_shards c)[k := ?sh]\<rparr>"
      have c1: "cache_ok c1 held" "cached c1 = cached c" "\<forall>b \<in> set held. pinned_bytes c1 b = pinned_bytes c b"
        using push_slot_ok [OF ok k True [unfolded sh_def] _ c1_def] by (simp_all add: sh_def)
      have s1: "ca_shards c1 ! k = ?sh" using kl by (simp add: c1_def)
      have run: "bc_insert c p fill = fill_slot c1 k (ca_shards c1 ! k) (length (sh_slots sh)) p fill"
        using None True kl fill_slot_shards [of ?c0 k ?sh ?sh "length (sh_slots sh)" p fill]
        by (simp add: bc_insert_def Let_def k_def [symmetric] sh_def [symmetric] s1) (simp add: c1_def)
      obtain r c' where "fill_slot c1 k (ca_shards c1 ! k) (length (sh_slots sh)) p fill = Some (r, c')"
        "\<forall>b \<in> set held. pinned_bytes c' b = pinned_bytes c1 b"
        "case r of
           Inl e \<Rightarrow> cache_ok c' held \<and> cached c' = cached c1 \<and> (\<exists>b. length b = BLOCK_SIZE \<and> fst (fill b) = Inl e)
         | Inr a \<Rightarrow> cache_ok c' (a # held) \<and> cached c' = (cached c1)(p \<mapsto> pinned_bytes c' a) \<and>
             (\<exists>b. length b = BLOCK_SIZE \<and> fill b = (Inr (), pinned_bytes c' a))"
        using fs [OF c1(1), of "length (sh_slots sh)"] s1 None by (auto simp: c1_def)
      then show ?thesis using run c1 nc by (auto split: sum.splits)
    next
      case full: False
      then have ne: "sh_slots sh \<noteq> []" using ok by (auto simp: cache_ok_def)
      have "\<forall>a \<in> set (map sl_frame (sh_slots sh)). a < length (ca_arcs c)"
      proof
        fix a assume "a \<in> set (map sl_frame (sh_slots sh))"
        then have "owned (slot_frames c) a" using kl by (auto simp: owned_def slot_frames_def sh_def)
        then show "a < length (ca_arcs c)" using cok by (simp add: counts_ok_def)
      qed
      then obtain v sh1 ev where ev: "evict (ca_arcs c) sh (cs_evictions (ca_stats c)) = Some (v, sh1, ev)"
          "shard_ok (ca_per_shard c) k sh1" "map sl_frame (sh_slots sh1) = map sl_frame (sh_slots sh)"
          "sh_map sh1 \<subseteq>\<^sub>m sh_map sh"
          "case v of None \<Rightarrow> True | Some i \<Rightarrow> i < length (sh_slots sh1) \<and> sl_ptr (sh_slots sh1 ! i) = NULL_BLOCK \<and>
            ar_count (ca_arcs c ! sl_frame (sh_slots sh1 ! i)) \<le> 1"
        using evict_loop_ok [OF shok ne, of "ca_arcs c" "2 * length (sh_slots sh)" "cs_evictions (ca_stats c)"]
        unfolding evict_def by blast
      define c1 where "c1 = c\<lparr>ca_shards := (ca_shards c)[k := sh1], ca_stats := (ca_stats c)\<lparr>cs_evictions := ev\<rparr>\<rparr>"
      have c1: "cache_ok c1 held" "cached c1 \<subseteq>\<^sub>m cached c" "\<forall>b. pinned_bytes c1 b = pinned_bytes c b"
        using shard_shrink_ok [OF ok k ev(2), of c1] ev(3,4) by (simp_all add: c1_def sh_def)
      have s1: "ca_shards c1 ! k = sh1" "ca_arcs c1 = ca_arcs c" using kl by (simp_all add: c1_def)
      have n1: "sh_map sh1 p = None" using ev(4) None by (metis domIff map_le_def)
      show ?thesis
      proof (cases v)
        case (Some i)
        have run: "bc_insert c p fill = fill_slot c1 k (ca_shards c1 ! k) i p fill"
          using None full kl ev(1) Some
          by (simp add: bc_insert_def Let_def k_def [symmetric] sh_def [symmetric] s1 c1_def [symmetric])
        obtain r c' where "fill_slot c1 k (ca_shards c1 ! k) i p fill = Some (r, c')"
          "\<forall>b \<in> set held. pinned_bytes c' b = pinned_bytes c1 b"
          "case r of
             Inl e \<Rightarrow> cache_ok c' held \<and> cached c' = cached c1 \<and> (\<exists>b. length b = BLOCK_SIZE \<and> fst (fill b) = Inl e)
           | Inr a \<Rightarrow> cache_ok c' (a # held) \<and> cached c' = (cached c1)(p \<mapsto> pinned_bytes c' a) \<and>
               (\<exists>b. length b = BLOCK_SIZE \<and> fill b = (Inr (), pinned_bytes c' a))"
          using fs [OF c1(1), of i] s1 n1 ev(5) Some by auto
        then show ?thesis using run c1 nc by (auto split: sum.splits intro: map_le_upd)
      next
        case none: None
        obtain r bytes where fb: "fill (replicate BLOCK_SIZE 0) = (r, bytes)" by fastforce
        have bl: "length bytes = BLOCK_SIZE"
          using fill fb unfolding sized_fill_def by (metis length_replicate snd_conv)
        show ?thesis
        proof (cases r)
          case (Inl e)
          have "bc_insert c p fill = Some (Inl e, c1)"
            using None full kl ev(1) none fb Inl
            by (simp add: bc_insert_def Let_def k_def [symmetric] sh_def [symmetric] c1_def [symmetric])
          moreover have "\<exists>b. length b = BLOCK_SIZE \<and> fst (fill b) = Inl e"
            using fb Inl by (intro exI [of _ "replicate BLOCK_SIZE 0"]) simp
          ultimately show ?thesis using c1 by simp
        next
          case (Inr u)
          define c2 where "c2 = c1\<lparr>ca_arcs := ca_arcs c @ [\<lparr>ar_bytes = bytes, ar_count = 1\<rparr>]\<rparr>"
          have run: "bc_insert c p fill = Some (Inr (length (ca_arcs c)), c2)"
            using None full kl ev(1) none fb Inr
            by (simp add: bc_insert_def Let_def k_def [symmetric] sh_def [symmetric] c1_def [symmetric] c2_def)
          have fss: "slot_frames c2 = slot_frames c1" and shs: "ca_shards c2 = ca_shards c1"
            by (simp_all add: slot_frames_def c2_def)
          have cok1: "counts_ok (slot_frames c1) (ca_arcs c1) held" using c1(1) by (simp add: cache_ok_def)
          have "counts_ok (slot_frames c2) (ca_arcs c2) (length (ca_arcs c) # held)"
            using counts_append(1) [OF cok1, of "\<lparr>ar_bytes = bytes, ar_count = 1\<rparr>"] bl
            unfolding fss by (simp add: c2_def s1)
          then have ok2: "cache_ok c2 (length (ca_arcs c) # held)"
            using c1(1) by (simp add: cache_ok_def fss shs) (simp add: c2_def)
          have pb: "pinned_bytes c2 b = pinned_bytes c1 b" if "b < length (ca_arcs c)" for b
            using pinned_bytes_append [of b c1] that by (simp add: c2_def s1)
          have "cached c2 q = cached c1 q" for q
          proof (cases "sh_map (ca_shards c1 ! (unat q mod SHARDS)) q")
            case (Some i)
            note sl = cached_slot [OF c1(1) refl Some]
            have "(unat q mod SHARDS) < length (ca_shards c1)" using c1(1) by (simp add: cache_ok_def)
            then show ?thesis using Some sl pb s1 by (simp add: cached_def Let_def fss shs slot_frames_nth)
          qed (simp add: cached_def Let_def shs)
          then have "cached c2 = cached c1" by (rule ext)
          moreover have "cached c1 \<subseteq>\<^sub>m (cached c)(p \<mapsto> bytes)"
            by (rule map_le_trans [OF c1(2)]) (auto simp: map_le_def nc)
          moreover have "pinned_bytes c2 (length (ca_arcs c)) = bytes"
            by (simp add: pinned_bytes_def c2_def s1)
          moreover have "\<exists>b. length b = BLOCK_SIZE \<and> fill b = (Inr (), bytes)"
            using fb Inr by (intro exI [of _ "replicate BLOCK_SIZE 0"]) simp
          moreover have "\<forall>b \<in> set held. pinned_bytes c2 b = pinned_bytes c b"
            using pb c1(3) cok by (simp add: counts_ok_def)
          ultimately show ?thesis using run ok2 nc by simp
        qed
      qed
    qed
  qed
qed

lemma bc_remove_ok:
  assumes ok: "cache_ok c held"
  shows "\<exists>c'. bc_remove c p = Some c' \<and> cache_ok c' held \<and> cached c' = (cached c)(p := None) \<and>
    (\<forall>b. pinned_bytes c' b = pinned_bytes c b)"
proof -
  define k where "k = unat p mod SHARDS"
  let ?sh = "ca_shards c ! k"
  have k: "k < SHARDS" and kl: "k < length (ca_shards c)" using ok by (simp_all add: cache_ok_def k_def)
  show ?thesis
  proof (cases "sh_map ?sh p")
    case None
    then have "cached c p = None" by (simp add: cached_def Let_def k_def)
    then show ?thesis using None ok kl by (simp add: bc_remove_def Let_def k_def [symmetric] fun_upd_idem)
  next
    case (Some i)
    note sl = cached_slot [OF ok k_def Some]
    let ?xs = "sh_slots ?sh"
    let ?sh' = "?sh\<lparr>sh_map := (sh_map ?sh)(p := None), sh_slots := ?xs[i := (?xs ! i)\<lparr>sl_ptr := NULL_BLOCK, sl_visited := False\<rparr>]\<rparr>"
    have "shard_index_ok (ca_per_shard c) k (sh_map ?sh) (map sl_ptr ?xs) (sh_hand ?sh)"
      using ok k by (simp add: cache_ok_def shard_ok_def)
    from shard_index_ok_unmap [OF this, of i] have "shard_ok (ca_per_shard c) k ?sh'"
      using sl by (simp add: shard_ok_def map_update)
    define c' where "c' = c\<lparr>ca_shards := (ca_shards c)[k := ?sh']\<rparr>"
    have keep: "cache_ok c' held" "\<forall>b. pinned_bytes c' b = pinned_bytes c b"
        "\<forall>q. unat q mod SHARDS \<noteq> k \<longrightarrow> cached c' q = cached c q"
        "\<forall>q. unat q mod SHARDS = k \<longrightarrow> cached c' q = (if sh_map ?sh' q = None then None else cached c q)"
      using shard_shrink_ok [OF ok k \<open>shard_ok (ca_per_shard c) k ?sh'\<close>, of c'] sl(2)
      by (auto simp: map_le_def c'_def)
    have "cached c' q = ((cached c)(p := None)) q" for q
      using keep(3,4) by (cases "unat q mod SHARDS = k") (auto simp: cached_def Let_def k_def)
    moreover have "bc_remove c p = Some c'"
      using Some kl sl(2) by (simp add: bc_remove_def Let_def k_def [symmetric] c'_def)
    ultimately show ?thesis using keep(1,2) by (simp add: fun_eq_iff)
  qed
qed

lemma count_list_remove1: "count_list (remove1 a xs) b = count_list xs b - (if a = b \<and> a \<in> set xs then 1 else 0)"
  by (induction xs) (auto simp: count_list_0_iff)

lemma bc_unpin_ok:
  assumes ok: "cache_ok c held" and a: "a \<in> set held"
  shows "\<exists>c'. bc_unpin c a = Some c' \<and> cache_ok c' (remove1 a held) \<and> cached c' = cached c \<and>
    (\<forall>b. pinned_bytes c' b = pinned_bytes c b)"
proof -
  let ?x = "(ca_arcs c)[a := (ca_arcs c ! a)\<lparr>ar_count := ar_count (ca_arcs c ! a) - 1\<rparr>]"
  let ?c' = "c\<lparr>ca_arcs := ?x\<rparr>"
  have cok: "counts_ok (slot_frames c) (ca_arcs c) held" using ok by (simp add: cache_ok_def)
  have al: "a < length (ca_arcs c)" using cok a by (simp add: counts_ok_def)
  have pos: "0 < count_list held a" using a by (metis count_list_0_iff gr0I)
  have pb: "pinned_bytes ?c' b = pinned_bytes c b" for b by (simp add: pinned_bytes_def idx_def)
  have fss: "slot_frames ?c' = slot_frames c" by (simp add: slot_frames_def)
  have "length (ar_bytes (?x ! b)) = BLOCK_SIZE \<and>
      ar_count (?x ! b) = (if owned (slot_frames c) b then 1 else 0) + count_list (remove1 a held) b"
    if "b < length (ca_arcs c)" for b
    using cok a al pos that by (cases "b = a") (auto simp: counts_ok_def count_list_remove1)
  then have "counts_ok (slot_frames c) ?x (remove1 a held)"
    using cok unfolding counts_ok_def by (auto dest: notin_set_remove1)
  then have "cache_ok ?c' (remove1 a held)" using ok unfolding cache_ok_def fss by simp
  moreover have "cached ?c' = cached c" unfolding cached_def fss pb by simp
  ultimately show ?thesis using al pb by (simp add: bc_unpin_def arc_drop_def)
qed

lemma bc_new_ok: "cache_ok (bc_new budget) [] \<and> cached (bc_new budget) = Map.empty"
proof -
  have "slot_frames (bc_new budget) = replicate SHARDS []"
    by (simp add: slot_frames_def bc_new_def Let_def)
  moreover have "0 < ca_per_shard (bc_new budget)" by (auto simp: bc_new_def Let_def SHARDS_def max_def div_greater_zero_iff)
  ultimately show ?thesis
    by (simp add: cache_ok_def apart_def counts_ok_def owned_def shard_ok_def shard_index_ok_def cached_def fun_eq_iff)
      (simp add: bc_new_def Let_def)
qed

subsection \<open>What a reader relies on\<close>

text \<open>
  The interface the file layer uses. \<open>cached\<close> is what the store answers, \<open>held\<close> the pins
  that are out; every operation keeps the bytes of every pin.
\<close>

locale block_store =
  fixes ok :: "'c \<Rightarrow> nat list \<Rightarrow> bool"
    and answers :: "'c \<Rightarrow> u64 \<rightharpoonup> u8 list"
    and bytes :: "'c \<Rightarrow> nat \<Rightarrow> u8 list"
    and get :: "'c \<Rightarrow> u64 \<Rightarrow> (nat option \<times> 'c) option"
    and insert_block :: "'c \<Rightarrow> u64 \<Rightarrow> fill \<Rightarrow> (nat result \<times> 'c) option"
    and remove :: "'c \<Rightarrow> u64 \<Rightarrow> 'c option"
    and unpin :: "'c \<Rightarrow> nat \<Rightarrow> 'c option"
  assumes get_law: "ok c held \<Longrightarrow> \<exists>r c'. get c p = Some (r, c') \<and> answers c' = answers c \<and> (\<forall>b. bytes c' b = bytes c b) \<and>
      (case r of None \<Rightarrow> answers c p = None \<and> ok c' held
       | Some a \<Rightarrow> answers c p = Some (bytes c' a) \<and> ok c' (a # held))"
    and insert_law: "ok c held \<Longrightarrow> p \<noteq> NULL_BLOCK \<Longrightarrow> sized_fill fill \<Longrightarrow>
      \<exists>r c'. insert_block c p fill = Some (r, c') \<and> (\<forall>b \<in> set held. bytes c' b = bytes c b) \<and>
        (case r of
           Inl e \<Rightarrow> ok c' held \<and> answers c' \<subseteq>\<^sub>m answers c \<and> (\<exists>b. length b = BLOCK_SIZE \<and> fst (fill b) = Inl e)
         | Inr a \<Rightarrow> ok c' (a # held) \<and> answers c' \<subseteq>\<^sub>m (answers c)(p \<mapsto> bytes c' a) \<and>
             (case answers c p of Some bs \<Rightarrow> bytes c' a = bs
              | None \<Rightarrow> \<exists>b. length b = BLOCK_SIZE \<and> fill b = (Inr (), bytes c' a)))"
    and remove_law: "ok c held \<Longrightarrow> \<exists>c'. remove c p = Some c' \<and> ok c' held \<and> answers c' = (answers c)(p := None) \<and>
      (\<forall>b. bytes c' b = bytes c b)"
    and unpin_law: "ok c held \<Longrightarrow> a \<in> set held \<Longrightarrow> \<exists>c'. unpin c a = Some c' \<and> ok c' (remove1 a held) \<and>
      answers c' = answers c \<and> (\<forall>b. bytes c' b = bytes c b)"
begin

text \<open>A store that only answers what the source holds, reads through to the source.\<close>

lemma read_through:
  assumes ok: "ok c held" and p: "p \<noteq> NULL_BLOCK" and coherent: "answers c \<subseteq>\<^sub>m src"
    and src: "src p = Some bs" "length bs = BLOCK_SIZE" and fill: "\<And>b. length b = BLOCK_SIZE \<Longrightarrow> fill b = (Inr (), bs)"
  shows "\<exists>a c'. (case get c p of None \<Rightarrow> None
        | Some (Some a, c1) \<Rightarrow> Some (Inr a, c1) | Some (None, c1) \<Rightarrow> insert_block c1 p fill) = Some (Inr a, c') \<and>
      ok c' (a # held) \<and> bytes c' a = bs \<and> answers c' \<subseteq>\<^sub>m src \<and> (\<forall>b \<in> set held. bytes c' b = bytes c b)"
proof -
  obtain r c1 where g: "get c p = Some (r, c1)" "answers c1 = answers c" "\<forall>b. bytes c1 b = bytes c b"
      "case r of None \<Rightarrow> answers c p = None \<and> ok c1 held | Some a \<Rightarrow> answers c p = Some (bytes c1 a) \<and> ok c1 (a # held)"
    using get_law [OF ok] by blast
  show ?thesis
  proof (cases r)
    case (Some a)
    then have "answers c p = src p" using coherent g(4) by (simp add: map_le_def dom_def)
    then show ?thesis using Some g coherent src by auto
  next
    case None
    have sized: "sized_fill fill" using fill src(2) by (simp add: sized_fill_def)
    obtain r2 c2 where i: "insert_block c1 p fill = Some (r2, c2)" "\<forall>b \<in> set held. bytes c2 b = bytes c1 b"
        "case r2 of
           Inl e \<Rightarrow> ok c2 held \<and> answers c2 \<subseteq>\<^sub>m answers c1 \<and> (\<exists>b. length b = BLOCK_SIZE \<and> fst (fill b) = Inl e)
         | Inr a \<Rightarrow> ok c2 (a # held) \<and> answers c2 \<subseteq>\<^sub>m (answers c1)(p \<mapsto> bytes c2 a) \<and>
             (case answers c1 p of Some bs \<Rightarrow> bytes c2 a = bs
              | None \<Rightarrow> \<exists>b. length b = BLOCK_SIZE \<and> fill b = (Inr (), bytes c2 a))"
      using insert_law [OF _ p sized, of c1 held] g None by auto
    show ?thesis
    proof (cases r2)
      case (Inl e) then show ?thesis using i fill by auto
    next
      case (Inr a)
      then have b: "bytes c2 a = bs" using i(3) g None fill by auto
      have "(answers c1)(p \<mapsto> bs) \<subseteq>\<^sub>m src" using coherent src(1) g(2) by (auto simp: map_le_def)
      then have "answers c2 \<subseteq>\<^sub>m src" using i(3) Inr b by (auto intro: map_le_trans)
      then show ?thesis using g i Inr b None by auto
    qed
  qed
qed

text \<open>Dropping a block and rewriting the source keeps the store coherent.\<close>

lemma rewrite_coherent:
  assumes "ok c held" "answers c \<subseteq>\<^sub>m src"
  shows "\<exists>c'. remove c p = Some c' \<and> ok c' held \<and> answers c' \<subseteq>\<^sub>m src(p := x) \<and> (\<forall>b. bytes c' b = bytes c b)"
  using remove_law [OF assms(1), of p] assms(2) by (auto simp: map_le_def)

end

interpretation blocks: block_store cache_ok cached pinned_bytes bc_get bc_insert bc_remove bc_unpin
  by unfold_locales (rule bc_get_ok bc_insert_ok bc_remove_ok bc_unpin_ok; assumption)+

subsection \<open>Readers and a writer on one cache\<close>

text \<open>
  Every step is one call under its shard's lock, or the dropping of a pin; rewriting a block
  is \<^verbatim>\<open>write_block\<close>, the removal and the write of the file. \<open>cw_pins\<close> pairs each pin with
  what the file held when it was taken.
\<close>

record cache_world =
  cw_cache :: cache
  cw_file :: "u64 \<Rightarrow> u8 list"
  cw_pins :: "(nat \<times> u8 list) list"

inductive cache_step :: "cache_world \<Rightarrow> cache_world \<Rightarrow> bool" where
  hit: "bc_get (cw_cache w) p = Some (Some a, c') \<Longrightarrow>
    cache_step w (w\<lparr>cw_cache := c', cw_pins := (a, cw_file w p) # cw_pins w\<rparr>)"
| miss: "bc_get (cw_cache w) p = Some (None, c') \<Longrightarrow> cache_step w (w\<lparr>cw_cache := c'\<rparr>)"
| load: "p \<noteq> NULL_BLOCK \<Longrightarrow> bc_insert (cw_cache w) p (\<lambda>b. (Inr (), cw_file w p)) = Some (Inr a, c') \<Longrightarrow>
    cache_step w (w\<lparr>cw_cache := c', cw_pins := (a, cw_file w p) # cw_pins w\<rparr>)"
| load_failed: "p \<noteq> NULL_BLOCK \<Longrightarrow> length junk = BLOCK_SIZE \<Longrightarrow>
    bc_insert (cw_cache w) p (\<lambda>b. (Inl e, junk)) = Some (Inl e, c') \<Longrightarrow> cache_step w (w\<lparr>cw_cache := c'\<rparr>)"
| drop_pin: "(a, b) \<in> set (cw_pins w) \<Longrightarrow> bc_unpin (cw_cache w) a = Some c' \<Longrightarrow>
    cache_step w (w\<lparr>cw_cache := c', cw_pins := remove1 (a, b) (cw_pins w)\<rparr>)"
| rewrite: "length bytes = BLOCK_SIZE \<Longrightarrow> bc_remove (cw_cache w) p = Some c' \<Longrightarrow>
    cache_step w (w\<lparr>cw_cache := c', cw_file := (cw_file w)(p := bytes)\<rparr>)"

definition cache_start :: "nat \<Rightarrow> (u64 \<Rightarrow> u8 list) \<Rightarrow> cache_world" where
  "cache_start budget file = \<lparr>cw_cache = bc_new budget, cw_file = file, cw_pins = []\<rparr>"

definition world_ok :: "cache_world \<Rightarrow> bool" where
  "world_ok w \<longleftrightarrow> cache_ok (cw_cache w) (map fst (cw_pins w)) \<and> (\<forall>p. length (cw_file w p) = BLOCK_SIZE) \<and>
     cached (cw_cache w) \<subseteq>\<^sub>m (\<lambda>p. Some (cw_file w p)) \<and>
     (\<forall>(a, b) \<in> set (cw_pins w). pinned_bytes (cw_cache w) a = b)"

lemma map_fst_remove1: "(a, b) \<in> set xs \<Longrightarrow> \<forall>(x, y) \<in> set xs. f x = y \<Longrightarrow> map fst (remove1 (a, b) xs) = remove1 a (map fst xs)"
  by (induction xs) auto

lemma le_total: "m \<subseteq>\<^sub>m (\<lambda>p. Some (f p)) \<longleftrightarrow> (\<forall>p b. m p = Some b \<longrightarrow> b = f p)"
  unfolding map_le_def dom_def by fastforce

lemma cache_step_ok:
  assumes step: "cache_step w w'" and ok: "world_ok w"
  shows "world_ok w'"
proof -
  have c: "cache_ok (cw_cache w) (map fst (cw_pins w))" and len: "\<And>p. length (cw_file w p) = BLOCK_SIZE"
    and coh: "\<And>p b. cached (cw_cache w) p = Some b \<Longrightarrow> b = cw_file w p"
    and pins: "\<And>a b. (a, b) \<in> set (cw_pins w) \<Longrightarrow> pinned_bytes (cw_cache w) a = b"
    using ok by (auto simp: world_ok_def le_total)
  show ?thesis
    using step
  proof cases
    case (hit p a c')
    then show ?thesis
      using bc_get_ok [OF c, of p] c len coh pins by (auto simp: world_ok_def le_total)
  next
    case (miss p c')
    then show ?thesis
      using bc_get_ok [OF c, of p] c len coh pins by (auto simp: world_ok_def le_total)
  next
    case (load p a c')
    have "sized_fill (\<lambda>b. (Inr (), cw_file w p))" by (simp add: sized_fill_def len)
    then have i: "cache_ok c' (a # map fst (cw_pins w))" "cached c' \<subseteq>\<^sub>m (cached (cw_cache w))(p \<mapsto> pinned_bytes c' a)"
        "case cached (cw_cache w) p of Some bytes \<Rightarrow> pinned_bytes c' a = bytes | None \<Rightarrow> cw_file w p = pinned_bytes c' a"
        "\<forall>b \<in> fst ` set (cw_pins w). pinned_bytes c' b = pinned_bytes (cw_cache w) b"
      using bc_insert_ok [OF c load(2), of "\<lambda>b. (Inr (), cw_file w p)"] load(3) by (auto split: option.splits)
    have e: "pinned_bytes c' a = cw_file w p" using i(3) coh by (auto split: option.splits)
    have "b = cw_file w q" if "cached c' q = Some b" for q b
    proof -
      have "((cached (cw_cache w))(p \<mapsto> cw_file w p)) q = Some b"
        using i(2) that e unfolding map_le_def by (metis domI)
      then show ?thesis using coh [of q b] by (auto split: if_splits)
    qed
    then show ?thesis using i e len pins load(1) by (auto simp: world_ok_def le_total image_iff)
  next
    case (load_failed p junk e c')
    have "sized_fill (\<lambda>b. (Inl e, junk))" by (simp add: sized_fill_def load_failed)
    then have i: "cache_ok c' (map fst (cw_pins w))" "cached c' \<subseteq>\<^sub>m cached (cw_cache w)"
        "\<forall>b \<in> fst ` set (cw_pins w). pinned_bytes c' b = pinned_bytes (cw_cache w) b"
      using bc_insert_ok [OF c load_failed(2), of "\<lambda>b. (Inl e, junk)"] load_failed(4) by auto
    have "b = cw_file w q" if "cached c' q = Some b" for q b
      using that i(2) coh [of q b] by (auto simp: map_le_def dom_def)
    then show ?thesis using i len pins load_failed(1) by (auto simp: world_ok_def le_total image_iff)
  next
    case (drop_pin a b c')
    have "map fst (remove1 (a, b) (cw_pins w)) = remove1 a (map fst (cw_pins w))"
      by (rule map_fst_remove1 [OF drop_pin(2)]) (use pins in auto)
    moreover have "a \<in> set (map fst (cw_pins w))" using drop_pin(2) by force
    ultimately show ?thesis
      using bc_unpin_ok [OF c, of a] drop_pin len coh pins by (auto simp: world_ok_def le_total dest!: set_remove1_subset [THEN subsetD])
  next
    case (rewrite bytes p c')
    then show ?thesis
      using bc_remove_ok [OF c, of p] len coh pins by (auto simp: world_ok_def le_total split: if_splits)
  qed
qed

lemma cache_run_ok:
  assumes "cache_step\<^sup>*\<^sup>* (cache_start budget file) w" "\<forall>p. length (file p) = BLOCK_SIZE"
  shows "world_ok w"
  using assms(1)
proof (induction rule: rtranclp_induct)
  case base
  then show ?case using bc_new_ok [of budget] assms(2) by (simp add: world_ok_def cache_start_def)
next
  case (step w w')
  then show ?case using cache_step_ok by blast
qed

end
