(* ===== verification/BlockHeaders.thy ===== *)
theory BlockHeaders
  imports Disk Cache
begin

text \<open>
  The headers of \<^verbatim>\<open>crates/zu-zu1/src/file.rs\<close>: the write-once file header, the two database
  header slots the checkpoint flips between, and the transaction marker in the third slot.
  \<^verbatim>\<open>crc32c\<close> is the parameter \<open>crc\<close>.
\<close>

definition ZU1_MAGIC :: "u8 list" where
  "ZU1_MAGIC = [0xE5, 0x9B, 0xB3, 0x5A, 0x55, 0x31, 0x00, 0x0A]"

definition ZU1_FORMAT_VERSION :: u16 where "ZU1_FORMAT_VERSION = 1"
definition MIN_READER_VERSION :: u16 where "MIN_READER_VERSION = 1"
definition FILE_HEADER_SIZE :: nat where "FILE_HEADER_SIZE = 4096"
definition DB_HEADER_SIZE :: nat where "DB_HEADER_SIZE = 4096"
definition DB_HEADER_BODY :: nat where "DB_HEADER_BODY = 56"
definition TXN_SLOT :: nat where "TXN_SLOT = FILE_HEADER_SIZE + 2 * DB_HEADER_SIZE"
definition TXN_FLOOR :: nat where "TXN_FLOOR = 64"

lemma length_magic [simp]: "length ZU1_MAGIC = 8" by (simp add: ZU1_MAGIC_def)

subsection \<open>The file header\<close>

record file_header =
  fh_format_version :: u16
  fh_min_reader_version :: u16
  fh_block_size :: u32
  fh_uuid :: "u8 list"
  fh_flags :: u64

definition file_header_corrupt :: "string \<Rightarrow> zu_error" where
  "file_header_corrupt detail = Corrupt ''file header'' detail"

text \<open>The clock and the process id the identity is mixed from are arguments.\<close>

definition uuid_chunk :: "u64 \<Rightarrow> u8 list" where
  "uuid_chunk x =
     (let z1 = (x XOR drop_bit 30 x) * 0xBF58476D1CE4E5B9;
          z2 = (z1 XOR drop_bit 27 z1) * 0x94D049BB133111EB
      in u64_le (z2 XOR drop_bit 31 z2))"

definition fresh_uuid :: "u128 \<Rightarrow> u32 \<Rightarrow> u8 list" where
  "fresh_uuid nanos pid =
     (let x0 = (ucast nanos :: u64) XOR word_rotl 17 (ucast (drop_bit 64 nanos)) XOR word_rotl 32 (ucast pid);
          x1 = x0 + 0x9E3779B97F4A7C15;
          x2 = x1 + 0x9E3779B97F4A7C15;
          out = uuid_chunk x1 @ uuid_chunk x2;
          out1 = out[6 := (out ! 6 AND 0x0F) OR 0x40]
      in out1[8 := (out1 ! 8 AND 0x3F) OR 0x80])"

definition file_header_fresh :: "u128 \<Rightarrow> u32 \<Rightarrow> file_header" where
  "file_header_fresh nanos pid =
     \<lparr>fh_format_version = ZU1_FORMAT_VERSION, fh_min_reader_version = MIN_READER_VERSION,
      fh_block_size = word_of_nat BLOCK_SIZE, fh_uuid = fresh_uuid nanos pid, fh_flags = 0\<rparr>"

definition file_header_body :: "file_header \<Rightarrow> u8 list" where
  "file_header_body h =
     ZU1_MAGIC @ u16_le (fh_format_version h) @ u16_le (fh_min_reader_version h) @ u32_le (fh_block_size h) @
     fh_uuid h @ u64_le (fh_flags h) @ replicate 24 0"

definition file_header_encode :: "(u8 list \<Rightarrow> u32) \<Rightarrow> file_header \<Rightarrow> u8 list" where
  "file_header_encode crc h =
     file_header_body h @ u32_le (crc (file_header_body h)) @ replicate (FILE_HEADER_SIZE - 68) 0"

definition file_header_decode :: "(u8 list \<Rightarrow> u32) \<Rightarrow> u8 list \<Rightarrow> file_header result" where
  "file_header_decode crc buf =
     (if length buf < FILE_HEADER_SIZE then Inl (file_header_corrupt ''short read'')
      else if take 8 buf \<noteq> ZU1_MAGIC then Inl (file_header_corrupt ''bad magic, not a zu1 file'')
      else if crc (take 64 buf) \<noteq> from_le (window buf 64 4) then Inl (file_header_corrupt ''crc mismatch'')
      else let header = \<lparr>fh_format_version = read_u16 (window buf 8 2), fh_min_reader_version = read_u16 (window buf 10 2),
                  fh_block_size = from_le (window buf 12 4), fh_uuid = window buf 16 16, fh_flags = read_u64 (window buf 32 8)\<rparr>
           in if fh_min_reader_version header > ZU1_FORMAT_VERSION
              then Inl (Unsupported ''zu1 min_reader_version'' (unat (fh_min_reader_version header)))
              else if fh_block_size header \<noteq> word_of_nat BLOCK_SIZE
              then Inl (Unsupported ''zu1 block_size'' (unat (fh_block_size header)))
              else Inr header)"

subsection \<open>The database header\<close>

record db_header =
  dh_epoch :: u64
  dh_catalog_root :: u64
  dh_table_index_root :: u64
  dh_free_list_root :: u64
  dh_block_count :: u64
  dh_wal_seq :: u64
  dh_stats_root :: u64

definition db_header_body :: "db_header \<Rightarrow> u8 list" where
  "db_header_body h =
     concat (map u64_le [dh_epoch h, dh_catalog_root h, dh_table_index_root h, dh_free_list_root h,
       dh_block_count h, dh_wal_seq h, dh_stats_root h])"

definition db_header_encode :: "(u8 list \<Rightarrow> u32) \<Rightarrow> db_header \<Rightarrow> u8 list" where
  "db_header_encode crc h =
     db_header_body h @ u32_le (crc (db_header_body h)) @ replicate (DB_HEADER_SIZE - DB_HEADER_BODY - 4) 0"

definition header_word :: "u8 list \<Rightarrow> nat \<Rightarrow> u64" where
  "header_word buf i = read_u64 (window buf (i * 8) 8)"

definition db_header_decode :: "(u8 list \<Rightarrow> u32) \<Rightarrow> u8 list \<Rightarrow> db_header option" where
  "db_header_decode crc buf =
     (if length buf < DB_HEADER_SIZE then None
      else if crc (take DB_HEADER_BODY buf) \<noteq> from_le (window buf DB_HEADER_BODY 4) then None
      else if header_word buf 4 > (2 ^ 64 - 1) div word_of_nat BLOCK_SIZE then None
      else Some \<lparr>dh_epoch = header_word buf 0, dh_catalog_root = header_word buf 1, dh_table_index_root = header_word buf 2,
             dh_free_list_root = header_word buf 3, dh_block_count = header_word buf 4, dh_wal_seq = header_word buf 5,
             dh_stats_root = header_word buf 6\<rparr>)"

subsection \<open>The transaction marker\<close>

text \<open>What \<^verbatim>\<open>keep_savepoint\<close> writes: the kept header, then the log floor with a crc over both.\<close>

definition marker_encode :: "(u8 list \<Rightarrow> u32) \<Rightarrow> db_header \<Rightarrow> u64 \<Rightarrow> u8 list" where
  "marker_encode crc h floor =
     (let kept = take TXN_FLOOR (db_header_encode crc h) @ u64_le floor
      in kept @ u32_le (crc kept) @ drop (TXN_FLOOR + 12) (db_header_encode crc h))"

definition decode_marker :: "(u8 list \<Rightarrow> u32) \<Rightarrow> u8 list \<Rightarrow> (db_header \<times> u64) option" where
  "decode_marker crc buf =
     do {
       held \<leftarrow> db_header_decode crc buf;
       if crc (take (TXN_FLOOR + 8) buf) \<noteq> from_le (window buf (TXN_FLOOR + 8) 4) then None
       else Some (held, read_u64 (window buf TXN_FLOOR 8))
     }"

subsection \<open>Round trips\<close>

lemma window_append [simp]:
  "length xs = off \<Longrightarrow> window (xs @ ys) off n = take n ys"
  "length xs \<le> off \<Longrightarrow> window (xs @ ys) off n = window ys (off - length xs) n"
  "window ys 0 n = take n ys"
  by (simp_all add: window_def)

lemma read_u32_word [simp]: "from_le (u32_le (w :: u32)) = w"
  using from_le_to_le [of 0 4 w] by (simp add: u32_le_def)

definition supported :: "file_header \<Rightarrow> bool" where
  "supported h \<longleftrightarrow> fh_min_reader_version h \<le> ZU1_FORMAT_VERSION \<and> fh_block_size h = word_of_nat BLOCK_SIZE \<and>
     length (fh_uuid h) = 16"

lemma file_header_roundtrip:
  assumes "supported h"
  shows "file_header_decode crc (file_header_encode crc h) = Inr h"
proof -
  let ?b = "file_header_encode crc h"
  have u: "length (fh_uuid h) = 16" using assms by (simp add: supported_def)
  have body: "length (file_header_body h) = 64" using u by (simp add: file_header_body_def)
  have b: "?b = file_header_body h @ u32_le (crc (file_header_body h)) @ replicate (FILE_HEADER_SIZE - 68) 0"
    by (simp add: file_header_encode_def)
  have len: "length ?b = FILE_HEADER_SIZE" using body by (simp add: b FILE_HEADER_SIZE_def)
  have crc: "take 64 ?b = file_header_body h" "window ?b 64 4 = u32_le (crc (file_header_body h))"
    using body by (simp_all add: b)
  have fields: "take 8 ?b = ZU1_MAGIC" "window ?b 8 2 = u16_le (fh_format_version h)"
      "window ?b 10 2 = u16_le (fh_min_reader_version h)" "window ?b 12 4 = u32_le (fh_block_size h)"
      "window ?b 16 16 = fh_uuid h" "window ?b 32 8 = u64_le (fh_flags h)"
    using u by (simp_all add: b file_header_body_def)
  show ?thesis
    using assms len crc fields by (simp add: file_header_decode_def supported_def not_less Let_def)
qed

lemma db_header_body_length: "length (db_header_body h) = DB_HEADER_BODY"
  by (simp add: db_header_body_def DB_HEADER_BODY_def)

definition addressable :: "u64 \<Rightarrow> bool" where
  "addressable n \<longleftrightarrow> n \<le> (2 ^ 64 - 1) div word_of_nat BLOCK_SIZE"

lemma db_header_fields:
  "length pre = DB_HEADER_BODY \<Longrightarrow> pre = db_header_body h \<Longrightarrow>
    header_word (pre @ rest) 0 = dh_epoch h \<and> header_word (pre @ rest) 1 = dh_catalog_root h \<and>
    header_word (pre @ rest) 2 = dh_table_index_root h \<and> header_word (pre @ rest) 3 = dh_free_list_root h \<and>
    header_word (pre @ rest) 4 = dh_block_count h \<and> header_word (pre @ rest) 5 = dh_wal_seq h \<and>
    header_word (pre @ rest) 6 = dh_stats_root h"
  by (simp add: header_word_def db_header_body_def)

lemma db_header_roundtrip:
  assumes "addressable (dh_block_count h)" "DB_HEADER_SIZE \<le> DB_HEADER_BODY + 4 + length rest"
  shows "db_header_decode crc (db_header_body h @ u32_le (crc (db_header_body h)) @ rest) = Some h"
proof -
  let ?b = "db_header_body h @ u32_le (crc (db_header_body h)) @ rest"
  note f = db_header_fields [OF db_header_body_length refl, of h "u32_le (crc (db_header_body h)) @ rest"]
  have "take DB_HEADER_BODY ?b = db_header_body h" "window ?b DB_HEADER_BODY 4 = u32_le (crc (db_header_body h))"
    by (simp_all add: db_header_body_length)
  then show ?thesis
    using assms f by (simp add: db_header_decode_def db_header_body_length addressable_def not_less)
qed

lemma db_header_encode_roundtrip:
  "addressable (dh_block_count h) \<Longrightarrow> db_header_decode crc (db_header_encode crc h) = Some h"
  unfolding db_header_encode_def by (rule db_header_roundtrip) (simp_all add: DB_HEADER_SIZE_def DB_HEADER_BODY_def)

lemma db_header_encode_length [simp]: "length (db_header_encode crc h) = DB_HEADER_SIZE"
  by (simp add: db_header_encode_def db_header_body_length DB_HEADER_SIZE_def DB_HEADER_BODY_def)

lemma marker_roundtrip:
  assumes "addressable (dh_block_count h)"
  shows "decode_marker crc (marker_encode crc h floor) = Some (h, floor) \<and> length (marker_encode crc h floor) = DB_HEADER_SIZE"
proof -
  let ?body = "db_header_body h" and ?e = "db_header_encode crc h"
  let ?kept = "take TXN_FLOOR ?e @ u64_le floor"
  have lb: "length ?body = 56" using db_header_body_length by (simp add: DB_HEADER_BODY_def)
  have t: "take TXN_FLOOR ?e = ?body @ u32_le (crc ?body) @ replicate 4 0"
    using lb by (simp add: db_header_encode_def TXN_FLOOR_def DB_HEADER_SIZE_def DB_HEADER_BODY_def)
  let ?m = "marker_encode crc h floor"
  have lk: "length ?kept = 72" using lb by (simp add: t)
  have m: "?m = ?kept @ u32_le (crc ?kept) @ drop (TXN_FLOOR + 12) ?e" by (simp add: marker_encode_def Let_def)
  have m2: "?m = ?body @ u32_le (crc ?body) @ (replicate 4 0 @ u64_le floor @ u32_le (crc ?kept) @ drop (TXN_FLOOR + 12) ?e)"
    unfolding m t by simp
  have "db_header_decode crc ?m = Some h"
    unfolding m2 by (rule db_header_roundtrip [OF assms])
      (simp add: TXN_FLOOR_def DB_HEADER_SIZE_def DB_HEADER_BODY_def)
  moreover have "take (TXN_FLOOR + 8) ?m = ?kept" "window ?m (TXN_FLOOR + 8) 4 = u32_le (crc ?kept)"
    using lk by (simp_all add: m TXN_FLOOR_def)
  moreover have "window ?m TXN_FLOOR 8 = u64_le floor"
    using lb unfolding m2 by (simp add: TXN_FLOOR_def)
  moreover have "length ?m = DB_HEADER_SIZE"
    using lk by (simp add: m TXN_FLOOR_def DB_HEADER_SIZE_def)
  ultimately show ?thesis by (simp add: decode_marker_def)
qed

text \<open>What decodes was written: the bytes up to the crc are the header's own.\<close>

lemma take_windows: "take (n + m) xs = take n xs @ window xs n m"
  by (simp add: window_def take_add)

lemma decoded_header:
  assumes "db_header_decode crc buf = Some h"
  shows "DB_HEADER_SIZE \<le> length buf \<and> take (DB_HEADER_BODY + 4) buf = db_header_body h @ u32_le (crc (db_header_body h)) \<and>
    addressable (dh_block_count h)"
proof -
  have l: "4096 \<le> length buf" and c: "crc (take 56 buf) = from_le (window buf 56 4)"
    and n: "header_word buf 4 \<le> (2 ^ 64 - 1) div word_of_nat BLOCK_SIZE"
    and h: "h = \<lparr>dh_epoch = header_word buf 0, dh_catalog_root = header_word buf 1, dh_table_index_root = header_word buf 2,
             dh_free_list_root = header_word buf 3, dh_block_count = header_word buf 4, dh_wal_seq = header_word buf 5,
             dh_stats_root = header_word buf 6\<rparr>"
    using assms unfolding db_header_decode_def DB_HEADER_SIZE_def DB_HEADER_BODY_def by (simp_all split: if_splits)
  have w: "u64_le (header_word buf i) = window buf (i * 8) 8" if "i < 7" for i
    using that l unfolding header_word_def by (intro u64_le_read) simp
  have "take 56 buf = take (8 + 8 + 8 + 8 + 8 + 8 + 8) buf" by simp
  also have "\<dots> = window buf 0 8 @ window buf 8 8 @ window buf 16 8 @ window buf 24 8 @ window buf 32 8 @
      window buf 40 8 @ window buf 48 8"
    unfolding take_windows by (simp add: window_def)
  also have "\<dots> = db_header_body h"
    using w [of 0] w [of 1] w [of 2] w [of 3] w [of 4] w [of 5] w [of 6] by (simp add: h db_header_body_def)
  finally have body: "take 56 buf = db_header_body h" .
  have "length (window buf 56 4) = 4" using l by simp
  then have "u32_le (crc (db_header_body h)) = window buf 56 4"
    using c unfolding body by (simp add: u32_le_def to_le_from_le)
  then have "take (56 + 4) buf = db_header_body h @ u32_le (crc (db_header_body h))"
    unfolding take_windows body by simp
  then show ?thesis using l n h by (simp add: DB_HEADER_SIZE_def DB_HEADER_BODY_def addressable_def)
qed

end
