(* ===== verification/Pools.thy ===== *)
theory Pools
  imports Cache
begin

text \<open>
  The decoded pools of \<^verbatim>\<open>crates/zu-zu1/src/cache.rs\<close>: decoded objects under the byte offset
  of their segment, least recently touched out first, within a byte budget. The hash map is
  an association list with distinct keys, in whatever order the map iterates.
\<close>

record 'v pool_entry =
  pe_value :: 'v
  pe_bytes :: nat
  pe_tick :: u64

record 'v pool =
  po_map :: "(u64 \<times> 'v pool_entry) list"
  po_bytes :: nat
  po_tick :: u64
  po_budget :: nat
  po_stats :: cache_stats

definition pool_new :: "nat \<Rightarrow> 'v pool" where
  "pool_new budget = \<lparr>po_map = [], po_bytes = 0, po_tick = 0, po_budget = budget,
     po_stats = \<lparr>cs_hits = 0, cs_misses = 0, cs_evictions = 0\<rparr>\<rparr>"

text \<open>\<^verbatim>\<open>impl PoolBytes for Vec<u64>\<close>\<close>

definition words_pool_bytes :: "u64 list \<Rightarrow> nat" where
  "words_pool_bytes v = length v * 8"

definition pool_get :: "'v pool \<Rightarrow> u64 \<Rightarrow> 'v option \<times> 'v pool" where
  "pool_get po key =
     (let tick = po_tick po + 1; po1 = po\<lparr>po_tick := tick\<rparr>
      in case map_of (po_map po) key of
           Some entry \<Rightarrow>
             (Some (pe_value entry),
              po1\<lparr>po_map := map (\<lambda>(k, e). if k = key then (k, e\<lparr>pe_tick := tick\<rparr>) else (k, e)) (po_map po),
                  po_stats := (po_stats po)\<lparr>cs_hits := cs_hits (po_stats po) + 1\<rparr>\<rparr>)
         | None \<Rightarrow> (None, po1\<lparr>po_stats := (po_stats po)\<lparr>cs_misses := cs_misses (po_stats po) + 1\<rparr>\<rparr>))"

definition in_block :: "u64 \<Rightarrow> u64 \<Rightarrow> bool" where
  "in_block ptr key \<longleftrightarrow> unat ptr * BLOCK_SIZE \<le> unat key \<and> unat key < (unat ptr + 1) * BLOCK_SIZE"

text \<open>The two ends are computed in \<^verbatim>\<open>u64\<close>, and the budget's sum is taken back from.\<close>

definition pool_remove_block :: "'v pool \<Rightarrow> u64 \<Rightarrow> 'v pool option" where
  "pool_remove_block po ptr =
     (if (unat ptr + 1) * BLOCK_SIZE \<ge> 2 ^ 64 then None
      else let dropped = sum_list (map (\<lambda>(k, e). pe_bytes e) (filter (\<lambda>(k, e). in_block ptr k) (po_map po)))
        in if po_bytes po < dropped then None
           else Some (po\<lparr>po_map := filter (\<lambda>(k, e). \<not> in_block ptr k) (po_map po), po_bytes := po_bytes po - dropped\<rparr>))"

fun oldest :: "(u64 \<times> 'v pool_entry) list \<Rightarrow> (u64 \<times> 'v pool_entry) option" where
  "oldest [] = None"
| "oldest (x # xs) =
     (case oldest xs of
        None \<Rightarrow> Some x
      | Some y \<Rightarrow> if pe_tick (snd x) \<le> pe_tick (snd y) then Some x else Some y)"

lemma oldest_None [simp]: "oldest xs = None \<longleftrightarrow> xs = []"
  by (cases xs) (auto split: option.splits)

lemma oldest_in: "oldest xs = Some x \<Longrightarrow> x \<in> set xs \<and> (\<forall>y \<in> set xs. pe_tick (snd x) \<le> pe_tick (snd y))"
proof (induction xs arbitrary: x)
  case (Cons z zs)
  show ?case
  proof (cases "oldest zs")
    case None then show ?thesis using Cons.prems by simp
  next
    case (Some y)
    note ih = Cons.IH [OF Some]
    show ?thesis
    proof (cases "pe_tick (snd z) \<le> pe_tick (snd y)")
      case True then show ?thesis using Cons.prems Some ih by (auto intro: order_trans)
    next
      case False then show ?thesis using Cons.prems Some ih by auto
    qed
  qed
qed simp

text \<open>The eviction loop of an insert: the map, its byte sum and the eviction count.\<close>

function pool_evict :: "nat \<Rightarrow> nat \<Rightarrow> (u64 \<times> 'v pool_entry) list \<Rightarrow> nat \<Rightarrow> u64 \<Rightarrow>
    (u64 \<times> 'v pool_entry) list \<times> nat \<times> u64" where
  "pool_evict budget bytes m used ev =
     (case (if used + bytes > budget then oldest m else None) of
        None \<Rightarrow> (m, used, ev)
      | Some (k, e) \<Rightarrow> pool_evict budget bytes (filter (\<lambda>x. fst x \<noteq> k) m) (used - pe_bytes e) (ev + 1))"
  by auto
termination
proof (relation "measure (\<lambda>(_, _, m, _, _). length m)", goal_cases)
  case (2 budget bytes m used ev x k e)
  then have "(k, e) \<in> set m" using oldest_in [of m "(k, e)"] by (auto split: if_splits)
  then show ?case by (auto intro: length_filter_less)
qed simp

declare pool_evict.simps [simp del]

definition pool_insert :: "('v \<Rightarrow> nat) \<Rightarrow> 'v pool \<Rightarrow> u64 \<Rightarrow> 'v \<Rightarrow> 'v pool" where
  "pool_insert size_of po key v =
     (let bytes = size_of v
      in if map_of (po_map po) key \<noteq> None then po
         else let (m, used, ev) = pool_evict (po_budget po) bytes (po_map po) (po_bytes po) (cs_evictions (po_stats po));
                  tick = po_tick po + 1
              in po\<lparr>po_map := (key, \<lparr>pe_value = v, pe_bytes = bytes, pe_tick = tick\<rparr>) # m,
                    po_bytes := used + bytes, po_tick := tick, po_stats := (po_stats po)\<lparr>cs_evictions := ev\<rparr>\<rparr>)"

subsection \<open>The budget\<close>

definition pool_held :: "'v pool \<Rightarrow> u64 \<rightharpoonup> 'v" where
  "pool_held po k = map_option pe_value (map_of (po_map po) k)"

definition bytes_sum :: "(u64 \<times> 'v pool_entry) list \<Rightarrow> nat" where
  "bytes_sum m = sum_list (map (\<lambda>(k, e). pe_bytes e) m)"

definition pool_ok :: "'v pool \<Rightarrow> bool" where
  "pool_ok po \<longleftrightarrow> distinct (map fst (po_map po)) \<and> po_bytes po = bytes_sum (po_map po) \<and>
     (po_bytes po \<le> po_budget po \<or> length (po_map po) \<le> 1)"

lemma bytes_sum_simps [simp]: "bytes_sum [] = 0" "bytes_sum ((k, e) # m) = pe_bytes e + bytes_sum m"
  by (simp_all add: bytes_sum_def)

lemma bytes_sum_filter: "bytes_sum (filter P m) + bytes_sum (filter (\<lambda>x. \<not> P x) m) = bytes_sum m"
  by (induction m) (auto simp: bytes_sum_def)

lemma bytes_sum_remove:
  "distinct (map fst m) \<Longrightarrow> (k, e) \<in> set m \<Longrightarrow> bytes_sum (filter (\<lambda>x. fst x \<noteq> k) m) = bytes_sum m - pe_bytes e"
proof (induction m)
  case (Cons x m)
  show ?case
  proof (cases "fst x = k")
    case True
    then have "x = (k, e)" using Cons.prems by (cases x) (force simp: image_iff)
    moreover have "filter (\<lambda>x. fst x \<noteq> k) m = m"
      using Cons.prems True by (intro filter_True) (auto simp: image_iff)
    ultimately show ?thesis by simp
  next
    case False
    then have e: "(k, e) \<in> set m" using Cons.prems by auto
    then have "pe_bytes e \<le> bytes_sum m"
      unfolding bytes_sum_def by (intro member_le_sum_list) force+
    then show ?thesis using Cons.IH e Cons.prems False by (cases x) simp
  qed
qed simp

lemma pool_evict_ok:
  assumes "distinct (map fst m)" "used = bytes_sum m" "pool_evict budget bytes m used ev = (m', used', ev')"
  shows "used' = bytes_sum m' \<and> (\<exists>P. m' = filter P m) \<and> (m' = [] \<or> used' + bytes \<le> budget) \<and>
    (used + bytes \<le> budget \<longrightarrow> m' = m) \<and>
    (\<forall>x \<in> set m - set m'. \<forall>y \<in> set m'. pe_tick (snd x) \<le> pe_tick (snd y))"
  using assms
proof (induction budget bytes m used ev rule: pool_evict.induct)
  case (1 budget bytes m used ev)
  show ?case
  proof (cases "if used + bytes > budget then oldest m else None")
    case None
    then have "m' = m" "used' = used" using "1.prems"(3) by (simp_all add: pool_evict.simps [of budget bytes m])
    moreover have "\<exists>P. m = filter P m" by (rule exI [of _ "\<lambda>_. True"]) simp
    ultimately show ?thesis using None "1.prems" by (auto split: if_splits)
  next
    case (Some x)
    obtain k e where x: "x = (k, e)" by (cases x)
    have o: "oldest m = Some (k, e)" and big: "\<not> used + bytes \<le> budget" using Some x by (auto split: if_splits)
    note old = oldest_in [OF o]
    let ?m = "filter (\<lambda>x. fst x \<noteq> k) m"
    have run: "pool_evict budget bytes ?m (used - pe_bytes e) (ev + 1) = (m', used', ev')"
      using "1.prems"(3) Some x by (simp add: pool_evict.simps [of budget bytes m])
    have "distinct (map fst ?m)" using "1.prems"(1) by (simp add: distinct_map_filter)
    moreover have "used - pe_bytes e = bytes_sum ?m"
      using bytes_sum_remove [OF "1.prems"(1), of k e] old "1.prems"(2) by simp
    ultimately have ih: "used' = bytes_sum m'" "\<exists>P. m' = filter P ?m" "m' = [] \<or> used' + bytes \<le> budget"
        "\<forall>x \<in> set ?m - set m'. \<forall>y \<in> set m'. pe_tick (snd x) \<le> pe_tick (snd y)"
      using "1.IH" [OF Some x [symmetric] _ _ run] by blast+
    obtain P where P: "m' = filter P ?m" using ih(2) by blast
    have "m' = filter (\<lambda>x. fst x \<noteq> k \<and> P x) m" by (simp add: P conj_commute)
    moreover have "pe_tick (snd z) \<le> pe_tick (snd y)" if z: "z \<in> set m - set m'" and y: "y \<in> set m'" for y z
    proof (cases "fst z = k")
      case True
      then have "z = (k, e)" using z old "1.prems"(1) by (cases z) (auto dest: eq_key_imp_eq_value)
      then show ?thesis using old y P by auto
    next
      case False then show ?thesis using ih(4) z y by auto
    qed
    ultimately show ?thesis using ih(1,3) big by blast
  qed
qed

lemma map_of_filter_keys: "map_of (filter (\<lambda>(k, e). Q k) m) k = (if Q k then map_of m k else None)"
  by (induction m) auto

lemma pool_get_ok:
  assumes "pool_ok po"
  shows "pool_ok (snd (pool_get po key)) \<and> fst (pool_get po key) = pool_held po key \<and>
    pool_held (snd (pool_get po key)) = pool_held po \<and> po_budget (snd (pool_get po key)) = po_budget po"
proof (cases "map_of (po_map po) key")
  case None
  then show ?thesis using assms by (auto simp: pool_get_def Let_def pool_ok_def pool_held_def)
next
  case (Some e)
  let ?f = "\<lambda>(k, e). if k = key then (k, e\<lparr>pe_tick := po_tick po + 1\<rparr>) else (k, e :: 'a pool_entry)"
  have fst_f: "fst \<circ> ?f = fst" by auto
  have "bytes_sum (map ?f m) = bytes_sum m"
    "map_of (map ?f m) k = map_option (\<lambda>e. if k = key then e\<lparr>pe_tick := po_tick po + 1\<rparr> else e) (map_of m k)" for m k
    by (induction m) (auto simp: bytes_sum_def split: if_splits)
  then show ?thesis using assms Some by (auto simp add: pool_get_def Let_def pool_ok_def pool_held_def fst_f fun_eq_iff map_option_case split: option.splits)
qed

lemma pool_remove_block_ok:
  assumes ok: "pool_ok po" and ptr: "(unat ptr + 1) * BLOCK_SIZE < 2 ^ 64"
  shows "\<exists>po'. pool_remove_block po ptr = Some po' \<and> pool_ok po' \<and> po_budget po' = po_budget po \<and>
    (\<forall>k. pool_held po' k = (if in_block ptr k then None else pool_held po k))"
proof -
  let ?in = "filter (\<lambda>(k, e). in_block ptr k) (po_map po)" and ?out = "filter (\<lambda>(k, e). \<not> in_block ptr k) (po_map po)"
  have sum: "bytes_sum ?in + bytes_sum ?out = po_bytes po"
    using bytes_sum_filter [of "\<lambda>(k, e). in_block ptr k" "po_map po"] ok
    by (simp add: pool_ok_def case_prod_unfold)
  have "po_bytes po \<le> po_budget po \<or> length ?out \<le> 1"
    using ok length_filter_le [of "\<lambda>(k, e). \<not> in_block ptr k" "po_map po"] unfolding pool_ok_def by linarith
  then have "pool_ok (po\<lparr>po_map := ?out, po_bytes := po_bytes po - bytes_sum ?in\<rparr>)"
    using ok sum by (auto simp: pool_ok_def distinct_map_filter)
  moreover have "pool_remove_block po ptr = Some (po\<lparr>po_map := ?out, po_bytes := po_bytes po - bytes_sum ?in\<rparr>)"
    using ptr sum by (simp add: pool_remove_block_def bytes_sum_def [symmetric] Let_def)
  ultimately show ?thesis
    using map_of_filter_keys [of "\<lambda>k. \<not> in_block ptr k" "po_map po"] by (auto simp: pool_held_def)
qed

lemma pool_insert_ok:
  assumes ok: "pool_ok po" and new: "pool_held po key = None"
  shows "pool_ok (pool_insert size_of po key v) \<and> pool_held (pool_insert size_of po key v) key = Some v \<and>
    (\<forall>k w. k \<noteq> key \<longrightarrow> pool_held (pool_insert size_of po key v) k = Some w \<longrightarrow> pool_held po k = Some w) \<and>
    (po_bytes po + size_of v \<le> po_budget po \<longrightarrow> pool_held (pool_insert size_of po key v) = (pool_held po)(key \<mapsto> v)) \<and>
    (\<forall>x \<in> set (po_map po) - set (po_map (pool_insert size_of po key v)).
      \<forall>y \<in> set (po_map po) \<inter> set (po_map (pool_insert size_of po key v)). pe_tick (snd x) \<le> pe_tick (snd y))"
proof -
  have nk: "map_of (po_map po) key = None" using new by (simp add: pool_held_def)
  obtain m used ev where e: "pool_evict (po_budget po) (size_of v) (po_map po) (po_bytes po) (cs_evictions (po_stats po)) = (m, used, ev)"
    by (metis prod_cases3)
  have d: "distinct (map fst (po_map po))" and b: "po_bytes po = bytes_sum (po_map po)" using ok by (simp_all add: pool_ok_def)
  note ev = pool_evict_ok [OF d b e]
  obtain P where P: "m = filter P (po_map po)" using ev by blast
  have keys: "key \<notin> fst ` set (po_map po)" using nk by (simp add: map_of_eq_None_iff)
  have dm: "distinct (map fst m)" using d by (simp add: P distinct_map_filter)
  define new where "new = (key, \<lparr>pe_value = v, pe_bytes = size_of v, pe_tick = po_tick po + 1\<rparr>)"
  have ins: "po_map (pool_insert size_of po key v) = new # m" "po_bytes (pool_insert size_of po key v) = used + size_of v"
      "po_budget (pool_insert size_of po key v) = po_budget po"
    using nk e by (simp_all add: pool_insert_def Let_def new_def)
  have "pool_ok (pool_insert size_of po key v)"
    using ev dm keys P by (auto simp: pool_ok_def ins new_def)
  moreover have "pool_held po k = Some w" if kw: "k \<noteq> key" "pool_held (pool_insert size_of po key v) k = Some w" for k w
  proof -
    obtain en where en: "map_of m k = Some en" "pe_value en = w" using kw by (auto simp: pool_held_def ins new_def)
    then have "(k, en) \<in> set (po_map po)" using P by (auto dest: map_of_SomeD)
    then show ?thesis using d en(2) by (simp add: pool_held_def)
  qed
  moreover have "pool_held (pool_insert size_of po key v) = (pool_held po)(key \<mapsto> v)"
    if "po_bytes po + size_of v \<le> po_budget po"
    using ev that by (auto simp: fun_eq_iff pool_held_def ins new_def)
  moreover have "\<forall>x \<in> set (po_map po) - set (new # m). \<forall>y \<in> set (po_map po) \<inter> set (new # m). pe_tick (snd x) \<le> pe_tick (snd y)"
    using ev keys by (auto simp: new_def image_iff)
  ultimately show ?thesis by (simp add: pool_held_def ins) (simp add: new_def)
qed

end
