(* ===== verification/BlockFile.thy ===== *)
theory BlockFile
  imports BlockHeaders Pools
begin

text \<open>
  \<^verbatim>\<open>Zu1File\<close> of \<^verbatim>\<open>crates/zu-zu1/src/file.rs\<close>: block reads through the cache, block writes,
  allocation, and the packing scopes. Operations run on the record of one handle; a value of
  \<open>'a io\<close> is \<open>None\<close> for a panic and otherwise the result and the handle it leaves, also when
  the result is an error.
\<close>

subsection \<open>The handle\<close>

record chunk_directory =
  cd_ends :: "u32 list"
  cd_fences :: "u64 list"

record decoded_pools =
  dp_csr_offsets :: "u64 list pool"
  dp_adjacency :: "u64 list pool"
  dp_fences :: "chunk_directory pool"

definition pools_new :: "nat \<Rightarrow> decoded_pools" where
  "pools_new memory_limit =
     \<lparr>dp_csr_offsets = pool_new (memory_limit * 8 div 100), dp_adjacency = pool_new (memory_limit div 5),
      dp_fences = pool_new (memory_limit div 25)\<rparr>"

definition directory_pool_bytes :: "chunk_directory \<Rightarrow> nat" where
  "directory_pool_bytes d = length (cd_ends d) * 4 + length (cd_fences d) * 8"

record savepoint =
  sp_db :: db_header
  sp_free :: "u64 list"
  sp_free_chain :: "u64 list"
  sp_reusable :: "u64 set"
  sp_log_floor :: u64
  sp_marked :: bool
  sp_across_statements :: bool
  sp_published :: bool
  sp_began_at :: u64

record pack_scope =
  pk_ptr :: u64
  pk_used :: nat
  pk_block :: "u8 list"

record interrupted =
  in_published :: u64
  in_log_floor :: u64

record zfile =
  zf_disk :: disk
  zf_path :: string
  zf_header :: file_header
  zf_db :: db_header
  zf_active_slot :: nat
  zf_free :: "u64 list"
  zf_pending_free :: "u64 list"
  zf_free_chain :: "u64 list"
  zf_frozen :: "u64 list"
  zf_cache :: cache
  zf_pools :: decoded_pools
  zf_pin_memo :: "(u64 \<times> nat) option"
  zf_pack :: "pack_scope option"
  zf_writable :: bool
  zf_savepoint :: "savepoint option"
  zf_retained :: "(u64 \<times> u64 list) list"
  zf_defer_reclaim :: bool
  zf_unpublished :: nat
  zf_interrupted :: "interrupted option"

type_synonym 'a io = "zfile \<Rightarrow> ('a result \<times> zfile) option"

definition io_return :: "'a \<Rightarrow> 'a io" where
  "io_return x = (\<lambda>z. Some (Inr x, z))"

definition io_bind :: "'a io \<Rightarrow> ('a \<Rightarrow> 'b io) \<Rightarrow> 'b io" where
  "io_bind m f = (\<lambda>z. case m z of
     None \<Rightarrow> None
   | Some (Inl e, z1) \<Rightarrow> Some (Inl e, z1)
   | Some (Inr x, z1) \<Rightarrow> f x z1)"

definition io_check :: "(zfile \<Rightarrow> 'a result) \<Rightarrow> 'a io" where
  "io_check c = (\<lambda>z. Some (c z, z))"

definition io_state :: "(zfile \<Rightarrow> ('a \<times> zfile) option) \<Rightarrow> 'a io" where
  "io_state f = (\<lambda>z. map_option (\<lambda>(x, z1). (Inr x, z1)) (f z))"

subsection \<open>Blocks\<close>

definition check_ptr :: "u64 \<Rightarrow> zfile \<Rightarrow> unit result" where
  "check_ptr ptr z =
     (if ptr = NULL_BLOCK \<or> ptr > dh_block_count (zf_db z)
      then Inl (Corrupt ''block pointer''
        (show_nat (unat ptr) @ '' out of range 1..='' @ show_nat (unat (dh_block_count (zf_db z)))))
      else Inr ())"

definition check_writable :: "string \<Rightarrow> zfile \<Rightarrow> unit result" where
  "check_writable what z =
     (if zf_writable z then Inr ()
      else Inl (InvalidArgument (what @ '' on '' @ zf_path z @ '', which is open read-only'')))"

text \<open>\<^verbatim>\<open>ptr * u64::from(BLOCK_SIZE)\<close>\<close>

definition block_offset :: "u64 \<Rightarrow> nat option" where
  "block_offset ptr = (if unat ptr * BLOCK_SIZE < 2 ^ 64 then Some (unat ptr * BLOCK_SIZE) else None)"

definition drop_memo :: "zfile \<Rightarrow> zfile option" where
  "drop_memo z =
     (case zf_pin_memo z of
        None \<Rightarrow> Some z
      | Some (_, a) \<Rightarrow> map_option (\<lambda>c. z\<lparr>zf_cache := c, zf_pin_memo := None\<rparr>) (bc_unpin (zf_cache z) a))"

definition pools_remove_block :: "decoded_pools \<Rightarrow> u64 \<Rightarrow> decoded_pools option" where
  "pools_remove_block po ptr =
     do {
       a \<leftarrow> pool_remove_block (dp_csr_offsets po) ptr;
       b \<leftarrow> pool_remove_block (dp_adjacency po) ptr;
       c \<leftarrow> pool_remove_block (dp_fences po) ptr;
       Some \<lparr>dp_csr_offsets = a, dp_adjacency = b, dp_fences = c\<rparr>
     }"

definition write_disk :: "u8 list \<Rightarrow> nat \<Rightarrow> unit io" where
  "write_disk data off = (\<lambda>z. let (r, d) = disk_write (zf_disk z) data off in Some (r, z\<lparr>zf_disk := d\<rparr>))"

definition sync_disk :: "unit io" where
  "sync_disk = (\<lambda>z. let (r, d) = disk_sync (zf_disk z) in Some (r, z\<lparr>zf_disk := d\<rparr>))"

definition forget_block :: "u64 \<Rightarrow> zfile \<Rightarrow> zfile option" where
  "forget_block ptr z =
     do {
       z1 \<leftarrow> drop_memo z;
       c \<leftarrow> bc_remove (zf_cache z1) ptr;
       po \<leftarrow> pools_remove_block (zf_pools z1) ptr;
       Some (z1\<lparr>zf_cache := c, zf_pools := po\<rparr>)
     }"

definition write_block :: "u64 \<Rightarrow> u8 list \<Rightarrow> unit io" where
  "write_block ptr data =
     (if length data \<noteq> BLOCK_SIZE then (\<lambda>z. None)
      else io_bind (io_check (check_writable ''write'')) (\<lambda>_.
           io_bind (io_check (check_ptr ptr)) (\<lambda>_.
           io_bind (io_state (\<lambda>z. do { z1 \<leftarrow> forget_block ptr z; off \<leftarrow> block_offset ptr; Some (off, z1) })) (\<lambda>off.
           write_disk data off))))"

text \<open>The read closure of a cache miss.\<close>

definition read_into :: "disk \<Rightarrow> nat \<Rightarrow> fill" where
  "read_into d off = (\<lambda>buf. case disk_read d off (length buf) of
     Inl e \<Rightarrow> (Inl e, buf)
   | Inr bytes \<Rightarrow> (Inr (), bytes))"

text \<open>A pin leaves the frame counted once for the caller and once for the memo.\<close>

definition load_block :: "u64 \<Rightarrow> zfile \<Rightarrow> (nat result \<times> cache) option" where
  "load_block ptr z =
     (case bc_get (zf_cache z) ptr of
        None \<Rightarrow> None
      | Some (Some a, c) \<Rightarrow> Some (Inr a, c)
      | Some (None, c) \<Rightarrow> do { off \<leftarrow> block_offset ptr; bc_insert c ptr (read_into (zf_disk z) off) })"

definition set_memo :: "u64 \<Rightarrow> nat \<Rightarrow> zfile \<Rightarrow> zfile option" where
  "set_memo ptr a z =
     do {
       arcs \<leftarrow> arc_clone (ca_arcs (zf_cache z)) a;
       z1 \<leftarrow> drop_memo (z\<lparr>zf_cache := (zf_cache z)\<lparr>ca_arcs := arcs\<rparr>\<rparr>);
       Some (z1\<lparr>zf_pin_memo := Some (ptr, a)\<rparr>)
     }"

definition memo_hit :: "zfile \<Rightarrow> u64 \<Rightarrow> nat option" where
  "memo_hit z ptr = (case zf_pin_memo z of Some (p, a) \<Rightarrow> if p = ptr then Some a else None | None \<Rightarrow> None)"

definition pin_block :: "u64 \<Rightarrow> nat io" where
  "pin_block ptr =
     io_bind (io_check (check_ptr ptr)) (\<lambda>_ z.
       case memo_hit z ptr of
         Some a \<Rightarrow> map_option (\<lambda>arcs. (Inr a, z\<lparr>zf_cache := (zf_cache z)\<lparr>ca_arcs := arcs\<rparr>\<rparr>)) (arc_clone (ca_arcs (zf_cache z)) a)
       | None \<Rightarrow>
           (case load_block ptr z of
              None \<Rightarrow> None
            | Some (Inl e, c) \<Rightarrow> Some (Inl e, z\<lparr>zf_cache := c\<rparr>)
            | Some (Inr a, c) \<Rightarrow> map_option (\<lambda>z1. (Inr a, z1)) (set_memo ptr a (z\<lparr>zf_cache := c\<rparr>))))"

text \<open>Copying out of a pin and dropping it.\<close>

definition copy_pin :: "nat \<Rightarrow> nat \<Rightarrow> nat \<Rightarrow> u8 list io" where
  "copy_pin a off n = io_state (\<lambda>z. do {
     c \<leftarrow> bc_unpin (zf_cache z) a;
     Some (window (pinned_bytes (zf_cache z) a) off n, z\<lparr>zf_cache := c\<rparr>)
   })"

definition read_block :: "u64 \<Rightarrow> u8 list io" where
  "read_block ptr = io_bind (pin_block ptr) (\<lambda>a. copy_pin a 0 BLOCK_SIZE)"

definition read_block_slice :: "u64 \<Rightarrow> nat \<Rightarrow> nat \<Rightarrow> u8 list io" where
  "read_block_slice ptr off n =
     (if off + n > BLOCK_SIZE then (\<lambda>z. None) else io_bind (pin_block ptr) (\<lambda>a. copy_pin a off n))"

subsection \<open>Allocation\<close>

definition allocate_block :: "zfile \<Rightarrow> (u64 \<times> zfile) option" where
  "allocate_block z =
     (let z1 = z\<lparr>zf_unpublished := zf_unpublished z + 1\<rparr>
      in if zf_free z \<noteq> [] then Some (last (zf_free z), z1\<lparr>zf_free := butlast (zf_free z)\<rparr>)
         else let count = dh_block_count (zf_db z) + 1
              in if count = 0 then None
                 else Some (count, z1\<lparr>zf_db := (zf_db z)\<lparr>dh_block_count := count\<rparr>\<rparr>))"

definition free_block :: "u64 \<Rightarrow> unit io" where
  "free_block ptr = io_bind (io_check (check_ptr ptr)) (\<lambda>_ z.
     Some (Inr (), z\<lparr>zf_pending_free := zf_pending_free z @ [ptr]\<rparr>))"

definition take_free :: "zfile \<Rightarrow> u64 list \<times> zfile" where
  "take_free z = (zf_free z, z\<lparr>zf_free := []\<rparr>)"

definition restore_free :: "u64 list \<Rightarrow> zfile \<Rightarrow> zfile option" where
  "restore_free saved z = (if zf_free z = [] then Some (z\<lparr>zf_free := saved\<rparr>) else None)"

subsection \<open>Packing\<close>

text \<open>Opening a scope answers the one it suspends.\<close>

definition pack_open :: "zfile \<Rightarrow> pack_scope option \<times> zfile" where
  "pack_open z = (zf_pack z, z\<lparr>zf_pack := Some \<lparr>pk_ptr = NULL_BLOCK, pk_used = BLOCK_SIZE, pk_block = []\<rparr>\<rparr>)"

definition pack_close :: "pack_scope option \<Rightarrow> zfile \<Rightarrow> zfile" where
  "pack_close held z = z\<lparr>zf_pack := held\<rparr>"

definition pack_reset :: "zfile \<Rightarrow> zfile" where
  "pack_reset z = z\<lparr>zf_pack := None\<rparr>"

text \<open>\<^verbatim>\<open>block[at..at + part.len()].copy_from_slice(part)\<close>\<close>

definition splice :: "u8 list \<Rightarrow> nat \<Rightarrow> u8 list \<Rightarrow> u8 list option" where
  "splice block at part =
     (if at + length part \<le> length block then Some (take at block @ part @ drop (at + length part) block) else None)"

function scope_loop :: "pack_scope \<Rightarrow> u8 list \<Rightarrow> u64 list \<Rightarrow> (u64 list \<times> pack_scope) io" where
  "scope_loop pack rest blocks z =
     (if pk_used pack > BLOCK_SIZE then None
      else let n = min (length rest) (BLOCK_SIZE - pk_used pack)
        in case splice (pk_block pack) (pk_used pack) (take n rest) of
             None \<Rightarrow> None
           | Some block \<Rightarrow>
               let pack1 = pack\<lparr>pk_block := block, pk_used := pk_used pack + n\<rparr>; blocks1 = blocks @ [pk_ptr pack]
               in case write_block (pk_ptr pack) block z of
                    None \<Rightarrow> None
                  | Some (Inl e, z1) \<Rightarrow> Some (Inl e, z1)
                  | Some (Inr _, z1) \<Rightarrow>
                      if drop n rest = [] then Some (Inr (blocks1, pack1), z1)
                      else case allocate_block z1 of
                             None \<Rightarrow> None
                           | Some (ptr, z2) \<Rightarrow>
                               scope_loop (pack1\<lparr>pk_ptr := ptr, pk_block := replicate (length block) 0, pk_used := 0\<rparr>)
                                 (drop n rest) blocks1 z2)"
  by auto
termination
  by (relation "measure (\<lambda>(pack, rest, _, _). 2 * length rest + (if pk_used pack = BLOCK_SIZE then 1 else 0))")
    (auto simp: BLOCK_SIZE_def min_def split: if_splits)

declare scope_loop.simps [simp del]

text \<open>One payload across fresh whole blocks.\<close>

fun write_parts :: "u8 list list \<Rightarrow> u64 list io" where
  "write_parts [] z = Some (Inr [], z)"
| "write_parts (part # parts) z =
     io_bind (io_state allocate_block) (\<lambda>ptr.
     io_bind (write_block ptr (part @ replicate (BLOCK_SIZE - length part) 0)) (\<lambda>_.
     io_bind (write_parts parts) (\<lambda>ptrs. io_return (ptr # ptrs)))) z"

definition whole_blocks :: "u8 list \<Rightarrow> u64 list io" where
  "whole_blocks payload = write_parts (chunks BLOCK_SIZE payload)"

text \<open>
  The scope is taken out of the handle for the length of the call and put back only when the
  call succeeds.
\<close>

definition pack_bytes :: "u8 list \<Rightarrow> (u64 list \<times> u32) io" where
  "pack_bytes payload z =
     (if payload = [] then Some (Inr ([], 0), z)
      else case zf_pack z of
        None \<Rightarrow> io_bind (whole_blocks payload) (\<lambda>ptrs. io_return (ptrs, 0)) z
      | Some pack \<Rightarrow>
          io_bind (io_state (\<lambda>z. if pk_used pack = BLOCK_SIZE
                     then map_option (\<lambda>(ptr, z1). (pack\<lparr>pk_ptr := ptr, pk_block := replicate BLOCK_SIZE 0, pk_used := 0\<rparr>, z1))
                            (allocate_block z)
                     else Some (pack, z))) (\<lambda>pack.
          io_bind (scope_loop pack payload []) (\<lambda>(blocks, pack1).
          io_bind (io_state (\<lambda>z. Some ((), z\<lparr>zf_pack := Some pack1\<rparr>))) (\<lambda>_.
          io_return (blocks, word_of_nat (pk_used pack)))))
          (z\<lparr>zf_pack := None\<rparr>))"

subsection \<open>What the file holds\<close>

lemma io_bind_simps [simp]:
  "io_bind (io_return x) f z = f x z"
  "io_bind (io_check c) f z = (case c z of Inl e \<Rightarrow> Some (Inl e, z) | Inr x \<Rightarrow> f x z)"
  "m z = None \<Longrightarrow> io_bind m f z = None"
  "m z = Some (Inl e, z1) \<Longrightarrow> io_bind m f z = Some (Inl e, z1)"
  "m z = Some (Inr x, z1) \<Longrightarrow> io_bind m f z = f x z1"
  by (simp_all add: io_bind_def io_return_def io_check_def split: sum.splits)

lemma io_state_simps [simp]:
  "g z = Some (x, z1) \<Longrightarrow> io_state g z = Some (Inr x, z1)"
  "g z = None \<Longrightarrow> io_state g z = None"
  by (simp_all add: io_state_def)

text \<open>The whole blocks of the file.\<close>

definition block_at :: "zfile \<Rightarrow> u64 \<rightharpoonup> u8 list" where
  "block_at z p =
     (if p \<noteq> NULL_BLOCK \<and> unat p * BLOCK_SIZE + BLOCK_SIZE \<le> length (di_image (zf_disk z))
      then Some (window (di_image (zf_disk z)) (unat p * BLOCK_SIZE) BLOCK_SIZE) else None)"

definition memo_pins :: "zfile \<Rightarrow> nat list" where
  "memo_pins z = (case zf_pin_memo z of None \<Rightarrow> [] | Some (p, a) \<Rightarrow> [a])"

definition pools_ok :: "decoded_pools \<Rightarrow> bool" where
  "pools_ok po \<longleftrightarrow> pool_ok (dp_csr_offsets po) \<and> pool_ok (dp_adjacency po) \<and> pool_ok (dp_fences po)"

text \<open>\<open>held\<close> are the pins callers have out; the memo holds one of its own.\<close>

definition zf_ok :: "nat list \<Rightarrow> zfile \<Rightarrow> bool" where
  "zf_ok held z \<longleftrightarrow>
     cache_ok (zf_cache z) (memo_pins z @ held) \<and> cached (zf_cache z) \<subseteq>\<^sub>m block_at z \<and>
     (\<forall>p a. zf_pin_memo z = Some (p, a) \<longrightarrow> block_at z p = Some (pinned_bytes (zf_cache z) a)) \<and>
     pools_ok (zf_pools z)"

lemma block_at_length: "block_at z p = Some b \<Longrightarrow> length b = BLOCK_SIZE \<and> p \<noteq> NULL_BLOCK"
  by (auto simp: block_at_def split: if_splits)

lemma block_at_update [simp]:
  "block_at (z\<lparr>zf_cache := c\<rparr>) = block_at z" "block_at (z\<lparr>zf_pin_memo := m\<rparr>) = block_at z"
  "block_at (z\<lparr>zf_pools := po\<rparr>) = block_at z" "block_at (z\<lparr>zf_cache := c, zf_pin_memo := m\<rparr>) = block_at z"
  by (simp_all add: block_at_def fun_eq_iff)

lemma cache_ok_cong:
  assumes "\<And>a. count_list h a = count_list h' a"
  shows "cache_ok c h = cache_ok c h'"
proof -
  have "a \<in> set h \<longleftrightarrow> a \<in> set h'" for a
    using assms [of a] count_list_0_iff [of h a] count_list_0_iff [of h' a] by auto
  then show ?thesis using assms by (simp add: cache_ok_def counts_ok_def)
qed

lemma bc_clone_ok:
  assumes ok: "cache_ok c held" and a: "a \<in> set held"
  shows "\<exists>arcs. arc_clone (ca_arcs c) a = Some arcs \<and> cache_ok (c\<lparr>ca_arcs := arcs\<rparr>) (a # held) \<and>
    cached (c\<lparr>ca_arcs := arcs\<rparr>) = cached c \<and> (\<forall>b. pinned_bytes (c\<lparr>ca_arcs := arcs\<rparr>) b = pinned_bytes c b)"
proof -
  let ?x = "(ca_arcs c)[a := (ca_arcs c ! a)\<lparr>ar_count := ar_count (ca_arcs c ! a) + 1\<rparr>]"
  have cok: "counts_ok (slot_frames c) (ca_arcs c) held" using ok by (simp add: cache_ok_def)
  then have al: "a < length (ca_arcs c)" using a by (simp add: counts_ok_def)
  have fss: "slot_frames (c\<lparr>ca_arcs := ?x\<rparr>) = slot_frames c" by (simp add: slot_frames_def)
  have pb: "pinned_bytes (c\<lparr>ca_arcs := ?x\<rparr>) b = pinned_bytes c b" for b by (simp add: pinned_bytes_def idx_def)
  have "cache_ok (c\<lparr>ca_arcs := ?x\<rparr>) (a # held)"
    using ok counts_clone [OF cok al] unfolding cache_ok_def fss by simp
  moreover have "cached (c\<lparr>ca_arcs := ?x\<rparr>) = cached c" unfolding cached_def fss pb by simp
  ultimately show ?thesis using al pb by (simp add: arc_clone_def)
qed

lemma read_into_sized: "sized_fill (read_into d off)"
  by (auto simp: sized_fill_def read_into_def disk_read_def)

lemma load_block_ok:
  assumes ok: "zf_ok held z" and p: "ptr \<noteq> NULL_BLOCK" "unat ptr * BLOCK_SIZE < 2 ^ 64"
  shows "\<exists>r c. load_block ptr z = Some (r, c) \<and> cached c \<subseteq>\<^sub>m block_at z \<and>
    (\<forall>b \<in> set (memo_pins z @ held). pinned_bytes c b = pinned_bytes (zf_cache z) b) \<and>
    (case r of Inl e \<Rightarrow> block_at z ptr = None \<and> cache_ok c (memo_pins z @ held)
     | Inr a \<Rightarrow> block_at z ptr = Some (pinned_bytes c a) \<and> cache_ok c (a # memo_pins z @ held))"
proof -
  let ?off = "unat ptr * BLOCK_SIZE" and ?h = "memo_pins z @ held"
  let ?fill = "read_into (zf_disk z) ?off"
  have c: "cache_ok (zf_cache z) ?h" and coh: "cached (zf_cache z) \<subseteq>\<^sub>m block_at z" using ok by (simp_all add: zf_ok_def)
  have "block_offset ptr = Some ?off" using p(2) by (simp add: block_offset_def)
  then have load: "load_block ptr z = (case bc_get (zf_cache z) ptr of None \<Rightarrow> None
        | Some (Some a, c1) \<Rightarrow> Some (Inr a, c1) | Some (None, c1) \<Rightarrow> bc_insert c1 ptr ?fill)"
    by (simp add: load_block_def split: option.split)
  show ?thesis
  proof (cases "block_at z ptr")
    case (Some bs)
    then have "?fill b = (Inr (), bs)" if "length b = BLOCK_SIZE" for b
      using that by (auto simp: read_into_def disk_read_window block_at_def split: if_splits)
    then show ?thesis
      using blocks.read_through [OF c p(1) coh Some, of ?fill] block_at_length [OF Some] Some
      unfolding load by auto
  next
    case None
    then have short: "?fill b = (Inl (Io ''read past end of file''), b)" if "length b = BLOCK_SIZE" for b
      using that p(1) by (simp add: read_into_def disk_read_def block_at_def split: if_splits)
    have nc: "cached (zf_cache z) ptr = None"
      using coh None by (metis domIff map_le_def)
    obtain r c1 where g: "bc_get (zf_cache z) ptr = Some (r, c1)" "cached c1 = cached (zf_cache z)"
        "\<forall>b. pinned_bytes c1 b = pinned_bytes (zf_cache z) b" "r = None" "cache_ok c1 ?h"
      using bc_get_ok [OF c, of ptr] nc by (auto split: option.splits)
    obtain r2 c2 where i: "bc_insert c1 ptr ?fill = Some (r2, c2)" "\<forall>b \<in> set ?h. pinned_bytes c2 b = pinned_bytes c1 b"
        "case r2 of
           Inl e \<Rightarrow> cache_ok c2 ?h \<and> cached c2 \<subseteq>\<^sub>m cached c1 \<and> (\<exists>b. length b = BLOCK_SIZE \<and> fst (?fill b) = Inl e)
         | Inr a \<Rightarrow> cache_ok c2 (a # ?h) \<and> cached c2 \<subseteq>\<^sub>m (cached c1)(ptr \<mapsto> pinned_bytes c2 a) \<and>
             (case cached c1 ptr of Some bytes \<Rightarrow> pinned_bytes c2 a = bytes
              | None \<Rightarrow> \<exists>b. length b = BLOCK_SIZE \<and> ?fill b = (Inr (), pinned_bytes c2 a))"
      using bc_insert_ok [OF g(5) p(1) read_into_sized] by blast
    then obtain e where "r2 = Inl e" using g(2) nc short by (cases r2) auto
    then show ?thesis
      using i g None coh unfolding load by (auto intro: map_le_trans)
  qed
qed

lemma set_memo_ok:
  assumes c: "cache_ok (zf_cache z) (a # memo_pins z @ held)" and coh: "cached (zf_cache z) \<subseteq>\<^sub>m block_at z"
    and b: "block_at z ptr = Some (pinned_bytes (zf_cache z) a)" and po: "pools_ok (zf_pools z)"
  shows "\<exists>c. set_memo ptr a z = Some (z\<lparr>zf_cache := c, zf_pin_memo := Some (ptr, a)\<rparr>) \<and>
    zf_ok (a # held) (z\<lparr>zf_cache := c, zf_pin_memo := Some (ptr, a)\<rparr>) \<and>
    (\<forall>b. pinned_bytes c b = pinned_bytes (zf_cache z) b)"
proof -
  obtain arcs where k: "arc_clone (ca_arcs (zf_cache z)) a = Some arcs"
      "cache_ok ((zf_cache z)\<lparr>ca_arcs := arcs\<rparr>) (a # a # memo_pins z @ held)"
      "cached ((zf_cache z)\<lparr>ca_arcs := arcs\<rparr>) = cached (zf_cache z)"
      "\<forall>b. pinned_bytes ((zf_cache z)\<lparr>ca_arcs := arcs\<rparr>) b = pinned_bytes (zf_cache z) b"
    using bc_clone_ok [OF c] by auto
  let ?c = "(zf_cache z)\<lparr>ca_arcs := arcs\<rparr>"
  have fin: "zf_ok (a # held) (z\<lparr>zf_cache := c', zf_pin_memo := Some (ptr, a)\<rparr>)"
    if "cache_ok c' (a # a # held)" "cached c' = cached (zf_cache z)" "\<forall>b. pinned_bytes c' b = pinned_bytes (zf_cache z) b" for c'
    using that coh b po by (simp add: zf_ok_def memo_pins_def)
  show ?thesis
  proof (cases "zf_pin_memo z")
    case None
    then show ?thesis using k fin [of ?c]
      by (intro exI [of _ ?c]) (simp add: set_memo_def drop_memo_def memo_pins_def)
  next
    case (Some m)
    obtain p a0 where m: "m = (p, a0)" by (cases m)
    have "a0 \<in> set (a # a # memo_pins z @ held)" using Some m by (simp add: memo_pins_def)
    from bc_unpin_ok [OF k(2) this] obtain c' where u: "bc_unpin ?c a0 = Some c'"
        "cache_ok c' (remove1 a0 (a # a # memo_pins z @ held))" "cached c' = cached ?c"
        "\<forall>b. pinned_bytes c' b = pinned_bytes ?c b" by blast
    have "cache_ok c' (remove1 a0 (a # a # memo_pins z @ held)) = cache_ok c' (a # a # held)"
      by (rule cache_ok_cong) (use Some m in \<open>auto simp: memo_pins_def count_list_remove1\<close>)
    then show ?thesis using u k Some m fin [of c'] by (intro exI [of _ c']) (simp add: set_memo_def drop_memo_def)
  qed
qed

lemma pin_block_ok:
  assumes ok: "zf_ok held z" and p: "check_ptr ptr z = Inr ()" "unat ptr * BLOCK_SIZE < 2 ^ 64"
  shows "\<exists>r c m. pin_block ptr z = Some (r, z\<lparr>zf_cache := c, zf_pin_memo := m\<rparr>) \<and>
    (\<forall>b \<in> set held. pinned_bytes c b = pinned_bytes (zf_cache z) b) \<and>
    (case r of Inl e \<Rightarrow> block_at z ptr = None \<and> zf_ok held (z\<lparr>zf_cache := c, zf_pin_memo := m\<rparr>)
     | Inr a \<Rightarrow> block_at z ptr = Some (pinned_bytes c a) \<and> zf_ok (a # held) (z\<lparr>zf_cache := c, zf_pin_memo := m\<rparr>))"
proof -
  have nz: "ptr \<noteq> NULL_BLOCK" using p(1) by (auto simp: check_ptr_def split: if_splits)
  have c: "cache_ok (zf_cache z) (memo_pins z @ held)" and coh: "cached (zf_cache z) \<subseteq>\<^sub>m block_at z" and po: "pools_ok (zf_pools z)"
    using ok by (simp_all add: zf_ok_def)
  show ?thesis
  proof (cases "memo_hit z ptr")
    case (Some a)
    then have m: "zf_pin_memo z = Some (ptr, a)" by (auto simp: memo_hit_def split: option.splits if_splits)
    have "a \<in> set (memo_pins z @ held)" using m by (simp add: memo_pins_def)
    from bc_clone_ok [OF c this] obtain arcs where k: "arc_clone (ca_arcs (zf_cache z)) a = Some arcs"
        "cache_ok ((zf_cache z)\<lparr>ca_arcs := arcs\<rparr>) (a # memo_pins z @ held)"
        "cached ((zf_cache z)\<lparr>ca_arcs := arcs\<rparr>) = cached (zf_cache z)"
        "\<forall>b. pinned_bytes ((zf_cache z)\<lparr>ca_arcs := arcs\<rparr>) b = pinned_bytes (zf_cache z) b" by auto
    let ?c = "(zf_cache z)\<lparr>ca_arcs := arcs\<rparr>"
    have "zf_ok (a # held) (z\<lparr>zf_cache := ?c, zf_pin_memo := zf_pin_memo z\<rparr>)"
      using ok k m by (simp add: zf_ok_def memo_pins_def)
    moreover have "z\<lparr>zf_cache := ?c, zf_pin_memo := zf_pin_memo z\<rparr> = z\<lparr>zf_cache := ?c\<rparr>" by simp
    ultimately show ?thesis
      using p(1) Some k m ok unfolding pin_block_def
      by (intro exI [of _ "Inr a"] exI [of _ ?c] exI [of _ "zf_pin_memo z"]) (simp add: zf_ok_def)
  next
    case None
    obtain r c1 where l: "load_block ptr z = Some (r, c1)" "cached c1 \<subseteq>\<^sub>m block_at z"
        "\<forall>b \<in> set (memo_pins z @ held). pinned_bytes c1 b = pinned_bytes (zf_cache z) b"
        "case r of Inl e \<Rightarrow> block_at z ptr = None \<and> cache_ok c1 (memo_pins z @ held)
         | Inr a \<Rightarrow> block_at z ptr = Some (pinned_bytes c1 a) \<and> cache_ok c1 (a # memo_pins z @ held)"
      using load_block_ok [OF ok nz p(2)] by blast
    have memo: "zf_pin_memo z = Some (q, a0) \<Longrightarrow> block_at z q = Some (pinned_bytes c1 a0)" for q a0
      using ok l(3) by (simp add: zf_ok_def memo_pins_def)
    show ?thesis
    proof (cases r)
      case (Inl e)
      have "zf_ok held (z\<lparr>zf_cache := c1, zf_pin_memo := zf_pin_memo z\<rparr>)"
        using l Inl memo po by (simp add: zf_ok_def memo_pins_def)
      then show ?thesis
        using p(1) None l Inl unfolding pin_block_def
        by (intro exI [of _ "Inl e"] exI [of _ c1] exI [of _ "zf_pin_memo z"]) simp
    next
      case (Inr a)
      let ?z = "z\<lparr>zf_cache := c1\<rparr>"
      have "memo_pins ?z = memo_pins z" by (simp add: memo_pins_def)
      then obtain c where "set_memo ptr a ?z = Some (?z\<lparr>zf_cache := c, zf_pin_memo := Some (ptr, a)\<rparr>)"
          "zf_ok (a # held) (?z\<lparr>zf_cache := c, zf_pin_memo := Some (ptr, a)\<rparr>)"
          "\<forall>b. pinned_bytes c b = pinned_bytes c1 b"
        using set_memo_ok [of ?z a held ptr] l Inr po by auto
      then show ?thesis
        using p(1) None l Inr unfolding pin_block_def
        by (intro exI [of _ "Inr a"] exI [of _ c] exI [of _ "Some (ptr, a)"]) simp
    qed
  qed
qed

lemma copy_pin_ok:
  assumes ok: "zf_ok (a # held) z"
  shows "\<exists>c. copy_pin a off n z = Some (Inr (window (pinned_bytes (zf_cache z) a) off n), z\<lparr>zf_cache := c\<rparr>) \<and>
    zf_ok held (z\<lparr>zf_cache := c\<rparr>) \<and> (\<forall>b. pinned_bytes c b = pinned_bytes (zf_cache z) b)"
proof -
  have c: "cache_ok (zf_cache z) (memo_pins z @ a # held)" using ok by (simp add: zf_ok_def)
  then obtain c where u: "bc_unpin (zf_cache z) a = Some c" "cache_ok c (remove1 a (memo_pins z @ a # held))"
      "cached c = cached (zf_cache z)" "\<forall>b. pinned_bytes c b = pinned_bytes (zf_cache z) b"
    using bc_unpin_ok [OF c, of a] by auto
  have "cache_ok c (remove1 a (memo_pins z @ a # held)) = cache_ok c (memo_pins z @ held)"
    by (rule cache_ok_cong) (simp add: count_list_remove1)
  then show ?thesis using u ok by (intro exI [of _ c]) (simp add: copy_pin_def zf_ok_def memo_pins_def)
qed

text \<open>A read answers what the file holds, or the end of the file.\<close>

lemma read_block_ok:
  assumes ok: "zf_ok held z" and p: "check_ptr ptr z = Inr ()" "unat ptr * BLOCK_SIZE < 2 ^ 64"
  shows "\<exists>r c m. read_block ptr z = Some (r, z\<lparr>zf_cache := c, zf_pin_memo := m\<rparr>) \<and>
    zf_ok held (z\<lparr>zf_cache := c, zf_pin_memo := m\<rparr>) \<and>
    (case r of Inl e \<Rightarrow> block_at z ptr = None | Inr b \<Rightarrow> block_at z ptr = Some b) \<and>
    (\<forall>b \<in> set held. pinned_bytes c b = pinned_bytes (zf_cache z) b)"
proof -
  obtain r c m where q: "pin_block ptr z = Some (r, z\<lparr>zf_cache := c, zf_pin_memo := m\<rparr>)"
      "\<forall>b \<in> set held. pinned_bytes c b = pinned_bytes (zf_cache z) b"
      "case r of Inl e \<Rightarrow> block_at z ptr = None \<and> zf_ok held (z\<lparr>zf_cache := c, zf_pin_memo := m\<rparr>)
       | Inr a \<Rightarrow> block_at z ptr = Some (pinned_bytes c a) \<and> zf_ok (a # held) (z\<lparr>zf_cache := c, zf_pin_memo := m\<rparr>)"
    using pin_block_ok [OF ok p] by blast
  show ?thesis
  proof (cases r)
    case (Inl e)
    then show ?thesis using q by (auto simp: read_block_def)
  next
    case (Inr a)
    let ?z = "z\<lparr>zf_cache := c, zf_pin_memo := m\<rparr>"
    have b: "block_at z ptr = Some (pinned_bytes c a)" and oka: "zf_ok (a # held) ?z" using q(3) Inr by simp_all
    obtain c' where k: "copy_pin a 0 BLOCK_SIZE ?z = Some (Inr (window (pinned_bytes c a) 0 BLOCK_SIZE), ?z\<lparr>zf_cache := c'\<rparr>)"
        "zf_ok held (?z\<lparr>zf_cache := c'\<rparr>)" "\<forall>b. pinned_bytes c' b = pinned_bytes c b"
      using copy_pin_ok [OF oka, of 0 BLOCK_SIZE] by auto
    have e: "?z\<lparr>zf_cache := c'\<rparr> = z\<lparr>zf_cache := c', zf_pin_memo := m\<rparr>" by simp
    moreover have "window (pinned_bytes c a) 0 BLOCK_SIZE = pinned_bytes c a"
      using block_at_length [OF b] by (simp add: window_def)
    ultimately have "read_block ptr z = Some (Inr (pinned_bytes c a), z\<lparr>zf_cache := c', zf_pin_memo := m\<rparr>)"
      using q(1) k(1) Inr by (simp add: read_block_def)
    then show ?thesis using k(2) [unfolded e] k(3) q(2) b
      by (intro exI [of _ "Inr (pinned_bytes c a)"] exI [of _ c'] exI [of _ m]) simp
  qed
qed

subsection \<open>Reads leave the handle alone\<close>

text \<open>A read touches nothing but the cache and the memo.\<close>

definition quiet :: "zfile \<Rightarrow> zfile \<Rightarrow> bool" where
  "quiet z z1 \<longleftrightarrow> z1 = z\<lparr>zf_cache := zf_cache z1, zf_pin_memo := zf_pin_memo z1\<rparr>"

lemma quiet_refl [simp]: "quiet z z" by (simp add: quiet_def)

lemma quiet_trans: "quiet z1 z2 \<Longrightarrow> quiet z2 z3 \<Longrightarrow> quiet z1 z3"
  unfolding quiet_def by (cases z1; cases z2; cases z3) simp

lemma quiet_keeps:
  "quiet z z1 \<Longrightarrow> zf_db z1 = zf_db z \<and> zf_disk z1 = zf_disk z \<and> zf_free z1 = zf_free z \<and> zf_writable z1 = zf_writable z \<and>
    block_at z1 = block_at z \<and> check_ptr p z1 = check_ptr p z"
  unfolding quiet_def by (cases z; cases z1) (simp add: block_at_def fun_eq_iff check_ptr_def)

lemma read_block_quiet:
  assumes "zf_ok held z" "check_ptr ptr z = Inr ()" "unat ptr * BLOCK_SIZE < 2 ^ 64"
  shows "\<exists>r z1. read_block ptr z = Some (r, z1) \<and> zf_ok held z1 \<and> quiet z z1 \<and>
    (case r of Inl e \<Rightarrow> block_at z ptr = None | Inr b \<Rightarrow> block_at z ptr = Some b)"
  using read_block_ok [OF assms] by (fastforce simp: quiet_def)

lemma check_ptr_Inr: "check_ptr p z = Inr () \<longleftrightarrow> p \<noteq> NULL_BLOCK \<and> p \<le> dh_block_count (zf_db z)"
  by (auto simp: check_ptr_def not_le)

subsection \<open>Writes\<close>

text \<open>What a write to the file changes: the disk, and what the caches knew of the block.\<close>

definition wrote :: "zfile \<Rightarrow> zfile \<Rightarrow> bool" where
  "wrote z z1 \<longleftrightarrow> z1 = z\<lparr>zf_disk := zf_disk z1, zf_cache := zf_cache z1, zf_pools := zf_pools z1, zf_pin_memo := zf_pin_memo z1\<rparr>"

lemma wrote_refl [simp]: "wrote z z" by (simp add: wrote_def)

lemma wrote_trans: "wrote z1 z2 \<Longrightarrow> wrote z2 z3 \<Longrightarrow> wrote z1 z3"
  unfolding wrote_def by (cases z1; cases z2; cases z3) simp

lemma quiet_wrote: "quiet z z1 \<Longrightarrow> wrote z z1"
  unfolding wrote_def quiet_def by (cases z; cases z1) simp

lemma wrote_keeps:
  "wrote z z1 \<Longrightarrow> zf_db z1 = zf_db z \<and> zf_free z1 = zf_free z \<and> zf_writable z1 = zf_writable z \<and>
    check_ptr p z1 = check_ptr p z \<and> zf_pending_free z1 = zf_pending_free z"
  unfolding wrote_def by (cases z; cases z1) (simp add: check_ptr_def)

lemma forget_block_ok:
  assumes ok: "zf_ok held z" and p: "(unat ptr + 1) * BLOCK_SIZE < 2 ^ 64"
  shows "\<exists>c po. forget_block ptr z = Some (z\<lparr>zf_cache := c, zf_pin_memo := None, zf_pools := po\<rparr>) \<and>
    cache_ok c held \<and> cached c = (cached (zf_cache z))(ptr := None) \<and> pools_ok po"
proof -
  have c: "cache_ok (zf_cache z) (memo_pins z @ held)" using ok by (simp add: zf_ok_def)
  obtain c0 where d: "drop_memo z = Some (z\<lparr>zf_cache := c0, zf_pin_memo := None\<rparr>)" "cache_ok c0 held"
      "cached c0 = cached (zf_cache z)"
  proof (cases "zf_pin_memo z")
    case None
    then have "z\<lparr>zf_cache := zf_cache z, zf_pin_memo := None\<rparr> = z" by (cases z) simp
    then show ?thesis using that [of "zf_cache z"] None c by (simp add: drop_memo_def memo_pins_def)
  next
    case (Some m)
    then obtain p a where m: "zf_pin_memo z = Some (p, a)" by (cases m) simp
    then show ?thesis
      using bc_unpin_ok [OF c, of a] that by (auto simp: drop_memo_def memo_pins_def)
  qed
  obtain c1 where r: "bc_remove c0 ptr = Some c1" "cache_ok c1 held" "cached c1 = (cached c0)(ptr := None)"
    using bc_remove_ok [OF d(2), of ptr] by blast
  obtain po where "pools_remove_block (zf_pools z) ptr = Some po" "pools_ok po"
    using ok pool_remove_block_ok [OF _ p, of "dp_csr_offsets (zf_pools z)"]
      pool_remove_block_ok [OF _ p, of "dp_adjacency (zf_pools z)"] pool_remove_block_ok [OF _ p, of "dp_fences (zf_pools z)"]
    by (auto simp: zf_ok_def pools_ok_def pools_remove_block_def)
  then show ?thesis using d r
    by (intro exI [of _ c1] exI [of _ po]) (simp add: forget_block_def)
qed

lemma block_at_put:
  assumes "ptr \<noteq> NULL_BLOCK" "length data = BLOCK_SIZE" "di_image (zf_disk z1) = put_bytes (di_image (zf_disk z)) (unat ptr * BLOCK_SIZE) data"
  shows "block_at z1 ptr = Some data \<and> (\<forall>q b. q \<noteq> ptr \<longrightarrow> block_at z q = Some b \<longrightarrow> block_at z1 q = Some b)"
proof -
  have "block_at z1 ptr = Some data"
    using assms window_put_same [of "di_image (zf_disk z)" "unat ptr * BLOCK_SIZE" data] by (simp add: block_at_def)
  moreover have "block_at z1 q = Some b" if q: "q \<noteq> ptr" and b: "block_at z q = Some b" for q b
  proof -
    have "unat q \<noteq> unat ptr" using q by (simp add: word_unat_eq_iff)
    then have "unat q + 1 \<le> unat ptr \<or> unat ptr + 1 \<le> unat q" by linarith
    then have "(unat q + 1) * BLOCK_SIZE \<le> unat ptr * BLOCK_SIZE \<or> (unat ptr + 1) * BLOCK_SIZE \<le> unat q * BLOCK_SIZE"
      by (metis mult_le_mono1)
    then show ?thesis
      using b assms window_put_other [of "unat q * BLOCK_SIZE" BLOCK_SIZE "di_image (zf_disk z)" "unat ptr * BLOCK_SIZE" data]
      by (auto simp: block_at_def split: if_splits)
  qed
  ultimately show ?thesis by blast
qed

lemma write_block_ok:
  assumes ok: "zf_ok held z" and w: "zf_writable z" "di_writable (zf_disk z)" and p: "check_ptr ptr z = Inr ()"
    and small: "(unat ptr + 1) * BLOCK_SIZE < 2 ^ 64" and len: "length data = BLOCK_SIZE"
  shows "\<exists>z1. write_block ptr data z = Some (Inr (), z1) \<and> zf_ok held z1 \<and> wrote z z1 \<and> di_writable (zf_disk z1) \<and>
    zf_disk z1 = (zf_disk z)\<lparr>di_log := di_log (zf_disk z) @ [WriteEvent (unat ptr * BLOCK_SIZE) data],
      di_image := put_bytes (di_image (zf_disk z)) (unat ptr * BLOCK_SIZE) data\<rparr> \<and>
    block_at z1 ptr = Some data \<and> (\<forall>q b. q \<noteq> ptr \<longrightarrow> block_at z q = Some b \<longrightarrow> block_at z1 q = Some b)"
proof -
  have nz: "ptr \<noteq> NULL_BLOCK" using p by (simp add: check_ptr_Inr)
  obtain c po where f: "forget_block ptr z = Some (z\<lparr>zf_cache := c, zf_pin_memo := None, zf_pools := po\<rparr>)"
      "cache_ok c held" "cached c = (cached (zf_cache z))(ptr := None)" "pools_ok po"
    using forget_block_ok [OF ok small] by blast
  define d where "d = (zf_disk z)\<lparr>di_log := di_log (zf_disk z) @ [WriteEvent (unat ptr * BLOCK_SIZE) data],
      di_image := put_bytes (di_image (zf_disk z)) (unat ptr * BLOCK_SIZE) data\<rparr>"
  define z1 where "z1 = z\<lparr>zf_cache := c, zf_pin_memo := None, zf_pools := po, zf_disk := d\<rparr>"
  have "block_offset ptr = Some (unat ptr * BLOCK_SIZE)" using small by (simp add: block_offset_def)
  then have run: "write_block ptr data z = Some (Inr (), z1)"
    using w p len f(1) by (simp add: write_block_def check_writable_def write_disk_def disk_write_ok z1_def d_def)
  have blk: "block_at z1 ptr = Some data" "q \<noteq> ptr \<Longrightarrow> block_at z q = Some b \<Longrightarrow> block_at z1 q = Some b" for q b
    using block_at_put [OF nz len, of z1 z] by (simp_all add: z1_def d_def)
  have "cached c \<subseteq>\<^sub>m block_at z1"
  proof (unfold map_le_def, intro ballI)
    fix q assume q: "q \<in> dom (cached c)"
    then have "q \<noteq> ptr" "cached c q = cached (zf_cache z) q" using f(3) by auto
    moreover have "cached (zf_cache z) q = block_at z q"
      using q ok calculation unfolding zf_ok_def map_le_def by (metis domD domI)
    ultimately show "cached c q = block_at z1 q" using q blk(2) by (metis domD)
  qed
  then have "zf_ok held z1" using f by (simp add: zf_ok_def z1_def memo_pins_def)
  moreover have "wrote z z1" by (simp add: wrote_def z1_def)
  ultimately show ?thesis using run blk w(2) by (intro exI [of _ z1]) (simp add: z1_def d_def)
qed

subsection \<open>The writes a step made\<close>

text \<open>The log grew by events of which all satisfy \<open>P\<close>, and the file is what they make of it.\<close>

definition logged :: "(io_event \<Rightarrow> bool) \<Rightarrow> zfile \<Rightarrow> zfile \<Rightarrow> io_event list \<Rightarrow> bool" where
  "logged P z z1 evs \<longleftrightarrow> di_log (zf_disk z1) = di_log (zf_disk z) @ evs \<and> list_all P evs \<and>
     di_image (zf_disk z1) = replay evs (di_image (zf_disk z))"

lemma logged_refl: "zf_disk z1 = zf_disk z \<Longrightarrow> logged P z z1 []"
  by (simp add: logged_def)

lemma logged_trans: "logged P z1 z2 xs \<Longrightarrow> logged P z2 z3 ys \<Longrightarrow> logged P z1 z3 (xs @ ys)"
  by (simp add: logged_def replay_append)

lemma logged_mono: "logged P z z1 evs \<Longrightarrow> (\<And>ev. P ev \<Longrightarrow> Q ev) \<Longrightarrow> logged Q z z1 evs"
  by (auto simp: logged_def list_all_iff)

definition block_write :: "u64 set \<Rightarrow> io_event \<Rightarrow> bool" where
  "block_write W ev \<longleftrightarrow> (\<exists>p data. p \<in> W \<and> p \<noteq> NULL_BLOCK \<and> length data = BLOCK_SIZE \<and> ev = WriteEvent (unat p * BLOCK_SIZE) data)"

lemma block_write_mono: "block_write W ev \<Longrightarrow> W \<subseteq> V \<Longrightarrow> block_write V ev"
  by (auto simp: block_write_def)

lemma block_write_grows: "block_write W ev \<Longrightarrow> grows ev"
  by (auto simp: block_write_def grows_def)

text \<open>A write to a block touches no other block and nothing of the header region.\<close>

lemma block_write_spares:
  assumes "block_write W ev" "covers ev i"
  shows "BLOCK_SIZE \<le> i \<and> (\<forall>q. q \<notin> W \<longrightarrow> \<not> (unat q * BLOCK_SIZE \<le> i \<and> i < unat q * BLOCK_SIZE + BLOCK_SIZE))"
proof -
  obtain p data where p: "p \<in> W" "p \<noteq> NULL_BLOCK" "length data = BLOCK_SIZE" "ev = WriteEvent (unat p * BLOCK_SIZE) data"
    using assms(1) by (auto simp: block_write_def)
  then have c: "unat p * BLOCK_SIZE \<le> i" "i < unat p * BLOCK_SIZE + BLOCK_SIZE" using assms(2) by (simp_all add: covers_def)
  have "0 < unat p" using p(2) by (simp add: NULL_BLOCK_def unat_gt_0)
  then have "1 * BLOCK_SIZE \<le> unat p * BLOCK_SIZE" by (intro mult_le_mono1) simp
  then have "BLOCK_SIZE \<le> i" using c(1) by linarith
  moreover have "q = p" if "unat q * BLOCK_SIZE \<le> i" "i < unat q * BLOCK_SIZE + BLOCK_SIZE" for q
  proof -
    have "i div BLOCK_SIZE = unat q" "i div BLOCK_SIZE = unat p"
      using that c by (auto simp: div_eq_between BLOCK_SIZE_def)
    then show ?thesis by (simp add: word_unat_eq_iff)
  qed
  ultimately show ?thesis using p(1) by blast
qed

end
