(* ===== verification/MetaChain.thy ===== *)
theory MetaChain
  imports BlockFile
begin

text \<open>
  \<^verbatim>\<open>crates/zu-zu1/src/meta.rs\<close>: byte payloads in linked chains of blocks. The walk keeps the
  set of blocks it has seen, which is what makes it end on any file; the closure it calls on
  every block is the list of blocks and payloads it visits.
\<close>

definition CHAIN_HEADER :: nat where "CHAIN_HEADER = 16"
definition CHAIN_CAPACITY :: nat where "CHAIN_CAPACITY = BLOCK_SIZE - CHAIN_HEADER"

definition chain_block :: "(u8 list \<Rightarrow> u32) \<Rightarrow> u64 \<Rightarrow> u8 list \<Rightarrow> u8 list" where
  "chain_block crc next_ptr part =
     u64_le next_ptr @ len_le (length part) @ u32_le (crc part) @ part @ replicate (BLOCK_SIZE - (CHAIN_HEADER + length part)) 0"

fun alloc_blocks :: "nat \<Rightarrow> zfile \<Rightarrow> (u64 list \<times> zfile) option" where
  "alloc_blocks 0 z = Some ([], z)"
| "alloc_blocks (Suc n) z =
     do { (ptr, z1) \<leftarrow> allocate_block z; (ptrs, z2) \<leftarrow> alloc_blocks n z1; Some (ptr # ptrs, z2) }"

fun chain_head :: "(u64 \<times> u8 list) list \<Rightarrow> u64" where
  "chain_head [] = NULL_BLOCK"
| "chain_head (x # xs) = fst x"

fun write_links :: "(u8 list \<Rightarrow> u32) \<Rightarrow> (u64 \<times> u8 list) list \<Rightarrow> unit io" where
  "write_links crc [] = io_return ()"
| "write_links crc ((ptr, part) # rest) =
     io_bind (write_block ptr (chain_block crc (chain_head rest) part)) (\<lambda>_. write_links crc rest)"

definition write_chain :: "(u8 list \<Rightarrow> u32) \<Rightarrow> u8 list \<Rightarrow> u64 io" where
  "write_chain crc payload =
     (if payload = [] then io_return NULL_BLOCK
      else let parts = chunks CHAIN_CAPACITY payload
        in io_bind (io_state (alloc_blocks (length parts))) (\<lambda>ptrs.
           io_bind (write_links crc (zip ptrs parts)) (\<lambda>_. io_return (hd ptrs))))"

definition chain_corrupt :: "string \<Rightarrow> zu_error" where
  "chain_corrupt detail = Corrupt ''meta chain'' detail"

function walk_loop :: "(u8 list \<Rightarrow> u32) \<Rightarrow> u64 set \<Rightarrow> u64 \<Rightarrow> (u64 \<times> u8 list) list io" where
  "walk_loop crc visited ptr z =
     (if ptr = NULL_BLOCK then Some (Inr [], z)
      else if ptr \<in> visited
      then Some (Inl (chain_corrupt (''cycle detected at block '' @ show_nat (unat ptr))), z)
      else case read_block ptr z of
             None \<Rightarrow> None
           | Some (Inl e, z1) \<Rightarrow> Some (Inl e, z1)
           | Some (Inr block, z1) \<Rightarrow>
               let next_ptr = read_u64 (window block 0 8); len = read_u32 (window block 8 4);
                   stored = (from_le (window block 12 4) :: u32)
               in if len > CHAIN_CAPACITY
                  then Some (Inl (chain_corrupt (''block '' @ show_nat (unat ptr) @ '' claims '' @ show_nat len @ '' payload bytes'')), z1)
                  else let part = window block CHAIN_HEADER len
                    in if crc part \<noteq> stored
                       then Some (Inl (chain_corrupt (''crc mismatch in block '' @ show_nat (unat ptr))), z1)
                       else (case walk_loop crc (insert ptr visited) next_ptr z1 of
                               None \<Rightarrow> None
                             | Some (Inl e, z2) \<Rightarrow> Some (Inl e, z2)
                             | Some (Inr visits, z2) \<Rightarrow> Some (Inr ((ptr, part) # visits), z2)))"
  by auto
termination
proof (relation "measure (\<lambda>(crc, visited, ptr, z). card (- visited))", goal_cases)
  case (2 crc visited ptr z r b z1)
  then show ?case by (auto intro!: psubset_card_mono)
qed simp

declare walk_loop.simps [simp del]

definition walk_chain :: "(u8 list \<Rightarrow> u32) \<Rightarrow> u64 \<Rightarrow> (u64 \<times> u8 list) list io" where
  "walk_chain crc head = walk_loop crc {} head"

definition read_chain :: "(u8 list \<Rightarrow> u32) \<Rightarrow> u64 \<Rightarrow> u8 list io" where
  "read_chain crc head = io_bind (walk_chain crc head) (\<lambda>visits. io_return (concat (map snd visits)))"

definition chain_blocks :: "(u8 list \<Rightarrow> u32) \<Rightarrow> u64 \<Rightarrow> u64 list io" where
  "chain_blocks crc head = io_bind (walk_chain crc head) (\<lambda>visits. io_return (map fst visits))"

subsection \<open>The walk\<close>

text \<open>Every block number of the file has a byte offset.\<close>

definition in_reach :: "zfile \<Rightarrow> bool" where
  "in_reach z \<longleftrightarrow> (unat (dh_block_count (zf_db z)) + 1) * BLOCK_SIZE < 2 ^ 64"

lemma in_reach_ptr: "in_reach z \<Longrightarrow> p \<le> dh_block_count (zf_db z) \<Longrightarrow> (unat p + 1) * BLOCK_SIZE < 2 ^ 64"
proof -
  assume a: "in_reach z" "p \<le> dh_block_count (zf_db z)"
  then have "(unat p + 1) * BLOCK_SIZE \<le> (unat (dh_block_count (zf_db z)) + 1) * BLOCK_SIZE"
    by (simp add: word_le_nat_alt)
  then show ?thesis using a(1) unfolding in_reach_def by linarith
qed

lemma in_reach_off:
  assumes "in_reach z" "p \<le> dh_block_count (zf_db z)"
  shows "unat p * BLOCK_SIZE < 2 ^ 64"
proof -
  have "unat p * BLOCK_SIZE \<le> (unat p + 1) * BLOCK_SIZE" by simp
  then show ?thesis using in_reach_ptr [OF assms] by linarith
qed

text \<open>
  On any file the walk ends, without a panic and without touching the file; what it answers
  are distinct blocks of the file, each with the checksum its header states.
\<close>

lemma walk_loop_total:
  assumes "zf_ok held z" "in_reach z"
  shows "\<exists>r z1. walk_loop crc visited ptr z = Some (r, z1) \<and> zf_ok held z1 \<and> quiet z z1 \<and>
    (\<forall>visits. r = Inr visits \<longrightarrow> distinct (map fst visits) \<and>
      (\<forall>(p, part) \<in> set visits. p \<notin> visited \<and> p \<noteq> NULL_BLOCK \<and> p \<le> dh_block_count (zf_db z) \<and>
        length part \<le> CHAIN_CAPACITY \<and> (\<exists>block. block_at z p = Some block \<and> from_le (window block 12 4) = crc part)))"
  using assms
proof (induction crc visited ptr z rule: walk_loop.induct)
  case (1 crc visited ptr z)
  show ?case
  proof (cases "ptr = NULL_BLOCK \<or> ptr \<in> visited")
    case True
    then show ?thesis using "1.prems" by (auto simp: walk_loop.simps)
  next
    case new: False
    show ?thesis
    proof (cases "check_ptr ptr z")
      case (Inl e)
      then have "read_block ptr z = Some (Inl e, z)" by (simp add: read_block_def pin_block_def)
      then show ?thesis using new "1.prems" by (simp add: walk_loop.simps [of crc visited ptr z])
    next
      case (Inr u)
      then have p: "check_ptr ptr z = Inr ()" by simp
      then have le: "ptr \<le> dh_block_count (zf_db z)" by (simp add: check_ptr_Inr)
      have small: "unat ptr * BLOCK_SIZE < 2 ^ 64" by (rule in_reach_off [OF "1.prems"(2) le])
      obtain r z1 where rd: "read_block ptr z = Some (r, z1)" "zf_ok held z1" "quiet z z1"
          "case r of Inl e \<Rightarrow> block_at z ptr = None | Inr b \<Rightarrow> block_at z ptr = Some b"
        using read_block_quiet [OF "1.prems"(1) p small] by blast
      show ?thesis
      proof (cases r)
        case (Inl e)
        then show ?thesis using new rd by (simp add: walk_loop.simps [of crc visited ptr z])
      next
        case r: (Inr block)
        then have blk: "block_at z ptr = Some block" using rd(4) by simp
        note keep = quiet_keeps [OF rd(3)]
        define nxt where "nxt = read_u64 (take 8 block)"
        define len where "len = read_u32 (window block 8 4)"
        define part where "part = window block CHAIN_HEADER len"
        show ?thesis
        proof (cases "len > CHAIN_CAPACITY \<or> crc part \<noteq> from_le (window block 12 4)")
          case True
          then show ?thesis
            using new rd r by (auto simp: walk_loop.simps [of crc visited ptr z] Let_def len_def [symmetric] part_def [symmetric])
        next
          case good: False
          have reach1: "in_reach z1" using "1.prems"(2) keep by (simp add: in_reach_def)
          have "\<exists>r2 z2. walk_loop crc (insert ptr visited) nxt z1 = Some (r2, z2) \<and> zf_ok held z2 \<and> quiet z1 z2 \<and>
            (\<forall>visits. r2 = Inr visits \<longrightarrow> distinct (map fst visits) \<and>
              (\<forall>(p, part) \<in> set visits. p \<notin> insert ptr visited \<and> p \<noteq> NULL_BLOCK \<and> p \<le> dh_block_count (zf_db z1) \<and>
                length part \<le> CHAIN_CAPACITY \<and> (\<exists>block. block_at z1 p = Some block \<and> from_le (window block 12 4) = crc part)))"
            using "1.IH" [of "(Inr block, z1)" "Inr block" z1 block nxt len "from_le (window block 12 4)" part]
              new rd r good reach1 by (simp add: nxt_def len_def part_def)
          then obtain r2 z2 where w: "walk_loop crc (insert ptr visited) nxt z1 = Some (r2, z2)" "zf_ok held z2" "quiet z1 z2"
            "\<forall>visits. r2 = Inr visits \<longrightarrow> distinct (map fst visits) \<and>
              (\<forall>(p, part) \<in> set visits. p \<notin> insert ptr visited \<and> p \<noteq> NULL_BLOCK \<and> p \<le> dh_block_count (zf_db z1) \<and>
                length part \<le> CHAIN_CAPACITY \<and> (\<exists>block. block_at z1 p = Some block \<and> from_le (window block 12 4) = crc part))"
            by blast
          have lp: "length part \<le> CHAIN_CAPACITY"
            using good unfolding part_def by (auto simp: window_def min_def)
          have "walk_loop crc visited ptr z = (case r2 of Inl e \<Rightarrow> Some (Inl e, z2) | Inr visits \<Rightarrow> Some (Inr ((ptr, part) # visits), z2))"
            using new rd(1) r good w(1)
            by (simp add: walk_loop.simps [of crc visited ptr z] Let_def len_def [symmetric] part_def [symmetric] nxt_def [symmetric]
                split: sum.split)
          then show ?thesis
            using w(2-4) quiet_trans [OF rd(3) w(3)] keep blk lp good new le by (cases r2) (auto simp: image_iff)
        qed
      qed
    qed
  qed
qed

subsection \<open>A chain on the file\<close>

fun chain_at :: "(u8 list \<Rightarrow> u32) \<Rightarrow> zfile \<Rightarrow> (u64 \<times> u8 list) list \<Rightarrow> bool" where
  "chain_at crc z [] = True"
| "chain_at crc z ((ptr, part) # rest) \<longleftrightarrow>
     check_ptr ptr z = Inr () \<and> length part \<le> CHAIN_CAPACITY \<and>
     block_at z ptr = Some (chain_block crc (chain_head rest) part) \<and> chain_at crc z rest"

lemma chain_block_fields:
  assumes "length part \<le> CHAIN_CAPACITY"
  shows "length (chain_block crc nxt part) = BLOCK_SIZE" "read_u64 (window (chain_block crc nxt part) 0 8) = nxt"
    "read_u32 (window (chain_block crc nxt part) 8 4) = length part"
    "from_le (window (chain_block crc nxt part) 12 4) = crc part"
    "window (chain_block crc nxt part) CHAIN_HEADER (length part) = part"
  using assms by (simp_all add: chain_block_def CHAIN_HEADER_def CHAIN_CAPACITY_def BLOCK_SIZE_def read_len_le)

lemma walk_chain_at:
  assumes "chain_at crc z links" "distinct (map fst links)" "fst ` set links \<inter> visited = {}" "zf_ok held z" "in_reach z"
  shows "\<exists>z1. walk_loop crc visited (chain_head links) z = Some (Inr links, z1) \<and> zf_ok held z1 \<and> quiet z z1"
  using assms
proof (induction links arbitrary: visited z)
  case Nil then show ?case by (simp add: walk_loop.simps)
next
  case (Cons link rest)
  obtain ptr part where l: "link = (ptr, part)" by (cases link)
  have p: "check_ptr ptr z = Inr ()" and lp: "length part \<le> CHAIN_CAPACITY"
    and blk: "block_at z ptr = Some (chain_block crc (chain_head rest) part)" and ca: "chain_at crc z rest"
    using Cons.prems(1) l by simp_all
  have nz: "ptr \<noteq> NULL_BLOCK" "ptr \<notin> visited" using p Cons.prems(3) l by (auto simp: check_ptr_Inr)
  have "unat ptr * BLOCK_SIZE < 2 ^ 64" using in_reach_off [OF Cons.prems(5)] p by (simp add: check_ptr_Inr)
  then obtain r z1 where rd: "read_block ptr z = Some (r, z1)" "zf_ok held z1" "quiet z z1"
      "case r of Inl e \<Rightarrow> block_at z ptr = None | Inr b \<Rightarrow> block_at z ptr = Some b"
    using read_block_quiet [OF Cons.prems(4) p] by blast
  then have r: "r = Inr (chain_block crc (chain_head rest) part)" using blk by (cases r) auto
  note keep = quiet_keeps [OF rd(3)]
  have "chain_at crc z1 links = chain_at crc z links" for links
    using keep by (induction links) (auto simp: check_ptr_Inr)
  then have "\<exists>z2. walk_loop crc (insert ptr visited) (chain_head rest) z1 = Some (Inr rest, z2) \<and> zf_ok held z2 \<and> quiet z1 z2"
    using Cons.prems l ca keep rd(2) by (intro Cons.IH) (auto simp: in_reach_def)
  then show ?case
    using rd(1,3) r nz l chain_block_fields [OF lp, of crc "chain_head rest"] lp
    by (auto simp: walk_loop.simps [of crc visited ptr z] Let_def intro: quiet_trans)
qed

subsection \<open>Writing a chain\<close>

text \<open>Allocation hands out distinct blocks of the file that were not live.\<close>

definition free_ok :: "zfile \<Rightarrow> bool" where
  "free_ok z \<longleftrightarrow> distinct (zf_free z) \<and> (\<forall>p \<in> set (zf_free z). p \<noteq> NULL_BLOCK \<and> p \<le> dh_block_count (zf_db z))"

text \<open>What allocation changes.\<close>

definition grew :: "zfile \<Rightarrow> zfile \<Rightarrow> bool" where
  "grew z z1 \<longleftrightarrow> (\<exists>n. z1 = z\<lparr>zf_free := zf_free z1, zf_unpublished := zf_unpublished z1, zf_db := (zf_db z)\<lparr>dh_block_count := n\<rparr>\<rparr>)"

lemma grew_refl [simp]: "grew z z"
  unfolding grew_def by (rule exI [of _ "dh_block_count (zf_db z)"]) simp

lemma grew_trans: "grew z1 z2 \<Longrightarrow> grew z2 z3 \<Longrightarrow> grew z1 z3"
proof -
  assume a: "grew z1 z2" and b: "grew z2 z3"
  obtain n f u where n: "z2 = z1\<lparr>zf_free := f, zf_unpublished := u, zf_db := (zf_db z1)\<lparr>dh_block_count := n\<rparr>\<rparr>"
    using a unfolding grew_def by blast
  obtain m g v where m: "z3 = z2\<lparr>zf_free := g, zf_unpublished := v, zf_db := (zf_db z2)\<lparr>dh_block_count := m\<rparr>\<rparr>"
    using b unfolding grew_def by blast
  show "grew z1 z3" unfolding grew_def by (rule exI [of _ m]) (simp add: m n)
qed

lemma grew_keeps:
  assumes "grew z z1"
  shows "zf_ok held z1 = zf_ok held z \<and> block_at z1 = block_at z \<and> zf_disk z1 = zf_disk z \<and> zf_writable z1 = zf_writable z"
proof -
  obtain n where "z1 = z\<lparr>zf_free := zf_free z1, zf_unpublished := zf_unpublished z1, zf_db := (zf_db z)\<lparr>dh_block_count := n\<rparr>\<rparr>"
    using assms by (auto simp: grew_def)
  then obtain f u d where z: "z1 = z\<lparr>zf_free := f, zf_unpublished := u, zf_db := d\<rparr>" by blast
  have "block_at z1 = block_at z" by (simp add: z block_at_def fun_eq_iff)
  then show ?thesis by (simp add: z zf_ok_def memo_pins_def)
qed

lemma allocate_block_ok:
  assumes f: "free_ok z" and small: "unat (dh_block_count (zf_db z)) + 1 < 2 ^ 64"
  shows "\<exists>p z1. allocate_block z = Some (p, z1) \<and> grew z z1 \<and> free_ok z1 \<and> check_ptr p z1 = Inr () \<and>
    dh_block_count (zf_db z) \<le> dh_block_count (zf_db z1) \<and>
    unat (dh_block_count (zf_db z1)) \<le> unat (dh_block_count (zf_db z)) + 1 \<and>
    p \<notin> set (zf_free z1) \<and> set (zf_free z1) \<subseteq> set (zf_free z) \<and> (p \<in> set (zf_free z) \<or> p > dh_block_count (zf_db z)) \<and>
    zf_free z1 = butlast (zf_free z)"
proof (cases "zf_free z = []")
  case False
  then obtain bs l where b: "zf_free z = bs @ [l]" by (meson rev_exhaust)
  let ?z = "z\<lparr>zf_unpublished := zf_unpublished z + 1, zf_free := bs\<rparr>"
  have "grew z ?z" unfolding grew_def by (rule exI [of _ "dh_block_count (zf_db z)"]) simp
  then show ?thesis
    using f b by (auto simp: allocate_block_def Let_def free_ok_def check_ptr_Inr)
next
  case True
  let ?n = "dh_block_count (zf_db z)"
  have u: "unat (?n + 1) = unat ?n + 1" using small by (simp add: unat_plus_if_size word_size)
  then have nz: "?n + 1 \<noteq> 0" by (metis Suc_eq_plus1 nat.distinct(1) unat_0)
  have gt: "?n < ?n + 1" using u by (simp add: word_less_nat_alt)
  let ?z = "z\<lparr>zf_unpublished := zf_unpublished z + 1, zf_db := (zf_db z)\<lparr>dh_block_count := ?n + 1\<rparr>\<rparr>"
  have "grew z ?z" unfolding grew_def by (rule exI [of _ "?n + 1"]) (use True in simp)
  then show ?thesis
    using True nz gt u by (auto simp: allocate_block_def Let_def free_ok_def check_ptr_Inr NULL_BLOCK_def)
qed

lemma alloc_blocks_ok:
  assumes "free_ok z" "unat (dh_block_count (zf_db z)) + n < 2 ^ 64"
  shows "\<exists>ptrs z1. alloc_blocks n z = Some (ptrs, z1) \<and> length ptrs = n \<and> distinct ptrs \<and> grew z z1 \<and> free_ok z1 \<and>
    (\<forall>p \<in> set ptrs. check_ptr p z1 = Inr () \<and> p \<notin> set (zf_free z1) \<and> (p \<in> set (zf_free z) \<or> p > dh_block_count (zf_db z))) \<and>
    set (zf_free z1) \<subseteq> set (zf_free z) \<and> dh_block_count (zf_db z) \<le> dh_block_count (zf_db z1) \<and>
    unat (dh_block_count (zf_db z1)) \<le> unat (dh_block_count (zf_db z)) + n"
  using assms
proof (induction n arbitrary: z)
  case (Suc n)
  have small: "unat (dh_block_count (zf_db z)) + 1 < 2 ^ 64" using Suc.prems(2) by simp
  obtain p z1 where a: "allocate_block z = Some (p, z1)" "grew z z1" "free_ok z1" "check_ptr p z1 = Inr ()"
      "dh_block_count (zf_db z) \<le> dh_block_count (zf_db z1)"
      "unat (dh_block_count (zf_db z1)) \<le> unat (dh_block_count (zf_db z)) + 1"
      "p \<notin> set (zf_free z1)" "set (zf_free z1) \<subseteq> set (zf_free z)" "p \<in> set (zf_free z) \<or> p > dh_block_count (zf_db z)"
    using allocate_block_ok [OF Suc.prems(1) small] by blast
  have "unat (dh_block_count (zf_db z1)) + n < 2 ^ 64" using a(6) Suc.prems(2) by simp
  then obtain ptrs z2 where b: "alloc_blocks n z1 = Some (ptrs, z2)" "length ptrs = n" "distinct ptrs" "grew z1 z2" "free_ok z2"
      "\<forall>q \<in> set ptrs. check_ptr q z2 = Inr () \<and> q \<notin> set (zf_free z2) \<and> (q \<in> set (zf_free z1) \<or> q > dh_block_count (zf_db z1))"
      "set (zf_free z2) \<subseteq> set (zf_free z1)" "dh_block_count (zf_db z1) \<le> dh_block_count (zf_db z2)"
      "unat (dh_block_count (zf_db z2)) \<le> unat (dh_block_count (zf_db z1)) + n"
    using Suc.IH [OF a(3)] by blast
  have "p \<notin> set ptrs" using a(4,7) b(6) by (auto simp: check_ptr_Inr not_less [symmetric])
  moreover have "check_ptr p z2 = Inr ()" using a(4) b(8) by (auto simp: check_ptr_Inr intro: order_trans)
  moreover have "p \<notin> set (zf_free z2)" using a(7) b(7) by blast
  moreover have "q \<in> set (zf_free z) \<or> q > dh_block_count (zf_db z)" if "q \<in> set ptrs" for q
    using that a(5,8) b(6) by (auto intro: le_less_trans)
  ultimately show ?case
    using a b by (auto intro: grew_trans order_trans)
qed (simp add: )

lemma chain_at_mono:
  assumes "chain_at crc z links" "\<And>p b. p \<in> fst ` set links \<Longrightarrow> block_at z p = Some b \<Longrightarrow> block_at z1 p = Some b"
    "dh_block_count (zf_db z) \<le> dh_block_count (zf_db z1)"
  shows "chain_at crc z1 links"
  using assms by (induction crc z links rule: chain_at.induct) (auto simp: check_ptr_Inr)

lemma write_links_ok:
  assumes "zf_ok held z" "zf_writable z" "di_writable (zf_disk z)" "in_reach z" "distinct (map fst links)"
    "\<forall>(p, part) \<in> set links. check_ptr p z = Inr () \<and> length part \<le> CHAIN_CAPACITY"
  shows "\<exists>z1. write_links crc links z = Some (Inr (), z1) \<and> zf_ok held z1 \<and> wrote z z1 \<and> di_writable (zf_disk z1) \<and>
    chain_at crc z1 links \<and> (\<forall>q b. q \<notin> fst ` set links \<longrightarrow> block_at z q = Some b \<longrightarrow> block_at z1 q = Some b) \<and>
    (\<exists>evs. logged (block_write (fst ` set links)) z z1 evs)"
  using assms
proof (induction links arbitrary: z)
  case Nil then show ?case by (auto simp: io_return_def intro: logged_refl)
next
  case (Cons link rest)
  obtain ptr part where l: "link = (ptr, part)" by (cases link)
  have p: "check_ptr ptr z = Inr ()" and lp: "length part \<le> CHAIN_CAPACITY" using Cons.prems(6) l by auto
  let ?data = "chain_block crc (chain_head rest) part"
  have small: "(unat ptr + 1) * BLOCK_SIZE < 2 ^ 64"
    by (rule in_reach_ptr [OF Cons.prems(4)]) (use p in \<open>simp add: check_ptr_Inr\<close>)
  obtain z1 where w: "write_block ptr ?data z = Some (Inr (), z1)" "zf_ok held z1" "wrote z z1" "di_writable (zf_disk z1)"
      "zf_disk z1 = (zf_disk z)\<lparr>di_log := di_log (zf_disk z) @ [WriteEvent (unat ptr * BLOCK_SIZE) ?data],
        di_image := put_bytes (di_image (zf_disk z)) (unat ptr * BLOCK_SIZE) ?data\<rparr>"
      "block_at z1 ptr = Some ?data" "\<forall>q b. q \<noteq> ptr \<longrightarrow> block_at z q = Some b \<longrightarrow> block_at z1 q = Some b"
    using write_block_ok [OF Cons.prems(1-3) p small chain_block_fields(1) [OF lp]] by blast
  note keep = wrote_keeps [OF w(3)]
  have "\<exists>z2. write_links crc rest z1 = Some (Inr (), z2) \<and> zf_ok held z2 \<and> wrote z1 z2 \<and> di_writable (zf_disk z2) \<and>
      chain_at crc z2 rest \<and> (\<forall>q b. q \<notin> fst ` set rest \<longrightarrow> block_at z1 q = Some b \<longrightarrow> block_at z2 q = Some b) \<and>
      (\<exists>evs. logged (block_write (fst ` set rest)) z1 z2 evs)"
    by (rule Cons.IH) (use Cons.prems w keep in \<open>auto simp: in_reach_def\<close>)
  then obtain z2 where r: "write_links crc rest z1 = Some (Inr (), z2)" "zf_ok held z2" "wrote z1 z2" "di_writable (zf_disk z2)"
      "chain_at crc z2 rest" "\<forall>q b. q \<notin> fst ` set rest \<longrightarrow> block_at z1 q = Some b \<longrightarrow> block_at z2 q = Some b"
      "\<exists>evs. logged (block_write (fst ` set rest)) z1 z2 evs"
    by blast
  have "block_write (fst ` set (link # rest)) (WriteEvent (unat ptr * BLOCK_SIZE) ?data)"
    unfolding block_write_def using l p chain_block_fields(1) [OF lp] check_ptr_Inr by fastforce
  then have "logged (block_write (fst ` set (link # rest))) z z1 [WriteEvent (unat ptr * BLOCK_SIZE) ?data]"
    using w(5) by (simp add: logged_def)
  moreover obtain evs where "logged (block_write (fst ` set rest)) z1 z2 evs" using r(7) by blast
  then have "logged (block_write (fst ` set (link # rest))) z1 z2 evs"
    by (rule logged_mono) (erule block_write_mono, auto)
  ultimately have "\<exists>evs. logged (block_write (fst ` set (link # rest))) z z2 evs"
    by (blast intro: logged_trans)
  moreover have "ptr \<notin> fst ` set rest" using Cons.prems(5) l by simp
  then have "block_at z2 ptr = Some ?data" using r(6) w(6) by blast
  moreover have "check_ptr ptr z2 = Inr ()" using p wrote_keeps [OF wrote_trans [OF w(3) r(3)], of ptr] by simp
  ultimately show ?case
    using l w(1,7) r lp wrote_trans [OF w(3) r(3)] by (intro exI [of _ z2]) auto
qed

text \<open>A written chain: where it is, and what it left alone.\<close>

lemma write_chain_ok:
  assumes ok: "zf_ok held z" and w: "zf_writable z" "di_writable (zf_disk z)" and f: "free_ok z" and ne: "payload \<noteq> []"
    and small: "(unat (dh_block_count (zf_db z)) + length (chunks CHAIN_CAPACITY payload) + 1) * BLOCK_SIZE < 2 ^ 64"
  shows "\<exists>ptrs za z1. write_chain crc payload z = Some (Inr (hd ptrs), z1) \<and>
    alloc_blocks (length (chunks CHAIN_CAPACITY payload)) z = Some (ptrs, za) \<and> grew z za \<and> wrote za z1 \<and>
    zf_ok held z1 \<and> di_writable (zf_disk z1) \<and> free_ok z1 \<and> in_reach z1 \<and>
    length ptrs = length (chunks CHAIN_CAPACITY payload) \<and> distinct ptrs \<and> chain_at crc z1 (zip ptrs (chunks CHAIN_CAPACITY payload)) \<and>
    (\<forall>p \<in> set ptrs. p \<notin> set (zf_free z1) \<and> (p \<in> set (zf_free z) \<or> p > dh_block_count (zf_db z))) \<and>
    (\<forall>q b. q \<notin> set ptrs \<longrightarrow> block_at z q = Some b \<longrightarrow> block_at z1 q = Some b) \<and>
    (\<exists>evs. logged (block_write (set ptrs)) z z1 evs)"
proof -
  let ?parts = "chunks CHAIN_CAPACITY payload" and ?n = "dh_block_count (zf_db z)"
  have "unat ?n + length ?parts < 2 ^ 64" using small by (simp add: BLOCK_SIZE_def)
  then obtain ptrs za where a: "alloc_blocks (length ?parts) z = Some (ptrs, za)" "length ptrs = length ?parts" "distinct ptrs"
      "grew z za" "free_ok za"
      "\<forall>p \<in> set ptrs. check_ptr p za = Inr () \<and> p \<notin> set (zf_free za) \<and> (p \<in> set (zf_free z) \<or> p > ?n)"
      "unat (dh_block_count (zf_db za)) \<le> unat ?n + length ?parts"
    using alloc_blocks_ok [OF f] by blast
  note g = grew_keeps [OF a(4)]
  have reach: "in_reach za"
  proof -
    have "(unat (dh_block_count (zf_db za)) + 1) * BLOCK_SIZE \<le> (unat ?n + length ?parts + 1) * BLOCK_SIZE"
      using a(7) by (intro mult_le_mono1) simp
    then show ?thesis unfolding in_reach_def using small by linarith
  qed
  have fst: "map fst (zip ptrs ?parts) = ptrs" using a(2) by simp
  have fs: "fst ` set (zip ptrs ?parts) = set ptrs" using fst by (metis list.set_map)
  have "\<exists>z1. write_links crc (zip ptrs ?parts) za = Some (Inr (), z1) \<and> zf_ok held z1 \<and> wrote za z1 \<and> di_writable (zf_disk z1) \<and>
    chain_at crc z1 (zip ptrs ?parts) \<and>
    (\<forall>q b. q \<notin> fst ` set (zip ptrs ?parts) \<longrightarrow> block_at za q = Some b \<longrightarrow> block_at z1 q = Some b) \<and>
    (\<exists>evs. logged (block_write (fst ` set (zip ptrs ?parts))) za z1 evs)"
    by (rule write_links_ok) (use ok w g reach a fst in \<open>auto dest: set_zip_leftD intro: length_chunk_le [OF set_zip_rightD]\<close>)
  then obtain z1 where r: "write_links crc (zip ptrs ?parts) za = Some (Inr (), z1)" "zf_ok held z1" "wrote za z1"
      "di_writable (zf_disk z1)" "chain_at crc z1 (zip ptrs ?parts)"
      "\<forall>q b. q \<notin> set ptrs \<longrightarrow> block_at z q = Some b \<longrightarrow> block_at z1 q = Some b"
      "\<exists>evs. logged (block_write (set ptrs)) z z1 evs"
    unfolding fs using g by (auto simp: logged_def)
  have "write_chain crc payload z = Some (Inr (hd ptrs), z1)"
    using ne a(1) r(1) by (simp add: write_chain_def Let_def io_return_def)
  moreover have "free_ok z1" "in_reach z1" "zf_free z1 = zf_free za"
    using a(5) reach wrote_keeps [OF r(3)] by (simp_all add: free_ok_def in_reach_def)
  ultimately show ?thesis using a r by (intro exI [of _ ptrs] exI [of _ za] exI [of _ z1]) simp
qed

lemma chunks_nonempty: "xs \<noteq> [] \<Longrightarrow> 0 < n \<Longrightarrow> chunks n xs \<noteq> []"
  by (subst chunks.simps) simp

lemma capacity_pos: "0 < CHAIN_CAPACITY"
  by (simp add: CHAIN_CAPACITY_def BLOCK_SIZE_def CHAIN_HEADER_def)

lemma chain_head_zip: "length ptrs = length parts \<Longrightarrow> parts \<noteq> [] \<Longrightarrow> chain_head (zip ptrs parts) = hd ptrs"
  by (cases ptrs; cases parts) simp_all

text \<open>Reading a chain gives the bytes and the blocks back.\<close>

lemma chain_reads:
  assumes "chain_at crc z links" "distinct (map fst links)" "zf_ok held z" "in_reach z"
  shows "\<exists>z1. read_chain crc (chain_head links) z = Some (Inr (concat (map snd links)), z1) \<and> zf_ok held z1 \<and> quiet z z1"
    "\<exists>z1. chain_blocks crc (chain_head links) z = Some (Inr (map fst links), z1) \<and> zf_ok held z1 \<and> quiet z z1"
  using walk_chain_at [OF assms(1,2) _ assms(3,4), of "{}"]
  by (auto simp: read_chain_def chain_blocks_def walk_chain_def io_return_def)

lemma chain_roundtrip:
  assumes "zf_ok held z" "zf_writable z" "di_writable (zf_disk z)" "free_ok z"
    "(unat (dh_block_count (zf_db z)) + length (chunks CHAIN_CAPACITY payload) + 1) * BLOCK_SIZE < 2 ^ 64"
  shows "\<exists>head z1 z2. write_chain crc payload z = Some (Inr head, z1) \<and> read_chain crc head z1 = Some (Inr payload, z2) \<and>
    zf_ok held z2 \<and> quiet z1 z2"
proof (cases "payload = []")
  case True
  then show ?thesis
    using assms by (simp add: write_chain_def io_return_def read_chain_def walk_chain_def walk_loop.simps io_bind_def)
next
  case False
  let ?parts = "chunks CHAIN_CAPACITY payload"
  obtain ptrs z1 where c: "write_chain crc payload z = Some (Inr (hd ptrs), z1)" "zf_ok held z1" "in_reach z1"
      "length ptrs = length ?parts" "distinct ptrs" "chain_at crc z1 (zip ptrs ?parts)"
    using write_chain_ok [OF assms(1-4) False assms(5)] by blast
  have d: "distinct (map fst (zip ptrs ?parts))" using c(4,5) by simp
  have "concat (map snd (zip ptrs ?parts)) = payload"
    using c(4) concat_chunks [OF capacity_pos] by simp
  then show ?thesis
    using c(1) chain_reads(1) [OF c(6) d c(2,3)] chain_head_zip [OF c(4) chunks_nonempty [OF False capacity_pos]] by auto
qed

end
