(* ===== verification/Checkpoint.thy ===== *)
theory Checkpoint
  imports MetaChain
begin

text \<open>
  The commit protocol of \<^verbatim>\<open>crates/zu-zu1/src/file.rs\<close>: creating and opening a file, the
  checkpoint that lists the free blocks, syncs and flips the header, the savepoint that holds
  a transaction's starting state, and the blocks held back for readers.
\<close>

subsection \<open>The free list on disk\<close>

definition free_list_corrupt :: "string \<Rightarrow> zu_error" where
  "free_list_corrupt detail = Corrupt ''free list'' detail"

fun free_ptrs :: "u64 \<Rightarrow> u64 list \<Rightarrow> u64 list result" where
  "free_ptrs block_count [] = Inr []"
| "free_ptrs block_count (ptr # rest) =
     (if ptr = NULL_BLOCK \<or> ptr > block_count
      then Inl (free_list_corrupt (''block '' @ show_nat (unat ptr) @ '' out of range 1..='' @ show_nat (unat block_count)))
      else case free_ptrs block_count rest of
             Inl e \<Rightarrow> Inl e
           | Inr ptrs \<Rightarrow> Inr (ptr # ptrs))"

definition decode_free_list :: "u8 list \<Rightarrow> u64 \<Rightarrow> u64 list result" where
  "decode_free_list bytes block_count =
     (if length bytes mod 8 \<noteq> 0
      then Inl (free_list_corrupt (''payload of '' @ show_nat (length bytes) @ '' bytes is ragged''))
      else case free_ptrs block_count (le_words bytes) of
             Inl e \<Rightarrow> Inl e
           | Inr ptrs \<Rightarrow>
               if length (remdups_adj (sort ptrs)) \<noteq> length ptrs
               then Inl (free_list_corrupt ''duplicate block'') else Inr ptrs)"

subsection \<open>Creating and opening\<close>

definition DEFAULT_MEMORY_LIMIT :: nat where "DEFAULT_MEMORY_LIMIT = 128 * 2 ^ 20"

definition new_handle :: "disk \<Rightarrow> string \<Rightarrow> file_header \<Rightarrow> db_header \<Rightarrow> nat \<Rightarrow> interrupted option \<Rightarrow> bool \<Rightarrow> zfile" where
  "new_handle d path header db slot broken writable =
     \<lparr>zf_disk = d, zf_path = path, zf_header = header, zf_db = db, zf_active_slot = slot, zf_free = [], zf_pending_free = [],
      zf_free_chain = [], zf_frozen = [], zf_cache = bc_new (DEFAULT_MEMORY_LIMIT div 2), zf_pools = pools_new DEFAULT_MEMORY_LIMIT,
      zf_pin_memo = None, zf_pack = None, zf_writable = writable, zf_savepoint = None, zf_retained = [],
      zf_defer_reclaim = False, zf_unpublished = 0, zf_interrupted = broken\<rparr>"

definition first_db :: db_header where
  "first_db = \<lparr>dh_epoch = 1, dh_catalog_root = 0, dh_table_index_root = 0, dh_free_list_root = 0,
     dh_block_count = 0, dh_wal_seq = 0, dh_stats_root = 0\<rparr>"

definition create_within :: "(u8 list \<Rightarrow> u32) \<Rightarrow> u128 \<Rightarrow> u32 \<Rightarrow> disk \<Rightarrow> string \<Rightarrow> zfile result" where
  "create_within crc nanos pid d0 path =
     (let header = file_header_fresh nanos pid in
      case disk_write d0 (file_header_encode crc header) 0 of
        (Inl e, _) \<Rightarrow> Inl e
      | (Inr _, d1) \<Rightarrow>
          (case disk_write d1 (db_header_encode crc first_db) FILE_HEADER_SIZE of
             (Inl e, _) \<Rightarrow> Inl e
           | (Inr _, d2) \<Rightarrow>
               (case disk_set_len d2 BLOCK_SIZE of
                  (Inl e, _) \<Rightarrow> Inl e
                | (Inr _, d3) \<Rightarrow> Inr (new_handle (snd (disk_sync d3)) path header first_db 0 None True))))"

definition named :: "zu_error \<Rightarrow> string \<Rightarrow> zu_error" where
  "named e path = (case e of Corrupt what detail \<Rightarrow> Corrupt what (path @ '': '' @ detail) | _ \<Rightarrow> e)"

text \<open>The newer of the two slots that decode.\<close>

definition pick_header :: "db_header option \<Rightarrow> db_header option \<Rightarrow> (db_header \<times> nat) option" where
  "pick_header sa sb =
     (case (sa, sb) of
        (Some a, Some b) \<Rightarrow> if dh_epoch a \<ge> dh_epoch b then Some (a, 0) else Some (b, 1)
      | (Some a, None) \<Rightarrow> Some (a, 0)
      | (None, Some b) \<Rightarrow> Some (b, 1)
      | (None, None) \<Rightarrow> None)"

definition resume_marker :: "(db_header \<times> u64) option \<Rightarrow> db_header \<Rightarrow> db_header \<times> interrupted option" where
  "resume_marker holding db =
     (case holding of
        Some (held, floor) \<Rightarrow>
          ((if dh_epoch held \<le> dh_epoch db then held else db), Some \<lparr>in_published = dh_epoch db, in_log_floor = floor\<rparr>)
      | None \<Rightarrow> (db, None))"

definition load_free_list :: "(u8 list \<Rightarrow> u32) \<Rightarrow> unit io" where
  "load_free_list crc z =
     (let root = dh_free_list_root (zf_db z) in
      if root = NULL_BLOCK then io_return () z
      else io_bind (read_chain crc root) (\<lambda>bytes.
           io_bind (io_check (\<lambda>z. decode_free_list bytes (dh_block_count (zf_db z)))) (\<lambda>ptrs.
           io_bind (io_state (\<lambda>z. Some ((), z\<lparr>zf_free := ptrs\<rparr>))) (\<lambda>_.
           io_bind (chain_blocks crc root) (\<lambda>blocks.
           io_state (\<lambda>z. Some ((), z\<lparr>zf_free_chain := blocks\<rparr>)))))) z)"

text \<open>
  The header region is read as far as the file goes and is zero past that. \<open>None\<close> is a panic.
\<close>

definition open_kind :: "(u8 list \<Rightarrow> u32) \<Rightarrow> disk \<Rightarrow> string \<Rightarrow> bool \<Rightarrow> zfile result option" where
  "open_kind crc d path writable =
     (let head_len = FILE_HEADER_SIZE + 2 * DB_HEADER_SIZE; size = disk_len d; have_bytes = min size head_len in
      case disk_read d 0 have_bytes of
        Inl e \<Rightarrow> Some (Inl e)
      | Inr bytes \<Rightarrow>
          let head = bytes @ replicate (head_len - have_bytes) 0 in
          if have_bytes < FILE_HEADER_SIZE
          then Some (Inl (Corrupt ''file header''
                 (path @ '': '' @ show_nat size @ '' bytes, too short to be a zu1 database'')))
          else (case file_header_decode crc head of
            Inl e \<Rightarrow> Some (Inl (named e path))
          | Inr header \<Rightarrow>
              (case pick_header (db_header_decode crc (window head FILE_HEADER_SIZE DB_HEADER_SIZE))
                                (db_header_decode crc (drop (FILE_HEADER_SIZE + DB_HEADER_SIZE) head)) of
                 None \<Rightarrow> Some (Inl (Corrupt ''database header'' (path @ '': no valid header in either slot'')))
               | Some (db, slot) \<Rightarrow>
                   (case (if size \<ge> TXN_SLOT + DB_HEADER_SIZE
                          then map_sum id (decode_marker crc) (disk_read d TXN_SLOT DB_HEADER_SIZE) else Inr None) of
                      Inl e \<Rightarrow> Some (Inl e)
                    | Inr holding \<Rightarrow>
                        let (db1, broken) = resume_marker holding db in
                        (case load_free_list crc (new_handle d path header db1 slot broken writable) of
                           None \<Rightarrow> None
                         | Some (Inl e, _) \<Rightarrow> Some (Inl e)
                         | Some (Inr _, z) \<Rightarrow> Some (Inr z))))))"

text \<open>Taking the roots another handle has reached.\<close>

definition follow :: "db_header \<Rightarrow> nat \<Rightarrow> zfile \<Rightarrow> zfile option" where
  "follow header slot z = drop_memo (z\<lparr>zf_db := header, zf_active_slot := slot\<rparr>)"

subsection \<open>Blocks held for readers\<close>

text \<open>Inside a transaction only what was free before it may be allocated again.\<close>

definition give_back :: "u64 list \<Rightarrow> zfile \<Rightarrow> zfile" where
  "give_back ready z =
     (case zf_savepoint z of
        Some saved \<Rightarrow> z\<lparr>zf_free := zf_free z @ filter (\<lambda>p. p \<in> sp_reusable saved) ready,
                       zf_frozen := zf_frozen z @ filter (\<lambda>p. p \<notin> sp_reusable saved) ready\<rparr>
      | None \<Rightarrow> z\<lparr>zf_free := zf_free z @ ready\<rparr>)"

definition release_retained :: "u64 \<Rightarrow> zfile \<Rightarrow> nat \<times> zfile" where
  "release_retained floor z =
     (let ready = concat (map snd (filter (\<lambda>(epoch, _). epoch < floor) (zf_retained z)))
      in (length ready, give_back ready (z\<lparr>zf_retained := filter (\<lambda>(epoch, _). \<not> epoch < floor) (zf_retained z)\<rparr>)))"

definition reclaim :: "zfile \<Rightarrow> zfile" where
  "reclaim z = (if zf_defer_reclaim z then z else snd (release_retained (- 1) z))"

definition defer_reclaim :: "bool \<Rightarrow> zfile \<Rightarrow> zfile" where
  "defer_reclaim on z = z\<lparr>zf_defer_reclaim := on\<rparr>"

definition retained_blocks :: "zfile \<Rightarrow> nat" where
  "retained_blocks z = sum_list (map (\<lambda>(_, blocks). length blocks) (zf_retained z))"

subsection \<open>The savepoint\<close>

definition begin_savepoint :: "bool \<Rightarrow> u64 \<Rightarrow> unit io" where
  "begin_savepoint across_statements floor =
     io_bind (io_check (check_writable ''a transaction'')) (\<lambda>_ z.
       if zf_savepoint z \<noteq> None
       then Some (Inl (InvalidArgument (zf_path z @ '' is already inside a transaction'')), z)
       else Some (Inr (), z\<lparr>zf_savepoint := Some \<lparr>sp_db = zf_db z, sp_free = zf_free z, sp_free_chain = zf_free_chain z,
              sp_reusable = set (zf_free z), sp_log_floor = floor, sp_marked = False, sp_across_statements = across_statements,
              sp_published = False, sp_began_at = dh_epoch (zf_db z)\<rparr>\<rparr>))"

definition in_savepoint :: "zfile \<Rightarrow> bool" where
  "in_savepoint z \<longleftrightarrow> zf_savepoint z \<noteq> None"

definition savepoint_floor :: "zfile \<Rightarrow> u64 option" where
  "savepoint_floor z = map_option sp_log_floor (zf_savepoint z)"

definition mark_published :: "zfile \<Rightarrow> zfile" where
  "mark_published z = z\<lparr>zf_savepoint := map_option (\<lambda>s. s\<lparr>sp_published := True\<rparr>) (zf_savepoint z)\<rparr>"

text \<open>The epoch is a \<^verbatim>\<open>u64\<close>; counting past its end is a panic.\<close>

definition bump_epoch :: "zfile \<Rightarrow> zfile option" where
  "bump_epoch z = (if dh_epoch (zf_db z) + 1 = 0 then None else Some (z\<lparr>zf_db := (zf_db z)\<lparr>dh_epoch := dh_epoch (zf_db z) + 1\<rparr>\<rparr>))"

definition stage_fold :: "zfile \<Rightarrow> zfile option" where
  "stage_fold z = map_option mark_published (bump_epoch z)"

definition stage_deferred :: "zfile \<Rightarrow> zfile" where
  "stage_deferred z = mark_published z"

definition marker_due :: "zfile \<Rightarrow> bool" where
  "marker_due z = (case zf_savepoint z of
     Some held \<Rightarrow> \<not> sp_marked held \<and> (sp_across_statements held \<or> sp_published held) | None \<Rightarrow> False)"

definition keep_savepoint :: "(u8 list \<Rightarrow> u32) \<Rightarrow> unit io" where
  "keep_savepoint crc z =
     (if \<not> marker_due z then io_return () z
      else let held = the (zf_savepoint z)
        in io_bind (write_disk (marker_encode crc (sp_db held) (sp_log_floor held)) TXN_SLOT) (\<lambda>_.
           io_bind sync_disk (\<lambda>_.
           io_state (\<lambda>z. Some ((), z\<lparr>zf_savepoint := map_option (\<lambda>s. s\<lparr>sp_marked := True\<rparr>) (zf_savepoint z)\<rparr>)))) z)"

definition forget_kept :: "unit io" where
  "forget_kept = io_bind (write_disk (replicate DB_HEADER_SIZE 0) TXN_SLOT) (\<lambda>_. sync_disk)"

definition release_savepoint :: "unit io" where
  "release_savepoint z =
     (let held = zf_savepoint z; z1 = z\<lparr>zf_savepoint := None\<rparr>;
          z2 = (if zf_frozen z1 = [] then z1
                else reclaim (z1\<lparr>zf_frozen := [], zf_retained := zf_retained z1 @
                       [(case held of None \<Rightarrow> dh_epoch (zf_db z1) | Some h \<Rightarrow> sp_began_at h, zf_frozen z1)]\<rparr>))
      in if (case held of None \<Rightarrow> False | Some h \<Rightarrow> sp_marked h) then forget_kept z2 else io_return () z2)"

subsection \<open>The checkpoint\<close>

text \<open>The chain storage taken from the committed-free prefix: enough blocks for the list that is left.\<close>

function reserve_count :: "nat \<Rightarrow> nat \<Rightarrow> nat" where
  "reserve_count n c = (if (n - c) * 8 > c * CHAIN_CAPACITY then reserve_count n (c + 1) else c)"
  by auto
termination by (relation "measure (\<lambda>(n, c). n - c)") auto

declare reserve_count.simps [simp del]

record gathered =
  ga_all :: "u64 list"
  ga_safe :: nat
  ga_reached :: "u64 set"
  ga_superseded :: u64

definition gather_free :: "zfile \<Rightarrow> gathered \<times> zfile" where
  "gather_free z =
     (\<lparr>ga_all = zf_free z @ zf_frozen z @ zf_pending_free z @ zf_free_chain z, ga_safe = length (zf_free z),
       ga_reached = set (zf_pending_free z) \<union> set (zf_free_chain z), ga_superseded = dh_epoch (zf_db z)\<rparr>,
      z\<lparr>zf_free := [], zf_frozen := [], zf_pending_free := [], zf_free_chain := []\<rparr>)"

text \<open>Writes the list and answers the blocks that are free once it is published.\<close>

definition write_free_list :: "(u8 list \<Rightarrow> u32) \<Rightarrow> u64 list \<Rightarrow> nat \<Rightarrow> u64 list io" where
  "write_free_list crc free_blocks safe z =
     (if free_blocks = [] then Some (Inr [], z\<lparr>zf_db := (zf_db z)\<lparr>dh_free_list_root := NULL_BLOCK\<rparr>\<rparr>)
      else let c = reserve_count (length free_blocks) 0;
               k = (if c \<le> safe \<and> length free_blocks > c then c else 0);
               listed = drop k free_blocks
        in io_bind (write_chain crc (concat (map u64_le listed))) (\<lambda>root z.
             Some (Inr (listed @ zf_free z), z\<lparr>zf_free := [], zf_db := (zf_db z)\<lparr>dh_free_list_root := root\<rparr>\<rparr>))
             (z\<lparr>zf_free := take k free_blocks\<rparr>))"

definition flip_header :: "(u8 list \<Rightarrow> u32) \<Rightarrow> unit io" where
  "flip_header crc =
     io_bind sync_disk (\<lambda>_.
     io_bind (io_state (\<lambda>z. map_option (\<lambda>z1. ((), z1)) (bump_epoch z))) (\<lambda>_ z.
     io_bind (write_disk (db_header_encode crc (zf_db z)) (FILE_HEADER_SIZE + (1 - zf_active_slot z) * DB_HEADER_SIZE)) (\<lambda>_.
     io_bind sync_disk (\<lambda>_.
     io_state (\<lambda>z. Some ((), z\<lparr>zf_active_slot := 1 - zf_active_slot z\<rparr>)))) z))"

definition settle_free :: "gathered \<Rightarrow> u64 list \<Rightarrow> zfile \<Rightarrow> zfile" where
  "settle_free g free_blocks z =
     (let held = filter (\<lambda>p. p \<in> ga_reached g) free_blocks; rest = filter (\<lambda>p. p \<notin> ga_reached g) free_blocks;
          z1 = (if held = [] then z else z\<lparr>zf_retained := zf_retained z @ [(ga_superseded g, held)]\<rparr>);
          z2 = (case zf_savepoint z1 of
                  Some saved \<Rightarrow> (mark_published z1)\<lparr>zf_free := filter (\<lambda>p. p \<in> sp_reusable saved) rest,
                                   zf_frozen := filter (\<lambda>p. p \<notin> sp_reusable saved) rest\<rparr>
                | None \<Rightarrow> z1\<lparr>zf_free := rest\<rparr>)
      in (reclaim z2)\<lparr>zf_unpublished := 0\<rparr>)"

definition checkpoint :: "(u8 list \<Rightarrow> u32) \<Rightarrow> unit io" where
  "checkpoint crc =
     io_bind (io_check (check_writable ''checkpoint'')) (\<lambda>_.
     io_bind (keep_savepoint crc) (\<lambda>_.
     io_bind (io_state (\<lambda>z. Some (gather_free z))) (\<lambda>g.
     io_bind (write_free_list crc (ga_all g) (ga_safe g)) (\<lambda>free_blocks.
     io_bind (flip_header crc) (\<lambda>_ z.
     io_bind (if dh_free_list_root (zf_db z) = NULL_BLOCK then io_return (zf_free_chain z)
              else chain_blocks crc (dh_free_list_root (zf_db z))) (\<lambda>blocks.
     io_state (\<lambda>z. Some ((), settle_free g free_blocks (z\<lparr>zf_free_chain := blocks\<rparr>)))) z)))))"

subsection \<open>Taking a transaction back\<close>

definition rollback_savepoint :: "(u8 list \<Rightarrow> u32) \<Rightarrow> unit io" where
  "rollback_savepoint crc z =
     (case zf_savepoint z of
        None \<Rightarrow> Some (Inl (InvalidArgument (zf_path z @ '' is not inside a transaction'')), z)
      | Some saved \<Rightarrow>
          let epoch = dh_epoch (zf_db z); published = (epoch \<noteq> dh_epoch (sp_db saved));
              z1 = z\<lparr>zf_savepoint := None, zf_db := sp_db saved, zf_free := sp_free saved, zf_free_chain := sp_free_chain saved,
                     zf_pending_free := [], zf_frozen := [],
                     zf_retained := filter (\<lambda>(e, _). e < dh_epoch (sp_db saved)) (zf_retained z)\<rparr>
          in case drop_memo z1 of
               None \<Rightarrow> None
             | Some z2 \<Rightarrow>
                 io_bind (if published then checkpoint crc else io_return ()) (\<lambda>_.
                   if sp_marked saved then forget_kept else io_return ())
                   (if published then z2\<lparr>zf_db := (zf_db z2)\<lparr>dh_epoch := epoch\<rparr>\<rparr> else z2))"

definition finish_rollback :: "(u8 list \<Rightarrow> u32) \<Rightarrow> unit io" where
  "finish_rollback crc z =
     (case zf_interrupted z of
        None \<Rightarrow> io_return () z
      | Some broken \<Rightarrow>
          io_bind (io_check (check_writable ''the rollback a crash left behind'')) (\<lambda>_ z.
            io_bind (if in_published broken > dh_epoch (zf_db z)
                     then (\<lambda>z. checkpoint crc (z\<lparr>zf_db := (zf_db z)\<lparr>dh_epoch := in_published broken\<rparr>\<rparr>))
                     else io_return ()) (\<lambda>_. forget_kept) z)
            (z\<lparr>zf_interrupted := None\<rparr>))"

end
