(* ===== verification/Commit.thy ===== *)
theory Commit
  imports Checkpoint "HOL-Library.Multiset"
begin

text \<open>
  What the commit protocol of \<open>Checkpoint\<close> guarantees: the free list on disk is read exactly,
  a checkpoint leaves the file in the old state or the new one whatever a crash does to it, and
  a transaction's writes stay off the blocks its savepoint keeps.
\<close>

subsection \<open>The free list\<close>

lemma distinct_remdups_adj_sorted: "sorted (xs :: 'a :: linorder list) \<Longrightarrow> distinct (remdups_adj xs)"
  by (induction xs rule: remdups_adj.induct) (auto simp: less_le)

lemma distinct_sort_count: "length (remdups_adj (sort ptrs)) = length (ptrs :: u64 list) \<longleftrightarrow> distinct ptrs"
proof -
  have "length (remdups_adj (sort ptrs)) = card (set ptrs)"
    using distinct_card [OF distinct_remdups_adj_sorted [of "sort ptrs"]] by simp
  then show ?thesis using card_distinct distinct_card by metis
qed

definition in_file :: "u64 \<Rightarrow> u64 \<Rightarrow> bool" where
  "in_file n p \<longleftrightarrow> p \<noteq> NULL_BLOCK \<and> p \<le> n"

lemma free_ptrs_exact: "free_ptrs n ptrs = Inr ps \<longleftrightarrow> ps = ptrs \<and> list_all (in_file n) ptrs"
proof (induction ptrs arbitrary: ps)
  case Nil then show ?case by simp metis
next
  case (Cons ptr rest)
  show ?case
  proof (cases "in_file n ptr")
    case True
    then have "\<not> (ptr = NULL_BLOCK \<or> ptr > n)" by (simp add: in_file_def not_less)
    then have "free_ptrs n (ptr # rest) = Inr ps \<longleftrightarrow> (\<exists>qs. free_ptrs n rest = Inr qs \<and> ps = ptr # qs)"
      by (simp split: sum.split) metis
    then show ?thesis using Cons.IH True by (simp del: free_ptrs.simps) blast
  qed (auto simp: in_file_def not_less [symmetric])
qed

lemma decode_free_list_exact:
  "decode_free_list bytes n = Inr ps \<longleftrightarrow>
     bytes = concat (map u64_le ps) \<and> distinct ps \<and> list_all (in_file n) ps"
proof
  assume "decode_free_list bytes n = Inr ps"
  then have r: "length bytes mod 8 = 0" "free_ptrs n (le_words bytes) = Inr ps" "distinct ps"
    by (auto simp: decode_free_list_def distinct_sort_count split: if_splits sum.splits)
  then show "bytes = concat (map u64_le ps) \<and> distinct ps \<and> list_all (in_file n) ps"
    using concat_le_words [of bytes] by (simp add: free_ptrs_exact)
next
  assume a: "bytes = concat (map u64_le ps) \<and> distinct ps \<and> list_all (in_file n) ps"
  then have w: "le_words bytes = ps" by (simp add: le_words_concat)
  have "length bytes = 8 * length ps" using a by (simp add: length_concat o_def sum_list_triv)
  moreover have "free_ptrs n ps = Inr ps" using a free_ptrs_exact [of n ps ps] by simp
  ultimately show "decode_free_list bytes n = Inr ps" using a w by (simp add: decode_free_list_def distinct_sort_count)
qed

subsection \<open>Where the writes of a step go\<close>

text \<open>
  Before the flip a step writes the marker, blocks of \<open>W\<close>, and syncs: nothing of the two header
  slots and no block outside \<open>W\<close>.
\<close>

definition staged :: "u64 set \<Rightarrow> io_event \<Rightarrow> bool" where
  "staged W ev \<longleftrightarrow> ev = SyncEvent \<or> block_write W ev \<or>
     (\<exists>bytes. ev = WriteEvent TXN_SLOT bytes \<and> length bytes = DB_HEADER_SIZE)"

lemma staged_mono: "staged W ev \<Longrightarrow> W \<subseteq> V \<Longrightarrow> staged V ev"
  by (auto simp: staged_def intro: block_write_mono)

lemma staged_grows: "staged W ev \<Longrightarrow> grows ev"
  by (auto simp: staged_def grows_def dest: block_write_grows)

lemmas layout = TXN_SLOT_def FILE_HEADER_SIZE_def DB_HEADER_SIZE_def BLOCK_SIZE_def

lemma staged_covers:
  assumes "staged W ev" "covers ev i"
  shows "TXN_SLOT \<le> i \<and> (\<forall>q. q \<noteq> NULL_BLOCK \<longrightarrow> q \<notin> W \<longrightarrow> \<not> (unat q * BLOCK_SIZE \<le> i \<and> i < unat q * BLOCK_SIZE + BLOCK_SIZE))"
proof (cases "block_write W ev")
  case True
  then show ?thesis using block_write_spares [OF True assms(2)] by (auto simp: layout)
next
  case False
  then have i: "TXN_SLOT \<le> i" "i < BLOCK_SIZE" using assms by (auto simp: staged_def covers_def layout)
  have "BLOCK_SIZE \<le> unat q * BLOCK_SIZE" if "q \<noteq> NULL_BLOCK" for q
    using that by (cases "unat q") (auto simp: NULL_BLOCK_def unat_eq_zero)
  then show ?thesis using i by (meson leD order_trans)
qed

text \<open>The header region and the kept blocks of an image.\<close>

definition image_block :: "u8 list \<Rightarrow> u64 \<rightharpoonup> u8 list" where
  "image_block img p = (if p \<noteq> NULL_BLOCK \<and> unat p * BLOCK_SIZE + BLOCK_SIZE \<le> length img
     then Some (window img (unat p * BLOCK_SIZE) BLOCK_SIZE) else None)"

lemma block_at_image: "block_at z = image_block (di_image (zf_disk z))"
  by (simp add: block_at_def image_block_def fun_eq_iff)

lemma torn_staged:
  assumes t: "torn evs img img1" and s: "list_all (staged W) evs" and len: "BLOCK_SIZE \<le> length img"
  shows "window img1 0 TXN_SLOT = window img 0 TXN_SLOT"
    "p \<notin> W \<Longrightarrow> image_block img p = Some b \<Longrightarrow> image_block img1 p = Some b"
proof -
  have no: "\<not> covers ev i" if "ev \<in> set evs" "i < TXN_SLOT" for ev i
    using that s staged_covers [of W ev i] by (auto simp: list_all_iff)
  show "window img1 0 TXN_SLOT = window img 0 TXN_SLOT"
    by (rule torn_window [OF t]) (use len no in \<open>auto simp: layout\<close>)
next
  assume p: "p \<notin> W" "image_block img p = Some b"
  then have q: "p \<noteq> NULL_BLOCK" "unat p * BLOCK_SIZE + BLOCK_SIZE \<le> length img" "b = window img (unat p * BLOCK_SIZE) BLOCK_SIZE"
    by (auto simp: image_block_def split: if_splits)
  have "window img1 (unat p * BLOCK_SIZE) BLOCK_SIZE = window img (unat p * BLOCK_SIZE) BLOCK_SIZE"
    by (rule torn_window [OF t q(2)]) (use p q s staged_covers in \<open>auto simp: list_all_iff\<close>)
  moreover have "length img \<le> length img1" using t by (simp add: torn_def)
  ultimately show "image_block img1 p = Some b" using q by (simp add: image_block_def)
qed

subsection \<open>Where every block is\<close>

text \<open>
  A block of the file that is in none of the lists is live: some root reaches it, or a writer
  has been handed it.
\<close>

definition spare :: "zfile \<Rightarrow> u64 multiset" where
  "spare z = mset (zf_free z) + mset (zf_frozen z) + mset (concat (map snd (zf_retained z)))"

definition acct :: "zfile \<Rightarrow> u64 multiset" where
  "acct z = spare z + mset (zf_pending_free z) + mset (zf_free_chain z)"

definition live :: "zfile \<Rightarrow> u64 set" where
  "live z = {p. in_file (dh_block_count (zf_db z)) p \<and> p \<notin># acct z}"

text \<open>No block is in two lists, and every listed block is one of the file.\<close>

definition lists_ok :: "zfile \<Rightarrow> bool" where
  "lists_ok z \<longleftrightarrow> (\<forall>p. count (acct z) p \<le> 1) \<and> (\<forall>p \<in># acct z. in_file (dh_block_count (zf_db z)) p)"

lemma mset_split: "mset (filter P xs) + mset (filter (\<lambda>x. \<not> P x) xs) = mset xs"
  by (induction xs) auto

lemma once_distinct: "(\<And>p. count (mset xs) p \<le> 1) \<Longrightarrow> distinct xs"
proof (induction xs)
  case (Cons x xs)
  have "count (mset xs) x = 0" using Cons.prems [of x] by simp
  then have "x \<notin> set xs" by (simp add: count_eq_zero_iff)
  moreover have "count (mset xs) p \<le> 1" for p
  proof (cases "p = x")
    case True then show ?thesis unfolding True \<open>count (mset xs) x = 0\<close> by simp
  qed (use Cons.prems [of p] in simp)
  ultimately show ?case using Cons.IH by simp
qed simp

lemma distinct_once: "distinct xs \<Longrightarrow> count (mset xs) p \<le> 1"
  by (induction xs) (auto simp: count_eq_zero_iff)

lemma give_back_acct: "spare (give_back ready z) = spare z + mset ready \<and> acct (give_back ready z) = acct z + mset ready"
proof (cases "zf_savepoint z")
  case None then show ?thesis by (simp add: give_back_def acct_def spare_def)
next
  case (Some s)
  have "mset (filter (\<lambda>p. p \<in> sp_reusable s) ready) + mset (filter (\<lambda>p. p \<notin> sp_reusable s) ready) = mset ready"
    by (rule mset_split)
  then show ?thesis using Some by (simp add: give_back_def acct_def spare_def ac_simps)
qed

text \<open>What handing blocks back changes.\<close>

definition handed :: "zfile \<Rightarrow> zfile \<Rightarrow> bool" where
  "handed z z1 \<longleftrightarrow> z1 = z\<lparr>zf_free := zf_free z1, zf_frozen := zf_frozen z1, zf_retained := zf_retained z1\<rparr> \<and> spare z1 = spare z"

lemma handed_refl [simp]: "handed z z"
  by (simp add: handed_def)

lemma handed_keeps:
  assumes "handed z z1"
  shows "zf_ok held z1 = zf_ok held z" "zf_disk z1 = zf_disk z" "zf_db z1 = zf_db z" "acct z1 = acct z" "lists_ok z1 = lists_ok z"
    "live z1 = live z" "zf_savepoint z1 = zf_savepoint z" "zf_pending_free z1 = zf_pending_free z" "zf_free_chain z1 = zf_free_chain z"
    "zf_active_slot z1 = zf_active_slot z" "zf_writable z1 = zf_writable z" "zf_defer_reclaim z1 = zf_defer_reclaim z"
proof -
  obtain f g r where z1: "z1 = z\<lparr>zf_free := f, zf_frozen := g, zf_retained := r\<rparr>" using assms by (auto simp: handed_def)
  have s: "spare z1 = spare z" using assms by (simp add: handed_def)
  have "block_at z1 = block_at z" by (simp add: z1 block_at_image)
  then show "zf_ok held z1 = zf_ok held z" by (simp add: z1 zf_ok_def memo_pins_def)
  show a: "acct z1 = acct z" using s by (simp add: acct_def) (simp add: z1)
  show d: "zf_db z1 = zf_db z" by (simp add: z1)
  show "lists_ok z1 = lists_ok z" "live z1 = live z" using a d by (simp_all add: lists_ok_def live_def)
  show "zf_disk z1 = zf_disk z" "zf_savepoint z1 = zf_savepoint z" "zf_pending_free z1 = zf_pending_free z"
    "zf_free_chain z1 = zf_free_chain z" "zf_active_slot z1 = zf_active_slot z" "zf_writable z1 = zf_writable z"
    "zf_defer_reclaim z1 = zf_defer_reclaim z"
    by (simp_all add: z1)
qed

lemma mset_concat_split:
  "mset (concat (map snd (filter P xs))) + mset (concat (map snd (filter (\<lambda>x. \<not> P x) xs))) = mset (concat (map snd xs))"
  by (induction xs) (auto simp: ac_simps)

lemma release_retained_handed: "handed z (snd (release_retained floor z))"
proof -
  let ?P = "\<lambda>(epoch, blocks :: u64 list). epoch < floor"
  let ?ready = "concat (map snd (filter ?P (zf_retained z)))"
  let ?z = "z\<lparr>zf_retained := filter (\<lambda>(epoch, _). \<not> epoch < floor) (zf_retained z)\<rparr>"
  have np: "(\<lambda>(epoch, blocks :: u64 list). \<not> epoch < floor) = (\<lambda>x. \<not> ?P x)" by auto
  have "spare ?z + mset ?ready = spare z"
    using mset_concat_split [of ?P "zf_retained z"] by (simp add: spare_def np ac_simps)
  then have "spare (give_back ?ready ?z) = spare z" using give_back_acct by simp
  moreover have "snd (release_retained floor z) = give_back ?ready ?z" by (simp add: release_retained_def Let_def)
  moreover have "give_back ?ready ?z = z\<lparr>zf_free := zf_free (give_back ?ready ?z), zf_frozen := zf_frozen (give_back ?ready ?z),
      zf_retained := zf_retained (give_back ?ready ?z)\<rparr>"
    by (rule zfile.equality) (simp_all add: give_back_def split: option.split)
  ultimately show ?thesis by (simp add: handed_def)
qed

lemma reclaim_handed: "handed z (reclaim z)"
  using release_retained_handed by (simp add: reclaim_def)

subsection \<open>The stages of a checkpoint\<close>

definition disk_ok :: "zfile \<Rightarrow> bool" where
  "disk_ok z \<longleftrightarrow> zf_writable z \<and> di_writable (zf_disk z) \<and> BLOCK_SIZE \<le> length (di_image (zf_disk z)) \<and> zf_active_slot z < 2"

text \<open>A write in the header region is no write to a block.\<close>

lemma region_write:
  assumes "off + length bytes \<le> BLOCK_SIZE" "BLOCK_SIZE \<le> length img"
  shows "image_block (put_bytes img off bytes) = image_block img" "length (put_bytes img off bytes) = length img"
proof -
  show l: "length (put_bytes img off bytes) = length img" using assms by simp
  have "window (put_bytes img off bytes) (unat p * BLOCK_SIZE) BLOCK_SIZE = window img (unat p * BLOCK_SIZE) BLOCK_SIZE"
    if p: "p \<noteq> NULL_BLOCK" "unat p * BLOCK_SIZE + BLOCK_SIZE \<le> length img" for p :: u64
  proof (rule window_put_other [OF p(2)])
    have "1 * BLOCK_SIZE \<le> unat p * BLOCK_SIZE"
      using p(1) by (intro mult_le_mono1) (simp add: NULL_BLOCK_def Suc_le_eq unat_gt_0)
    then show "unat p * BLOCK_SIZE + BLOCK_SIZE \<le> off \<or> off + length bytes \<le> unat p * BLOCK_SIZE" using assms(1) by linarith
  qed
  then show "image_block (put_bytes img off bytes) = image_block img" using l by (simp add: image_block_def fun_eq_iff)
qed

lemma zf_ok_cong:
  assumes "zf_cache z1 = zf_cache z" "zf_pin_memo z1 = zf_pin_memo z" "zf_pools z1 = zf_pools z" "block_at z1 = block_at z"
  shows "zf_ok held z1 = zf_ok held z"
  using assms by (simp add: zf_ok_def memo_pins_def)

text \<open>What a savepoint is for, without the notes on what has reached the file.\<close>

definition sp_kept :: "savepoint \<Rightarrow> u64 set \<times> db_header" where
  "sp_kept s = (sp_reusable s, sp_db s)"

lemma sp_kept_simps [simp]: "sp_kept (s\<lparr>sp_marked := b\<rparr>) = sp_kept s" "sp_kept (s\<lparr>sp_published := b\<rparr>) = sp_kept s"
  by (simp_all add: sp_kept_def)

lemma keep_savepoint_ok:
  assumes "zf_ok held z" "disk_ok z"
  shows "\<exists>z1 d sp evs. keep_savepoint crc z = Some (Inr (), z1) \<and> z1 = z\<lparr>zf_disk := d, zf_savepoint := sp\<rparr> \<and>
    map_option sp_kept sp = map_option sp_kept (zf_savepoint z) \<and> zf_ok held z1 \<and> disk_ok z1 \<and>
    logged (staged {}) z z1 evs \<and> block_at z1 = block_at z"
proof (cases "marker_due z")
  case False
  then have "keep_savepoint crc z = Some (Inr (), z)" by (simp add: keep_savepoint_def io_return_def)
  then show ?thesis using assms
    by (intro exI [of _ z] exI [of _ "zf_disk z"] exI [of _ "zf_savepoint z"] exI [of _ "[]"]) (simp add: logged_refl)
next
  case True
  then obtain s where s: "zf_savepoint z = Some s" by (auto simp: marker_due_def split: option.splits)
  let ?m = "marker_encode crc (sp_db s) (sp_log_floor s)"
  have len: "length ?m = DB_HEADER_SIZE" by (simp add: marker_encode_def Let_def TXN_FLOOR_def DB_HEADER_SIZE_def)
  define d where "d = (zf_disk z)\<lparr>di_log := di_log (zf_disk z) @ [WriteEvent TXN_SLOT ?m, SyncEvent],
     di_image := put_bytes (di_image (zf_disk z)) TXN_SLOT ?m\<rparr>"
  define z1 where "z1 = z\<lparr>zf_disk := d, zf_savepoint := Some (s\<lparr>sp_marked := True\<rparr>)\<rparr>"
  have "keep_savepoint crc z = Some (Inr (), z1)"
    using True s assms(2) by (simp add: keep_savepoint_def write_disk_def disk_write_ok disk_ok_def sync_disk_def disk_sync_def
        z1_def d_def io_bind_def io_state_def)
  moreover have r: "image_block (di_image d) = image_block (di_image (zf_disk z))" "length (di_image d) = length (di_image (zf_disk z))"
    using region_write [of TXN_SLOT ?m "di_image (zf_disk z)"] assms(2) len by (simp_all add: d_def disk_ok_def layout)
  then have b: "block_at z1 = block_at z" by (simp add: block_at_image z1_def)
  moreover have "zf_ok held z1" using zf_ok_cong [of z1 z, OF _ _ _ b] assms(1) by (simp add: z1_def)
  moreover have "disk_ok z1" using assms(2) r(2) by (simp add: disk_ok_def z1_def d_def)
  moreover have "logged (staged {}) z z1 [WriteEvent TXN_SLOT ?m, SyncEvent]"
    using len by (simp add: logged_def staged_def z1_def d_def replay_def apply_event_def)
  moreover have "z1 = z\<lparr>zf_disk := d, zf_savepoint := Some (s\<lparr>sp_marked := True\<rparr>)\<rparr>" by (simp add: z1_def)
  ultimately show ?thesis using s
    by (intro exI [of _ z1] exI [of _ d] exI [of _ "Some (s\<lparr>sp_marked := True\<rparr>)"]
        exI [of _ "[WriteEvent TXN_SLOT ?m, SyncEvent]"]) simp
qed

text \<open>Allocation takes blocks from the list, then from past the end of the file.\<close>

lemma alloc_blocks_acct:
  assumes "alloc_blocks n z = Some (ptrs, z1)" "unat (dh_block_count (zf_db z)) + n < 2 ^ 64"
  shows "\<exists>new. mset ptrs + mset (zf_free z1) = mset (zf_free z) + mset new \<and> distinct new \<and>
    set new = {p. dh_block_count (zf_db z) < p \<and> p \<le> dh_block_count (zf_db z1)} \<and>
    dh_block_count (zf_db z) \<le> dh_block_count (zf_db z1) \<and> (length ptrs \<le> length (zf_free z) \<longrightarrow> new = [])"
  using assms
proof (induction n arbitrary: z ptrs)
  case 0 then show ?case by (intro exI [of _ "[]"]) auto
next
  case (Suc n)
  obtain p za qs where a: "allocate_block z = Some (p, za)" "alloc_blocks n za = Some (qs, z1)" "ptrs = p # qs"
    using Suc.prems(1) by (auto split: option.splits Option.bind_splits)
  let ?n = "dh_block_count (zf_db z)"
  show ?case
  proof (cases "zf_free z = []")
    case False
    then have za: "p = last (zf_free z)" "zf_free za = butlast (zf_free z)" "dh_block_count (zf_db za) = ?n"
      using a(1) by (auto simp: allocate_block_def Let_def)
    then have m: "mset (zf_free z) = {#p#} + mset (zf_free za)" using False by (metis add_mset_add_single append_butlast_last_id mset_append mset_single_iff_right mset.simps add.commute)
    obtain new where new: "mset qs + mset (zf_free z1) = mset (zf_free za) + mset new" "distinct new"
       "set new = {p. ?n < p \<and> p \<le> dh_block_count (zf_db z1)}" "?n \<le> dh_block_count (zf_db z1)"
       "length qs \<le> length (zf_free za) \<longrightarrow> new = []"
      using Suc.IH [OF a(2)] Suc.prems(2) za(3) by auto
    have "mset ptrs + mset (zf_free z1) = mset (zf_free z) + mset new" using new(1) a(3) by (simp add: m)
    moreover have "length ptrs \<le> length (zf_free z) \<Longrightarrow> length qs \<le> length (zf_free za)" using a(3) za(2) False by simp
    ultimately show ?thesis using new by blast
  next
    case True
    have u: "unat (?n + 1) = unat ?n + 1" using Suc.prems(2) by (simp add: unat_plus_if_size word_size)
    have za: "p = ?n + 1" "zf_free za = []" "dh_block_count (zf_db za) = ?n + 1"
      using a(1) True by (auto simp: allocate_block_def Let_def split: if_splits)
    obtain new where new: "mset qs + mset (zf_free z1) = mset (zf_free za) + mset new" "distinct new"
       "set new = {p. ?n + 1 < p \<and> p \<le> dh_block_count (zf_db z1)}" "?n + 1 \<le> dh_block_count (zf_db z1)"
      using Suc.IH [OF a(2)] Suc.prems(2) za(3) u by auto
    have "mset ptrs + mset (zf_free z1) = mset (zf_free z) + mset (p # new)" using new(1) a(3) za(2) True by simp
    moreover have "distinct (p # new)" using new(2,3) za(1) by simp
    moreover have "?n < q \<longleftrightarrow> q = ?n + 1 \<or> ?n + 1 < q" for q
      using u unfolding word_less_nat_alt word_unat_eq_iff by linarith
    then have "set (p # new) = {q. ?n < q \<and> q \<le> dh_block_count (zf_db z1)}" using new(3,4) za(1) by auto
    moreover have "?n \<le> dh_block_count (zf_db z1)" using new(4) u by (simp add: word_le_nat_alt)
    moreover have "\<not> length ptrs \<le> length (zf_free z)" using a(3) True by simp
    ultimately show ?thesis by blast
  qed
qed

lemma reserve_count_enough: "c \<le> n \<Longrightarrow> (n - reserve_count n c) * 8 \<le> reserve_count n c * CHAIN_CAPACITY \<and> c \<le> reserve_count n c"
proof (induction n c rule: reserve_count.induct)
  case (1 n c)
  show ?case
  proof (cases "(n - c) * 8 > c * CHAIN_CAPACITY")
    case True
    then have "c + 1 \<le> n" by (cases "n \<le> c") auto
    then show ?thesis using 1(1) [OF True] by (simp add: reserve_count.simps [of n c] True)
  qed (simp add: reserve_count.simps [of n c])
qed

lemma chunks_within: "0 < n \<Longrightarrow> length xs \<le> k * n \<Longrightarrow> length (chunks n xs) \<le> k"
proof (induction k arbitrary: xs)
  case (Suc k)
  then have "length (chunks n (drop n xs)) \<le> k" by (intro Suc.IH) simp_all
  then show ?case by (subst chunks.simps) simp
qed simp

lemma listed_bytes: "length (concat (map u64_le ptrs)) = 8 * length ptrs"
  by (simp add: length_concat o_def sum_list_triv)

lemma wrote_disk_ok: "wrote z z1 \<Longrightarrow> disk_ok z \<Longrightarrow> di_writable (zf_disk z1) \<Longrightarrow> logged P z z1 evs \<Longrightarrow> list_all grows evs \<Longrightarrow> disk_ok z1"
proof -
  assume w: "wrote z z1" and d: "disk_ok z" and l: "di_writable (zf_disk z1)" "logged P z z1 evs" "list_all grows evs"
  have "length (di_image (zf_disk z)) \<le> length (di_image (zf_disk z1))"
    using torn_replay [OF l(3)] l(2) by (simp add: logged_def torn_def)
  moreover have "zf_active_slot z1 = zf_active_slot z" "zf_writable z1 = zf_writable z"
    using w unfolding wrote_def by (cases z; cases z1; simp)+
  ultimately show ?thesis using d l(1) by (simp add: disk_ok_def)
qed

lemma grew_disk_ok: "grew z z1 \<Longrightarrow> disk_ok z1 = disk_ok z"
  unfolding grew_def by (erule exE) (erule ssubst, simp add: disk_ok_def)

text \<open>What writing the list changes besides the disk, the caches and the root.\<close>

definition listed_step :: "zfile \<Rightarrow> zfile \<Rightarrow> bool" where
  "listed_step z z1 \<longleftrightarrow> (\<exists>d c po m u r n. z1 = z\<lparr>zf_disk := d, zf_cache := c, zf_pools := po, zf_pin_memo := m,
     zf_free := [], zf_unpublished := u, zf_db := (zf_db z)\<lparr>dh_free_list_root := r, dh_block_count := n\<rparr>\<rparr>)"

lemma listed_stepI:
  assumes "grew z za" "wrote za z1"
  shows "listed_step z (z1\<lparr>zf_free := [], zf_db := (zf_db z1)\<lparr>dh_free_list_root := r\<rparr>\<rparr>)"
proof -
  obtain f u n where za: "za = z\<lparr>zf_free := f, zf_unpublished := u, zf_db := (zf_db z)\<lparr>dh_block_count := n\<rparr>\<rparr>"
    using assms(1) by (auto simp: grew_def)
  obtain d c po m where z1: "z1 = za\<lparr>zf_disk := d, zf_cache := c, zf_pools := po, zf_pin_memo := m\<rparr>"
    using assms(2) by (auto simp: wrote_def)
  show ?thesis unfolding listed_step_def
    by (rule exI [of _ d], rule exI [of _ c], rule exI [of _ po], rule exI [of _ m], rule exI [of _ u], rule exI [of _ r],
        rule exI [of _ n]) (simp add: z1 za)
qed

text \<open>The list on disk: a chain from the root, or no root and no free block.\<close>

definition list_on_disk :: "(u8 list \<Rightarrow> u32) \<Rightarrow> zfile \<Rightarrow> (u64 \<times> u8 list) list \<Rightarrow> u64 list \<Rightarrow> bool" where
  "list_on_disk crc z links listed \<longleftrightarrow>
     chain_at crc z links \<and> distinct (map fst links) \<and> dh_free_list_root (zf_db z) = chain_head links \<and>
     concat (map snd links) = concat (map u64_le listed) \<and> (links = [] \<longleftrightarrow> listed = [])"

lemma write_free_list_ok:
  assumes ok: "zf_ok held z" "disk_ok z" and all: "distinct all" "list_all (in_file (dh_block_count (zf_db z))) all"
    and safe: "safe \<le> length all"
    and room: "(unat (dh_block_count (zf_db z)) + 8 * length all + 1) * BLOCK_SIZE < 2 ^ 64"
  shows "\<exists>fb z1 evs links listed new. write_free_list crc all safe (z\<lparr>zf_free := []\<rparr>) = Some (Inr fb, z1) \<and> listed_step z z1 \<and>
    zf_ok held z1 \<and> disk_ok z1 \<and> in_reach z1 \<and>
    logged (staged (set (take safe all) \<union> {p. dh_block_count (zf_db z) < p})) z z1 evs \<and>
    list_on_disk crc z1 links listed \<and> distinct listed \<and> set listed \<subseteq> set all \<and> set listed \<subseteq> set fb \<and>
    mset fb + mset (map fst links) = mset all + mset new \<and> distinct new \<and>
    set new = {p. dh_block_count (zf_db z) < p \<and> p \<le> dh_block_count (zf_db z1)} \<and>
    dh_block_count (zf_db z) \<le> dh_block_count (zf_db z1) \<and>
    (reserve_count (length all) 0 \<le> safe \<and> reserve_count (length all) 0 < length all \<longrightarrow> new = [])"
proof (cases "all = []")
  case True
  define z1 where "z1 = z\<lparr>zf_free := [], zf_db := (zf_db z)\<lparr>dh_free_list_root := NULL_BLOCK\<rparr>\<rparr>"
  have "listed_step z z1"
    using listed_stepI [OF grew_refl wrote_refl, of z NULL_BLOCK] by (simp add: z1_def)
  moreover have b: "block_at z1 = block_at z" by (simp add: z1_def block_at_image)
  then have "zf_ok held z1" using zf_ok_cong [of z1 z] ok(1) by (simp add: z1_def)
  moreover have "disk_ok z1" using ok(2) by (simp add: z1_def disk_ok_def)
  moreover have "in_reach z1" using room by (simp add: z1_def in_reach_def True)
  moreover have "list_on_disk crc z1 [] []" by (simp add: list_on_disk_def z1_def)
  moreover have "logged P z z1 []" for P by (rule logged_refl) (simp add: z1_def)
  moreover have "write_free_list crc all safe (z\<lparr>zf_free := []\<rparr>) = Some (Inr [], z1)"
    by (simp add: write_free_list_def True z1_def)
  moreover have "dh_block_count (zf_db z1) = dh_block_count (zf_db z)" by (simp add: z1_def)
  ultimately show ?thesis
    using True by (intro exI [of _ "[]"] exI [of _ z1]) auto
next
  case ne: False
  define c where "c = reserve_count (length all) 0"
  define k where "k = (if c \<le> safe \<and> length all > c then c else 0)"
  define listed where "listed = drop k all"
  let ?pay = "concat (map u64_le listed)" and ?n = "dh_block_count (zf_db z)" and ?z = "z\<lparr>zf_free := take k all\<rparr>"
  let ?parts = "chunks CHAIN_CAPACITY ?pay"
  have k: "k \<le> safe" "k < length all" using ne by (auto simp: k_def)
  have lne: "listed \<noteq> []" using k by (simp add: listed_def)
  have pne: "?pay \<noteq> []"
  proof -
    have "length ?pay \<noteq> 0" using lne by (simp add: listed_bytes)
    then show ?thesis by (metis list.size(3))
  qed
  have "length ?parts \<le> length ?pay"
    using capacity_pos by (intro chunks_within) (cases CHAIN_CAPACITY; simp)+
  also have "\<dots> \<le> 8 * length all" by (simp add: listed_bytes listed_def)
  finally have np: "length ?parts \<le> 8 * length all" .
  have "(unat ?n + length ?parts + 1) * BLOCK_SIZE \<le> (unat ?n + 8 * length all + 1) * BLOCK_SIZE"
    using np by (intro mult_le_mono1) simp
  moreover have dz: "zf_db ?z = zf_db z" by simp
  ultimately have small: "(unat (dh_block_count (zf_db ?z)) + length ?parts + 1) * BLOCK_SIZE < 2 ^ 64"
    unfolding dz using room by linarith
  have b: "block_at ?z = block_at z" by (simp add: block_at_image)
  have okz: "zf_ok held ?z" "zf_writable ?z" "di_writable (zf_disk ?z)"
    using zf_ok_cong [of ?z z, OF _ _ _ b] ok by (simp_all add: disk_ok_def)
  have f: "free_ok ?z" using all by (auto simp: free_ok_def in_file_def list_all_iff distinct_take dest: in_set_takeD)
  obtain ptrs za z1 evs where w: "write_chain crc ?pay ?z = Some (Inr (hd ptrs), z1)"
      "alloc_blocks (length ?parts) ?z = Some (ptrs, za)" "grew ?z za" "wrote za z1" "zf_ok held z1" "di_writable (zf_disk z1)"
      "in_reach z1" "length ptrs = length ?parts" "distinct ptrs" "chain_at crc z1 (zip ptrs ?parts)"
      "\<forall>p \<in> set ptrs. p \<in> set (zf_free ?z) \<or> p > dh_block_count (zf_db ?z)" "logged (block_write (set ptrs)) ?z z1 evs"
    using write_chain_ok [OF okz f pne small] by blast
  define links where "links = zip ptrs ?parts"
  have lk: "map fst links = ptrs" "concat (map snd links) = ?pay" using w(8) concat_chunks [OF capacity_pos] by (simp_all add: links_def)
  have hd: "chain_head links = hd ptrs"
    unfolding links_def by (rule chain_head_zip [OF w(8) chunks_nonempty [OF pne capacity_pos]])
  have lkne: "links \<noteq> []" using chunks_nonempty [OF pne capacity_pos] w(8) by (auto simp: links_def)
  define z2 where "z2 = z1\<lparr>zf_free := [], zf_db := (zf_db z1)\<lparr>dh_free_list_root := hd ptrs\<rparr>\<rparr>"
  have run: "write_free_list crc all safe (z\<lparr>zf_free := []\<rparr>) = Some (Inr (listed @ zf_free z1), z2)"
    using ne w(1) by (simp add: write_free_list_def c_def [symmetric] k_def [symmetric] listed_def [symmetric] Let_def z2_def)
  have g: "grew z (za\<lparr>zf_free := zf_free za\<rparr>)"
    using w(3) unfolding grew_def by auto
  have step: "listed_step z z2" unfolding z2_def by (rule listed_stepI [of z za z1]) (use g w(4) in simp_all)
  have b2: "block_at z2 = block_at z1" by (simp add: z2_def block_at_image)
  have ok2: "zf_ok held z2" using zf_ok_cong [of z2 z1, OF _ _ _ b2] w(5) by (simp add: z2_def)
  have zaz: "zf_disk za = zf_disk z" using grew_keeps [OF w(3)] by simp
  have lg: "logged (block_write (set ptrs)) za z1 evs" "logged (block_write (set ptrs)) z z2 evs"
    using w(12) zaz by (simp_all add: logged_def z2_def)
  have "disk_ok za" using grew_disk_ok [OF w(3)] ok(2) by (simp add: disk_ok_def)
  moreover have "list_all grows evs" using lg(1) block_write_grows by (auto simp: logged_def list_all_iff)
  ultimately have "disk_ok z1" using wrote_disk_ok [OF w(4) _ w(6) lg(1)] by blast
  then have dk: "disk_ok z2" by (simp add: disk_ok_def z2_def)
  have zn: "dh_block_count (zf_db z2) = dh_block_count (zf_db za)" "zf_free z1 = zf_free za"
    using wrote_keeps [OF w(4)] by (simp_all add: z2_def)
  have bound: "unat (dh_block_count (zf_db ?z)) + length ?parts < 2 ^ 64" using small by (simp add: BLOCK_SIZE_def)
  obtain new where new: "mset ptrs + mset (zf_free za) = mset (take k all) + mset new" "distinct new"
      "set new = {p. ?n < p \<and> p \<le> dh_block_count (zf_db za)}" "?n \<le> dh_block_count (zf_db za)"
      "length ptrs \<le> k \<longrightarrow> new = []"
    using alloc_blocks_acct [OF w(2) bound] k(2) by (auto simp: min_def)
  have acc: "mset (listed @ zf_free z1) + mset (map fst links) = mset all + mset new"
  proof -
    have "mset all = mset (take k all) + mset listed" unfolding listed_def by (metis append_take_drop_id mset_append)
    then show ?thesis using new(1) lk(1) zn(2) by (simp add: ac_simps)
  qed
  have "new = []" if "c \<le> safe" "c < length all"
  proof -
    have "k = c" using that by (simp add: k_def)
    moreover have "(length all - c) * 8 \<le> c * CHAIN_CAPACITY" using reserve_count_enough [of 0 "length all"] by (simp add: c_def)
    ultimately have "length ?pay \<le> k * CHAIN_CAPACITY" by (simp add: listed_bytes listed_def)
    then have "length ?parts \<le> k" by (rule chunks_within [OF capacity_pos])
    then show ?thesis using new(5) w(8) by simp
  qed
  moreover have "list_on_disk crc z2 links listed"
  proof -
    have "chain_at crc z2 links"
      by (rule chain_at_mono [OF w(10) [folded links_def]]) (simp_all add: b2, simp add: z2_def)
    then show ?thesis using lk w(9) hd lkne lne by (simp add: list_on_disk_def z2_def)
  qed
  moreover have "logged (staged (set (take safe all) \<union> {p. ?n < p})) z z2 evs"
  proof (rule logged_mono [OF lg(2)])
    fix ev assume "block_write (set ptrs) ev"
    moreover have "set (take k all) \<subseteq> set (take safe all)" using k(1) by (rule set_take_subset_set_take)
    then have "set ptrs \<subseteq> set (take safe all) \<union> {p. ?n < p}" using w(11) by auto
    ultimately show "staged (set (take safe all) \<union> {p. ?n < p}) ev" by (simp add: staged_def block_write_mono)
  qed
  moreover have "distinct listed" "set listed \<subseteq> set all" "set listed \<subseteq> set (listed @ zf_free z1)"
    using all(1) by (auto simp: listed_def dest: in_set_dropD)
  moreover have "in_reach z2" using w(7) by (simp add: in_reach_def z2_def)
  ultimately show ?thesis
    using run step ok2 dk acc new(2-4) unfolding zn(1) [symmetric] c_def by blast
qed

definition slot_at :: "nat \<Rightarrow> nat" where
  "slot_at i = FILE_HEADER_SIZE + i * DB_HEADER_SIZE"

lemma slot_in_region: "i < 2 \<Longrightarrow> slot_at i + DB_HEADER_SIZE \<le> TXN_SLOT \<and> slot_at i + DB_HEADER_SIZE \<le> BLOCK_SIZE"
  by (auto simp: slot_at_def layout)

lemma flip_header_ok:
  assumes ok: "zf_ok held z" "disk_ok z" and e: "dh_epoch (zf_db z) + 1 \<noteq> 0"
  defines "h \<equiv> (zf_db z)\<lparr>dh_epoch := dh_epoch (zf_db z) + 1\<rparr>" and "i \<equiv> 1 - zf_active_slot z"
  shows "\<exists>d. flip_header crc z = Some (Inr (), z\<lparr>zf_disk := d, zf_db := h, zf_active_slot := i\<rparr>) \<and>
    di_log d = di_log (zf_disk z) @ [SyncEvent, WriteEvent (slot_at i) (db_header_encode crc h), SyncEvent] \<and>
    di_image d = put_bytes (di_image (zf_disk z)) (slot_at i) (db_header_encode crc h) \<and> di_writable d \<and>
    image_block (di_image d) = image_block (di_image (zf_disk z)) \<and>
    zf_ok held (z\<lparr>zf_disk := d, zf_db := h, zf_active_slot := i\<rparr>) \<and> disk_ok (z\<lparr>zf_disk := d, zf_db := h, zf_active_slot := i\<rparr>)"
proof -
  let ?b = "db_header_encode crc h"
  define d where "d = (zf_disk z)\<lparr>di_log := di_log (zf_disk z) @ [SyncEvent, WriteEvent (slot_at i) ?b, SyncEvent],
     di_image := put_bytes (di_image (zf_disk z)) (slot_at i) ?b\<rparr>"
  let ?z = "z\<lparr>zf_disk := d, zf_db := h, zf_active_slot := i\<rparr>"
  have w: "di_writable (zf_disk z)" using ok(2) by (simp add: disk_ok_def)
  have "flip_header crc z = Some (Inr (), ?z)"
    using w e by (simp add: flip_header_def sync_disk_def disk_sync_def write_disk_def disk_write_ok d_def h_def i_def slot_at_def
        io_bind_def io_state_def bump_epoch_def Let_def)
  moreover have i: "i < 2" by (simp add: i_def)
  have r: "image_block (di_image d) = image_block (di_image (zf_disk z))" "length (di_image d) = length (di_image (zf_disk z))"
    using region_write [of "slot_at i" ?b "di_image (zf_disk z)"] slot_in_region [OF i] ok(2)
    by (simp_all add: d_def disk_ok_def)
  have "block_at ?z = block_at z" by (simp add: block_at_image r(1))
  then have "zf_ok held ?z" using zf_ok_cong [of ?z z] ok(1) by simp
  moreover have "disk_ok ?z" using ok(2) r(2) i by (simp add: disk_ok_def) (simp add: d_def)
  ultimately show ?thesis using r(1) w by (intro exI [of _ d]) (simp add: d_def)
qed

text \<open>Inside a transaction, allocation draws only on what was free before it.\<close>

definition tx_ok :: "zfile \<Rightarrow> bool" where
  "tx_ok z \<longleftrightarrow> (\<forall>s. zf_savepoint z = Some s \<longrightarrow> set (zf_free z) \<subseteq> sp_reusable s)"

lemma give_back_tx: "tx_ok z \<Longrightarrow> tx_ok (give_back ready z)"
  by (auto simp: tx_ok_def give_back_def split: option.splits)

lemma release_retained_tx: "tx_ok z \<Longrightarrow> tx_ok (snd (release_retained floor z))"
  unfolding release_retained_def Let_def snd_conv by (rule give_back_tx) (simp add: tx_ok_def split: option.splits)

lemma reclaim_tx: "tx_ok z \<Longrightarrow> tx_ok (reclaim z)"
  by (simp add: reclaim_def release_retained_tx)

definition settled :: "zfile \<Rightarrow> zfile \<Rightarrow> bool" where
  "settled z z1 \<longleftrightarrow> (\<exists>f g s r u. z1 = z\<lparr>zf_free := f, zf_frozen := g, zf_savepoint := s, zf_retained := r, zf_unpublished := u\<rparr> \<and>
     map_option sp_kept s = map_option sp_kept (zf_savepoint z))"

lemma settled_handed:
  assumes "settled z z2" "handed z2 z3"
  shows "settled z (z3\<lparr>zf_unpublished := 0\<rparr>)"
proof -
  obtain f g s r u where z2: "z2 = z\<lparr>zf_free := f, zf_frozen := g, zf_savepoint := s, zf_retained := r, zf_unpublished := u\<rparr>"
      "map_option sp_kept s = map_option sp_kept (zf_savepoint z)"
    using assms(1) unfolding settled_def by blast
  obtain f1 g1 r1 where z3: "z3 = z2\<lparr>zf_free := f1, zf_frozen := g1, zf_retained := r1\<rparr>"
    using assms(2) unfolding handed_def by blast
  show ?thesis unfolding settled_def
    by (rule exI [of _ f1], rule exI [of _ g1], rule exI [of _ s], rule exI [of _ r1], rule exI [of _ 0])
      (simp add: z3 z2)
qed

lemma settle_free_ok:
  assumes "zf_free z = []" "zf_frozen z = []"
  shows "settled z (settle_free g fb z) \<and> spare (settle_free g fb z) = spare z + mset fb \<and> tx_ok (settle_free g fb z)"
proof -
  let ?held = "filter (\<lambda>p. p \<in> ga_reached g) fb" and ?rest = "filter (\<lambda>p. p \<notin> ga_reached g) fb"
  define z1 where "z1 = (if ?held = [] then z else z\<lparr>zf_retained := zf_retained z @ [(ga_superseded g, ?held)]\<rparr>)"
  define z2 where "z2 = (case zf_savepoint z1 of
      Some saved \<Rightarrow> (mark_published z1)\<lparr>zf_free := filter (\<lambda>p. p \<in> sp_reusable saved) ?rest,
                       zf_frozen := filter (\<lambda>p. p \<notin> sp_reusable saved) ?rest\<rparr>
    | None \<Rightarrow> z1\<lparr>zf_free := ?rest\<rparr>)"
  have run: "settle_free g fb z = (reclaim z2)\<lparr>zf_unpublished := 0\<rparr>"
    unfolding settle_free_def Let_def z2_def z1_def by (rule refl)
  have z1: "spare z1 = spare z + mset ?held" "zf_free z1 = []" "zf_frozen z1 = []" "zf_savepoint z1 = zf_savepoint z"
    using assms by (simp_all add: z1_def spare_def ac_simps filter_empty_conv)
  have "spare z2 = spare z1 + mset ?rest"
  proof (cases "zf_savepoint z1")
    case None then show ?thesis using z1 by (simp add: z2_def spare_def ac_simps)
  next
    case (Some s)
    have "mset (filter (\<lambda>p. p \<in> sp_reusable s) ?rest) + mset (filter (\<lambda>p. p \<notin> sp_reusable s) ?rest) = mset ?rest"
      by (rule mset_split)
    then show ?thesis using Some z1 by (simp add: z2_def spare_def mark_published_def ac_simps)
  qed
  then have sp: "spare z2 = spare z + mset fb"
    using z1(1) mset_split [of "\<lambda>p. p \<in> ga_reached g" fb] by (simp add: ac_simps)
  have "spare (reclaim z2) = spare z2" using reclaim_handed [of z2] by (simp add: handed_def)
  moreover have "settled z z2"
    unfolding settled_def z2_def z1_def
    by (cases z) (auto simp: mark_published_def option.map_comp o_def split: option.split)
  moreover have "tx_ok z2" by (auto simp: tx_ok_def z2_def mark_published_def split: option.splits)
  ultimately show ?thesis
    using sp reclaim_tx [of z2] settled_handed [OF _ reclaim_handed] unfolding run by (simp add: spare_def tx_ok_def)
qed

subsection \<open>What a checkpoint does\<close>

text \<open>
  The writes of a checkpoint: \<open>pre\<close>, a sync, the header into the slot not in use, a sync; and
  the header says what the handle holds.
\<close>

definition publishes :: "(u8 list \<Rightarrow> u32) \<Rightarrow> zfile \<Rightarrow> zfile \<Rightarrow> io_event list \<Rightarrow> bool" where
  "publishes crc z z1 pre \<longleftrightarrow>
     (let hdr = db_header_encode crc (zf_db z1); off = slot_at (zf_active_slot z1)
      in di_log (zf_disk z1) = di_log (zf_disk z) @ pre @ [SyncEvent, WriteEvent off hdr, SyncEvent] \<and>
         di_image (zf_disk z1) = put_bytes (replay pre (di_image (zf_disk z))) off hdr \<and>
         list_all (staged (set (zf_free z) \<union> {p. dh_block_count (zf_db z) < p})) pre \<and>
         zf_active_slot z1 = 1 - zf_active_slot z \<and>
         (\<exists>r n. dh_block_count (zf_db z) \<le> n \<and> zf_db z1 = (zf_db z)\<lparr>dh_epoch := dh_epoch (zf_db z) + 1,
            dh_free_list_root := r, dh_block_count := n\<rparr>))"

definition roomy :: "zfile \<Rightarrow> bool" where
  "roomy z \<longleftrightarrow> (unat (dh_block_count (zf_db z)) + 8 * size (acct z) + 1) * BLOCK_SIZE < 2 ^ 64 \<and> dh_epoch (zf_db z) + 1 \<noteq> 0"

lemma checkpoint_ok:
  assumes ok: "zf_ok held z" "disk_ok z" and lists: "lists_ok z" and room: "roomy z"
  shows "\<exists>z1 pre links listed new. checkpoint crc z = Some (Inr (), z1) \<and> zf_ok held z1 \<and> disk_ok z1 \<and> in_reach z1 \<and>
    publishes crc z z1 pre \<and> acct z1 = acct z + mset new \<and> distinct new \<and>
    set new = {p. dh_block_count (zf_db z) < p \<and> p \<le> dh_block_count (zf_db z1)} \<and> zf_pending_free z1 = [] \<and>
    zf_free_chain z1 = map fst links \<and> list_on_disk crc z1 links listed \<and> distinct listed \<and>
    list_all (in_file (dh_block_count (zf_db z1))) listed \<and> set listed \<subseteq> set_mset (spare z1) \<and>
    map_option sp_kept (zf_savepoint z1) = map_option sp_kept (zf_savepoint z) \<and> tx_ok z1 \<and>
    zf_interrupted z1 = zf_interrupted z"
proof -
  obtain z1 d sp evs1 where k: "keep_savepoint crc z = Some (Inr (), z1)" "z1 = z\<lparr>zf_disk := d, zf_savepoint := sp\<rparr>"
      "map_option sp_kept sp = map_option sp_kept (zf_savepoint z)" "zf_ok held z1" "disk_ok z1"
      "logged (staged {}) z z1 evs1" "block_at z1 = block_at z"
    using keep_savepoint_ok [OF ok] by blast
  define all where "all = zf_free z @ zf_frozen z @ zf_pending_free z @ zf_free_chain z"
  define g where "g = fst (gather_free z1)"
  define z2 where "z2 = z1\<lparr>zf_free := [], zf_frozen := [], zf_pending_free := [], zf_free_chain := []\<rparr>"
  have g: "gather_free z1 = (g, z2)" "ga_all g = all" "ga_safe g = length (zf_free z)"
    by (simp_all add: g_def gather_free_def z2_def k(2) all_def)
  have db2: "zf_db z2 = zf_db z" by (simp add: z2_def k(2))
  have b2: "block_at z2 = block_at z1" by (simp add: z2_def block_at_image)
  have ok2: "zf_ok held z2" using zf_ok_cong [of z2 z1, OF _ _ _ b2] k(4) by (simp add: z2_def)
  have dk2: "disk_ok z2" using k(5) by (simp add: z2_def disk_ok_def)
  have acc: "acct z = mset all + mset (concat (map snd (zf_retained z)))" by (simp add: acct_def spare_def all_def ac_simps)
  have dall: "distinct all"
  proof (rule once_distinct)
    fix p show "count (mset all) p \<le> 1"
      using lists unfolding lists_ok_def acc count_union by (meson add_leE)
  qed
  have lall: "list_all (in_file (dh_block_count (zf_db z))) all"
    using lists unfolding lists_ok_def acc by (auto simp: list_all_iff)
  have "length all \<le> size (acct z)" by (simp add: acc)
  then have "(unat (dh_block_count (zf_db z)) + 8 * length all + 1) * BLOCK_SIZE \<le> (unat (dh_block_count (zf_db z)) + 8 * size (acct z) + 1) * BLOCK_SIZE"
    by (intro mult_le_mono1) simp
  then have room2: "(unat (dh_block_count (zf_db z2)) + 8 * length all + 1) * BLOCK_SIZE < 2 ^ 64"
    using room unfolding roomy_def db2 by linarith
  have safe: "length (zf_free z) \<le> length all" "take (length (zf_free z)) all = zf_free z" by (simp_all add: all_def)
  have e2: "z2\<lparr>zf_free := []\<rparr> = z2" by (simp add: z2_def)
  obtain fb z3 evs2 links listed new where w: "write_free_list crc all (length (zf_free z)) z2 = Some (Inr fb, z3)" "listed_step z2 z3"
      "zf_ok held z3" "disk_ok z3" "in_reach z3"
      "logged (staged (set (zf_free z) \<union> {p. dh_block_count (zf_db z) < p})) z2 z3 evs2"
      "list_on_disk crc z3 links listed" "distinct listed" "set listed \<subseteq> set all"
      "mset fb + mset (map fst links) = mset all + mset new" "distinct new"
      "set new = {p. dh_block_count (zf_db z) < p \<and> p \<le> dh_block_count (zf_db z3)}" "dh_block_count (zf_db z) \<le> dh_block_count (zf_db z3)"
      "set listed \<subseteq> set fb"
    using write_free_list_ok [OF ok2 dk2 dall lall [folded db2] safe(1) room2, of crc] unfolding e2 safe(2) db2 by blast
  obtain d3 c3 po3 m3 u3 r3 n3 where z3: "z3 = z2\<lparr>zf_disk := d3, zf_cache := c3, zf_pools := po3, zf_pin_memo := m3,
     zf_free := [], zf_unpublished := u3, zf_db := (zf_db z2)\<lparr>dh_free_list_root := r3, dh_block_count := n3\<rparr>\<rparr>"
    using w(2) unfolding listed_step_def by blast
  define h where "h = (zf_db z3)\<lparr>dh_epoch := dh_epoch (zf_db z3) + 1\<rparr>"
  define i where "i = 1 - zf_active_slot z"
  have db3: "zf_db z3 = (zf_db z)\<lparr>dh_free_list_root := r3, dh_block_count := n3\<rparr>" by (simp add: z3 db2)
  have e3: "dh_epoch (zf_db z3) + 1 \<noteq> 0" using room by (simp add: db3 roomy_def)
  have i3: "1 - zf_active_slot z3 = i" by (simp add: i_def z3 z2_def k(2))
  obtain d4 where f: "flip_header crc z3 = Some (Inr (), z3\<lparr>zf_disk := d4, zf_db := h, zf_active_slot := i\<rparr>)"
      "di_log d4 = di_log (zf_disk z3) @ [SyncEvent, WriteEvent (slot_at i) (db_header_encode crc h), SyncEvent]"
      "di_image d4 = put_bytes (di_image (zf_disk z3)) (slot_at i) (db_header_encode crc h)"
      "image_block (di_image d4) = image_block (di_image (zf_disk z3))"
      "zf_ok held (z3\<lparr>zf_disk := d4, zf_db := h, zf_active_slot := i\<rparr>)" "disk_ok (z3\<lparr>zf_disk := d4, zf_db := h, zf_active_slot := i\<rparr>)"
    using flip_header_ok [OF w(3,4) e3, of crc] unfolding h_def [symmetric] i3 by blast
  define z4 where "z4 = z3\<lparr>zf_disk := d4, zf_db := h, zf_active_slot := i\<rparr>"
  have b4: "block_at z4 = block_at z3" by (simp add: z4_def block_at_image f(4))
  have c4: "chain_at crc z4 links"
    by (rule chain_at_mono [of crc z3]) (use w(7) in \<open>simp_all add: b4 list_on_disk_def\<close>, simp add: z4_def h_def)
  have reach4: "in_reach z4" using w(5) by (simp add: in_reach_def z4_def h_def)
  have root: "dh_free_list_root (zf_db z4) = chain_head links" using w(7) by (simp add: list_on_disk_def z4_def h_def)
  have fc4: "zf_free_chain z4 = []" by (simp add: z4_def z3 z2_def)
  have "\<exists>z5. (if dh_free_list_root (zf_db z4) = NULL_BLOCK then io_return (zf_free_chain z4)
      else chain_blocks crc (dh_free_list_root (zf_db z4))) z4 = Some (Inr (map fst links), z5) \<and> zf_ok held z5 \<and> quiet z4 z5"
  proof (cases links)
    case Nil
    then show ?thesis using root fc4 f(5) by (intro exI [of _ z4]) (simp add: io_return_def z4_def)
  next
    case (Cons l ls)
    then have "chain_head links \<noteq> NULL_BLOCK" using c4 by (cases l) (simp add: check_ptr_Inr)
    then show ?thesis
      using root chain_reads(2) [OF c4 _ f(5) [folded z4_def] reach4] w(7) by (simp add: list_on_disk_def)
  qed
  then obtain z5 where z5: "(if dh_free_list_root (zf_db z4) = NULL_BLOCK then io_return (zf_free_chain z4)
      else chain_blocks crc (dh_free_list_root (zf_db z4))) z4 = Some (Inr (map fst links), z5)" "zf_ok held z5" "quiet z4 z5"
    by blast
  define z6 where "z6 = z5\<lparr>zf_free_chain := map fst links\<rparr>"
  define z7 where "z7 = settle_free g fb z6"
  have run: "checkpoint crc z = Some (Inr (), z7)"
  proof -
    have "check_writable ''checkpoint'' z = Inr ()" using ok(2) by (simp add: check_writable_def disk_ok_def)
    then show ?thesis
      using k(1) g w(1) f(1) z5(1) by (simp add: checkpoint_def io_state_def io_bind_def io_check_def z4_def [symmetric] z6_def z7_def)
  qed
  have z6: "zf_free z6 = []" "zf_frozen z6 = []" "zf_retained z6 = zf_retained z" "zf_pending_free z6 = []"
      "zf_db z6 = h" "zf_disk z6 = d4" "zf_active_slot z6 = i" "zf_savepoint z6 = sp" "zf_interrupted z6 = zf_interrupted z"
      "zf_writable z6 = zf_writable z" "zf_free_chain z6 = map fst links"
  proof -
    obtain c m where "z5 = z4\<lparr>zf_cache := c, zf_pin_memo := m\<rparr>" using z5(3) by (auto simp: quiet_def)
    then show "zf_free z6 = []" "zf_frozen z6 = []" "zf_retained z6 = zf_retained z" "zf_pending_free z6 = []"
      "zf_db z6 = h" "zf_disk z6 = d4" "zf_active_slot z6 = i" "zf_savepoint z6 = sp" "zf_interrupted z6 = zf_interrupted z"
      "zf_writable z6 = zf_writable z" "zf_free_chain z6 = map fst links"
      by (simp_all add: z6_def z4_def z3 z2_def k(2))
  qed
  have s: "settled z6 z7" "spare z7 = spare z6 + mset fb" "tx_ok z7"
    using settle_free_ok [OF z6(1,2)] by (simp_all add: z7_def)
  have z7: "zf_db z7 = h" "zf_disk z7 = d4" "zf_active_slot z7 = i" "zf_writable z7 = zf_writable z"
      "zf_interrupted z7 = zf_interrupted z" "zf_pending_free z7 = []" "zf_free_chain z7 = map fst links"
      "map_option sp_kept (zf_savepoint z7) = map_option sp_kept (zf_savepoint z)" "zf_ok held z7"
  proof -
    obtain f g s r u where e: "z7 = z6\<lparr>zf_free := f, zf_frozen := g, zf_savepoint := s, zf_retained := r, zf_unpublished := u\<rparr>"
      "map_option sp_kept s = map_option sp_kept (zf_savepoint z6)"
      using s(1) unfolding settled_def by blast
    show "zf_db z7 = h" "zf_disk z7 = d4" "zf_active_slot z7 = i" "zf_writable z7 = zf_writable z"
      "zf_interrupted z7 = zf_interrupted z" "zf_pending_free z7 = []" "zf_free_chain z7 = map fst links"
      "map_option sp_kept (zf_savepoint z7) = map_option sp_kept (zf_savepoint z)"
      using e(2) z6 k(3) by (simp_all add: e(1))
    have "block_at z7 = block_at z5" by (simp add: e(1) z6_def block_at_image)
    then show "zf_ok held z7" using zf_ok_cong [of z7 z5] z5(2) by (simp add: e(1) z6_def)
  qed
  have cnt: "dh_block_count h = n3" by (simp add: h_def db3)
  have "spare z6 = mset (concat (map snd (zf_retained z)))" by (simp add: spare_def z6)
  then have acc7: "acct z7 = acct z + mset new"
    using w(10) unfolding acct_def [of z7] s(2) z7(6,7) acc by (simp add: ac_simps)
  have "publishes crc z z7 (evs1 @ evs2)"
  proof -
    have l1: "di_log (zf_disk z1) = di_log (zf_disk z) @ evs1" "list_all (staged {}) evs1"
        "di_image (zf_disk z1) = replay evs1 (di_image (zf_disk z))" using k(6) by (simp_all add: logged_def)
    have d21: "zf_disk z2 = zf_disk z1" by (simp add: z2_def)
    let ?W = "set (zf_free z) \<union> {p. dh_block_count (zf_db z) < p}"
    have l2: "di_log (zf_disk z3) = di_log (zf_disk z1) @ evs2" "list_all (staged ?W) evs2"
        "di_image (zf_disk z3) = replay evs2 (di_image (zf_disk z1))" using w(6) by (simp_all add: logged_def d21)
    have "list_all (staged ?W) evs1" using l1(2) by (auto simp: list_all_iff intro: staged_mono)
    moreover have "h = (zf_db z)\<lparr>dh_epoch := dh_epoch (zf_db z) + 1, dh_free_list_root := r3, dh_block_count := n3\<rparr>"
      by (simp add: h_def db3)
    moreover have "dh_block_count (zf_db z) \<le> n3" using w(13) by (simp add: db3)
    ultimately show ?thesis
      using l1 l2 f(2,3) unfolding publishes_def Let_def z7 by (auto simp: replay_append i_def)
  qed
  moreover have "disk_ok z7" using f(6) z7(2,3,4) ok(2) by (simp add: disk_ok_def)
  moreover have "in_reach z7" using reach4 by (simp add: in_reach_def z7(1) z4_def)
  moreover have "list_on_disk crc z7 links listed"
  proof -
    have "chain_at crc z7 links"
      by (rule chain_at_mono [OF c4]) (simp_all add: block_at_image z7 z4_def)
    then show ?thesis using w(7) by (simp add: list_on_disk_def z7(1) h_def)
  qed
  moreover have "list_all (in_file (dh_block_count (zf_db z7))) listed"
  proof -
    have "dh_block_count (zf_db z) \<le> n3" using w(13) by (simp add: db3)
    then show ?thesis using w(9) lall by (auto simp: list_all_iff in_file_def z7(1) cnt intro: order_trans)
  qed
  moreover have "set new = {p. dh_block_count (zf_db z) < p \<and> p \<le> dh_block_count (zf_db z7)}"
    using w(12) by (simp add: z7(1) cnt db3)
  moreover have "set listed \<subseteq> set_mset (spare z7)" using w(14) by (auto simp: s(2))
  ultimately show ?thesis using run z7(5-9) acc7 w(8,11) s(3) by blast
qed

text \<open>The file can grow: what it grew by is in the lists too, and what was live still is.\<close>

lemma grown_lists:
  assumes "lists_ok z" "acct z1 = acct z + mset new" "distinct new"
    "set new = {p. dh_block_count (zf_db z) < p \<and> p \<le> dh_block_count (zf_db z1)}"
    "dh_block_count (zf_db z) \<le> dh_block_count (zf_db z1)"
  shows "lists_ok z1 \<and> live z1 = live z"
proof -
  let ?n = "dh_block_count (zf_db z)" and ?m = "dh_block_count (zf_db z1)"
  have inf: "in_file ?n p" if "p \<in># acct z" for p using assms(1) that by (simp add: lists_ok_def)
  have dis: "p \<notin> set new" if "p \<in># acct z" for p
  proof -
    have "\<not> ?n < p" using inf [OF that] by (simp add: in_file_def not_less)
    then show ?thesis using assms(4) by blast
  qed
  have pos: "p \<noteq> NULL_BLOCK" if "p \<in> set new" for p
  proof -
    have "?n < p" using that assms(4) by blast
    then show ?thesis by (cases "p = 0") (simp_all add: NULL_BLOCK_def)
  qed
  have "count (acct z1) p \<le> 1" for p
  proof (cases "p \<in># acct z")
    case True
    then have c: "count (mset new) p = 0" using dis by (simp add: count_eq_zero_iff)
    have "count (acct z) p \<le> 1" using assms(1) by (simp add: lists_ok_def)
    then show ?thesis unfolding assms(2) count_union c by simp
  next
    case False
    then have "count (acct z) p = 0" by (simp add: not_in_iff)
    then show ?thesis using distinct_once [OF assms(3), of p] by (simp add: assms(2))
  qed
  moreover have up: "in_file ?m p" if "in_file ?n p" for p
    using that assms(5) order_trans unfolding in_file_def by blast
  have "in_file ?m p" if "p \<in># acct z1" for p
  proof (cases "p \<in># acct z")
    case False
    then have "p \<in> set new" using that assms(2) by simp
    then show ?thesis using pos assms(4) unfolding in_file_def by blast
  qed (use inf up in blast)
  moreover have "p \<in> live z1 \<longleftrightarrow> p \<in> live z" for p
  proof -
    have "in_file ?m p \<and> p \<notin> set new \<longleftrightarrow> in_file ?n p"
      using up [of p] unfolding assms(4) in_file_def by (auto simp: not_less)
    then show ?thesis by (auto simp: live_def assms(2))
  qed
  then have "live z1 = live z" by blast
  ultimately show ?thesis by (simp add: lists_ok_def)
qed

end
