(* ===== verification/Recovery.thy ===== *)
theory Recovery
  imports Commit
begin

text \<open>
  Crash recovery: what reopening finds after a crash at any point of a writer's session. A
  session allocates, writes, reads, frees, hands blocks back, opens and ends transactions and
  commits; a commit is \<open>checkpoint\<close>.
\<close>

subsection \<open>The header a reopen takes\<close>

definition slot_header :: "(u8 list \<Rightarrow> u32) \<Rightarrow> u8 list \<Rightarrow> nat \<Rightarrow> db_header option" where
  "slot_header crc img i = db_header_decode crc (window img (slot_at i) DB_HEADER_SIZE)"

definition reopens :: "(u8 list \<Rightarrow> u32) \<Rightarrow> u8 list \<Rightarrow> (db_header \<times> nat) option" where
  "reopens crc img = pick_header (slot_header crc img 0) (slot_header crc img 1)"

lemma window_window: "at + n \<le> m \<Longrightarrow> window (window img 0 m) at n = window img at n"
  by (simp add: window_def drop_take min_def)

lemma slot_header_cong:
  "i < 2 \<Longrightarrow> window img1 0 TXN_SLOT = window img 0 TXN_SLOT \<Longrightarrow> slot_header crc img1 i = slot_header crc img i"
  unfolding slot_header_def by (metis slot_in_region window_window)

lemma reopens_slot:
  assumes "reopens crc img = Some (h, i)"
  shows "i < 2 \<and> slot_header crc img i = Some h"
  using assms by (auto simp: reopens_def pick_header_def split: option.splits if_splits)

lemma reopens_same:
  assumes "reopens crc img = Some (h, i)" "slot_header crc img1 i = Some h"
    "slot_header crc img1 (1 - i) = None \<or> slot_header crc img1 (1 - i) = slot_header crc img (1 - i)"
  shows "reopens crc img1 = Some (h, i)"
  using assms by (auto simp: reopens_def pick_header_def split: option.splits if_splits)

lemma reopens_new:
  assumes "i < 2" "slot_header crc img i = Some h" "slot_header crc img (1 - i) = Some h1" "dh_epoch h < dh_epoch h1"
  shows "reopens crc img = Some (h1, 1 - i)"
proof -
  have "i = 0 \<or> i = 1" using assms(1) by auto
  then show ?thesis using assms(2-4) by (auto simp: reopens_def pick_header_def)
qed

text \<open>A write into one slot touches neither the other slot nor a block.\<close>

lemma torn_slot:
  assumes t: "torn [WriteEvent (slot_at j) hdr] img img1" and j: "j < 2" and h: "length hdr = DB_HEADER_SIZE"
    and len: "BLOCK_SIZE \<le> length img"
  shows "slot_header crc img1 (1 - j) = slot_header crc img (1 - j)"
    "image_block img p = Some b \<Longrightarrow> image_block img1 p = Some b"
proof -
  have "j = 0 \<or> j = 1" using j by auto
  then have "window img1 (slot_at (1 - j)) DB_HEADER_SIZE = window img (slot_at (1 - j)) DB_HEADER_SIZE"
    by (intro torn_window [OF t]) (use h len in \<open>auto simp: slot_at_def covers_def layout\<close>)
  then show "slot_header crc img1 (1 - j) = slot_header crc img (1 - j)" by (simp add: slot_header_def)
next
  assume "image_block img p = Some b"
  then have q: "p \<noteq> NULL_BLOCK" "unat p * BLOCK_SIZE + BLOCK_SIZE \<le> length img" "b = window img (unat p * BLOCK_SIZE) BLOCK_SIZE"
    by (auto simp: image_block_def split: if_splits)
  have p1: "1 * BLOCK_SIZE \<le> unat p * BLOCK_SIZE"
    using q(1) by (intro mult_le_mono1) (simp add: NULL_BLOCK_def Suc_le_eq unat_gt_0)
  have "\<not> covers (WriteEvent (slot_at j) hdr) i" if "unat p * BLOCK_SIZE \<le> i" for i
  proof -
    have "slot_at j + length hdr \<le> i" using that p1 slot_in_region [OF j] h by linarith
    then show ?thesis by (simp add: covers_def)
  qed
  then have "window img1 (unat p * BLOCK_SIZE) BLOCK_SIZE = window img (unat p * BLOCK_SIZE) BLOCK_SIZE"
    by (intro torn_window [OF t q(2)]) simp
  moreover have "length img \<le> length img1" using t by (simp add: torn_def)
  ultimately show "image_block img1 p = Some b" using q by (simp add: image_block_def)
qed

subsection \<open>A crash around one checkpoint\<close>

text \<open>The blocks of \<open>P\<close> in \<open>img1\<close> are those of \<open>img\<close>.\<close>

definition intact :: "u64 set \<Rightarrow> u8 list \<Rightarrow> u8 list \<Rightarrow> bool" where
  "intact P img img1 \<longleftrightarrow> (\<forall>p \<in> P. \<forall>b. image_block img p = Some b \<longrightarrow> image_block img1 p = Some b)"

lemma intact_refl [simp]: "intact P img img"
  by (simp add: intact_def)

lemma intact_trans: "intact P a b \<Longrightarrow> intact P b c \<Longrightarrow> intact P a c"
  by (simp add: intact_def)

lemma intact_staged:
  "torn evs img img1 \<Longrightarrow> list_all (staged W) evs \<Longrightarrow> BLOCK_SIZE \<le> length img \<Longrightarrow> P \<inter> W = {} \<Longrightarrow> intact P img img1"
  unfolding intact_def using torn_staged(2) by blast

lemma staged_torn: "list_all (staged W) evs \<Longrightarrow> torn evs img (replay evs img)"
  by (rule torn_replay) (auto simp: list_all_iff intro: staged_grows)

text \<open>A header a crash tore is told from a whole one: it is the old one, the new one, or does not decode.\<close>

definition tear_detected :: "(u8 list \<Rightarrow> u32) \<Rightarrow> u8 list \<Rightarrow> u8 list \<Rightarrow> nat \<Rightarrow> db_header \<Rightarrow> bool" where
  "tear_detected crc img img1 j h \<longleftrightarrow>
     slot_header crc img1 j = None \<or> slot_header crc img1 j = slot_header crc img j \<or> slot_header crc img1 j = Some h"

lemma commit_crash:
  assumes pub: "publishes crc z z1 pre" and since: "list_all (staged (- P)) since"
    and out: "P \<inter> (set (zf_free z) \<union> {p. dh_block_count (zf_db z) < p}) = {}"
    and base: "reopens crc base = Some (h, zf_active_slot z)" "di_image (zf_disk z) = replay since base" "BLOCK_SIZE \<le> length base"
    and epoch: "dh_epoch h \<le> dh_epoch (zf_db z)" "dh_epoch (zf_db z) + 1 \<noteq> 0"
    and adr: "addressable (dh_block_count (zf_db z1))"
    and crash: "crash (since @ pre @ [SyncEvent, WriteEvent (slot_at (zf_active_slot z1)) (db_header_encode crc (zf_db z1)), SyncEvent]) base img1"
    and det: "tear_detected crc base img1 (zf_active_slot z1) (zf_db z1)"
  shows "reopens crc img1 = Some (h, zf_active_slot z) \<and> intact P base img1 \<or>
    reopens crc img1 = Some (zf_db z1, zf_active_slot z1) \<and> intact UNIV (di_image (zf_disk z1)) img1"
proof -
  let ?i = "zf_active_slot z" and ?j = "zf_active_slot z1" and ?hdr = "db_header_encode crc (zf_db z1)"
  define mid where "mid = replay (since @ pre) base"
  have i: "?i < 2" "slot_header crc base ?i = Some h" using reopens_slot [OF base(1)] by simp_all
  have j: "?j = 1 - ?i" "?j < 2" "1 - ?j = ?i" using pub i(1) by (auto simp: publishes_def Let_def)
  have st: "list_all (staged (- P)) (since @ pre)"
  proof -
    have "set (zf_free z) \<union> {p. dh_block_count (zf_db z) < p} \<subseteq> - P" using out by blast
    then show ?thesis using pub since by (auto simp: publishes_def Let_def list_all_iff intro: staged_mono)
  qed
  have fin: "di_image (zf_disk z1) = put_bytes mid (slot_at ?j) ?hdr"
    using pub base(2) by (simp add: publishes_def Let_def mid_def replay_append)
  have tm: "torn (since @ pre) base mid" unfolding mid_def by (rule staged_torn [OF st])
  have lm: "BLOCK_SIZE \<le> length mid" using tm base(3) by (simp add: torn_def)
  have hm: "slot_header crc mid k = slot_header crc base k" if "k < 2" for k
    by (rule slot_header_cong [OF that torn_staged(1) [OF tm st base(3)]])
  have im: "intact P base mid" by (rule intact_staged [OF tm st base(3)]) simp
  have sj: "slot_at ?j + length ?hdr \<le> BLOCK_SIZE" using slot_in_region [OF j(2)] by simp
  have e: "dh_epoch h < dh_epoch (zf_db z1)"
  proof -
    have "dh_epoch (zf_db z1) = dh_epoch (zf_db z) + 1" using pub by (auto simp: publishes_def Let_def)
    moreover have "unat (dh_epoch (zf_db z) + 1) = unat (dh_epoch (zf_db z)) + 1"
      using epoch(2) by (metis Suc_eq_plus1 add.commute unatSuc)
    ultimately show ?thesis using epoch(1) by (simp add: word_less_nat_alt word_le_nat_alt)
  qed
  have whole: "slot_header crc (put_bytes mid (slot_at ?j) ?hdr) ?j = Some (zf_db z1)"
    using window_put_same [of mid "slot_at ?j" ?hdr] db_header_encode_roundtrip [OF adr, of crc] by (simp add: slot_header_def)
  consider "crash (since @ pre) base img1" | "crash [WriteEvent (slot_at ?j) ?hdr, SyncEvent] mid img1"
    using crash_split [of "since @ pre" "[WriteEvent (slot_at ?j) ?hdr, SyncEvent]" base img1] crash
    by (auto simp: mid_def)
  then show ?thesis
  proof cases
    case 1
    have g: "list_all grows (since @ pre)" using st by (auto simp: list_all_iff intro: staged_grows)
    have t: "torn (since @ pre) base img1" by (rule crash_torn [OF 1 g])
    have s: "slot_header crc img1 k = slot_header crc base k" if "k < 2" for k
      by (rule slot_header_cong [OF that torn_staged(1) [OF t st base(3)]])
    have "reopens crc img1 = reopens crc base" by (simp add: reopens_def s)
    then show ?thesis using base(1) intact_staged [OF t st base(3)] by simp
  next
    case 2
    then consider "torn [WriteEvent (slot_at ?j) ?hdr] mid img1" | "torn [] (put_bytes mid (slot_at ?j) ?hdr) img1"
      using crash_write by blast
    then show ?thesis
    proof cases
      case 1
      have i1: "slot_header crc img1 ?i = Some h" using torn_slot(1) [OF 1 j(2) _ lm, of crc] hm [OF i(1)] i(2) j(3) by simp
      have b1: "intact UNIV mid img1" unfolding intact_def using torn_slot(2) [OF 1 j(2) _ lm] by simp
      have f: "image_block (di_image (zf_disk z1)) = image_block mid" unfolding fin by (rule region_write(1) [OF sj lm])
      show ?thesis
      proof (cases "slot_header crc img1 ?j = Some (zf_db z1)")
        case True
        then have "reopens crc img1 = Some (zf_db z1, ?j)" using reopens_new [OF i(1) i1 _ e] j(1) by simp
        then show ?thesis using b1 f by (simp add: intact_def)
      next
        case False
        then have "reopens crc img1 = Some (h, ?i)"
          using reopens_same [OF base(1) i1] det j(1) by (auto simp: tear_detected_def)
        moreover have "intact P mid img1" using b1 by (simp add: intact_def)
        ultimately show ?thesis using intact_trans [OF im] by blast
      qed
    next
      case 2
      let ?f = "put_bytes mid (slot_at ?j) ?hdr"
      have lf: "BLOCK_SIZE \<le> length ?f" using lm by simp
      have s: "slot_header crc img1 k = slot_header crc ?f k" if "k < 2" for k
        by (rule slot_header_cong [OF that torn_staged(1) [OF 2 _ lf]]) simp
      have "slot_header crc ?f ?i = Some h"
        using torn_slot(1) [of ?j ?hdr mid ?f crc] j lm hm [OF i(1)] i(2) torn_replay [of "[WriteEvent (slot_at ?j) ?hdr]" mid]
        by (simp add: grows_def)
      then have "reopens crc img1 = Some (zf_db z1, ?j)"
        using reopens_new [OF i(1) _ _ e, of crc img1] s [OF i(1)] s [OF j(2)] whole j(1) by simp
      moreover have "intact UNIV ?f img1" using intact_staged [OF 2 _ lf, of "{}" UNIV] by simp
      ultimately show ?thesis by (simp add: fin)
    qed
  qed
qed

lemma publish_reopens:
  assumes pub: "publishes crc z z1 pre" and since: "list_all (staged (- P)) since"
    and out: "P \<inter> (set (zf_free z) \<union> {p. dh_block_count (zf_db z) < p}) = {}"
    and base: "reopens crc base = Some (h, zf_active_slot z)" "di_image (zf_disk z) = replay since base" "BLOCK_SIZE \<le> length base"
    and epoch: "dh_epoch h \<le> dh_epoch (zf_db z)" "dh_epoch (zf_db z) + 1 \<noteq> 0"
    and adr: "addressable (dh_block_count (zf_db z1))"
  shows "reopens crc (di_image (zf_disk z1)) = Some (zf_db z1, zf_active_slot z1)"
proof -
  let ?i = "zf_active_slot z" and ?j = "zf_active_slot z1" and ?hdr = "db_header_encode crc (zf_db z1)"
  define mid where "mid = replay (since @ pre) base"
  have i: "?i < 2" "slot_header crc base ?i = Some h" using reopens_slot [OF base(1)] by simp_all
  have j: "?j = 1 - ?i" "?j < 2" "1 - ?j = ?i" using pub i(1) by (auto simp: publishes_def Let_def)
  have st: "list_all (staged (- P)) (since @ pre)"
  proof -
    have "set (zf_free z) \<union> {p. dh_block_count (zf_db z) < p} \<subseteq> - P" using out by blast
    then show ?thesis using pub since by (auto simp: publishes_def Let_def list_all_iff intro: staged_mono)
  qed
  have fin: "di_image (zf_disk z1) = put_bytes mid (slot_at ?j) ?hdr"
    using pub base(2) by (simp add: publishes_def Let_def mid_def replay_append)
  have tm: "torn (since @ pre) base mid" unfolding mid_def by (rule staged_torn [OF st])
  have lm: "BLOCK_SIZE \<le> length mid" using tm base(3) by (simp add: torn_def)
  have hm: "slot_header crc mid ?i = Some h"
    using slot_header_cong [OF i(1) torn_staged(1) [OF tm st base(3)], of crc] i(2) by simp
  have t1: "torn [WriteEvent (slot_at ?j) ?hdr] mid (put_bytes mid (slot_at ?j) ?hdr)"
    using torn_replay [of "[WriteEvent (slot_at ?j) ?hdr]" mid] by (simp add: grows_def)
  have fi: "slot_header crc (di_image (zf_disk z1)) ?i = Some h"
    using torn_slot(1) [OF t1 j(2) _ lm, of crc] hm j(3) by (simp add: fin)
  have fj: "slot_header crc (di_image (zf_disk z1)) ?j = Some (zf_db z1)"
    using window_put_same [of mid "slot_at ?j" ?hdr] db_header_encode_roundtrip [OF adr, of crc] by (simp add: slot_header_def fin)
  have "dh_epoch h < dh_epoch (zf_db z1)"
  proof -
    have "dh_epoch (zf_db z1) = dh_epoch (zf_db z) + 1" using pub by (auto simp: publishes_def Let_def)
    moreover have "unat (dh_epoch (zf_db z) + 1) = unat (dh_epoch (zf_db z)) + 1"
      using epoch(2) by (metis Suc_eq_plus1 add.commute unatSuc)
    ultimately show ?thesis using epoch(1) by (simp add: word_less_nat_alt word_le_nat_alt)
  qed
  then show ?thesis using reopens_new [OF i(1) fi _ ] fj j(1) by simp
qed

lemma in_reach_addressable: "in_reach z \<Longrightarrow> addressable (dh_block_count (zf_db z))"
proof -
  assume "in_reach z"
  then have "(unat (dh_block_count (zf_db z)) + 1) * 32768 < 2 ^ 64" by (simp add: in_reach_def BLOCK_SIZE_def)
  then have "unat (dh_block_count (zf_db z)) \<le> (2 ^ 64 - 1) div 32768" by simp
  then show ?thesis unfolding addressable_def word_le_nat_alt by (simp add: BLOCK_SIZE_def unat_div)
qed

subsection \<open>Opening what a crash left\<close>

definition viewer :: "u8 list \<Rightarrow> db_header \<Rightarrow> zfile" where
  "viewer img h = new_handle \<lparr>di_image = img, di_writable = True, di_log = []\<rparr> [] (file_header_fresh 0 0) h 0 None True"

lemma viewer_simps [simp]: "di_image (zf_disk (viewer img h)) = img" "zf_db (viewer img h) = h" "block_at (viewer img h) = image_block img"
  by (simp_all add: viewer_def new_handle_def block_at_image)

lemma list_on_disk_mono:
  assumes "list_on_disk crc z links listed" "zf_db z1 = zf_db z"
    "\<And>p b. p \<in> fst ` set links \<Longrightarrow> block_at z p = Some b \<Longrightarrow> block_at z1 p = Some b"
  shows "list_on_disk crc z1 links listed"
  using assms chain_at_mono [of crc z links z1] by (simp add: list_on_disk_def)

lemma pool_new_ok: "pool_ok (pool_new budget)"
  by (simp add: pool_ok_def pool_new_def)

lemma new_handle_ok: "zf_ok [] (new_handle d path fh h i broken w)"
  using bc_new_ok [of "DEFAULT_MEMORY_LIMIT div 2"]
  by (simp add: zf_ok_def new_handle_def memo_pins_def pools_ok_def pools_new_def pool_new_ok)

lemma load_free_list_ok:
  assumes ok: "zf_ok [] z" "in_reach z" and disk: "list_on_disk crc z links listed"
    and l: "distinct listed" "list_all (in_file (dh_block_count (zf_db z))) listed" "zf_free z = []" "zf_free_chain z = []"
  shows "\<exists>z1. load_free_list crc z = Some (Inr (), z1) \<and> zf_ok [] z1 \<and> zf_free z1 = listed \<and> zf_free_chain z1 = map fst links \<and>
    quiet (z\<lparr>zf_free := listed, zf_free_chain := map fst links\<rparr>) z1"
proof -
  have d: "chain_at crc z links" "distinct (map fst links)" "dh_free_list_root (zf_db z) = chain_head links"
      "concat (map snd links) = concat (map u64_le listed)" "links = [] \<longleftrightarrow> listed = []"
    using disk by (simp_all add: list_on_disk_def)
  show ?thesis
  proof (cases "links = []")
    case True
    then have "load_free_list crc z = Some (Inr (), z)" using d(3) by (simp add: load_free_list_def Let_def io_return_def)
    moreover have "quiet (z\<lparr>zf_free := [], zf_free_chain := []\<rparr>) z"
      unfolding quiet_def by (rule zfile.equality) (simp_all add: l)
    ultimately show ?thesis using True d(5) l ok(1) by auto
  next
    case False
    then have root: "chain_head links \<noteq> NULL_BLOCK" using d(1) by (cases links) (auto simp: check_ptr_Inr)
    obtain z1 where r: "read_chain crc (chain_head links) z = Some (Inr (concat (map snd links)), z1)" "zf_ok [] z1" "quiet z z1"
      using chain_reads(1) [OF d(1,2) ok] by blast
    note q1 = quiet_keeps [OF r(3)]
    define z2 where "z2 = z1\<lparr>zf_free := listed\<rparr>"
    have b2: "block_at z2 = block_at z1" by (simp add: z2_def block_at_image)
    have ok2: "zf_ok [] z2" using zf_ok_cong [of z2 z1, OF _ _ _ b2] r(2) by (simp add: z2_def)
    have c2: "chain_at crc z2 links"
      by (rule chain_at_mono [OF d(1)]) (use q1 b2 in simp_all, simp add: z2_def)
    have reach2: "in_reach z2" using ok(2) q1 by (simp add: in_reach_def z2_def)
    obtain z3 where c: "chain_blocks crc (chain_head links) z2 = Some (Inr (map fst links), z3)" "zf_ok [] z3" "quiet z2 z3"
      using chain_reads(2) [OF c2 d(2) ok2 reach2] by blast
    define z4 where "z4 = z3\<lparr>zf_free_chain := map fst links\<rparr>"
    have dec: "decode_free_list (concat (map snd links)) (dh_block_count (zf_db z1)) = Inr listed"
      using d(4) l(1,2) q1 by (simp add: decode_free_list_exact)
    have run: "load_free_list crc z = Some (Inr (), z4)"
      using root d(3) r(1) dec c(1) by (simp add: load_free_list_def Let_def io_bind_def io_check_def io_state_def z2_def z4_def)
    obtain c1 m1 where z1: "z1 = z\<lparr>zf_cache := c1, zf_pin_memo := m1\<rparr>" using r(3) unfolding quiet_def by blast
    obtain c3 m3 where z3: "z3 = z2\<lparr>zf_cache := c3, zf_pin_memo := m3\<rparr>" using c(3) unfolding quiet_def by blast
    have "quiet (z\<lparr>zf_free := listed, zf_free_chain := map fst links\<rparr>) z4"
      unfolding quiet_def by (rule zfile.equality) (simp_all add: z4_def z3 z2_def z1)
    moreover have "zf_ok [] z4"
    proof -
      have "block_at z4 = block_at z3" by (simp add: z4_def block_at_image)
      then show ?thesis using zf_ok_cong [of z4 z3] c(2) by (simp add: z4_def)
    qed
    ultimately show ?thesis using run by (auto simp: z4_def z3 z2_def)
  qed
qed

text \<open>The file header is read from its own region.\<close>

lemma file_header_window:
  assumes "TXN_SLOT \<le> length img"
  shows "file_header_decode crc (window img 0 TXN_SLOT) = file_header_decode crc (window img 0 FILE_HEADER_SIZE)"
proof -
  let ?a = "window img 0 TXN_SLOT" and ?b = "window img 0 FILE_HEADER_SIZE"
  have b: "?b = take FILE_HEADER_SIZE ?a" using assms by (simp add: window_def layout min_def)
  have l: "length ?a = TXN_SLOT" "length ?b = FILE_HEADER_SIZE" using assms by (simp_all add: layout)
  have w: "window ?b off n = window ?a off n" if "off + n \<le> 4096" for off n
    using that unfolding b by (simp add: window_def drop_take layout min_def)
  have t: "take n ?b = take n ?a" if "n \<le> 4096" for n using that by (simp add: b layout min_def)
  have f: "take 8 ?b = take 8 ?a" "take 64 ?b = take 64 ?a" by (rule t, simp)+
  have g: "window ?b 64 4 = window ?a 64 4" "window ?b 8 2 = window ?a 8 2" "window ?b 10 2 = window ?a 10 2"
      "window ?b 12 4 = window ?a 12 4" "window ?b 16 16 = window ?a 16 16" "window ?b 32 8 = window ?a 32 8"
    by (rule w, simp)+
  have "\<not> TXN_SLOT < FILE_HEADER_SIZE" by (simp add: layout)
  then show ?thesis unfolding file_header_decode_def l f g by (simp only: less_irrefl if_False)
qed

text \<open>
  The header taken is the one in the newer slot, or the kept one of a transaction that was open
  when the process went away.
\<close>

lemma open_kind_ok:
  assumes img: "di_image d = img" "BLOCK_SIZE \<le> length img" and fh: "file_header_decode crc (window img 0 FILE_HEADER_SIZE) = Inr fh"
    and re: "reopens crc img = Some (h, i)"
    and mark: "resume_marker (decode_marker crc (window img TXN_SLOT DB_HEADER_SIZE)) h = (h1, broken)"
    and list: "list_on_disk crc (viewer img h1) links listed" "distinct listed" "list_all (in_file (dh_block_count h1)) listed"
    and reach: "(unat (dh_block_count h1) + 1) * BLOCK_SIZE < 2 ^ 64"
  shows "\<exists>z. open_kind crc d path w = Some (Inr z) \<and> zf_ok [] z \<and> zf_db z = h1 \<and> zf_active_slot z = i \<and> zf_free z = listed \<and>
    zf_free_chain z = map fst links \<and> zf_disk z = d \<and> zf_interrupted z = broken \<and> zf_writable z = w \<and> zf_header z = fh \<and>
    zf_frozen z = [] \<and> zf_pending_free z = [] \<and> zf_retained z = [] \<and> zf_savepoint z = None"
proof -
  let ?z = "new_handle d path fh h1 i broken w"
  have t: "TXN_SLOT + DB_HEADER_SIZE \<le> length img" "FILE_HEADER_SIZE + 2 * DB_HEADER_SIZE = TXN_SLOT" "FILE_HEADER_SIZE \<le> TXN_SLOT"
    using img(2) by (simp_all add: layout)
  have mn: "min (length img) TXN_SLOT = TXN_SLOT" using t(1) by simp
  have fh2: "file_header_decode crc (window img 0 TXN_SLOT) = Inr fh" using file_header_window [of img crc] t(1) fh by simp
  have head: "disk_read d 0 TXN_SLOT = Inr (window img 0 TXN_SLOT)" using t(1) img(1) disk_read_window [of 0 TXN_SLOT d] by simp
  have a: "window (window img 0 TXN_SLOT) FILE_HEADER_SIZE DB_HEADER_SIZE = window img (slot_at 0) DB_HEADER_SIZE"
    using window_window [of FILE_HEADER_SIZE DB_HEADER_SIZE TXN_SLOT img] by (simp add: layout slot_at_def)
  have b: "drop (FILE_HEADER_SIZE + DB_HEADER_SIZE) (window img 0 TXN_SLOT) = window img (slot_at 1) DB_HEADER_SIZE"
    by (simp add: window_def drop_take layout slot_at_def)
  have pick: "pick_header (db_header_decode crc (window (window img 0 TXN_SLOT) FILE_HEADER_SIZE DB_HEADER_SIZE))
      (db_header_decode crc (drop (FILE_HEADER_SIZE + DB_HEADER_SIZE) (window img 0 TXN_SLOT))) = Some (h, i)"
    using re unfolding a b by (simp add: reopens_def slot_header_def)
  have mk: "map_sum id (decode_marker crc) (disk_read d TXN_SLOT DB_HEADER_SIZE) = Inr (decode_marker crc (window img TXN_SLOT DB_HEADER_SIZE))"
    using disk_read_window [of TXN_SLOT DB_HEADER_SIZE d] t(1) img(1) by simp
  have "\<exists>z1. load_free_list crc ?z = Some (Inr (), z1) \<and> zf_ok [] z1 \<and> zf_free z1 = listed \<and> zf_free_chain z1 = map fst links \<and>
      quiet (?z\<lparr>zf_free := listed, zf_free_chain := map fst links\<rparr>) z1"
  proof (rule load_free_list_ok [OF new_handle_ok])
    show "in_reach ?z" using reach by (simp add: in_reach_def new_handle_def)
    show "list_on_disk crc ?z links listed"
      by (rule list_on_disk_mono [OF list(1)]) (simp_all add: new_handle_def block_at_image img(1))
  qed (use list in \<open>simp_all add: new_handle_def\<close>)
  then obtain z1 where z1: "load_free_list crc ?z = Some (Inr (), z1)" "zf_ok [] z1" "zf_free z1 = listed"
      "zf_free_chain z1 = map fst links" "quiet (?z\<lparr>zf_free := listed, zf_free_chain := map fst links\<rparr>) z1"
    by blast
  have "open_kind crc d path w = Some (Inr z1)"
    using t head pick mk z1(1) img fh2 mn mark
    by (simp add: open_kind_def Let_def disk_len_def not_less)
  moreover have "zf_db z1 = h1" "zf_active_slot z1 = i" "zf_disk z1 = d" "zf_interrupted z1 = broken" "zf_writable z1 = w"
      "zf_header z1 = fh" "zf_frozen z1 = []" "zf_pending_free z1 = []" "zf_retained z1 = []" "zf_savepoint z1 = None"
  proof -
    obtain c m where "z1 = ?z\<lparr>zf_free := listed, zf_free_chain := map fst links, zf_cache := c, zf_pin_memo := m\<rparr>"
      using z1(5) unfolding quiet_def by blast
    then show "zf_db z1 = h1" "zf_active_slot z1 = i" "zf_disk z1 = d" "zf_interrupted z1 = broken" "zf_writable z1 = w"
      "zf_header z1 = fh" "zf_frozen z1 = []" "zf_pending_free z1 = []" "zf_retained z1 = []" "zf_savepoint z1 = None"
      by (simp_all add: new_handle_def)
  qed
  ultimately show ?thesis using z1 by blast
qed

text \<open>Nothing a session writes is in the file header.\<close>

definition above :: "io_event \<Rightarrow> bool" where
  "above ev \<longleftrightarrow> grows ev \<and> (\<forall>i < FILE_HEADER_SIZE. \<not> covers ev i)"

lemma staged_above: "staged W ev \<Longrightarrow> above ev"
  using staged_covers staged_grows by (fastforce simp: above_def layout)

lemma header_write_above: "above (WriteEvent (slot_at i) hdr)"
  by (simp add: above_def grows_def covers_def slot_at_def)

lemma above_sync: "above SyncEvent"
  by (simp add: above_def grows_def covers_def)

lemma publishes_above:
  "publishes crc z z1 pre \<Longrightarrow>
    list_all above (pre @ [SyncEvent, WriteEvent (slot_at (zf_active_slot z1)) (db_header_encode crc (zf_db z1)), SyncEvent])"
  using staged_above header_write_above above_sync by (auto simp: publishes_def Let_def list_all_iff)

lemma above_header:
  assumes "list_all above evs" "torn evs img img1" "FILE_HEADER_SIZE \<le> length img"
  shows "window img1 0 FILE_HEADER_SIZE = window img 0 FILE_HEADER_SIZE"
  by (rule torn_window [OF assms(2)]) (use assms(1,3) in \<open>auto simp: list_all_iff above_def\<close>)

end
