(* ===== verification/Session.thy ===== *)
theory Session
  imports Recovery
begin

text \<open>
  A writer's session on one file, and what holds of every state it reaches: the state last
  published can be reopened after a crash, and the state a transaction keeps is not written on.
\<close>

subsection \<open>The operations\<close>

text \<open>What ending a transaction changes besides the disk.\<close>

lemma release_savepoint_ok:
  assumes "zf_ok held z" "disk_ok z"
  shows "\<exists>z1 evs d f g r. release_savepoint z = Some (Inr (), z1) \<and>
    z1 = z\<lparr>zf_disk := d, zf_free := f, zf_frozen := g, zf_savepoint := None, zf_retained := r\<rparr> \<and> zf_ok held z1 \<and> disk_ok z1 \<and>
    logged (staged {}) z z1 evs \<and> block_at z1 = block_at z \<and> spare z1 = spare z"
proof -
  let ?held = "zf_savepoint z"
  define z1 where "z1 = z\<lparr>zf_savepoint := None\<rparr>"
  define z2 where "z2 = (if zf_frozen z1 = [] then z1
      else reclaim (z1\<lparr>zf_frozen := [], zf_retained := zf_retained z1 @
             [(case ?held of None \<Rightarrow> dh_epoch (zf_db z1) | Some h \<Rightarrow> sp_began_at h, zf_frozen z1)]\<rparr>))"
  have z2: "\<exists>f g r. z2 = z\<lparr>zf_free := f, zf_frozen := g, zf_savepoint := None, zf_retained := r\<rparr>" "spare z2 = spare z"
  proof -
    let ?y = "z1\<lparr>zf_frozen := [], zf_retained := zf_retained z1 @
             [(case ?held of None \<Rightarrow> dh_epoch (zf_db z1) | Some h \<Rightarrow> sp_began_at h, zf_frozen z1)]\<rparr>"
    have y: "spare ?y = spare z" "spare z1 = spare z" by (simp_all add: spare_def z1_def ac_simps)
    have hd: "handed ?y (reclaim ?y)" by (rule reclaim_handed)
    show "spare z2 = spare z" using y hd by (simp add: z2_def handed_def)
    show "\<exists>f g r. z2 = z\<lparr>zf_free := f, zf_frozen := g, zf_savepoint := None, zf_retained := r\<rparr>"
    proof (cases "zf_frozen z1 = []")
      case True
      then show ?thesis
        by (intro exI [of _ "zf_free z"] exI [of _ "zf_frozen z"] exI [of _ "zf_retained z"] zfile.equality) (simp_all add: z2_def z1_def)
    next
      case False
      obtain f g r where "reclaim ?y = ?y\<lparr>zf_free := f, zf_frozen := g, zf_retained := r\<rparr>" using hd unfolding handed_def by blast
      then show ?thesis using False
        by (intro exI [of _ f] exI [of _ g] exI [of _ r] zfile.equality) (simp_all add: z2_def z1_def)
    qed
  qed
  then obtain f g r where e2: "z2 = z\<lparr>zf_free := f, zf_frozen := g, zf_savepoint := None, zf_retained := r\<rparr>" by blast
  have b2: "block_at z2 = block_at z" by (simp add: e2 block_at_image)
  have ok2: "zf_ok held z2" using zf_ok_cong [of z2 z, OF _ _ _ b2] assms(1) by (simp add: e2)
  have dk2: "disk_ok z2" using assms(2) by (simp add: e2 disk_ok_def)
  have run: "release_savepoint z = (if (case ?held of None \<Rightarrow> False | Some h \<Rightarrow> sp_marked h) then forget_kept z2 else io_return () z2)"
    unfolding release_savepoint_def Let_def z2_def z1_def by (rule refl)
  show ?thesis
  proof (cases "case ?held of None \<Rightarrow> False | Some h \<Rightarrow> sp_marked h")
    case False
    then show ?thesis using run z2(2) e2 b2 ok2 dk2
      by (intro exI [of _ z2] exI [of _ "[]"] exI [of _ "zf_disk z"] exI [of _ f] exI [of _ g] exI [of _ r])
        (simp add: io_return_def logged_refl)
  next
    case True
    let ?m = "replicate DB_HEADER_SIZE 0 :: u8 list"
    define d where "d = (zf_disk z)\<lparr>di_log := di_log (zf_disk z) @ [WriteEvent TXN_SLOT ?m, SyncEvent],
       di_image := put_bytes (di_image (zf_disk z)) TXN_SLOT ?m\<rparr>"
    define z3 where "z3 = z2\<lparr>zf_disk := d\<rparr>"
    have w: "di_writable (zf_disk z)" "BLOCK_SIZE \<le> length (di_image (zf_disk z))" using assms(2) by (simp_all add: disk_ok_def)
    have "forget_kept z2 = Some (Inr (), z3)"
      using w by (simp add: forget_kept_def write_disk_def disk_write_ok sync_disk_def disk_sync_def z3_def d_def e2 io_bind_def)
    moreover have r: "image_block (di_image d) = image_block (di_image (zf_disk z))" "length (di_image d) = length (di_image (zf_disk z))"
      using region_write [of TXN_SLOT ?m "di_image (zf_disk z)"] w by (simp_all add: d_def layout)
    have b3: "block_at z3 = block_at z" by (simp add: block_at_image z3_def r)
    moreover have "zf_ok held z3" using zf_ok_cong [of z3 z2] b2 b3 ok2 by (simp add: z3_def)
    moreover have "disk_ok z3" using dk2 r(2) w by (simp add: disk_ok_def z3_def e2) (simp add: d_def)
    moreover have "logged (staged {}) z z3 [WriteEvent TXN_SLOT ?m, SyncEvent]"
      by (simp add: logged_def staged_def z3_def d_def replay_def apply_event_def)
    moreover have "spare z3 = spare z" using z2(2) by (simp add: spare_def z3_def)
    moreover have "z3 = z\<lparr>zf_disk := d, zf_free := f, zf_frozen := g, zf_savepoint := None, zf_retained := r\<rparr>"
      by (rule zfile.equality) (simp_all add: z3_def e2)
    ultimately show ?thesis unfolding run if_P [OF True]
      by (intro exI [of _ z3] exI [of _ "[WriteEvent TXN_SLOT ?m, SyncEvent]"] exI [of _ d] exI [of _ f] exI [of _ g] exI [of _ r]) simp
  qed
qed

subsection \<open>The session\<close>

record session =
  ss_file :: zfile
  ss_mine :: "u64 set"
  ss_head :: db_header
  ss_pub :: "u64 set"
  ss_base :: "u8 list"
  ss_mark :: nat
  ss_begun :: "u8 list"

text \<open>
  \<open>ss_mine\<close> are the blocks handed out and not yet published, the only ones the writer writes;
  \<open>ss_head\<close>, \<open>ss_pub\<close> and \<open>ss_base\<close> are the header, the blocks in use and the file at the last
  publish, and \<open>ss_since\<close> what was written after it; \<open>ss_begun\<close> is the file as the transaction
  began.
\<close>

definition ss_since :: "session \<Rightarrow> io_event list" where
  "ss_since S = drop (ss_mark S) (di_log (zf_disk (ss_file S)))"

definition in_use :: "zfile \<Rightarrow> u64 set" where
  "in_use z = live z \<union> set (zf_free_chain z)"

definition committed :: "session \<Rightarrow> zfile \<Rightarrow> session" where
  "committed S z = S\<lparr>ss_file := z, ss_mine := {}, ss_head := zf_db z, ss_pub := in_use z, ss_base := di_image (zf_disk z),
     ss_mark := length (di_log (zf_disk z))\<rparr>"

inductive session_step :: "(u8 list \<Rightarrow> u32) \<Rightarrow> session \<Rightarrow> session \<Rightarrow> bool" for crc where
  new_block: "allocate_block (ss_file S) = Some (p, z) \<Longrightarrow> in_reach z \<Longrightarrow>
    session_step crc S (S\<lparr>ss_file := z, ss_mine := insert p (ss_mine S)\<rparr>)"
| put: "p \<in> ss_mine S \<Longrightarrow> write_block p data (ss_file S) = Some (Inr (), z) \<Longrightarrow> session_step crc S (S\<lparr>ss_file := z\<rparr>)"
| get: "read_block p (ss_file S) = Some (r, z) \<Longrightarrow> session_step crc S (S\<lparr>ss_file := z\<rparr>)"
| give: "p \<in> live (ss_file S) \<Longrightarrow> free_block p (ss_file S) = Some (Inr (), z) \<Longrightarrow>
    session_step crc S (S\<lparr>ss_file := z, ss_mine := ss_mine S - {p}\<rparr>)"
| reuse: "release_retained floor (ss_file S) = (n, z) \<Longrightarrow> session_step crc S (S\<lparr>ss_file := z\<rparr>)"
| begin_tx: "begin_savepoint across floor (ss_file S) = Some (Inr (), z) \<Longrightarrow>
    session_step crc S (S\<lparr>ss_file := z, ss_mine := {}, ss_begun := di_image (zf_disk z)\<rparr>)"
| end_tx: "release_savepoint (ss_file S) = Some (Inr (), z) \<Longrightarrow> session_step crc S (S\<lparr>ss_file := z\<rparr>)"
| commit: "roomy (ss_file S) \<Longrightarrow> checkpoint crc (ss_file S) = Some (Inr (), z) \<Longrightarrow> session_step crc S (committed S z)"

definition sessions :: "(u8 list \<Rightarrow> u32) \<Rightarrow> session \<Rightarrow> session \<Rightarrow> bool" where
  "sessions crc = (session_step crc)\<^sup>*\<^sup>*"

text \<open>A transaction's kept state: the blocks in use when it began, as they were.\<close>

definition sp_blocks :: "savepoint \<Rightarrow> u64 set" where
  "sp_blocks s = {p. in_file (dh_block_count (sp_db s)) p \<and> p \<notin> sp_reusable s}"

definition tx_kept :: "session \<Rightarrow> bool" where
  "tx_kept S \<longleftrightarrow> (\<forall>s. zf_savepoint (ss_file S) = Some s \<longrightarrow>
     ss_mine S \<inter> sp_blocks s = {} \<and> dh_block_count (sp_db s) \<le> dh_block_count (zf_db (ss_file S)) \<and>
     intact (sp_blocks s) (ss_begun S) (di_image (zf_disk (ss_file S))))"

text \<open>What a reopen after a crash finds at the last publish.\<close>

definition recoverable :: "(u8 list \<Rightarrow> u32) \<Rightarrow> db_header \<Rightarrow> nat \<Rightarrow> u64 set \<Rightarrow> u8 list \<Rightarrow> bool" where
  "recoverable crc h i P img \<longleftrightarrow>
     BLOCK_SIZE \<le> length img \<and> (\<exists>fh. file_header_decode crc (window img 0 FILE_HEADER_SIZE) = Inr fh) \<and> reopens crc img = Some (h, i) \<and> (unat (dh_block_count h) + 1) * BLOCK_SIZE < 2 ^ 64 \<and>
     (\<exists>links listed. list_on_disk crc (viewer img h) links listed \<and> distinct listed \<and>
        list_all (in_file (dh_block_count h)) listed \<and> fst ` set links \<subseteq> P \<and> P \<inter> set listed = {})"

definition session_ok :: "(u8 list \<Rightarrow> u32) \<Rightarrow> session \<Rightarrow> bool" where
  "session_ok crc S \<longleftrightarrow>
     (let z = ss_file S in
      zf_ok [] z \<and> disk_ok z \<and> in_reach z \<and> lists_ok z \<and> tx_ok z \<and>
      ss_mine S \<subseteq> live z \<and> ss_pub S \<inter> ss_mine S = {} \<and> ss_pub S \<inter> set_mset (spare z) = {} \<and>
      (\<forall>p \<in> ss_pub S. in_file (dh_block_count (zf_db z)) p) \<and>
      ss_mark S \<le> length (di_log (zf_disk z)) \<and> list_all (staged (- ss_pub S)) (ss_since S) \<and>
      di_image (zf_disk z) = replay (ss_since S) (ss_base S) \<and>
      recoverable crc (ss_head S) (zf_active_slot z) (ss_pub S) (ss_base S) \<and>
      dh_epoch (ss_head S) \<le> dh_epoch (zf_db z))"

subsection \<open>Every step keeps the published state\<close>

lemma session_frame:
  assumes ok: "session_ok crc S" and S1: "ss_file S1 = z" "ss_pub S1 = ss_pub S" "ss_head S1 = ss_head S" "ss_base S1 = ss_base S"
      "ss_mark S1 = ss_mark S"
    and disk: "logged (staged (- ss_pub S)) (ss_file S) z evs" "zf_active_slot z = zf_active_slot (ss_file S)"
      "dh_epoch (zf_db z) = dh_epoch (zf_db (ss_file S))" "dh_block_count (zf_db (ss_file S)) \<le> dh_block_count (zf_db z)"
    and z: "zf_ok [] z" "disk_ok z" "in_reach z" "lists_ok z" "tx_ok z"
    and mine: "ss_mine S1 \<subseteq> live z" "ss_pub S \<inter> ss_mine S1 = {}" "ss_pub S \<inter> set_mset (spare z) = {}"
  shows "session_ok crc S1"
proof -
  let ?z = "ss_file S"
  have o: "ss_mark S \<le> length (di_log (zf_disk ?z))" "list_all (staged (- ss_pub S)) (ss_since S)"
      "di_image (zf_disk ?z) = replay (ss_since S) (ss_base S)" "\<forall>p \<in> ss_pub S. in_file (dh_block_count (zf_db ?z)) p"
      "recoverable crc (ss_head S) (zf_active_slot ?z) (ss_pub S) (ss_base S)" "dh_epoch (ss_head S) \<le> dh_epoch (zf_db ?z)"
    using ok by (simp_all add: session_ok_def Let_def)
  have s: "ss_since S1 = ss_since S @ evs" using disk(1) o(1) S1 by (simp add: ss_since_def logged_def)
  have "in_file (dh_block_count (zf_db z)) p" if "p \<in> ss_pub S" for p
    using o(4) that disk(4) order_trans unfolding in_file_def by blast
  moreover have "di_image (zf_disk z) = replay (ss_since S1) (ss_base S)"
    using disk(1) o(3) by (simp add: s logged_def replay_append)
  moreover have "list_all (staged (- ss_pub S)) (ss_since S1)" using disk(1) o(2) by (simp add: s logged_def)
  moreover have "ss_mark S \<le> length (di_log (zf_disk z))" using disk(1) o(1) by (simp add: logged_def)
  ultimately show ?thesis
    using o(5,6) z mine disk(2,3) by (simp add: session_ok_def Let_def S1)
qed

lemma session_facts:
  assumes "session_ok crc S"
  shows "zf_ok [] (ss_file S)" "disk_ok (ss_file S)" "in_reach (ss_file S)" "lists_ok (ss_file S)" "tx_ok (ss_file S)"
    "ss_mine S \<subseteq> live (ss_file S)" "ss_pub S \<inter> ss_mine S = {}" "ss_pub S \<inter> set_mset (spare (ss_file S)) = {}"
    "p \<in> ss_pub S \<Longrightarrow> in_file (dh_block_count (zf_db (ss_file S))) p"
  using assms by (simp_all add: session_ok_def Let_def)

text \<open>A block handed out leaves the lists, or is the next one of the file.\<close>

lemma allocate_block_acct:
  assumes run: "allocate_block z = Some (p, z1)" and lists: "lists_ok z"
  shows "grew z z1 \<and> lists_ok z1 \<and> live z1 = insert p (live z) \<and> p \<notin> live z \<and> set_mset (spare z1) \<subseteq> set_mset (spare z) \<and>
    (p \<in> set (zf_free z) \<or> dh_block_count (zf_db z) < p) \<and> set (zf_free z1) \<subseteq> set (zf_free z) \<and>
    dh_block_count (zf_db z) \<le> dh_block_count (zf_db z1) \<and> zf_savepoint z1 = zf_savepoint z \<and> dh_epoch (zf_db z1) = dh_epoch (zf_db z) \<and>
    zf_active_slot z1 = zf_active_slot z"
proof (cases "zf_free z = []")
  case False
  then obtain bs where b: "zf_free z = bs @ [p]" "z1 = z\<lparr>zf_unpublished := zf_unpublished z + 1, zf_free := bs\<rparr>"
    using run by (auto simp: allocate_block_def Let_def) (metis append_butlast_last_id)
  have g: "grew z z1" unfolding grew_def by (rule exI [of _ "dh_block_count (zf_db z)"]) (simp add: b(2))
  have a: "acct z = add_mset p (acct z1)" by (simp add: acct_def spare_def b)
  have c: "count (acct z1) q \<le> 1" for q
  proof -
    have "count (acct z) q \<le> 1" using lists by (simp add: lists_ok_def)
    then show ?thesis unfolding a by (simp split: if_splits)
  qed
  have "count (acct z) p \<le> 1" using lists by (simp add: lists_ok_def)
  then have "count (acct z1) p = 0" by (simp add: a)
  then have np: "p \<notin># acct z1" by (simp add: not_in_iff)
  have inp: "in_file (dh_block_count (zf_db z)) p" using lists by (simp add: lists_ok_def a)
  have "lists_ok z1" using lists c by (simp add: lists_ok_def a) (simp add: b(2))
  moreover have "live z1 = insert p (live z)" using np inp by (auto simp: live_def a b(2))
  moreover have "p \<notin> live z" by (simp add: live_def a)
  moreover have "set_mset (spare z1) \<subseteq> set_mset (spare z)" by (auto simp: spare_def b)
  ultimately show ?thesis using g by (auto simp: b)
next
  case True
  let ?n = "dh_block_count (zf_db z)"
  have b: "p = ?n + 1" "?n + 1 \<noteq> 0"
      "z1 = z\<lparr>zf_unpublished := zf_unpublished z + 1, zf_db := (zf_db z)\<lparr>dh_block_count := ?n + 1\<rparr>\<rparr>"
    using run True by (auto simp: allocate_block_def Let_def split: if_splits)
  have u: "unat (?n + 1) = unat ?n + 1" using b(2) by (metis Suc_eq_plus1 add.commute unatSuc)
  have g: "grew z z1" unfolding grew_def by (rule exI [of _ "?n + 1"]) (simp add: b(3))
  have lt: "?n < ?n + 1" using u by (simp add: word_less_nat_alt)
  have step: "q \<le> ?n + 1 \<longleftrightarrow> q \<le> ?n \<or> q = ?n + 1" for q
    using u unfolding word_le_nat_alt word_unat_eq_iff by linarith
  have a: "acct z1 = acct z" by (simp add: acct_def spare_def b)
  have up: "in_file (?n + 1) q \<longleftrightarrow> in_file ?n q \<or> q = ?n + 1" for q
    using step b(2) by (auto simp: in_file_def NULL_BLOCK_def)
  have n: "?n + 1 \<notin># acct z" using lists lt by (auto simp: lists_ok_def in_file_def not_le [symmetric])
  have cnt: "dh_block_count (zf_db z1) = ?n + 1" by (simp add: b(3))
  have "lists_ok z1" using lists unfolding lists_ok_def a cnt by (simp add: up)
  moreover have "live z1 = insert p (live z)" using n unfolding live_def a cnt up b(1) by auto
  moreover have "p \<notin> live z" using lt by (auto simp: live_def in_file_def b(1) not_le [symmetric])
  moreover have "spare z1 = spare z" by (simp add: spare_def b)
  ultimately show ?thesis using g lt by (simp add: b)
qed

lemma lists_disjoint: "lists_ok z \<Longrightarrow> p \<in> live z \<Longrightarrow> p \<notin># spare z"
  by (simp add: live_def acct_def)

lemma put_ok:
  assumes "zf_ok [] z" "disk_ok z" "in_reach z" "in_file (dh_block_count (zf_db z)) p" "write_block p data z = Some (Inr (), z1)"
  shows "zf_ok [] z1 \<and> wrote z z1 \<and> disk_ok z1 \<and> (\<exists>evs. logged (block_write {p}) z z1 evs) \<and>
    (\<forall>q b. q \<noteq> p \<longrightarrow> block_at z q = Some b \<longrightarrow> block_at z1 q = Some b) \<and> block_at z1 p = Some data"
proof -
  have c: "check_ptr p z = Inr ()" using assms(4) by (simp add: check_ptr_Inr in_file_def)
  have small: "(unat p + 1) * BLOCK_SIZE < 2 ^ 64" by (rule in_reach_ptr [OF assms(3)]) (use assms(4) in \<open>simp add: in_file_def\<close>)
  have len: "length data = BLOCK_SIZE" using assms(5) by (auto simp: write_block_def split: if_splits)
  have w: "zf_writable z" "di_writable (zf_disk z)" using assms(2) by (simp_all add: disk_ok_def)
  obtain z2 where z2: "write_block p data z = Some (Inr (), z2)" "zf_ok [] z2" "wrote z z2" "di_writable (zf_disk z2)"
      "zf_disk z2 = (zf_disk z)\<lparr>di_log := di_log (zf_disk z) @ [WriteEvent (unat p * BLOCK_SIZE) data],
        di_image := put_bytes (di_image (zf_disk z)) (unat p * BLOCK_SIZE) data\<rparr>"
      "block_at z2 p = Some data" "\<forall>q b. q \<noteq> p \<longrightarrow> block_at z q = Some b \<longrightarrow> block_at z2 q = Some b"
    using write_block_ok [OF assms(1) w c small len] by blast
  have e: "z1 = z2" using z2(1) assms(5) by simp
  have "block_write {p} (WriteEvent (unat p * BLOCK_SIZE) data)"
    using len assms(4) by (auto simp: block_write_def in_file_def)
  then have l: "logged (block_write {p}) z z2 [WriteEvent (unat p * BLOCK_SIZE) data]" by (simp add: logged_def z2(5))
  moreover have "disk_ok z2"
    by (rule wrote_disk_ok [OF z2(3) assms(2) z2(4) l]) (simp add: grows_def)
  ultimately show ?thesis using z2 e by blast
qed

lemma wrote_lists:
  assumes "wrote z z1"
  shows "acct z1 = acct z" "spare z1 = spare z" "live z1 = live z" "lists_ok z1 = lists_ok z" "tx_ok z1 = tx_ok z"
    "in_reach z1 = in_reach z" "zf_savepoint z1 = zf_savepoint z" "zf_active_slot z1 = zf_active_slot z"
    "zf_db z1 = zf_db z"
proof -
  obtain d c po m where z1: "z1 = z\<lparr>zf_disk := d, zf_cache := c, zf_pools := po, zf_pin_memo := m\<rparr>"
    using assms unfolding wrote_def by blast
  show s: "spare z1 = spare z" by (simp add: spare_def z1)
  then show a: "acct z1 = acct z" by (simp add: acct_def) (simp add: z1)
  then show "live z1 = live z" "lists_ok z1 = lists_ok z" unfolding live_def lists_ok_def by (simp_all add: z1)
  show "tx_ok z1 = tx_ok z" "in_reach z1 = in_reach z" "zf_savepoint z1 = zf_savepoint z" "zf_active_slot z1 = zf_active_slot z"
    "zf_db z1 = zf_db z"
    by (simp_all add: tx_ok_def in_reach_def z1)
qed

lemma block_write_staged: "block_write V ev \<Longrightarrow> V \<subseteq> W \<Longrightarrow> staged W ev"
  by (simp add: staged_def block_write_mono)

lemma read_ok:
  assumes "zf_ok [] z" "in_reach z" "read_block p z = Some (r, z1)"
  shows "zf_ok [] z1 \<and> quiet z z1 \<and> (\<forall>b. r = Inr b \<longrightarrow> block_at z p = Some b)"
proof (cases "check_ptr p z")
  case (Inl e)
  then have "read_block p z = Some (Inl e, z)" by (simp add: read_block_def pin_block_def)
  then show ?thesis using assms by simp
next
  case (Inr u)
  then have c: "check_ptr p z = Inr ()" by simp
  have "unat p * BLOCK_SIZE < 2 ^ 64" by (rule in_reach_off [OF assms(2)]) (use c in \<open>simp add: check_ptr_Inr\<close>)
  then show ?thesis using read_block_quiet [OF assms(1) c] assms(3) by fastforce
qed

lemma give_ok:
  assumes "lists_ok z" "p \<in> live z" "free_block p z = Some (Inr (), z1)"
  shows "z1 = z\<lparr>zf_pending_free := zf_pending_free z @ [p]\<rparr> \<and> lists_ok z1 \<and> live z1 = live z - {p} \<and> spare z1 = spare z"
proof -
  have z1: "z1 = z\<lparr>zf_pending_free := zf_pending_free z @ [p]\<rparr>"
    using assms(3) by (auto simp: free_block_def split: sum.splits)
  have s: "spare z1 = spare z" by (simp add: z1 spare_def)
  then have a: "acct z1 = add_mset p (acct z)" by (simp add: acct_def) (simp add: z1)
  have np: "p \<notin># acct z" "in_file (dh_block_count (zf_db z)) p" using assms(2) by (simp_all add: live_def)
  then have "count (acct z) p = 0" by (simp add: not_in_iff)
  then have "count (acct z1) q \<le> 1" for q using assms(1) by (cases "q = p") (simp_all add: a lists_ok_def)
  then have "lists_ok z1" using assms(1) np(2) unfolding lists_ok_def a by (simp add: z1)
  moreover have "live z1 = live z - {p}" unfolding live_def a by (auto simp: z1)
  ultimately show ?thesis using z1 s by simp
qed

lemma handed_disk_ok: "handed z z1 \<Longrightarrow> disk_ok z1 = disk_ok z \<and> in_reach z1 = in_reach z"
  unfolding handed_def by (elim conjE) (erule ssubst, simp add: disk_ok_def in_reach_def)

text \<open>What the next commit writes before its flip is no published block.\<close>

lemma pub_out:
  assumes "session_ok crc S"
  shows "ss_pub S \<inter> (set (zf_free (ss_file S)) \<union> {p. dh_block_count (zf_db (ss_file S)) < p}) = {}"
proof -
  have "\<not> dh_block_count (zf_db (ss_file S)) < p" if "p \<in> ss_pub S" for p
    using session_facts(9) [OF assms that] by (simp add: in_file_def not_less)
  then show ?thesis using session_facts(8) [OF assms] by (auto simp: spare_def)
qed

lemma publish_header:
  assumes "publishes crc z z1 pre" "list_all (staged W) since" "di_image (zf_disk z) = replay since base" "FILE_HEADER_SIZE \<le> length base"
  shows "window (di_image (zf_disk z1)) 0 FILE_HEADER_SIZE = window base 0 FILE_HEADER_SIZE"
proof -
  let ?evs = "since @ pre @ [SyncEvent, WriteEvent (slot_at (zf_active_slot z1)) (db_header_encode crc (zf_db z1)), SyncEvent]"
  have ab: "list_all above ?evs" using publishes_above [OF assms(1)] staged_above assms(2) by (auto simp: list_all_iff)
  have "di_image (zf_disk z1) = replay ?evs base"
    using assms(1,3) by (simp add: publishes_def Let_def replay_append replay_def apply_event_def)
  moreover have "list_all grows ?evs" using ab by (auto simp: list_all_iff above_def)
  ultimately show ?thesis using above_header [OF ab torn_replay assms(4)] by simp
qed

text \<open>A commit publishes the blocks then in use, under the header then written.\<close>

lemma commit_ok:
  assumes ok: "session_ok crc S" and room: "roomy (ss_file S)" and run: "checkpoint crc (ss_file S) = Some (Inr (), z1)"
  shows "session_ok crc (committed S z1) \<and> live z1 = live (ss_file S) \<and>
    dh_block_count (zf_db (ss_file S)) \<le> dh_block_count (zf_db z1) \<and>
    map_option sp_kept (zf_savepoint z1) = map_option sp_kept (zf_savepoint (ss_file S)) \<and> (\<exists>pre. publishes crc (ss_file S) z1 pre)"
proof -
  let ?z = "ss_file S"
  note f = session_facts [OF ok]
  obtain z2 pre links listed new where c: "checkpoint crc ?z = Some (Inr (), z2)" "zf_ok [] z2" "disk_ok z2" "in_reach z2"
      "publishes crc ?z z2 pre" "acct z2 = acct ?z + mset new" "distinct new"
      "set new = {p. dh_block_count (zf_db ?z) < p \<and> p \<le> dh_block_count (zf_db z2)}"
      "zf_free_chain z2 = map fst links" "list_on_disk crc z2 links listed" "distinct listed"
      "list_all (in_file (dh_block_count (zf_db z2))) listed" "set listed \<subseteq> set_mset (spare z2)"
      "map_option sp_kept (zf_savepoint z2) = map_option sp_kept (zf_savepoint ?z)" "tx_ok z2"
    using checkpoint_ok [OF f(1,2,4) room, of crc] by blast
  have e: "z1 = z2" using c(1) run by simp
  have cnt: "dh_block_count (zf_db ?z) \<le> dh_block_count (zf_db z2)" using c(5) by (auto simp: publishes_def Let_def)
  have l: "lists_ok z2" "live z2 = live ?z" using grown_lists [OF f(4) c(6,7,8) cnt] by simp_all
  have reach: "(unat (dh_block_count (zf_db z2)) + 1) * BLOCK_SIZE < 2 ^ 64" using c(4) by (simp add: in_reach_def)
  have j: "zf_active_slot z2 < 2" "BLOCK_SIZE \<le> length (di_image (zf_disk z2))" using c(3) by (simp_all add: disk_ok_def)
  have pub: "in_use z2 \<inter> set_mset (spare z2) = {}"
  proof -
    have "p \<notin># spare z2" if "p \<in> set (zf_free_chain z2)" for p
    proof
      assume "p \<in># spare z2"
      then have "0 < count (spare z2) p" "0 < count (mset (zf_free_chain z2)) p" using that by simp_all
      then have "2 \<le> count (acct z2) p" unfolding acct_def count_union by linarith
      moreover have "count (acct z2) p \<le> 1" using l(1) by (simp add: lists_ok_def)
      ultimately show False by simp
    qed
    then show ?thesis using lists_disjoint [OF l(1)] by (auto simp: in_use_def)
  qed
  have inf: "in_file (dh_block_count (zf_db z2)) p" if "p \<in> in_use z2" for p
    using that l(1) by (auto simp: in_use_def live_def lists_ok_def acct_def)
  let ?i = "zf_active_slot ?z"
  have rec: "recoverable crc (ss_head S) ?i (ss_pub S) (ss_base S)" "list_all (staged (- ss_pub S)) (ss_since S)"
      "di_image (zf_disk ?z) = replay (ss_since S) (ss_base S)" "dh_epoch (ss_head S) \<le> dh_epoch (zf_db ?z)"
    using ok by (simp_all add: session_ok_def Let_def)
  have "reopens crc (di_image (zf_disk z2)) = Some (zf_db z2, zf_active_slot z2)"
    using publish_reopens [OF c(5) rec(2) pub_out [OF ok] _ rec(3) _ rec(4)] rec(1) room in_reach_addressable [OF c(4)]
    by (simp add: recoverable_def roomy_def)
  moreover have "window (di_image (zf_disk z2)) 0 FILE_HEADER_SIZE = window (ss_base S) 0 FILE_HEADER_SIZE"
    using publish_header [OF c(5) rec(2,3)] rec(1) by (simp add: recoverable_def layout)
  ultimately have r: "recoverable crc (zf_db z2) (zf_active_slot z2) (in_use z2) (di_image (zf_disk z2))"
  proof -
    assume re: "reopens crc (di_image (zf_disk z2)) = Some (zf_db z2, zf_active_slot z2)"
      and hd: "window (di_image (zf_disk z2)) 0 FILE_HEADER_SIZE = window (ss_base S) 0 FILE_HEADER_SIZE"
    have "\<exists>fh. file_header_decode crc (window (di_image (zf_disk z2)) 0 FILE_HEADER_SIZE) = Inr fh"
      using rec(1) unfolding recoverable_def hd by blast
    moreover
    have "list_on_disk crc (viewer (di_image (zf_disk z2)) (zf_db z2)) links listed"
      by (rule list_on_disk_mono [OF c(10)]) (simp_all add: block_at_image)
    moreover have "fst ` set links \<subseteq> in_use z2" using c(9) by (auto simp: in_use_def)
    moreover have "in_use z2 \<inter> set listed = {}" using pub c(13) by blast
    ultimately show ?thesis
      using j(2) reach c(11,12) re
      unfolding recoverable_def by blast
  qed
  have "session_ok crc (committed S z2)"
    using c(2,3,4,15) l(1) pub inf r by (simp add: session_ok_def Let_def committed_def ss_since_def)
  then show ?thesis using l(2) cnt c(5,14) e by blast
qed

lemma begin_savepoint_some:
  assumes "begin_savepoint across floor z = Some (Inr (), z1)"
  shows "\<exists>s. z1 = z\<lparr>zf_savepoint := Some s\<rparr> \<and> sp_db s = zf_db z \<and> sp_reusable s = set (zf_free z)"
  using assms by (auto simp: begin_savepoint_def split: sum.splits if_splits)

lemma session_step_ok: "session_step crc S S1 \<Longrightarrow> session_ok crc S \<Longrightarrow> session_ok crc S1"
proof (induction rule: session_step.induct)
  case (new_block S p z)
  note f = session_facts [OF new_block.prems]
  have a: "grew (ss_file S) z" "lists_ok z" "live z = insert p (live (ss_file S))" "p \<notin> live (ss_file S)"
      "set_mset (spare z) \<subseteq> set_mset (spare (ss_file S))" "p \<in> set (zf_free (ss_file S)) \<or> dh_block_count (zf_db (ss_file S)) < p"
      "set (zf_free z) \<subseteq> set (zf_free (ss_file S))" "dh_block_count (zf_db (ss_file S)) \<le> dh_block_count (zf_db z)"
      "zf_savepoint z = zf_savepoint (ss_file S)" "dh_epoch (zf_db z) = dh_epoch (zf_db (ss_file S))"
      "zf_active_slot z = zf_active_slot (ss_file S)"
    using allocate_block_acct [OF new_block.hyps(1) f(4)] by auto
  note g = grew_keeps [OF a(1)]
  have lg: "logged (staged (- ss_pub S)) (ss_file S) z []" by (rule logged_refl) (use g in simp)
  have "tx_ok z" using f(5) a(7,9) by (auto simp: tx_ok_def)
  moreover have "p \<notin> ss_pub S" using pub_out [OF new_block.prems] a(6) by auto
  ultimately show ?case
    by (intro session_frame [OF new_block.prems _ _ _ _ _ lg]) (use f a g new_block.hyps(2) grew_disk_ok [OF a(1)] in auto)
next
  case (put p S data z)
  note f = session_facts [OF put.prems]
  have inf: "in_file (dh_block_count (zf_db (ss_file S))) p" using f(6) put.hyps(1) by (auto simp: live_def)
  obtain evs where w: "zf_ok [] z" "wrote (ss_file S) z" "disk_ok z" "logged (block_write {p}) (ss_file S) z evs"
    using put_ok [OF f(1-3) inf put.hyps(2)] by blast
  note l = wrote_lists [OF w(2)]
  have "p \<notin> ss_pub S" using f(7) put.hyps(1) by blast
  then have lg: "logged (staged (- ss_pub S)) (ss_file S) z evs"
    using w(4) by (auto elim!: logged_mono intro: block_write_staged)
  then show ?case
    by (intro session_frame [OF put.prems _ _ _ _ _ lg]) (use f w l in simp_all)
next
  case (get p S r z)
  note f = session_facts [OF get.prems]
  have r: "zf_ok [] z" "quiet (ss_file S) z" using read_ok [OF f(1,3) get.hyps] by simp_all
  note l = wrote_lists [OF quiet_wrote [OF r(2)]]
  have d: "zf_disk z = zf_disk (ss_file S)" "zf_writable z = zf_writable (ss_file S)" using quiet_keeps [OF r(2)] by simp_all
  then have lg: "logged (staged (- ss_pub S)) (ss_file S) z []" by (intro logged_refl)
  then show ?case
    by (intro session_frame [OF get.prems _ _ _ _ _ lg]) (use f r l d in \<open>simp_all add: disk_ok_def\<close>)
next
  case (give p S z)
  note f = session_facts [OF give.prems]
  have g: "z = (ss_file S)\<lparr>zf_pending_free := zf_pending_free (ss_file S) @ [p]\<rparr>" "lists_ok z" "live z = live (ss_file S) - {p}"
      "spare z = spare (ss_file S)"
    using give_ok [OF f(4) give.hyps] by blast+
  have b: "block_at z = block_at (ss_file S)" by (simp add: g(1) block_at_image)
  have "zf_ok [] z" using zf_ok_cong [OF _ _ _ b] f(1) by (simp add: g(1))
  moreover have lg: "logged (staged (- ss_pub S)) (ss_file S) z []" by (rule logged_refl) (simp add: g(1))
  moreover have "disk_ok z" "in_reach z" "tx_ok z" "zf_active_slot z = zf_active_slot (ss_file S)" "zf_db z = zf_db (ss_file S)"
    using f(2,3,5) by (simp_all add: g(1) disk_ok_def in_reach_def tx_ok_def)
  ultimately show ?case
    by (intro session_frame [OF give.prems _ _ _ _ _ lg]) (use f(6-8) g(2-4) in \<open>auto\<close>)
next
  case (reuse floor S n z)
  note f = session_facts [OF reuse.prems]
  have h: "handed (ss_file S) z" "tx_ok z"
    using release_retained_handed [of "ss_file S" floor] release_retained_tx [OF f(5), of floor] reuse.hyps by simp_all
  note k = handed_keeps [OF h(1)]
  have "spare z = spare (ss_file S)" using h(1) by (simp add: handed_def)
  moreover have lg: "logged (staged (- ss_pub S)) (ss_file S) z []" by (rule logged_refl) (simp add: k(2))
  ultimately show ?case
    by (intro session_frame [OF reuse.prems _ _ _ _ _ lg]) (use f k h handed_disk_ok [OF h(1)] in simp_all)
next
  case (begin_tx across floor S z)
  note f = session_facts [OF begin_tx.prems]
  obtain s where s: "z = (ss_file S)\<lparr>zf_savepoint := Some s\<rparr>" "sp_reusable s = set (zf_free (ss_file S))"
    using begin_savepoint_some [OF begin_tx.hyps] by blast
  have b: "block_at z = block_at (ss_file S)" by (simp add: s(1) block_at_image)
  have "zf_ok [] z" using zf_ok_cong [OF _ _ _ b] f(1) by (simp add: s(1))
  moreover have lg: "logged (staged (- ss_pub S)) (ss_file S) z []" by (rule logged_refl) (simp add: s(1))
  moreover have sp: "spare z = spare (ss_file S)" by (simp add: s(1) spare_def)
  have "acct z = acct (ss_file S)" by (simp add: acct_def sp) (simp add: s(1))
  then have "lists_ok z" using f(4) by (simp add: lists_ok_def) (simp add: s(1))
  moreover have "disk_ok z" "in_reach z" "tx_ok z" "zf_active_slot z = zf_active_slot (ss_file S)" "zf_db z = zf_db (ss_file S)"
    using f(2,3) by (simp_all add: s disk_ok_def in_reach_def tx_ok_def)
  ultimately show ?case
    by (intro session_frame [OF begin_tx.prems _ _ _ _ _ lg]) (use f(8) sp in simp_all)
next
  case (end_tx S z)
  note f = session_facts [OF end_tx.prems]
  obtain evs d x g r where e: "z = (ss_file S)\<lparr>zf_disk := d, zf_free := x, zf_frozen := g, zf_savepoint := None, zf_retained := r\<rparr>"
      "zf_ok [] z" "disk_ok z" "logged (staged {}) (ss_file S) z evs" "spare z = spare (ss_file S)"
    using release_savepoint_ok [OF f(1,2)] end_tx.hyps by auto
  have l: "logged (staged (- ss_pub S)) (ss_file S) z evs" using e(4) by (rule logged_mono) (auto intro: staged_mono)
  have a: "acct z = acct (ss_file S)" by (simp add: acct_def e(5)) (simp add: e(1))
  have db: "zf_db z = zf_db (ss_file S)" "zf_active_slot z = zf_active_slot (ss_file S)" "zf_savepoint z = None" by (simp_all add: e(1))
  have "lists_ok z" "live z = live (ss_file S)" using f(4) by (simp_all add: lists_ok_def live_def a db)
  moreover have "in_reach z" "tx_ok z" using f(3) by (simp_all add: in_reach_def tx_ok_def db)
  ultimately show ?case
    by (intro session_frame [OF end_tx.prems _ _ _ _ _ l]) (use f e db in simp_all)
next
  case (commit S z)
  then show ?case using commit_ok by blast
qed

lemma sessions_ok: "sessions crc S S1 \<Longrightarrow> session_ok crc S \<Longrightarrow> session_ok crc S1"
  unfolding sessions_def by (induction rule: rtranclp_induct) (auto intro: session_step_ok)

subsection \<open>What a transaction keeps\<close>

lemma intact_logged:
  assumes "logged (staged W) z z1 evs" "intact P img (di_image (zf_disk z))" "BLOCK_SIZE \<le> length (di_image (zf_disk z))" "P \<inter> W = {}"
  shows "intact P img (di_image (zf_disk z1))"
proof -
  have "torn evs (di_image (zf_disk z)) (di_image (zf_disk z1))"
    using assms(1) unfolding logged_def by (metis staged_torn)
  then show ?thesis using intact_trans [OF assms(2)] intact_staged assms(1,3,4) unfolding logged_def by blast
qed

lemma publishes_intact:
  assumes pub: "publishes crc z z1 pre" and dk: "disk_ok z" "disk_ok z1"
    and out: "P \<inter> (set (zf_free z) \<union> {p. dh_block_count (zf_db z) < p}) = {}" and img: "intact P img (di_image (zf_disk z))"
  shows "intact P img (di_image (zf_disk z1))"
proof -
  let ?W = "set (zf_free z) \<union> {p. dh_block_count (zf_db z) < p}"
  let ?mid = "replay pre (di_image (zf_disk z))" and ?hdr = "db_header_encode crc (zf_db z1)" and ?off = "slot_at (zf_active_slot z1)"
  have p: "list_all (staged ?W) pre" "di_image (zf_disk z1) = put_bytes ?mid ?off ?hdr"
    using pub by (simp_all add: publishes_def Let_def)
  have len: "BLOCK_SIZE \<le> length (di_image (zf_disk z))" using dk(1) by (simp add: disk_ok_def)
  have t: "torn pre (di_image (zf_disk z)) ?mid" by (rule staged_torn [OF p(1)])
  have lm: "BLOCK_SIZE \<le> length ?mid" using t len by (simp add: torn_def)
  have "?off + length ?hdr \<le> BLOCK_SIZE" using slot_in_region dk(2) by (simp add: disk_ok_def)
  then have "image_block (di_image (zf_disk z1)) = image_block ?mid" unfolding p(2) by (rule region_write(1) [OF _ lm])
  moreover have "intact P img ?mid" by (rule intact_trans [OF img intact_staged [OF t p(1) len out]])
  ultimately show ?thesis by (simp add: intact_def)
qed

lemma sp_blocks_kept: "sp_kept s = sp_kept s1 \<Longrightarrow> sp_blocks s = sp_blocks s1 \<and> sp_db s = sp_db s1 \<and> sp_reusable s = sp_reusable s1"
  by (simp add: sp_kept_def sp_blocks_def)

text \<open>Outside its free list and the file's end, nothing a transaction may write is kept.\<close>

lemma sp_out:
  assumes "zf_savepoint z = Some s" "tx_ok z" "dh_block_count (sp_db s) \<le> dh_block_count (zf_db z)"
  shows "sp_blocks s \<inter> (set (zf_free z) \<union> {p. dh_block_count (zf_db z) < p}) = {}"
proof -
  have "set (zf_free z) \<subseteq> sp_reusable s" using assms(1,2) by (simp add: tx_ok_def)
  moreover have "\<not> dh_block_count (zf_db z) < p" if "p \<le> dh_block_count (sp_db s)" for p
    using that assms(3) by (meson leD order_trans)
  ultimately show ?thesis by (auto simp: sp_blocks_def in_file_def)
qed

lemma session_step_tx: "session_step crc S S1 \<Longrightarrow> session_ok crc S \<Longrightarrow> tx_kept S \<Longrightarrow> tx_kept S1"
proof (induction rule: session_step.induct)
  case (new_block S p z)
  note f = session_facts [OF new_block.prems(1)]
  have a: "grew (ss_file S) z" "p \<in> set (zf_free (ss_file S)) \<or> dh_block_count (zf_db (ss_file S)) < p"
      "dh_block_count (zf_db (ss_file S)) \<le> dh_block_count (zf_db z)" "zf_savepoint z = zf_savepoint (ss_file S)"
    using allocate_block_acct [OF new_block.hyps(1) f(4)] by auto
  have d: "zf_disk z = zf_disk (ss_file S)" using grew_keeps [OF a(1)] by simp
  show ?case unfolding tx_kept_def
  proof (intro allI impI)
    fix s assume s: "zf_savepoint (ss_file (S\<lparr>ss_file := z, ss_mine := insert p (ss_mine S)\<rparr>)) = Some s"
    then have s0: "zf_savepoint (ss_file S) = Some s" using a(4) by simp
    then have k: "ss_mine S \<inter> sp_blocks s = {}" "dh_block_count (sp_db s) \<le> dh_block_count (zf_db (ss_file S))"
        "intact (sp_blocks s) (ss_begun S) (di_image (zf_disk (ss_file S)))"
      using new_block.prems(2) by (simp_all add: tx_kept_def)
    have "p \<notin> sp_blocks s" using sp_out [OF s0 f(5) k(2)] a(2) by auto
    then show "ss_mine (S\<lparr>ss_file := z, ss_mine := insert p (ss_mine S)\<rparr>) \<inter> sp_blocks s = {} \<and>
        dh_block_count (sp_db s) \<le> dh_block_count (zf_db (ss_file (S\<lparr>ss_file := z, ss_mine := insert p (ss_mine S)\<rparr>))) \<and>
        intact (sp_blocks s) (ss_begun (S\<lparr>ss_file := z, ss_mine := insert p (ss_mine S)\<rparr>))
          (di_image (zf_disk (ss_file (S\<lparr>ss_file := z, ss_mine := insert p (ss_mine S)\<rparr>))))"
      using k a(3) d by (auto intro: order_trans)
  qed
next
  case (put p S data z)
  note f = session_facts [OF put.prems(1)]
  have inf: "in_file (dh_block_count (zf_db (ss_file S))) p" using f(6) put.hyps(1) by (auto simp: live_def)
  obtain evs where w: "wrote (ss_file S) z" "logged (block_write {p}) (ss_file S) z evs"
    using put_ok [OF f(1-3) inf put.hyps(2)] by blast
  have l: "logged (staged {p}) (ss_file S) z evs" using w(2) by (rule logged_mono) (simp add: block_write_staged)
  have len: "BLOCK_SIZE \<le> length (di_image (zf_disk (ss_file S)))" using f(2) by (simp add: disk_ok_def)
  have "intact (sp_blocks s) (ss_begun S) (di_image (zf_disk z))" if "zf_savepoint (ss_file S) = Some s" for s
    using put.prems(2) that put.hyps(1) by (intro intact_logged [OF l _ len]) (auto simp: tx_kept_def)
  then show ?case using put.prems(2) wrote_lists [OF w(1)] by (simp add: tx_kept_def)
next
  case (get p S r z)
  note f = session_facts [OF get.prems(1)]
  have q: "quiet (ss_file S) z" using read_ok [OF f(1,3) get.hyps] by simp
  then show ?case using get.prems(2) wrote_lists [OF quiet_wrote [OF q]] quiet_keeps [OF q] by (simp add: tx_kept_def)
next
  case (give p S z)
  have "z = (ss_file S)\<lparr>zf_pending_free := zf_pending_free (ss_file S) @ [p]\<rparr>"
    using give_ok [OF session_facts(4) [OF give.prems(1)] give.hyps] by blast
  then show ?case using give.prems(2) by (auto simp: tx_kept_def)
next
  case (reuse floor S n z)
  have h: "handed (ss_file S) z" using release_retained_handed [of "ss_file S" floor] reuse.hyps by simp
  then show ?case using reuse.prems(2) handed_keeps [OF h] by (simp add: tx_kept_def)
next
  case (begin_tx across floor S z)
  then show ?case using begin_savepoint_some [OF begin_tx.hyps] by (auto simp: tx_kept_def)
next
  case (end_tx S z)
  note f = session_facts [OF end_tx.prems(1)]
  have "zf_savepoint z = None" using release_savepoint_ok [OF f(1,2)] end_tx.hyps by auto
  then show ?case by (simp add: tx_kept_def)
next
  case (commit S z)
  note f = session_facts [OF commit.prems(1)]
  obtain pre where c: "session_ok crc (committed S z)" "dh_block_count (zf_db (ss_file S)) \<le> dh_block_count (zf_db z)"
      "map_option sp_kept (zf_savepoint z) = map_option sp_kept (zf_savepoint (ss_file S))" "publishes crc (ss_file S) z pre"
    using commit_ok [OF commit.prems(1) commit.hyps] by blast
  have dk: "disk_ok z" using session_facts(2) [OF c(1)] by (simp add: committed_def)
  show ?case unfolding tx_kept_def
  proof (intro allI impI)
    fix s assume s: "zf_savepoint (ss_file (committed S z)) = Some s"
    then obtain s0 where s0: "zf_savepoint (ss_file S) = Some s0" "sp_kept s = sp_kept s0"
      using c(3) by (cases "zf_savepoint (ss_file S)") (auto simp: committed_def)
    note e = sp_blocks_kept [OF s0(2)]
    have k: "dh_block_count (sp_db s0) \<le> dh_block_count (zf_db (ss_file S))"
        "intact (sp_blocks s0) (ss_begun S) (di_image (zf_disk (ss_file S)))"
      using commit.prems(2) s0(1) by (simp_all add: tx_kept_def)
    have "intact (sp_blocks s0) (ss_begun S) (di_image (zf_disk z))"
      by (rule publishes_intact [OF c(4) f(2) dk sp_out [OF s0(1) f(5) k(1)] k(2)])
    then show "ss_mine (committed S z) \<inter> sp_blocks s = {} \<and>
        dh_block_count (sp_db s) \<le> dh_block_count (zf_db (ss_file (committed S z))) \<and>
        intact (sp_blocks s) (ss_begun (committed S z)) (di_image (zf_disk (ss_file (committed S z))))"
      using e k(1) c(2) by (auto simp: committed_def intro: order_trans)
  qed
qed

lemma sessions_tx: "sessions crc S S1 \<Longrightarrow> session_ok crc S \<Longrightarrow> tx_kept S \<Longrightarrow> tx_kept S1"
  unfolding sessions_def
proof (induction rule: rtranclp_induct)
  case (step S1 S2)
  then show ?case using session_step_tx sessions_ok [unfolded sessions_def] by blast
qed

subsection \<open>Crashes\<close>

text \<open>
  A crash during the session, or during the checkpoint that would follow it, leaves the state
  last published or the state of that checkpoint, whole.
\<close>

lemma crash_append: "crash xs img img1 \<Longrightarrow> crash (xs @ ys) img img1"
proof (induction rule: crash.induct)
  case (lost evs img img1 rest) then show ?case using crash.lost [of evs img img1 "rest @ ys"] by simp
next
  case (synced rest evs img img1) then show ?case using crash.synced [of "rest @ ys" evs img img1] by simp
qed

definition outlives :: "(u8 list \<Rightarrow> u32) \<Rightarrow> db_header \<Rightarrow> nat \<Rightarrow> u64 set \<Rightarrow> u8 list \<Rightarrow> u8 list \<Rightarrow> bool" where
  "outlives crc h i P img img1 \<longleftrightarrow> reopens crc img1 = Some (h, i) \<and> intact P img img1 \<and> BLOCK_SIZE \<le> length img1 \<and>
     window img1 0 FILE_HEADER_SIZE = window img 0 FILE_HEADER_SIZE"

lemma outlives_recoverable:
  assumes "recoverable crc h i P img" "outlives crc h i P img img1"
  shows "recoverable crc h i P img1"
proof -
  obtain links listed where l: "list_on_disk crc (viewer img h) links listed" "distinct listed"
      "list_all (in_file (dh_block_count h)) listed" "fst ` set links \<subseteq> P" "P \<inter> set listed = {}"
    using assms(1) by (auto simp: recoverable_def)
  have "list_on_disk crc (viewer img1 h) links listed"
    by (rule list_on_disk_mono [OF l(1)]) (use l(4) assms(2) in \<open>auto simp: outlives_def intact_def\<close>)
  then show ?thesis using assms l unfolding recoverable_def outlives_def by auto
qed

lemma session_crash:
  assumes ok: "session_ok crc S" and room: "roomy (ss_file S)" and run: "checkpoint crc (ss_file S) = Some (Inr (), z)"
    and crash: "crash (drop (ss_mark S) (di_log (zf_disk z))) (ss_base S) img"
    and det: "tear_detected crc (ss_base S) img (zf_active_slot z) (zf_db z)"
  shows "outlives crc (ss_head S) (zf_active_slot (ss_file S)) (ss_pub S) (ss_base S) img \<or>
    outlives crc (zf_db z) (zf_active_slot z) (in_use z) (di_image (zf_disk z)) img"
proof -
  obtain pre where c: "session_ok crc (committed S z)" "publishes crc (ss_file S) z pre"
    using commit_ok [OF ok room run] by blast
  have o: "recoverable crc (ss_head S) (zf_active_slot (ss_file S)) (ss_pub S) (ss_base S)" "list_all (staged (- ss_pub S)) (ss_since S)"
      "di_image (zf_disk (ss_file S)) = replay (ss_since S) (ss_base S)" "dh_epoch (ss_head S) \<le> dh_epoch (zf_db (ss_file S))"
      "ss_mark S \<le> length (di_log (zf_disk (ss_file S)))"
    using ok by (simp_all add: session_ok_def Let_def)
  let ?evs = "pre @ [SyncEvent, WriteEvent (slot_at (zf_active_slot z)) (db_header_encode crc (zf_db z)), SyncEvent]"
  have log: "drop (ss_mark S) (di_log (zf_disk z)) = ss_since S @ ?evs"
    using c(2) o(5) by (simp add: publishes_def Let_def ss_since_def)
  have adr: "addressable (dh_block_count (zf_db z))"
    using in_reach_addressable session_facts(3) [OF c(1)] by (simp add: committed_def)
  have "reopens crc img = Some (ss_head S, zf_active_slot (ss_file S)) \<and> intact (ss_pub S) (ss_base S) img \<or>
      reopens crc img = Some (zf_db z, zf_active_slot z) \<and> intact UNIV (di_image (zf_disk z)) img"
    using commit_crash [OF c(2) o(2) pub_out [OF ok] _ o(3) _ o(4) _ adr crash [unfolded log] det] o(1) room
    by (simp add: recoverable_def roomy_def)
  moreover have "BLOCK_SIZE \<le> length img \<and> window img 0 FILE_HEADER_SIZE = window (ss_base S) 0 FILE_HEADER_SIZE"
  proof -
    have ab: "list_all above (ss_since S @ ?evs)"
      using publishes_above [OF c(2)] staged_above o(2) by (auto simp: list_all_iff)
    then have "list_all grows (ss_since S @ ?evs)" by (auto simp: list_all_iff above_def)
    then have t: "torn (ss_since S @ ?evs) (ss_base S) img" using crash_torn [OF crash [unfolded log]] by blast
    have len: "BLOCK_SIZE \<le> length (ss_base S)" using o(1) by (simp add: recoverable_def)
    then show ?thesis using above_header [OF ab t] t by (simp add: torn_def layout)
  qed
  moreover have "window (di_image (zf_disk z)) 0 FILE_HEADER_SIZE = window (ss_base S) 0 FILE_HEADER_SIZE"
    using publish_header [OF c(2) o(2,3)] o(1) by (simp add: recoverable_def layout)
  ultimately show ?thesis by (auto simp: outlives_def intact_def)
qed

subsection \<open>Where sessions start\<close>

definition starts :: "zfile \<Rightarrow> session" where
  "starts z = \<lparr>ss_file = z, ss_mine = {}, ss_head = zf_db z, ss_pub = in_use z, ss_base = di_image (zf_disk z),
     ss_mark = length (di_log (zf_disk z)), ss_begun = di_image (zf_disk z)\<rparr>"

text \<open>Reopening what a crash left, with no transaction's marker on the file, starts a session.\<close>

lemma reopen_session:
  assumes rec: "recoverable crc h i P img" and d: "di_image d = img" "di_writable d"
    and mark: "decode_marker crc (window img TXN_SLOT DB_HEADER_SIZE) = None"
  shows "\<exists>z. open_kind crc d path True = Some (Inr z) \<and> session_ok crc (starts z) \<and> tx_kept (starts z) \<and> zf_db z = h \<and>
    P \<inter> set_mset (spare z) = {} \<and> zf_disk z = d"
proof -
  obtain fh links listed where r: "BLOCK_SIZE \<le> length img" "file_header_decode crc (window img 0 FILE_HEADER_SIZE) = Inr fh"
      "reopens crc img = Some (h, i)" "(unat (dh_block_count h) + 1) * BLOCK_SIZE < 2 ^ 64"
      "list_on_disk crc (viewer img h) links listed" "distinct listed" "list_all (in_file (dh_block_count h)) listed"
      "fst ` set links \<subseteq> P" "P \<inter> set listed = {}"
    using rec unfolding recoverable_def by blast
  have rm: "resume_marker (decode_marker crc (window img TXN_SLOT DB_HEADER_SIZE)) h = (h, None)"
    by (simp add: mark resume_marker_def)
  obtain z where z: "open_kind crc d path True = Some (Inr z)" "zf_ok [] z" "zf_db z = h" "zf_active_slot z = i" "zf_free z = listed"
      "zf_free_chain z = map fst links" "zf_disk z = d" "zf_writable z"
      "zf_frozen z = []" "zf_pending_free z = []" "zf_retained z = []" "zf_savepoint z = None"
    using open_kind_ok [OF d(1) r(1,2,3) rm r(5,6,7,4), of path True] by auto
  have sp: "spare z = mset listed" by (simp add: spare_def z)
  have ac: "acct z = mset listed + mset (map fst links)" by (simp add: acct_def sp z)
  have c: "chain_at crc (viewer img h) links" "distinct (map fst links)" using r(5) by (simp_all add: list_on_disk_def)
  have lk: "in_file (dh_block_count h) p" if "p \<in> fst ` set links" for p
    using c(1) that by (induction crc "viewer img h" links rule: chain_at.induct) (auto simp: check_ptr_Inr in_file_def)
  have "distinct (listed @ map fst links)" using r(6,8,9) c(2) by auto
  then have "count (acct z) p \<le> 1" for p using distinct_once [of "listed @ map fst links" p] by (simp add: ac)
  then have lists: "lists_ok z" using r(7) lk unfolding lists_ok_def z(3) by (auto simp: ac list_all_iff)
  have "zf_active_slot z < 2" using reopens_slot [OF r(3)] z(4) by simp
  then have dk: "disk_ok z" using z(7,8) d r(1) by (simp add: disk_ok_def)
  have reach: "in_reach z" using r(4) by (simp add: in_reach_def z(3))
  have use: "in_use z \<inter> set_mset (spare z) = {}"
    using lists_disjoint [OF lists] r(8,9) by (auto simp: in_use_def z(6) sp)
  have inf: "in_file (dh_block_count h) p" if "p \<in> in_use z" for p
    using that lk by (auto simp: in_use_def live_def z(3,6))
  have "recoverable crc (zf_db z) (zf_active_slot z) (in_use z) (di_image (zf_disk z))"
  proof -
    have "fst ` set links \<subseteq> in_use z" "in_use z \<inter> set listed = {}" using use by (auto simp: in_use_def z(6) sp)
    then show ?thesis using r(1-7) unfolding recoverable_def z(3,4,7) d(1) by blast
  qed
  then have "session_ok crc (starts z)"
    using z(2,3) dk reach lists use inf by (simp add: session_ok_def Let_def starts_def ss_since_def tx_ok_def z(12))
  moreover have "tx_kept (starts z)" by (simp add: tx_kept_def starts_def z(12))
  ultimately show ?thesis using z(1,3,7) r(9) sp by auto
qed

text \<open>So does creating a file.\<close>

lemma window_resize: "off + n \<le> length img \<Longrightarrow> length img \<le> m \<Longrightarrow> window (resize img m) off n = window img off n"
  by (simp add: window_def resize_def)

lemma window_zeros: "length img \<le> off \<Longrightarrow> off + n \<le> m \<Longrightarrow> window (resize img m) off n = replicate n 0"
  by (intro nth_equalityI) (simp_all add: nth_window nth_resize)

lemma zero_header: "db_header_decode crc (replicate DB_HEADER_SIZE 0) = Some b \<Longrightarrow> dh_epoch b = 0"
proof -
  have "header_word (replicate DB_HEADER_SIZE 0) 0 = 0"
  proof -
    have "window (replicate DB_HEADER_SIZE 0) (0 * 8) 8 = u64_le 0"
      by (simp add: window_def DB_HEADER_SIZE_def min_def u64_le_def to_le_def numeral_eq_Suc)
    then show ?thesis by (simp add: header_word_def)
  qed
  then show "db_header_decode crc (replicate DB_HEADER_SIZE 0) = Some b \<Longrightarrow> dh_epoch b = 0"
    by (auto simp: db_header_decode_def split: if_splits)
qed

lemma fresh_supported: "supported (file_header_fresh nanos pid)"
proof -
  have "length (uuid_chunk x) = 8" for x by (simp add: uuid_chunk_def Let_def)
  then show ?thesis
    by (simp add: supported_def file_header_fresh_def MIN_READER_VERSION_def ZU1_FORMAT_VERSION_def fresh_uuid_def Let_def)
qed

lemma file_header_length: "supported h \<Longrightarrow> length (file_header_encode crc h) = FILE_HEADER_SIZE"
  by (simp add: file_header_encode_def file_header_body_def supported_def FILE_HEADER_SIZE_def)

lemma create_image:
  assumes d: "di_image d0 = []" "di_writable d0" and run: "create_within crc nanos pid d0 path = Inr z"
  defines "h \<equiv> file_header_encode crc (file_header_fresh nanos pid)"
  shows "\<exists>d. z = new_handle d path (file_header_fresh nanos pid) first_db 0 None True \<and> di_writable d \<and>
    di_image d = resize (h @ db_header_encode crc first_db) BLOCK_SIZE"
proof -
  let ?b = "db_header_encode crc first_db"
  have lh: "length h = FILE_HEADER_SIZE" unfolding h_def by (rule file_header_length [OF fresh_supported])
  have one: "put_bytes [] 0 h = h" by (simp add: put_bytes_def resize_def Let_def)
  have two: "put_bytes h FILE_HEADER_SIZE ?b = h @ ?b"
    using lh by (simp add: put_bytes_def resize_def Let_def FILE_HEADER_SIZE_def DB_HEADER_SIZE_def)
  define d1 where "d1 = d0\<lparr>di_log := di_log d0 @ [WriteEvent 0 h], di_image := h\<rparr>"
  define d2 where "d2 = d1\<lparr>di_log := di_log d1 @ [WriteEvent FILE_HEADER_SIZE ?b], di_image := h @ ?b\<rparr>"
  define d3 where "d3 = d2\<lparr>di_log := di_log d2 @ [SetLenEvent BLOCK_SIZE], di_image := resize (h @ ?b) BLOCK_SIZE\<rparr>"
  have s: "disk_write d0 h 0 = (Inr (), d1)" "disk_write d1 ?b FILE_HEADER_SIZE = (Inr (), d2)" "disk_set_len d2 BLOCK_SIZE = (Inr (), d3)"
    using d one two by (simp_all add: disk_write_ok d1_def d2_def d3_def disk_set_len_def disk_refused_def)
  have "z = new_handle (snd (disk_sync d3)) path (file_header_fresh nanos pid) first_db 0 None True"
    using run s by (simp add: create_within_def Let_def h_def [symmetric])
  then show ?thesis using d by (intro exI [of _ "snd (disk_sync d3)"]) (simp add: disk_sync_def d3_def d2_def d1_def)
qed

lemma create_session:
  assumes d: "di_image d0 = []" "di_writable d0" and run: "create_within crc nanos pid d0 path = Inr z"
  shows "session_ok crc (starts z) \<and> tx_kept (starts z)"
proof -
  let ?h = "file_header_encode crc (file_header_fresh nanos pid)" and ?b = "db_header_encode crc first_db"
  obtain di where z: "z = new_handle di path (file_header_fresh nanos pid) first_db 0 None True" "di_writable di"
      "di_image di = resize (?h @ ?b) BLOCK_SIZE"
    using create_image [OF assms] by blast
  let ?img = "resize (?h @ ?b) BLOCK_SIZE"
  have lh: "length ?h = FILE_HEADER_SIZE" by (rule file_header_length [OF fresh_supported])
  have w: "window ?img 0 FILE_HEADER_SIZE = ?h" "window ?img (slot_at 0) DB_HEADER_SIZE = ?b"
      "window ?img (slot_at 1) DB_HEADER_SIZE = replicate DB_HEADER_SIZE 0"
    using window_resize [of 0 FILE_HEADER_SIZE "?h @ ?b" BLOCK_SIZE] window_resize [of "slot_at 0" DB_HEADER_SIZE "?h @ ?b" BLOCK_SIZE]
      window_zeros [of "?h @ ?b" "slot_at 1" DB_HEADER_SIZE BLOCK_SIZE] lh
    by (simp_all add: slot_at_def layout)
  have "addressable (dh_block_count first_db)" by (simp add: addressable_def first_db_def)
  then have "slot_header crc ?img 0 = Some first_db" using db_header_encode_roundtrip w(2) by (simp add: slot_header_def)
  moreover have "dh_epoch b = 0" if "slot_header crc ?img 1 = Some b" for b
    using that zero_header w(3) by (simp add: slot_header_def)
  ultimately have re: "reopens crc ?img = Some (first_db, 0)"
    by (auto simp: reopens_def pick_header_def first_db_def split: option.split)
  have fd: "dh_block_count first_db = 0" "dh_free_list_root first_db = NULL_BLOCK" by (simp_all add: first_db_def NULL_BLOCK_def)
  have no: "\<not> in_file 0 p" for p by (simp add: in_file_def NULL_BLOCK_def)
  have f: "zf_free z = []" "zf_frozen z = []" "zf_pending_free z = []" "zf_free_chain z = []" "zf_retained z = []"
      "zf_savepoint z = None" "zf_db z = first_db" "zf_active_slot z = 0" "zf_writable z" "zf_disk z = di"
    by (simp_all add: z(1) new_handle_def)
  have sp: "spare z = {#}" "acct z = {#}" by (simp_all add: acct_def spare_def f)
  have use: "in_use z = {}" by (simp add: in_use_def live_def f fd no)
  have "list_on_disk crc (viewer ?img first_db) [] []" by (simp add: list_on_disk_def fd)
  moreover have "file_header_decode crc (window ?img 0 FILE_HEADER_SIZE) = Inr (file_header_fresh nanos pid)"
    unfolding w(1) by (rule file_header_roundtrip [OF fresh_supported])
  ultimately have "recoverable crc first_db 0 {} ?img"
    unfolding recoverable_def using re fd(1) by (intro conjI exI [of _ "[]"] exI [of _ "file_header_fresh nanos pid"]) (simp_all add: BLOCK_SIZE_def)
  moreover have "zf_ok [] z" unfolding z(1) by (rule new_handle_ok)
  moreover have "disk_ok z" "in_reach z" "lists_ok z" using z(2,3) by (simp_all add: disk_ok_def in_reach_def lists_ok_def sp f fd BLOCK_SIZE_def)
  ultimately show ?thesis
    using z(3) by (simp add: session_ok_def Let_def starts_def ss_since_def tx_ok_def tx_kept_def sp use f)
qed

subsection \<open>Histories\<close>

lemma crash_between:
  assumes ok: "session_ok crc S" and crash: "crash (ss_since S) (ss_base S) img"
  shows "outlives crc (ss_head S) (zf_active_slot (ss_file S)) (ss_pub S) (ss_base S) img"
proof -
  have o: "recoverable crc (ss_head S) (zf_active_slot (ss_file S)) (ss_pub S) (ss_base S)" "list_all (staged (- ss_pub S)) (ss_since S)"
    using ok by (simp_all add: session_ok_def Let_def)
  have len: "BLOCK_SIZE \<le> length (ss_base S)" using o(1) by (simp add: recoverable_def)
  have ab: "list_all above (ss_since S)" using staged_above o(2) by (auto simp: list_all_iff)
  then have "list_all grows (ss_since S)" by (auto simp: list_all_iff above_def)
  then have t: "torn (ss_since S) (ss_base S) img" by (rule crash_torn [OF crash])
  have "slot_header crc img k = slot_header crc (ss_base S) k" if "k < 2" for k
    by (rule slot_header_cong [OF that torn_staged(1) [OF t o(2) len]])
  then have "reopens crc img = reopens crc (ss_base S)" by (simp add: reopens_def)
  then show ?thesis
    using o(1) intact_staged [OF t o(2) len] above_header [OF ab t] t len
    by (simp add: outlives_def recoverable_def torn_def layout)
qed

text \<open>
  A file's history: it is created, sessions run on it, and a crash, between checkpoints or
  in the middle of one, is followed by a reopen, as often as it happens. A reopen after a
  crash inside a transaction that has left its marker is not one of them.
\<close>

inductive history :: "(u8 list \<Rightarrow> u32) \<Rightarrow> session \<Rightarrow> bool" for crc where
  created: "di_image d = [] \<Longrightarrow> di_writable d \<Longrightarrow> create_within crc nanos pid d path = Inr z \<Longrightarrow> history crc (starts z)"
| stepped: "history crc S \<Longrightarrow> session_step crc S S1 \<Longrightarrow> history crc S1"
| reopened: "history crc S \<Longrightarrow> crash (ss_since S) (ss_base S) (di_image d) \<Longrightarrow> di_writable d \<Longrightarrow>
    decode_marker crc (window (di_image d) TXN_SLOT DB_HEADER_SIZE) = None \<Longrightarrow>
    open_kind crc d path True = Some (Inr z) \<Longrightarrow> history crc (starts z)"
| cut_short: "history crc S \<Longrightarrow> roomy (ss_file S) \<Longrightarrow> checkpoint crc (ss_file S) = Some (Inr (), z1) \<Longrightarrow>
    crash (drop (ss_mark S) (di_log (zf_disk z1))) (ss_base S) (di_image d) \<Longrightarrow> di_writable d \<Longrightarrow>
    tear_detected crc (ss_base S) (di_image d) (zf_active_slot z1) (zf_db z1) \<Longrightarrow>
    decode_marker crc (window (di_image d) TXN_SLOT DB_HEADER_SIZE) = None \<Longrightarrow>
    open_kind crc d path True = Some (Inr z) \<Longrightarrow> history crc (starts z)"

lemma session_recoverable:
  "session_ok crc S \<Longrightarrow> recoverable crc (ss_head S) (zf_active_slot (ss_file S)) (ss_pub S) (ss_base S)"
  by (simp add: session_ok_def Let_def)

lemma committed_recoverable:
  assumes "session_ok crc S" "roomy (ss_file S)" "checkpoint crc (ss_file S) = Some (Inr (), z)"
  shows "recoverable crc (zf_db z) (zf_active_slot z) (in_use z) (di_image (zf_disk z))"
  using session_recoverable commit_ok [OF assms] by (fastforce simp: committed_def)

lemma history_ok: "history crc S \<Longrightarrow> session_ok crc S \<and> tx_kept S"
proof (induction rule: history.induct)
  case (created d nanos pid path z)
  then show ?case by (rule create_session)
next
  case (stepped S S1)
  then show ?case using session_step_ok session_step_tx by blast
next
  case (reopened S d path z)
  then have ok: "session_ok crc S" by simp
  have "recoverable crc (ss_head S) (zf_active_slot (ss_file S)) (ss_pub S) (di_image d)"
    by (rule outlives_recoverable [OF session_recoverable [OF ok] crash_between [OF ok reopened.hyps(2)]])
  then show ?case using reopen_session [OF _ refl reopened.hyps(3,4), of _ _ _ path] reopened.hyps(5) by fastforce
next
  case (cut_short S z1 d path z)
  then have ok: "session_ok crc S" by simp
  have "\<exists>h i P. recoverable crc h i P (di_image d)"
    using session_crash [OF ok cut_short.hyps(2,3,4,6)] outlives_recoverable session_recoverable [OF ok]
      committed_recoverable [OF ok cut_short.hyps(2,3)] by metis
  then obtain h i P where "recoverable crc h i P (di_image d)" by blast
  then show ?case using reopen_session [OF _ refl cut_short.hyps(5,7), of _ _ _ path] cut_short.hyps(8) by fastforce
qed

text \<open>What a reopen after a crash in the middle of a checkpoint finds.\<close>

lemma crash_reopens:
  assumes hist: "history crc S" and room: "roomy (ss_file S)" and run: "checkpoint crc (ss_file S) = Some (Inr (), z)"
    and crash: "crash (drop (ss_mark S) (di_log (zf_disk z))) (ss_base S) (di_image d)"
    and det: "tear_detected crc (ss_base S) (di_image d) (zf_active_slot z) (zf_db z)"
    and d: "di_writable d" "decode_marker crc (window (di_image d) TXN_SLOT DB_HEADER_SIZE) = None"
  shows "\<exists>z1. open_kind crc d path True = Some (Inr z1) \<and> history crc (starts z1) \<and>
    (zf_db z1 = ss_head S \<and> intact (ss_pub S) (ss_base S) (di_image d) \<and> ss_pub S \<inter> set_mset (spare z1) = {} \<or>
     zf_db z1 = zf_db z \<and> intact (in_use z) (di_image (zf_disk z)) (di_image d) \<and> in_use z \<inter> set_mset (spare z1) = {})"
proof -
  have ok: "session_ok crc S" using history_ok [OF hist] by simp
  have h: "history crc (starts z1)" if "open_kind crc d path True = Some (Inr z1)" for z1
    by (rule history.cut_short [OF hist room run crash d(1) det d(2) that])
  consider "outlives crc (ss_head S) (zf_active_slot (ss_file S)) (ss_pub S) (ss_base S) (di_image d)"
    | "outlives crc (zf_db z) (zf_active_slot z) (in_use z) (di_image (zf_disk z)) (di_image d)"
    using session_crash [OF ok room run crash det] by blast
  then show ?thesis
  proof cases
    case 1
    show ?thesis
      using reopen_session [OF outlives_recoverable [OF session_recoverable [OF ok] 1] refl d(1,2), of path] h 1
      by (auto simp: outlives_def)
  next
    case 2
    show ?thesis
      using reopen_session [OF outlives_recoverable [OF committed_recoverable [OF ok room run] 2] refl d(1,2), of path] h 2
      by (auto simp: outlives_def)
  qed
qed

lemma checkpoint_total:
  assumes hist: "history crc S" and room: "roomy (ss_file S)"
  shows "\<exists>z. checkpoint crc (ss_file S) = Some (Inr (), z) \<and> history crc (committed S z) \<and>
    dh_epoch (zf_db z) = dh_epoch (zf_db (ss_file S)) + 1 \<and> dh_catalog_root (zf_db z) = dh_catalog_root (zf_db (ss_file S)) \<and>
    live z = live (ss_file S) \<and> lists_ok z \<and> zf_pending_free z = [] \<and>
    reopens crc (di_image (zf_disk z)) = Some (zf_db z, zf_active_slot z)"
proof -
  have ok: "session_ok crc S" using history_ok [OF hist] by simp
  note f = session_facts [OF ok]
  obtain z pre where z: "checkpoint crc (ss_file S) = Some (Inr (), z)" "publishes crc (ss_file S) z pre" "zf_pending_free z = []"
    using checkpoint_ok [OF f(1,2,4) room, of crc] by blast
  have c: "session_ok crc (committed S z)" "live z = live (ss_file S)" using commit_ok [OF ok room z(1)] by simp_all
  have "reopens crc (di_image (zf_disk z)) = Some (zf_db z, zf_active_slot z)"
    using committed_recoverable [OF ok room z(1)] by (simp add: recoverable_def)
  moreover have "lists_ok z" using session_facts(4) [OF c(1)] by (simp add: committed_def)
  ultimately show ?thesis
    using z c(2) history.stepped [OF hist session_step.commit [OF room z(1)]] by (auto simp: publishes_def Let_def)
qed

lemma allocate_safe:
  assumes "history crc S" "allocate_block (ss_file S) = Some (p, z)"
  shows "p \<notin> live (ss_file S) \<and> p \<notin> ss_pub S \<and> (\<forall>s. zf_savepoint (ss_file S) = Some s \<longrightarrow> p \<notin> sp_blocks s) \<and>
    live z = insert p (live (ss_file S)) \<and> lists_ok z"
proof -
  have ok: "session_ok crc S" "tx_kept S" using history_ok [OF assms(1)] by simp_all
  note f = session_facts [OF ok(1)]
  have a: "live z = insert p (live (ss_file S))" "p \<notin> live (ss_file S)" "lists_ok z"
      "p \<in> set (zf_free (ss_file S)) \<or> dh_block_count (zf_db (ss_file S)) < p"
    using allocate_block_acct [OF assms(2) f(4)] by auto
  have "p \<notin> ss_pub S" using pub_out [OF ok(1)] a(4) by auto
  moreover have "p \<notin> sp_blocks s" if "zf_savepoint (ss_file S) = Some s" for s
    using sp_out [OF that f(5)] ok(2) that a(4) by (auto simp: tx_kept_def)
  ultimately show ?thesis using a by blast
qed

text \<open>A created file, to run the claims on.\<close>

lemma create_runs: "di_writable d \<Longrightarrow> \<exists>z. create_within crc nanos pid d path = Inr z"
  by (simp add: create_within_def Let_def disk_write_ok disk_set_len_def disk_refused_def)

lemma created_example:
  "\<exists>z. history crc (starts z) \<and> roomy z \<and> zf_free z = [] \<and> zf_savepoint z = None \<and> zf_db z = first_db \<and> zf_writable z \<and>
    window (di_image (zf_disk z)) TXN_SLOT DB_HEADER_SIZE = replicate DB_HEADER_SIZE 0 \<and> di_writable (zf_disk z)"
proof -
  let ?d = "\<lparr>di_image = [], di_writable = True, di_log = []\<rparr>"
  obtain z where z: "create_within crc 0 0 ?d ''db'' = Inr z" using create_runs [of ?d crc 0 0 "''db''"] by auto
  have h: "history crc (starts z)" by (rule history.created [OF _ _ z]) simp_all
  let ?h = "file_header_encode crc (file_header_fresh 0 0)"
  obtain d where d: "z = new_handle d ''db'' (file_header_fresh 0 0) first_db 0 None True" "di_writable d"
      "di_image d = resize (?h @ db_header_encode crc first_db) BLOCK_SIZE"
    using create_image [OF _ _ z] by auto
  have "length ?h = FILE_HEADER_SIZE" by (rule file_header_length [OF fresh_supported])
  then have "window (di_image d) TXN_SLOT DB_HEADER_SIZE = replicate DB_HEADER_SIZE 0"
    unfolding d(3) by (intro window_zeros) (simp_all add: layout)
  moreover have "roomy z" by (simp add: roomy_def d(1) new_handle_def acct_def spare_def first_db_def BLOCK_SIZE_def)
  ultimately show ?thesis using h d(1,2) by (intro exI [of _ z]) (simp add: new_handle_def)
qed

end
