(* ===== verification/WalRecords.thy ===== *)
theory WalRecords
  imports ZuPrelude
begin

text \<open>
  The records of the write ahead log, \<^verbatim>\<open>crates/zu-zu1/src/wal.rs\<close>: values, columns, the twelve
  record kinds with their payload codec, and the bounds-checked \<^verbatim>\<open>Reader\<close> they decode
  through. What a decoder accepts is shown to be exactly what the encoder writes.
\<close>

definition wal_corrupt :: "string \<Rightarrow> zu_error" where
  "wal_corrupt detail = Corrupt ''wal record'' detail"

subsection \<open>The reader\<close>

record reader =
  rd_buf :: "u8 list"
  rd_pos :: nat

type_synonym 'a parse = "reader \<Rightarrow> ('a \<times> reader) result"

definition p_return :: "'a \<Rightarrow> 'a parse" where
  "p_return x = (\<lambda>r. Inr (x, r))"

definition p_fail :: "string \<Rightarrow> 'a parse" where
  "p_fail detail = (\<lambda>r. Inl (wal_corrupt detail))"

definition p_bind :: "'a parse \<Rightarrow> ('a \<Rightarrow> 'b parse) \<Rightarrow> 'b parse" where
  "p_bind p f = (\<lambda>r. case p r of Inl e \<Rightarrow> Inl e | Inr (x, r1) \<Rightarrow> f x r1)"

text \<open>\<^verbatim>\<open>for _ in 0..count { v.push(p(r)?) }\<close>\<close>

fun p_times :: "nat \<Rightarrow> 'a parse \<Rightarrow> 'a list parse" where
  "p_times 0 p = p_return []"
| "p_times (Suc n) p = p_bind p (\<lambda>x. p_bind (p_times n p) (\<lambda>xs. p_return (x # xs)))"

definition rd_remaining :: "reader \<Rightarrow> nat" where
  "rd_remaining r = length (rd_buf r) - rd_pos r"

definition rd_bytes :: "nat \<Rightarrow> u8 list parse" where
  "rd_bytes len r =
     (if len > rd_remaining r
      then Inl (wal_corrupt (''payload wants '' @ show_nat len @ '' bytes with '' @ show_nat (rd_remaining r) @ '' left''))
      else Inr (take len (drop (rd_pos r) (rd_buf r)), r\<lparr>rd_pos := rd_pos r + len\<rparr>))"

definition rd_u8 :: "u8 parse" where
  "rd_u8 = p_bind (rd_bytes 1) (\<lambda>b. p_return (b ! 0))"

definition rd_u32 :: "u32 parse" where
  "rd_u32 = p_bind (rd_bytes 4) (\<lambda>b. p_return (from_le b))"

definition rd_u64 :: "u64 parse" where
  "rd_u64 = p_bind (rd_bytes 8) (\<lambda>b. p_return (read_u64 b))"

definition rd_rest :: "reader \<Rightarrow> u8 list \<times> reader" where
  "rd_rest r = (drop (rd_pos r) (rd_buf r), r\<lparr>rd_pos := length (rd_buf r)\<rparr>)"

subsection \<open>Records\<close>

datatype wal_values =
    WalInt "u64 list"
  | WalStr "u8 list list"
  | WalNull u32

record wal_column =
  wc_col :: u32
  wc_values :: wal_values

datatype wal_record =
    TxnBegin
  | NodeInsert u32 "wal_column list"
  | RelInsert u32 "u64 list" "u64 list" "wal_column list"
  | Update u32 u64 u32 "u64 list" wal_values
  | Delete u32 "u64 list"
  | RelDelete u32 "u64 list" "u64 list"
  | RelUpdate u32 u32 "u64 list" "u64 list" wal_values
  | LabelUpdate u32 "u64 list" u64 u64
  | DdlCatalog "u8 list"
  | TxnCommit
  | IngestRef u32 "u64 list"
  | CheckpointNote

text \<open>\<^verbatim>\<open>WalValues::len\<close>\<close>

fun values_len :: "wal_values \<Rightarrow> nat" where
  "values_len (WalInt v) = length v"
| "values_len (WalStr v) = length v"
| "values_len (WalNull n) = unat n"

definition put_u64s :: "u64 list \<Rightarrow> u8 list" where
  "put_u64s v = concat (map u64_le v)"

fun values_encode :: "wal_values \<Rightarrow> u8 list" where
  "values_encode (WalInt v) = 0 # len_le (length v) @ put_u64s v"
| "values_encode (WalStr v) = 1 # len_le (length v) @ concat (map (\<lambda>s. len_le (length s) @ s) v)"
| "values_encode (WalNull n) = 2 # u32_le n"

definition values_decode :: "wal_values parse" where
  "values_decode =
     p_bind rd_u8 (\<lambda>tag. p_bind rd_u32 (\<lambda>count.
       if tag = 0 then p_bind (p_times (unat count) rd_u64) (\<lambda>v. p_return (WalInt v))
       else if tag = 1
       then p_bind (p_times (unat count) (p_bind rd_u32 (\<lambda>len. rd_bytes (unat len)))) (\<lambda>v. p_return (WalStr v))
       else if tag = 2 then p_return (WalNull count)
       else p_fail (''unknown value tag '' @ show_nat (unat tag))))"

definition KIND_CHECKPOINT_NOTE :: u8 where "KIND_CHECKPOINT_NOTE = 9"

fun wal_kind :: "wal_record \<Rightarrow> u8" where
  "wal_kind TxnBegin = 1"
| "wal_kind (NodeInsert _ _) = 2"
| "wal_kind (RelInsert _ _ _ _) = 3"
| "wal_kind (Update _ _ _ _ _) = 4"
| "wal_kind (Delete _ _) = 5"
| "wal_kind (DdlCatalog _) = 6"
| "wal_kind TxnCommit = 7"
| "wal_kind (IngestRef _ _) = 8"
| "wal_kind CheckpointNote = KIND_CHECKPOINT_NOTE"
| "wal_kind (RelDelete _ _ _) = 10"
| "wal_kind (RelUpdate _ _ _ _ _) = 11"
| "wal_kind (LabelUpdate _ _ _ _) = 12"

definition put_column :: "wal_column \<Rightarrow> u8 list" where
  "put_column c = u32_le (wc_col c) @ values_encode (wc_values c)"

fun encode_payload :: "wal_record \<Rightarrow> u8 list" where
  "encode_payload TxnBegin = []"
| "encode_payload TxnCommit = []"
| "encode_payload CheckpointNote = []"
| "encode_payload (NodeInsert table cols) = u32_le table @ len_le (length cols) @ concat (map put_column cols)"
| "encode_payload (RelInsert rel src dst cols) =
     u32_le rel @ len_le (length src) @ put_u64s src @ put_u64s dst @ len_le (length cols) @ concat (map put_column cols)"
| "encode_payload (Update table grp col offsets vals) =
     u32_le table @ u64_le grp @ u32_le col @ len_le (length offsets) @ put_u64s offsets @ values_encode vals"
| "encode_payload (Delete table ids) = u32_le table @ len_le (length ids) @ put_u64s ids"
| "encode_payload (RelDelete rel src dst) = u32_le rel @ len_le (length src) @ put_u64s src @ put_u64s dst"
| "encode_payload (RelUpdate rel col src dst vals) =
     u32_le rel @ u32_le col @ len_le (length src) @ put_u64s src @ put_u64s dst @ values_encode vals"
| "encode_payload (LabelUpdate table offsets add remove) =
     u32_le table @ u64_le add @ u64_le remove @ len_le (length offsets) @ put_u64s offsets"
| "encode_payload (DdlCatalog delta) = delta"
| "encode_payload (IngestRef table ptrs) = u32_le table @ len_le (length ptrs) @ put_u64s ptrs"

text \<open>\<^verbatim>\<open>format!("{n:#x}")\<close>\<close>

fun hex_digits :: "nat \<Rightarrow> string" where
  "hex_digits n = (if n < 16 then [''0123456789abcdef'' ! n] else hex_digits (n div 16) @ [''0123456789abcdef'' ! (n mod 16)])"

declare hex_digits.simps [simp del]

definition get_column :: "wal_column parse" where
  "get_column = p_bind rd_u32 (\<lambda>col. p_bind values_decode (\<lambda>v. p_return \<lparr>wc_col = col, wc_values = v\<rparr>))"

text \<open>A column of a rel insert, whose values run beside the edges.\<close>

definition get_edge_column :: "nat \<Rightarrow> wal_column parse" where
  "get_edge_column count = p_bind rd_u32 (\<lambda>col. p_bind values_decode (\<lambda>v.
     if values_len v \<noteq> count
     then p_fail (''rel insert carries '' @ show_nat count @ '' edges but '' @ show_nat (values_len v) @
            '' values for column '' @ show_nat (unat col))
     else p_return \<lparr>wc_col = col, wc_values = v\<rparr>))"

definition get_u64s :: "u32 \<Rightarrow> u64 list parse" where
  "get_u64s count = p_times (unat count) rd_u64"

definition decode_body :: "u8 \<Rightarrow> wal_record parse" where
  "decode_body kind =
     (if kind = 1 then p_return TxnBegin
      else if kind = 2 then p_bind rd_u32 (\<lambda>table. p_bind rd_u32 (\<lambda>col_count.
        p_bind (p_times (unat col_count) get_column) (\<lambda>cols. p_return (NodeInsert table cols))))
      else if kind = 3 then p_bind rd_u32 (\<lambda>rel. p_bind rd_u32 (\<lambda>count.
        p_bind (get_u64s count) (\<lambda>src. p_bind (get_u64s count) (\<lambda>dst. p_bind rd_u32 (\<lambda>col_count.
        p_bind (p_times (unat col_count) (get_edge_column (unat count))) (\<lambda>cols. p_return (RelInsert rel src dst cols)))))))
      else if kind = 4 then p_bind rd_u32 (\<lambda>table. p_bind rd_u64 (\<lambda>grp. p_bind rd_u32 (\<lambda>col. p_bind rd_u32 (\<lambda>count.
        p_bind (get_u64s count) (\<lambda>offsets. p_bind values_decode (\<lambda>vals.
        if values_len vals \<noteq> length offsets
        then p_fail (''update carries '' @ show_nat (length offsets) @ '' offsets but '' @ show_nat (values_len vals) @ '' values'')
        else p_return (Update table grp col offsets vals)))))))
      else if kind = 5 then p_bind rd_u32 (\<lambda>table. p_bind rd_u32 (\<lambda>count.
        p_bind (get_u64s count) (\<lambda>ids. p_return (Delete table ids))))
      else if kind = 6 then (\<lambda>r. let (delta, r1) = rd_rest r in Inr (DdlCatalog delta, r1))
      else if kind = 7 then p_return TxnCommit
      else if kind = 8 then p_bind rd_u32 (\<lambda>table. p_bind rd_u32 (\<lambda>count.
        p_bind (get_u64s count) (\<lambda>ptrs. p_return (IngestRef table ptrs))))
      else if kind = 9 then p_return CheckpointNote
      else if kind = 10 then p_bind rd_u32 (\<lambda>rel. p_bind rd_u32 (\<lambda>count.
        p_bind (get_u64s count) (\<lambda>src. p_bind (get_u64s count) (\<lambda>dst. p_return (RelDelete rel src dst)))))
      else if kind = 11 then p_bind rd_u32 (\<lambda>rel. p_bind rd_u32 (\<lambda>col. p_bind rd_u32 (\<lambda>count.
        p_bind (get_u64s count) (\<lambda>src. p_bind (get_u64s count) (\<lambda>dst. p_bind values_decode (\<lambda>vals.
        if values_len vals \<noteq> unat count
        then p_fail (''rel update names '' @ show_nat (unat count) @ '' edges but carries '' @ show_nat (values_len vals) @ '' values'')
        else p_return (RelUpdate rel col src dst vals)))))))
      else if kind = 12 then p_bind rd_u32 (\<lambda>table. p_bind rd_u64 (\<lambda>add. p_bind rd_u64 (\<lambda>remove. p_bind rd_u32 (\<lambda>count.
        if add AND remove \<noteq> 0
        then p_fail (''label update both sets and clears 0x'' @ hex_digits (unat (add AND remove)))
        else p_bind (get_u64s count) (\<lambda>offsets. p_return (LabelUpdate table offsets add remove))))))
      else p_fail (''unknown record kind '' @ show_nat (unat kind)))"

definition record_decode :: "u8 \<Rightarrow> reader \<Rightarrow> wal_record result" where
  "record_decode kind r =
     (case decode_body kind r of
        Inl e \<Rightarrow> Inl e
      | Inr (rec, r1) \<Rightarrow>
          let (rest, r2) = rd_rest r1 in
          if rest \<noteq> []
          then Inl (wal_corrupt (show_nat (rd_remaining r2) @ '' trailing payload bytes after kind '' @ show_nat (unat kind)))
          else Inr rec)"


subsection \<open>What a decoder takes\<close>

text \<open>The reader stands before \<open>bs\<close>; \<open>skip n\<close> moves it on.\<close>

definition ahead :: "reader \<Rightarrow> u8 list \<Rightarrow> bool" where
  "ahead r bs \<longleftrightarrow> length bs \<le> length (rd_buf r) - rd_pos r \<and> take (length bs) (drop (rd_pos r) (rd_buf r)) = bs"

definition skip :: "nat \<Rightarrow> reader \<Rightarrow> reader" where
  "skip n r = r\<lparr>rd_pos := rd_pos r + n\<rparr>"

lemma skip_skip [simp]: "skip m (skip n r) = skip (n + m) r"
  by (simp add: skip_def add.assoc)

lemma ahead_Nil [simp]: "ahead r []" "skip 0 r = r"
  by (simp_all add: ahead_def skip_def)

lemma ahead_append: "ahead r (xs @ ys) \<longleftrightarrow> ahead r xs \<and> ahead (skip (length xs) r) ys"
proof -
  have "length xs + length ys \<le> length (rd_buf r) - rd_pos r \<longleftrightarrow>
      length xs \<le> length (rd_buf r) - rd_pos r \<and> length ys \<le> length (rd_buf r) - (rd_pos r + length xs)"
    by linarith
  moreover have "take (length xs + length ys) (drop (rd_pos r) (rd_buf r)) = xs @ ys \<longleftrightarrow>
      take (length xs) (drop (rd_pos r) (rd_buf r)) = xs \<and> take (length ys) (drop (rd_pos r + length xs) (rd_buf r)) = ys"
    if "length xs \<le> length (rd_buf r) - rd_pos r"
    using that by (simp add: take_add append_eq_append_conv add.commute)
  ultimately show ?thesis by (auto simp: ahead_def skip_def)
qed

lemma ahead_tag: "ahead r (x # y # ys) \<longleftrightarrow> ahead r [x] \<and> ahead (skip 1 r) (y # ys)"
  using ahead_append [of r "[x]" "y # ys"] by simp

lemma ahead_tag_le: "ahead r (x # u32_le w @ ys) \<longleftrightarrow> ahead r [x] \<and> ahead (skip 1 r) (u32_le w @ ys)"
    "ahead r (x # u32_le w) \<longleftrightarrow> ahead r [x] \<and> ahead (skip 1 r) (u32_le w)"
  using ahead_append [of r "[x]" "u32_le w @ ys"] ahead_append [of r "[x]" "u32_le w"] by simp_all

lemma ahead_all:
  "fst (rd_rest (skip (length bs) \<lparr>rd_buf = b, rd_pos = 0\<rparr>)) = [] \<and> ahead \<lparr>rd_buf = b, rd_pos = 0\<rparr> bs \<longleftrightarrow> b = bs"
  by (auto simp: ahead_def rd_rest_def skip_def)

text \<open>What a field of the payload promises: it is read exactly when it was written.\<close>

lemma p_bind_Inr: "p_bind p f r = Inr (y, r2) \<longleftrightarrow> (\<exists>x r1. p r = Inr (x, r1) \<and> f x r1 = Inr (y, r2))"
  by (auto simp: p_bind_def split: sum.splits)

lemma p_return_Inr: "p_return x r = Inr (y, r1) \<longleftrightarrow> y = x \<and> r1 = r"
  by (auto simp: p_return_def)

lemma p_check_Inr: "(if b then p_fail s else p) r = Inr (y, r1) \<longleftrightarrow> \<not> b \<and> p r = Inr (y, r1)"
  by (simp add: p_fail_def)

locale wal_field =
  fixes enc :: "'a \<Rightarrow> u8 list" and dec :: "'a parse" and fits :: "'a \<Rightarrow> bool"
  assumes exact: "dec r = Inr (x, r1) \<longleftrightarrow> fits x \<and> ahead r (enc x) \<and> r1 = skip (length (enc x)) r"
begin

lemma times_exact:
  "p_times n dec r = Inr (xs, r1) \<longleftrightarrow>
    length xs = n \<and> list_all fits xs \<and> ahead r (concat (map enc xs)) \<and> r1 = skip (length (concat (map enc xs))) r"
proof (induction n arbitrary: r xs)
  case 0 then show ?case by (auto simp: p_return_Inr)
next
  case (Suc n)
  show ?case by (cases xs) (auto simp: p_bind_Inr p_return_Inr exact Suc.IH ahead_append)
qed

end

lemma rd_bytes_exact: "rd_bytes n r = Inr (bs, r1) \<longleftrightarrow> length bs = n \<and> ahead r bs \<and> r1 = skip n r"
  by (auto simp: rd_bytes_def rd_remaining_def ahead_def skip_def split: if_splits)

lemma rd_u8_exact: "rd_u8 r = Inr (x, r1) \<longleftrightarrow> ahead r [x] \<and> r1 = skip 1 r"
  by (auto simp: rd_u8_def p_bind_Inr p_return_Inr rd_bytes_exact length_Suc_conv)

lemma rd_u32_exact: "rd_u32 r = Inr (x, r1) \<longleftrightarrow> ahead r (u32_le x) \<and> r1 = skip 4 r"
  using from_le_to_le [of 0 4 x]
  by (auto simp: rd_u32_def p_bind_Inr p_return_Inr rd_bytes_exact u32_le_def to_le_from_le intro!: exI [of _ "to_le 4 x"])

lemma rd_u64_exact: "rd_u64 r = Inr (x, r1) \<longleftrightarrow> ahead r (u64_le x) \<and> r1 = skip 8 r"
  by (auto simp: rd_u64_def p_bind_Inr p_return_Inr rd_bytes_exact intro!: exI [of _ "u64_le x"])

interpretation u64_field: wal_field u64_le rd_u64 "\<lambda>_. True"
  by unfold_locales (simp add: rd_u64_exact)

text \<open>A length the writer put down as \<^verbatim>\<open>u32\<close>.\<close>

lemma unat_len:
  "unat (w :: u32) = n \<longleftrightarrow> n < 2 ^ 32 \<and> w = word_of_nat n" "n = unat w \<longleftrightarrow> n < 2 ^ 32 \<and> w = word_of_nat n"
  using unsigned_less [of w] by (auto simp: unat_of_nat take_bit_nat_eq_self)

lemma unat_small [simp]: "n < 4294967296 \<Longrightarrow> unat (word_of_nat n :: u32) = n"
  by (simp add: unat_of_nat take_bit_nat_eq_self)

lemma len_words: "m < 4294967296 \<Longrightarrow> n < 4294967296 \<Longrightarrow> (word_of_nat m :: u32) = word_of_nat n \<longleftrightarrow> m = n"
  using unat_small by metis

lemma len_le_word: "len_le n = u32_le (word_of_nat n)"
  by (simp add: len_le_def)

lemmas wal_reads = p_bind_Inr p_return_Inr p_check_Inr rd_u8_exact rd_u32_exact rd_u64_exact rd_bytes_exact ahead_append len_le_word
  unat_len len_words p_fail_def

lemma length_put_u64s [simp]: "length (put_u64s xs) = 8 * length xs"
  using length_concat_uniform [of "map u64_le xs" 8] by (auto simp: put_u64s_def)

lemma get_u64s_exact:
  "get_u64s w r = Inr (xs, r1) \<longleftrightarrow> unat w = length xs \<and> ahead r (put_u64s xs) \<and> r1 = skip (8 * length xs) r"
  unfolding get_u64s_def u64_field.times_exact put_u64s_def [symmetric] by (auto simp: list_all_iff)

interpretation str_field: wal_field "\<lambda>s. len_le (length s) @ s" "p_bind rd_u32 (\<lambda>len. rd_bytes (unat len))" "\<lambda>s. length s < 2 ^ 32"
  by unfold_locales (auto simp: wal_reads)

fun values_fit :: "wal_values \<Rightarrow> bool" where
  "values_fit (WalInt v) \<longleftrightarrow> length v < 2 ^ 32"
| "values_fit (WalStr v) \<longleftrightarrow> length v < 2 ^ 32 \<and> list_all (\<lambda>s. length s < 2 ^ 32) v"
| "values_fit (WalNull n) \<longleftrightarrow> True"

lemma values_exact: "values_decode r = Inr (v, r1) \<longleftrightarrow> values_fit v \<and> ahead r (values_encode v) \<and> r1 = skip (length (values_encode v)) r"
proof (cases v)
  case (WalInt xs)
  then show ?thesis
    by (auto simp: values_decode_def wal_reads u64_field.times_exact put_u64s_def [symmetric] list_all_iff ahead_tag_le
        intro!: exI [of _ "0 :: u8"] split: if_splits)
next
  case (WalStr xs)
  then show ?thesis
    by (auto simp: values_decode_def wal_reads str_field.times_exact ahead_tag_le
        intro!: exI [of _ "1 :: u8"] split: if_splits)
next
  case (WalNull n)
  then show ?thesis
    by (auto simp: values_decode_def wal_reads ahead_tag_le intro!: exI [of _ "2 :: u8"] split: if_splits)
qed

definition column_fits :: "wal_column \<Rightarrow> bool" where
  "column_fits c \<longleftrightarrow> values_fit (wc_values c)"

definition edge_column_fits :: "nat \<Rightarrow> wal_column \<Rightarrow> bool" where
  "edge_column_fits n c \<longleftrightarrow> column_fits c \<and> values_len (wc_values c) = n"

interpretation column_field: wal_field put_column get_column column_fits
proof
  fix r x r1
  show "get_column r = Inr (x, r1) \<longleftrightarrow> column_fits x \<and> ahead r (put_column x) \<and> r1 = skip (length (put_column x)) r"
    by (cases x) (auto simp: get_column_def put_column_def column_fits_def wal_reads values_exact)
qed

interpretation edge_field: wal_field put_column "get_edge_column n" "edge_column_fits n" for n
proof
  fix r x r1
  show "get_edge_column n r = Inr (x, r1) \<longleftrightarrow> edge_column_fits n x \<and> ahead r (put_column x) \<and> r1 = skip (length (put_column x)) r"
    by (cases x) (auto simp: get_edge_column_def put_column_def column_fits_def edge_column_fits_def wal_reads values_exact split: if_splits)
qed


text \<open>The records a log can hold: the counts fit their fields and the parallel lists agree.\<close>

fun wal_fits :: "wal_record \<Rightarrow> bool" where
  "wal_fits (NodeInsert _ cols) \<longleftrightarrow> length cols < 2 ^ 32 \<and> list_all column_fits cols"
| "wal_fits (RelInsert _ src dst cols) \<longleftrightarrow> length src < 2 ^ 32 \<and> length dst = length src \<and> length cols < 2 ^ 32 \<and>
     list_all (edge_column_fits (length src)) cols"
| "wal_fits (Update _ _ _ offsets vals) \<longleftrightarrow> length offsets < 2 ^ 32 \<and> values_fit vals \<and> values_len vals = length offsets"
| "wal_fits (Delete _ ids) \<longleftrightarrow> length ids < 2 ^ 32"
| "wal_fits (RelDelete _ src dst) \<longleftrightarrow> length src < 2 ^ 32 \<and> length dst = length src"
| "wal_fits (RelUpdate _ _ src dst vals) \<longleftrightarrow> length src < 2 ^ 32 \<and> length dst = length src \<and> values_fit vals \<and>
     values_len vals = length src"
| "wal_fits (LabelUpdate _ offsets add remove) \<longleftrightarrow> length offsets < 2 ^ 32 \<and> add AND remove = 0"
| "wal_fits (IngestRef _ ptrs) \<longleftrightarrow> length ptrs < 2 ^ 32"
| "wal_fits _ \<longleftrightarrow> True"

lemma body_kind: "decode_body kind r = Inr (rec, r1) \<Longrightarrow> kind = wal_kind rec"
  unfolding decode_body_def
  by (auto simp: KIND_CHECKPOINT_NOTE_def p_bind_Inr p_return_Inr Let_def p_fail_def rd_rest_def split: if_splits)

lemma body_exact:
  assumes "\<forall>delta. rec \<noteq> DdlCatalog delta"
  shows "decode_body (wal_kind rec) r = Inr (rec, r1) \<longleftrightarrow>
    wal_fits rec \<and> ahead r (encode_payload rec) \<and> r1 = skip (length (encode_payload rec)) r"
  using assms
  by (cases rec) (auto simp: decode_body_def KIND_CHECKPOINT_NOTE_def wal_reads get_u64s_exact
      column_field.times_exact edge_field.times_exact values_exact add.assoc split: if_splits)

lemma ddl_exact:
  "record_decode kind \<lparr>rd_buf = b, rd_pos = 0\<rparr> = Inr (DdlCatalog delta) \<longleftrightarrow> kind = 6 \<and> b = delta"
proof
  assume "record_decode kind \<lparr>rd_buf = b, rd_pos = 0\<rparr> = Inr (DdlCatalog delta)"
  then obtain r1 where "decode_body kind \<lparr>rd_buf = b, rd_pos = 0\<rparr> = Inr (DdlCatalog delta, r1)"
    by (auto simp: record_decode_def Let_def split: sum.splits prod.splits if_splits)
  moreover from body_kind [OF this] have "kind = 6" by simp
  ultimately show "kind = 6 \<and> b = delta" by (simp add: decode_body_def rd_rest_def)
qed (simp add: record_decode_def decode_body_def rd_rest_def)

lemma record_exact:
  "record_decode kind \<lparr>rd_buf = b, rd_pos = 0\<rparr> = Inr rec \<longleftrightarrow> kind = wal_kind rec \<and> b = encode_payload rec \<and> wal_fits rec"
proof (cases "\<exists>delta. rec = DdlCatalog delta")
  case True
  then show ?thesis using ddl_exact by auto
next
  case False
  let ?r = "\<lparr>rd_buf = b, rd_pos = 0\<rparr>"
  have "record_decode kind ?r = Inr rec \<longleftrightarrow> (\<exists>r1. decode_body kind ?r = Inr (rec, r1) \<and> fst (rd_rest r1) = [])"
    by (auto simp: record_decode_def Let_def split: sum.splits prod.splits)
  also have "\<dots> \<longleftrightarrow> kind = wal_kind rec \<and> wal_fits rec \<and> ahead ?r (encode_payload rec) \<and>
      fst (rd_rest (skip (length (encode_payload rec)) ?r)) = []"
    using body_kind body_exact [of rec ?r] False by (metis (no_types, lifting))
  finally show ?thesis using ahead_all [of "encode_payload rec" b] by blast
qed

text \<open>What is left over is counted after it was taken, so the message always counts none.\<close>

lemma trailing_message:
  assumes "decode_body kind r = Inr (rec, r1)" "fst (rd_rest r1) \<noteq> []"
  shows "record_decode kind r = Inl (wal_corrupt (''0 trailing payload bytes after kind '' @ show_nat (unat kind)))"
proof -
  have zero: "show_nat 0 = ''0''" by code_simp
  show ?thesis using assms by (simp add: record_decode_def rd_rest_def rd_remaining_def Let_def zero)
qed

end
