(* ===== verification/GroupCommit.thy ===== *)
theory GroupCommit
  imports ZuPrelude
begin

text \<open>
  Group commit, \<^verbatim>\<open>Commits\<close> of \<^verbatim>\<open>crates/zu-zu1/src/wal.rs\<close>: writers share the sync that makes
  their commits durable. Every part of \<^verbatim>\<open>sync_through\<close> that runs under the lock of the marks is
  one function here; the parts interleave as steps of the callers. Times are nanoseconds.
\<close>

subsection \<open>The marks\<close>

record marks =
  mk_staged :: nat
  mk_durable :: nat
  mk_running :: "nat option"
  mk_failed :: bool
  mk_waiting :: nat
  mk_group :: nat
  mk_cost :: nat

definition GATHER_SHARE :: nat where "GATHER_SHARE = 8"
definition GATHER_CAP :: nat where "GATHER_CAP = 500000"

definition commits_new :: "nat \<Rightarrow> marks" where
  "commits_new len = \<lparr>mk_staged = len, mk_durable = len, mk_running = None, mk_failed = False, mk_waiting = 0,
     mk_group = 0, mk_cost = 0\<rparr>"

definition marks_staged :: "nat \<Rightarrow> marks \<Rightarrow> marks" where
  "marks_staged len m = m\<lparr>mk_staged := max (mk_staged m) len\<rparr>"

definition marks_reset :: "nat \<Rightarrow> bool \<Rightarrow> marks \<Rightarrow> marks" where
  "marks_reset len synced m =
     (let m1 = m\<lparr>mk_staged := len, mk_durable := (if synced then len else 0)\<rparr>
      in if synced then m1\<lparr>mk_failed := False\<rparr> else m1)"

definition settled :: "marks \<Rightarrow> bool" where
  "settled m \<longleftrightarrow> \<not> mk_failed m \<and> mk_durable m \<ge> mk_staged m"

definition gather :: "marks \<Rightarrow> nat" where
  "gather m = (if mk_group m < 2 \<or> mk_cost m = 0 then 0 else min (mk_cost m div GATHER_SHARE) GATHER_CAP)"

subsection \<open>The parts of \<open>sync_through\<close>\<close>

text \<open>One turn of the loop up to where it lets go of the lock; \<open>None\<close> is an underflow.\<close>

datatype turn = Return | Sleep | Pause | Sync nat

definition covered :: "nat \<Rightarrow> marks \<Rightarrow> bool" where
  "covered need m \<longleftrightarrow> \<not> mk_failed m \<and> (mk_durable m \<ge> need \<or> mk_staged m < need)"

definition stop_waiting :: "marks \<Rightarrow> marks option" where
  "stop_waiting m = (if mk_waiting m = 0 then None else Some (m\<lparr>mk_waiting := mk_waiting m - 1\<rparr>))"

definition lead :: "marks \<Rightarrow> nat \<times> marks" where
  "lead m = (mk_staged m, m\<lparr>mk_running := Some (mk_staged m)\<rparr>)"

definition sync_turn :: "nat \<Rightarrow> bool \<Rightarrow> marks \<Rightarrow> (turn \<times> marks) option" where
  "sync_turn need counted m =
     (if covered need m
      then (if counted then map_option (Pair Return) (stop_waiting m) else Some (Return, m))
      else let m1 = (if counted then m else m\<lparr>mk_waiting := mk_waiting m + 1\<rparr>)
        in if mk_running m1 \<noteq> None then Some (Sleep, m1)
           else if gather m1 \<noteq> 0 then Some (Pause, snd (lead m1))
           else let (target, m2) = lead m1 in Some (Sync target, m2))"

text \<open>The leader after its sync returned; \<open>took\<close> is how long it took.\<close>

definition sync_land :: "nat \<Rightarrow> bool \<Rightarrow> nat \<Rightarrow> marks \<Rightarrow> marks option" where
  "sync_land target synced took m =
     (let m1 = m\<lparr>mk_running := None\<rparr>
      in stop_waiting
        (if synced
         then m1\<lparr>mk_durable := max (mk_durable m1) target, mk_failed := False,
                 mk_cost := (if mk_cost m1 = 0 then took else (mk_cost m1 + took) div 2), mk_group := mk_waiting m1\<rparr>
         else m1\<lparr>mk_failed := True\<rparr>))"

subsection \<open>Callers side by side\<close>

text \<open>
  Where each caller stands: its need and the cut of the log its frames belong to, and for the
  leader what its sync covers. \<open>Called\<close> is a caller about to take the lock, the flag whether
  it is counted as waiting.
\<close>

datatype caller =
    Idle
  | Called nat nat bool
  | Asleep nat nat
  | Pausing nat nat
  | Syncing nat nat nat nat
  | Returned nat nat bool

text \<open>
  \<open>gc_platter\<close> are the bytes of the log as it is now that a sync has covered, and \<open>gc_cuts\<close>
  counts the times it was cut shorter.
\<close>

record group_state =
  gc_marks :: marks
  gc_calls :: "caller list"
  gc_platter :: nat
  gc_cuts :: nat

definition wake :: "caller \<Rightarrow> caller" where
  "wake c = (case c of Asleep need g \<Rightarrow> Called need g True | _ \<Rightarrow> c)"

text \<open>What the callers do: a turn of the loop, the end of the leader's pause, its sync landing.\<close>

definition after_turn :: "nat \<Rightarrow> nat \<Rightarrow> nat \<Rightarrow> turn \<Rightarrow> caller" where
  "after_turn need g cuts t = (case t of
     Return \<Rightarrow> Returned need g True
   | Sleep \<Rightarrow> Asleep need g
   | Pause \<Rightarrow> Pausing need g
   | Sync target \<Rightarrow> Syncing need g target cuts)"

inductive gc_act :: "group_state \<Rightarrow> group_state \<Rightarrow> bool" where
  turn: "i < length (gc_calls s) \<Longrightarrow> gc_calls s ! i = Called need g counted \<Longrightarrow> sync_turn need counted (gc_marks s) = Some (t, m) \<Longrightarrow>
    gc_act s (s\<lparr>gc_marks := m, gc_calls := (gc_calls s)[i := after_turn need g (gc_cuts s) t]\<rparr>)"
| resume: "i < length (gc_calls s) \<Longrightarrow> gc_calls s ! i = Pausing need g \<Longrightarrow> lead (gc_marks s) = (target, m) \<Longrightarrow>
    gc_act s (s\<lparr>gc_marks := m, gc_calls := (gc_calls s)[i := Syncing need g target (gc_cuts s)]\<rparr>)"
| land: "i < length (gc_calls s) \<Longrightarrow> gc_calls s ! i = Syncing need g target cuts \<Longrightarrow>
    sync_land target synced took (gc_marks s) = Some m \<Longrightarrow>
    gc_act s (s\<lparr>gc_marks := m, gc_calls := map wake ((gc_calls s)[i := Returned need g synced]),
      gc_platter := (if synced \<and> cuts = gc_cuts s then max (gc_platter s) target else gc_platter s)\<rparr>)"

text \<open>
  What goes on around them: a writer stages its commit, a checkpoint or a rollback cuts the
  log, a caller comes back for another commit, a sleeper wakes for no reason. \<open>calm\<close> is the
  discipline that no cut is made while a sync is in the air.
\<close>

inductive gc_env :: "bool \<Rightarrow> group_state \<Rightarrow> group_state \<Rightarrow> bool" for calm where
  stage: "i < length (gc_calls s) \<Longrightarrow> gc_calls s ! i = Idle \<Longrightarrow> mk_staged (gc_marks s) < len \<Longrightarrow>
    gc_env calm s (s\<lparr>gc_marks := marks_staged len (gc_marks s), gc_calls := (gc_calls s)[i := Called len (gc_cuts s) False]\<rparr>)"
| trim: "calm \<longrightarrow> mk_running (gc_marks s) = None \<Longrightarrow> len \<le> mk_staged (gc_marks s) \<Longrightarrow>
    gc_env calm s (s\<lparr>gc_marks := marks_reset len synced (gc_marks s), gc_platter := (if synced then len else 0), gc_cuts := gc_cuts s + 1\<rparr>)"
| again: "i < length (gc_calls s) \<Longrightarrow> gc_calls s ! i = Returned need g ok \<Longrightarrow> gc_env calm s (s\<lparr>gc_calls := (gc_calls s)[i := Idle]\<rparr>)"
| spurious: "i < length (gc_calls s) \<Longrightarrow> gc_calls s ! i = Asleep need g \<Longrightarrow>
    gc_env calm s (s\<lparr>gc_calls := (gc_calls s)[i := Called need g True]\<rparr>)"

definition gc_step :: "bool \<Rightarrow> group_state \<Rightarrow> group_state \<Rightarrow> bool" where
  "gc_step calm s s1 \<longleftrightarrow> gc_act s s1 \<or> gc_env calm s s1"

definition gc_start :: "nat \<Rightarrow> nat \<Rightarrow> group_state" where
  "gc_start len n = \<lparr>gc_marks = commits_new len, gc_calls = replicate n Idle, gc_platter = len, gc_cuts = 0\<rparr>"

subsection \<open>One leader, and nobody sleeps through it\<close>

definition leads :: "caller \<Rightarrow> bool" where
  "leads c \<longleftrightarrow> (case c of Pausing _ _ \<Rightarrow> True | Syncing _ _ _ _ \<Rightarrow> True | _ \<Rightarrow> False)"

definition counted_in :: "caller \<Rightarrow> bool" where
  "counted_in c \<longleftrightarrow> (case c of Called _ _ counted \<Rightarrow> counted | Asleep _ _ \<Rightarrow> True | Pausing _ _ \<Rightarrow> True | Syncing _ _ _ _ \<Rightarrow> True | _ \<Rightarrow> False)"

definition sleeps :: "caller \<Rightarrow> bool" where
  "sleeps c \<longleftrightarrow> (case c of Asleep _ _ \<Rightarrow> True | _ \<Rightarrow> False)"

definition many :: "('a \<Rightarrow> bool) \<Rightarrow> 'a list \<Rightarrow> nat" where
  "many P xs = length (filter P xs)"

definition gc_ok :: "group_state \<Rightarrow> bool" where
  "gc_ok s \<longleftrightarrow> many leads (gc_calls s) = (if mk_running (gc_marks s) = None then 0 else 1) \<and>
     mk_waiting (gc_marks s) = many counted_in (gc_calls s) \<and>
     (mk_running (gc_marks s) = None \<longrightarrow> \<not> list_ex sleeps (gc_calls s))"

lemma many_update: "i < length xs \<Longrightarrow> many P (xs[i := x]) + (if P (xs ! i) then 1 else 0) = many P xs + (if P x then 1 else 0)"
proof (induction xs arbitrary: i)
  case (Cons y ys)
  then show ?case by (cases i) (auto simp: many_def)
qed simp

lemma many_pos: "i < length xs \<Longrightarrow> P (xs ! i) \<Longrightarrow> 0 < many P xs"
  by (auto simp: many_def filter_empty_conv)

lemma many_wake [simp]: "many leads (map wake xs) = many leads xs" "many counted_in (map wake xs) = many counted_in xs"
proof -
  have "leads (wake c) = leads c" "counted_in (wake c) = counted_in c" for c
    by (simp_all add: wake_def leads_def counted_in_def split: caller.splits)
  then show "many leads (map wake xs) = many leads xs" "many counted_in (map wake xs) = many counted_in xs"
    by (simp_all add: many_def filter_map o_def)
qed

lemma no_sleeper_wake [simp]: "\<not> list_ex sleeps (map wake xs)"
  by (auto simp: list_ex_iff sleeps_def wake_def split: caller.splits)


lemma list_ex_update: "list_ex P (xs[i := x]) \<Longrightarrow> list_ex P xs \<or> P x"
  by (auto simp: list_ex_iff dest!: set_update_subset_insert [THEN subsetD])

lemma nobody_leads: "gc_ok s \<Longrightarrow> mk_running (gc_marks s) = None \<Longrightarrow> i < length (gc_calls s) \<Longrightarrow> \<not> leads (gc_calls s ! i)"
  using many_pos [of i "gc_calls s" leads] by (auto simp: gc_ok_def)

lemma leader_runs: "gc_ok s \<Longrightarrow> i < length (gc_calls s) \<Longrightarrow> leads (gc_calls s ! i) \<Longrightarrow> mk_running (gc_marks s) \<noteq> None"
  using nobody_leads by blast

lemma turn_ok:
  assumes ok: "gc_ok s" and i: "i < length (gc_calls s)" "gc_calls s ! i = Called need g counted"
    and t: "sync_turn need counted (gc_marks s) = Some (t, m)"
  shows "gc_ok (s\<lparr>gc_marks := m, gc_calls := (gc_calls s)[i := after_turn need g cuts t]\<rparr>)"
proof -
  let ?c = "after_turn need g cuts t"
  have l: "many leads ((gc_calls s)[i := ?c]) = many leads (gc_calls s) + (if leads ?c then 1 else 0)"
    using many_update [OF i(1), of leads ?c] i(2) by (simp add: leads_def)
  have n: "many counted_in ((gc_calls s)[i := ?c]) + (if counted then 1 else 0) = many counted_in (gc_calls s) + (if counted_in ?c then 1 else 0)"
    using many_update [OF i(1), of counted_in ?c] i(2) by (simp add: counted_in_def)
  have sl: "list_ex sleeps ((gc_calls s)[i := ?c]) \<Longrightarrow> list_ex sleeps (gc_calls s) \<or> sleeps ?c"
    by (rule list_ex_update)
  show ?thesis
    using ok t l n sl
    by (auto simp: gc_ok_def sync_turn_def after_turn_def Let_def lead_def stop_waiting_def leads_def counted_in_def sleeps_def
        split: if_splits)
qed

lemma resume_ok:
  assumes ok: "gc_ok s" and i: "i < length (gc_calls s)" "gc_calls s ! i = Pausing need g" and t: "lead (gc_marks s) = (target, m)"
  shows "gc_ok (s\<lparr>gc_marks := m, gc_calls := (gc_calls s)[i := Syncing need g target cuts]\<rparr>)"
proof -
  let ?c = "Syncing need g target cuts"
  have "many leads ((gc_calls s)[i := ?c]) = many leads (gc_calls s)" "many counted_in ((gc_calls s)[i := ?c]) = many counted_in (gc_calls s)"
    using many_update [OF i(1), of leads ?c] many_update [OF i(1), of counted_in ?c] i(2) by (simp_all add: leads_def counted_in_def)
  moreover have "mk_running (gc_marks s) \<noteq> None" using leader_runs [OF ok i(1)] i(2) by (simp add: leads_def)
  ultimately show ?thesis using ok t by (auto simp: gc_ok_def lead_def)
qed

lemma land_ok:
  assumes ok: "gc_ok s" and i: "i < length (gc_calls s)" "gc_calls s ! i = Syncing need g target cuts"
  shows "\<exists>m. sync_land target synced took (gc_marks s) = Some m \<and>
    gc_ok (s\<lparr>gc_marks := m, gc_calls := map wake ((gc_calls s)[i := Returned need g synced]), gc_platter := p\<rparr>)"
proof -
  let ?c = "Returned need g synced"
  have l: "many leads ((gc_calls s)[i := ?c]) + 1 = many leads (gc_calls s)" "many counted_in ((gc_calls s)[i := ?c]) + 1 = many counted_in (gc_calls s)"
    using many_update [OF i(1), of leads ?c] many_update [OF i(1), of counted_in ?c] i(2) by (simp_all add: leads_def counted_in_def)
  moreover have "mk_running (gc_marks s) \<noteq> None" using leader_runs [OF ok i(1)] i(2) by (simp add: leads_def)
  ultimately show ?thesis using ok by (auto simp: gc_ok_def sync_land_def stop_waiting_def Let_def)
qed

lemma act_ok: "gc_act s s1 \<Longrightarrow> gc_ok s \<Longrightarrow> gc_ok s1"
proof (induction rule: gc_act.induct)
  case (turn i s need g counted t m) then show ?case by (intro turn_ok)
next
  case (resume i s need g target m) then show ?case by (intro resume_ok)
next
  case (land i s need g target cuts synced took m)
  then show ?case using land_ok [of s i need g target cuts synced took] by (auto split del: if_split)
qed

lemma env_ok: "gc_env calm s s1 \<Longrightarrow> gc_ok s \<Longrightarrow> gc_ok s1"
proof (induction rule: gc_env.induct)
  case (stage i s len)
  let ?c = "Called len (gc_cuts s) False"
  have "many leads ((gc_calls s)[i := ?c]) = many leads (gc_calls s)" "many counted_in ((gc_calls s)[i := ?c]) = many counted_in (gc_calls s)"
    using many_update [OF stage(1), of leads ?c] many_update [OF stage(1), of counted_in ?c] stage(2) by (simp_all add: leads_def counted_in_def)
  then show ?case using stage list_ex_update [of sleeps "gc_calls s" i ?c] by (auto simp: gc_ok_def marks_staged_def sleeps_def)
next
  case (trim s len synced)
  then show ?case by (auto simp: gc_ok_def marks_reset_def Let_def)
next
  case (again i s need g ok)
  have "many leads ((gc_calls s)[i := Idle]) = many leads (gc_calls s)" "many counted_in ((gc_calls s)[i := Idle]) = many counted_in (gc_calls s)"
    using many_update [OF again(1), of leads Idle] many_update [OF again(1), of counted_in Idle] again(2) by (simp_all add: leads_def counted_in_def)
  then show ?case using again list_ex_update [of sleeps "gc_calls s" i Idle] by (auto simp: gc_ok_def sleeps_def)
next
  case (spurious i s need g)
  let ?c = "Called need g True"
  have "many leads ((gc_calls s)[i := ?c]) = many leads (gc_calls s)" "many counted_in ((gc_calls s)[i := ?c]) = many counted_in (gc_calls s)"
    using many_update [OF spurious(1), of leads ?c] many_update [OF spurious(1), of counted_in ?c] spurious(2) by (simp_all add: leads_def counted_in_def)
  then show ?case using spurious list_ex_update [of sleeps "gc_calls s" i ?c] by (auto simp: gc_ok_def sleeps_def)
qed

lemma start_ok: "gc_ok (gc_start len n)"
  by (auto simp: gc_ok_def gc_start_def commits_new_def many_def list_ex_iff leads_def counted_in_def sleeps_def)

lemma run_ok: "(gc_step calm)\<^sup>*\<^sup>* (gc_start len n) s \<Longrightarrow> gc_ok s"
  by (induction rule: rtranclp_induct) (auto simp: start_ok gc_step_def dest: act_ok env_ok)

subsection \<open>What a returned commit is promised\<close>

text \<open>
  A caller's frames are where it staged them as long as the log has not been cut. While a sync
  is in the air it covers no more than is staged; and a caller that was told yes has its
  bytes on the platter, or the log was cut since.
\<close>

definition caller_ok :: "marks \<Rightarrow> nat \<Rightarrow> nat \<Rightarrow> caller \<Rightarrow> bool" where
  "caller_ok m platter cuts c \<longleftrightarrow> (case c of
     Idle \<Rightarrow> True
   | Called need g _ \<Rightarrow> g \<le> cuts \<and> (g = cuts \<longrightarrow> need \<le> mk_staged m)
   | Asleep need g \<Rightarrow> g \<le> cuts \<and> (g = cuts \<longrightarrow> need \<le> mk_staged m)
   | Pausing need g \<Rightarrow> g \<le> cuts \<and> (g = cuts \<longrightarrow> need \<le> mk_staged m)
   | Syncing need g target at \<Rightarrow> g \<le> cuts \<and> at = cuts \<and> target \<le> mk_staged m \<and> (g = cuts \<longrightarrow> need \<le> target)
   | Returned need g ok \<Rightarrow> g \<le> cuts \<and> (ok \<and> g = cuts \<longrightarrow> need \<le> platter))"

definition gc_durable :: "group_state \<Rightarrow> bool" where
  "gc_durable s \<longleftrightarrow> mk_durable (gc_marks s) \<le> gc_platter s \<and> gc_platter s \<le> mk_staged (gc_marks s) \<and>
     list_all (caller_ok (gc_marks s) (gc_platter s) (gc_cuts s)) (gc_calls s)"

lemma list_all_update: "list_all P xs \<Longrightarrow> P x \<Longrightarrow> list_all P (xs[i := x])"
  by (auto simp: list_all_iff dest!: set_update_subset_insert [THEN subsetD])

lemma caller_ok_mono:
  "caller_ok m p cuts c \<Longrightarrow> mk_staged m \<le> mk_staged m1 \<Longrightarrow> p \<le> p1 \<Longrightarrow> caller_ok m1 p1 cuts c"
  by (auto simp: caller_ok_def split: caller.splits)

lemma caller_ok_cut: "caller_ok m p cuts c \<Longrightarrow> \<not> leads c \<Longrightarrow> caller_ok m1 p1 (Suc cuts) c"
  by (auto simp: caller_ok_def leads_def split: caller.splits)

lemma caller_ok_wake: "caller_ok m p cuts (wake c) = caller_ok m p cuts c"
  by (simp add: caller_ok_def wake_def split: caller.splits)

lemma callers_mono:
  "list_all (caller_ok m p cuts) cs \<Longrightarrow> mk_staged m \<le> mk_staged m1 \<Longrightarrow> p \<le> p1 \<Longrightarrow> list_all (caller_ok m1 p1 cuts) cs"
  by (auto simp: list_all_iff intro: caller_ok_mono)

lemma act_durable: "gc_act s s1 \<Longrightarrow> gc_durable s \<Longrightarrow> gc_durable s1"
proof (induction rule: gc_act.induct)
  case (turn i s need g counted t m)
  have c: "caller_ok (gc_marks s) (gc_platter s) (gc_cuts s) (Called need g counted)"
    using turn(1,2,4) by (metis gc_durable_def list_all_length)
  have m: "mk_staged m = mk_staged (gc_marks s)" "mk_durable m = mk_durable (gc_marks s)"
    using turn(3) by (auto simp: sync_turn_def Let_def lead_def stop_waiting_def split: if_splits)
  have "caller_ok m (gc_platter s) (gc_cuts s) (after_turn need g (gc_cuts s) t)"
    using turn(3,4) c
    by (auto simp: sync_turn_def Let_def lead_def stop_waiting_def after_turn_def caller_ok_def covered_def gc_durable_def split: if_splits)
  moreover have "list_all (caller_ok m (gc_platter s) (gc_cuts s)) (gc_calls s)"
    using turn(4) callers_mono m by (auto simp: gc_durable_def)
  ultimately show ?case using turn(4) m by (simp add: gc_durable_def list_all_update)
next
  case (resume i s need g target m)
  have c: "caller_ok (gc_marks s) (gc_platter s) (gc_cuts s) (Pausing need g)"
    using resume(1,2,4) by (metis gc_durable_def list_all_length)
  have m: "mk_staged m = mk_staged (gc_marks s)" "mk_durable m = mk_durable (gc_marks s)" "target = mk_staged (gc_marks s)"
    using resume(3) by (auto simp: lead_def)
  have "list_all (caller_ok m (gc_platter s) (gc_cuts s)) (gc_calls s)"
    using resume(4) callers_mono m by (auto simp: gc_durable_def)
  then show ?case using resume(4) m c by (simp add: gc_durable_def list_all_update caller_ok_def)
next
  case (land i s need g target cuts synced took m)
  have c: "caller_ok (gc_marks s) (gc_platter s) (gc_cuts s) (Syncing need g target cuts)"
    using land(1,2,4) by (metis gc_durable_def list_all_length)
  have m: "mk_staged m = mk_staged (gc_marks s)" "mk_durable m = (if synced then max (mk_durable (gc_marks s)) target else mk_durable (gc_marks s))"
    using land(3) by (auto simp: sync_land_def Let_def stop_waiting_def split: if_splits)
  define p where "p = (if synced \<and> cuts = gc_cuts s then max (gc_platter s) target else gc_platter s)"
  have p: "gc_platter s \<le> p" "p \<le> mk_staged m" "mk_durable m \<le> p" "synced \<Longrightarrow> target \<le> p"
    using c land(4) m by (auto simp: p_def caller_ok_def gc_durable_def)
  have "list_all (caller_ok m p (gc_cuts s)) (gc_calls s)"
    using land(4) callers_mono m p(1) by (auto simp: gc_durable_def)
  moreover have "caller_ok m p (gc_cuts s) (Returned need g synced)" using c p(4) by (auto simp: caller_ok_def)
  ultimately have "list_all (caller_ok m p (gc_cuts s)) (map wake ((gc_calls s)[i := Returned need g synced]))"
    by (simp add: list_all_update list.pred_map o_def caller_ok_wake)
  then show ?case using p(2,3) unfolding gc_durable_def by (simp add: p_def [symmetric])
qed

lemma env_durable: "gc_env True s s1 \<Longrightarrow> gc_ok s \<Longrightarrow> gc_durable s \<Longrightarrow> gc_durable s1"
proof (induction rule: gc_env.induct)
  case (stage i s len)
  let ?m = "marks_staged len (gc_marks s)"
  have "list_all (caller_ok ?m (gc_platter s) (gc_cuts s)) (gc_calls s)"
    using stage(5) callers_mono by (auto simp: gc_durable_def marks_staged_def)
  then show ?case using stage(5) by (simp add: gc_durable_def list_all_update caller_ok_def marks_staged_def le_max_iff_disj)
next
  case (trim s len synced)
  let ?m = "marks_reset len synced (gc_marks s)"
  have "caller_ok (gc_marks s) (gc_platter s) (gc_cuts s) c \<and> \<not> leads c" if "c \<in> set (gc_calls s)" for c
    using that trim nobody_leads [of s] by (metis gc_durable_def in_set_conv_nth list_all_iff)
  then have "list_all (caller_ok ?m (if synced then len else 0) (Suc (gc_cuts s))) (gc_calls s)"
    by (auto simp: list_all_iff intro: caller_ok_cut)
  then show ?case by (simp add: gc_durable_def marks_reset_def Let_def)
next
  case (again i s need g ok)
  then show ?case by (simp add: gc_durable_def list_all_update caller_ok_def)
next
  case (spurious i s need g)
  have "caller_ok (gc_marks s) (gc_platter s) (gc_cuts s) (Asleep need g)"
    using spurious(1,2,4) by (metis gc_durable_def list_all_length)
  then show ?case using spurious by (simp add: gc_durable_def list_all_update caller_ok_def)
qed

lemma run_durable: "(gc_step True)\<^sup>*\<^sup>* (gc_start len n) s \<Longrightarrow> gc_durable s"
proof (induction rule: rtranclp_induct)
  case base
  show ?case by (auto simp: gc_durable_def gc_start_def commits_new_def list_all_iff caller_ok_def)
next
  case (step s s1)
  then show ?case using run_ok [OF step(1)] by (auto simp: gc_step_def dest: act_durable env_durable)
qed

subsection \<open>Every commit call returns\<close>

definition at_rest :: "caller \<Rightarrow> bool" where
  "at_rest c \<longleftrightarrow> (case c of Idle \<Rightarrow> True | Returned _ _ _ \<Rightarrow> True | _ \<Rightarrow> False)"

definition work :: "caller \<Rightarrow> nat" where
  "work c = (case c of Called _ _ _ \<Rightarrow> 3 | Pausing _ _ \<Rightarrow> 2 | Syncing _ _ _ _ \<Rightarrow> 1 | _ \<Rightarrow> 0)"

definition busy :: "caller \<Rightarrow> bool" where
  "busy c \<longleftrightarrow> \<not> at_rest c"

lemma busy_work [simp]:
  "\<not> busy Idle" "busy (Called need g counted)" "busy (Asleep need g)" "busy (Pausing need g)" "busy (Syncing need g target cuts)"
  "\<not> busy (Returned need g ok)" "work (Called need g counted) = 3" "work (Asleep need g) = 0" "work (Pausing need g) = 2"
  "work (Syncing need g target cuts) = 1" "work (Returned need g ok) = 0"
  by (simp_all add: busy_def at_rest_def work_def)

lemma sum_update: "i < length xs \<Longrightarrow> sum_list (map f (xs[i := x])) + f (xs ! i) = sum_list (map f xs) + (f x :: nat)"
proof (induction xs arbitrary: i)
  case (Cons y ys)
  show ?case
  proof (cases i)
    case (Suc j)
    then show ?thesis using Cons.IH [of j] Cons.prems by simp
  qed simp
qed simp

lemma busy_wake [simp]: "many busy (map wake xs) = many busy xs"
proof -
  have "busy (wake c) = busy c" for c by (simp add: wake_def busy_def at_rest_def split: caller.splits)
  then show ?thesis by (simp add: many_def filter_map o_def)
qed

lemma act_less:
  assumes "gc_act s s1"
  shows "many busy (gc_calls s1) < many busy (gc_calls s) \<or>
    many busy (gc_calls s1) = many busy (gc_calls s) \<and> sum_list (map work (gc_calls s1)) < sum_list (map work (gc_calls s))"
  using assms
proof (induction rule: gc_act.induct)
  case (turn i s need g counted t m)
  let ?c = "after_turn need g (gc_cuts s) t"
  have "many busy ((gc_calls s)[i := ?c]) + 1 = many busy (gc_calls s) + (if busy ?c then 1 else 0)"
      "sum_list (map work ((gc_calls s)[i := ?c])) + 3 = sum_list (map work (gc_calls s)) + work ?c"
    using many_update [OF turn(1), of busy ?c] sum_update [OF turn(1), of work ?c] turn(2) by simp_all
  then show ?case by (cases t) (auto simp: after_turn_def)
next
  case (resume i s need g target m)
  let ?c = "Syncing need g target (gc_cuts s)"
  have "many busy ((gc_calls s)[i := ?c]) + 1 = many busy (gc_calls s) + 1"
      "sum_list (map work ((gc_calls s)[i := ?c])) + 2 = sum_list (map work (gc_calls s)) + 1"
    using many_update [OF resume(1), of busy ?c] sum_update [OF resume(1), of work ?c] resume(2) by simp_all
  then show ?case by simp
next
  case (land i s need g target cuts synced took m)
  have "many busy ((gc_calls s)[i := Returned need g synced]) + 1 = many busy (gc_calls s)"
    using many_update [OF land(1), of busy "Returned need g synced"] land(2) by simp
  then show ?case by simp
qed

lemma act_wf: "wf {(s1, s). gc_act s s1}"
proof -
  have "{(s1, s). gc_act s s1} \<subseteq> inv_image (less_than <*lex*> less_than) (\<lambda>s. (many busy (gc_calls s), sum_list (map work (gc_calls s))))"
    using act_less by (fastforce simp: in_lex_prod)
  then show ?thesis by (rule wf_subset [rotated]) (intro wf_inv_image wf_lex_prod wf_less_than)
qed

lemma someone_acts:
  assumes ok: "gc_ok s" and busy: "\<not> list_all at_rest (gc_calls s)"
  shows "\<exists>s1. gc_act s s1"
proof (cases "mk_running (gc_marks s) = None")
  case True
  obtain i where i: "i < length (gc_calls s)" "\<not> at_rest (gc_calls s ! i)" using busy by (auto simp: list_all_length)
  have "\<not> leads (gc_calls s ! i)" using nobody_leads [OF ok True i(1)] .
  moreover have "\<not> sleeps (gc_calls s ! i)" using ok True i(1) by (auto simp: gc_ok_def list_ex_iff)
  ultimately obtain need g counted where c: "gc_calls s ! i = Called need g counted"
    using i(2) by (cases "gc_calls s ! i") (auto simp: at_rest_def leads_def sleeps_def)
  have "mk_waiting (gc_marks s) > 0" if counted
    using many_pos [OF i(1), of counted_in] c that ok by (simp add: counted_in_def gc_ok_def)
  then have "sync_turn need counted (gc_marks s) \<noteq> None" by (auto simp: sync_turn_def stop_waiting_def Let_def lead_def)
  then obtain t m where "sync_turn need counted (gc_marks s) = Some (t, m)" by auto
  from gc_act.turn [OF i(1) c this] show ?thesis by blast
next
  case False
  then have "0 < many leads (gc_calls s)" using ok by (simp add: gc_ok_def)
  then obtain i where i: "i < length (gc_calls s)" "leads (gc_calls s ! i)"
    by (auto simp: many_def filter_empty_conv in_set_conv_nth)
  then consider need g where "gc_calls s ! i = Pausing need g" | need g target cuts where "gc_calls s ! i = Syncing need g target cuts"
    by (cases "gc_calls s ! i") (auto simp: leads_def)
  then show ?thesis
  proof cases
    case 1
    then show ?thesis using gc_act.resume [OF i(1) 1] by (metis surj_pair)
  next
    case 2
    then show ?thesis using land_ok [OF ok i(1) 2] gc_act.land [OF i(1) 2] by blast
  qed
qed

lemma all_return:
  assumes "gc_ok s"
  shows "\<exists>s1. gc_act\<^sup>*\<^sup>* s s1 \<and> list_all at_rest (gc_calls s1)"
  using act_wf assms
proof (induction s rule: wf_induct_rule)
  case (less s)
  show ?case
  proof (cases "list_all at_rest (gc_calls s)")
    case False
    then obtain s1 where s1: "gc_act s s1" using someone_acts [OF less(2)] by blast
    then obtain s2 where "gc_act\<^sup>*\<^sup>* s1 s2" "list_all at_rest (gc_calls s2)" using less(1) [of s1] act_ok [OF s1 less(2)] s1 by blast
    then show ?thesis using converse_rtranclp_into_rtranclp [of gc_act s s1 s2] s1 by blast
  qed blast
qed

lemma no_endless_run: "\<nexists>f. \<forall>n :: nat. gc_act (f n) (f (Suc n))"
  using act_wf by (auto simp: wf_iff_no_infinite_down_chain)

subsection \<open>A cut while a sync is in the air\<close>

text \<open>
  Without the discipline, a leader that lands after the log was cut marks bytes durable that
  the log no longer has, and the next small commit is told yes before any sync covers it.
\<close>

lemma cut_race:
  "\<exists>s. (gc_step False)\<^sup>*\<^sup>* (gc_start 0 2) s \<and> gc_calls s ! 1 = Returned 100 1 True \<and> gc_cuts s = 1 \<and> gc_platter s = 0"
proof -
  define m1 where "m1 = (commits_new 0)\<lparr>mk_staged := 1000\<rparr>"
  define m2 where "m2 = m1\<lparr>mk_waiting := 1, mk_running := Some 1000\<rparr>"
  define m3 where "m3 = m2\<lparr>mk_staged := 0, mk_durable := 0\<rparr>"
  define m4 where "m4 = m3\<lparr>mk_running := None, mk_durable := 1000, mk_cost := 5, mk_group := 1, mk_waiting := 0\<rparr>"
  define m5 where "m5 = m4\<lparr>mk_staged := 100\<rparr>"
  note defs = m1_def m2_def m3_def m4_def m5_def commits_new_def
  let ?s = "\<lambda>m cs k. \<lparr>gc_marks = m, gc_calls = cs, gc_platter = 0, gc_cuts = k\<rparr>"
  have "gc_step False (gc_start 0 2) (?s m1 [Called 1000 0 False, Idle] 0)"
    using gc_env.stage [of 0 "gc_start 0 2" 1000 False]
    by (simp add: gc_step_def gc_start_def marks_staged_def defs numeral_2_eq_2)
  moreover have "gc_step False (?s m1 [Called 1000 0 False, Idle] 0) (?s m2 [Syncing 1000 0 1000 0, Idle] 0)"
    using gc_act.turn [of 0 "?s m1 [Called 1000 0 False, Idle] 0" 1000 0 False "Sync 1000" m2]
    by (simp add: gc_step_def after_turn_def sync_turn_def covered_def gather_def lead_def defs)
  moreover have "gc_step False (?s m2 [Syncing 1000 0 1000 0, Idle] 0) (?s m3 [Syncing 1000 0 1000 0, Idle] 1)"
    using gc_env.trim [of False "?s m2 [Syncing 1000 0 1000 0, Idle] 0" 0 False]
    by (simp add: gc_step_def marks_reset_def defs)
  moreover have "gc_step False (?s m3 [Syncing 1000 0 1000 0, Idle] 1) (?s m4 [Returned 1000 0 True, Idle] 1)"
    using gc_act.land [of 0 "?s m3 [Syncing 1000 0 1000 0, Idle] 1" 1000 0 1000 0 True 5 m4]
    by (simp add: gc_step_def sync_land_def stop_waiting_def wake_def defs)
  moreover have "gc_step False (?s m4 [Returned 1000 0 True, Idle] 1) (?s m5 [Returned 1000 0 True, Called 100 1 False] 1)"
    using gc_env.stage [of 1 "?s m4 [Returned 1000 0 True, Idle] 1" 100 False]
    by (simp add: gc_step_def marks_staged_def defs)
  moreover have "gc_step False (?s m5 [Returned 1000 0 True, Called 100 1 False] 1) (?s m5 [Returned 1000 0 True, Returned 100 1 True] 1)"
    using gc_act.turn [of 1 "?s m5 [Returned 1000 0 True, Called 100 1 False] 1" 100 1 False Return m5]
    by (simp add: gc_step_def after_turn_def sync_turn_def covered_def defs)
  ultimately have "(gc_step False)\<^sup>*\<^sup>* (gc_start 0 2) (?s m5 [Returned 1000 0 True, Returned 100 1 True] 1)"
    by (meson rtranclp.rtrancl_refl rtranclp.rtrancl_into_rtrancl)
  then show ?thesis by (intro exI [of _ "?s m5 [Returned 1000 0 True, Returned 100 1 True] 1"]) simp
qed

end
