(* ===== verification/Wal.thy ===== *)
theory Wal
  imports Disk WalRecords GroupCommit
begin

text \<open>
  The write ahead log, \<^verbatim>\<open>Wal\<close> of \<^verbatim>\<open>crates/zu-zu1/src/wal.rs\<close>: frames of records in a sidecar
  file whose unused room is zeros, staged in memory and written at a commit. \<open>crc\<close> is
  \<^verbatim>\<open>crc32c\<close>. The file is a \<open>disk\<close> with the write rules of \<open>Disk\<close>.
\<close>

subsection \<open>Frames\<close>

definition PREFIX :: nat where "PREFIX = 8"
definition MIN_BODY :: nat where "MIN_BODY = 9"

definition next_frame :: "(u8 list \<Rightarrow> u32) \<Rightarrow> u8 list \<Rightarrow> nat \<Rightarrow> (u8 list \<times> nat) option" where
  "next_frame crc bytes at =
     (let rest = drop (min at (length bytes)) bytes
      in if length rest < PREFIX then None
         else let len = read_u32 (window rest 0 4); stored = from_le (window rest 4 4)
           in if len < MIN_BODY \<or> PREFIX + len > length rest then None
              else let body = window rest PREFIX len
                in if crc body \<noteq> stored then None else Some (body, at + PREFIX + len))"

lemma next_frame_moves: "next_frame crc bytes at = Some (body, next_at) \<Longrightarrow> at < next_at \<and> next_at \<le> length bytes"
  by (auto simp: next_frame_def Let_def PREFIX_def split: if_splits)

text \<open>
  \<^verbatim>\<open>while let Some((body, next)) = next_frame(bytes, at) { .. at = next }\<close>: the bodies the loop
  sees, each with the offset behind it.
\<close>

function frames :: "(u8 list \<Rightarrow> u32) \<Rightarrow> u8 list \<Rightarrow> nat \<Rightarrow> (u8 list \<times> nat) list" where
  "frames crc bytes at =
     (case next_frame crc bytes at of
        None \<Rightarrow> []
      | Some (body, next_at) \<Rightarrow> (body, next_at) # frames crc bytes next_at)"
  by auto
termination
proof (relation "measure (\<lambda>(_, bytes, at). length bytes - at)", goal_cases)
  case (2 crc bytes at x body next_at)
  then show ?case using next_frame_moves [of crc bytes at body next_at] by (auto intro: diff_less_mono2)
qed simp

declare frames.simps [simp del]

definition frames_end :: "(u8 list \<times> nat) list \<Rightarrow> nat" where
  "frames_end fs = (if fs = [] then 0 else snd (last fs))"

definition body_epoch :: "u8 list \<Rightarrow> u64" where
  "body_epoch body = read_u64 (window body 0 8)"

definition record_body :: "u64 \<Rightarrow> wal_record \<Rightarrow> u8 list" where
  "record_body epoch rec = u64_le epoch @ wal_kind rec # encode_payload rec"

definition frame_of :: "(u8 list \<Rightarrow> u32) \<Rightarrow> u8 list \<Rightarrow> u8 list" where
  "frame_of crc body = len_le (length body) @ u32_le (crc body) @ body"

subsection \<open>The open log\<close>

record wal =
  wl_disk :: disk
  wl_commits :: marks
  wl_len :: nat
  wl_reserved :: nat
  wl_buf :: "u8 list"

type_synonym 'a wio = "wal \<Rightarrow> 'a result \<times> wal"

definition w_bind :: "'a wio \<Rightarrow> ('a \<Rightarrow> 'b wio) \<Rightarrow> 'b wio" where
  "w_bind m f = (\<lambda>w. case m w of (Inl e, w1) \<Rightarrow> (Inl e, w1) | (Inr x, w1) \<Rightarrow> f x w1)"

definition w_state :: "(wal \<Rightarrow> wal) \<Rightarrow> unit wio" where
  "w_state f = (\<lambda>w. (Inr (), f w))"

definition SPILL :: nat where "SPILL = 256 * 1024"
definition RESERVE_MIN :: nat where "RESERVE_MIN = 64 * 1024"
definition RESERVE_MAX :: nat where "RESERVE_MAX = 1024 * 1024"

definition wal_write :: "u8 list \<Rightarrow> nat \<Rightarrow> unit wio" where
  "wal_write bytes off w = (let (r, d) = disk_write (wl_disk w) bytes off in (r, w\<lparr>wl_disk := d\<rparr>))"

definition wal_sync :: "unit wio" where
  "wal_sync w = (let (r, d) = disk_sync (wl_disk w) in (r, w\<lparr>wl_disk := d\<rparr>))"

function erase :: "nat \<Rightarrow> nat \<Rightarrow> unit wio" where
  "erase at to_end w =
     (if at < to_end
      then let span = min (to_end - at) RESERVE_MAX
        in case wal_write (replicate span 0) at w of
             (Inl e, w1) \<Rightarrow> (Inl e, w1)
           | (Inr _, w1) \<Rightarrow> erase (at + span) to_end w1
      else (Inr (), w))"
  by auto
termination by (relation "measure (\<lambda>(at, to_end, w). to_end - at)") (auto simp: RESERVE_MAX_def)

declare erase.simps [simp del]

text \<open>The reservation doubles; its step is never zero.\<close>

function reserve_to :: "nat \<Rightarrow> nat \<Rightarrow> nat \<Rightarrow> nat" where
  "reserve_to goal to_end step =
     (if to_end < goal \<and> 0 < step then reserve_to goal (to_end + step) (min (step * 2) RESERVE_MAX) else to_end)"
  by auto
termination by (relation "measure (\<lambda>(goal, to_end, step). goal - to_end)") auto

declare reserve_to.simps [simp del]

definition reserve :: "nat \<Rightarrow> unit wio" where
  "reserve need w =
     (if wl_len w + need \<le> wl_reserved w then (Inr (), w)
      else let step = max RESERVE_MIN (min (wl_reserved w) RESERVE_MAX);
               to_end = reserve_to (wl_len w + need) (wl_reserved w) step
        in w_bind (erase (wl_reserved w) to_end) (\<lambda>_.
           w_bind wal_sync (\<lambda>_. w_state (\<lambda>w. w\<lparr>wl_reserved := to_end\<rparr>))) w)"

definition wal_flush :: "unit wio" where
  "wal_flush w =
     (if wl_buf w = [] then (Inr (), w)
      else w_bind (reserve (length (wl_buf w))) (\<lambda>_ w.
           w_bind (wal_write (wl_buf w) (wl_len w)) (\<lambda>_.
           w_state (\<lambda>w. let len = wl_len w + length (wl_buf w)
             in w\<lparr>wl_len := len, wl_buf := [], wl_commits := marks_staged len (wl_commits w)\<rparr>)) w) w)"

definition wal_append :: "(u8 list \<Rightarrow> u32) \<Rightarrow> u64 \<Rightarrow> wal_record \<Rightarrow> unit wio" where
  "wal_append crc epoch rec w =
     (let w1 = w\<lparr>wl_buf := wl_buf w @ frame_of crc (record_body epoch rec)\<rparr>
      in if length (wl_buf w1) \<ge> SPILL then wal_flush w1 else (Inr (), w1))"

definition stage_commit :: "(u8 list \<Rightarrow> u32) \<Rightarrow> u64 \<Rightarrow> nat wio" where
  "stage_commit crc epoch =
     w_bind (wal_append crc epoch TxnCommit) (\<lambda>_. w_bind wal_flush (\<lambda>_ w. (Inr (wl_len w), w)))"

text \<open>
  \<^verbatim>\<open>sync_through\<close> with nobody else on the log: \<open>None\<close> is a caller asleep for a leader that is
  not there, or an underflow.
\<close>

definition sync_alone :: "nat \<Rightarrow> nat \<Rightarrow> wal \<Rightarrow> (unit result \<times> wal) option" where
  "sync_alone took need w =
     (case sync_turn need False (wl_commits w) of
        None \<Rightarrow> None
      | Some (Return, m) \<Rightarrow> Some (Inr (), w\<lparr>wl_commits := m\<rparr>)
      | Some (Sleep, m) \<Rightarrow> None
      | Some (t, m) \<Rightarrow>
          let (target, m1) = (case t of Sync target \<Rightarrow> (target, m) | _ \<Rightarrow> lead m);
              (r, w1) = wal_sync (w\<lparr>wl_commits := m1\<rparr>)
          in map_option (\<lambda>m2. (r, w1\<lparr>wl_commits := m2\<rparr>)) (sync_land target (\<not> isl r) took (wl_commits w1)))"

definition wal_commit :: "(u8 list \<Rightarrow> u32) \<Rightarrow> nat \<Rightarrow> u64 \<Rightarrow> wal \<Rightarrow> (unit result \<times> wal) option" where
  "wal_commit crc took epoch w =
     (case stage_commit crc epoch w of
        (Inl e, w1) \<Rightarrow> Some (Inl e, w1)
      | (Inr need, w1) \<Rightarrow> sync_alone took need w1)"

definition wal_total_len :: "wal \<Rightarrow> nat" where
  "wal_total_len w = wl_len w + length (wl_buf w)"

definition wal_is_empty :: "wal \<Rightarrow> bool" where
  "wal_is_empty w \<longleftrightarrow> wal_total_len w = 0"

definition rollback_above :: "(u8 list \<Rightarrow> u32) \<Rightarrow> u64 \<Rightarrow> unit wio" where
  "rollback_above crc floor w =
     (let w1 = w\<lparr>wl_buf := []\<rparr> in
      case disk_read (wl_disk w1) 0 (wl_len w1) of
        Inl e \<Rightarrow> (Inl e, w1)
      | Inr bytes \<Rightarrow>
          let stop = frames_end (takeWhile (\<lambda>(body, _). body_epoch body \<le> floor) (frames crc bytes 0))
          in if stop = wl_len w1 then (Inr (), w1)
             else w_bind (erase stop (wl_len w1)) (\<lambda>_.
                  w_bind wal_sync (\<lambda>_.
                  w_state (\<lambda>w. w\<lparr>wl_len := stop, wl_commits := marks_reset stop True (wl_commits w)\<rparr>))) w1)"

definition wal_truncate :: "unit wio" where
  "wal_truncate w =
     w_bind (erase 0 (wl_len w)) (\<lambda>_.
     w_state (\<lambda>w. w\<lparr>wl_len := 0, wl_commits := marks_reset 0 False (wl_commits w)\<rparr>)) (w\<lparr>wl_buf := []\<rparr>)"

definition open_on :: "(u8 list \<Rightarrow> u32) \<Rightarrow> disk \<Rightarrow> wal result" where
  "open_on crc d =
     (let reserved = disk_len d in
      case disk_read d 0 reserved of
        Inl e \<Rightarrow> Inl e
      | Inr bytes \<Rightarrow>
          let stop = frames_end (frames crc bytes 0);
              w = \<lparr>wl_disk = d, wl_commits = commits_new stop, wl_len = stop, wl_reserved = reserved, wl_buf = []\<rparr>
          in if list_ex (\<lambda>b. b \<noteq> 0) (drop stop bytes)
             then (case w_bind (erase stop reserved) (\<lambda>_. wal_sync) w of
                     (Inl e, _) \<Rightarrow> Inl e
                   | (Inr _, w1) \<Rightarrow> Inr w1)
             else Inr w)"

subsection \<open>Replay\<close>

text \<open>The sink is the caller's; it may fail and it keeps a state of its own.\<close>

type_synonym 's sink = "u64 \<Rightarrow> wal_record \<Rightarrow> 's \<Rightarrow> unit result \<times> 's"

fun deliver :: "'s sink \<Rightarrow> (u64 \<times> wal_record) list \<Rightarrow> 's \<Rightarrow> unit result \<times> 's" where
  "deliver sink [] s = (Inr (), s)"
| "deliver sink ((epoch, rec) # rest) s =
     (case sink epoch rec s of (Inl e, s1) \<Rightarrow> (Inl e, s1) | (Inr _, s1) \<Rightarrow> deliver sink rest s1)"

definition raise_floor :: "u64 \<Rightarrow> u8 list list \<Rightarrow> u64" where
  "raise_floor floor bodies =
     fold (\<lambda>body floor. if body ! 8 = KIND_CHECKPOINT_NOTE then max floor (body_epoch body) else floor) bodies floor"

fun replay_bodies :: "u64 \<Rightarrow> 's sink \<Rightarrow> u8 list list \<Rightarrow> (u64 \<times> wal_record) list \<Rightarrow> 's \<Rightarrow> unit result \<times> 's" where
  "replay_bodies floor sink [] txn s = (Inr (), s)"
| "replay_bodies floor sink (body # rest) txn s =
     (let epoch = body_epoch body in
      case record_decode (body ! 8) \<lparr>rd_buf = drop 9 body, rd_pos = 0\<rparr> of
        Inl e \<Rightarrow> (Inl e, s)
      | Inr CheckpointNote \<Rightarrow> replay_bodies floor sink rest txn s
      | Inr TxnBegin \<Rightarrow> replay_bodies floor sink rest [(epoch, TxnBegin)] s
      | Inr TxnCommit \<Rightarrow>
          (if epoch > floor
           then case deliver sink (txn @ [(epoch, TxnCommit)]) s of
                  (Inl e, s1) \<Rightarrow> (Inl e, s1)
                | (Inr _, s1) \<Rightarrow> replay_bodies floor sink rest [] s1
           else replay_bodies floor sink rest [] s)
      | Inr rec \<Rightarrow> replay_bodies floor sink rest (txn @ [(epoch, rec)]) s)"

definition replay_log :: "(u8 list \<Rightarrow> u32) \<Rightarrow> u64 \<Rightarrow> 's sink \<Rightarrow> 's \<Rightarrow> wal \<Rightarrow> unit result \<times> 's" where
  "replay_log crc floor sink s w =
     (case disk_read (wl_disk w) 0 (wl_len w) of
        Inl e \<Rightarrow> (Inl e, s)
      | Inr bytes \<Rightarrow>
          let bodies = map fst (frames crc bytes 0)
          in replay_bodies (raise_floor floor bodies) sink bodies [] s)"


subsection \<open>Frames written are the frames read\<close>

definition body_ok :: "u8 list \<Rightarrow> bool" where
  "body_ok body \<longleftrightarrow> MIN_BODY \<le> length body \<and> length body < 2 ^ 32"

definition log_bytes :: "(u8 list \<Rightarrow> u32) \<Rightarrow> u8 list list \<Rightarrow> u8 list" where
  "log_bytes crc bodies = concat (map (frame_of crc) bodies)"

fun with_ends :: "nat \<Rightarrow> u8 list list \<Rightarrow> (u8 list \<times> nat) list" where
  "with_ends at [] = []"
| "with_ends at (body # rest) = (body, at + PREFIX + length body) # with_ends (at + PREFIX + length body) rest"

lemma log_bytes_simps [simp]:
  "log_bytes crc [] = []" "log_bytes crc (b # bs) = frame_of crc b @ log_bytes crc bs"
  "log_bytes crc (xs @ ys) = log_bytes crc xs @ log_bytes crc ys"
  by (simp_all add: log_bytes_def)

lemma length_frame [simp]: "length (frame_of crc body) = PREFIX + length body"
  by (simp add: frame_of_def PREFIX_def)

lemma map_fst_with_ends [simp]: "map fst (with_ends at bs) = bs"
  by (induction at bs rule: with_ends.induct) simp_all

lemma frames_end_with_ends: "bs \<noteq> [] \<Longrightarrow> snd (last (with_ends at bs)) = at + length (log_bytes crc bs)"
proof (induction at bs rule: with_ends.induct)
  case (2 at body rest)
  then show ?case by (cases rest) simp_all
qed simp

lemma frames_end_log: "frames_end (with_ends 0 bs) = length (log_bytes crc bs)"
  using frames_end_with_ends [of bs 0 crc] by (cases bs) (auto simp: frames_end_def)

lemma from_le_u32 [simp]: "from_le (u32_le w) = w"
  using from_le_to_le [of 0 4 w] by (simp add: u32_le_def)

lemma next_frame_drop:
  "at \<le> length bytes \<Longrightarrow> drop at bytes = frame_of crc body @ post \<Longrightarrow> body_ok body \<Longrightarrow>
    next_frame crc bytes at = Some (body, at + PREFIX + length body)"
  by (simp add: next_frame_def Let_def frame_of_def PREFIX_def MIN_BODY_def window_def body_ok_def read_len_le)

lemma four_parts: "xs = take a xs @ take b (drop a xs) @ take c (drop (a + b) xs) @ drop (a + b + c) xs"
  using append_take_drop_id [of "a + b + c" xs] by (simp only: take_add append_assoc)

lemma next_frame_SomeD:
  assumes "next_frame crc bytes at = Some (body, n)" "at \<le> length bytes"
  shows "body_ok body \<and> n = at + PREFIX + length body \<and> n \<le> length bytes \<and> drop at bytes = frame_of crc body @ drop n bytes"
proof -
  let ?rest = "drop at bytes"
  define len where "len = read_u32 (window ?rest 0 4)"
  have f: "8 \<le> length ?rest" "9 \<le> len" "8 + len \<le> length ?rest" "body = window ?rest 8 len" "crc body = from_le (window ?rest 4 4)"
      "n = at + 8 + len"
    using assms by (auto simp: next_frame_def Let_def PREFIX_def MIN_BODY_def len_def [symmetric] split: if_splits)
  have l: "length body = len" using f(3,4) by simp
  have p: "?rest = take 4 ?rest @ take 4 (drop 4 ?rest) @ take len (drop 8 ?rest) @ drop (8 + len) ?rest"
    using four_parts [of ?rest 4 4 len] by simp
  have q1: "take 4 ?rest = len_le (length body)" unfolding l len_def using f(1) by (simp add: window_def len_le_read)
  have q2: "take 4 (drop 4 ?rest) = u32_le (crc body)" unfolding f(5) using f(1) by (simp add: window_def u32_le_def to_le_from_le)
  have q3: "take len (drop 8 ?rest) = body" "drop (8 + len) ?rest = drop n bytes"
    by (simp_all add: f(4) window_def) (simp add: f(6) ac_simps)
  have "n \<le> length bytes" using f(3,6) assms(2) by simp
  moreover have "?rest = frame_of crc body @ drop n bytes"
    using p unfolding frame_of_def append_assoc q1 q2 q3 .
  moreover have "body_ok body" using f(2) l read_u32_bound [of "window ?rest 0 4"] by (simp add: body_ok_def MIN_BODY_def len_def)
  ultimately show ?thesis using f(6) l by (simp add: PREFIX_def)
qed

lemma next_frame_zeros: "drop at bytes = replicate n 0 \<Longrightarrow> at \<le> length bytes \<Longrightarrow> next_frame crc bytes at = None"
proof -
  have "read_u32 (replicate k 0) = 0" for k
  proof -
    have "(from_le (replicate k 0) :: u32) = 0" by (induction k) simp_all
    then show ?thesis by (simp add: read_u32_def)
  qed
  then show "drop at bytes = replicate n 0 \<Longrightarrow> at \<le> length bytes \<Longrightarrow> next_frame crc bytes at = None"
    by (simp add: next_frame_def Let_def window_def MIN_BODY_def)
qed

lemma frames_append:
  "list_all body_ok bs \<Longrightarrow> at \<le> length bytes \<Longrightarrow> drop at bytes = log_bytes crc bs @ post \<Longrightarrow>
    frames crc bytes at = with_ends at bs @ frames crc bytes (at + length (log_bytes crc bs))"
proof (induction bs arbitrary: at)
  case (Cons b bs)
  let ?n = "at + PREFIX + length b"
  have d: "drop at bytes = frame_of crc b @ log_bytes crc bs @ post" using Cons.prems(3) by simp
  have "next_frame crc bytes at = Some (b, ?n)" using next_frame_drop [OF Cons.prems(2) d] Cons.prems(1) by simp
  moreover have "drop ?n bytes = log_bytes crc bs @ post"
    using arg_cong [OF d, of "drop (PREFIX + length b)"] by (simp add: add.commute add.left_commute)
  moreover have "?n \<le> length bytes" using arg_cong [OF d, of length] Cons.prems(2) by simp
  ultimately show ?case using Cons.IH [of ?n] Cons.prems(1) by (subst frames.simps) (simp add: add.assoc)
qed simp

lemma frames_exact:
  assumes "list_all body_ok bs" "at \<le> length bytes" "drop at bytes = log_bytes crc bs @ post"
    and "next_frame crc bytes (at + length (log_bytes crc bs)) = None"
  shows "frames crc bytes at = with_ends at bs"
  using frames_append [OF assms(1-3)] assms(4) by (subst (asm) (2) frames.simps) simp

text \<open>Whatever the file holds, the frames found are laid one after another.\<close>

lemma frames_any:
  "at \<le> length bytes \<Longrightarrow> \<exists>bs. list_all body_ok bs \<and> frames crc bytes at = with_ends at bs \<and>
    at + length (log_bytes crc bs) \<le> length bytes \<and> drop at bytes = log_bytes crc bs @ drop (at + length (log_bytes crc bs)) bytes"
proof (induction crc bytes at rule: frames.induct)
  case (1 crc bytes at)
  show ?case
  proof (cases "next_frame crc bytes at")
    case None
    then show ?thesis using 1(2) by (intro exI [of _ "[]"]) (simp add: frames.simps)
  next
    case (Some x)
    then obtain b n where x: "x = (b, n)" "next_frame crc bytes at = Some (b, n)" by (cases x) auto
    note f = next_frame_SomeD [OF x(2) 1(2)]
    obtain bs where bs: "list_all body_ok bs" "frames crc bytes n = with_ends n bs" "n + length (log_bytes crc bs) \<le> length bytes"
        "drop n bytes = log_bytes crc bs @ drop (n + length (log_bytes crc bs)) bytes"
      using 1(1) [OF Some] x(1) f by auto
    then show ?thesis using f x(2)
      by (intro exI [of _ "b # bs"]) (subst frames.simps, simp add: add.assoc)
  qed
qed


subsection \<open>The log on the file\<close>

text \<open>
  \<open>wal_ok crc bs st w\<close>: the file holds the frames of \<open>bs\<close> and zeros behind them up to its end,
  and the buffer the frames of \<open>st\<close>.
\<close>

definition wal_ok :: "(u8 list \<Rightarrow> u32) \<Rightarrow> u8 list list \<Rightarrow> u8 list list \<Rightarrow> wal \<Rightarrow> bool" where
  "wal_ok crc bs st w \<longleftrightarrow> list_all body_ok (bs @ st) \<and> wl_buf w = log_bytes crc st \<and> wl_len w = length (log_bytes crc bs) \<and>
     wl_len w \<le> wl_reserved w \<and> di_writable (wl_disk w) \<and>
     di_image (wl_disk w) = log_bytes crc bs @ replicate (wl_reserved w - wl_len w) 0"

text \<open>What an operation wrote: nothing below \<open>n\<close>.\<close>

definition past :: "nat \<Rightarrow> io_event \<Rightarrow> bool" where
  "past n ev \<longleftrightarrow> (case ev of WriteEvent off _ \<Rightarrow> n \<le> off | SetLenEvent _ \<Rightarrow> False | SyncEvent \<Rightarrow> True)"

definition wrote_past :: "nat \<Rightarrow> wal \<Rightarrow> wal \<Rightarrow> bool" where
  "wrote_past n w w1 \<longleftrightarrow> (\<exists>evs. di_log (wl_disk w1) = di_log (wl_disk w) @ evs \<and> list_all (past n) evs \<and>
     di_image (wl_disk w1) = replay evs (di_image (wl_disk w)))"

lemma wrote_past_refl [simp]: "wl_disk w1 = wl_disk w \<Longrightarrow> wrote_past n w w1"
  by (simp add: wrote_past_def)

lemma wrote_past_trans:
  assumes "wrote_past n a b" "wrote_past m b c" "n \<le> m"
  shows "wrote_past n a c"
proof -
  obtain xs ys where "di_log (wl_disk b) = di_log (wl_disk a) @ xs" "list_all (past n) xs" "di_image (wl_disk b) = replay xs (di_image (wl_disk a))"
      "di_log (wl_disk c) = di_log (wl_disk b) @ ys" "list_all (past m) ys" "di_image (wl_disk c) = replay ys (di_image (wl_disk b))"
    using assms(1,2) unfolding wrote_past_def by blast
  moreover have "past m ev \<Longrightarrow> past n ev" for ev using assms(3) by (auto simp: past_def split: io_event.splits)
  ultimately show ?thesis
    unfolding wrote_past_def by (intro exI [of _ "xs @ ys"]) (auto simp: replay_append list_all_iff)
qed

lemma wal_write_ok:
  assumes "di_writable (wl_disk w)"
  shows "\<exists>d. wal_write bytes off w = (Inr (), w\<lparr>wl_disk := d\<rparr>) \<and> di_writable d \<and>
    di_image d = put_bytes (di_image (wl_disk w)) off bytes \<and> wrote_past off w (w\<lparr>wl_disk := d\<rparr>)"
  using assms
  by (intro exI [of _ "(wl_disk w)\<lparr>di_log := di_log (wl_disk w) @ [WriteEvent off bytes], di_image := put_bytes (di_image (wl_disk w)) off bytes\<rparr>"])
    (simp add: wal_write_def disk_write_ok wrote_past_def past_def)

lemma wal_sync_ok:
  "\<exists>d. wal_sync w = (Inr (), w\<lparr>wl_disk := d\<rparr>) \<and> di_writable d = di_writable (wl_disk w) \<and> di_image d = di_image (wl_disk w) \<and>
    di_log d = di_log (wl_disk w) @ [SyncEvent] \<and> wrote_past n w (w\<lparr>wl_disk := d\<rparr>)"
  by (intro exI [of _ "(wl_disk w)\<lparr>di_log := di_log (wl_disk w) @ [SyncEvent]\<rparr>"])
    (simp add: wal_sync_def disk_sync_def wrote_past_def past_def)

text \<open>Zeros over \<open>[at, to_end)\<close>, which may lie past the end.\<close>

lemma put_zeros_step:
  assumes "at \<le> length img" "at < to_end" "k \<le> to_end - at"
  shows "take at img @ replicate k 0 @ drop (at + k) img = put_bytes img at (replicate k (0 :: u8))"
proof (rule nth_equalityI)
  show "length (take at img @ replicate k 0 @ drop (at + k) img) = length (put_bytes img at (replicate k 0))"
    using assms by auto
  fix i assume "i < length (take at img @ replicate k 0 @ drop (at + k) img)"
  then show "(take at img @ replicate k 0 @ drop (at + k) img) ! i = put_bytes img at (replicate k 0) ! i"
    using assms by (auto simp: nth_put_bytes nth_append)
qed

lemma erase_ok:
  "di_writable (wl_disk w) \<Longrightarrow> at \<le> to_end \<Longrightarrow> at \<le> length (di_image (wl_disk w)) \<Longrightarrow>
    \<exists>d. erase at to_end w = (Inr (), w\<lparr>wl_disk := d\<rparr>) \<and> di_writable d \<and>
      di_image d = take at (di_image (wl_disk w)) @ replicate (to_end - at) 0 @ drop to_end (di_image (wl_disk w)) \<and>
      wrote_past at w (w\<lparr>wl_disk := d\<rparr>)"
proof (induction at to_end w rule: erase.induct)
  case (1 at to_end w)
  show ?case
  proof (cases "at < to_end")
    case False
    then have "at = to_end" using 1(3) by simp
    then show ?thesis using 1(2) by (subst erase.simps) (intro exI [of _ "wl_disk w"], simp)
  next
    case True
    let ?img = "di_image (wl_disk w)" and ?k = "min (to_end - at) RESERVE_MAX"
    obtain d where d: "wal_write (replicate ?k 0) at w = (Inr (), w\<lparr>wl_disk := d\<rparr>)" "di_writable d"
        "di_image d = put_bytes ?img at (replicate ?k 0)" "wrote_past at w (w\<lparr>wl_disk := d\<rparr>)"
      using wal_write_ok [OF 1(2)] by blast
    have img: "di_image d = take at ?img @ replicate ?k 0 @ drop (at + ?k) ?img"
      using put_zeros_step [OF 1(4) True, of ?k] d(3) by simp
    have "at + ?k \<le> to_end" using True by simp
    moreover have "at + ?k \<le> length (di_image d)" by (simp add: img 1(4))
    ultimately obtain d2 where d2: "erase (at + ?k) to_end (w\<lparr>wl_disk := d\<rparr>) = (Inr (), w\<lparr>wl_disk := d2\<rparr>)" "di_writable d2"
        "di_image d2 = take (at + ?k) (di_image d) @ replicate (to_end - (at + ?k)) 0 @ drop to_end (di_image d)"
        "wrote_past (at + ?k) (w\<lparr>wl_disk := d\<rparr>) (w\<lparr>wl_disk := d2\<rparr>)"
      using 1(1) [OF True refl d(1) [symmetric] refl] d(2) by auto
    have "erase at to_end w = (Inr (), w\<lparr>wl_disk := d2\<rparr>)"
      using True d(1) d2(1) by (subst erase.simps) (simp add: Let_def)
    moreover have "take (at + ?k) (di_image d) = take at ?img @ replicate ?k 0" using 1(4) by (simp add: img)
    moreover have "drop to_end (di_image d) = drop to_end ?img" using 1(4) True by (simp add: img)
    moreover have "replicate ?k (0 :: u8) @ replicate (to_end - (at + ?k)) 0 = replicate (to_end - at) 0"
      using True by (simp add: replicate_add [symmetric])
    moreover have "wrote_past at w (w\<lparr>wl_disk := d2\<rparr>)" using wrote_past_trans [OF d(4) d2(4)] by simp
    ultimately show ?thesis using d2(2,3) by (intro exI [of _ d2]) simp
  qed
qed


lemma reserve_to_enough: "0 < step \<Longrightarrow> goal \<le> reserve_to goal to_end step \<and> to_end \<le> reserve_to goal to_end step"
proof (induction goal to_end step rule: reserve_to.induct)
  case (1 goal to_end step)
  show ?case
  proof (cases "to_end < goal")
    case True
    have "0 < min (step * 2) RESERVE_MAX" using 1(2) by (simp add: RESERVE_MAX_def)
    then show ?thesis using 1 True by (subst (1 2) reserve_to.simps) fastforce
  next
    case False
    then show ?thesis by (subst (1 2) reserve_to.simps) simp
  qed
qed

lemma reserve_ok:
  assumes "wal_ok crc bs st w"
  shows "\<exists>d n. reserve need w = (Inr (), w\<lparr>wl_disk := d, wl_reserved := n\<rparr>) \<and> wal_ok crc bs st (w\<lparr>wl_disk := d, wl_reserved := n\<rparr>) \<and>
    wl_len w + need \<le> n \<and> wrote_past (wl_len w) w (w\<lparr>wl_disk := d, wl_reserved := n\<rparr>)"
proof (cases "wl_len w + need \<le> wl_reserved w")
  case True
  then show ?thesis using assms
    by (intro exI [of _ "wl_disk w"] exI [of _ "wl_reserved w"]) (simp add: reserve_def)
next
  case False
  let ?img = "di_image (wl_disk w)"
  define n where "n = reserve_to (wl_len w + need) (wl_reserved w) (max RESERVE_MIN (min (wl_reserved w) RESERVE_MAX))"
  have n: "wl_len w + need \<le> n" "wl_reserved w \<le> n"
    using reserve_to_enough unfolding n_def by (simp_all add: RESERVE_MIN_def)
  have w: "di_writable (wl_disk w)" "length ?img = wl_reserved w" "wl_len w \<le> wl_reserved w" "wl_len w = length (log_bytes crc bs)"
    using assms by (simp_all add: wal_ok_def)
  have im: "?img = log_bytes crc bs @ replicate (wl_reserved w - wl_len w) 0" using assms by (simp add: wal_ok_def)
  obtain d where d: "erase (wl_reserved w) n w = (Inr (), w\<lparr>wl_disk := d\<rparr>)" "di_writable d"
      "di_image d = take (wl_reserved w) ?img @ replicate (n - wl_reserved w) 0 @ drop n ?img"
      "wrote_past (wl_reserved w) w (w\<lparr>wl_disk := d\<rparr>)"
    using erase_ok [OF w(1) n(2)] w(2) by auto
  obtain d2 where d2: "wal_sync (w\<lparr>wl_disk := d\<rparr>) = (Inr (), w\<lparr>wl_disk := d2\<rparr>)" "di_writable d2" "di_image d2 = di_image d"
      "wrote_past (wl_len w) (w\<lparr>wl_disk := d\<rparr>) (w\<lparr>wl_disk := d2\<rparr>)"
    using wal_sync_ok [of "w\<lparr>wl_disk := d\<rparr>" "wl_len w"] d(2) by auto
  have "di_image d2 = ?img @ replicate (n - wl_reserved w) 0" using d(3) d2(3) w(2) n(2) by simp
  also have "\<dots> = log_bytes crc bs @ replicate (n - wl_len w) 0"
    using w(3) n(2) unfolding im by (simp add: replicate_add [symmetric])
  finally have img: "di_image d2 = log_bytes crc bs @ replicate (n - wl_len w) 0" .
  have p: "wrote_past (wl_len w) w (w\<lparr>wl_disk := d2, wl_reserved := n\<rparr>)"
  proof -
    have "wrote_past (wl_len w) w (w\<lparr>wl_disk := d\<rparr>)" using wrote_past_trans [OF wrote_past_refl d(4) w(3)] by simp
    then show ?thesis using wrote_past_trans [OF _ d2(4)] by (simp add: wrote_past_def)
  qed
  have "reserve need w = (Inr (), w\<lparr>wl_disk := d2, wl_reserved := n\<rparr>)"
    using False d(1) d2(1) by (simp add: reserve_def Let_def n_def [symmetric] w_bind_def w_state_def)
  moreover have "wal_ok crc bs st (w\<lparr>wl_disk := d2, wl_reserved := n\<rparr>)"
    using assms d2(2) img n w(3) by (simp add: wal_ok_def)
  ultimately show ?thesis using n(1) p by blast
qed

text \<open>The marks count a flush; the rest of the handle is left alone.\<close>

lemma flush_ok:
  assumes "wal_ok crc bs st w"
  shows "\<exists>w1. wal_flush w = (Inr (), w1) \<and> wal_ok crc (bs @ st) [] w1 \<and> wrote_past (wl_len w) w w1 \<and>
    wl_commits w1 = (if st = [] then wl_commits w else marks_staged (wl_len w1) (wl_commits w))"
proof (cases "st = []")
  case True
  then show ?thesis using assms by (intro exI [of _ w]) (simp add: wal_flush_def wal_ok_def)
next
  case False
  have buf: "wl_buf w = log_bytes crc st" using assms by (simp add: wal_ok_def)
  have ne: "wl_buf w \<noteq> []" using False by (cases st) (simp_all add: buf frame_of_def len_le_def u32_le_def to_le_def)
  obtain d n where r: "reserve (length (wl_buf w)) w = (Inr (), w\<lparr>wl_disk := d, wl_reserved := n\<rparr>)"
      "wal_ok crc bs st (w\<lparr>wl_disk := d, wl_reserved := n\<rparr>)" "wl_len w + length (wl_buf w) \<le> n"
      "wrote_past (wl_len w) w (w\<lparr>wl_disk := d, wl_reserved := n\<rparr>)"
    using reserve_ok [OF assms] by blast
  let ?w = "w\<lparr>wl_disk := d, wl_reserved := n\<rparr>"
  obtain d2 where d2: "wal_write (wl_buf w) (wl_len w) ?w = (Inr (), ?w\<lparr>wl_disk := d2\<rparr>)" "di_writable d2"
      "di_image d2 = put_bytes (di_image d) (wl_len w) (wl_buf w)" "wrote_past (wl_len w) ?w (?w\<lparr>wl_disk := d2\<rparr>)"
    using wal_write_ok [of ?w "wl_buf w" "wl_len w"] r(2) by (auto simp: wal_ok_def)
  define len where "len = wl_len w + length (wl_buf w)"
  let ?w2 = "?w\<lparr>wl_disk := d2, wl_len := len, wl_buf := [], wl_commits := marks_staged len (wl_commits w)\<rparr>"
  have i: "di_image d = log_bytes crc bs @ replicate (n - wl_len w) 0" "wl_len w = length (log_bytes crc bs)"
    using r(2) by (simp_all add: wal_ok_def)
  have "di_image d2 = log_bytes crc (bs @ st) @ replicate (n - len) 0"
    using r(3) by (simp add: d2(3) put_bytes_def Let_def i(1) buf len_def i(2))
  then have "wal_ok crc (bs @ st) [] ?w2"
    using assms d2(2) r(3) by (simp add: wal_ok_def len_def buf i(2))
  moreover have "wal_flush w = (Inr (), ?w2)"
    using ne r(1) d2(1) by (simp add: wal_flush_def w_bind_def w_state_def Let_def len_def)
  moreover have "wrote_past (wl_len w) w ?w2"
    using wrote_past_trans [OF r(4) d2(4)] by (simp add: wrote_past_def)
  ultimately show ?thesis using False by (intro exI [of _ ?w2]) simp
qed

text \<open>The log as a whole, wherever the buffer ends: \<open>holds\<close>.\<close>

definition holds :: "(u8 list \<Rightarrow> u32) \<Rightarrow> u8 list list \<Rightarrow> wal \<Rightarrow> bool" where
  "holds crc bs w \<longleftrightarrow> (\<exists>xs ys. bs = xs @ ys \<and> wal_ok crc xs ys w)"

lemma holdsI: "wal_ok crc xs ys w \<Longrightarrow> bs = xs @ ys \<Longrightarrow> holds crc bs w"
  by (auto simp: holds_def)

lemma append_ok:
  assumes "holds crc bs w" "body_ok (record_body e rec)"
  shows "\<exists>w1. wal_append crc e rec w = (Inr (), w1) \<and> holds crc (bs @ [record_body e rec]) w1 \<and> wrote_past (wl_len w) w w1 \<and>
    wl_len w \<le> wl_len w1"
proof -
  obtain xs ys where b: "bs = xs @ ys" "wal_ok crc xs ys w" using assms(1) by (auto simp: holds_def)
  let ?w = "w\<lparr>wl_buf := wl_buf w @ frame_of crc (record_body e rec)\<rparr>"
  have ok: "wal_ok crc xs (ys @ [record_body e rec]) ?w" using b(2) assms(2) by (simp add: wal_ok_def)
  obtain w1 where w1: "wal_flush ?w = (Inr (), w1)" "wal_ok crc (xs @ ys @ [record_body e rec]) [] w1" "wrote_past (wl_len w) ?w w1"
    using flush_ok [OF ok] by auto
  have "wl_len w \<le> wl_len w1" using w1(2) b(2) by (simp add: wal_ok_def)
  moreover have "holds crc (bs @ [record_body e rec]) w1" "holds crc (bs @ [record_body e rec]) ?w"
    by (rule holdsI [OF w1(2)], simp add: b(1)) (rule holdsI [OF ok], simp add: b(1))
  moreover have "wrote_past (wl_len w) w w1" using w1(3) by (simp add: wrote_past_def)
  ultimately show ?thesis
    using w1(1) by (cases "length (wl_buf ?w) \<ge> SPILL") (auto simp: wal_append_def Let_def)
qed


lemma holds_room: "holds crc bs w \<Longrightarrow> wl_len w \<le> length (log_bytes crc bs)"
  by (auto simp: holds_def wal_ok_def)

lemma commit_body: "body_ok (record_body e TxnCommit)" "body_ok (record_body e TxnBegin)"
  by (simp_all add: body_ok_def record_body_def MIN_BODY_def)

text \<open>A commit staged is on the file, with nothing left in the buffer.\<close>

lemma stage_commit_ok:
  assumes "holds crc bs w"
  shows "\<exists>w1. stage_commit crc e w = (Inr (wl_len w1), w1) \<and> wal_ok crc (bs @ [record_body e TxnCommit]) [] w1 \<and>
    wrote_past (wl_len w) w w1 \<and> wl_len w \<le> wl_len w1"
proof -
  obtain wa where wa: "wal_append crc e TxnCommit w = (Inr (), wa)" "holds crc (bs @ [record_body e TxnCommit]) wa"
      "wrote_past (wl_len w) w wa" "wl_len w \<le> wl_len wa"
    using append_ok [OF assms commit_body(1)] by blast
  obtain xs ys where xy: "bs @ [record_body e TxnCommit] = xs @ ys" "wal_ok crc xs ys wa" using wa(2) by (auto simp: holds_def)
  obtain w1 where w1: "wal_flush wa = (Inr (), w1)" "wal_ok crc (xs @ ys) [] w1" "wrote_past (wl_len wa) wa w1"
    using flush_ok [OF xy(2)] by blast
  have "wl_len wa \<le> wl_len w1" using w1(2) xy(2) by (simp add: wal_ok_def)
  then show ?thesis
    using wa(1,4) w1(1,2) wrote_past_trans [OF wa(3) w1(3) wa(4)] xy(1)
    by (intro exI [of _ w1]) (simp add: stage_commit_def w_bind_def)
qed

lemma open_ok:
  assumes "di_writable d"
  shows "\<exists>w. open_on crc d = Inr w \<and> wal_ok crc (map fst (frames crc (di_image d) 0)) [] w \<and>
    take (wl_len w) (di_image d) = take (wl_len w) (di_image (wl_disk w))"
proof -
  let ?img = "di_image d"
  obtain bs where bs: "list_all body_ok bs" "frames crc ?img 0 = with_ends 0 bs" "length (log_bytes crc bs) \<le> length ?img"
      "?img = log_bytes crc bs @ drop (length (log_bytes crc bs)) ?img"
    using frames_any [of 0 ?img crc] by auto
  define n where "n = length (log_bytes crc bs)"
  let ?w = "\<lparr>wl_disk = d, wl_commits = commits_new n, wl_len = n, wl_reserved = length ?img, wl_buf = []\<rparr>"
  have rd: "disk_read d 0 (disk_len d) = Inr ?img" by (simp add: disk_read_def disk_len_def)
  have st: "frames_end (frames crc ?img 0) = n" by (simp add: bs(2) frames_end_log [of _ crc] n_def)
  have bsl: "map fst (frames crc ?img 0) = bs" by (simp add: bs(2))
  have t: "take n ?img = log_bytes crc bs" unfolding n_def by (metis bs(4) append_eq_conv_conj)
  show ?thesis
  proof (cases "list_ex (\<lambda>b. b \<noteq> 0) (drop n ?img)")
    case True
    obtain d1 where d1: "erase n (length ?img) ?w = (Inr (), ?w\<lparr>wl_disk := d1\<rparr>)" "di_writable d1"
        "di_image d1 = take n ?img @ replicate (length ?img - n) 0"
      using erase_ok [of ?w n "length ?img"] assms bs(3) by (auto simp: n_def)
    obtain d2 where d2: "wal_sync (?w\<lparr>wl_disk := d1\<rparr>) = (Inr (), ?w\<lparr>wl_disk := d2\<rparr>)" "di_writable d2" "di_image d2 = di_image d1"
      using wal_sync_ok [of "?w\<lparr>wl_disk := d1\<rparr>" n] d1(2) by auto
    have "open_on crc d = Inr (?w\<lparr>wl_disk := d2\<rparr>)"
      using True d1(1) d2(1) rd by (simp add: open_on_def Let_def st w_bind_def) (simp add: disk_len_def)
    moreover have "wal_ok crc bs [] (?w\<lparr>wl_disk := d2\<rparr>)"
      using bs(1,3) d2(2,3) d1(3) t by (simp add: wal_ok_def n_def)
    ultimately show ?thesis using d2(3) d1(3) bs(3) unfolding bsl
      by (intro exI [of _ "?w\<lparr>wl_disk := d2\<rparr>"]) (simp add: n_def)
  next
    case False
    then have "drop n ?img = replicate (length ?img - n) 0"
      using replicate_length_same [of "drop n ?img" 0] by (auto simp: list_ex_iff)
    then have "?img = log_bytes crc bs @ replicate (length ?img - n) 0" using bs(4) by (simp add: n_def)
    then have "wal_ok crc bs [] ?w" using bs(1,3) assms by (simp add: wal_ok_def n_def)
    moreover have "open_on crc d = Inr ?w" using False rd by (simp add: open_on_def Let_def st) (simp add: disk_len_def)
    ultimately show ?thesis unfolding bsl by (intro exI [of _ ?w]) simp
  qed
qed

lemma wal_frames:
  assumes "wal_ok crc bs st w"
  shows "disk_read (wl_disk w) 0 (wl_len w) = Inr (log_bytes crc bs)" "frames crc (log_bytes crc bs) 0 = with_ends 0 bs"
proof -
  show "disk_read (wl_disk w) 0 (wl_len w) = Inr (log_bytes crc bs)"
    using assms by (simp add: wal_ok_def disk_read_def)
  have "next_frame crc (log_bytes crc bs) (length (log_bytes crc bs)) = None" by (rule next_frame_zeros [of _ _ 0]) simp_all
  then show "frames crc (log_bytes crc bs) 0 = with_ends 0 bs"
    using frames_exact [of bs 0 "log_bytes crc bs" crc "[]"] assms by (simp add: wal_ok_def)
qed

lemma with_ends_takeWhile:
  "takeWhile (\<lambda>(body, _). P body) (with_ends at bs) = with_ends at (takeWhile P bs)"
  by (induction at bs rule: with_ends.induct) simp_all

lemma wal_cut:
  assumes "wal_ok crc (bs @ cs) st w" "n = length (log_bytes crc bs)" "wl_buf w1 = []" "wl_disk w1 = wl_disk w" "wl_reserved w1 = wl_reserved w"
    "wl_len w1 = wl_len w"
  shows "\<exists>d. erase n (wl_len w) w1 = (Inr (), w1\<lparr>wl_disk := d\<rparr>) \<and> wrote_past n w1 (w1\<lparr>wl_disk := d\<rparr>) \<and>
    (\<forall>m d2. di_image d2 = di_image d \<and> di_writable d2 \<longrightarrow> wal_ok crc bs [] (w1\<lparr>wl_disk := d2, wl_len := n, wl_commits := m\<rparr>)) \<and> di_writable d"
proof -
  have w: "di_writable (wl_disk w1)" "n \<le> wl_len w" "n \<le> length (di_image (wl_disk w1))" using assms by (simp_all add: wal_ok_def)
  obtain d where d: "erase n (wl_len w) w1 = (Inr (), w1\<lparr>wl_disk := d\<rparr>)" "di_writable d"
      "di_image d = take n (di_image (wl_disk w1)) @ replicate (wl_len w - n) 0 @ drop (wl_len w) (di_image (wl_disk w1))"
      "wrote_past n w1 (w1\<lparr>wl_disk := d\<rparr>)"
    using erase_ok [OF w] by blast
  have "di_image d = log_bytes crc bs @ replicate (wl_reserved w - n) 0"
    using assms by (simp add: d(3) wal_ok_def replicate_add [symmetric])
  then show ?thesis using d(1,2,4) assms by (intro exI [of _ d]) (simp add: wal_ok_def)
qed

lemma rollback_ok:
  assumes "wal_ok crc bs st w"
  shows "\<exists>w1. rollback_above crc floor w = (Inr (), w1) \<and> wal_ok crc (takeWhile (\<lambda>b. body_epoch b \<le> floor) bs) [] w1"
proof -
  let ?keep = "takeWhile (\<lambda>b. body_epoch b \<le> floor) bs" and ?cut = "dropWhile (\<lambda>b. body_epoch b \<le> floor) bs"
  let ?w = "w\<lparr>wl_buf := []\<rparr>"
  define n where "n = length (log_bytes crc ?keep)"
  have ok: "wal_ok crc (?keep @ ?cut) st w" using assms by simp
  have n: "frames_end (takeWhile (\<lambda>(body, _). body_epoch body \<le> floor) (frames crc (log_bytes crc bs) 0)) = n"
    by (simp add: wal_frames(2) [OF assms] with_ends_takeWhile frames_end_log [of _ crc] n_def)
  have run: "rollback_above crc floor w =
      (if n = wl_len w then (Inr (), ?w)
       else w_bind (erase n (wl_len w)) (\<lambda>_. w_bind wal_sync (\<lambda>_.
            w_state (\<lambda>w. w\<lparr>wl_len := n, wl_commits := marks_reset n True (wl_commits w)\<rparr>))) ?w)"
    using wal_frames(1) [OF assms] n by (simp add: rollback_above_def Let_def)
  show ?thesis
  proof (cases "n = wl_len w")
    case True
    moreover have "log_bytes crc bs = log_bytes crc ?keep @ log_bytes crc ?cut"
      by (metis log_bytes_simps(3) takeWhile_dropWhile_id)
    moreover have "wl_len w = length (log_bytes crc bs)" using assms by (simp add: wal_ok_def)
    ultimately have "length (log_bytes crc ?cut) = 0" by (simp add: n_def)
    then have "?cut = []" by (cases ?cut) (simp_all add: PREFIX_def)
    then have kb: "?keep = bs" by (metis append_Nil2 takeWhile_dropWhile_id)
    have "wal_ok crc ?keep [] ?w" unfolding kb using assms by (simp add: wal_ok_def)
    then show ?thesis unfolding run if_P [OF True] by blast
  next
    case False
    obtain d where d: "erase n (wl_len w) ?w = (Inr (), ?w\<lparr>wl_disk := d\<rparr>)" "di_writable d"
        "\<forall>m d2. di_image d2 = di_image d \<and> di_writable d2 \<longrightarrow> wal_ok crc ?keep [] (?w\<lparr>wl_disk := d2, wl_len := n, wl_commits := m\<rparr>)"
      using wal_cut [OF ok n_def, of ?w] by auto
    obtain d2 where d2: "wal_sync (?w\<lparr>wl_disk := d\<rparr>) = (Inr (), ?w\<lparr>wl_disk := d2\<rparr>)" "di_writable d2" "di_image d2 = di_image d"
      using wal_sync_ok [of "?w\<lparr>wl_disk := d\<rparr>" n] d(2) by auto
    show ?thesis using False d(1,3) d2 by (simp add: run w_bind_def w_state_def)
  qed
qed

lemma truncate_ok:
  assumes "wal_ok crc bs st w"
  shows "\<exists>w1. wal_truncate w = (Inr (), w1) \<and> wal_ok crc [] [] w1 \<and> wl_commits w1 = marks_reset 0 False (wl_commits w)"
proof -
  let ?w = "w\<lparr>wl_buf := []\<rparr>"
  obtain d where d: "erase 0 (wl_len w) ?w = (Inr (), ?w\<lparr>wl_disk := d\<rparr>)" "di_writable d"
      "\<forall>m d2. di_image d2 = di_image d \<and> di_writable d2 \<longrightarrow> wal_ok crc [] [] (?w\<lparr>wl_disk := d2, wl_len := 0, wl_commits := m\<rparr>)"
    using wal_cut [of crc "[]" bs st w 0 ?w] assms by auto
  then show ?thesis by (simp add: wal_truncate_def w_bind_def w_state_def)
qed

end
