(* ===== verification/WalRecovery.thy ===== *)
theory WalRecovery
  imports Wal
begin

text \<open>
  What replaying the log brings back: exactly the committed transactions above the floor; and
  after a crash, exactly those of a prefix of what was written that has everything synced.
\<close>

subsection \<open>Transactions in the log\<close>

text \<open>A transaction as the writer appends it: its epoch and the records between begin and commit.\<close>

definition plain :: "wal_record \<Rightarrow> bool" where
  "plain rec \<longleftrightarrow> rec \<noteq> TxnBegin \<and> rec \<noteq> TxnCommit \<and> rec \<noteq> CheckpointNote"

type_synonym txn = "u64 \<times> wal_record list"

definition entries :: "txn \<Rightarrow> (u64 \<times> wal_record) list" where
  "entries t = map (Pair (fst t)) (TxnBegin # snd t @ [TxnCommit])"

definition txn_bodies :: "txn \<Rightarrow> u8 list list" where
  "txn_bodies t = map (\<lambda>(e, rec). record_body e rec) (entries t)"

definition log_of :: "txn list \<Rightarrow> u8 list list" where
  "log_of txns = concat (map txn_bodies txns)"

definition txn_ok :: "txn \<Rightarrow> bool" where
  "txn_ok t \<longleftrightarrow> list_all (\<lambda>rec. plain rec \<and> wal_fits rec \<and> body_ok (record_body (fst t) rec)) (snd t)"

definition committed_above :: "u64 \<Rightarrow> txn list \<Rightarrow> (u64 \<times> wal_record) list" where
  "committed_above floor txns = concat (map entries (filter (\<lambda>t. fst t > floor) txns))"

lemma body_fields [simp]:
  "body_epoch (record_body e rec) = e" "record_body e rec ! 8 = wal_kind rec" "drop 9 (record_body e rec) = encode_payload rec"
  by (simp_all add: body_epoch_def record_body_def window_def nth_append)

lemma decode_body_of:
  "wal_fits rec \<Longrightarrow> record_decode (wal_kind rec) \<lparr>rd_buf = encode_payload rec, rd_pos = 0\<rparr> = Inr rec"
  using record_exact by blast

lemma deliver_append:
  "deliver sink (xs @ ys) s = (case deliver sink xs s of (Inl e, s1) \<Rightarrow> (Inl e, s1) | (Inr _, s1) \<Rightarrow> deliver sink ys s1)"
  by (induction sink xs s rule: deliver.induct) (auto split: prod.splits sum.splits)

lemma replay_plain:
  "list_all (\<lambda>rec. plain rec \<and> wal_fits rec) recs \<Longrightarrow>
    replay_bodies floor sink (map (record_body e) recs @ rest) txn s = replay_bodies floor sink rest (txn @ map (Pair e) recs) s"
proof (induction recs arbitrary: txn)
  case (Cons rec recs)
  have "replay_bodies floor sink (record_body e rec # map (record_body e) recs @ rest) txn s =
      replay_bodies floor sink (map (record_body e) recs @ rest) (txn @ [(e, rec)]) s"
    using Cons.prems by (cases rec) (simp_all add: decode_body_of plain_def del: wal_kind.simps encode_payload.simps)
  then show ?case using Cons by simp
qed simp

lemma fits_ends: "wal_fits TxnBegin" "wal_fits TxnCommit"
  by simp_all

lemma replay_txn:
  assumes "txn_ok t"
  shows "replay_bodies floor sink (txn_bodies t @ rest) txn s =
    (if fst t > floor
     then case deliver sink (entries t) s of (Inl e, s1) \<Rightarrow> (Inl e, s1) | (Inr _, s1) \<Rightarrow> replay_bodies floor sink rest [] s1
     else replay_bodies floor sink rest [] s)"
proof -
  obtain e recs where t: "t = (e, recs)" by (cases t) auto
  have p: "list_all (\<lambda>rec. plain rec \<and> wal_fits rec) recs" using assms by (auto simp: txn_ok_def t list_all_iff)
  have b: "txn_bodies t = record_body e TxnBegin # map (record_body e) recs @ [record_body e TxnCommit]"
    by (simp add: txn_bodies_def entries_def t)
  have "replay_bodies floor sink (txn_bodies t @ rest) txn s =
      replay_bodies floor sink (map (record_body e) recs @ record_body e TxnCommit # rest) [(e, TxnBegin)] s"
    using decode_body_of [OF fits_ends(1)] by (simp add: b del: encode_payload.simps)
  also have "\<dots> = replay_bodies floor sink (record_body e TxnCommit # rest) ((e, TxnBegin) # map (Pair e) recs) s"
    using replay_plain [OF p, of floor sink e _ "[(e, TxnBegin)]" s] by simp
  finally show ?thesis
    using decode_body_of [OF fits_ends(2)] by (simp add: entries_def t del: encode_payload.simps)
qed

lemma replay_txns:
  "list_all txn_ok txns \<Longrightarrow> replay_bodies floor sink (log_of txns @ rest) [] s =
    (case deliver sink (committed_above floor txns) s of
       (Inl e, s1) \<Rightarrow> (Inl e, s1)
     | (Inr _, s1) \<Rightarrow> replay_bodies floor sink rest [] s1)"
proof (induction txns arbitrary: s)
  case Nil then show ?case by (simp add: log_of_def committed_above_def)
next
  case (Cons t txns)
  have "replay_bodies floor sink (log_of (t # txns) @ rest) [] s = replay_bodies floor sink (txn_bodies t @ log_of txns @ rest) [] s"
    by (simp add: log_of_def)
  then show ?case
    using Cons replay_txn [of t floor sink "log_of txns @ rest" "[]" s]
    by (auto simp: committed_above_def deliver_append split: prod.splits sum.splits)
qed

text \<open>A transaction cut off before its commit is not delivered.\<close>

lemma replay_part:
  assumes "txn_ok t" "n < length (txn_bodies t)"
  shows "replay_bodies floor sink (take n (txn_bodies t)) [] s = (Inr (), s)"
proof (cases n)
  case (Suc m)
  obtain e recs where t: "t = (e, recs)" by (cases t) auto
  have b: "txn_bodies t = record_body e TxnBegin # map (record_body e) recs @ [record_body e TxnCommit]"
    by (simp add: txn_bodies_def entries_def t)
  have p: "list_all (\<lambda>rec. plain rec \<and> wal_fits rec) (take m recs)"
    using assms(1) by (auto simp: txn_ok_def t list_all_iff dest: in_set_takeD)
  have "take n (txn_bodies t) = record_body e TxnBegin # map (record_body e) (take m recs)"
    using assms(2) by (simp add: b Suc take_map)
  then show ?thesis
    using replay_plain [OF p, of floor sink e "[]" "[(e, TxnBegin)]" s] decode_body_of [OF fits_ends(1)]
    by (simp del: encode_payload.simps)
qed simp

lemma replay_prefix:
  "list_all txn_ok txns \<Longrightarrow> \<exists>m \<le> length txns. \<forall>floor sink s.
    replay_bodies floor sink (take k (log_of txns)) [] s = deliver sink (committed_above floor (take m txns)) s"
proof (induction txns arbitrary: k)
  case Nil then show ?case by (simp add: log_of_def committed_above_def)
next
  case (Cons t txns)
  have l: "log_of (t # txns) = txn_bodies t @ log_of txns" by (simp add: log_of_def)
  show ?case
  proof (cases "k < length (txn_bodies t)")
    case True
    then have "replay_bodies floor sink (take k (log_of (t # txns))) [] s = (Inr (), s)" for floor sink and s :: 'a
      using replay_part [of t k] Cons.prems by (simp add: l)
    then show ?thesis by (intro exI [of _ 0]) (simp add: committed_above_def)
  next
    case False
    obtain m where m: "m \<le> length txns" "\<forall>floor sink s. replay_bodies floor sink (take (k - length (txn_bodies t)) (log_of txns)) [] s =
        deliver sink (committed_above floor (take m txns)) (s :: 'a)"
      using Cons.IH [of "k - length (txn_bodies t)"] Cons.prems by auto
    have "replay_bodies floor sink (take k (log_of (t # txns))) [] s =
        deliver sink (committed_above floor (take (Suc m) (t # txns))) s" for floor sink and s :: 'a
      using replay_txn [of t floor sink "take (k - length (txn_bodies t)) (log_of txns)" "[]" s] Cons.prems False m(2)
      by (auto simp: l committed_above_def deliver_append split: prod.splits sum.splits)
    then show ?thesis using m(1) by (intro exI [of _ "Suc m"]) simp
  qed
qed

lemma log_of_append [simp]: "log_of (xs @ ys) = log_of xs @ log_of ys"
  by (simp add: log_of_def)

lemma no_notes:
  assumes "list_all txn_ok txns" "set bodies \<subseteq> set (log_of txns)"
  shows "raise_floor floor bodies = floor"
proof -
  have "body ! 8 \<noteq> KIND_CHECKPOINT_NOTE" if "body \<in> set (log_of txns)" for body
  proof -
    have "\<exists>t \<in> set txns. body \<in> set (txn_bodies t)" using that by (simp add: log_of_def)
    then obtain t where t1: "t \<in> set txns" "body \<in> set (txn_bodies t)" by blast
    then obtain rec where t: "rec \<in> set (TxnBegin # snd t @ [TxnCommit])" "body = record_body (fst t) rec"
      unfolding txn_bodies_def entries_def by fastforce
    then have "rec \<noteq> CheckpointNote" using assms(1) t1(1) by (auto simp: list_all_iff txn_ok_def plain_def)
    then show ?thesis using t(2) by (cases rec) (simp_all add: KIND_CHECKPOINT_NOTE_def)
  qed
  then have "\<forall>body \<in> set bodies. body ! 8 \<noteq> KIND_CHECKPOINT_NOTE" using assms(2) by blast
  then show ?thesis unfolding raise_floor_def by (induction bodies) auto
qed

text \<open>Replaying an open log that holds a cut of \<open>txns\<close>.\<close>

lemma replay_cut:
  assumes "list_all txn_ok txns" "wal_ok crc (take k (log_of txns)) st w"
  shows "\<exists>m \<le> length txns. \<forall>floor sink s. replay_log crc floor sink s w = deliver sink (committed_above floor (take m txns)) s"
proof -
  have "replay_log crc floor sink s w = replay_bodies floor sink (take k (log_of txns)) [] s" for floor sink and s :: 'a
    using wal_frames [OF assms(2)] no_notes [OF assms(1), of "take k (log_of txns)" floor]
    by (simp add: replay_log_def Let_def set_take_subset)
  then show ?thesis using replay_prefix [OF assms(1), of k] by simp
qed

lemma replay_whole:
  assumes "list_all txn_ok txns" "wal_ok crc (log_of txns) st w"
  shows "replay_log crc floor sink s w = deliver sink (committed_above floor txns) s"
proof -
  have "replay_log crc floor sink s w = replay_bodies floor sink (log_of txns) [] s"
    using wal_frames [OF assms(2)] no_notes [OF assms(1), of "log_of txns" floor] by (simp add: replay_log_def Let_def)
  then show ?thesis using replay_txns [OF assms(1), of floor sink "[]" s] by (auto split: prod.splits sum.splits)
qed

subsection \<open>Appending\<close>

inductive log_runs :: "(u8 list \<Rightarrow> u32) \<Rightarrow> wal \<Rightarrow> u8 list list \<Rightarrow> wal \<Rightarrow> bool" for crc w where
  start: "log_runs crc w [] w"
| append: "log_runs crc w bs w1 \<Longrightarrow> wal_append crc e rec w1 = (Inr (), w2) \<Longrightarrow> body_ok (record_body e rec) \<Longrightarrow>
    log_runs crc w (bs @ [record_body e rec]) w2"
| stage: "log_runs crc w bs w1 \<Longrightarrow> stage_commit crc e w1 = (Inr n, w2) \<Longrightarrow> log_runs crc w (bs @ [record_body e TxnCommit]) w2"

lemma runs_ok:
  assumes "log_runs crc w bs w1" "wal_ok crc base [] w"
  shows "holds crc (base @ bs) w1 \<and> wrote_past (wl_len w) w w1 \<and> wl_len w \<le> wl_len w1"
  using assms
proof (induction rule: log_runs.induct)
  case start then show ?case using holdsI [of crc base "[]" w] by simp
next
  case (append bs w1 e rec w2)
  then have ih: "holds crc (base @ bs) w1" "wrote_past (wl_len w) w w1" "wl_len w \<le> wl_len w1" by simp_all
  then show ?case using append_ok [OF ih(1) append(3)] append(2) wrote_past_trans [OF ih(2) _ ih(3)] by fastforce
next
  case (stage bs w1 e n w2)
  then have ih: "holds crc (base @ bs) w1" "wrote_past (wl_len w) w w1" "wl_len w \<le> wl_len w1" by simp_all
  obtain w3 where w3: "stage_commit crc e w1 = (Inr (wl_len w3), w3)" "wal_ok crc ((base @ bs) @ [record_body e TxnCommit]) [] w3"
      "wrote_past (wl_len w1) w1 w3" "wl_len w1 \<le> wl_len w3"
    using stage_commit_ok [OF ih(1)] by blast
  have "w3 = w2" using w3(1) stage(2) by simp
  moreover have "holds crc (base @ bs @ [record_body e TxnCommit]) w3" by (rule holdsI [OF w3(2)]) simp
  ultimately show ?case using w3(3,4) ih wrote_past_trans [OF ih(2) w3(3) ih(3)] by auto
qed

lemma holds_base:
  assumes "holds crc (base @ bs) w1" "length (log_bytes crc base) \<le> wl_len w1"
  shows "\<exists>cs ys. bs = cs @ ys \<and> wal_ok crc (base @ cs) ys w1"
proof -
  obtain xs ys where x: "base @ bs = xs @ ys" "wal_ok crc xs ys w1" using assms(1) by (auto simp: holds_def)
  consider us where "xs = base @ us" "bs = us @ ys" | us where "base = xs @ us" "ys = us @ bs"
    using x(1) by (auto simp: append_eq_append_conv2)
  then show ?thesis
  proof cases
    case 1 then show ?thesis using x(2) by blast
  next
    case 2
    then have "length (log_bytes crc us) = 0" using assms(2) x(2) by (simp add: wal_ok_def)
    then have "us = []" by (cases us) (simp_all add: PREFIX_def)
    then show ?thesis using 2 x(2) by (intro exI [of _ "[]"] exI [of _ ys]) simp
  qed
qed

subsection \<open>A crash\<close>

text \<open>
  A frame a crash tore is told from a whole one: where a frame was written, the checksum
  leaves none or that one, and none behind the last.
\<close>

definition tear_told :: "(u8 list \<Rightarrow> u32) \<Rightarrow> u8 list \<Rightarrow> u8 list \<Rightarrow> nat \<Rightarrow> u8 list list \<Rightarrow> bool" where
  "tear_told crc img img1 at cs \<longleftrightarrow> (\<forall>k \<le> length cs. let n = at + length (log_bytes crc (take k cs)) in
     next_frame crc img1 n = None \<or> next_frame crc img1 n = next_frame crc img n)"

lemma frames_prefix:
  "list_all body_ok cs \<Longrightarrow> at \<le> length full \<Longrightarrow> drop at full = log_bytes crc cs @ replicate z 0 \<Longrightarrow> at \<le> length img1 \<Longrightarrow>
    tear_told crc full img1 at cs \<Longrightarrow> \<exists>k \<le> length cs. frames crc img1 at = with_ends at (take k cs)"
proof (induction cs arbitrary: at)
  case Nil
  then have "next_frame crc full at = None" by (intro next_frame_zeros) simp_all
  then have "next_frame crc img1 at = None" using Nil(5) by (simp add: tear_told_def)
  then show ?case by (simp add: frames.simps)
next
  case (Cons b cs)
  let ?n = "at + PREFIX + length b"
  have d: "drop at full = frame_of crc b @ log_bytes crc cs @ replicate z 0" using Cons.prems(3) by simp
  have f: "next_frame crc full at = Some (b, ?n)" using next_frame_drop [OF Cons.prems(2) d] Cons.prems(1) by simp
  show ?case
  proof (cases "next_frame crc img1 at")
    case None then show ?thesis by (intro exI [of _ 0]) (simp add: frames.simps)
  next
    case (Some x)
    then have x: "next_frame crc img1 at = Some (b, ?n)" using f Cons.prems(5) by (force simp: tear_told_def)
    have "tear_told crc full img1 ?n cs"
      unfolding tear_told_def Let_def
    proof (intro allI impI)
      fix k assume "k \<le> length cs"
      then show "next_frame crc img1 (?n + length (log_bytes crc (take k cs))) = None \<or>
          next_frame crc img1 (?n + length (log_bytes crc (take k cs))) = next_frame crc full (?n + length (log_bytes crc (take k cs)))"
        using Cons.prems(5) [unfolded tear_told_def Let_def, rule_format, of "Suc k"] by (simp add: add.assoc)
    qed
    moreover have "drop ?n full = log_bytes crc cs @ replicate z 0"
      using arg_cong [OF d, of "drop (PREFIX + length b)"] by (simp add: add.commute add.left_commute)
    moreover have "?n \<le> length full" "?n \<le> length img1" using next_frame_moves [OF f] next_frame_moves [OF x] by simp_all
    ultimately obtain k where "k \<le> length cs" "frames crc img1 ?n = with_ends ?n (take k cs)"
      using Cons.IH [of ?n] Cons.prems(1) by auto
    then show ?thesis using x by (intro exI [of _ "Suc k"]) (subst frames.simps, simp)
  qed
qed

lemma past_grows: "past n ev \<Longrightarrow> grows ev"
  by (simp add: past_def grows_def split: io_event.splits)

lemma past_covers: "past n ev \<Longrightarrow> covers ev i \<Longrightarrow> n \<le> i"
  by (simp add: past_def covers_def split: io_event.splits)

lemma log_crash:
  assumes ok: "wal_ok crc (log_of old) [] w" "list_all txn_ok old" "list_all txn_ok new"
    and run: "log_runs crc w (take i (log_of new)) w1"
    and crash: "crash (drop (length (di_log (wl_disk w))) (di_log (wl_disk w1))) (di_image (wl_disk w)) (di_image d)"
    and told: "tear_told crc (di_image (wl_disk w1)) (di_image d) (wl_len w) (take i (log_of new))"
    and d: "di_writable d"
  shows "\<exists>w2 m. open_on crc d = Inr w2 \<and> m \<le> length new \<and>
    (\<forall>floor sink s. replay_log crc floor sink s w2 = deliver sink (committed_above floor (old @ take m new)) s)"
proof -
  let ?img = "di_image (wl_disk w)" and ?full = "di_image (wl_disk w1)" and ?img1 = "di_image d" and ?n = "wl_len w"
  note r = runs_ok [OF run ok(1)]
  have n: "?n = length (log_bytes crc (log_of old))" using ok(1) by (simp add: wal_ok_def)
  obtain cs ys where cs: "take i (log_of new) = cs @ ys" "wal_ok crc (log_of old @ cs) ys w1" using holds_base [of crc "log_of old" "take i (log_of new)" w1] r n by auto
  obtain evs where evs: "di_log (wl_disk w1) = di_log (wl_disk w) @ evs" "list_all (past ?n) evs" using r by (auto simp: wrote_past_def)
  have "list_all grows evs" using evs(2) by (auto simp: list_all_iff intro: past_grows)
  then have t: "torn evs ?img ?img1" using crash_torn crash evs(1) by simp
  have len: "?n \<le> length ?img" using ok(1) by (simp add: wal_ok_def)
  then have len1: "?n \<le> length ?img1" using t by (simp add: torn_def)
  have same: "take ?n ?img1 = take ?n ?img"
  proof (rule nth_equalityI)
    fix j assume "j < length (take ?n ?img1)"
    then have "j < ?n" "j < length ?img" using len by auto
    moreover from this have "\<not> covers ev j" if "ev \<in> set evs" for ev using that evs(2) past_covers [of ?n ev j] by (auto simp: list_all_iff)
    ultimately show "take ?n ?img1 ! j = take ?n ?img ! j" using t by (simp add: torn_def)
  qed (use len len1 in simp)
  moreover have "take ?n ?img = log_bytes crc (log_of old)" using ok(1) by (simp add: wal_ok_def)
  ultimately have "take ?n ?img1 = log_bytes crc (log_of old)" by simp
  then have d1: "drop 0 ?img1 = log_bytes crc (log_of old) @ drop ?n ?img1" using append_take_drop_id [of ?n ?img1] by simp
  have ok_bodies: "list_all body_ok (log_of old)" "list_all body_ok cs" using cs(2) by (simp_all add: wal_ok_def)
  have full: "drop ?n ?full = log_bytes crc cs @ replicate (wl_reserved w1 - wl_len w1) 0" "?n \<le> length ?full"
    using cs(2) by (simp_all add: wal_ok_def n)
  have "tear_told crc ?full ?img1 ?n cs"
    unfolding tear_told_def Let_def
  proof (intro allI impI)
    fix k assume "k \<le> length cs"
    then show "next_frame crc ?img1 (?n + length (log_bytes crc (take k cs))) = None \<or>
        next_frame crc ?img1 (?n + length (log_bytes crc (take k cs))) = next_frame crc ?full (?n + length (log_bytes crc (take k cs)))"
      using told [unfolded tear_told_def Let_def, rule_format, of k] cs(1) by simp
  qed
  then obtain k where k: "frames crc ?img1 ?n = with_ends ?n (take k cs)" using frames_prefix [OF ok_bodies(2) full(2,1) len1] by blast
  have "frames crc ?img1 0 = with_ends 0 (log_of old) @ with_ends ?n (take k cs)"
    using frames_append [OF ok_bodies(1) _ d1] k n by simp
  then have fr: "map fst (frames crc ?img1 0) = log_of old @ take k cs" by simp
  have "take k cs = take (min k (length cs)) (take i (log_of new))" by (simp add: cs(1) min_def)
  then have cut_new: "take k cs = take (min (min k (length cs)) i) (log_of new)" by simp
  obtain w2 where w2: "open_on crc d = Inr w2" "wal_ok crc (log_of old @ take k cs) [] w2" using open_ok [OF d, of crc] fr by auto
  obtain m where "m \<le> length new" "\<forall>floor sink s. replay_bodies floor sink (take (min (min k (length cs)) i) (log_of new)) [] s =
      deliver sink (committed_above floor (take m new)) (s :: 'a)"
    using replay_prefix [OF ok(3)] by blast
  moreover have "replay_log crc floor sink s w2 = replay_bodies floor sink (log_of old @ take (min (min k (length cs)) i) (log_of new)) [] s"
    for floor sink and s :: 'a
  proof -
    have "list_all txn_ok (old @ new)" using ok(2,3) by simp
    moreover have "set (log_of old @ take k cs) \<subseteq> set (log_of (old @ new))" using cut_new by (auto dest: in_set_takeD)
    ultimately have "raise_floor floor (log_of old @ take k cs) = floor" by (rule no_notes)
    then show ?thesis using wal_frames [OF w2(2)] cut_new by (simp add: replay_log_def Let_def)
  qed
  ultimately have "replay_log crc floor sink s w2 = deliver sink (committed_above floor (old @ take m new)) s" for floor sink and s :: 'a
    using replay_txns [OF ok(2), of floor sink _ s] by (auto simp: committed_above_def deliver_append split: prod.splits sum.splits)
  then show ?thesis using w2(1) \<open>m \<le> length new\<close> by blast
qed


subsection \<open>Writing one transaction\<close>

lemma put_records:
  "log_runs crc w bs w1 \<Longrightarrow> wal_ok crc base [] w \<Longrightarrow> list_all (\<lambda>rec. body_ok (record_body e rec)) recs \<Longrightarrow>
    \<exists>w2. log_runs crc w (bs @ map (record_body e) recs) w2"
proof (induction recs arbitrary: bs w1)
  case (Cons rec recs)
  obtain w2 where w2: "wal_append crc e rec w1 = (Inr (), w2)"
    using append_ok [of crc "base @ bs" w1 e rec] runs_ok [OF Cons.prems(1,2)] Cons.prems(3) by auto
  have "log_runs crc w (bs @ [record_body e rec]) w2" by (rule log_runs.append [OF Cons.prems(1) w2]) (use Cons.prems(3) in simp)
  from Cons.IH [OF this Cons.prems(2)] show ?case using Cons.prems(3) by simp
qed auto

lemma put_txn:
  assumes "wal_ok crc base [] w" "txn_ok t"
  shows "\<exists>w1. log_runs crc w (txn_bodies t) w1 \<and> wal_ok crc (base @ txn_bodies t) [] w1"
proof -
  obtain e recs where t: "t = (e, recs)" by (cases t) auto
  have "list_all (\<lambda>rec. body_ok (record_body e rec)) (TxnBegin # recs)"
    using assms(2) commit_body by (auto simp: txn_ok_def t list_all_iff)
  from put_records [OF log_runs.start assms(1) this] obtain w1
    where w1: "log_runs crc w (map (record_body e) (TxnBegin # recs)) w1" by auto
  obtain w2 where w2: "stage_commit crc e w1 = (Inr (wl_len w2), w2)"
      "wal_ok crc ((base @ map (record_body e) (TxnBegin # recs)) @ [record_body e TxnCommit]) [] w2"
    using stage_commit_ok runs_ok [OF w1 assms(1)] by blast
  have "txn_bodies t = map (record_body e) (TxnBegin # recs) @ [record_body e TxnCommit]" by (simp add: txn_bodies_def entries_def t)
  then show ?thesis using log_runs.stage [OF w1 w2(1)] w2(2) by auto
qed

text \<open>A fresh log on an empty file.\<close>

lemma open_empty:
  assumes "di_image d = []" "di_writable d"
  shows "\<exists>w. open_on crc d = Inr w \<and> wal_ok crc [] [] w \<and> wl_commits w = commits_new 0 \<and> wl_disk w = d"
proof -
  have "frames crc [] 0 = []" by (simp add: frames.simps next_frame_def PREFIX_def)
  then show ?thesis using assms
    by (simp add: open_on_def disk_read_def disk_len_def frames_end_def wal_ok_def Let_def)
qed

subsection \<open>A commit with nobody else on the log\<close>

definition alone :: "wal \<Rightarrow> bool" where
  "alone w \<longleftrightarrow> mk_running (wl_commits w) = None \<and> mk_staged (wl_commits w) = wl_len w \<and> mk_durable (wl_commits w) \<le> wl_len w"

lemma flush_alone:
  assumes "wal_ok crc bs st w" "alone w" "wal_flush w = (Inr (), w1)"
  shows "alone w1 \<and> mk_durable (wl_commits w1) = mk_durable (wl_commits w)"
proof -
  obtain w2 where w2: "wal_flush w = (Inr (), w2)" "wal_ok crc (bs @ st) [] w2"
      "wl_commits w2 = (if st = [] then wl_commits w else marks_staged (wl_len w2) (wl_commits w))"
    using flush_ok [OF assms(1)] by blast
  have "w2 = w1" using w2(1) assms(3) by simp
  moreover have "wl_len w \<le> wl_len w2" "st = [] \<Longrightarrow> wl_len w2 = wl_len w" using assms(1) w2(2) by (simp_all add: wal_ok_def)
  ultimately show ?thesis using assms(2) w2(3) by (auto simp: alone_def marks_staged_def)
qed

lemma append_alone:
  assumes "holds crc bs w" "alone w" "body_ok (record_body e rec)" "wal_append crc e rec w = (Inr (), w1)"
  shows "alone w1 \<and> mk_durable (wl_commits w1) = mk_durable (wl_commits w)"
proof -
  obtain xs ys where b: "bs = xs @ ys" "wal_ok crc xs ys w" using assms(1) by (auto simp: holds_def)
  let ?w = "w\<lparr>wl_buf := wl_buf w @ frame_of crc (record_body e rec)\<rparr>"
  have "wal_ok crc xs (ys @ [record_body e rec]) ?w" using b(2) assms(3) by (simp add: wal_ok_def)
  moreover have "alone ?w" using assms(2) by (simp add: alone_def)
  ultimately show ?thesis using flush_alone [of crc xs "ys @ [record_body e rec]" ?w w1] assms(2,4)
    by (cases "length (wl_buf ?w) \<ge> SPILL") (auto simp: wal_append_def Let_def alone_def)
qed

lemma wal_commit_ok:
  assumes "holds crc bs w" "alone w"
  shows "\<exists>w1. wal_commit crc took e w = Some (Inr (), w1) \<and> wal_ok crc (bs @ [record_body e TxnCommit]) [] w1 \<and> alone w1 \<and>
    mk_durable (wl_commits w1) = wl_len w1 \<and> last (di_log (wl_disk w1)) = SyncEvent"
proof -
  obtain wa where wa: "wal_append crc e TxnCommit w = (Inr (), wa)" "holds crc (bs @ [record_body e TxnCommit]) wa"
    using append_ok [OF assms(1) commit_body(1)] by blast
  note a = append_alone [OF assms commit_body(1) wa(1)]
  obtain xs ys where xy: "bs @ [record_body e TxnCommit] = xs @ ys" "wal_ok crc xs ys wa" using wa(2) by (auto simp: holds_def)
  obtain wb where wb: "wal_flush wa = (Inr (), wb)" "wal_ok crc (xs @ ys) [] wb" using flush_ok [OF xy(2)] by blast
  have b: "alone wb" "mk_durable (wl_commits wb) = mk_durable (wl_commits w)" using flush_alone [OF xy(2) _ wb(1)] a by simp_all
  have ok: "wal_ok crc (bs @ [record_body e TxnCommit]) [] wb" using wb(2) xy(1) by simp
  have st: "stage_commit crc e w = (Inr (wl_len wb), wb)" using wa(1) wb(1) by (simp add: stage_commit_def w_bind_def)
  have "mk_durable (wl_commits w) \<le> length (log_bytes crc bs)" using assms holds_room [OF assms(1)] by (simp add: alone_def)
  then have new: "mk_durable (wl_commits wb) < wl_len wb" using ok b(2) by (simp add: wal_ok_def PREFIX_def)
  let ?m = "(wl_commits wb)\<lparr>mk_waiting := mk_waiting (wl_commits wb) + 1, mk_running := Some (wl_len wb)\<rparr>"
  have t: "sync_turn (wl_len wb) False (wl_commits wb) = Some (Pause, ?m) \<or> sync_turn (wl_len wb) False (wl_commits wb) = Some (Sync (wl_len wb), ?m)"
    using b(1) new by (auto simp: sync_turn_def covered_def alone_def lead_def Let_def)
  obtain d where d: "wal_sync (wb\<lparr>wl_commits := ?m\<rparr>) = (Inr (), wb\<lparr>wl_commits := ?m, wl_disk := d\<rparr>)" "di_writable d = di_writable (wl_disk wb)"
      "di_image d = di_image (wl_disk wb)" "di_log d = di_log (wl_disk wb) @ [SyncEvent]"
    using wal_sync_ok [of "wb\<lparr>wl_commits := ?m\<rparr>" 0] by auto
  obtain m2 where m2: "sync_land (wl_len wb) True took ?m = Some m2" "mk_running m2 = None" "mk_staged m2 = wl_len wb" "mk_durable m2 = wl_len wb"
    using b(1) by (auto simp: sync_land_def stop_waiting_def Let_def alone_def)
  have pause: "lead ?m = (wl_len wb, ?m)" using b(1) by (simp add: lead_def alone_def)
  define w1 where "w1 = wb\<lparr>wl_commits := m2, wl_disk := d\<rparr>"
  have "sync_alone took (wl_len wb) wb = Some (Inr (), w1)"
    using t d(1) m2(1) pause by (auto simp: sync_alone_def w1_def Let_def)
  then have "wal_commit crc took e w = Some (Inr (), w1)" using st by (simp add: wal_commit_def)
  moreover have "wal_ok crc (bs @ [record_body e TxnCommit]) [] w1" using ok d(2,3) by (simp add: wal_ok_def w1_def)
  ultimately show ?thesis using m2(2-4) d(4) by (intro exI [of _ w1]) (simp add: alone_def w1_def)
qed

subsection \<open>A truncation that is not synced\<close>

lemma erase_small:
  assumes "di_writable (wl_disk w)" "0 < n" "n \<le> RESERVE_MAX"
  shows "\<exists>d. erase 0 n w = (Inr (), w\<lparr>wl_disk := d\<rparr>) \<and> di_log d = di_log (wl_disk w) @ [WriteEvent 0 (replicate n 0)] \<and>
    di_image d = put_bytes (di_image (wl_disk w)) 0 (replicate n 0)"
proof -
  let ?d = "(wl_disk w)\<lparr>di_log := di_log (wl_disk w) @ [WriteEvent 0 (replicate n 0)], di_image := put_bytes (di_image (wl_disk w)) 0 (replicate n 0)\<rparr>"
  have "wal_write (replicate n 0) 0 w = (Inr (), w\<lparr>wl_disk := ?d\<rparr>)" using assms(1) by (simp add: wal_write_def disk_write_ok)
  then have "erase 0 n w = (Inr (), w\<lparr>wl_disk := ?d\<rparr>)"
    using assms(2,3) by (subst erase.simps) (simp add: Let_def erase.simps [of n n])
  then show ?thesis by (intro exI [of _ ?d]) simp
qed

text \<open>
  The checkpoint leaves its zeros to the next commit's sync. If the process dies before that
  sync, old frames may stand in front of the new commit frame, and replay then delivers what
  the old transaction wrote, which the base file already holds, as the new one's.
\<close>

lemma stale_frames:
  fixes x y :: u8
  defines "old \<equiv> log_of [(1, [DdlCatalog [x]])]" and "new \<equiv> log_of [(2, [DdlCatalog [y]])]"
  assumes ok: "wal_ok crc old [] w" and tr: "wal_truncate w = (Inr (), w1)"
    and run: "log_runs crc w1 new w2" "wal_ok crc new [] w2"
    and unsynced: "SyncEvent \<notin> set (drop (length (di_log (wl_disk w))) (di_log (wl_disk w2)))"
  shows "\<exists>d w3. crash (drop (length (di_log (wl_disk w))) (di_log (wl_disk w2))) (di_image (wl_disk w)) (di_image d) \<and>
    (\<forall>i < length (di_image d). di_image d ! i = di_image (wl_disk w) ! i \<or> di_image d ! i = di_image (wl_disk w2) ! i) \<and>
    open_on crc d = Inr w3 \<and>
    (\<forall>sink s. replay_log crc 1 sink s w3 = deliver sink [(1, TxnBegin), (1, DdlCatalog [x]), (2, TxnCommit)] s)"
proof -
  let ?img = "di_image (wl_disk w)" and ?img2 = "di_image (wl_disk w2)"
  define b1 where "b1 = [record_body 1 TxnBegin, record_body 1 (DdlCatalog [x])]"
  define b2 where "b2 = [record_body 2 TxnBegin, record_body 2 (DdlCatalog [y])]"
  define c1 c2 where "c1 = record_body 1 TxnCommit" and "c2 = record_body 2 TxnCommit"
  have old: "old = b1 @ [c1]" and new: "new = b2 @ [c2]"
    by (simp_all add: old_def new_def log_of_def txn_bodies_def entries_def b1_def b2_def c1_def c2_def)
  have len: "length (log_bytes crc b1) = 35" "length (log_bytes crc b2) = 35" "length (frame_of crc c1) = 17" "length (frame_of crc c2) = 17"
    by (simp_all add: b1_def b2_def c1_def c2_def record_body_def PREFIX_def)
  have w: "?img = log_bytes crc b1 @ frame_of crc c1 @ replicate (wl_reserved w - 52) 0" "wl_len w = 52"
      "?img2 = log_bytes crc b2 @ frame_of crc c2 @ replicate (wl_reserved w2 - 52) 0" "di_writable (wl_disk w)"
    using ok run(2) len by (simp_all add: wal_ok_def old new)
  obtain da where da: "erase 0 52 (w\<lparr>wl_buf := []\<rparr>) = (Inr (), w\<lparr>wl_buf := [], wl_disk := da\<rparr>)"
      "di_log da = di_log (wl_disk w) @ [WriteEvent 0 (replicate 52 0)]" "di_image da = put_bytes ?img 0 (replicate 52 0)"
    using erase_small [of "w\<lparr>wl_buf := []\<rparr>" 52] w(4) by (auto simp: RESERVE_MAX_def)
  have w1: "wl_disk w1 = da" using tr da(1) by (auto simp: wal_truncate_def w_bind_def w_state_def w(2))
  have "wal_ok crc [] [] w1" using truncate_ok [OF ok] tr by auto
  then obtain evs where evs: "di_log (wl_disk w2) = di_log da @ evs" "list_all (past (wl_len w1)) evs" "?img2 = replay evs (di_image da)"
    using runs_ok [OF run(1), of "[]"] w1 by (auto simp: wrote_past_def)
  define all where "all = WriteEvent 0 (replicate 52 0) # evs"
  have log: "drop (length (di_log (wl_disk w))) (di_log (wl_disk w2)) = all" by (simp add: evs(1) da(2) all_def)
  have "list_all grows all" using evs(2) by (auto simp: all_def grows_def past_def list_all_iff split: io_event.splits)
  then have t: "torn all ?img (replay all ?img)" by (rule torn_replay)
  moreover have "replay all ?img = ?img2" using evs(3) da(3) by (simp add: all_def replay_def apply_event_def)
  ultimately have t: "torn all ?img ?img2" by simp
  define d where "d = da\<lparr>di_image := take 35 ?img @ drop 35 ?img2\<rparr>"
  have l: "52 \<le> length ?img" "length ?img \<le> length ?img2" using w(1) len t by (simp_all add: torn_def)
  have di: "di_image d = log_bytes crc (b1 @ [c2]) @ replicate (wl_reserved w2 - 52) 0" using len by (simp add: d_def w(1,3))
  have nth: "di_image d ! i = (if i < 35 then ?img ! i else ?img2 ! i)" if "i < length (di_image d)" for i
    using that l by (simp add: d_def nth_append min_def)
  have "torn all ?img (di_image d)"
    unfolding torn_def
  proof (intro conjI allI impI)
    show len_d: "length ?img \<le> length (di_image d)" using l by (simp add: d_def)
    fix i assume "i < length ?img" "\<forall>ev \<in> set all. \<not> covers ev i"
    then show "di_image d ! i = ?img ! i" using nth [of i] t len_d by (auto simp: torn_def)
  qed
  then have "crash all ?img (di_image d)" using crash.lost [of all ?img "di_image d" "[]"] unsynced log by simp
  moreover have "\<forall>i < length (di_image d). di_image d ! i = ?img ! i \<or> di_image d ! i = ?img2 ! i" using nth by auto
  moreover have wd: "di_writable d" using run(2) evs ok tr \<open>wal_ok crc [] [] w1\<close> w1 by (simp add: d_def wal_ok_def)
  obtain w3 where w3: "open_on crc d = Inr w3" "wal_ok crc (map fst (frames crc (di_image d) 0)) [] w3" using open_ok [OF wd, of crc] by blast
  have okb: "list_all body_ok (b1 @ [c2])" using ok run(2) by (simp add: wal_ok_def old new)
  have "next_frame crc (di_image d) (length (log_bytes crc (b1 @ [c2]))) = None"
    by (rule next_frame_zeros [of _ _ "wl_reserved w2 - 52"]) (simp_all add: di)
  then have "map fst (frames crc (di_image d) 0) = b1 @ [c2]"
    using frames_exact [OF okb, of 0 "di_image d" crc "replicate (wl_reserved w2 - 52) 0"] di by simp
  then have "replay_log crc 1 sink s w3 = replay_bodies (raise_floor 1 (b1 @ [c2])) sink (b1 @ [c2]) [] s" for sink and s :: 'a
    using wal_frames [of crc "b1 @ [c2]" "[]" w3] w3(2) by (simp add: replay_log_def Let_def)
  moreover have "replay_bodies (raise_floor 1 (b1 @ [c2])) sink (b1 @ [c2]) [] s =
      deliver sink [(1, TxnBegin), (1, DdlCatalog [x]), (2, TxnCommit)] s" for sink and s :: 'a
  proof -
    have "raise_floor 1 (b1 @ [c2]) = 1" by (simp add: raise_floor_def b1_def c2_def KIND_CHECKPOINT_NOTE_def)
    moreover have "replay_bodies 1 sink (b1 @ [c2]) [] s =
        replay_bodies 1 sink (map (record_body 1) [DdlCatalog [x]] @ [c2]) [(1, TxnBegin)] s"
      using decode_body_of [OF fits_ends(1)] by (simp add: b1_def del: encode_payload.simps)
    moreover have "\<dots> = replay_bodies 1 sink [c2] [(1, TxnBegin), (1, DdlCatalog [x])] s"
      using replay_plain [of "[DdlCatalog [x]]" 1 sink 1 "[c2]" "[(1, TxnBegin)]" s] by (simp add: plain_def)
    moreover have "\<dots> = deliver sink [(1, TxnBegin), (1, DdlCatalog [x]), (2, TxnCommit)] s"
      using decode_body_of [OF fits_ends(2)] by (auto simp: c2_def del: encode_payload.simps split: prod.splits sum.splits)
    ultimately show ?thesis by simp
  qed
  ultimately show ?thesis using w3(1) unfolding log by (intro exI [of _ d] exI [of _ w3]) simp
qed

end
