(* ===== verification/Mvcc.thy ===== *)
theory Mvcc
  imports WalRecovery Ids "HOL-Library.Finite_Map" "HOL-Library.Product_Lexorder"
begin

text \<open>
  The overlay store of the single writer, \<^verbatim>\<open>crates/zu-zu1/src/txn.rs\<close>: what a committed
  transaction leaves in memory, stamped with its epoch; what a reader pinned at an epoch is
  answered; staging, lowering to log records, committing, and rebuilding the store from the log.
  An \<^verbatim>\<open>IdMap\<close> or a \<^verbatim>\<open>BTreeMap\<close> is a finite map; a loop over a \<^verbatim>\<open>BTreeMap\<close>, or over an
  \<^verbatim>\<open>IdMap\<close> whose result is sorted, runs over its keys in order.
\<close>

subsection \<open>Maps of the standard library\<close>

text \<open>\<^verbatim>\<open>f(m.entry(k).or_default())\<close>, with \<^verbatim>\<open>d\<close> the default.\<close>

definition at_entry :: "'v \<Rightarrow> 'k \<Rightarrow> ('v \<Rightarrow> 'v) \<Rightarrow> ('k, 'v) fmap \<Rightarrow> ('k, 'v) fmap" where
  "at_entry d k f m = fmupd k (f (case fmlookup m k of None \<Rightarrow> d | Some v \<Rightarrow> v)) m"

text \<open>\<^verbatim>\<open>m.entry(k).or_insert(v)\<close>\<close>

definition or_insert :: "'k \<Rightarrow> 'v \<Rightarrow> ('k, 'v) fmap \<Rightarrow> ('k, 'v) fmap" where
  "or_insert k v m = (case fmlookup m k of None \<Rightarrow> fmupd k v m | Some _ \<Rightarrow> m)"

subsection \<open>The store\<close>

datatype cell = CInt u64 | CStr "u8 list" | CNull

record append_batch =
  ab_epoch :: u64
  ab_cols :: "wal_column list"
  ab_rows :: nat

record table_overlay =
  to_appended :: "append_batch list"
  to_tombstones :: "(u64, u64) fmap"
  to_updates :: "(u64 \<times> u32, (u64 \<times> cell) list) fmap"
  to_labels :: "(u64, (u64 \<times> u64 \<times> u64) list) fmap"

record overlay_edge =
  oe_epoch :: u64
  oe_src :: u64
  oe_dst :: u64
  oe_cols :: "(u32 \<times> cell) list"

record rel_overlay =
  ro_edges :: "overlay_edge list"
  ro_dead :: "(u64 \<times> u64, u64 list) fmap"
  ro_updates :: "(u64 \<times> u64 \<times> u32, (u64 \<times> cell) list) fmap"

definition no_table :: table_overlay where
  "no_table = \<lparr>to_appended = [], to_tombstones = fmempty, to_updates = fmempty, to_labels = fmempty\<rparr>"

definition no_rel :: rel_overlay where
  "no_rel = \<lparr>ro_edges = [], ro_dead = fmempty, ro_updates = fmempty\<rparr>"

definition stamp :: "u64 \<Rightarrow> u64 list \<Rightarrow> u64 list" where
  "stamp epoch stamps = (if stamps \<noteq> [] \<and> last stamps = epoch then stamps else stamps @ [epoch])"

datatype ingest_payload =
    IngestNodes "wal_column list" nat
  | IngestEdges "u64 list" "u64 list"

datatype deferred =
    DefCell u32 u64 u32 cell
  | DefRelCell u32 u64 u64 u32 cell
  | DefEdge u32 u64 u64 "(u32 \<times> cell) list"
  | DefGone u32 u64
  | DefDeadRel u32 u64 u64
  | DefRows u32 "(u32 \<times> cell) list list"
  | DefLabels u32 u64 u64 u64
  | DefMarks u32 u64 u64

record mvcc =
  mv_epoch :: u64
  mv_tables :: "(u32, table_overlay) fmap"
  mv_rels :: "(u32, rel_overlay) fmap"
  mv_ingests :: "(u64 \<times> u64) list"
  mv_soft :: bool
  mv_deferred :: "deferred list"

definition mvcc_new :: "u64 \<Rightarrow> mvcc" where
  "mvcc_new epoch = \<lparr>mv_epoch = epoch, mv_tables = fmempty, mv_rels = fmempty, mv_ingests = [], mv_soft = True, mv_deferred = []\<rparr>"

definition take_deferred :: "mvcc \<Rightarrow> deferred list \<times> mvcc" where
  "take_deferred m = (mv_deferred m, m\<lparr>mv_deferred := []\<rparr>)"

text \<open>One staged mutation.\<close>

datatype mv_op =
    OpInsertNodes u32 "wal_column list" nat
  | OpInsertRel u32 u64 u64 "(u32 \<times> cell) list"
  | OpUpdate u32 u64 u32 cell
  | OpDelete u32 u64
  | OpDeleteRel u32 u64 u64
  | OpUpdateRel u32 u64 u64 u32 cell
  | OpUpdateLabels u32 u64 u64 u64

subsection \<open>Cells and columns\<close>

datatype cell_kind = KInt | KStr | KNull

fun kind_of :: "cell \<Rightarrow> cell_kind" where
  "kind_of (CInt _) = KInt"
| "kind_of (CStr _) = KStr"
| "kind_of CNull = KNull"

fun int_of_cell :: "cell \<Rightarrow> u64 option" where
  "int_of_cell (CInt x) = Some x"
| "int_of_cell _ = None"

fun str_of_cell :: "cell \<Rightarrow> u8 list option" where
  "str_of_cell (CStr s) = Some s"
| "str_of_cell _ = None"

text \<open>\<^verbatim>\<open>cell_values\<close>; the outer \<open>None\<close> is its \<^verbatim>\<open>unreachable!\<close>.\<close>

definition cell_values :: "cell list \<Rightarrow> wal_values result option" where
  "cell_values cells =
     (let first = (case cells of [] \<Rightarrow> KInt | c # _ \<Rightarrow> kind_of c) in
      if list_ex (\<lambda>c. kind_of c \<noteq> first) cells
      then Some (Inl (InvalidArgument ''a logged column cannot mix values of different kinds''))
      else case first of
        KInt \<Rightarrow> map_option (Inr \<circ> WalInt) (map_opt int_of_cell cells)
      | KStr \<Rightarrow> map_option (Inr \<circ> WalStr) (map_opt str_of_cell cells)
      | KNull \<Rightarrow> Some (Inr (WalNull (word_of_nat (length cells)))))"

text \<open>\<^verbatim>\<open>cell_at\<close>, total; and the indexing of the readers, a panic out of range.\<close>

fun value_at :: "wal_values \<Rightarrow> nat \<Rightarrow> cell option" where
  "value_at (WalInt v) i = map_option CInt (idx v i)"
| "value_at (WalStr v) i = map_option CStr (idx v i)"
| "value_at (WalNull _) i = Some CNull"

definition cell_at :: "wal_column \<Rightarrow> nat \<Rightarrow> cell" where
  "cell_at col row = (case value_at (wc_values col) row of Some c \<Rightarrow> c | None \<Rightarrow> CNull)"

definition appended :: "wal_column list \<Rightarrow> nat \<Rightarrow> (u32 \<times> cell) list list" where
  "appended cols rows = map (\<lambda>row. map (\<lambda>col. (wc_col col, cell_at col row)) cols) [0..<rows]"

subsection \<open>Publishing\<close>

definition at_table :: "u32 \<Rightarrow> (table_overlay \<Rightarrow> table_overlay) \<Rightarrow> mvcc \<Rightarrow> mvcc" where
  "at_table t f m = m\<lparr>mv_tables := at_entry no_table t f (mv_tables m)\<rparr>"

definition at_rel :: "u32 \<Rightarrow> (rel_overlay \<Rightarrow> rel_overlay) \<Rightarrow> mvcc \<Rightarrow> mvcc" where
  "at_rel r f m = m\<lparr>mv_rels := at_entry no_rel r f (mv_rels m)\<rparr>"

definition push_batch :: "append_batch \<Rightarrow> table_overlay \<Rightarrow> table_overlay" where
  "push_batch b t = t\<lparr>to_appended := to_appended t @ [b]\<rparr>"

definition push_update :: "u64 \<times> u32 \<Rightarrow> u64 \<times> cell \<Rightarrow> table_overlay \<Rightarrow> table_overlay" where
  "push_update k v t = t\<lparr>to_updates := at_entry [] k (\<lambda>chain. chain @ [v]) (to_updates t)\<rparr>"

definition push_label :: "u64 \<Rightarrow> u64 \<times> u64 \<times> u64 \<Rightarrow> table_overlay \<Rightarrow> table_overlay" where
  "push_label row v t = t\<lparr>to_labels := at_entry [] row (\<lambda>chain. chain @ [v]) (to_labels t)\<rparr>"

definition bury :: "u64 \<Rightarrow> u64 \<Rightarrow> table_overlay \<Rightarrow> table_overlay" where
  "bury row epoch t = t\<lparr>to_tombstones := or_insert row epoch (to_tombstones t)\<rparr>"

definition push_edge :: "overlay_edge \<Rightarrow> rel_overlay \<Rightarrow> rel_overlay" where
  "push_edge e o1 = o1\<lparr>ro_edges := ro_edges o1 @ [e]\<rparr>"

definition kill_pair :: "u64 \<times> u64 \<Rightarrow> u64 \<Rightarrow> rel_overlay \<Rightarrow> rel_overlay" where
  "kill_pair pair epoch o1 = o1\<lparr>ro_dead := at_entry [] pair (stamp epoch) (ro_dead o1)\<rparr>"

definition push_rel_update :: "u64 \<times> u64 \<times> u32 \<Rightarrow> u64 \<times> cell \<Rightarrow> rel_overlay \<Rightarrow> rel_overlay" where
  "push_rel_update k v o1 = o1\<lparr>ro_updates := at_entry [] k (\<lambda>chain. chain @ [v]) (ro_updates o1)\<rparr>"

text \<open>The two matches of \<^verbatim>\<open>apply\<close>: what a reader can be handed, and what the store keeps.\<close>

fun deferral :: "mv_op \<Rightarrow> deferred option" where
  "deferral (OpUpdate t off c v) = (if v = CNull then None else Some (DefCell t off c v))"
| "deferral (OpUpdateRel r s d c v) = (if v = CNull then None else Some (DefRelCell r s d c v))"
| "deferral (OpInsertRel r s d cols) = Some (DefEdge r s d cols)"
| "deferral (OpDelete t off) = Some (DefGone t off)"
| "deferral (OpDeleteRel r s d) = Some (DefDeadRel r s d)"
| "deferral (OpInsertNodes t cols rows) = Some (DefRows t (appended cols rows))"
| "deferral (OpUpdateLabels t row add remove) = Some (DefLabels t row add remove)"

definition defer_op :: "mv_op \<Rightarrow> mvcc \<Rightarrow> mvcc" where
  "defer_op op m =
     (case deferral op of
        Some d \<Rightarrow> if mv_soft m then m\<lparr>mv_deferred := mv_deferred m @ [d]\<rparr> else m\<lparr>mv_soft := False, mv_deferred := []\<rparr>
      | None \<Rightarrow> m\<lparr>mv_soft := False, mv_deferred := []\<rparr>)"

fun publish_op :: "u64 \<Rightarrow> mv_op \<Rightarrow> mvcc \<Rightarrow> mvcc" where
  "publish_op e (OpInsertNodes t cols rows) = at_table t (push_batch \<lparr>ab_epoch = e, ab_cols = cols, ab_rows = rows\<rparr>)"
| "publish_op e (OpInsertRel r s d cols) = at_rel r (push_edge \<lparr>oe_epoch = e, oe_src = s, oe_dst = d, oe_cols = cols\<rparr>)"
| "publish_op e (OpUpdate t off c v) = at_table t (push_update (off, c) (e, v))"
| "publish_op e (OpDelete t off) = at_table t (bury off e)"
| "publish_op e (OpDeleteRel r s d) = at_rel r (kill_pair (s, d) e)"
| "publish_op e (OpUpdateRel r s d c v) = at_rel r (push_rel_update (s, d, c) (e, v))"
| "publish_op e (OpUpdateLabels t row add remove) = at_table t (push_label row (e, add, remove))"

definition mv_apply :: "u64 \<Rightarrow> mv_op list \<Rightarrow> mvcc \<Rightarrow> mvcc" where
  "mv_apply epoch ops m = (fold (\<lambda>op m. publish_op epoch op (defer_op op m)) ops (m\<lparr>mv_deferred := []\<rparr>))\<lparr>mv_epoch := epoch\<rparr>"

fun publish_payload :: "u64 \<Rightarrow> u32 \<Rightarrow> ingest_payload \<Rightarrow> mvcc \<Rightarrow> mvcc" where
  "publish_payload e t (IngestNodes cols rows) = at_table t (push_batch \<lparr>ab_epoch = e, ab_cols = cols, ab_rows = rows\<rparr>)"
| "publish_payload e t (IngestEdges src dst) =
     at_rel t (\<lambda>o1. o1\<lparr>ro_edges := ro_edges o1 @
       map (\<lambda>(s, d). \<lparr>oe_epoch = e, oe_src = s, oe_dst = d, oe_cols = []\<rparr>) (zip src dst)\<rparr>)"

definition publish_ingest :: "u64 \<Rightarrow> u32 \<Rightarrow> ingest_payload \<Rightarrow> u64 \<Rightarrow> mvcc \<Rightarrow> mvcc" where
  "publish_ingest epoch table payload root m =
     (let m1 = publish_payload epoch table payload m
      in m1\<lparr>mv_ingests := mv_ingests m1 @ [(epoch, root)], mv_epoch := max (mv_epoch m1) epoch, mv_soft := False, mv_deferred := []\<rparr>)"

definition seed_tombstones :: "u32 \<Rightarrow> u64 list \<Rightarrow> mvcc \<Rightarrow> mvcc" where
  "seed_tombstones table offsets =
     at_table table (\<lambda>t. t\<lparr>to_tombstones := fold (\<lambda>off. fmupd off 0) offsets (to_tombstones t)\<rparr>)"


subsection \<open>What a reader at an epoch is answered\<close>

text \<open>\<^verbatim>\<open>chain.iter().rev().find(|(e, _)| *e <= epoch)\<close>\<close>

definition newest :: "u64 \<Rightarrow> (u64 \<times> cell) list \<Rightarrow> cell option" where
  "newest epoch chain = map_option snd (find (\<lambda>(e, _). e \<le> epoch) (rev chain))"

definition table_of :: "mvcc \<Rightarrow> u32 \<Rightarrow> table_overlay" where
  "table_of m t = (case fmlookup (mv_tables m) t of None \<Rightarrow> no_table | Some o1 \<Rightarrow> o1)"

definition rel_of :: "mvcc \<Rightarrow> u32 \<Rightarrow> rel_overlay" where
  "rel_of m r = (case fmlookup (mv_rels m) r of None \<Rightarrow> no_rel | Some o1 \<Rightarrow> o1)"

definition appended_rows :: "mvcc \<Rightarrow> u32 \<Rightarrow> u64 \<Rightarrow> nat" where
  "appended_rows m t epoch =
     (case fmlookup (mv_tables m) t of
        None \<Rightarrow> 0
      | Some o1 \<Rightarrow> sum_list (map ab_rows (filter (\<lambda>b. ab_epoch b \<le> epoch) (to_appended o1))))"

definition is_deleted :: "mvcc \<Rightarrow> u32 \<Rightarrow> u64 \<Rightarrow> u64 \<Rightarrow> bool" where
  "is_deleted m t off epoch =
     (case Option.bind (fmlookup (mv_tables m) t) (\<lambda>o1. fmlookup (to_tombstones o1) off) of
        None \<Rightarrow> False
      | Some e \<Rightarrow> e \<le> epoch)"

text \<open>The walk over the batches: \<^verbatim>\<open>None\<close> outside is an index out of range.\<close>

fun batch_cell :: "append_batch list \<Rightarrow> nat \<Rightarrow> nat \<Rightarrow> u32 \<Rightarrow> u64 \<Rightarrow> cell option option" where
  "batch_cell [] at off col epoch = Some None"
| "batch_cell (b # bs) at off col epoch =
     (if ab_epoch b \<le> epoch \<and> off < at + ab_rows b
      then case find (\<lambda>c. wc_col c = col) (ab_cols b) of
             None \<Rightarrow> Some None
           | Some column \<Rightarrow> map_option Some (value_at (wc_values column) (off - at))
      else batch_cell bs (if ab_epoch b \<le> epoch then at + ab_rows b else at) off col epoch)"

definition mv_cell :: "mvcc \<Rightarrow> u32 \<Rightarrow> nat \<Rightarrow> u64 \<Rightarrow> u32 \<Rightarrow> u64 \<Rightarrow> cell option option" where
  "mv_cell m t base_count off col epoch =
     (case fmlookup (mv_tables m) t of
        None \<Rightarrow> Some None
      | Some o1 \<Rightarrow>
          case Option.bind (fmlookup (to_updates o1) (off, col)) (newest epoch) of
            Some c \<Rightarrow> Some (Some c)
          | None \<Rightarrow> if unat off < base_count then Some None
                    else batch_cell (to_appended o1) base_count (unat off) col epoch)"

definition edge_gone :: "mvcc \<Rightarrow> u32 \<Rightarrow> u64 \<Rightarrow> u64 \<Rightarrow> u64 \<Rightarrow> u64 \<Rightarrow> bool" where
  "edge_gone m r src dst since epoch =
     (case Option.bind (fmlookup (mv_rels m) r) (\<lambda>o1. fmlookup (ro_dead o1) (src, dst)) of
        None \<Rightarrow> False
      | Some stamps \<Rightarrow> list_ex (\<lambda>e. since \<le> e \<and> e \<le> epoch) stamps)"

definition edge_cells :: "mvcc \<Rightarrow> u32 \<Rightarrow> u64 \<Rightarrow> (u64 \<times> u64 \<times> (u32 \<times> cell) list) list" where
  "edge_cells m r epoch =
     (case fmlookup (mv_rels m) r of
        None \<Rightarrow> []
      | Some o1 \<Rightarrow>
          map (\<lambda>e. (oe_src e, oe_dst e, oe_cols e))
            (filter (\<lambda>e. oe_epoch e \<le> epoch \<and> \<not> edge_gone m r (oe_src e) (oe_dst e) (oe_epoch e) epoch) (ro_edges o1)))"

definition mv_edges :: "mvcc \<Rightarrow> u32 \<Rightarrow> u64 \<Rightarrow> (u64 \<times> u64) list" where
  "mv_edges m r epoch = map (\<lambda>(s, d, _). (s, d)) (edge_cells m r epoch)"

text \<open>The neighbors are pushed onto the caller's vector.\<close>

fun push_neighbors :: "mvcc \<Rightarrow> u32 \<Rightarrow> u64 \<Rightarrow> bool \<Rightarrow> u64 \<Rightarrow> overlay_edge list \<Rightarrow> u64 list \<Rightarrow> u64 list" where
  "push_neighbors m r node reversed epoch [] out = out"
| "push_neighbors m r node reversed epoch (e # es) out =
     push_neighbors m r node reversed epoch es
       (if oe_epoch e > epoch \<or> edge_gone m r (oe_src e) (oe_dst e) (oe_epoch e) epoch then out
        else if \<not> reversed \<and> oe_src e = node then out @ [oe_dst e]
        else if reversed \<and> oe_dst e = node then out @ [oe_src e]
        else out)"

definition neighbors :: "mvcc \<Rightarrow> u32 \<Rightarrow> u64 \<Rightarrow> bool \<Rightarrow> u64 \<Rightarrow> u64 list \<Rightarrow> u64 list" where
  "neighbors m r node reversed epoch out =
     (case fmlookup (mv_rels m) r of
        None \<Rightarrow> out
      | Some o1 \<Rightarrow> push_neighbors m r node reversed epoch (ro_edges o1) out)"

definition dead_edges :: "mvcc \<Rightarrow> u32 \<Rightarrow> u64 \<Rightarrow> (u64 \<times> u64) list" where
  "dead_edges m r epoch =
     (case fmlookup (mv_rels m) r of
        None \<Rightarrow> []
      | Some o1 \<Rightarrow> map fst (filter (\<lambda>(_, stamps). stamps \<noteq> [] \<and> hd stamps \<le> epoch) (sorted_list_of_fmap (ro_dead o1))))"

definition edge_updates :: "mvcc \<Rightarrow> u32 \<Rightarrow> u64 \<Rightarrow> (u64 \<times> u64 \<times> u32, cell) fmap" where
  "edge_updates m r epoch =
     (case fmlookup (mv_rels m) r of
        None \<Rightarrow> fmempty
      | Some o1 \<Rightarrow> fmap_of_list (List.map_filter (\<lambda>(key, chain). map_option (Pair key) (newest epoch chain))
          (sorted_list_of_fmap (ro_updates o1))))"

definition has_edge_updates :: "mvcc \<Rightarrow> u32 \<Rightarrow> u64 \<Rightarrow> bool" where
  "has_edge_updates m r epoch =
     (case fmlookup (mv_rels m) r of
        None \<Rightarrow> False
      | Some o1 \<Rightarrow> list_ex (\<lambda>(_, chain). list_ex (\<lambda>(e, _). e \<le> epoch) chain) (sorted_list_of_fmap (ro_updates o1)))"

definition tables_touched :: "mvcc \<Rightarrow> u32 list" where
  "tables_touched m = map fst (sorted_list_of_fmap (mv_tables m))"

definition rels_touched :: "mvcc \<Rightarrow> u32 list" where
  "rels_touched m = map fst (sorted_list_of_fmap (mv_rels m))"

definition tombstones :: "mvcc \<Rightarrow> u32 \<Rightarrow> u64 \<Rightarrow> u64 list" where
  "tombstones m t epoch =
     (case fmlookup (mv_tables m) t of
        None \<Rightarrow> []
      | Some o1 \<Rightarrow> map fst (filter (\<lambda>(_, e). e \<le> epoch) (sorted_list_of_fmap (to_tombstones o1))))"

definition appends_carry_columns :: "mvcc \<Rightarrow> u32 \<Rightarrow> u64 \<Rightarrow> bool" where
  "appends_carry_columns m t epoch =
     (case fmlookup (mv_tables m) t of
        None \<Rightarrow> False
      | Some o1 \<Rightarrow> list_ex (\<lambda>b. ab_epoch b \<le> epoch \<and> ab_rows b > 0 \<and> ab_cols b \<noteq> []) (to_appended o1))"

definition has_updates :: "mvcc \<Rightarrow> u32 \<Rightarrow> u64 \<Rightarrow> bool" where
  "has_updates m t epoch =
     (case fmlookup (mv_tables m) t of
        None \<Rightarrow> False
      | Some o1 \<Rightarrow> list_ex (\<lambda>(_, chain). list_ex (\<lambda>(e, _). e \<le> epoch) chain) (sorted_list_of_fmap (to_updates o1)))"

definition touched_cols :: "mvcc \<Rightarrow> u32 \<Rightarrow> u64 \<Rightarrow> u32 set" where
  "touched_cols m t epoch =
     (case fmlookup (mv_tables m) t of
        None \<Rightarrow> {}
      | Some o1 \<Rightarrow> set (map (\<lambda>((_, col), _). col)
          (filter (\<lambda>(_, chain). list_ex (\<lambda>(e, _). e \<le> epoch) chain) (sorted_list_of_fmap (to_updates o1)))))"

definition col_updates :: "mvcc \<Rightarrow> u32 \<Rightarrow> u32 \<Rightarrow> nat \<Rightarrow> u64 \<Rightarrow> (u64 \<times> cell) list" where
  "col_updates m t col base_count epoch =
     (case fmlookup (mv_tables m) t of
        None \<Rightarrow> []
      | Some o1 \<Rightarrow> sort_key fst (List.map_filter (\<lambda>((off, _), chain). map_option (Pair off) (newest epoch chain))
          (filter (\<lambda>((off, c), _). c = col \<and> unat off < base_count) (sorted_list_of_fmap (to_updates o1)))))"

text \<open>The masks a row's chain composes to, and whether any of it is visible.\<close>

fun compose_labels :: "u64 \<times> u64 \<times> u64 \<Rightarrow> u64 \<times> u64 \<times> bool \<Rightarrow> u64 \<times> u64 \<times> bool" where
  "compose_labels (_, add2, rm2) (add, remove, _) = ((add AND NOT rm2) OR add2, (remove AND NOT add2) OR rm2, True)"

definition row_labels :: "u64 \<Rightarrow> (u64 \<times> u64 \<times> u64) list \<Rightarrow> (u64 \<times> u64) option" where
  "row_labels epoch chain =
     (let (add, remove, seen) = fold compose_labels (filter (\<lambda>(e, _). e \<le> epoch) chain) (0, 0, False)
      in if seen then Some (add, remove) else None)"

definition label_changes :: "mvcc \<Rightarrow> u32 \<Rightarrow> u64 \<Rightarrow> (u64, u64 \<times> u64) fmap" where
  "label_changes m t epoch =
     (case fmlookup (mv_tables m) t of
        None \<Rightarrow> fmempty
      | Some o1 \<Rightarrow> fmap_of_list (List.map_filter (\<lambda>(off, chain). map_option (Pair off) (row_labels epoch chain))
          (sorted_list_of_fmap (to_labels o1))))"

definition has_label_changes :: "mvcc \<Rightarrow> u32 \<Rightarrow> u64 \<Rightarrow> bool" where
  "has_label_changes m t epoch =
     (case fmlookup (mv_tables m) t of
        None \<Rightarrow> False
      | Some o1 \<Rightarrow> list_ex (\<lambda>(_, chain). list_ex (\<lambda>(e, _). e \<le> epoch) chain) (sorted_list_of_fmap (to_labels o1)))"

definition ingest_roots :: "mvcc \<Rightarrow> u64 \<Rightarrow> u64 list" where
  "ingest_roots m epoch = map snd (filter (\<lambda>(e, _). e \<le> epoch) (mv_ingests m))"

subsection \<open>Staging\<close>

text \<open>A write transaction is the operations staged so far; its store is the one it borrows.\<close>

type_synonym write_txn = "mv_op list"

text \<open>\<^verbatim>\<open>insert_nodes\<close>; the outer \<open>None\<close> is the panic of \<^verbatim>\<open>cell_values\<close>.\<close>

fun logged_columns :: "(u32 \<times> cell list) list \<Rightarrow> wal_column list result option" where
  "logged_columns [] = Some (Inr [])"
| "logged_columns ((col, cells) # rest) =
     (case cell_values cells of
        None \<Rightarrow> None
      | Some (Inl e) \<Rightarrow> Some (Inl e)
      | Some (Inr vals) \<Rightarrow> map_option (map_sum id (\<lambda>cols. \<lparr>wc_col = col, wc_values = vals\<rparr> # cols)) (logged_columns rest))"

definition insert_nodes :: "u32 \<Rightarrow> (u32 \<times> cell list) list \<Rightarrow> write_txn \<Rightarrow> (nat result \<times> write_txn) option" where
  "insert_nodes table cols ops =
     (let rows = (case cols of [] \<Rightarrow> 0 | (_, v) # _ \<Rightarrow> length v) in
      if list_ex (\<lambda>(_, v). length v \<noteq> rows) cols
      then Some (Inl (InvalidArgument ''ragged node insert: columns disagree on row count''), ops)
      else case logged_columns cols of
        None \<Rightarrow> None
      | Some (Inl e) \<Rightarrow> Some (Inl e, ops)
      | Some (Inr cols1) \<Rightarrow> Some (Inr rows, ops @ [OpInsertNodes table cols1 rows]))"

definition insert_rel_carrying :: "u32 \<Rightarrow> u64 \<Rightarrow> u64 \<Rightarrow> (u32 \<times> cell) list \<Rightarrow> write_txn \<Rightarrow> write_txn" where
  "insert_rel_carrying rel src dst cols ops = ops @ [OpInsertRel rel src dst cols]"

definition insert_rel :: "u32 \<Rightarrow> u64 \<Rightarrow> u64 \<Rightarrow> write_txn \<Rightarrow> write_txn" where
  "insert_rel rel src dst = insert_rel_carrying rel src dst []"

definition txn_update :: "u32 \<Rightarrow> u64 \<Rightarrow> u32 \<Rightarrow> cell \<Rightarrow> write_txn \<Rightarrow> write_txn" where
  "txn_update table off col v ops = ops @ [OpUpdate table off col v]"

definition txn_delete :: "u32 \<Rightarrow> u64 \<Rightarrow> write_txn \<Rightarrow> write_txn" where
  "txn_delete table off ops = ops @ [OpDelete table off]"

definition delete_rel :: "u32 \<Rightarrow> u64 \<Rightarrow> u64 \<Rightarrow> write_txn \<Rightarrow> write_txn" where
  "delete_rel rel src dst ops = ops @ [OpDeleteRel rel src dst]"

definition update_rel :: "u32 \<Rightarrow> u64 \<Rightarrow> u64 \<Rightarrow> u32 \<Rightarrow> cell \<Rightarrow> write_txn \<Rightarrow> write_txn" where
  "update_rel rel src dst col v ops = ops @ [OpUpdateRel rel src dst col v]"

definition update_labels :: "u32 \<Rightarrow> u64 \<Rightarrow> u64 \<Rightarrow> u64 \<Rightarrow> write_txn \<Rightarrow> unit result \<times> write_txn" where
  "update_labels table row add remove ops =
     (if add AND remove \<noteq> 0
      then (Inl (InvalidArgument ''a label change cannot both set and clear the same label''), ops)
      else (Inr (), ops @ [OpUpdateLabels table row add remove]))"


subsection \<open>Lowering to log records\<close>

text \<open>\<^verbatim>\<open>expect\<close>\<close>

fun expect :: "'a result option \<Rightarrow> 'a option" where
  "expect (Some (Inr x)) = Some x"
| "expect _ = None"

record lowering =
  lw_out :: "wal_record list"
  lw_updates :: "(u32 \<times> u64 \<times> u32, u64 list \<times> cell list) fmap"
  lw_edge_updates :: "(u32 \<times> u32, u64 list \<times> u64 list \<times> cell list) fmap"
  lw_labels :: "(u32 \<times> u64 \<times> u64 \<times> u64 list) list"
  lw_deletes :: "(u32, u64 list) fmap"
  lw_detaches :: "(u32, u64 list \<times> u64 list) fmap"

definition nothing_lowered :: lowering where
  "nothing_lowered = \<lparr>lw_out = [], lw_updates = fmempty, lw_edge_updates = fmempty, lw_labels = [], lw_deletes = fmempty, lw_detaches = fmempty\<rparr>"

definition put_label :: "u32 \<Rightarrow> u64 \<Rightarrow> u64 \<Rightarrow> u64 \<Rightarrow> (u32 \<times> u64 \<times> u64 \<times> u64 list) list \<Rightarrow> (u32 \<times> u64 \<times> u64 \<times> u64 list) list" where
  "put_label t add remove row labels =
     (case rev labels of
        (t1, a1, r1, rows) # before \<Rightarrow>
          if (t1, a1, r1) = (t, add, remove) then rev before @ [(t1, a1, r1, rows @ [row])]
          else labels @ [(t, add, remove, [row])]
      | [] \<Rightarrow> [(t, add, remove, [row])])"

fun lower_op :: "mv_op \<Rightarrow> lowering \<Rightarrow> lowering option" where
  "lower_op (OpInsertNodes t cols _) lw = Some (lw\<lparr>lw_out := lw_out lw @ [NodeInsert t cols]\<rparr>)"
| "lower_op (OpInsertRel r s d cols) lw =
     map_option (\<lambda>cols. lw\<lparr>lw_out := lw_out lw @ [RelInsert r [s] [d] cols]\<rparr>)
       (map_opt (\<lambda>(col, cell). map_option (\<lambda>vals. \<lparr>wc_col = col, wc_values = vals\<rparr>) (expect (cell_values [cell]))) cols)"
| "lower_op (OpUpdate t off col v) lw =
     Some (lw\<lparr>lw_updates := at_entry ([], []) (t, off div ucast GROUP_ROWS, col) (\<lambda>(offs, cells). (offs @ [off], cells @ [v])) (lw_updates lw)\<rparr>)"
| "lower_op (OpDelete t off) lw = Some (lw\<lparr>lw_deletes := at_entry [] t (\<lambda>ids. ids @ [off]) (lw_deletes lw)\<rparr>)"
| "lower_op (OpDeleteRel r s d) lw =
     Some (lw\<lparr>lw_detaches := at_entry ([], []) r (\<lambda>(ss, ds). (ss @ [s], ds @ [d])) (lw_detaches lw)\<rparr>)"
| "lower_op (OpUpdateRel r s d col v) lw =
     Some (lw\<lparr>lw_edge_updates := at_entry ([], [], []) (r, col) (\<lambda>(ss, ds, cells). (ss @ [s], ds @ [d], cells @ [v])) (lw_edge_updates lw)\<rparr>)"
| "lower_op (OpUpdateLabels t row add remove) lw = Some (lw\<lparr>lw_labels := put_label t add remove row (lw_labels lw)\<rparr>)"

text \<open>The end of the run of one kind, and the runs.\<close>

function run_end :: "cell list \<Rightarrow> cell_kind \<Rightarrow> nat \<Rightarrow> nat" where
  "run_end cells kind stop = (if stop < length cells \<and> kind_of (cells ! stop) = kind then run_end cells kind (stop + 1) else stop)"
  by auto
termination by (relation "measure (\<lambda>(cells, kind, stop). length cells - stop)") auto

declare run_end.simps [simp del]

lemma run_end_ge: "stop \<le> run_end cells kind stop"
proof (induction cells kind stop rule: run_end.induct)
  case (1 cells kind stop)
  then show ?case by (subst run_end.simps) (auto intro: Suc_leD)
qed

function kind_runs :: "(nat \<Rightarrow> nat \<Rightarrow> wal_values \<Rightarrow> wal_record option) \<Rightarrow> cell list \<Rightarrow> nat \<Rightarrow> wal_record list option" where
  "kind_runs mk cells at =
     (if at < length cells
      then let stop = run_end cells (kind_of (cells ! at)) (at + 1) in
        do { run \<leftarrow> get_range cells at stop;
             vals \<leftarrow> expect (cell_values run);
             rec \<leftarrow> mk at stop vals;
             rest \<leftarrow> kind_runs mk cells stop;
             Some (rec # rest) }
      else Some [])"
  by auto
termination
proof (relation "measure (\<lambda>(mk, cells, at). length cells - at)", goal_cases)
  case (2 mk cells at stop)
  then show ?case using run_end_ge [of "at + 1" cells "kind_of (cells ! at)"] by simp
qed simp

declare kind_runs.simps [simp del]

fun lower_updates :: "(u32 \<times> u64 \<times> u32) \<times> u64 list \<times> cell list \<Rightarrow> wal_record list option" where
  "lower_updates ((t, grp, col), offs, cells) =
     kind_runs (\<lambda>at stop vals. map_option (\<lambda>os. Update t grp col os vals) (get_range offs at stop)) cells 0"

fun lower_edge_updates :: "(u32 \<times> u32) \<times> u64 list \<times> u64 list \<times> cell list \<Rightarrow> wal_record list option" where
  "lower_edge_updates ((r, col), src, dst, cells) =
     kind_runs (\<lambda>at stop vals. do { ss \<leftarrow> get_range src at stop; ds \<leftarrow> get_range dst at stop; Some (RelUpdate r col ss ds vals) }) cells 0"

definition build_records :: "mv_op list \<Rightarrow> wal_record list option" where
  "build_records ops = do {
     lw \<leftarrow> fold_opt lower_op ops nothing_lowered;
     us \<leftarrow> map_opt lower_updates (sorted_list_of_fmap (lw_updates lw));
     es \<leftarrow> map_opt lower_edge_updates (sorted_list_of_fmap (lw_edge_updates lw));
     Some (lw_out lw @ concat us @ concat es
       @ map (\<lambda>(t, add, remove, offs). LabelUpdate t offs add remove) (lw_labels lw)
       @ map (\<lambda>(r, src, dst). RelDelete r src dst) (sorted_list_of_fmap (lw_detaches lw))
       @ map (\<lambda>(t, ids). Delete t ids) (sorted_list_of_fmap (lw_deletes lw))) }"

subsection \<open>Committing\<close>

fun append_all :: "(u8 list \<Rightarrow> u32) \<Rightarrow> u64 \<Rightarrow> wal_record list \<Rightarrow> unit wio" where
  "append_all crc epoch [] = (\<lambda>w. (Inr (), w))"
| "append_all crc epoch (rec # recs) = w_bind (wal_append crc epoch rec) (\<lambda>_. append_all crc epoch recs)"

text \<open>\<^verbatim>\<open>WriteTxn::stage_commit\<close>, over the store it borrows: the epoch and the bytes owed. The last
  epoch has no next one, a panic.\<close>

definition txn_stage_commit :: "(u8 list \<Rightarrow> u32) \<Rightarrow> write_txn \<Rightarrow> wal \<Rightarrow> mvcc \<Rightarrow> ((u64 \<times> nat option) result \<times> wal \<times> mvcc) option" where
  "txn_stage_commit crc ops w m =
     (if ops = [] then Some (Inr (mv_epoch m, None), w, m)
      else if mv_epoch m = - 1 then None
      else let epoch = mv_epoch m + 1 in
        case wal_append crc epoch TxnBegin w of
          (Inl e, w1) \<Rightarrow> Some (Inl e, w1, m)
        | (Inr _, w1) \<Rightarrow>
            case build_records ops of
              None \<Rightarrow> None
            | Some recs \<Rightarrow>
                case w_bind (append_all crc epoch recs) (\<lambda>_. stage_commit crc epoch) w1 of
                  (Inl e, w2) \<Rightarrow> Some (Inl e, w2, m)
                | (Inr need, w2) \<Rightarrow> Some (Inr (epoch, Some need), w2, mv_apply epoch ops m))"

definition txn_commit :: "(u8 list \<Rightarrow> u32) \<Rightarrow> nat \<Rightarrow> write_txn \<Rightarrow> wal \<Rightarrow> mvcc \<Rightarrow> (u64 result \<times> wal \<times> mvcc) option" where
  "txn_commit crc took ops w m =
     (case txn_stage_commit crc ops w m of
        None \<Rightarrow> None
      | Some (Inl e, w1, m1) \<Rightarrow> Some (Inl e, w1, m1)
      | Some (Inr (epoch, None), w1, m1) \<Rightarrow> Some (Inr epoch, w1, m1)
      | Some (Inr (epoch, Some need), w1, m1) \<Rightarrow>
          map_option (\<lambda>(r, w2). (map_sum id (\<lambda>_. epoch) r, w2, m1)) (sync_alone took need w1))"

subsection \<open>Recovery\<close>

type_synonym resolver = "u32 \<Rightarrow> u64 list \<Rightarrow> (ingest_payload \<times> u64) result"

definition at_rel_opt :: "u32 \<Rightarrow> (rel_overlay \<Rightarrow> rel_overlay option) \<Rightarrow> mvcc \<Rightarrow> mvcc option" where
  "at_rel_opt r f m = map_option (\<lambda>o1. at_rel r (\<lambda>_. o1) m) (f (rel_of m r))"

definition at_table_opt :: "u32 \<Rightarrow> (table_overlay \<Rightarrow> table_overlay option) \<Rightarrow> mvcc \<Rightarrow> mvcc option" where
  "at_table_opt t f m = map_option (\<lambda>o1. at_table t (\<lambda>_. o1) m) (f (table_of m t))"

text \<open>What one replayed record does; the outer \<open>None\<close> is an index out of range.\<close>

fun replay_record :: "resolver \<Rightarrow> u64 \<Rightarrow> wal_record \<Rightarrow> mvcc \<Rightarrow> (unit result \<times> mvcc) option" where
  "replay_record resolve e TxnBegin m = Some (Inr (), m)"
| "replay_record resolve e TxnCommit m = Some (Inr (), m)"
| "replay_record resolve e CheckpointNote m = Some (Inr (), m)"
| "replay_record resolve e (NodeInsert t cols) m =
     (let rows = (case cols of [] \<Rightarrow> 0 | c # _ \<Rightarrow> values_len (wc_values c)) in
      if list_ex (\<lambda>c. values_len (wc_values c) \<noteq> rows) cols
      then Some (Inl (wal_corrupt (''ragged node insert into table '' @ show_nat (unat t))), m)
      else Some (Inr (), at_table t (push_batch \<lparr>ab_epoch = e, ab_cols = cols, ab_rows = rows\<rparr>) m))"
| "replay_record resolve e (RelInsert r src dst cols) m =
     map_option (Pair (Inr ())) (at_rel_opt r (fold_opt (\<lambda>(i, s, d) o1.
       map_option (\<lambda>cells. push_edge \<lparr>oe_epoch = e, oe_src = s, oe_dst = d, oe_cols = cells\<rparr> o1)
         (map_opt (\<lambda>c. map_option (Pair (wc_col c)) (value_at (wc_values c) i)) cols)) (List.enumerate 0 (zip src dst))) m)"
| "replay_record resolve e (Update t _ col offs vals) m =
     map_option (Pair (Inr ())) (at_table_opt t (fold_opt (\<lambda>(i, off) o1.
       map_option (\<lambda>c. push_update (off, col) (e, c) o1) (value_at vals i)) (List.enumerate 0 offs)) m)"
| "replay_record resolve e (Delete t ids) m =
     Some (Inr (), at_table t (fold (\<lambda>off. bury off e) ids) m)"
| "replay_record resolve e (RelDelete r src dst) m =
     Some (Inr (), at_rel r (fold (\<lambda>(s, d). kill_pair (s, d) e) (zip src dst)) m)"
| "replay_record resolve e (RelUpdate r col src dst vals) m =
     map_option (Pair (Inr ())) (at_rel_opt r (fold_opt (\<lambda>(i, s, d) o1.
       map_option (\<lambda>c. push_rel_update (s, d, col) (e, c) o1) (value_at vals i)) (List.enumerate 0 (zip src dst))) m)"
| "replay_record resolve e (LabelUpdate t offs add remove) m =
     Some (Inr (), at_table t (fold (\<lambda>off. push_label off (e, add, remove)) offs) m)"
| "replay_record resolve e (IngestRef t ptrs) m =
     (case resolve t ptrs of
        Inl err \<Rightarrow> Some (Inl err, m)
      | Inr (payload, root) \<Rightarrow> Some (Inr (), publish_ingest e t payload root m))"
| "replay_record resolve e (DdlCatalog _) m = Some (Inl (Unsupported ''wal replay kind'' 0), m)"

text \<open>The closure handed to the log; a store lost to a panic stays lost.\<close>

definition recover_sink :: "resolver \<Rightarrow> mvcc option sink" where
  "recover_sink resolve epoch rec s =
     (case s of
        None \<Rightarrow> (Inr (), None)
      | Some m \<Rightarrow>
          case replay_record resolve epoch rec (m\<lparr>mv_epoch := max (mv_epoch m) epoch\<rparr>) of
            None \<Rightarrow> (Inr (), None)
          | Some (r, m1) \<Rightarrow> (r, Some m1))"

definition recover_with :: "(u8 list \<Rightarrow> u32) \<Rightarrow> resolver \<Rightarrow> u64 \<Rightarrow> wal \<Rightarrow> mvcc result option" where
  "recover_with crc resolve low w =
     (case replay_log crc low (recover_sink resolve) (Some (mvcc_new low)) w of
        (_, None) \<Rightarrow> None
      | (Inl e, Some _) \<Rightarrow> Some (Inl e)
      | (Inr _, Some m) \<Rightarrow> Some (Inr m))"

definition no_resolver :: resolver where
  "no_resolver = (\<lambda>_ _. Inl (Unsupported ''resolving an IngestRef without the database file'' 0))"

definition mvcc_recover :: "(u8 list \<Rightarrow> u32) \<Rightarrow> u64 \<Rightarrow> wal \<Rightarrow> mvcc result option" where
  "mvcc_recover crc = recover_with crc no_resolver"

end
