(* ===== verification/MvccRecovery.thy ===== *)
theory MvccRecovery
  imports Mvcc
begin

text \<open>
  What a transaction's log records rebuild: replaying the records a commit was lowered to
  leaves the overlays exactly as publishing its operations did, although the lowering
  regroups them. Operations that touch different parts of the store commute; the lowering keeps
  the order of those that do not.
\<close>

subsection \<open>Entries\<close>

lemma lookup_at_entry [simp]:
  "fmlookup (at_entry d k f m) j = (if j = k then Some (f (case fmlookup m k of None \<Rightarrow> d | Some v \<Rightarrow> v)) else fmlookup m j)"
  by (simp add: at_entry_def)

lemma at_entry_twice [simp]: "at_entry d k f (at_entry d k g m) = at_entry d k (\<lambda>x. f (g x)) m"
  by (simp add: at_entry_def)

lemma at_entry_swap:
  "(k = j \<Longrightarrow> (\<And>x. f (g x) = g (f x))) \<Longrightarrow> at_entry d k f (at_entry d j g m) = at_entry d j g (at_entry d k f m)"
  by (rule fmap_ext) auto

lemma or_insert_swap: "or_insert k v (or_insert j v m) = or_insert j v (or_insert k v m)"
  by (rule fmap_ext) (auto simp: or_insert_def split: option.splits)

lemma at_table_twice [simp]: "at_table t f (at_table t g m) = at_table t (\<lambda>x. f (g x)) m"
  by (simp add: at_table_def)

lemma at_rel_twice [simp]: "at_rel t f (at_rel t g m) = at_rel t (\<lambda>x. f (g x)) m"
  by (simp add: at_rel_def)

lemma at_table_swap:
  assumes "t = u \<Longrightarrow> (\<And>x. f (g x) = g (f x))"
  shows "at_table t f (at_table u g m) = at_table u g (at_table t f m)"
proof -
  have "at_entry no_table t f (at_entry no_table u g (mv_tables m)) = at_entry no_table u g (at_entry no_table t f (mv_tables m))"
    by (rule at_entry_swap) (rule assms)
  then show ?thesis by (simp add: at_table_def)
qed

lemma at_rel_swap:
  assumes "t = u \<Longrightarrow> (\<And>x. f (g x) = g (f x))"
  shows "at_rel t f (at_rel u g m) = at_rel u g (at_rel t f m)"
proof -
  have "at_entry no_rel t f (at_entry no_rel u g (mv_rels m)) = at_entry no_rel u g (at_entry no_rel t f (mv_rels m))"
    by (rule at_entry_swap) (rule assms)
  then show ?thesis by (simp add: at_rel_def)
qed

lemma at_table_rel: "at_table t f (at_rel u g m) = at_rel u g (at_table t f m)"
  by (simp add: at_table_def at_rel_def)

lemma push_update_swap: "k \<noteq> j \<Longrightarrow> push_update k v (push_update j w x) = push_update j w (push_update k v x)"
  by (simp add: push_update_def at_entry_swap [of k j])

lemma push_rel_update_swap: "k \<noteq> j \<Longrightarrow> push_rel_update k v (push_rel_update j w x) = push_rel_update j w (push_rel_update k v x)"
  by (simp add: push_rel_update_def at_entry_swap [of k j])

lemmas overlay_parts = push_batch_def push_update_def push_label_def bury_def push_edge_def kill_pair_def push_rel_update_def

lemma fold_at_table: "xs \<noteq> [] \<Longrightarrow> fold (\<lambda>x. at_table t (f x)) xs m = at_table t (fold f xs) m"
proof (induction xs arbitrary: m rule: rev_nonempty_induct)
  case (snoc x xs) then show ?case by (simp add: comp_def)
qed (simp add: at_table_def)

lemma fold_at_rel: "xs \<noteq> [] \<Longrightarrow> fold (\<lambda>x. at_rel t (f x)) xs m = at_rel t (fold f xs) m"
proof (induction xs arbitrary: m rule: rev_nonempty_induct)
  case (snoc x xs) then show ?case by (simp add: comp_def)
qed (simp add: at_rel_def)

lemma at_table_const: "at_table t (\<lambda>_. f (table_of m t)) m = at_table t f m"
  by (simp add: at_table_def at_entry_def table_of_def)

lemma at_rel_const: "at_rel t (\<lambda>_. f (rel_of m t)) m = at_rel t f m"
  by (simp add: at_rel_def at_entry_def rel_of_def)

subsection \<open>Operations in different lanes commute\<close>

text \<open>
  Actions with a lane each, those of different lanes commuting: a sequence may be regrouped as
  long as every lane keeps its own order.
\<close>

locale lanes =
  fixes act :: "'o \<Rightarrow> 's \<Rightarrow> 's"
    and lane :: "'o \<Rightarrow> 'l"
  assumes apart: "lane x \<noteq> lane y \<Longrightarrow> act x (act y s) = act y (act x s)"
begin

lemma move_front:
  "(\<forall>y \<in> set ys. lane y \<noteq> lane x) \<Longrightarrow> fold act (ys @ x # zs) s = fold act (x # ys @ zs) s"
proof (induction ys arbitrary: s)
  case (Cons y ys)
  then have "fold act ((y # ys) @ x # zs) s = fold act (ys @ zs) (act x (act y s))" by simp
  then show ?case using apart [of y x s] Cons.prems by simp
qed simp

lemma same_lanes:
  "(\<And>l. filter (\<lambda>x. lane x = l) xs = filter (\<lambda>x. lane x = l) ys) \<Longrightarrow> fold act xs s = fold act ys s"
proof (induction xs arbitrary: ys s)
  case Nil
  have "ys = []"
  proof (cases ys)
    case (Cons y zs) then show ?thesis using Nil [of "lane y"] by simp
  qed
  then show ?case by simp
next
  case (Cons x xs)
  obtain us vs where ys: "ys = us @ x # vs" "\<forall>u \<in> set us. lane u \<noteq> lane x"
    using Cons.prems [of "lane x"] by (auto dest: Cons_eq_filterD)
  have "filter (\<lambda>y. lane y = l) xs = filter (\<lambda>y. lane y = l) (us @ vs)" for l
    using Cons.prems [of l] ys by (cases "lane x = l") (auto simp: filter_empty_conv)
  from Cons.IH [of "us @ vs", OF this] show ?case using move_front [of us x vs s] ys by simp
qed

end

datatype op_lane =
    InsertLane
  | UpdateLane u32 u64 u32
  | EdgeUpdateLane u32 u32
  | LabelLane
  | DetachLane u32
  | DeleteLane u32

fun lane_of :: "mv_op \<Rightarrow> op_lane" where
  "lane_of (OpInsertNodes _ _ _) = InsertLane"
| "lane_of (OpInsertRel _ _ _ _) = InsertLane"
| "lane_of (OpUpdate t off c _) = UpdateLane t (off div ucast GROUP_ROWS) c"
| "lane_of (OpUpdateRel r _ _ c _) = EdgeUpdateLane r c"
| "lane_of (OpUpdateLabels _ _ _ _) = LabelLane"
| "lane_of (OpDeleteRel r _ _) = DetachLane r"
| "lane_of (OpDelete t _) = DeleteLane t"

lemma publish_apart:
  assumes "lane_of x \<noteq> lane_of y"
  shows "publish_op e x (publish_op e y m) = publish_op e y (publish_op e x m)"
proof (cases x)
  case (OpInsertNodes t cols rows)
  then show ?thesis using assms by (cases y) (auto simp: at_table_rel intro!: at_table_swap simp: overlay_parts)
next
  case (OpInsertRel r s d cols)
  then show ?thesis using assms by (cases y) (auto simp: at_table_rel intro!: at_rel_swap simp: overlay_parts)
next
  case (OpUpdate t off c v)
  then show ?thesis using assms
    by (cases y) (auto simp: at_table_rel intro!: at_table_swap push_update_swap, (simp add: overlay_parts)+)
next
  case (OpDelete t off)
  then show ?thesis using assms by (cases y) (auto simp: at_table_rel intro!: at_table_swap simp: overlay_parts)
next
  case (OpDeleteRel r s d)
  then show ?thesis using assms by (cases y) (auto simp: at_table_rel intro!: at_rel_swap simp: overlay_parts)
next
  case (OpUpdateRel r s d c v)
  then show ?thesis using assms
    by (cases y) (auto simp: at_table_rel intro!: at_rel_swap push_rel_update_swap, (simp add: overlay_parts)+)
next
  case (OpUpdateLabels t row add remove)
  then show ?thesis using assms by (cases y) (auto simp: at_table_rel intro!: at_table_swap simp: overlay_parts)
qed

interpretation publishing: lanes "publish_op e" lane_of for e
  by unfold_locales (rule publish_apart)


subsection \<open>A record is a run of operations\<close>

definition value_or_null :: "wal_values \<Rightarrow> nat \<Rightarrow> cell" where
  "value_or_null vals i = (case value_at vals i of Some c \<Rightarrow> c | None \<Rightarrow> CNull)"

fun record_ops :: "wal_record \<Rightarrow> mv_op list" where
  "record_ops (NodeInsert t cols) = [OpInsertNodes t cols (case cols of [] \<Rightarrow> 0 | c # _ \<Rightarrow> values_len (wc_values c))]"
| "record_ops (RelInsert r src dst cols) =
     map (\<lambda>(i, s, d). OpInsertRel r s d (map (\<lambda>c. (wc_col c, cell_at c i)) cols)) (List.enumerate 0 (zip src dst))"
| "record_ops (Update t _ col offs vals) = map (\<lambda>(i, off). OpUpdate t off col (value_or_null vals i)) (List.enumerate 0 offs)"
| "record_ops (Delete t ids) = map (OpDelete t) ids"
| "record_ops (RelDelete r src dst) = map (\<lambda>(s, d). OpDeleteRel r s d) (zip src dst)"
| "record_ops (RelUpdate r col src dst vals) =
     map (\<lambda>(i, s, d). OpUpdateRel r s d col (value_or_null vals i)) (List.enumerate 0 (zip src dst))"
| "record_ops (LabelUpdate t offs add remove) = map (\<lambda>off. OpUpdateLabels t off add remove) offs"
| "record_ops _ = []"

fun lowered_record :: "wal_record \<Rightarrow> bool" where
  "lowered_record (NodeInsert t cols) \<longleftrightarrow>
     list_all (\<lambda>c. values_len (wc_values c) = values_len (wc_values (hd cols))) cols"
| "lowered_record (RelInsert r src dst cols) \<longleftrightarrow> src \<noteq> [] \<and> length dst = length src \<and>
     list_all (\<lambda>c. \<forall>i < length src. value_at (wc_values c) i \<noteq> None) cols"
| "lowered_record (Update t g col offs vals) \<longleftrightarrow> offs \<noteq> [] \<and> (\<forall>i < length offs. value_at vals i \<noteq> None)"
| "lowered_record (Delete t ids) \<longleftrightarrow> ids \<noteq> []"
| "lowered_record (RelDelete r src dst) \<longleftrightarrow> src \<noteq> [] \<and> length dst = length src"
| "lowered_record (RelUpdate r col src dst vals) \<longleftrightarrow> src \<noteq> [] \<and> length dst = length src \<and> (\<forall>i < length src. value_at vals i \<noteq> None)"
| "lowered_record (LabelUpdate t offs add remove) \<longleftrightarrow> offs \<noteq> []"
| "lowered_record _ \<longleftrightarrow> False"

lemma fold_opt_Some: "(\<And>x s. x \<in> set xs \<Longrightarrow> f x s = Some (g x s)) \<Longrightarrow> fold_opt f xs s = Some (fold g xs s)"
  by (induction xs arbitrary: s) auto

lemma fold_opt_append: "fold_opt f (xs @ ys) s = Option.bind (fold_opt f xs s) (fold_opt f ys)"
  by (induction xs arbitrary: s) (auto split: Option.bind_splits)

lemma value_or_null: "value_at vals i \<noteq> None \<Longrightarrow> value_at vals i = Some (value_or_null vals i)"
  by (auto simp: value_or_null_def)

lemma in_enumerate: "(i, x) \<in> set (List.enumerate 0 xs) \<longleftrightarrow> i < length xs \<and> x = xs ! i"
  by (auto simp: in_set_enumerate_eq)

lemma replay_record_ops:
  assumes "lowered_record rec"
  shows "replay_record resolve e rec m = Some (Inr (), fold (publish_op e) (record_ops rec) m)"
proof (cases rec)
  case (NodeInsert t cols)
  then show ?thesis using assms by (cases cols) (auto simp: list_all_iff list_ex_iff)
next
  case (RelInsert r src dst cols)
  let ?es = "List.enumerate 0 (zip src dst)"
  have "map_opt (\<lambda>c. map_option (Pair (wc_col c)) (value_at (wc_values c) i)) cols = Some (map (\<lambda>c. (wc_col c, cell_at c i)) cols)"
    if "i < length src" for i
    using assms that by (intro map_opt_Some) (force simp: RelInsert list_all_iff cell_at_def)
  then have "fold_opt (\<lambda>(i, s, d) o1. map_option (\<lambda>cells. push_edge \<lparr>oe_epoch = e, oe_src = s, oe_dst = d, oe_cols = cells\<rparr> o1)
        (map_opt (\<lambda>c. map_option (Pair (wc_col c)) (value_at (wc_values c) i)) cols)) ?es o1 =
      Some (fold (\<lambda>(i, s, d). push_edge \<lparr>oe_epoch = e, oe_src = s, oe_dst = d, oe_cols = map (\<lambda>c. (wc_col c, cell_at c i)) cols\<rparr>) ?es o1)" for o1
    by (intro fold_opt_Some) (auto simp: in_enumerate)
  moreover have "?es \<noteq> []" using assms by (cases src; cases dst) (simp_all add: RelInsert)
  ultimately show ?thesis
    using fold_at_rel [of ?es r "\<lambda>(i, s, d). push_edge \<lparr>oe_epoch = e, oe_src = s, oe_dst = d, oe_cols = map (\<lambda>c. (wc_col c, cell_at c i)) cols\<rparr>" m]
    by (simp add: RelInsert at_rel_opt_def at_rel_const fold_map comp_def case_prod_unfold)
next
  case (Update t g col offs vals)
  let ?es = "List.enumerate 0 offs"
  have "fold_opt (\<lambda>(i, off) o1. map_option (\<lambda>c. push_update (off, col) (e, c) o1) (value_at vals i)) ?es o1 =
      Some (fold (\<lambda>(i, off). push_update (off, col) (e, value_or_null vals i)) ?es o1)" for o1
    using assms by (intro fold_opt_Some) (auto simp: in_enumerate Update value_or_null)
  moreover have "?es \<noteq> []" using assms by (cases offs) (simp_all add: Update)
  ultimately show ?thesis
    using fold_at_table [of ?es t "\<lambda>(i, off). push_update (off, col) (e, value_or_null vals i)" m]
    by (simp add: Update at_table_opt_def at_table_const fold_map comp_def case_prod_unfold)
next
  case (Delete t ids)
  then show ?thesis using assms fold_at_table [of ids t "\<lambda>off. bury off e" m] by (simp add: fold_map comp_def)
next
  case (RelDelete r src dst)
  have "zip src dst \<noteq> []" using assms by (cases src; cases dst) (simp_all add: RelDelete)
  then show ?thesis using fold_at_rel [of "zip src dst" r "\<lambda>(s, d). kill_pair (s, d) e" m]
    by (simp add: RelDelete fold_map comp_def case_prod_unfold)
next
  case (RelUpdate r col src dst vals)
  let ?es = "List.enumerate 0 (zip src dst)"
  have "fold_opt (\<lambda>(i, s, d) o1. map_option (\<lambda>c. push_rel_update (s, d, col) (e, c) o1) (value_at vals i)) ?es o1 =
      Some (fold (\<lambda>(i, s, d). push_rel_update (s, d, col) (e, value_or_null vals i)) ?es o1)" for o1
    using assms by (intro fold_opt_Some) (auto simp: in_enumerate RelUpdate value_or_null)
  moreover have "?es \<noteq> []" using assms by (cases src; cases dst) (simp_all add: RelUpdate)
  ultimately show ?thesis
    using fold_at_rel [of ?es r "\<lambda>(i, s, d). push_rel_update (s, d, col) (e, value_or_null vals i)" m]
    by (simp add: RelUpdate at_rel_opt_def at_rel_const fold_map comp_def case_prod_unfold)
next
  case (LabelUpdate t offs add remove)
  then show ?thesis using assms fold_at_table [of offs t "\<lambda>off. push_label off (e, add, remove)" m] by (simp add: fold_map comp_def)
qed (use assms in simp_all)


subsection \<open>Runs of one kind\<close>

fun cell_fits :: "cell \<Rightarrow> bool" where
  "cell_fits (CStr s) \<longleftrightarrow> length s < 2 ^ 32"
| "cell_fits _ \<longleftrightarrow> True"

definition holds_run :: "wal_values \<Rightarrow> cell list \<Rightarrow> bool" where
  "holds_run vals cs \<longleftrightarrow> (\<forall>i < length cs. value_at vals i = Some (cs ! i)) \<and>
     (length cs < 2 ^ 32 \<and> list_all cell_fits cs \<longrightarrow> values_len vals = length cs \<and> values_fit vals)"

lemma int_cells: "\<forall>c \<in> set cells. kind_of c = KInt \<Longrightarrow> \<exists>v. map_opt int_of_cell cells = Some v \<and> cells = map CInt v"
proof (induction cells)
  case (Cons c cells) then show ?case by (cases c) force+
qed simp

lemma str_cells: "\<forall>c \<in> set cells. kind_of c = KStr \<Longrightarrow> \<exists>v. map_opt str_of_cell cells = Some v \<and> cells = map CStr v"
proof (induction cells)
  case (Cons c cells) then show ?case by (cases c) force+
qed simp

lemma cell_values_run:
  assumes "cells \<noteq> []" "\<forall>c \<in> set cells. kind_of c = k"
  shows "\<exists>vals. cell_values cells = Some (Inr vals) \<and> holds_run vals cells"
proof -
  have first: "(case cells of [] \<Rightarrow> KInt | c # _ \<Rightarrow> kind_of c) = k" "\<not> list_ex (\<lambda>c. kind_of c \<noteq> k) cells"
    using assms by (cases cells, auto simp: list_ex_iff)
  show ?thesis
  proof (cases k)
    case KInt
    then obtain v where "map_opt int_of_cell cells = Some v" "cells = map CInt v" using int_cells assms(2) by blast
    then show ?thesis using first KInt
      by (intro exI [of _ "WalInt v"]) (simp add: cell_values_def Let_def holds_run_def idx_def)
  next
    case KStr
    then obtain v where "map_opt str_of_cell cells = Some v" "cells = map CStr v" using str_cells assms(2) by blast
    then show ?thesis using first KStr
      by (intro exI [of _ "WalStr v"]) (simp add: cell_values_def Let_def holds_run_def idx_def list_all_iff)
  next
    case KNull
    then have "cells ! i = CNull" if "i < length cells" for i
      using assms(2) nth_mem [OF that] by (cases "cells ! i") force+
    then show ?thesis using first KNull
      by (intro exI [of _ "WalNull (word_of_nat (length cells))"]) (simp add: cell_values_def Let_def holds_run_def)
  qed
qed

lemma run_end_run:
  "stop \<le> length cells \<Longrightarrow> run_end cells k stop \<le> length cells \<and> (\<forall>i. stop \<le> i \<longrightarrow> i < run_end cells k stop \<longrightarrow> kind_of (cells ! i) = k)"
proof (induction cells k stop rule: run_end.induct)
  case (1 cells k stop)
  show ?case
  proof (cases "stop < length cells \<and> kind_of (cells ! stop) = k")
    case True
    then have "run_end cells k stop = run_end cells k (stop + 1)" by (subst run_end.simps) simp
    then show ?thesis using 1 True by (metis Suc_eq_plus1 Suc_leI le_neq_implies_less)
  next
    case False
    then have "run_end cells k stop = stop" by (subst run_end.simps) auto
    then show ?thesis using 1(2) by simp
  qed
qed

lemma kind_runs_ok:
  assumes mk: "\<And>a b vals. a < b \<Longrightarrow> b \<le> length cells \<Longrightarrow> holds_run vals (take (b - a) (drop a cells)) \<Longrightarrow>
      \<exists>rec. mk a b vals = Some rec \<and> P rec \<and> record_ops rec = map f [a..<b]"
  shows "at \<le> length cells \<Longrightarrow>
    \<exists>recs. kind_runs mk cells at = Some recs \<and> list_all P recs \<and> concat (map record_ops recs) = map f [at..<length cells]"
proof (induction "length cells - at" arbitrary: at rule: less_induct)
  case less
  show ?case
  proof (cases "at < length cells")
    case True
    let ?k = "kind_of (cells ! at)"
    let ?b = "run_end cells ?k (at + 1)"
    have b: "at < ?b" "?b \<le> length cells" "\<forall>i. at + 1 \<le> i \<longrightarrow> i < ?b \<longrightarrow> kind_of (cells ! i) = ?k"
      using run_end_ge [of "at + 1" cells ?k] run_end_run [of "at + 1" cells ?k] True by auto
    let ?run = "take (?b - at) (drop at cells)"
    have "kind_of c = ?k" if c: "c \<in> set ?run" for c
    proof -
      obtain i where "i < length ?run" "c = ?run ! i" using c by (auto simp: in_set_conv_nth)
      then show ?thesis using b by (cases i) auto
    qed
    moreover have "?run \<noteq> []" using b by simp
    ultimately obtain vals where vals: "cell_values ?run = Some (Inr vals)" "holds_run vals ?run"
      using cell_values_run by blast
    obtain rec where rec: "mk at ?b vals = Some rec" "P rec" "record_ops rec = map f [at..<?b]"
      using mk [OF b(1,2) vals(2)] by blast
    obtain recs where recs: "kind_runs mk cells ?b = Some recs" "list_all P recs" "concat (map record_ops recs) = map f [?b..<length cells]"
    proof -
      have "length cells - ?b < length cells - at" using b(1) True by (intro diff_less_mono2)
      then show thesis using less.hyps [of ?b] b(2) that by blast
    qed
    have "get_range cells at ?b = Some ?run" using b by (simp add: get_range_def)
    then have "kind_runs mk cells at = Some (rec # recs)"
      using True vals(1) rec(1) recs(1) by (subst kind_runs.simps) (simp add: Let_def)
    moreover have "[at..<length cells] = [at..<?b] @ [?b..<length cells]" using upt_add_eq_append [of at ?b "length cells - ?b"] b(1,2) by simp
    ultimately show ?thesis using rec recs by simp
  next
    case False then show ?thesis using less.prems by (simp add: kind_runs.simps)
  qed
qed


subsection \<open>What the lowering holds\<close>

text \<open>The operations of a lane, in order.\<close>

definition in_lane :: "op_lane \<Rightarrow> mv_op list \<Rightarrow> mv_op list" where
  "in_lane l ops = filter (\<lambda>op. lane_of op = l) ops"

lemma in_lane_append [simp]: "in_lane l (xs @ ys) = in_lane l xs @ in_lane l ys" "in_lane l [] = []"
  by (simp_all add: in_lane_def)

lemma in_lane_Cons [simp]: "in_lane l (x # xs) = (if lane_of x = l then x # in_lane l xs else in_lane l xs)"
  by (simp add: in_lane_def)

fun op_ok :: "mv_op \<Rightarrow> bool" where
  "op_ok (OpInsertNodes t cols rows) \<longleftrightarrow> list_all (\<lambda>c. values_len (wc_values c) = rows \<and> column_fits c) cols \<and>
     (cols = [] \<longrightarrow> rows = 0) \<and> length cols < 2 ^ 32"
| "op_ok (OpInsertRel r s d cols) \<longleftrightarrow> list_all (\<lambda>(_, c). cell_fits c) cols \<and> length cols < 2 ^ 32"
| "op_ok (OpUpdate t off col v) \<longleftrightarrow> cell_fits v"
| "op_ok (OpUpdateRel r s d col v) \<longleftrightarrow> cell_fits v"
| "op_ok (OpUpdateLabels t row add remove) \<longleftrightarrow> add AND remove = 0"
| "op_ok _ \<longleftrightarrow> True"

text \<open>A batch of the lowering holds the operations of its lane.\<close>

definition batch_of :: "('a \<Rightarrow> mv_op list) \<Rightarrow> ('a \<Rightarrow> bool) \<Rightarrow> mv_op list \<Rightarrow> 'a option \<Rightarrow> bool" where
  "batch_of f good ops b \<longleftrightarrow> (case b of None \<Rightarrow> ops = [] | Some x \<Rightarrow> good x \<and> ops \<noteq> [] \<and> ops = f x)"

lemma batch_snoc:
  assumes "batch_of f good ops b" "f d = []" "good d" "\<And>x. good x \<Longrightarrow> f (g x) = f x @ [op] \<and> good (g x)"
  shows "batch_of f good (ops @ [op]) (Some (g (case b of None \<Rightarrow> d | Some x \<Rightarrow> x)))"
  using assms by (cases b) (auto simp: batch_of_def)

fun update_ops :: "u32 \<times> u64 \<times> u32 \<Rightarrow> u64 list \<times> cell list \<Rightarrow> mv_op list" where
  "update_ops (t, g, c) (offs, cells) = map2 (\<lambda>off v. OpUpdate t off c v) offs cells"

fun edge_update_ops :: "u32 \<times> u32 \<Rightarrow> u64 list \<times> u64 list \<times> cell list \<Rightarrow> mv_op list" where
  "edge_update_ops (r, c) (ss, ds, cells) = map2 (\<lambda>(s, d) v. OpUpdateRel r s d c v) (zip ss ds) cells"

fun detach_ops :: "u32 \<Rightarrow> u64 list \<times> u64 list \<Rightarrow> mv_op list" where
  "detach_ops r (ss, ds) = map2 (OpDeleteRel r) ss ds"

fun label_ops :: "u32 \<times> u64 \<times> u64 \<times> u64 list \<Rightarrow> mv_op list" where
  "label_ops (t, add, remove, offs) = map (\<lambda>off. OpUpdateLabels t off add remove) offs"

definition logged :: "wal_record \<Rightarrow> bool" where
  "logged rec \<longleftrightarrow> lowered_record rec \<and> wal_fits rec \<and> plain rec"

fun even2 :: "'a list \<times> 'b list \<Rightarrow> bool" where
  "even2 (xs, ys) \<longleftrightarrow> length xs = length ys"

fun even3 :: "'a list \<times> 'b list \<times> 'c list \<Rightarrow> bool" where
  "even3 (xs, ys, zs) \<longleftrightarrow> length xs = length zs \<and> length ys = length zs"

definition lowers :: "mv_op list \<Rightarrow> lowering \<Rightarrow> bool" where
  "lowers ops lw \<longleftrightarrow>
     concat (map record_ops (lw_out lw)) = in_lane InsertLane ops \<and> list_all logged (lw_out lw) \<and>
     (\<forall>t g c. batch_of (update_ops (t, g, c)) even2 (in_lane (UpdateLane t g c) ops) (fmlookup (lw_updates lw) (t, g, c))) \<and>
     (\<forall>r c. batch_of (edge_update_ops (r, c)) even3 (in_lane (EdgeUpdateLane r c) ops) (fmlookup (lw_edge_updates lw) (r, c))) \<and>
     concat (map label_ops (lw_labels lw)) = in_lane LabelLane ops \<and> list_all (\<lambda>(_, _, _, offs). offs \<noteq> []) (lw_labels lw) \<and>
     (\<forall>t. batch_of (map (OpDelete t)) (\<lambda>_. True) (in_lane (DeleteLane t) ops) (fmlookup (lw_deletes lw) t)) \<and>
     (\<forall>r. batch_of (detach_ops r) even2 (in_lane (DetachLane r) ops) (fmlookup (lw_detaches lw) r))"

lemma lowers_nothing: "lowers [] nothing_lowered"
  by (simp add: lowers_def nothing_lowered_def batch_of_def)

lemma put_label_ops:
  assumes "list_all (\<lambda>(_, _, _, offs). offs \<noteq> []) labels"
  shows "concat (map label_ops (put_label t add remove row labels)) = concat (map label_ops labels) @ [OpUpdateLabels t row add remove] \<and>
    list_all (\<lambda>(_, _, _, offs). offs \<noteq> []) (put_label t add remove row labels)"
proof (cases labels rule: rev_cases)
  case (snoc before x)
  then show ?thesis using assms by (cases x) (auto simp: put_label_def)
qed (simp add: put_label_def)

lemma one_cell:
  "\<exists>vals. expect (cell_values [cell]) = Some vals \<and> value_at vals 0 = Some cell \<and> (cell_fits cell \<longrightarrow> values_len vals = 1 \<and> values_fit vals)"
  using cell_values_run [of "[cell]" "kind_of cell"] by (auto simp: holds_run_def)

lemma edge_columns:
  "list_all (\<lambda>(_, c). cell_fits c) cols \<Longrightarrow>
    \<exists>cs. map_opt (\<lambda>(col, cell). map_option (\<lambda>vals. \<lparr>wc_col = col, wc_values = vals\<rparr>) (expect (cell_values [cell]))) cols = Some cs \<and>
      map (\<lambda>c. (wc_col c, cell_at c 0)) cs = cols \<and> list_all (\<lambda>c. value_at (wc_values c) 0 \<noteq> None \<and> edge_column_fits 1 c) cs"
proof (induction cols)
  case (Cons x cols)
  obtain col cell where x: "x = (col, cell)" by (cases x) auto
  obtain vals where "expect (cell_values [cell]) = Some vals" "value_at vals 0 = Some cell" "values_len vals = 1" "values_fit vals"
    using one_cell [of cell] Cons.prems x by auto
  then show ?case using Cons x by (auto simp: cell_at_def edge_column_fits_def column_fits_def)
qed simp

lemma lower_op_ok:
  assumes "lowers ops lw" "op_ok op"
  shows "\<exists>lw1. lower_op op lw = Some lw1 \<and> lowers (ops @ [op]) lw1"
proof (cases op)
  case (OpInsertNodes t cols rows)
  then have "logged (NodeInsert t cols) \<and> record_ops (NodeInsert t cols) = [op]"
    using assms(2) by (cases cols) (auto simp: logged_def plain_def list_all_iff)
  then show ?thesis using assms(1) OpInsertNodes by (simp add: lowers_def)
next
  case (OpInsertRel r s d cols)
  then have "list_all (\<lambda>(_, c). cell_fits c) cols" using assms(2) by simp
  from edge_columns [OF this] obtain cs where cs:
    "map_opt (\<lambda>(col, cell). map_option (\<lambda>vals. \<lparr>wc_col = col, wc_values = vals\<rparr>) (expect (cell_values [cell]))) cols = Some cs"
    "map (\<lambda>c. (wc_col c, cell_at c 0)) cs = cols" "list_all (\<lambda>c. value_at (wc_values c) 0 \<noteq> None \<and> edge_column_fits 1 c) cs" by blast
  have "length cs = length cols" using cs(2) by (metis length_map)
  then have "logged (RelInsert r [s] [d] cs)" using cs(3) assms(2) OpInsertRel by (simp add: logged_def plain_def list_all_iff)
  moreover have "record_ops (RelInsert r [s] [d] cs) = [op]" using cs(2) OpInsertRel by simp
  ultimately show ?thesis using assms(1) OpInsertRel cs(1) by (simp add: lowers_def)
next
  case (OpUpdateLabels t row add remove)
  then show ?thesis using assms(1) put_label_ops [of "lw_labels lw" t add remove row] by (simp add: lowers_def)
next
  case (OpUpdate t off col v)
  let ?k = "(t, off div ucast GROUP_ROWS, col)" and ?g = "\<lambda>(offs, cells). (offs @ [off], cells @ [v])"
  have "batch_of (update_ops ?k) even2 (in_lane (UpdateLane t (off div ucast GROUP_ROWS) col) ops @ [op])
      (Some (?g (case fmlookup (lw_updates lw) ?k of None \<Rightarrow> ([], []) | Some x \<Rightarrow> x)))"
    using assms(1) by (intro batch_snoc) (auto simp: lowers_def OpUpdate)
  then show ?thesis using assms(1) unfolding OpUpdate lowers_def by simp
next
  case (OpUpdateRel r s d col v)
  let ?g = "\<lambda>(ss, ds, cells). (ss @ [s], ds @ [d], cells @ [v])"
  have "batch_of (edge_update_ops (r, col)) even3 (in_lane (EdgeUpdateLane r col) ops @ [op])
      (Some (?g (case fmlookup (lw_edge_updates lw) (r, col) of None \<Rightarrow> ([], [], []) | Some x \<Rightarrow> x)))"
    using assms(1) by (intro batch_snoc) (auto simp: lowers_def OpUpdateRel)
  then show ?thesis using assms(1) unfolding OpUpdateRel lowers_def by simp
next
  case (OpDelete t off)
  have "batch_of (map (OpDelete t)) (\<lambda>_. True) (in_lane (DeleteLane t) ops @ [op])
      (Some ((\<lambda>ids. ids @ [off]) (case fmlookup (lw_deletes lw) t of None \<Rightarrow> [] | Some x \<Rightarrow> x)))"
    using assms(1) by (intro batch_snoc) (auto simp: lowers_def OpDelete)
  then show ?thesis using assms(1) unfolding OpDelete lowers_def by simp
next
  case (OpDeleteRel r s d)
  let ?g = "\<lambda>(ss, ds). (ss @ [s], ds @ [d])"
  have "batch_of (detach_ops r) even2 (in_lane (DetachLane r) ops @ [op])
      (Some (?g (case fmlookup (lw_detaches lw) r of None \<Rightarrow> ([], []) | Some x \<Rightarrow> x)))"
    using assms(1) by (intro batch_snoc) (auto simp: lowers_def OpDeleteRel)
  then show ?thesis using assms(1) unfolding OpDeleteRel lowers_def by simp
qed

lemma lower_all:
  "list_all op_ok ops \<Longrightarrow> \<exists>lw. fold_opt lower_op ops nothing_lowered = Some lw \<and> lowers ops lw"
proof (induction ops rule: rev_induct)
  case (snoc op ops)
  then obtain lw where "fold_opt lower_op ops nothing_lowered = Some lw" "lowers ops lw" by auto
  then show ?case using lower_op_ok [of ops lw op] snoc.prems by (auto simp: fold_opt_append)
qed (simp add: lowers_nothing)


subsection \<open>The records\<close>

lemma sorted_list_keys [simp]: "map fst (sorted_list_of_fmap m) = sorted_list_of_fset (fmdom m)"
  by (simp add: sorted_list_of_fmap_def comp_def)

lemma distinct_keys: "distinct (map fst (sorted_list_of_fmap m))"
  by (simp add: sorted_list_of_fset.rep_eq)

lemma in_sorted_list: "(k, v) \<in> set (sorted_list_of_fmap m) \<longleftrightarrow> fmlookup m k = Some v"
  using map_of_eq_Some_iff [OF distinct_keys, of m k v] by simp

lemma keyed_lanes:
  assumes "distinct (map fst kvs)" "\<And>k v op. (k, v) \<in> set kvs \<Longrightarrow> op \<in> set (g k v) \<Longrightarrow> lane_of op = lane k" "inj lane"
  shows "in_lane (lane k) (concat (map (\<lambda>(k, v). g k v) kvs)) = (case map_of kvs k of None \<Rightarrow> [] | Some v \<Rightarrow> g k v)"
  using assms(1,2)
proof (induction kvs)
  case (Cons kv kvs)
  obtain j v where kv: "kv = (j, v)" by (cases kv) auto
  have all: "lane_of op = lane j" if "op \<in> set (g j v)" for op using Cons.prems(2) [of j v op] that kv by simp
  have "in_lane (lane k) (g j v) = (if k = j then g j v else [])"
    using all inj_eq [OF assms(3)] by (auto simp: in_lane_def filter_empty_conv filter_id_conv)
  moreover have "map_of kvs j = None" using Cons.prems(1) kv by (simp add: map_of_eq_None_iff)
  moreover have "in_lane (lane k) (concat (map (\<lambda>(k, v). g k v) kvs)) = (case map_of kvs k of None \<Rightarrow> [] | Some v \<Rightarrow> g k v)"
    by (rule Cons.IH) (use Cons.prems in auto)
  ultimately show ?case using kv by auto
qed simp

lemma other_lane: "(\<And>op. op \<in> set ops \<Longrightarrow> lane_of op \<noteq> l) \<Longrightarrow> in_lane l ops = []"
  by (simp add: in_lane_def filter_empty_conv)

lemma map_opt_runs:
  assumes "\<And>x. x \<in> set xs \<Longrightarrow> \<exists>recs. f x = Some recs \<and> list_all P recs \<and> concat (map record_ops recs) = g x"
  shows "\<exists>us. map_opt f xs = Some us \<and> list_all P (concat us) \<and> concat (map record_ops (concat us)) = concat (map g xs)"
  using assms
proof (induction xs)
  case (Cons x xs)
  obtain recs where "f x = Some recs" "list_all P recs" "concat (map record_ops recs) = g x" using Cons.prems [of x] by auto
  moreover obtain us where "map_opt f xs = Some us" "list_all P (concat us)" "concat (map record_ops (concat us)) = concat (map g xs)"
    using Cons by auto
  ultimately show ?case by auto
qed simp

lemma update_run:
  assumes "length offs = length cells" "length cells < 2 ^ 32" "list_all cell_fits cells"
  shows "\<exists>recs. lower_updates ((t, g, c), offs, cells) = Some recs \<and> list_all logged recs \<and>
    concat (map record_ops recs) = update_ops (t, g, c) (offs, cells)"
proof -
  let ?mk = "\<lambda>at stop vals. map_option (\<lambda>os. Update t g c os vals) (get_range offs at stop)"
  let ?f = "\<lambda>i. OpUpdate t (offs ! i) c (cells ! i)"
  have "\<exists>recs. kind_runs ?mk cells 0 = Some recs \<and> list_all logged recs \<and> concat (map record_ops recs) = map ?f [0..<length cells]"
  proof (rule kind_runs_ok)
    fix a b vals
    assume ab: "a < b" "b \<le> length cells" and run: "holds_run vals (take (b - a) (drop a cells))"
    let ?os = "take (b - a) (drop a offs)"
    have at: "value_at vals i = Some (cells ! (a + i))" if "i < b - a" for i using run ab that by (simp add: holds_run_def)
    have fits: "values_len vals = b - a" "values_fit vals"
      using run ab assms(2,3) by (auto simp: holds_run_def list_all_iff dest: in_set_takeD in_set_dropD)
    have "record_ops (Update t g c ?os vals) = map ?f [a..<b]"
      using ab assms(1) at by (intro nth_equalityI) (simp_all add: nth_enumerate_eq value_or_null_def)
    moreover have "logged (Update t g c ?os vals)"
      using ab assms(1,2) at fits by (simp add: logged_def plain_def)
    ultimately show "\<exists>rec. ?mk a b vals = Some rec \<and> logged rec \<and> record_ops rec = map ?f [a..<b]"
      using ab assms(1) by (simp add: get_range_def)
  qed simp
  moreover have "update_ops (t, g, c) (offs, cells) = map ?f [0..<length cells]"
    using assms(1) by (intro nth_equalityI) simp_all
  ultimately show ?thesis by simp
qed

lemma edge_update_run:
  assumes "length ss = length cells" "length ds = length cells" "length cells < 2 ^ 32" "list_all cell_fits cells"
  shows "\<exists>recs. lower_edge_updates ((r, c), ss, ds, cells) = Some recs \<and> list_all logged recs \<and>
    concat (map record_ops recs) = edge_update_ops (r, c) (ss, ds, cells)"
proof -
  let ?mk = "\<lambda>at stop vals. do { os \<leftarrow> get_range ss at stop; od \<leftarrow> get_range ds at stop; Some (RelUpdate r c os od vals) }"
  let ?f = "\<lambda>i. OpUpdateRel r (ss ! i) (ds ! i) c (cells ! i)"
  have "\<exists>recs. kind_runs ?mk cells 0 = Some recs \<and> list_all logged recs \<and> concat (map record_ops recs) = map ?f [0..<length cells]"
  proof (rule kind_runs_ok)
    fix a b vals
    assume ab: "a < b" "b \<le> length cells" and run: "holds_run vals (take (b - a) (drop a cells))"
    let ?os = "take (b - a) (drop a ss)" and ?od = "take (b - a) (drop a ds)"
    have at: "value_at vals i = Some (cells ! (a + i))" if "i < b - a" for i using run ab that by (simp add: holds_run_def)
    have fits: "values_len vals = b - a" "values_fit vals"
      using run ab assms(3,4) by (auto simp: holds_run_def list_all_iff dest: in_set_takeD in_set_dropD)
    have "record_ops (RelUpdate r c ?os ?od vals) = map ?f [a..<b]"
      using ab assms(1,2) at by (intro nth_equalityI) (simp_all add: nth_enumerate_eq value_or_null_def)
    moreover have "logged (RelUpdate r c ?os ?od vals)"
      using ab assms(1,2,3) at fits by (simp add: logged_def plain_def)
    ultimately show "\<exists>rec. ?mk a b vals = Some rec \<and> logged rec \<and> record_ops rec = map ?f [a..<b]"
      using ab assms(1,2) by (simp add: get_range_def)
  qed simp
  moreover have "edge_update_ops (r, c) (ss, ds, cells) = map ?f [0..<length cells]"
    using assms(1,2) by (intro nth_equalityI) simp_all
  ultimately show ?thesis by simp
qed



text \<open>What a batch knows of its operations.\<close>

lemma batch_in_lane:
  assumes "batch_of f good (in_lane l ops) (Some x)" "op \<in> set (f x)"
  shows "op \<in> set ops \<and> lane_of op = l"
proof -
  have "op \<in> set (in_lane l ops)" using assms by (simp add: batch_of_def)
  then show ?thesis by (simp add: in_lane_def)
qed

lemma batch_length:
  assumes "batch_of f good (in_lane l ops) (Some x)"
  shows "length (f x) \<le> length ops"
proof -
  have "length (in_lane l ops) \<le> length ops" by (simp add: in_lane_def)
  then show ?thesis using assms by (simp add: batch_of_def)
qed

lemma batch_lane:
  "batch_of f good (in_lane l ops) b \<Longrightarrow> in_lane l ops = (case b of None \<Rightarrow> [] | Some x \<Rightarrow> f x)"
  by (simp add: batch_of_def split: option.splits)

definition upd_lane :: "u32 \<times> u64 \<times> u32 \<Rightarrow> op_lane" where "upd_lane k = (case k of (t, g, c) \<Rightarrow> UpdateLane t g c)"
definition edge_upd_lane :: "u32 \<times> u32 \<Rightarrow> op_lane" where "edge_upd_lane k = (case k of (r, c) \<Rightarrow> EdgeUpdateLane r c)"

lemma lane_inj: "inj upd_lane" "inj edge_upd_lane" "inj DeleteLane" "inj DetachLane"
  by (auto simp: inj_def upd_lane_def edge_upd_lane_def)

lemma keyed_batches:
  assumes "\<And>k. batch_of (f k) good (in_lane (lane k) ops) (fmlookup m k)" "inj lane"
  shows "in_lane (lane k) (concat (map (\<lambda>(k, v). f k v) (sorted_list_of_fmap m))) = in_lane (lane k) ops"
    and "l \<notin> range lane \<Longrightarrow> in_lane l (concat (map (\<lambda>(k, v). f k v) (sorted_list_of_fmap m))) = []"
proof -
  have lanes: "lane_of op = lane k" if "(k, v) \<in> set (sorted_list_of_fmap m)" "op \<in> set (f k v)" for k v op
    using batch_in_lane [of "f k" good "lane k" ops v op] assms(1) [of k] that by (simp add: in_sorted_list)
  show "in_lane (lane k) (concat (map (\<lambda>(k, v). f k v) (sorted_list_of_fmap m))) = in_lane (lane k) ops"
    using keyed_lanes [OF distinct_keys lanes assms(2), where k = k] batch_lane [OF assms(1)] by simp
  show "in_lane l (concat (map (\<lambda>(k, v). f k v) (sorted_list_of_fmap m))) = []" if "l \<notin> range lane"
    using lanes that by (intro other_lane) fastforce
qed


text \<open>The records of a set of lanes hold the operations of those lanes and of no other.\<close>

definition records_of :: "op_lane set \<Rightarrow> mv_op list \<Rightarrow> wal_record list \<Rightarrow> bool" where
  "records_of L ops recs \<longleftrightarrow> list_all logged recs \<and>
     (\<forall>l. in_lane l (concat (map record_ops recs)) = (if l \<in> L then in_lane l ops else []))"

lemma records_append:
  "records_of L ops xs \<Longrightarrow> records_of M ops ys \<Longrightarrow> L \<inter> M = {} \<Longrightarrow> records_of (L \<union> M) ops (xs @ ys)"
  by (auto simp: records_of_def)

lemma one_lane: "in_lane l (in_lane k ops) = (if l \<in> {k} then in_lane l ops else [])"
  by (auto simp: in_lane_def filter_empty_conv)

lemma keyed_records:
  assumes "\<And>k. batch_of (f k) good (in_lane (lane k) ops) (fmlookup m k)" "inj lane" "list_all logged recs"
    "concat (map record_ops recs) = concat (map (\<lambda>(k, v). f k v) (sorted_list_of_fmap m))"
  shows "records_of (range lane) ops recs"
  unfolding records_of_def
proof (intro conjI allI)
  fix l show "in_lane l (concat (map record_ops recs)) = (if l \<in> range lane then in_lane l ops else [])"
    using keyed_batches(1) [OF assms(1,2)] keyed_batches(2) [OF assms(1,2), of l] by (auto simp: assms(4))
qed (rule assms(3))

lemma label_records:
  assumes "list_all (\<lambda>(_, _, _, offs). offs \<noteq> []) labels" "concat (map label_ops labels) = in_lane LabelLane ops"
    "list_all op_ok ops" "length ops < 2 ^ 32"
  shows "records_of {LabelLane} ops (map (\<lambda>(t, add, remove, offs). LabelUpdate t offs add remove) labels)"
proof -
  have "logged (LabelUpdate t offs add remove)" if l: "(t, add, remove, offs) \<in> set labels" for t add remove offs
  proof -
    have ne: "offs \<noteq> []" using assms(1) l by (auto simp: list_all_iff)
    have "OpUpdateLabels t (hd offs) add remove \<in> set (in_lane LabelLane ops)"
      unfolding assms(2) [symmetric] using l ne by force
    then have "op_ok (OpUpdateLabels t (hd offs) add remove)" using assms(3) unfolding list_all_iff in_lane_def set_filter by blast
    moreover have "length offs \<le> length (in_lane LabelLane ops)"
      unfolding assms(2) [symmetric] using member_le_sum_list [of "length (label_ops (t, add, remove, offs))" "map (length \<circ> label_ops) labels"] l
      by (force simp: length_concat)
    moreover have "length (in_lane LabelLane ops) \<le> length ops" by (simp add: in_lane_def)
    ultimately show ?thesis using ne assms(4) by (simp add: logged_def plain_def)
  qed
  moreover have "map record_ops (map (\<lambda>(t, add, remove, offs). LabelUpdate t offs add remove) labels) = map label_ops labels"
    by (auto simp: comp_def)
  ultimately show ?thesis
    unfolding records_of_def list_all_iff by (simp only: assms(2) one_lane) auto
qed

lemma update_records:
  assumes b: "\<And>k. batch_of (update_ops k) even2 (in_lane (upd_lane k) ops) (fmlookup m k)"
    and ops: "list_all op_ok ops" "length ops < 2 ^ 32"
  shows "\<exists>us. map_opt lower_updates (sorted_list_of_fmap m) = Some us \<and> records_of (range upd_lane) ops (concat us)"
proof -
  have "\<exists>recs. lower_updates x = Some recs \<and> list_all logged recs \<and> concat (map record_ops recs) = (\<lambda>(k, v). update_ops k v) x"
    if "x \<in> set (sorted_list_of_fmap m)" for x
  proof -
    obtain t g c offs cells where x: "x = ((t, g, c), offs, cells)" by (cases x) auto
    have b: "batch_of (update_ops (t, g, c)) even2 (in_lane (upd_lane (t, g, c)) ops) (Some (offs, cells))"
      using b [of "(t, g, c)"] that by (simp add: x in_sorted_list)
    have len: "length offs = length cells" using b by (simp add: batch_of_def)
    have "length cells < 2 ^ 32" using batch_length [OF b] len ops(2) by simp
    moreover have "list_all cell_fits cells"
      unfolding list_all_length
    proof (intro allI impI)
      fix i assume "i < length cells"
      then have "update_ops (t, g, c) (offs, cells) ! i = OpUpdate t (offs ! i) c (cells ! i)"
          "i < length (update_ops (t, g, c) (offs, cells))" using len by simp_all
      then have "OpUpdate t (offs ! i) c (cells ! i) \<in> set ops" using batch_in_lane [OF b] nth_mem by metis
      then show "cell_fits (cells ! i)" using ops(1) by (force simp: list_all_iff)
    qed
    ultimately show ?thesis using update_run [OF len, of t g c] x by simp
  qed
  from map_opt_runs [of "sorted_list_of_fmap m" lower_updates logged "\<lambda>(k, v). update_ops k v", OF this]
  show ?thesis using keyed_records [OF b lane_inj(1)] by blast
qed

lemma edge_update_records:
  assumes b: "\<And>k. batch_of (edge_update_ops k) even3 (in_lane (edge_upd_lane k) ops) (fmlookup m k)"
    and ops: "list_all op_ok ops" "length ops < 2 ^ 32"
  shows "\<exists>us. map_opt lower_edge_updates (sorted_list_of_fmap m) = Some us \<and> records_of (range edge_upd_lane) ops (concat us)"
proof -
  have "\<exists>recs. lower_edge_updates x = Some recs \<and> list_all logged recs \<and> concat (map record_ops recs) = (\<lambda>(k, v). edge_update_ops k v) x"
    if "x \<in> set (sorted_list_of_fmap m)" for x
  proof -
    obtain r c ss ds cells where x: "x = ((r, c), ss, ds, cells)" by (cases x) auto
    have b: "batch_of (edge_update_ops (r, c)) even3 (in_lane (edge_upd_lane (r, c)) ops) (Some (ss, ds, cells))"
      using b [of "(r, c)"] that by (simp add: x in_sorted_list)
    have len: "length ss = length cells" "length ds = length cells" using b by (simp_all add: batch_of_def)
    have "length cells < 2 ^ 32" using batch_length [OF b] len ops(2) by simp
    moreover have "list_all cell_fits cells"
      unfolding list_all_length
    proof (intro allI impI)
      fix i assume "i < length cells"
      then have "edge_update_ops (r, c) (ss, ds, cells) ! i = OpUpdateRel r (ss ! i) (ds ! i) c (cells ! i)"
          "i < length (edge_update_ops (r, c) (ss, ds, cells))" using len by simp_all
      then have "OpUpdateRel r (ss ! i) (ds ! i) c (cells ! i) \<in> set ops" using batch_in_lane [OF b] nth_mem by metis
      then show "cell_fits (cells ! i)" using ops(1) by (force simp: list_all_iff)
    qed
    ultimately show ?thesis using edge_update_run [OF len, of r c] x by simp
  qed
  from map_opt_runs [of "sorted_list_of_fmap m" lower_edge_updates logged "\<lambda>(k, v). edge_update_ops k v", OF this]
  show ?thesis using keyed_records [OF b lane_inj(2)] by blast
qed

lemma detach_records:
  assumes b: "\<And>r. batch_of (detach_ops r) even2 (in_lane (DetachLane r) ops) (fmlookup m r)" and len: "length ops < 2 ^ 32"
  shows "records_of (range DetachLane) ops (map (\<lambda>(r, src, dst). RelDelete r src dst) (sorted_list_of_fmap m))"
proof (rule keyed_records [OF b lane_inj(4)])
  have "logged (RelDelete r ss ds)" if "(r, ss, ds) \<in> set (sorted_list_of_fmap m)" for r ss ds
  proof -
    have b: "batch_of (detach_ops r) even2 (in_lane (DetachLane r) ops) (Some (ss, ds))" using b [of r] that by (simp add: in_sorted_list)
    then show ?thesis using batch_length [OF b] len by (auto simp: logged_def plain_def batch_of_def)
  qed
  then show "list_all logged (map (\<lambda>(r, src, dst). RelDelete r src dst) (sorted_list_of_fmap m))" by (auto simp: list_all_iff)
  show "concat (map record_ops (map (\<lambda>(r, src, dst). RelDelete r src dst) (sorted_list_of_fmap m))) =
      concat (map (\<lambda>(k, v). detach_ops k v) (sorted_list_of_fmap m))"
    by (auto simp: comp_def intro!: arg_cong [of _ _ concat])
qed

lemma delete_records:
  assumes b: "\<And>t. batch_of (map (OpDelete t)) (\<lambda>_. True) (in_lane (DeleteLane t) ops) (fmlookup m t)" and len: "length ops < 2 ^ 32"
  shows "records_of (range DeleteLane) ops (map (\<lambda>(t, ids). Delete t ids) (sorted_list_of_fmap m))"
proof (rule keyed_records [OF b lane_inj(3)])
  have "logged (Delete t ids)" if "(t, ids) \<in> set (sorted_list_of_fmap m)" for t ids
  proof -
    have b: "batch_of (map (OpDelete t)) (\<lambda>_. True) (in_lane (DeleteLane t) ops) (Some ids)" using b [of t] that by (simp add: in_sorted_list)
    then show ?thesis using batch_length [OF b] len by (auto simp: logged_def plain_def batch_of_def)
  qed
  then show "list_all logged (map (\<lambda>(t, ids). Delete t ids) (sorted_list_of_fmap m))" by (auto simp: list_all_iff)
  show "concat (map record_ops (map (\<lambda>(t, ids). Delete t ids) (sorted_list_of_fmap m))) =
      concat (map (\<lambda>(k, v). map (OpDelete k) v) (sorted_list_of_fmap m))"
    by (auto simp: comp_def intro!: arg_cong [of _ _ concat])
qed

lemma all_lanes: "{InsertLane} \<union> (range upd_lane \<union> (range edge_upd_lane \<union> ({LabelLane} \<union> (range DetachLane \<union> range DeleteLane)))) = UNIV"
proof -
  have "l \<in> {InsertLane} \<union> (range upd_lane \<union> (range edge_upd_lane \<union> ({LabelLane} \<union> (range DetachLane \<union> range DeleteLane))))" for l
    by (cases l) (auto simp: upd_lane_def edge_upd_lane_def image_def)
  then show ?thesis by blast
qed

lemma build_records_ok:
  assumes "list_all op_ok ops" "length ops < 2 ^ 32"
  shows "\<exists>recs. build_records ops = Some recs \<and> records_of UNIV ops recs"
proof -
  obtain lw where lw: "fold_opt lower_op ops nothing_lowered = Some lw" "lowers ops lw" using lower_all [OF assms(1)] by blast
  have "batch_of (update_ops k) even2 (in_lane (upd_lane k) ops) (fmlookup (lw_updates lw) k)" for k
    using lw(2) by (cases k) (simp add: lowers_def upd_lane_def)
  from update_records [OF this assms] obtain us where us: "map_opt lower_updates (sorted_list_of_fmap (lw_updates lw)) = Some us"
    "records_of (range upd_lane) ops (concat us)" by blast
  have "batch_of (edge_update_ops k) even3 (in_lane (edge_upd_lane k) ops) (fmlookup (lw_edge_updates lw) k)" for k
    using lw(2) by (cases k) (simp add: lowers_def edge_upd_lane_def)
  from edge_update_records [OF this assms] obtain es where es: "map_opt lower_edge_updates (sorted_list_of_fmap (lw_edge_updates lw)) = Some es"
    "records_of (range edge_upd_lane) ops (concat es)" by blast
  let ?ls = "map (\<lambda>(t, add, remove, offs). LabelUpdate t offs add remove) (lw_labels lw)"
  let ?rs = "map (\<lambda>(r, src, dst). RelDelete r src dst) (sorted_list_of_fmap (lw_detaches lw))"
  let ?ds = "map (\<lambda>(t, ids). Delete t ids) (sorted_list_of_fmap (lw_deletes lw))"
  have ls: "records_of {LabelLane} ops ?ls" using lw(2) assms by (intro label_records) (simp_all add: lowers_def)
  have rs: "records_of (range DetachLane) ops ?rs" using lw(2) assms(2) by (intro detach_records) (simp_all add: lowers_def)
  have ds: "records_of (range DeleteLane) ops ?ds" using lw(2) assms(2) by (intro delete_records) (simp_all add: lowers_def)
  have out: "records_of {InsertLane} ops (lw_out lw)" using lw(2) one_lane by (simp add: lowers_def records_of_def)
  have "records_of ({InsertLane} \<union> (range upd_lane \<union> (range edge_upd_lane \<union> ({LabelLane} \<union> (range DetachLane \<union> range DeleteLane))))) ops
      (lw_out lw @ concat us @ concat es @ ?ls @ ?rs @ ?ds)"
    by (intro records_append out us(2) es(2) ls rs ds) (auto simp: upd_lane_def edge_upd_lane_def)
  then show ?thesis using lw(1) us(1) es(1) unfolding all_lanes by (simp add: build_records_def)
qed


subsection \<open>One transaction\<close>

text \<open>The overlays of a store, without its epoch and what it hands to a reader.\<close>

definition core :: "mvcc \<Rightarrow> mvcc" where
  "core m = m\<lparr>mv_epoch := 0, mv_soft := True, mv_deferred := []\<rparr>"

lemma core_at [simp]:
  "core (at_table t f m) = at_table t f (core m)" "core (at_rel r g m) = at_rel r g (core m)"
  "core (m\<lparr>mv_epoch := e\<rparr>) = core m" "core (m\<lparr>mv_deferred := ds\<rparr>) = core m"
  by (simp_all add: core_def at_table_def at_rel_def)

lemma epoch_at [simp]: "mv_epoch (at_table t f m) = mv_epoch m" "mv_epoch (at_rel r g m) = mv_epoch m"
  by (simp_all add: at_table_def at_rel_def)

lemma core_publish [simp]: "core (publish_op e op m) = publish_op e op (core m)" "mv_epoch (publish_op e op m) = mv_epoch m"
  by (cases op; simp)+

lemma core_defer [simp]: "core (defer_op op m) = core m"
  by (simp add: core_def defer_op_def split: option.splits)

lemma core_fold_publish [simp]:
  "core (fold (publish_op e) ops m) = fold (publish_op e) ops (core m)" "mv_epoch (fold (publish_op e) ops m) = mv_epoch m"
  by (induction ops arbitrary: m) simp_all

lemma core_apply: "core (mv_apply e ops m) = fold (publish_op e) ops (core m)" "mv_epoch (mv_apply e ops m) = e"
proof -
  have "core (fold (\<lambda>op m. publish_op e op (defer_op op m)) ops m) = fold (publish_op e) ops (core m)" for m
    by (induction ops arbitrary: m) simp_all
  then show "core (mv_apply e ops m) = fold (publish_op e) ops (core m)" by (simp add: mv_apply_def)
qed (simp add: mv_apply_def)

text \<open>Replaying what the lowering logged publishes the operations.\<close>

lemma deliver_logged:
  "list_all logged recs \<Longrightarrow> \<exists>m1. deliver (recover_sink resolve) (map (Pair e) recs) (Some m) = (Inr (), Some m1) \<and>
    core m1 = fold (publish_op e) (concat (map record_ops recs)) (core m) \<and> mv_epoch m1 = (if recs = [] then mv_epoch m else max (mv_epoch m) e)"
proof (induction recs arbitrary: m)
  case (Cons rec recs)
  let ?m = "fold (publish_op e) (record_ops rec) (m\<lparr>mv_epoch := max (mv_epoch m) e\<rparr>)"
  have "lowered_record rec" using Cons.prems by (simp add: logged_def)
  from replay_record_ops [OF this] have "recover_sink resolve e rec (Some m) = (Inr (), Some ?m)" by (simp add: recover_sink_def)
  moreover obtain m1 where "deliver (recover_sink resolve) (map (Pair e) recs) (Some ?m) = (Inr (), Some m1)"
      "core m1 = fold (publish_op e) (concat (map record_ops recs)) (core ?m)" "mv_epoch m1 = (if recs = [] then mv_epoch ?m else max (mv_epoch ?m) e)"
    using Cons.IH [of ?m] Cons.prems by auto
  ultimately show ?case by auto
qed simp

lemma deliver_txn:
  assumes "records_of UNIV ops recs"
  shows "\<exists>m1. deliver (recover_sink resolve) (entries (e, recs)) (Some m) = (Inr (), Some m1) \<and>
    core m1 = fold (publish_op e) ops (core m) \<and> mv_epoch m1 = max (mv_epoch m) e"
proof -
  let ?m = "m\<lparr>mv_epoch := max (mv_epoch m) e\<rparr>"
  have "list_all logged recs" using assms by (simp add: records_of_def)
  from deliver_logged [OF this, of resolve e ?m] obtain m1 where m1:
    "deliver (recover_sink resolve) (map (Pair e) recs) (Some ?m) = (Inr (), Some m1)"
    "core m1 = fold (publish_op e) (concat (map record_ops recs)) (core m)" "mv_epoch m1 = max (mv_epoch m) e" by auto
  have "fold (publish_op e) (concat (map record_ops recs)) (core m) = fold (publish_op e) ops (core m)"
    using assms by (intro publishing.same_lanes) (simp add: records_of_def in_lane_def)
  moreover have keep: "m1\<lparr>mv_epoch := max (mv_epoch m1) e\<rparr> = m1"
    by (rule mvcc.equality) (simp_all add: m1(3))
  have "deliver (recover_sink resolve) (map (Pair e) recs @ [(e, TxnCommit)]) (Some ?m) = (Inr (), Some m1)"
    unfolding deliver_append m1(1) by (simp add: recover_sink_def keep)
  ultimately show ?thesis using m1(2,3) by (simp add: entries_def recover_sink_def)
qed

subsection \<open>A run of commits\<close>

definition live_commit :: "mv_op list \<Rightarrow> mvcc \<Rightarrow> mvcc" where
  "live_commit ops m = mv_apply (mv_epoch m + 1) ops m"

text \<open>The transactions a run of commits logs, the first at the epoch after \<open>e\<close>.\<close>

fun txns_of :: "u64 \<Rightarrow> mv_op list list \<Rightarrow> txn list option" where
  "txns_of e [] = Some []"
| "txns_of e (ops # rest) = do { recs \<leftarrow> build_records ops; txns \<leftarrow> txns_of (e + 1) rest; Some ((e + 1, recs) # txns) }"

definition same_store :: "mvcc \<Rightarrow> mvcc \<Rightarrow> bool" where
  "same_store m n \<longleftrightarrow> mv_epoch m = mv_epoch n \<and> mv_tables m = mv_tables n \<and> mv_rels m = mv_rels n \<and> mv_ingests m = mv_ingests n"

lemma same_store_core: "same_store m n \<longleftrightarrow> mv_epoch m = mv_epoch n \<and> core m = core n"
  by (auto simp: same_store_def core_def intro!: mvcc.equality dest: arg_cong [of _ _ mv_tables] arg_cong [of _ _ mv_rels] arg_cong [of _ _ mv_ingests])

text \<open>A batch the log can hold: nonempty, with fields in range.\<close>

definition batch_ok :: "mv_op list \<Rightarrow> bool" where
  "batch_ok ops \<longleftrightarrow> ops \<noteq> [] \<and> list_all op_ok ops \<and> length ops < 2 ^ 32"

lemma deliver_run:
  assumes "list_all batch_ok opss" "txns_of (mv_epoch m) opss = Some txns" "unat (mv_epoch m) + length opss < 2 ^ 64" "same_store m n"
  shows "\<exists>n1. deliver (recover_sink resolve) (concat (map entries txns)) (Some n) = (Inr (), Some n1) \<and> same_store (fold live_commit opss m) n1 \<and>
    (\<forall>t \<in> set txns. mv_epoch m < fst t)"
  using assms
proof (induction opss arbitrary: m n txns)
  case (Cons ops opss)
  let ?e = "mv_epoch m + 1"
  obtain recs rest where r: "build_records ops = Some recs" "txns_of ?e opss = Some rest" "txns = (?e, recs) # rest"
    using Cons.prems(2) by (auto split: bind_splits)
  have up: "unat ?e = unat (mv_epoch m) + 1" using Cons.prems(3) by (simp add: unat_word_ariths)
  then have lt: "mv_epoch m < ?e" by (simp add: word_less_nat_alt)
  have "records_of UNIV ops recs" using build_records_ok [of ops] r(1) Cons.prems(1) by (simp add: batch_ok_def)
  from deliver_txn [OF this, of resolve ?e n] obtain n1 where n1: "deliver (recover_sink resolve) (entries (?e, recs)) (Some n) = (Inr (), Some n1)"
    "core n1 = fold (publish_op ?e) ops (core n)" "mv_epoch n1 = max (mv_epoch n) ?e" by blast
  have same: "same_store (live_commit ops m) n1"
    using Cons.prems(4) n1(2,3) lt by (simp add: same_store_core live_commit_def core_apply max_def)
  have "mv_epoch (live_commit ops m) = ?e" by (simp add: live_commit_def core_apply)
  then obtain n2 where n2: "deliver (recover_sink resolve) (concat (map entries rest)) (Some n1) = (Inr (), Some n2)"
      "same_store (fold live_commit opss (live_commit ops m)) n2" "\<forall>t \<in> set rest. ?e < fst t"
    using Cons.IH [of "live_commit ops m" rest n1] Cons.prems(1,3) r(2) up same by auto
  then show ?case using n1(1) r(3) lt by (auto simp: deliver_append)
qed (auto simp: same_store_def)



subsection \<open>A run of commits, the log and a crash\<close>

definition run_fits :: "u64 \<Rightarrow> mv_op list list \<Rightarrow> bool" where
  "run_fits e opss \<longleftrightarrow> list_all batch_ok opss \<and> unat e + length opss < 2 ^ 64 \<and>
     (\<forall>txns. txns_of e opss = Some txns \<longrightarrow> (\<forall>t \<in> set txns. \<forall>rec \<in> set (snd t). length (record_body (fst t) rec) < 2 ^ 32))"

lemma txns_of_length: "txns_of e opss = Some txns \<Longrightarrow> length txns = length opss"
  by (induction e opss arbitrary: txns rule: txns_of.induct) (auto split: bind_splits)

lemma txns_of_total: "list_all batch_ok opss \<Longrightarrow> \<exists>txns. txns_of e opss = Some txns"
proof (induction opss arbitrary: e)
  case (Cons ops opss)
  have "\<exists>recs. build_records ops = Some recs" using build_records_ok [of ops] Cons.prems by (auto simp: batch_ok_def)
  then show ?case using Cons.IH [of "e + 1"] Cons.prems by auto
qed simp

lemma txns_of_take: "txns_of e opss = Some txns \<Longrightarrow> txns_of e (take k opss) = Some (take k txns)"
  by (induction e opss arbitrary: txns k rule: txns_of.induct) (auto simp: take_Cons split: bind_splits nat.splits)

lemma txns_logged:
  "list_all batch_ok opss \<Longrightarrow> txns_of e opss = Some txns \<Longrightarrow> t \<in> set txns \<Longrightarrow> list_all logged (snd t)"
proof (induction opss arbitrary: e txns)
  case (Cons ops opss)
  then show ?case using build_records_ok [of ops] by (auto simp: batch_ok_def records_of_def split: bind_splits)
qed simp

lemma min_record: "MIN_BODY \<le> length (record_body e rec)"
  by (simp add: record_body_def MIN_BODY_def)

lemma txns_ok:
  assumes "run_fits e opss" "txns_of e opss = Some txns"
  shows "list_all txn_ok txns"
  unfolding list_all_iff txn_ok_def
proof (intro ballI)
  fix t rec assume t: "t \<in> set txns" "rec \<in> set (snd t)"
  have "logged rec" using txns_logged [of opss e txns t] assms t by (auto simp: run_fits_def list_all_iff)
  then show "plain rec \<and> wal_fits rec \<and> body_ok (record_body (fst t) rec)"
    using assms t min_record by (auto simp: logged_def body_ok_def run_fits_def)
qed

lemma append_all_ok:
  "holds crc bs w \<Longrightarrow> list_all (\<lambda>rec. body_ok (record_body e rec)) recs \<Longrightarrow> log_runs crc w0 cs w \<Longrightarrow>
    \<exists>w1. append_all crc e recs w = (Inr (), w1) \<and> holds crc (bs @ map (record_body e) recs) w1 \<and> log_runs crc w0 (cs @ map (record_body e) recs) w1"
proof (induction recs arbitrary: bs cs w)
  case (Cons rec recs)
  obtain w1 where w1: "wal_append crc e rec w = (Inr (), w1)" "holds crc (bs @ [record_body e rec]) w1"
    using append_ok [OF Cons.prems(1)] Cons.prems(2) by fastforce
  have "log_runs crc w0 (cs @ [record_body e rec]) w1" using log_runs.append [OF Cons.prems(3) w1(1)] Cons.prems(2) by simp
  from Cons.IH [OF w1(2) _ this] Cons.prems(2) w1(1) show ?case by (auto simp: w_bind_def)
qed auto

lemma stage_txn:
  assumes ok: "wal_ok crc (log_of txns) [] w" and ops: "batch_ok ops" "build_records ops = Some recs" and e: "e = mv_epoch m + 1" "mv_epoch m \<noteq> - 1"
    and fits: "list_all (\<lambda>rec. length (record_body e rec) < 2 ^ 32) recs"
  shows "\<exists>w1. txn_stage_commit crc ops w m = Some (Inr (e, Some (wl_len w1)), w1, live_commit ops m) \<and>
    wal_ok crc (log_of (txns @ [(e, recs)])) [] w1 \<and> log_runs crc w (txn_bodies (e, recs)) w1"
proof -
  have h: "holds crc (log_of txns) w" using holdsI [OF ok] by simp
  obtain w1 where w1: "wal_append crc e TxnBegin w = (Inr (), w1)" "holds crc (log_of txns @ [record_body e TxnBegin]) w1"
    using append_ok [OF h commit_body(2)] by blast
  have run1: "log_runs crc w [record_body e TxnBegin] w1"
    using log_runs.append [OF log_runs.start w1(1) commit_body(2)] by simp
  have "list_all (\<lambda>rec. body_ok (record_body e rec)) recs" using fits min_record by (auto simp: list_all_iff body_ok_def)
  from append_all_ok [OF w1(2) this run1] obtain w2 where w2: "append_all crc e recs w1 = (Inr (), w2)"
      "holds crc ((log_of txns @ [record_body e TxnBegin]) @ map (record_body e) recs) w2"
      "log_runs crc w ([record_body e TxnBegin] @ map (record_body e) recs) w2" by blast
  obtain w3 where w3: "stage_commit crc e w2 = (Inr (wl_len w3), w3)"
      "wal_ok crc (((log_of txns @ [record_body e TxnBegin]) @ map (record_body e) recs) @ [record_body e TxnCommit]) [] w3"
    using stage_commit_ok [OF w2(2)] by blast
  have b: "txn_bodies (e, recs) = ([record_body e TxnBegin] @ map (record_body e) recs) @ [record_body e TxnCommit]"
    by (simp add: txn_bodies_def entries_def)
  have "txn_stage_commit crc ops w m = Some (Inr (e, Some (wl_len w3)), w3, live_commit ops m)"
    using ops w1(1) w2(1) w3(1) by (simp add: txn_stage_commit_def batch_ok_def e(2) e(1) [symmetric] w_bind_def live_commit_def)
  moreover have "log_of (txns @ [(e, recs)]) = ((log_of txns @ [record_body e TxnBegin]) @ map (record_body e) recs) @ [record_body e TxnCommit]"
    using b by (simp add: log_of_def)
  moreover have "log_runs crc w (txn_bodies (e, recs)) w3" unfolding b by (rule log_runs.stage [OF w2(3) w3(1)])
  ultimately show ?thesis using w3(2) by auto
qed

text \<open>Commits staged one after the other; \<open>None\<close> when one of them fails.\<close>

fun stage_all :: "(u8 list \<Rightarrow> u32) \<Rightarrow> mv_op list list \<Rightarrow> wal \<Rightarrow> mvcc \<Rightarrow> (wal \<times> mvcc) option" where
  "stage_all crc [] w m = Some (w, m)"
| "stage_all crc (ops # rest) w m =
     (case txn_stage_commit crc ops w m of
        Some (Inr _, w1, m1) \<Rightarrow> stage_all crc rest w1 m1
      | _ \<Rightarrow> None)"

lemma next_epoch: "unat e + Suc n < 2 ^ 64 \<Longrightarrow> e \<noteq> - 1 \<and> unat (e + 1) + n < 2 ^ 64" for e :: u64
  by (cases "e = - 1") (auto simp: unat_plus_if' unsigned_minus_1_eq_mask mask_eq_exp_minus_1)

lemma stage_run:
  "wal_ok crc (log_of done1) [] w \<Longrightarrow> list_all batch_ok opss \<Longrightarrow> txns_of (mv_epoch m) opss = Some txns \<Longrightarrow>
    unat (mv_epoch m) + length opss < 2 ^ 64 \<Longrightarrow>
    (\<forall>t \<in> set txns. \<forall>rec \<in> set (snd t). length (record_body (fst t) rec) < 2 ^ 32) \<Longrightarrow>
    \<exists>w1. stage_all crc opss w m = Some (w1, fold live_commit opss m) \<and> wal_ok crc (log_of (done1 @ txns)) [] w1"
proof (induction opss arbitrary: done1 w m txns)
  case (Cons ops opss)
  let ?e = "mv_epoch m + 1"
  obtain recs rest where r: "build_records ops = Some recs" "txns_of ?e opss = Some rest" "txns = (?e, recs) # rest"
    using Cons.prems(3) by (auto split: bind_splits)
  have fits: "list_all (\<lambda>rec. length (record_body ?e rec) < 2 ^ 32) recs" using Cons.prems(5) r(3) by (simp add: list_all_iff)
  have last: "mv_epoch m \<noteq> - 1" "unat ?e + length opss < 2 ^ 64" using Cons.prems(4) next_epoch [of "mv_epoch m" "length opss"] by auto
  from stage_txn [OF Cons.prems(1) _ r(1) refl last(1) fits] Cons.prems(2) obtain w1 where w1:
    "txn_stage_commit crc ops w m = Some (Inr (?e, Some (wl_len w1)), w1, live_commit ops m)"
    "wal_ok crc (log_of (done1 @ [(?e, recs)])) [] w1" by auto
  have "mv_epoch (live_commit ops m) = ?e" by (simp add: live_commit_def core_apply)
  then show ?case using Cons.IH [OF w1(2), of "live_commit ops m" rest] Cons.prems(2,5) last(2) r(2,3) w1(1) by simp
qed auto

lemma committed_all: "(\<forall>t \<in> set txns. low < fst t) \<Longrightarrow> committed_above low txns = concat (map entries txns)"
  by (simp add: committed_above_def filter_id_conv)

lemma recover_prefix:
  assumes fits: "run_fits low opss" "txns_of low opss = Some txns"
    and replay: "\<And>s. replay_log crc low (recover_sink resolve) s w = deliver (recover_sink resolve) (committed_above low (take k txns)) s"
  shows "\<exists>m. recover_with crc resolve low w = Some (Inr m) \<and> same_store (fold live_commit (take k opss) (mvcc_new low)) m"
proof -
  have "list_all batch_ok (take k opss)" "unat low + length (take k opss) < 2 ^ 64"
    using fits(1) by (auto simp: run_fits_def list_all_iff dest: in_set_takeD)
  then obtain m where m: "deliver (recover_sink resolve) (concat (map entries (take k txns))) (Some (mvcc_new low)) = (Inr (), Some m)"
      "same_store (fold live_commit (take k opss) (mvcc_new low)) m" "\<forall>t \<in> set (take k txns). low < fst t"
    using deliver_run [of "take k opss" "mvcc_new low" "take k txns" "mvcc_new low" resolve] txns_of_take [OF fits(2)]
    by (auto simp: mvcc_new_def same_store_def)
  then show ?thesis using committed_all [OF m(3)] by (simp add: recover_with_def replay)
qed

text \<open>What a run of commits logs rebuilds the store the run left.\<close>

lemma recover_run:
  assumes "run_fits low opss" "wal_ok crc [] [] w"
  shows "\<exists>w1 m. stage_all crc opss w (mvcc_new low) = Some (w1, fold live_commit opss (mvcc_new low)) \<and>
    recover_with crc resolve low w1 = Some (Inr m) \<and> same_store (fold live_commit opss (mvcc_new low)) m"
proof -
  obtain txns where t: "txns_of low opss = Some txns" using assms(1) txns_of_total unfolding run_fits_def by blast
  have e: "mv_epoch (mvcc_new low) = low" by (simp add: mvcc_new_def)
  obtain w1 where w1: "stage_all crc opss w (mvcc_new low) = Some (w1, fold live_commit opss (mvcc_new low))" "wal_ok crc (log_of txns) [] w1"
    using stage_run [of crc "[]" w opss "mvcc_new low" txns] assms t e by (auto simp: log_of_def run_fits_def)
  have "replay_log crc low (recover_sink resolve) s w1 = deliver (recover_sink resolve) (committed_above low (take (length opss) txns)) s" for s
    using replay_whole [OF txns_ok [OF assms(1) t] w1(2)] txns_of_length [OF t] by simp
  from recover_prefix [OF assms(1) t this] show ?thesis using w1(1) by simp
qed

text \<open>A crash while commits are being written leaves those before it and a prefix of them.\<close>

lemma crash_run:
  assumes fits: "run_fits low (olds @ news)" "txns_of low (olds @ news) = Some txns"
    and synced: "wal_ok crc (log_of (take (length olds) txns)) [] w"
    and run: "log_runs crc w (take i (log_of (drop (length olds) txns))) w1"
    and crash: "crash (drop (length (di_log (wl_disk w))) (di_log (wl_disk w1))) (di_image (wl_disk w)) (di_image d)"
    and told: "tear_told crc (di_image (wl_disk w1)) (di_image d) (wl_len w) (take i (log_of (drop (length olds) txns)))"
    and d: "di_writable d"
  shows "\<exists>w2 m k. open_on crc d = Inr w2 \<and> k \<le> length news \<and> recover_with crc resolve low w2 = Some (Inr m) \<and>
    same_store (fold live_commit (olds @ take k news) (mvcc_new low)) m"
proof -
  note ok = txns_ok [OF fits]
  have "list_all txn_ok (take (length olds) txns)" "list_all txn_ok (drop (length olds) txns)"
    using ok by (auto simp: list_all_iff dest: in_set_takeD in_set_dropD)
  from log_crash [OF synced this run crash told d] obtain w2 k where w2: "open_on crc d = Inr w2" "k \<le> length (drop (length olds) txns)"
    "\<And>low sink s. replay_log crc low sink s w2 = deliver sink (committed_above low (take (length olds) txns @ take k (drop (length olds) txns))) (s :: mvcc option)"
    by blast
  have "take (length olds) txns @ take k (drop (length olds) txns) = take (length olds + k) txns" by (simp add: take_add)
  then have "replay_log crc low (recover_sink resolve) s w2 = deliver (recover_sink resolve) (committed_above low (take (length olds + k) txns)) s" for s
    using w2(3) by simp
  from recover_prefix [OF fits this] show ?thesis using w2(1,2) txns_of_length [OF fits(2)] by auto
qed

end
