(* ===== verification/MvccReads.thy ===== *)
theory MvccReads
  imports MvccRecovery
begin

text \<open>
  What a reader is answered. A snapshot does not move: no later commit changes an answer at an
  earlier epoch. And an answer is the one the history of committed operations gives: the last
  value written, the rows in the order they were appended, the edges no delete took away, the
  label changes composed.
\<close>

subsection \<open>Stores that agree up to an epoch\<close>

definition chain_at :: "('k, 'v list) fmap \<Rightarrow> 'k \<Rightarrow> 'v list" where
  "chain_at m k = (case fmlookup m k of None \<Rightarrow> [] | Some c \<Rightarrow> c)"

definition seen :: "u64 \<Rightarrow> (u64 \<times> 'v) list \<Rightarrow> (u64 \<times> 'v) list" where
  "seen E chain = filter (\<lambda>(e, _). e \<le> E) chain"

definition buried :: "u64 \<Rightarrow> table_overlay \<Rightarrow> u64 \<Rightarrow> bool" where
  "buried E o1 off \<longleftrightarrow> (case fmlookup (to_tombstones o1) off of None \<Rightarrow> False | Some e \<Rightarrow> e \<le> E)"

definition table_agrees :: "u64 \<Rightarrow> table_overlay \<Rightarrow> table_overlay \<Rightarrow> bool" where
  "table_agrees E a b \<longleftrightarrow>
     filter (\<lambda>x. ab_epoch x \<le> E) (to_appended a) = filter (\<lambda>x. ab_epoch x \<le> E) (to_appended b) \<and>
     (\<forall>off. buried E a off \<longleftrightarrow> buried E b off) \<and>
     (\<forall>k. seen E (chain_at (to_updates a) k) = seen E (chain_at (to_updates b) k)) \<and>
     (\<forall>row. seen E (chain_at (to_labels a) row) = seen E (chain_at (to_labels b) row))"

definition dead_by :: "u64 \<Rightarrow> u64 list \<Rightarrow> bool" where
  "dead_by E stamps \<longleftrightarrow> stamps \<noteq> [] \<and> hd stamps \<le> E"

definition rel_agrees :: "u64 \<Rightarrow> rel_overlay \<Rightarrow> rel_overlay \<Rightarrow> bool" where
  "rel_agrees E a b \<longleftrightarrow>
     filter (\<lambda>x. oe_epoch x \<le> E) (ro_edges a) = filter (\<lambda>x. oe_epoch x \<le> E) (ro_edges b) \<and>
     (\<forall>p. dead_by E (chain_at (ro_dead a) p) \<longleftrightarrow> dead_by E (chain_at (ro_dead b) p)) \<and>
     (\<forall>p. filter (\<lambda>e. e \<le> E) (chain_at (ro_dead a) p) = filter (\<lambda>e. e \<le> E) (chain_at (ro_dead b) p)) \<and>
     (\<forall>k. seen E (chain_at (ro_updates a) k) = seen E (chain_at (ro_updates b) k))"

definition agrees :: "u64 \<Rightarrow> mvcc \<Rightarrow> mvcc \<Rightarrow> bool" where
  "agrees E m n \<longleftrightarrow> (\<forall>t. table_agrees E (table_of m t) (table_of n t)) \<and> (\<forall>r. rel_agrees E (rel_of m r) (rel_of n r))"

lemma agrees_refl [simp]: "agrees E m m" "table_agrees E a a" "rel_agrees E b b"
  by (simp_all add: agrees_def table_agrees_def rel_agrees_def)

lemma agrees_trans: "agrees E m n \<Longrightarrow> agrees E n k \<Longrightarrow> agrees E m k"
  by (simp add: agrees_def table_agrees_def rel_agrees_def)

lemma agrees_core: "agrees E (core m) (core n) \<longleftrightarrow> agrees E m n"
  by (simp add: agrees_def core_def table_of_def rel_of_def)

lemma chain_at_entry [simp]: "chain_at (at_entry [] k f m) j = (if j = k then f (chain_at m j) else chain_at m j)"
  by (simp add: chain_at_def)

lemma table_of_at [simp]: "table_of (at_table t f m) u = (if u = t then f (table_of m u) else table_of m u)" "table_of (at_rel r g m) u = table_of m u"
  by (simp_all add: table_of_def at_table_def at_rel_def)

lemma rel_of_at [simp]: "rel_of (at_rel t f m) u = (if u = t then f (rel_of m u) else rel_of m u)" "rel_of (at_table r g m) u = rel_of m u"
  by (simp_all add: rel_of_def at_table_def at_rel_def)

text \<open>A later change is not seen.\<close>

lemma publish_agrees:
  assumes "E < e"
  shows "agrees E m (publish_op e op m)"
proof (cases op)
  case (OpInsertNodes t cols rows)
  then show ?thesis using assms by (auto simp: agrees_def table_agrees_def push_batch_def buried_def)
next
  case (OpInsertRel r s d cols)
  then show ?thesis using assms by (auto simp: agrees_def rel_agrees_def push_edge_def)
next
  case (OpUpdate t off c v)
  then show ?thesis using assms by (auto simp: agrees_def table_agrees_def push_update_def buried_def seen_def)
next
  case (OpDelete t off)
  then show ?thesis using assms by (auto simp: agrees_def table_agrees_def bury_def buried_def or_insert_def split: option.splits)
next
  case (OpDeleteRel r s d)
  then show ?thesis using assms
    by (auto simp: agrees_def rel_agrees_def kill_pair_def stamp_def dead_by_def hd_append)
next
  case (OpUpdateRel r s d c v)
  then show ?thesis using assms by (auto simp: agrees_def rel_agrees_def push_rel_update_def seen_def)
next
  case (OpUpdateLabels t row add remove)
  then show ?thesis using assms by (auto simp: agrees_def table_agrees_def push_label_def buried_def seen_def)
qed

lemma fold_publish_agrees: "E < e \<Longrightarrow> agrees E m (fold (publish_op e) ops m)"
  by (induction ops arbitrary: m) (auto intro: agrees_trans publish_agrees)

lemma commit_agrees:
  assumes "E \<le> mv_epoch m" "unat (mv_epoch m) + 1 < 2 ^ 64"
  shows "agrees E m (live_commit ops m)"
proof -
  have "mv_epoch m < mv_epoch m + 1" using assms(2) by (simp add: word_less_nat_alt unat_word_ariths)
  then have "agrees E (core m) (core (live_commit ops m))"
    using assms(1) by (simp add: live_commit_def core_apply fold_publish_agrees)
  then show ?thesis by (simp add: agrees_core)
qed

subsection \<open>The answers depend on what is seen\<close>

lemma newest_seen: "newest E chain = (if seen E chain = [] then None else Some (snd (last (seen E chain))))"
proof (induction chain rule: rev_induct)
  case (snoc x xs) then show ?case by (cases x) (auto simp: newest_def seen_def)
qed (simp add: newest_def seen_def)

lemma newest_cong: "seen E c1 = seen E c2 \<Longrightarrow> newest E c1 = newest E c2"
  by (simp add: newest_seen)

lemma newest_Nil [simp]: "newest E [] = None"
  by (simp add: newest_def)

lemma bind_chain: "f [] = None \<Longrightarrow> Option.bind (fmlookup m k) f = f (chain_at m k)"
  by (simp add: chain_at_def split: option.splits)

lemma batch_cell_seen: "batch_cell bs at off col E = batch_cell (filter (\<lambda>b. ab_epoch b \<le> E) bs) at off col E"
  by (induction bs arbitrary: at) auto

lemma cell_view:
  "mv_cell m t base off col E =
     (let o1 = table_of m t in
      case newest E (chain_at (to_updates o1) (off, col)) of
        Some c \<Rightarrow> Some (Some c)
      | None \<Rightarrow> if unat off < base then Some None else batch_cell (filter (\<lambda>b. ab_epoch b \<le> E) (to_appended o1)) base (unat off) col E)"
  using batch_cell_seen [of _ base "unat off" col E]
  by (auto simp: mv_cell_def table_of_def no_table_def chain_at_def Let_def split: option.splits)

lemma deleted_view: "is_deleted m t off E = buried E (table_of m t) off"
  by (simp add: is_deleted_def buried_def table_of_def no_table_def split: option.splits)

lemma rows_view: "appended_rows m t E = sum_list (map ab_rows (filter (\<lambda>b. ab_epoch b \<le> E) (to_appended (table_of m t))))"
  by (simp add: appended_rows_def table_of_def no_table_def split: option.splits)

lemma gone_view: "edge_gone m r s d since E = list_ex (\<lambda>e. since \<le> e) (filter (\<lambda>e. e \<le> E) (chain_at (ro_dead (rel_of m r)) (s, d)))"
  by (auto simp: edge_gone_def rel_of_def no_rel_def chain_at_def list_ex_iff split: option.splits)

lemma edges_view:
  "edge_cells m r E = map (\<lambda>e. (oe_src e, oe_dst e, oe_cols e))
     (filter (\<lambda>e. \<not> edge_gone m r (oe_src e) (oe_dst e) (oe_epoch e) E) (filter (\<lambda>e. oe_epoch e \<le> E) (ro_edges (rel_of m r))))"
  by (simp add: edge_cells_def rel_of_def no_rel_def conj_commute split: option.splits)

lemma push_neighbors_eq:
  "push_neighbors m r node reversed E es out = out @
     map (\<lambda>e. if reversed then oe_src e else oe_dst e)
       (filter (\<lambda>e. \<not> edge_gone m r (oe_src e) (oe_dst e) (oe_epoch e) E \<and> (if reversed then oe_dst e else oe_src e) = node)
         (filter (\<lambda>e. oe_epoch e \<le> E) es))"
  by (induction es arbitrary: out) auto

lemma neighbors_view:
  "neighbors m r node reversed E out = out @
     map (\<lambda>(s, d, _). if reversed then s else d)
       (filter (\<lambda>(s, d, _). (if reversed then d else s) = node) (edge_cells m r E))"
proof -
  have "neighbors m r node reversed E out = push_neighbors m r node reversed E (ro_edges (rel_of m r)) out"
    by (simp add: neighbors_def rel_of_def no_rel_def split: option.splits)
  then show ?thesis
    by (simp add: push_neighbors_eq edges_view filter_map comp_def conj_commute case_prod_unfold)
qed


subsection \<open>Maps in key order\<close>

lemma sorted_keys [simp]: "sorted (map fst (sorted_list_of_fmap m))"
  by (simp add: sorted_list_of_fset.rep_eq)

lemma sorted_fset_keys [simp]: "sorted (sorted_list_of_fset S)" "distinct (sorted_list_of_fset S)"
  by (simp_all add: sorted_list_of_fset.rep_eq)

lemma sorted_list_empty [simp]: "sorted_list_of_fmap fmempty = []"
  by (simp add: sorted_list_of_fmap_def sorted_list_of_fset.rep_eq)

lemma in_map_filter: "y \<in> set (List.map_filter f xs) \<longleftrightarrow> (\<exists>x \<in> set xs. f x = Some y)"
  by (induction xs) (auto simp: map_filter_simps split: option.splits)

lemma lookup_map_filter:
  "distinct (map fst kvs) \<Longrightarrow> map_of (List.map_filter (\<lambda>(k, v). map_option (Pair k) (f v)) kvs) k = Option.bind (map_of kvs k) f"
proof (induction kvs)
  case (Cons kv kvs)
  obtain j v where kv: "kv = (j, v)" by (cases kv) auto
  have "map_of kvs j = None" using Cons.prems kv by (simp add: map_of_eq_None_iff)
  then show ?case using Cons kv by (auto simp: map_filter_simps split: option.splits)
qed (simp add: map_filter_simps)

lemma lookup_filtered:
  "fmlookup (fmap_of_list (List.map_filter (\<lambda>(k, v). map_option (Pair k) (f v)) (sorted_list_of_fmap m))) k = Option.bind (fmlookup m k) f"
  using lookup_map_filter [OF distinct_keys, of f m k] by (simp add: fmlookup_of_list)

lemma filtered_keys_cong:
  assumes "\<And>k. (\<exists>v. fmlookup m k = Some v \<and> P v) \<longleftrightarrow> (\<exists>v. fmlookup n k = Some v \<and> P v)"
  shows "map fst (filter (\<lambda>(_, v). P v) (sorted_list_of_fmap m)) = map fst (filter (\<lambda>(_, v). P v) (sorted_list_of_fmap n))"
proof (rule sorted_distinct_set_unique)
  show "sorted (map fst (filter (\<lambda>(_, v). P v) (sorted_list_of_fmap m)))" "sorted (map fst (filter (\<lambda>(_, v). P v) (sorted_list_of_fmap n)))"
    by (simp_all add: sorted_filter)
  show "distinct (map fst (filter (\<lambda>(_, v). P v) (sorted_list_of_fmap m)))" "distinct (map fst (filter (\<lambda>(_, v). P v) (sorted_list_of_fmap n)))"
    by (simp_all add: distinct_map_filter distinct_keys)
  have "set (map fst (filter (\<lambda>(_, v). P v) (sorted_list_of_fmap k))) = {j. \<exists>v. fmlookup k j = Some v \<and> P v}" for k :: "('a, 'b) fmap"
    by (force simp: in_sorted_list)
  then show "set (map fst (filter (\<lambda>(_, v). P v) (sorted_list_of_fmap m))) = set (map fst (filter (\<lambda>(_, v). P v) (sorted_list_of_fmap n)))"
    using assms by simp
qed

lemma list_ex_sorted: "list_ex (\<lambda>(_, v). P v) (sorted_list_of_fmap m) \<longleftrightarrow> (\<exists>k v. fmlookup m k = Some v \<and> P v)"
  by (force simp: list_ex_iff in_sorted_list)

lemma any_seen: "list_ex (\<lambda>(e, _). e \<le> E) chain \<longleftrightarrow> seen E chain \<noteq> []"
  by (auto simp: list_ex_iff seen_def filter_empty_conv)

lemma any_seen_chain: "(\<exists>k v. fmlookup m k = Some v \<and> seen E v \<noteq> []) \<longleftrightarrow> (\<exists>k. seen E (chain_at m k) \<noteq> [])"
proof -
  have "(\<exists>v. fmlookup m k = Some v \<and> seen E v \<noteq> []) \<longleftrightarrow> seen E (chain_at m k) \<noteq> []" for k
    by (simp add: chain_at_def seen_def split: option.splits)
  then show ?thesis by blast
qed

lemma dead_view: "dead_edges m r E = map fst (filter (\<lambda>(_, stamps). dead_by E stamps) (sorted_list_of_fmap (ro_dead (rel_of m r))))"
  by (simp add: dead_edges_def rel_of_def no_rel_def dead_by_def split: option.splits)

lemma tombstones_view: "tombstones m t E = map fst (filter (\<lambda>(_, e). e \<le> E) (sorted_list_of_fmap (to_tombstones (table_of m t))))"
  by (simp add: tombstones_def table_of_def no_table_def split: option.splits)

lemma edge_updates_view: "fmlookup (edge_updates m r E) k = newest E (chain_at (ro_updates (rel_of m r)) k)"
  using lookup_filtered [of "newest E" _ k]
  by (simp add: edge_updates_def rel_of_def no_rel_def bind_chain split: option.splits) (simp add: chain_at_def)

lemma row_labels_seen: "row_labels E chain = row_labels E (seen E chain)"
  by (simp add: row_labels_def seen_def)

lemma label_changes_view: "fmlookup (label_changes m t E) row = row_labels E (chain_at (to_labels (table_of m t)) row)"
  using lookup_filtered [of "row_labels E" _ row]
  by (simp add: label_changes_def table_of_def no_table_def bind_chain row_labels_def split: option.splits) (simp add: chain_at_def)

lemma has_updates_view: "has_updates m t E \<longleftrightarrow> (\<exists>k. seen E (chain_at (to_updates (table_of m t)) k) \<noteq> [])"
  unfolding has_updates_def any_seen list_ex_sorted any_seen_chain
  by (simp add: table_of_def no_table_def split: option.splits) (simp add: chain_at_def seen_def)

lemma has_label_changes_view: "has_label_changes m t E \<longleftrightarrow> (\<exists>k. seen E (chain_at (to_labels (table_of m t)) k) \<noteq> [])"
  unfolding has_label_changes_def any_seen list_ex_sorted any_seen_chain
  by (simp add: table_of_def no_table_def split: option.splits) (simp add: chain_at_def seen_def)

lemma has_edge_updates_view: "has_edge_updates m r E \<longleftrightarrow> (\<exists>k. seen E (chain_at (ro_updates (rel_of m r)) k) \<noteq> [])"
  unfolding has_edge_updates_def any_seen list_ex_sorted any_seen_chain
  by (simp add: rel_of_def no_rel_def split: option.splits) (simp add: chain_at_def seen_def)

text \<open>The rows of one column the overlay holds a value for, as \<open>mv_cell\<close> answers about each.\<close>

lemma col_updates_unfold:
  "col_updates m t col base E = sort_key fst (List.map_filter (\<lambda>((off, _), chain). map_option (Pair off) (newest E chain))
     (filter (\<lambda>((off, c), _). c = col \<and> unat off < base) (sorted_list_of_fmap (to_updates (table_of m t)))))"
  by (simp add: col_updates_def table_of_def no_table_def map_filter_simps split: option.splits)

lemma set_col_updates:
  "(off, c) \<in> set (col_updates m t col base E) \<longleftrightarrow> unat off < base \<and> newest E (chain_at (to_updates (table_of m t)) (off, col)) = Some c"
proof -
  let ?u = "to_updates (table_of m t)"
  have "(off, c) \<in> set (col_updates m t col base E) \<longleftrightarrow> (\<exists>chain. fmlookup ?u (off, col) = Some chain \<and> unat off < base \<and> newest E chain = Some c)"
    unfolding col_updates_unfold set_sort in_map_filter by (auto simp: in_sorted_list intro!: bexI)
  then show ?thesis by (auto simp: chain_at_def split: option.splits)
qed

lemma distinct_col_updates: "sorted (map fst (col_updates m t col base E)) \<and> distinct (map fst (col_updates m t col base E))"
proof -
  have "distinct (map fst kvs) \<Longrightarrow> \<forall>((off, c), _) \<in> set kvs. c = col \<Longrightarrow>
      distinct (map fst (List.map_filter (\<lambda>((off, _), chain). map_option (Pair off) (newest E chain)) kvs))"
    for kvs :: "((u64 \<times> u32) \<times> (u64 \<times> cell) list) list"
  proof (induction kvs)
    case (Cons kv kvs)
    obtain off chain where kv: "kv = ((off, col), chain)" using Cons.prems(2) by (cases kv) auto
    have "off \<notin> set (map fst (List.map_filter (\<lambda>((off, _), chain). map_option (Pair off) (newest E chain)) kvs))"
    proof
      assume "off \<in> set (map fst (List.map_filter (\<lambda>((off, _), chain). map_option (Pair off) (newest E chain)) kvs))"
      then obtain v where "(off, v) \<in> set (List.map_filter (\<lambda>((off, _), chain). map_option (Pair off) (newest E chain)) kvs)" by auto
      then obtain c chain1 where "((off, c), chain1) \<in> set kvs" unfolding in_map_filter by (auto split: prod.splits)
      moreover from this have "c = col" using Cons.prems(2) by auto
      ultimately have "(off, col) \<in> fst ` set kvs" by force
      then show False using Cons.prems(1) kv by simp
    qed
    then show ?case using Cons kv by (auto simp: map_filter_simps split: option.splits)
  qed (simp add: map_filter_simps)
  then have "distinct (map fst (List.map_filter (\<lambda>((off, _), chain). map_option (Pair off) (newest E chain))
      (filter (\<lambda>((off, c), _). c = col \<and> unat off < base) (sorted_list_of_fmap (to_updates (table_of m t))))))"
    by (rule meta_mp) (auto simp: distinct_map_filter distinct_keys)
  then show ?thesis
    by (simp add: col_updates_unfold distinct_map)
qed


subsection \<open>A snapshot does not move\<close>

lemma agree_parts:
  assumes "agrees E m n"
  shows "filter (\<lambda>x. ab_epoch x \<le> E) (to_appended (table_of m t)) = filter (\<lambda>x. ab_epoch x \<le> E) (to_appended (table_of n t))"
    and "buried E (table_of m t) off \<longleftrightarrow> buried E (table_of n t) off"
    and "seen E (chain_at (to_updates (table_of m t)) k) = seen E (chain_at (to_updates (table_of n t)) k)"
    and "seen E (chain_at (to_labels (table_of m t)) row) = seen E (chain_at (to_labels (table_of n t)) row)"
    and "filter (\<lambda>x. oe_epoch x \<le> E) (ro_edges (rel_of m r)) = filter (\<lambda>x. oe_epoch x \<le> E) (ro_edges (rel_of n r))"
    and "dead_by E (chain_at (ro_dead (rel_of m r)) p) \<longleftrightarrow> dead_by E (chain_at (ro_dead (rel_of n r)) p)"
    and "filter (\<lambda>e. e \<le> E) (chain_at (ro_dead (rel_of m r)) p) = filter (\<lambda>e. e \<le> E) (chain_at (ro_dead (rel_of n r)) p)"
    and "seen E (chain_at (ro_updates (rel_of m r)) j) = seen E (chain_at (ro_updates (rel_of n r)) j)"
  using assms unfolding agrees_def table_agrees_def rel_agrees_def by blast+

lemma agree_newest:
  assumes "agrees E m n"
  shows "newest E (chain_at (to_updates (table_of m t)) k) = newest E (chain_at (to_updates (table_of n t)) k)"
    and "newest E (chain_at (ro_updates (rel_of m r)) j) = newest E (chain_at (ro_updates (rel_of n r)) j)"
  by (rule newest_cong, rule agree_parts [OF assms])+

lemma agree_cell: "agrees E m n \<Longrightarrow> mv_cell m t base off col E = mv_cell n t base off col E"
  by (simp only: cell_view Let_def agree_newest(1) [of E m n t] agree_parts(1) [of E m n t])

lemma agree_deleted: "agrees E m n \<Longrightarrow> is_deleted m t off E = is_deleted n t off E"
  by (simp only: deleted_view agree_parts(2) [of E m n t])

lemma agree_rows: "agrees E m n \<Longrightarrow> appended_rows m t E = appended_rows n t E"
  by (simp only: rows_view agree_parts(1) [of E m n t])

lemma agree_gone: "agrees E m n \<Longrightarrow> edge_gone m r s d since E = edge_gone n r s d since E"
  by (simp only: gone_view agree_parts(7) [of E m n r])

lemma agree_edges: "agrees E m n \<Longrightarrow> edge_cells m r E = edge_cells n r E"
  by (simp only: edges_view agree_gone [of E m n] agree_parts(5) [of E m n r])

lemma agree_neighbors: "agrees E m n \<Longrightarrow> neighbors m r node reversed E out = neighbors n r node reversed E out"
  by (simp only: neighbors_view agree_edges [of E m n r])

lemma dead_chain: "(\<exists>v. fmlookup m k = Some v \<and> dead_by E v) \<longleftrightarrow> dead_by E (chain_at m k)"
  by (simp add: chain_at_def dead_by_def split: option.splits)

lemma agree_dead: "agrees E m n \<Longrightarrow> dead_edges m r E = dead_edges n r E"
  unfolding dead_view by (rule filtered_keys_cong) (simp only: dead_chain agree_parts(6) [of E m n r])

lemma buried_key: "(\<exists>e. fmlookup (to_tombstones o1) off = Some e \<and> e \<le> E) \<longleftrightarrow> buried E o1 off"
  by (simp add: buried_def split: option.splits)

lemma agree_tombstones: "agrees E m n \<Longrightarrow> tombstones m t E = tombstones n t E"
  unfolding tombstones_view by (rule filtered_keys_cong) (simp only: buried_key agree_parts(2) [of E m n t])

lemma agree_edge_updates: "agrees E m n \<Longrightarrow> edge_updates m r E = edge_updates n r E"
  by (rule fmap_ext) (simp only: edge_updates_view agree_newest(2) [of E m n r])

lemma agree_labels: "agrees E m n \<Longrightarrow> label_changes m t E = label_changes n t E"
  by (rule fmap_ext) (simp only: label_changes_view row_labels_seen [of E "chain_at _ _"] agree_parts(4) [of E m n t])

lemma agree_col_updates: "agrees E m n \<Longrightarrow> col_updates m t col base E = col_updates n t col base E"
proof -
  assume a: "agrees E m n"
  have s: "set (col_updates m t col base E) = set (col_updates n t col base E)"
    by (rule set_eqI, clarify) (simp only: set_col_updates agree_newest(1) [OF a])
  note d = distinct_col_updates [of m t col base E] distinct_col_updates [of n t col base E]
  have "inj_on fst (set (col_updates m t col base E) \<union> set (col_updates n t col base E))" using d s by (simp add: distinct_map)
  then show ?thesis using d s by (intro map_sorted_distinct_set_unique [of fst]) simp_all
qed

lemmas agree_reads = agree_cell agree_deleted agree_rows agree_gone agree_edges agree_neighbors agree_dead agree_tombstones
  agree_edge_updates agree_labels agree_col_updates

lemma run_agrees:
  "E \<le> mv_epoch m \<Longrightarrow> unat (mv_epoch m) + length opss < 2 ^ 64 \<Longrightarrow> agrees E m (fold live_commit opss m)"
proof (induction opss arbitrary: m)
  case (Cons ops opss)
  have e: "mv_epoch (live_commit ops m) = mv_epoch m + 1" by (simp add: live_commit_def core_apply)
  have up: "unat (mv_epoch m + 1) = unat (mv_epoch m) + 1" using Cons.prems(2) by (simp add: unat_word_ariths)
  have "E \<le> mv_epoch m + 1" using Cons.prems(1) up by (simp add: word_le_nat_alt)
  then have "agrees E (live_commit ops m) (fold live_commit opss (live_commit ops m))"
    using Cons.IH [of "live_commit ops m"] Cons.prems(2) e up by simp
  moreover have "agrees E m (live_commit ops m)" using Cons.prems by (intro commit_agrees) simp_all
  ultimately show ?case using agrees_trans by auto
qed simp

subsection \<open>The view a reader has\<close>

text \<open>The overlay with one version only: each operation changes it in place.\<close>

record table_view =
  tv_values :: "u64 \<times> u32 \<Rightarrow> cell option"
  tv_rows :: "(u32 \<times> cell) list list"
  tv_gone :: "u64 \<Rightarrow> bool"
  tv_marks :: "u64 \<Rightarrow> u64 \<Rightarrow> u64"

record rel_view =
  rv_edges :: "(u64 \<times> u64 \<times> (u32 \<times> cell) list) list"
  rv_values :: "u64 \<times> u64 \<times> u32 \<Rightarrow> cell option"

record graph_view =
  gv_tables :: "u32 \<Rightarrow> table_view"
  gv_rels :: "u32 \<Rightarrow> rel_view"

definition empty_view :: graph_view where
  "empty_view = \<lparr>gv_tables = (\<lambda>_. \<lparr>tv_values = (\<lambda>_. None), tv_rows = [], tv_gone = (\<lambda>_. False), tv_marks = (\<lambda>_ w. w)\<rparr>),
     gv_rels = (\<lambda>_. \<lparr>rv_edges = [], rv_values = (\<lambda>_. None)\<rparr>)\<rparr>"

definition in_table :: "u32 \<Rightarrow> (table_view \<Rightarrow> table_view) \<Rightarrow> graph_view \<Rightarrow> graph_view" where
  "in_table t f v = v\<lparr>gv_tables := (gv_tables v)(t := f (gv_tables v t))\<rparr>"

definition in_rel :: "u32 \<Rightarrow> (rel_view \<Rightarrow> rel_view) \<Rightarrow> graph_view \<Rightarrow> graph_view" where
  "in_rel r f v = v\<lparr>gv_rels := (gv_rels v)(r := f (gv_rels v r))\<rparr>"

fun view_op :: "mv_op \<Rightarrow> graph_view \<Rightarrow> graph_view" where
  "view_op (OpInsertNodes t cols rows) = in_table t (\<lambda>x. x\<lparr>tv_rows := tv_rows x @ appended cols rows\<rparr>)"
| "view_op (OpInsertRel r s d cols) = in_rel r (\<lambda>x. x\<lparr>rv_edges := rv_edges x @ [(s, d, cols)]\<rparr>)"
| "view_op (OpUpdate t off c v) = in_table t (\<lambda>x. x\<lparr>tv_values := (tv_values x)((off, c) := Some v)\<rparr>)"
| "view_op (OpDelete t off) = in_table t (\<lambda>x. x\<lparr>tv_gone := (tv_gone x)(off := True)\<rparr>)"
| "view_op (OpDeleteRel r s d) = in_rel r (\<lambda>x. x\<lparr>rv_edges := filter (\<lambda>(s1, d1, _). (s1, d1) \<noteq> (s, d)) (rv_edges x)\<rparr>)"
| "view_op (OpUpdateRel r s d c v) = in_rel r (\<lambda>x. x\<lparr>rv_values := (rv_values x)((s, d, c) := Some v)\<rparr>)"
| "view_op (OpUpdateLabels t row add remove) =
     in_table t (\<lambda>x. x\<lparr>tv_marks := (tv_marks x)(row := (\<lambda>w. (tv_marks x row w OR add) AND NOT remove))\<rparr>)"

text \<open>A batch that puts an edge over a pair it took away earlier.\<close>

fun taken :: "mv_op \<Rightarrow> (u32 \<times> u64 \<times> u64) set" where
  "taken (OpDeleteRel r s d) = {(r, s, d)}"
| "taken _ = {}"

fun puts :: "mv_op \<Rightarrow> (u32 \<times> u64 \<times> u64) set" where
  "puts (OpInsertRel r s d _) = {(r, s, d)}"
| "puts _ = {}"

fun reinserts :: "mv_op list \<Rightarrow> bool" where
  "reinserts [] \<longleftrightarrow> False"
| "reinserts (op # rest) \<longleftrightarrow> list_ex (\<lambda>x. puts x \<inter> taken op \<noteq> {}) rest \<or> reinserts rest"

subsection \<open>The store at its epoch and the view\<close>

declare split_paired_All [simp del]

definition mark_row :: "(u64 \<times> u64 \<times> u64) list \<Rightarrow> u64 \<Rightarrow> u64" where
  "mark_row chain w = fold (\<lambda>(_, add, remove) w. (w OR add) AND NOT remove) chain w"

definition last_value :: "(u64 \<times> cell) list \<Rightarrow> cell option" where
  "last_value chain = (if chain = [] then None else Some (snd (last chain)))"

definition batch_rows_ok :: "append_batch \<Rightarrow> bool" where
  "batch_rows_ok b \<longleftrightarrow> list_all (\<lambda>c. values_len (wc_values c) = ab_rows b) (ab_cols b)"

definition table_sim :: "u64 \<Rightarrow> table_overlay \<Rightarrow> table_view \<Rightarrow> bool" where
  "table_sim e o1 v \<longleftrightarrow>
     list_all (\<lambda>b. ab_epoch b \<le> e \<and> batch_rows_ok b) (to_appended o1) \<and>
     tv_rows v = concat (map (\<lambda>b. appended (ab_cols b) (ab_rows b)) (to_appended o1)) \<and>
     (\<forall>off. tv_gone v off = buried e o1 off \<and> (fmlookup (to_tombstones o1) off \<noteq> None \<longrightarrow> buried e o1 off)) \<and>
     (\<forall>k. list_all (\<lambda>x. fst x \<le> e) (chain_at (to_updates o1) k) \<and> tv_values v k = last_value (chain_at (to_updates o1) k)) \<and>
     (\<forall>row. list_all (\<lambda>(x, add, remove). x \<le> e \<and> add AND remove = 0) (chain_at (to_labels o1) row) \<and>
       tv_marks v row = mark_row (chain_at (to_labels o1) row))"

definition standing :: "(u64 \<times> u64, u64 list) fmap \<Rightarrow> overlay_edge \<Rightarrow> bool" where
  "standing dead x \<longleftrightarrow> \<not> list_ex (\<lambda>s. oe_epoch x \<le> s) (chain_at dead (oe_src x, oe_dst x))"

definition rel_sim :: "u64 \<Rightarrow> (u64 \<times> u64) set \<Rightarrow> rel_overlay \<Rightarrow> rel_view \<Rightarrow> bool" where
  "rel_sim e D o1 v \<longleftrightarrow>
     list_all (\<lambda>x. oe_epoch x \<le> e) (ro_edges o1) \<and>
     (\<forall>p. list_all (\<lambda>x. x \<le> e \<and> (x = e \<longrightarrow> p \<in> D)) (chain_at (ro_dead o1) p)) \<and>
     rv_edges v = map (\<lambda>x. (oe_src x, oe_dst x, oe_cols x)) (filter (standing (ro_dead o1)) (ro_edges o1)) \<and>
     (\<forall>k. list_all (\<lambda>x. fst x \<le> e) (chain_at (ro_updates o1) k) \<and> rv_values v k = last_value (chain_at (ro_updates o1) k))"

lemma last_value_snoc [simp]: "last_value (chain @ [x]) = Some (snd x)" "last_value [] = None"
  by (simp_all add: last_value_def)

lemma mark_row_snoc [simp]: "mark_row (chain @ [(e, add, remove)]) = (\<lambda>w. (mark_row chain w OR add) AND NOT remove)" "mark_row [] = (\<lambda>w. w)"
  by (simp_all add: mark_row_def fun_eq_iff)

lemma sim_rows:
  "table_sim e o1 v \<Longrightarrow> batch_rows_ok \<lparr>ab_epoch = e, ab_cols = cols, ab_rows = rows\<rparr> \<Longrightarrow>
    table_sim e (push_batch \<lparr>ab_epoch = e, ab_cols = cols, ab_rows = rows\<rparr> o1) (v\<lparr>tv_rows := tv_rows v @ appended cols rows\<rparr>)"
  by (simp add: table_sim_def push_batch_def buried_def)

lemma sim_update: "table_sim e o1 v \<Longrightarrow> table_sim e (push_update k (e, x) o1) (v\<lparr>tv_values := (tv_values v)(k := Some x)\<rparr>)"
  by (simp add: table_sim_def push_update_def buried_def)

lemma sim_bury: "table_sim e o1 v \<Longrightarrow> table_sim e (bury off e o1) (v\<lparr>tv_gone := (tv_gone v)(off := True)\<rparr>)"
  by (auto simp: table_sim_def bury_def buried_def or_insert_def split: option.splits)

lemma sim_label:
  "table_sim e o1 v \<Longrightarrow> add AND remove = 0 \<Longrightarrow>
    table_sim e (push_label row (e, add, remove) o1) (v\<lparr>tv_marks := (tv_marks v)(row := (\<lambda>w. (tv_marks v row w OR add) AND NOT remove))\<rparr>)"
  by (simp add: table_sim_def push_label_def buried_def)

lemma sim_edge:
  assumes "rel_sim e D o1 v" "(s, d) \<notin> D"
  shows "rel_sim e D (push_edge \<lparr>oe_epoch = e, oe_src = s, oe_dst = d, oe_cols = cols\<rparr> o1) (v\<lparr>rv_edges := rv_edges v @ [(s, d, cols)]\<rparr>)"
proof -
  have "x < e" if "x \<in> set (chain_at (ro_dead o1) (s, d))" for x
  proof -
    have "x \<le> e \<and> (x = e \<longrightarrow> (s, d) \<in> D)" using assms(1) that unfolding rel_sim_def list_all_iff by blast
    then show ?thesis using assms(2) by auto
  qed
  then have "standing (ro_dead o1) \<lparr>oe_epoch = e, oe_src = s, oe_dst = d, oe_cols = cols\<rparr>"
    by (force simp: standing_def list_ex_iff)
  then show ?thesis using assms(1) by (simp add: rel_sim_def push_edge_def)
qed

lemma sim_kill:
  assumes "rel_sim e D o1 v"
  shows "rel_sim e (insert (s, d) D) (kill_pair (s, d) e o1) (v\<lparr>rv_edges := filter (\<lambda>(s1, d1, _). (s1, d1) \<noteq> (s, d)) (rv_edges v)\<rparr>)"
proof -
  let ?o = "kill_pair (s, d) e o1"
  have dead: "chain_at (ro_dead ?o) p = (if p = (s, d) then stamp e (chain_at (ro_dead o1) p) else chain_at (ro_dead o1) p)" for p
    by (simp add: kill_pair_def)
  have s: "set (stamp e xs) = insert e (set xs)" for xs by (auto simp: stamp_def)
  have st: "standing (ro_dead ?o) x \<longleftrightarrow> standing (ro_dead o1) x \<and> (oe_src x, oe_dst x) \<noteq> (s, d)" if "x \<in> set (ro_edges o1)" for x
  proof -
    have "oe_epoch x \<le> e" using assms that unfolding rel_sim_def list_all_iff by blast
    then show ?thesis unfolding standing_def dead list_ex_iff by (auto simp: s)
  qed
  have "filter (standing (ro_dead ?o)) (ro_edges o1) = filter (\<lambda>x. (oe_src x, oe_dst x) \<noteq> (s, d)) (filter (standing (ro_dead o1)) (ro_edges o1))"
    using st by (simp add: filter_filter cong: filter_cong)
  moreover have "ro_edges ?o = ro_edges o1" "ro_updates ?o = ro_updates o1" by (simp_all add: kill_pair_def)
  moreover have "list_all (\<lambda>x. x \<le> e \<and> (x = e \<longrightarrow> p \<in> insert (s, d) D)) (chain_at (ro_dead ?o) p)" for p
    using assms unfolding rel_sim_def list_all_iff dead by (auto simp: s)
  ultimately show ?thesis
    using assms by (simp add: rel_sim_def filter_map comp_def case_prod_unfold)
qed

lemma sim_rel_update: "rel_sim e D o1 v \<Longrightarrow> rel_sim e D (push_rel_update k (e, x) o1) (v\<lparr>rv_values := (rv_values v)(k := Some x)\<rparr>)"
  by (simp add: rel_sim_def push_rel_update_def)

definition sim :: "u64 \<Rightarrow> (u32 \<times> u64 \<times> u64) set \<Rightarrow> mvcc \<Rightarrow> graph_view \<Rightarrow> bool" where
  "sim e D m v \<longleftrightarrow> (\<forall>t. table_sim e (table_of m t) (gv_tables v t)) \<and> (\<forall>r. rel_sim e {p. (r, p) \<in> D} (rel_of m r) (gv_rels v r))"

lemma gv_simps [simp]:
  "gv_tables (in_table t f v) u = (if u = t then f (gv_tables v u) else gv_tables v u)" "gv_rels (in_table t f v) = gv_rels v"
  "gv_rels (in_rel t g v) u = (if u = t then g (gv_rels v u) else gv_rels v u)" "gv_tables (in_rel t g v) = gv_tables v"
  by (simp_all add: in_table_def in_rel_def)

lemma sim_op:
  assumes "sim e D m v" "op_ok op" "puts op \<inter> D = {}"
  shows "sim e (D \<union> taken op) (publish_op e op m) (view_op op v)"
proof (cases op)
  case (OpInsertNodes t cols rows)
  moreover have "batch_rows_ok \<lparr>ab_epoch = e, ab_cols = cols, ab_rows = rows\<rparr>"
    using assms(2) OpInsertNodes by (auto simp: batch_rows_ok_def list_all_iff)
  ultimately show ?thesis using assms(1) sim_rows by (simp add: sim_def)
next
  case (OpInsertRel r s d cols)
  then show ?thesis using assms sim_edge [of e "{p. (r, p) \<in> D}"] by (simp add: sim_def)
next
  case (OpUpdate t off c x) then show ?thesis using assms(1) sim_update by (simp add: sim_def)
next
  case (OpDelete t off) then show ?thesis using assms(1) sim_bury by (simp add: sim_def)
next
  case (OpDeleteRel r s d)
  have "{p. (r, p) \<in> D \<union> {(r, s, d)}} = insert (s, d) {p. (r, p) \<in> D}" by auto
  moreover have "{p. (q, p) \<in> D \<union> {(r, s, d)}} = {p. (q, p) \<in> D}" if "q \<noteq> r" for q using that by auto
  ultimately show ?thesis using assms(1) sim_kill OpDeleteRel by (auto simp: sim_def)
next
  case (OpUpdateRel r s d c x) then show ?thesis using assms(1) sim_rel_update by (simp add: sim_def)
next
  case (OpUpdateLabels t row add remove) then show ?thesis using assms(1,2) sim_label by (simp add: sim_def)
qed

lemma sim_ops:
  "sim e D m v \<Longrightarrow> list_all op_ok ops \<Longrightarrow> \<not> reinserts ops \<Longrightarrow> (\<And>op. op \<in> set ops \<Longrightarrow> puts op \<inter> D = {}) \<Longrightarrow>
    \<exists>D1. sim e D1 (fold (publish_op e) ops m) (fold view_op ops v)"
proof (induction ops arbitrary: D m v)
  case (Cons op ops)
  have "sim e (D \<union> taken op) (publish_op e op m) (view_op op v)" using sim_op Cons.prems by simp
  moreover have "puts x \<inter> (D \<union> taken op) = {}" if "x \<in> set ops" for x
    using Cons.prems(3) Cons.prems(4) [of x] that by (auto simp: list_ex_iff)
  ultimately show ?case using Cons.IH [of "D \<union> taken op"] Cons.prems(2,3) by simp
qed auto

lemma sim_next: "sim e D m v \<Longrightarrow> e < e1 \<Longrightarrow> sim e1 {} m v"
proof -
  assume s: "sim e D m v" and lt: "e < e1"
  have le: "x \<le> e1" if "x \<le> e" for x using that lt by simp
  have t: "table_sim e1 o1 w" if o: "table_sim e o1 w" for o1 w
  proof -
    have "fmlookup (to_tombstones o1) off \<noteq> None \<longrightarrow> buried e o1 off" for off using o unfolding table_sim_def by blast
    then have "buried e1 o1 off \<longleftrightarrow> buried e o1 off" for off using le by (fastforce simp: buried_def split: option.splits)
    moreover have "list_all (\<lambda>x. fst x \<le> e1) c" if "list_all (\<lambda>x. fst x \<le> e) c" for c :: "(u64 \<times> cell) list"
      using that le by (auto simp: list_all_iff)
    moreover have "list_all (\<lambda>(x, add, remove). x \<le> e1 \<and> add AND remove = 0) c"
      if "list_all (\<lambda>(x, add, remove). x \<le> e \<and> add AND remove = 0) c" for c :: "(u64 \<times> u64 \<times> u64) list"
      using that le by (auto simp: list_all_iff)
    moreover have "list_all (\<lambda>b. ab_epoch b \<le> e1 \<and> batch_rows_ok b) c" if "list_all (\<lambda>b. ab_epoch b \<le> e \<and> batch_rows_ok b) c" for c
      using that le by (auto simp: list_all_iff)
    ultimately show ?thesis using o unfolding table_sim_def by blast
  qed
  have r: "rel_sim e1 {} o1 w" if o: "rel_sim e D1 o1 w" for o1 :: rel_overlay and w D1
  proof -
    have "x \<le> e1 \<and> x \<noteq> e1" if "x \<le> e" for x using that lt by auto
    then have "list_all (\<lambda>x. x \<le> e1 \<and> (x = e1 \<longrightarrow> p \<in> {})) c" if "list_all (\<lambda>x. x \<le> e \<and> (x = e \<longrightarrow> p \<in> D1)) c" for c p
      using that by (auto simp: list_all_iff)
    moreover have "list_all (\<lambda>x. fst x \<le> e1) c" if "list_all (\<lambda>x. fst x \<le> e) c" for c :: "(u64 \<times> cell) list"
      using that le by (auto simp: list_all_iff)
    moreover have "list_all (\<lambda>x. oe_epoch x \<le> e1) c" if "list_all (\<lambda>x. oe_epoch x \<le> e) c" for c :: "overlay_edge list"
      using that le by (auto simp: list_all_iff)
    ultimately show ?thesis using o unfolding rel_sim_def by (elim conjE, intro conjI allI; blast)
  qed
  show ?thesis
    unfolding sim_def
  proof (intro conjI allI)
    show "table_sim e1 (table_of m t1) (gv_tables v t1)" for t1 by (rule t) (use s in \<open>simp add: sim_def\<close>)
    show "rel_sim e1 {p. (r1, p) \<in> {}} (rel_of m r1) (gv_rels v r1)" for r1
      using r [of "{p. (r1, p) \<in> D}" "rel_of m r1" "gv_rels v r1"] s by (simp add: sim_def)
  qed
qed

lemma sim_core: "sim e D (core m) v \<longleftrightarrow> sim e D m v"
  by (simp add: sim_def core_def table_of_def rel_of_def)

lemma sim_new: "sim low {} (mvcc_new low) empty_view"
  by (simp add: sim_def mvcc_new_def table_of_def rel_of_def no_table_def no_rel_def table_sim_def rel_sim_def empty_view_def
      chain_at_def buried_def last_value_def mark_row_def fun_eq_iff)

definition orderly :: "mv_op list list \<Rightarrow> bool" where
  "orderly opss \<longleftrightarrow> list_all (\<lambda>ops. list_all op_ok ops \<and> \<not> reinserts ops) opss"

lemma epoch_run: "mv_epoch (fold live_commit opss m) = mv_epoch m + of_nat (length opss)"
  by (induction opss arbitrary: m) (simp_all add: live_commit_def core_apply)

lemma sim_run:
  "sim (mv_epoch m) D m v \<Longrightarrow> orderly opss \<Longrightarrow> unat (mv_epoch m) + length opss < 2 ^ 64 \<Longrightarrow>
    \<exists>D1. sim (mv_epoch (fold live_commit opss m)) D1 (fold live_commit opss m) (fold view_op (concat opss) v)"
proof (induction opss arbitrary: D m v)
  case (Cons ops opss)
  let ?e = "mv_epoch m + 1" and ?m = "live_commit ops m"
  have up: "unat ?e = unat (mv_epoch m) + 1" using Cons.prems(3) by (simp add: unat_word_ariths)
  then have "mv_epoch m < ?e" by (simp add: word_less_nat_alt)
  then have "sim ?e {} (core m) v" using sim_next Cons.prems(1) sim_core by blast
  from sim_ops [OF this, of ops] Cons.prems(2) obtain D1 where "sim ?e D1 (fold (publish_op ?e) ops (core m)) (fold view_op ops v)"
    by (auto simp: orderly_def)
  then have "sim (mv_epoch ?m) D1 (core ?m) (fold view_op ops v)" by (simp add: live_commit_def core_apply)
  moreover have "mv_epoch ?m = ?e" by (simp add: live_commit_def core_apply)
  ultimately show ?case using Cons.IH [of ?m D1 "fold view_op ops v"] Cons.prems(2,3) up by (simp add: sim_core orderly_def)
qed auto

subsection \<open>The answers are the view's\<close>

definition row_cell :: "(u32 \<times> cell) list list \<Rightarrow> nat \<Rightarrow> u32 \<Rightarrow> cell option" where
  "row_cell rows i col = (if i < length rows then map_of (rows ! i) col else None)"

definition view_cell :: "table_view \<Rightarrow> nat \<Rightarrow> u64 \<Rightarrow> u32 \<Rightarrow> cell option" where
  "view_cell v base off col =
     (case tv_values v (off, col) of
        Some c \<Rightarrow> Some c
      | None \<Rightarrow> if unat off < base then None else row_cell (tv_rows v) (unat off - base) col)"

lemma length_appended [simp]: "length (appended cols rows) = rows"
  by (simp add: appended_def)

lemma value_at_Some: "i < values_len vals \<Longrightarrow> value_at vals i \<noteq> None"
  by (cases vals) (simp_all add: idx_def)

lemma appended_cell:
  assumes "list_all (\<lambda>c. values_len (wc_values c) = rows) cols" "i < rows"
  shows "(case find (\<lambda>c. wc_col c = col) cols of None \<Rightarrow> Some None | Some column \<Rightarrow> map_option Some (value_at (wc_values column) i)) =
    Some (map_of (appended cols rows ! i) col)"
  using assms(1)
proof (induction cols)
  case (Cons c cols)
  have "value_at (wc_values c) i \<noteq> None" using value_at_Some [of i "wc_values c"] Cons.prems assms(2) by simp
  then show ?case using Cons assms(2) by (auto simp: appended_def cell_at_def)
qed (use assms(2) in \<open>simp add: appended_def\<close>)

lemma row_cell_append:
  "row_cell (xs @ ys) i col = (if i < length xs then map_of (xs ! i) col else row_cell ys (i - length xs) col)"
proof -
  have "i - length xs < length ys \<longleftrightarrow> i < length xs + length ys" if "\<not> i < length xs" using that by linarith
  then show ?thesis by (simp add: row_cell_def nth_append del: length_concat)
qed

lemma batch_cell_rows:
  "list_all (\<lambda>b. ab_epoch b \<le> E \<and> batch_rows_ok b) bs \<Longrightarrow> at \<le> off \<Longrightarrow>
    batch_cell bs at off col E = Some (row_cell (concat (map (\<lambda>b. appended (ab_cols b) (ab_rows b)) bs)) (off - at) col)"
proof (induction bs arbitrary: at)
  case (Cons b bs)
  obtain i where off: "off = at + i" using Cons.prems(2) le_Suc_ex by blast
  show ?case
  proof (cases "i < ab_rows b")
    case True
    then show ?thesis using Cons.prems(1) appended_cell [of "ab_rows b" "ab_cols b" i col]
      by (simp add: off batch_rows_ok_def row_cell_append cong: option.case_cong)
  next
    case False
    then show ?thesis using Cons.IH [of "at + ab_rows b"] Cons.prems(1) by (simp add: off row_cell_append)
  qed
qed (simp add: row_cell_def)

lemma newest_all: "list_all (\<lambda>x. fst x \<le> E) chain \<Longrightarrow> newest E chain = last_value chain"
proof -
  assume "list_all (\<lambda>x. fst x \<le> E) chain"
  then have "seen E chain = chain" by (auto simp: seen_def list_all_iff filter_id_conv)
  then show ?thesis by (simp add: newest_seen last_value_def)
qed

lemma sim_cell: "sim e D m v \<Longrightarrow> mv_cell m t base off col e = Some (view_cell (gv_tables v t) base off col)"
proof -
  assume "sim e D m v"
  then have s: "table_sim e (table_of m t) (gv_tables v t)" by (simp add: sim_def)
  then have b: "list_all (\<lambda>b. ab_epoch b \<le> e \<and> batch_rows_ok b) (to_appended (table_of m t))" by (simp add: table_sim_def)
  then have "filter (\<lambda>b. ab_epoch b \<le> e) (to_appended (table_of m t)) = to_appended (table_of m t)"
    by (auto simp: filter_id_conv list_all_iff)
  moreover have "newest e (chain_at (to_updates (table_of m t)) (off, col)) = tv_values (gv_tables v t) (off, col)"
  proof -
    have "list_all (\<lambda>x. fst x \<le> e) (chain_at (to_updates (table_of m t)) (off, col))"
        "tv_values (gv_tables v t) (off, col) = last_value (chain_at (to_updates (table_of m t)) (off, col))"
      using s unfolding table_sim_def by blast+
    then show ?thesis using newest_all by simp
  qed
  ultimately show ?thesis using s batch_cell_rows [OF b, of base "unat off" col]
    by (auto simp: cell_view view_cell_def Let_def table_sim_def split: option.splits)
qed

lemma sim_deleted: "sim e D m v \<Longrightarrow> is_deleted m t off e = tv_gone (gv_tables v t) off"
  by (simp add: sim_def table_sim_def deleted_view)

lemma sim_appended: "sim e D m v \<Longrightarrow> appended_rows m t e = length (tv_rows (gv_tables v t))"
proof -
  assume "sim e D m v"
  then have s: "table_sim e (table_of m t) (gv_tables v t)" by (simp add: sim_def)
  then have "filter (\<lambda>b. ab_epoch b \<le> e) (to_appended (table_of m t)) = to_appended (table_of m t)"
    by (auto simp: table_sim_def filter_id_conv list_all_iff)
  then show ?thesis using s by (simp add: rows_view table_sim_def length_concat comp_def)
qed

lemma sim_edges: "sim e D m v \<Longrightarrow> edge_cells m r e = rv_edges (gv_rels v r)"
proof -
  assume "sim e D m v"
  then have s: "rel_sim e {p. (r, p) \<in> D} (rel_of m r) (gv_rels v r)" by (simp add: sim_def)
  have "filter (\<lambda>x. x \<le> e) (chain_at (ro_dead (rel_of m r)) p) = chain_at (ro_dead (rel_of m r)) p" for p
    using s unfolding rel_sim_def list_all_iff filter_id_conv by blast
  moreover have "filter (\<lambda>x. oe_epoch x \<le> e) (ro_edges (rel_of m r)) = ro_edges (rel_of m r)"
    using s unfolding rel_sim_def list_all_iff filter_id_conv by blast
  ultimately have "edge_cells m r e = map (\<lambda>x. (oe_src x, oe_dst x, oe_cols x)) (filter (standing (ro_dead (rel_of m r))) (ro_edges (rel_of m r)))"
    by (simp add: edges_view gone_view standing_def [abs_def])
  then show ?thesis using s by (simp add: rel_sim_def)
qed

lemma sim_edge_updates: "sim e D m v \<Longrightarrow> fmlookup (edge_updates m r e) k = rv_values (gv_rels v r) k"
proof -
  assume "sim e D m v"
  then have "rel_sim e {p. (r, p) \<in> D} (rel_of m r) (gv_rels v r)" by (simp add: sim_def)
  then have "list_all (\<lambda>x. fst x \<le> e) (chain_at (ro_updates (rel_of m r)) k)"
      "rv_values (gv_rels v r) k = last_value (chain_at (ro_updates (rel_of m r)) k)"
    unfolding rel_sim_def by blast+
  then show ?thesis using newest_all by (simp add: edge_updates_view)
qed

text \<open>The two masks a chain composes to do what its changes do one after the other.\<close>

lemma mask_step:
  fixes w a r add remove :: u64
  assumes "a AND r = 0" "add AND remove = 0"
  shows "((a AND NOT remove) OR add) AND ((r AND NOT add) OR remove) = 0"
    and "(w OR ((a AND NOT remove) OR add)) AND NOT ((r AND NOT add) OR remove) = (((w OR a) AND NOT r) OR add) AND NOT remove"
proof -
  have d: "\<not> (bit a n \<and> bit r n)" "\<not> (bit add n \<and> bit remove n)" for n
    using arg_cong [OF assms(1), of "\<lambda>x. bit x n"] arg_cong [OF assms(2), of "\<lambda>x. bit x n"] by (auto simp: bit_simps)
  show "((a AND NOT remove) OR add) AND ((r AND NOT add) OR remove) = 0"
    by (rule bit_eqI) (use d in \<open>auto simp: bit_simps\<close>)
  show "(w OR ((a AND NOT remove) OR add)) AND NOT ((r AND NOT add) OR remove) = (((w OR a) AND NOT r) OR add) AND NOT remove"
    by (rule bit_eqI) (use d in \<open>auto simp: bit_simps\<close>)
qed

lemma compose_masks:
  "fold compose_labels chain (a, r, b) = (a1, r1, b1) \<Longrightarrow> a AND r = 0 \<Longrightarrow>
    list_all (\<lambda>(_, add, remove). add AND remove = 0) chain \<Longrightarrow>
    a1 AND r1 = 0 \<and> (b1 \<longleftrightarrow> b \<or> chain \<noteq> []) \<and> (w OR a1) AND NOT r1 = mark_row chain ((w OR a) AND NOT r)"
proof (induction chain arbitrary: a r b)
  case (Cons x chain)
  obtain e add remove where x: "x = (e, add, remove)" by (cases x) auto
  have d: "add AND remove = 0" using Cons.prems(3) x by simp
  from Cons.IH [of "(a AND NOT remove) OR add" "(r AND NOT add) OR remove" True] Cons.prems x
  show ?case using mask_step(1) [OF Cons.prems(2) d] mask_step(2) [OF Cons.prems(2) d, of w] by (simp add: mark_row_def)
qed (simp add: mark_row_def)

lemma row_labels_mark:
  assumes "list_all (\<lambda>(x, add, remove). x \<le> E \<and> add AND remove = 0) chain"
  shows "case row_labels E chain of
      None \<Rightarrow> mark_row chain w = w
    | Some (add, remove) \<Rightarrow> add AND remove = 0 \<and> (w OR add) AND NOT remove = mark_row chain w"
proof -
  have f: "filter (\<lambda>(e, _). e \<le> E) chain = chain" using assms by (auto simp: list_all_iff filter_id_conv)
  obtain a1 r1 b1 where c: "fold compose_labels chain (0, 0, False) = (a1, r1, b1)" by (metis prod_cases3)
  have "list_all (\<lambda>(_, add, remove). add AND remove = 0) chain" using assms by (auto simp: list_all_iff)
  from compose_masks [OF c _ this, of w] show ?thesis using c f by (auto simp: row_labels_def mark_row_def)
qed

lemma sim_labels:
  "sim e D m v \<Longrightarrow> (case fmlookup (label_changes m t e) row of
      None \<Rightarrow> tv_marks (gv_tables v t) row w = w
    | Some (add, remove) \<Rightarrow> add AND remove = 0 \<and> (w OR add) AND NOT remove = tv_marks (gv_tables v t) row w)"
proof -
  assume "sim e D m v"
  then have "table_sim e (table_of m t) (gv_tables v t)" by (simp add: sim_def)
  then have c: "list_all (\<lambda>(x, add, remove). x \<le> e \<and> add AND remove = 0) (chain_at (to_labels (table_of m t)) row)"
      "tv_marks (gv_tables v t) row = mark_row (chain_at (to_labels (table_of m t)) row)"
    unfolding table_sim_def by blast+
  show ?thesis unfolding label_changes_view c(2) by (rule row_labels_mark [OF c(1)])
qed

text \<open>Reads at the epoch of any of the commits of a run.\<close>

definition reads_view :: "mvcc \<Rightarrow> u64 \<Rightarrow> graph_view \<Rightarrow> bool" where
  "reads_view m E v \<longleftrightarrow>
     (\<forall>t base off col. mv_cell m t base off col E = Some (view_cell (gv_tables v t) base off col)) \<and>
     (\<forall>t off. is_deleted m t off E = tv_gone (gv_tables v t) off) \<and>
     (\<forall>t. appended_rows m t E = length (tv_rows (gv_tables v t))) \<and>
     (\<forall>r. edge_cells m r E = rv_edges (gv_rels v r)) \<and>
     (\<forall>r key. fmlookup (edge_updates m r E) key = rv_values (gv_rels v r) key) \<and>
     (\<forall>t row w. case fmlookup (label_changes m t E) row of
        None \<Rightarrow> tv_marks (gv_tables v t) row w = w
      | Some (add, remove) \<Rightarrow> add AND remove = 0 \<and> (w OR add) AND NOT remove = tv_marks (gv_tables v t) row w)"

lemma sim_reads: "sim e D m v \<Longrightarrow> reads_view m e v"
  unfolding reads_view_def using sim_cell sim_deleted sim_appended sim_edges sim_edge_updates sim_labels by (intro conjI allI) blast+

lemma reads_view_cong: "agrees E m n \<Longrightarrow> reads_view m E v \<longleftrightarrow> reads_view n E v"
  by (simp only: reads_view_def agree_reads [of E m n])

lemma run_reads:
  assumes "orderly opss" "unat low + length opss < 2 ^ 64" "k \<le> length opss"
  shows "reads_view (fold live_commit opss (mvcc_new low)) (low + of_nat k) (fold view_op (concat (take k opss)) empty_view)"
proof -
  let ?m = "fold live_commit (take k opss) (mvcc_new low)"
  have new: "mv_epoch (mvcc_new low) = low" by (simp add: mvcc_new_def)
  have e: "mv_epoch ?m = low + of_nat k" using assms(3) by (simp add: epoch_run new)
  have "orderly (take k opss)" using assms(1) by (auto simp: orderly_def list_all_iff dest: in_set_takeD)
  moreover have "unat low + length (take k opss) < 2 ^ 64" using assms(2,3) by simp
  ultimately obtain D where "sim (mv_epoch ?m) D ?m (fold view_op (concat (take k opss)) empty_view)"
    using sim_run [of "mvcc_new low" "{}" empty_view "take k opss"] sim_new [of low] new by auto
  then have "reads_view ?m (low + of_nat k) (fold view_op (concat (take k opss)) empty_view)" using sim_reads e by simp
  moreover have "agrees (low + of_nat k) ?m (fold live_commit (drop k opss) ?m)"
  proof (rule run_agrees)
    have "unat (low + of_nat k) = unat low + k"
      using assms(2,3) by (simp add: unat_word_ariths unat_of_nat)
    then show "unat (mv_epoch ?m) + length (drop k opss) < 2 ^ 64" using assms(2,3) by (simp add: e)
  qed (simp add: e)
  moreover have "fold live_commit (drop k opss) ?m = fold live_commit opss (mvcc_new low)"
  proof -
    have "fold live_commit (drop k opss) ?m = fold live_commit (take k opss @ drop k opss) (mvcc_new low)" by (simp del: append_take_drop_id)
    then show ?thesis by simp
  qed
  ultimately show ?thesis using reads_view_cong [of "low + of_nat k" ?m "fold live_commit opss (mvcc_new low)"] by simp
qed

subsection \<open>One batch\<close>

text \<open>
  A batch that takes a pair away and puts an edge over it again leaves no edge: both carry the
  epoch of the batch, and a delete of that epoch counts against the edge.
\<close>

lemma reinserted_edge_lost:
  "(s, d, cols) \<notin> set (edge_cells (live_commit [OpDeleteRel r s d, OpInsertRel r s d cols] (mvcc_new 0)) r 1) \<and>
   (s, d, cols) \<in> set (rv_edges (gv_rels (fold view_op [OpDeleteRel r s d, OpInsertRel r s d cols] empty_view) r))"
  by (simp add: live_commit_def mv_apply_def defer_op_def mvcc_new_def edge_cells_def edge_gone_def at_rel_def at_entry_def no_rel_def
      kill_pair_def push_edge_def stamp_def empty_view_def)

text \<open>What a commit hands the readers: all of it, or nothing.\<close>

lemma deferred_run:
  "let m1 = fold (\<lambda>op m. publish_op e op (defer_op op m)) ops (m\<lparr>mv_deferred := []\<rparr>) in
    (mv_soft m1 \<longleftrightarrow> mv_soft m \<and> list_all (\<lambda>op. deferral op \<noteq> None) ops) \<and>
    mv_deferred m1 = (if mv_soft m1 then map (the \<circ> deferral) ops else [])"
proof (induction ops rule: rev_induct)
  case (snoc op ops)
  have "mv_soft (publish_op e op m2) = mv_soft m2" "mv_deferred (publish_op e op m2) = mv_deferred m2" for m2
    by (cases op; simp add: at_table_def at_rel_def)+
  then show ?case using snoc by (auto simp: Let_def defer_op_def split: option.splits)
qed simp

lemma commit_deferred:
  "mv_soft (live_commit ops m) \<longleftrightarrow> mv_soft m \<and> list_all (\<lambda>op. deferral op \<noteq> None) ops"
  "mv_deferred (live_commit ops m) = (if mv_soft (live_commit ops m) then map (the \<circ> deferral) ops else [])"
  using deferred_run [of "mv_epoch m + 1" ops m] by (simp_all add: live_commit_def mv_apply_def Let_def)

declare split_paired_All [simp]

end
