(* ===== verification/Staging.thy ===== *)
theory Staging
  imports MvccReads
begin

text \<open>
  What a write transaction can hold: every call of the staging interface keeps its operations
  well formed, refuses what would not be, and returns. Small runs for concrete inputs.
\<close>

text \<open>A transaction open on the interface; what it is handed fits the log's 32 bit counts.\<close>

inductive staged :: "write_txn \<Rightarrow> bool" where
  nothing: "staged []"
| nodes: "staged ops \<Longrightarrow> length cols < 2 ^ 32 \<Longrightarrow> list_all (\<lambda>(_, cells). length cells < 2 ^ 32 \<and> list_all cell_fits cells) cols \<Longrightarrow>
    insert_nodes t cols ops = Some (r, ops1) \<Longrightarrow> staged ops1"
| edge: "staged ops \<Longrightarrow> staged (insert_rel rel src dst ops)"
| edge_carrying: "staged ops \<Longrightarrow> length cols < 2 ^ 32 \<Longrightarrow> list_all (\<lambda>(_, c). cell_fits c) cols \<Longrightarrow> staged (insert_rel_carrying rel src dst cols ops)"
| update: "staged ops \<Longrightarrow> cell_fits v \<Longrightarrow> staged (txn_update t off col v ops)"
| delete: "staged ops \<Longrightarrow> staged (txn_delete t off ops)"
| detach: "staged ops \<Longrightarrow> staged (delete_rel rel src dst ops)"
| edge_update: "staged ops \<Longrightarrow> cell_fits v \<Longrightarrow> staged (update_rel rel src dst col v ops)"
| labels: "staged ops \<Longrightarrow> update_labels t row add remove ops = (r, ops1) \<Longrightarrow> staged ops1"

lemma cell_values_total: "\<exists>r. cell_values cells = Some r \<and> (\<forall>vals. r = Inr vals \<longrightarrow> holds_run vals cells)"
proof (cases cells)
  case Nil
  then show ?thesis by (simp add: cell_values_def holds_run_def)
next
  case (Cons c rest)
  show ?thesis
  proof (cases "\<forall>d \<in> set cells. kind_of d = kind_of c")
    case True
    then show ?thesis using cell_values_run [of cells "kind_of c"] Cons by auto
  next
    case False
    then have "list_ex (\<lambda>d. kind_of d \<noteq> kind_of c) cells" by (auto simp: list_ex_iff)
    then show ?thesis using Cons by (simp add: cell_values_def Let_def)
  qed
qed

lemma logged_columns_ok:
  "list_all (\<lambda>(_, cells). length cells = n \<and> list_all cell_fits cells) cols \<Longrightarrow> n < 2 ^ 32 \<Longrightarrow>
    \<exists>r. logged_columns cols = Some r \<and> (\<forall>cs. r = Inr cs \<longrightarrow> length cs = length cols \<and> list_all (\<lambda>c. values_len (wc_values c) = n \<and> column_fits c) cs)"
proof (induction cols)
  case (Cons x cols)
  obtain col cells where x: "x = (col, cells)" by (cases x) auto
  obtain r where r: "cell_values cells = Some r" "\<forall>vals. r = Inr vals \<longrightarrow> holds_run vals cells" using cell_values_total by blast
  obtain s where s: "logged_columns cols = Some s"
      "\<forall>cs. s = Inr cs \<longrightarrow> length cs = length cols \<and> list_all (\<lambda>c. values_len (wc_values c) = n \<and> column_fits c) cs"
    using Cons by auto
  show ?case
  proof (cases r)
    case (Inr vals)
    then have "holds_run vals cells" using r(2) by blast
    then show ?thesis using Cons.prems x r(1) s Inr by (cases s) (auto simp: holds_run_def column_fits_def)
  qed (use x r(1) in simp)
qed simp

lemma logged_columns_total: "logged_columns cols \<noteq> None"
proof (induction cols rule: logged_columns.induct)
  case (2 col cells rest)
  obtain r where "cell_values cells = Some r" using cell_values_total by blast
  then show ?case using 2 by (cases r) auto
qed simp

lemma insert_nodes_total: "\<exists>r ops1. insert_nodes t cols ops = Some (r, ops1) \<and> (isl r \<longrightarrow> ops1 = ops)"
proof -
  obtain r where "logged_columns cols = Some r" using logged_columns_total by blast
  then show ?thesis by (cases r) (simp_all add: insert_nodes_def Let_def)
qed

lemma update_labels_keeps: "update_labels t row add remove ops = (r, ops1) \<Longrightarrow> isl r \<longleftrightarrow> add AND remove \<noteq> 0"
  "update_labels t row add remove ops = (Inl e, ops1) \<Longrightarrow> ops1 = ops"
  by (auto simp: update_labels_def split: if_splits)

lemma staged_ok: "staged ops \<Longrightarrow> list_all op_ok ops"
proof (induction rule: staged.induct)
  case (nodes ops cols t r ops1)
  let ?n = "case cols of [] \<Rightarrow> 0 | (_, v) # _ \<Rightarrow> length v"
  show ?case
  proof (cases "list_ex (\<lambda>(_, v). length v \<noteq> ?n) cols")
    case False
    then have n: "list_all (\<lambda>(_, cells). length cells = ?n \<and> list_all cell_fits cells) cols" using nodes(3) by (auto simp: list_all_iff list_ex_iff)
    have "?n < 2 ^ 32" using nodes(3) by (cases cols) auto
    from logged_columns_ok [OF n this] obtain s where s: "logged_columns cols = Some s"
      "\<forall>cs. s = Inr cs \<longrightarrow> length cs = length cols \<and> list_all (\<lambda>c. values_len (wc_values c) = ?n \<and> column_fits c) cs" by blast
    show ?thesis
    proof (cases s)
      case (Inr cs)
      then have "ops1 = ops @ [OpInsertNodes t cs ?n]" using nodes(4) s(1) False by (simp add: insert_nodes_def Let_def)
      moreover have "op_ok (OpInsertNodes t cs ?n)" using s(2) Inr nodes(2) by (cases cols) auto
      ultimately show ?thesis using nodes(5) by simp
    qed (use nodes s(1) False in \<open>simp add: insert_nodes_def Let_def\<close>)
  qed (use nodes in \<open>simp add: insert_nodes_def Let_def\<close>)
qed (auto simp: insert_rel_def insert_rel_carrying_def txn_update_def txn_delete_def delete_rel_def update_rel_def update_labels_def split: if_splits)

subsection \<open>Small runs\<close>

lemma sorted_list_single [simp]: "sorted_list_of_fmap (fmupd k v fmempty) = [(k, v)]"
  by (simp add: sorted_list_of_fmap_def sorted_list_of_fset.rep_eq)

lemma one_delete: "txns_of e [[OpDelete t off]] = Some [(e + 1, [Delete t [off]])]"
  by (simp add: build_records_def nothing_lowered_def at_entry_def)

lemma one_delete_fits: "run_fits 0 [[OpDelete t off]]"
  by (simp add: run_fits_def batch_ok_def one_delete record_body_def put_u64s_def del: txns_of.simps)

end
