(* ===== verification/Tombstones.thy ===== *)
theory Tombstones
  imports MvccReads
begin

text \<open>
  The persisted tombstones of a node table, \<^verbatim>\<open>crates/zu-zu1/src/fold.rs\<close>: the chain a fold writes
  and recovery reads back into the overlay at epoch zero. Arithmetic wraps as in a release build.
\<close>

definition TOMBSTONES_VERSION :: u16 where "TOMBSTONES_VERSION = 1"

definition tomb_corrupt :: "string \<Rightarrow> zu_error" where
  "tomb_corrupt detail = Corrupt ''tombstone chain'' detail"

definition encode_tombstones :: "u64 list \<Rightarrow> u8 list" where
  "encode_tombstones offsets = u16_le TOMBSTONES_VERSION @ u64_le (word_of_nat (length offsets)) @ concat (map u64_le offsets)"

fun take_offsets :: "u64 list \<Rightarrow> u64 list \<Rightarrow> u64 list result" where
  "take_offsets offsets [] = Inr offsets"
| "take_offsets offsets (off # rest) =
     (if offsets \<noteq> [] \<and> off \<le> last offsets
      then Inl (tomb_corrupt (''offset '' @ show_nat (unat off) @ '' after '' @ show_nat (unat (last offsets))))
      else take_offsets (offsets @ [off]) rest)"

text \<open>\<open>None\<close> is the capacity overflow of \<^verbatim>\<open>Vec::with_capacity\<close>.\<close>

definition decode_tombstones :: "u8 list \<Rightarrow> u64 list result option" where
  "decode_tombstones bytes =
     (case get_range bytes 0 10 of
        None \<Rightarrow> Some (Inl (tomb_corrupt ''truncated header''))
      | Some head \<Rightarrow>
          let version = read_u16 (take 2 head) in
          if version \<noteq> TOMBSTONES_VERSION then Some (Inl (Unsupported ''tombstone chain version'' (unat version)))
          else let count = read_u64 (drop 2 head) in
            if word_of_nat (length bytes) \<noteq> 10 + count * 8
            then Some (Inl (tomb_corrupt (show_nat (length bytes) @ '' bytes hold '' @ show_nat (unat count) @ '' offsets'')))
            else if unat count * 8 \<ge> 2 ^ 63 then None
            else Some (take_offsets [] (le_words (drop 10 bytes))))"

lemma take_offsets_ok:
  "take_offsets acc offs = Inr res \<longleftrightarrow> res = acc @ offs \<and> sorted_wrt (<) offs \<and> (acc \<noteq> [] \<longrightarrow> (\<forall>x \<in> set offs. last acc < x))"
proof (induction acc offs rule: take_offsets.induct)
  case (2 acc off rest)
  show ?case
  proof (cases "acc \<noteq> [] \<and> off \<le> last acc")
    case True then show ?thesis by auto
  next
    case False
    then have "take_offsets acc (off # rest) = take_offsets (acc @ [off]) rest" by auto
    also have "\<dots> = Inr res \<longleftrightarrow> res = (acc @ [off]) @ rest \<and> sorted_wrt (<) rest \<and> (\<forall>x \<in> set rest. off < x)"
      using 2 False by simp
    finally show ?thesis using False by (auto simp: not_le dest: order.strict_trans)
  qed
qed auto

lemma u16_le_read: "length bs = 2 \<Longrightarrow> u16_le (read_u16 bs) = bs"
  by (simp add: u16_le_def read_u16_def to_le_from_le)

lemma split_head: "10 \<le> length bytes \<Longrightarrow> bytes = take 2 (take 10 bytes) @ drop 2 (take 10 bytes) @ drop 10 bytes"
  by (metis append.assoc append_take_drop_id)

lemma count_exact:
  assumes "length bytes < 2 ^ 63" "unat (count :: u64) * 8 < 2 ^ 63"
  shows "word_of_nat (length bytes) = 10 + count * 8 \<longleftrightarrow> length bytes = 10 + 8 * unat count"
proof -
  have "unat (10 + count * 8) = 10 + 8 * unat count" using assms(2) by (simp add: unat_word_ariths)
  moreover have "unat (word_of_nat (length bytes) :: u64) = length bytes" using assms(1) by (simp add: unat_of_nat)
  ultimately show ?thesis by (metis word_unat_eq_iff)
qed

lemma if_SomeE:
  assumes "(if P then x else y) = z" "P \<Longrightarrow> x = z \<Longrightarrow> thesis" "\<not> P \<Longrightarrow> y = z \<Longrightarrow> thesis"
  shows thesis
  using assms by (cases P) simp_all

lemma tombstones_decode_exact:
  assumes "length bytes < 2 ^ 63"
  shows "decode_tombstones bytes = Some (Inr offs) \<longleftrightarrow> sorted_wrt (<) offs \<and> bytes = encode_tombstones offs"
proof
  assume d: "decode_tombstones bytes = Some (Inr offs)"
  then have len: "10 \<le> length bytes" by (auto simp: decode_tombstones_def get_range_def split: if_splits)
  let ?head = "take 10 bytes" and ?count = "read_u64 (drop 2 (take 10 bytes))"
  have g: "get_range bytes 0 10 = Some ?head" using len by (simp add: get_range_def)
  note d1 = d [unfolded decode_tombstones_def g option.case Let_def]
  have v: "read_u16 (take 2 ?head) = TOMBSTONES_VERSION" using d1 by (elim if_SomeE) simp_all
  have c: "word_of_nat (length bytes) = 10 + ?count * 8" using d1 by (elim if_SomeE) simp_all
  have fit: "unat ?count * 8 < 2 ^ 63" using d1 by (elim if_SomeE) (simp_all only: not_le option.distinct option.inject sum.distinct)
  have t: "take_offsets [] (le_words (drop 10 bytes)) = Inr offs" using d1 by (elim if_SomeE) simp_all
  obtain count where cnt: "?count = count" by blast
  have n: "length bytes = 10 + 8 * unat count" using iffD1 [OF count_exact [OF assms fit] c] cnt by simp
  have offs: "offs = le_words (drop 10 bytes)" "sorted_wrt (<) offs" using t by (simp_all add: take_offsets_ok)
  have "word_of_nat (length offs) = count" using n by (simp add: offs(1) length_le_words)
  then have "u64_le (word_of_nat (length offs)) = drop 2 ?head" using len u64_le_read [of "drop 2 ?head"] by (simp only: cnt length_drop length_take)
  moreover have "u16_le TOMBSTONES_VERSION = take 2 ?head" using u16_le_read [of "take 2 ?head"] v len by simp
  moreover have "concat (map u64_le offs) = drop 10 bytes" using n by (simp add: offs(1) concat_le_words)
  ultimately have "encode_tombstones offs = bytes" using split_head [OF len] by (simp add: encode_tombstones_def)
  then show "sorted_wrt (<) offs \<and> bytes = encode_tombstones offs" using offs(2) by simp
next
  assume o: "sorted_wrt (<) offs \<and> bytes = encode_tombstones offs"
  then have n: "length bytes = 10 + 8 * length offs" by (simp add: encode_tombstones_def length_concat_uniform [of _ 8] comp_def)
  have u: "unat (word_of_nat (length offs) :: u64) = length offs" using n assms by (simp add: unat_of_nat)
  have fit: "unat (word_of_nat (length offs) :: u64) * 8 < 2 ^ 63" using n assms u by simp
  have "word_of_nat (length bytes) = 10 + (word_of_nat (length offs) :: u64) * 8" using count_exact [OF assms fit] n u by simp
  moreover have "take 10 bytes = u16_le TOMBSTONES_VERSION @ u64_le (word_of_nat (length offs))" "drop 10 bytes = concat (map u64_le offs)"
    using o by (simp_all add: encode_tombstones_def)
  ultimately show "decode_tombstones bytes = Some (Inr offs)"
    using o n fit by (simp add: decode_tombstones_def get_range_def Let_def le_words_concat take_offsets_ok)
qed

text \<open>A ten byte chain that names \<open>2 ^ 61\<close> offsets is not refused: its length check wraps.\<close>

lemma tombstones_overflow: "decode_tombstones [1, 0, 0, 0, 0, 0, 0, 0, 0, 0x20] = None"
  by (simp add: decode_tombstones_def get_range_def TOMBSTONES_VERSION_def read_u16_def read_u64_def Let_def)

end
