(* ===== verification/Spec2Isabelle.thy ===== *)
theory Spec2Isabelle
  imports SegmentPrice Validity Fsst Ids Epoch Vectors SetOps Manifest Session Staging Tombstones
begin

text \<open>
  zu is an embedded graph database in Rust. Its storage is a single file of blocks (crate
  \<^verbatim>\<open>zu-zu1\<close>) or an object store (\<^verbatim>\<open>zu-s3\<close>); column data in both is compressed by the encodings
  of \<^verbatim>\<open>zu-encoding\<close>, identified by the ids of \<^verbatim>\<open>zu-common\<close> and computed on by the kernels of
  \<^verbatim>\<open>zu-vector\<close>. Queries are parsed, bound, compiled and run by \<^verbatim>\<open>zu-query\<close> and \<^verbatim>\<open>zu-exec\<close> behind
  the facade \<^verbatim>\<open>zu\<close>. This library models the storage core below the catalog: what is written,
  in which bytes, in which order, and what is read back, after a crash and from hostile bytes.

  Conventions. A Rust function that can panic is a function to \<open>option\<close>, \<open>None\<close> being the panic
  (an index out of range, a failed assertion, an arithmetic overflow where the code does not
  wrap on purpose); one that returns \<^verbatim>\<open>Result\<close> answers \<open>zu_error + 'a\<close>, and one that fills a
  vector of the caller answers the vector too, also when it fails. Integers keep their width;
  lengths and sizes are natural numbers. Operations on the file handle have the type \<open>'a io\<close>
  of \<open>BlockFile\<close>: state in, and \<open>None\<close> or a result with the state it leaves. \<^verbatim>\<open>crc32c\<close>, the
  clock and the process id are code or input the repository only calls; they are arguments.

  The parts, from the bottom.

  \<^item> \<open>ZuPrelude\<close>: words, errors (\<^verbatim>\<open>zu-common/src/error.rs\<close>), little endian bytes, fallible
    list access; the lemmas every other theory rests on.
  \<^item> \<open>Bitpack\<close>, \<open>BitIter\<close>, \<open>BitWords\<close>: fixed width packing in both layouts (\<^verbatim>\<open>bitpack.rs\<close>), the
    walk over set bits, bitmaps in words with the interface \<open>bit_vector\<close>.
  \<^item> \<open>ForBitpack\<close>, \<open>Patch\<close>, \<open>Delta\<close>, \<open>Rle\<close>, \<open>Counts\<close>, \<open>Frequency\<close>, \<open>Dict\<close>, \<open>BoolBitpack\<close>: one
    encoding of \<^verbatim>\<open>zu-encoding/src\<close> each, encoder, decoder with its error paths, and the
    round trip. The two delta forms are instances of \<open>delta_container\<close>.
  \<^item> \<open>Segment\<close>, \<open>SegmentRoundtrip\<close>, \<open>SegmentPrice\<close>: the cascade of \<^verbatim>\<open>segment.rs\<close> that prices the
    encodings and picks one. Every encoding is an interpretation of the contract
    \<open>u64_container\<close>; the prices are proved exact or safe, so the choice is the best there is.
  \<^item> \<open>Fsst\<close>: string compression (\<^verbatim>\<open>fsst.rs\<close>): training, table, encoder, decoder.
  \<^item> \<open>Validity\<close>, \<open>Vectors\<close>: validity bitmaps (\<^verbatim>\<open>validity.rs\<close>), predicate bitmaps and selection
    vectors (\<^verbatim>\<open>zu-vector/src/bitmap.rs\<close>, \<^verbatim>\<open>sel.rs\<close>), both interpretations of \<open>bit_vector\<close>.
  \<^item> \<open>SetOps\<close>: the intersection kernel (\<^verbatim>\<open>kernels/setops.rs\<close>).
  \<^item> \<open>Ids\<close>: packed ids, sortable keys, byte literals, the id hash of \<^verbatim>\<open>zu-common\<close>.
  \<^item> \<open>Epoch\<close>: the lock free ledger of reader pins (\<^verbatim>\<open>epoch.rs\<close>) as interleaved atomic steps.
  \<^item> \<open>Manifest\<close>: the object store's root record (\<^verbatim>\<open>zu-s3/src/manifest.rs\<close>).
  \<^item> \<open>Disk\<close>: the file under the engine (\<^verbatim>\<open>vfs.rs\<close>), its log of writes and syncs, and \<open>crash\<close>:
    everything a crash can leave of that log.
  \<^item> \<open>Cache\<close>, \<open>Pools\<close>: the block cache with reference counted frames and the decoded pools
    (\<^verbatim>\<open>cache.rs\<close>). \<open>block_store\<close> is what the cache promises its reader, and the proof about
    interleaved readers is made once in it.
  \<^item> \<open>BlockHeaders\<close>, \<open>BlockFile\<close>, \<open>MetaChain\<close>: the header codecs, the handle \<^verbatim>\<open>Zu1File\<close> with its
    block operations (\<^verbatim>\<open>file.rs\<close>) and the linked chains of blocks (\<^verbatim>\<open>meta.rs\<close>).
  \<^item> \<open>WalRecords\<close>, \<open>Wal\<close>, \<open>WalRecovery\<close>: the write ahead log beside the file (\<^verbatim>\<open>wal.rs\<close>): its
    records, its frames in a reserved file, its operations and replay; \<open>wal_ok\<close> is the log as
    a list of frames, \<open>log_of\<close> as a list of transactions. \<open>GroupCommit\<close>: the sync writers share,
    as interleaved critical sections (\<open>gc_step\<close>).
  \<^item> \<open>Mvcc\<close>: the overlays above the file (\<^verbatim>\<open>txn.rs\<close>): what a commit publishes, what a reader at
    an epoch is answered, staging, the lowering of a transaction to log records, and recovery
    from the log. Definitions only. \<open>MvccRecovery\<close> shows that the records of a transaction,
    regrouped as they are, rebuild what publishing it left (every column of an overlay is an
    instance of \<open>lanes\<close>), and composes that with the log; \<open>MvccReads\<close> relates the readers
    to a graph with one version of everything (\<open>graph_view\<close>); \<open>Staging\<close> is about what the
    staging calls can build. \<open>Tombstones\<close> is the chain a fold keeps deleted rows in (\<^verbatim>\<open>fold.rs\<close>).
  \<^item> \<open>Checkpoint\<close>: the commit protocol of \<^verbatim>\<open>file.rs\<close>: create, open, checkpoint, savepoints,
    retained blocks, rollback. Definitions only.
  \<^item> \<open>Commit\<close>, \<open>Recovery\<close>, \<open>Session\<close>: what that protocol guarantees. \<open>Commit\<close> goes through the
    stages of one checkpoint and accounts for every block (\<open>acct\<close>, \<open>lists_ok\<close>); \<open>Recovery\<close>
    shows which header and which blocks a reopen finds after a crash; \<open>Session\<close> closes both
    under a writer's operations and under crash and reopen (\<open>session_step\<close>, \<open>history\<close>).

  What the properties below show. Crashes (C1, C2): a crash at any point
  leaves the last checkpoint or the new one whole, and of the commits in the log a prefix, from which
  recovery rebuilds the store. Overlays (C3 to C5): recovery equals the live store, a reader's
  answers are the history up to its epoch, and later commits do not move them. The single
  file (C6 to C15): a checkpoint always completes, a transaction never writes on the state it
  may have to go back to, a block handed out is nobody's, the codecs and the chain walk, the
  cache under interleaving, and the block store it refines. The log (C16 to C22): what
  survives a crash, what replay delivers, that a commit told yes is on the platter and that
  every commit call returns. The encodings (C23 to C34): round trips on every input the
  encoder accepts, bounds and totality on every input the decoder may meet, and the
  optimality of the choices. The rest (C35 to C40): keys and ids, the ledger of pins,
  intersection, the manifest and the tombstone chain.

  Bounds and fuel. Chunks are at most \<open>2 ^ 27\<close> values in the cascade's theorems, so that sizes
  stay within the \<open>u32\<close> fields that hold them. A commit needs \<open>roomy\<close>: the block count, plus
  what the free list can take, keeps byte offsets below \<open>2 ^ 64\<close>, and the epoch can grow. No
  definition is cut off by fuel: loops are structural, \<open>evict_loop\<close> counts the two rounds
  the code counts, and the others carry a termination proof (the chain walk by the set of
  blocks it has not visited). A crash keeps what was synced and may leave anything in the range
  of an unsynced write; that a torn header slot or a torn log frame is told by its checksum is
  the hypothesis \<open>tear_detected\<close> of C1 and \<open>tear_told\<close> of C2 and C16, the only assumptions made of
  \<^verbatim>\<open>crc32c\<close> in this library. Rows of an overlay are counted in natural numbers. C2 and C3 ask
  (\<open>run_fits\<close>) that a record stays below 4 GiB and that the epochs do not run out.

  What does not hold. Five lemmas record where the code falls short of its comments:
  \<open>cut_race\<close> (a truncation while a sync is in the air lets a later commit return unsynced, so
  C21 asks that there is none), \<open>stale_frames\<close> (old frames in front of a new commit frame are
  replayed as its own, so C2 and C16 start from a log on the platter), \<open>trailing_message\<close>,
  \<open>reinserted_edge_lost\<close> (an edge put back after its pair was removed in the same batch is lost,
  so C4 leaves such batches out) and \<open>tombstones_overflow\<close> (a length check that wraps;
  \<open>Tombstones\<close> is the one theory that follows a release build there instead of a panic).

  Not modelled. Floating point encodings (\<^verbatim>\<open>alp.rs\<close>, \<^verbatim>\<open>alp_rd.rs\<close>) and the zstd wrapper. Real
  files and directories: \<^verbatim>\<open>Disk\<close> has the rules of \<^verbatim>\<open>MemFile\<close>, which the source states to be those
  of a file. Forked handles (\<^verbatim>\<open>reopen\<close>, \<^verbatim>\<open>recycle\<close>, \<^verbatim>\<open>adopt\<close>): one handle is modelled, and what
  forks share, the cache, is modelled under interleaving. Rollback and the repair of a file
  whose transaction marker survived a crash are modelled (\<open>rollback_savepoint\<close>,
  \<open>finish_rollback\<close>, \<open>resume_marker\<close>) but are not steps of \<open>session_step\<close>: a rollback after a publish
  rewrites blocks the published header may still name, so a crash inside it is not covered
  by C1. Above the block file: segments on disk, the catalog, folding the
  overlays into segments, statistics, ingest (what an \<^verbatim>\<open>IngestRef\<close> of the log resolves to is an
  argument of recovery). The object store engine beyond its manifest, the query
  front end, the executor, the facade and the bindings.
\<close>

section \<open>Commits and crashes\<close>

text \<open>
  C1. A crash leaves a commit. Take any history of a file: created, written through sessions
  that allocate, write, read, free, open and end transactions and commit, crashed and
  reopened any number of times. If the process dies while the next checkpoint runs, or at
  any point since the last one, and no transaction's marker is on the file, then reopening
  succeeds: it reads either the header and every block in use of the last commit, or those
  of the new one, its free list names none of those blocks, and the history goes on.
\<close>

theorem crash_leaves_a_commit:
  assumes "history crc S" "roomy (ss_file S)" "checkpoint crc (ss_file S) = Some (Inr (), z)"
    and "crash (drop (ss_mark S) (di_log (zf_disk z))) (ss_base S) (di_image d)"
    and "tear_detected crc (ss_base S) (di_image d) (zf_active_slot z) (zf_db z)"
    and "di_writable d" "decode_marker crc (window (di_image d) TXN_SLOT DB_HEADER_SIZE) = None"
  shows "\<exists>z1. open_kind crc d path True = Some (Inr z1) \<and> history crc (starts z1) \<and>
    (zf_db z1 = ss_head S \<and> intact (ss_pub S) (ss_base S) (di_image d) \<and> ss_pub S \<inter> set_mset (spare z1) = {} \<or>
     zf_db z1 = zf_db z \<and> intact (in_use z) (di_image (zf_disk z)) (di_image d) \<and> in_use z \<inter> set_mset (spare z1) = {})"
  by (rule crash_reopens [OF assms])

text \<open>The process dies before the first write of the first checkpoint reaches the disk.\<close>

theorem crash_leaves_a_commit_witness:
  "\<exists>S z d z1. history (\<lambda>_. 1) S \<and> checkpoint (\<lambda>_. 1) (ss_file S) = Some (Inr (), z) \<and> di_image d = ss_base S \<and>
    open_kind (\<lambda>_. 1) d [] True = Some (Inr z1)"
proof -
  obtain z where z: "history (\<lambda>_. 1) (starts z)" "roomy z" "di_writable (zf_disk z)"
      "window (di_image (zf_disk z)) TXN_SLOT DB_HEADER_SIZE = replicate DB_HEADER_SIZE 0"
    using created_example [of "\<lambda>_. 1"] by metis
  let ?S = "starts z"
  have f: "ss_file ?S = z" "ss_base ?S = di_image (zf_disk z)" by (simp_all add: starts_def)
  obtain z2 where c: "checkpoint (\<lambda>_. 1) (ss_file ?S) = Some (Inr (), z2)"
    using checkpoint_total [OF z(1)] z(2) f by auto
  have cr: "crash evs img img" for evs and img :: "u8 list"
    using crash.lost [of "[]" img img evs] by (simp add: torn_def)
  have "u32_le 1 \<noteq> replicate 4 0" by (simp add: u32_le_def to_le_def numeral_eq_Suc)
  then have "db_header_decode (\<lambda>_. 1) (replicate DB_HEADER_SIZE 0) = None"
    by (simp add: db_header_decode_def window_def DB_HEADER_SIZE_def DB_HEADER_BODY_def min_def numeral_eq_Suc)
  then have m: "decode_marker (\<lambda>_. 1) (window (di_image (zf_disk z)) TXN_SLOT DB_HEADER_SIZE) = None"
    unfolding z(4) decode_marker_def by simp
  have "\<exists>z1. open_kind (\<lambda>_. 1) (zf_disk z) [] True = Some (Inr z1)"
    using crash_leaves_a_commit [OF z(1) _ c, of "zf_disk z" "[]"] z(2,3) m cr f by (auto simp: tear_detected_def)
  then obtain z1 where "open_kind (\<lambda>_. 1) (zf_disk z) [] True = Some (Inr z1)" by blast
  then show ?thesis using z(1) c f by (intro exI [of _ ?S] exI [of _ z2] exI [of _ "zf_disk z"] exI [of _ z1]) simp
qed



text \<open>
  C7. A transaction does not write on what it may have to go back to. At every point inside
  one, commits included, every block in use when it began is on the file byte for byte as it
  was then, and none of them is the writer's to write.
\<close>

theorem transaction_keeps_its_blocks:
  assumes "history crc S" "zf_savepoint (ss_file S) = Some s"
  shows "intact (sp_blocks s) (ss_begun S) (di_image (zf_disk (ss_file S))) \<and> ss_mine S \<inter> sp_blocks s = {} \<and>
    set (zf_free (ss_file S)) \<subseteq> sp_reusable s"
  using history_ok [OF assms(1)] session_facts(5) assms(2) by (auto simp: tx_kept_def tx_ok_def)

theorem transaction_keeps_its_blocks_witness:
  "\<exists>S s. history (\<lambda>_. 0) S \<and> zf_savepoint (ss_file S) = Some s \<and> sp_log_floor s = 5 \<and> ss_mine S \<inter> sp_blocks s = {}"
proof -
  obtain z where z: "history (\<lambda>_. 0) (starts z)" "zf_savepoint z = None" "zf_writable z" using created_example [of "\<lambda>_. 0"] by metis
  have f: "ss_file (starts z) = z" by (simp add: starts_def)
  obtain s z1 where b: "begin_savepoint True 5 z = Some (Inr (), z1)" "zf_savepoint z1 = Some s" "sp_log_floor s = 5"
    using z(2,3) by (simp add: begin_savepoint_def check_writable_def)
  define S where "S = (starts z)\<lparr>ss_file := z1, ss_mine := {}, ss_begun := di_image (zf_disk z1)\<rparr>"
  have h: "history (\<lambda>_. 0) S"
    unfolding S_def by (rule history.stepped [OF z(1)], rule session_step.begin_tx [of True 5]) (simp add: f b(1))
  have "zf_savepoint (ss_file S) = Some s" by (simp add: S_def b(2))
  then show ?thesis using transaction_keeps_its_blocks [OF h] h b(3) by blast
qed

text \<open>
  C8. A block handed out was nobody's. No root, no pending free, no published state and no
  open transaction reaches it, and the lists stay disjoint.
\<close>

theorem allocation_is_fresh:
  assumes "history crc S" "allocate_block (ss_file S) = Some (p, z)"
  shows "p \<notin> live (ss_file S) \<and> p \<notin> ss_pub S \<and> (\<forall>s. zf_savepoint (ss_file S) = Some s \<longrightarrow> p \<notin> sp_blocks s) \<and>
    live z = insert p (live (ss_file S)) \<and> lists_ok z"
  by (rule allocate_safe [OF assms])

theorem allocation_is_fresh_witness:
  "\<exists>z z1. history (\<lambda>_. 0) (starts z) \<and> allocate_block z = Some (1, z1) \<and> live z1 = insert 1 (live z) \<and> 1 \<notin> live z"
proof -
  obtain z where z: "history (\<lambda>_. 0) (starts z)" "zf_free z = []" "zf_db z = first_db" using created_example [of "\<lambda>_. 0"] by metis
  have f: "ss_file (starts z) = z" by (simp add: starts_def)
  obtain z1 where a: "allocate_block z = Some (1, z1)" using z(2,3) by (simp add: allocate_block_def first_db_def Let_def)
  then show ?thesis using allocation_is_fresh [OF z(1), unfolded f, OF a] z(1) by blast
qed

section \<open>The single file\<close>

text \<open>
  C9. A free list on the disk is read exactly. Bytes decode to a list of blocks precisely
  when they are the little endian pointers of that list, one after another, all of them
  different and all within the file; anything else is an error.
\<close>

theorem free_list_exact:
  "decode_free_list bytes n = Inr ps \<longleftrightarrow>
     bytes = concat (map u64_le ps) \<and> distinct ps \<and> list_all (\<lambda>p. p \<noteq> NULL_BLOCK \<and> p \<le> n) ps"
  using decode_free_list_exact [of bytes n ps] by (simp add: in_file_def list_all_iff)

text \<open>
  C10. A payload written as a chain reads back. On a handle whose cache answers its file,
  with room for the blocks, \<^verbatim>\<open>write_chain\<close> succeeds for any payload and \<^verbatim>\<open>read_chain\<close> of the
  head it returns gives the payload, through the cache, whatever was cached before.
\<close>

theorem chain_reads_back:
  assumes "zf_ok held z" "zf_writable z" "di_writable (zf_disk z)" "free_ok z"
    and "(unat (dh_block_count (zf_db z)) + length (chunks CHAIN_CAPACITY payload) + 1) * BLOCK_SIZE < 2 ^ 64"
  shows "\<exists>head z1 z2. write_chain crc payload z = Some (Inr head, z1) \<and> read_chain crc head z1 = Some (Inr payload, z2) \<and>
    zf_ok held z2 \<and> quiet z1 z2"
  by (rule chain_roundtrip [OF assms])

theorem chain_reads_back_witness:
  "\<exists>z head z1 z2. write_chain (\<lambda>_. 3) [7, 8, 9] z = Some (Inr head, z1) \<and> read_chain (\<lambda>_. 3) head z1 = Some (Inr [7, 8, 9], z2)"
proof -
  obtain z where z: "history (\<lambda>_. 0) (starts z)" "zf_free z = []" "zf_db z = first_db" "zf_writable z" "di_writable (zf_disk z)"
    using created_example [of "\<lambda>_. 0"] by metis
  have ok: "zf_ok [] z" using session_facts(1) history_ok [OF z(1)] by (fastforce simp: starts_def)
  have "chunks CHAIN_CAPACITY [7, 8, 9 :: u8] = [[7, 8, 9]]"
    by (rule chunks_short) (simp_all add: CHAIN_CAPACITY_def BLOCK_SIZE_def CHAIN_HEADER_def)
  then have room: "(unat (dh_block_count (zf_db z)) + length (chunks CHAIN_CAPACITY [7, 8, 9 :: u8]) + 1) * BLOCK_SIZE < 2 ^ 64"
    by (simp add: z(3) first_db_def BLOCK_SIZE_def)
  have "free_ok z" by (simp add: free_ok_def z(2))
  from chain_reads_back [OF ok z(4,5) this room, of "\<lambda>_. 3"] show ?thesis by blast
qed

text \<open>
  C11. Following a chain ends on any file. Whatever the blocks hold, cycles and garbage
  included, the walk returns without a panic and without writing; when it succeeds the
  blocks it visited are distinct blocks of the file, each within the capacity and with the
  checksum its header states.
\<close>

theorem chain_walk_ends:
  assumes "zf_ok held z" "in_reach z"
  shows "\<exists>r z1. walk_chain crc head z = Some (r, z1) \<and> zf_ok held z1 \<and> quiet z z1 \<and>
    (\<forall>visits. r = Inr visits \<longrightarrow> distinct (map fst visits) \<and>
      (\<forall>(p, part) \<in> set visits. p \<noteq> NULL_BLOCK \<and> p \<le> dh_block_count (zf_db z) \<and> length part \<le> CHAIN_CAPACITY \<and>
        (\<exists>block. block_at z p = Some block \<and> from_le (window block 12 4) = crc part)))"
  using walk_loop_total [OF assms, of crc "{}" head] unfolding walk_chain_def by fast

theorem chain_walk_ends_witness:
  "\<exists>z r z1. walk_chain (\<lambda>_. 0) 5 z = Some (r, z1) \<and> zf_db z = first_db"
proof -
  obtain z where z: "history (\<lambda>_. 0) (starts z)" "zf_db z = first_db" using created_example [of "\<lambda>_. 0"] by metis
  have "zf_ok [] z" "in_reach z" using session_facts(1,3) history_ok [OF z(1)] by (fastforce simp: starts_def)+
  from chain_walk_ends [OF this, of "\<lambda>_. 0" 5] show ?thesis using z(2) by blast
qed

text \<open>
  C12. The three headers read back. A fresh file header decodes to itself, so does a
  database header whose block count the offsets can address, and the marker a transaction
  leaves gives back the kept header and the log floor; every database header that decodes
  was written as such: its leading bytes are its own encoding.
\<close>

theorem headers_read_back:
  assumes "addressable (dh_block_count h)"
  shows "file_header_decode crc (file_header_encode crc (file_header_fresh nanos pid)) = Inr (file_header_fresh nanos pid) \<and>
    db_header_decode crc (db_header_encode crc h) = Some h \<and> decode_marker crc (marker_encode crc h low) = Some (h, low) \<and>
    (\<forall>buf g. db_header_decode crc buf = Some g \<longrightarrow>
       take (DB_HEADER_BODY + 4) buf = take (DB_HEADER_BODY + 4) (db_header_encode crc g))"
  using file_header_roundtrip [OF fresh_supported] db_header_encode_roundtrip [OF assms] marker_roundtrip [OF assms] decoded_header
  by (auto simp: db_header_encode_def db_header_body_length)

theorem headers_read_back_witness:
  "decode_marker (\<lambda>b. of_nat (length b)) (marker_encode (\<lambda>b. of_nat (length b)) first_db 9) = Some (first_db, 9)"
  using headers_read_back [of first_db "\<lambda>b. of_nat (length b)" 0 0 9] by (simp add: first_db_def addressable_def)



text \<open>
  C14. The clock hand stops. In a shard that has a frame nobody pins, the eviction scan
  returns a slot within its bound, whatever the visited bits and wherever the hand stands.
\<close>

theorem eviction_finds_a_frame:
  assumes "shard_ok cap k sh" "\<forall>a \<in> set (map sl_frame (sh_slots sh)). a < length arcs"
    and "j < length (sh_slots sh)" "ar_count (arcs ! sl_frame (sh_slots sh ! j)) \<le> 1"
  shows "\<exists>i sh' ev'. evict arcs sh ev = Some (Some i, sh', ev')"
  by (rule evict_finds [OF assms])

theorem eviction_finds_a_frame_witness:
  "\<exists>i sh' ev'. evict [\<lparr>ar_bytes = [], ar_count = 1\<rparr>]
     \<lparr>sh_map = [64 \<mapsto> 0], sh_slots = [\<lparr>sl_ptr = 64, sl_visited = True, sl_frame = 0\<rparr>], sh_hand = 0\<rparr> 0 = Some (Some i, sh', ev')"
proof -
  have s: "shard_ok 1 0 \<lparr>sh_map = [64 \<mapsto> 0], sh_slots = [\<lparr>sl_ptr = 64, sl_visited = True, sl_frame = 0\<rparr>], sh_hand = 0\<rparr>"
    unfolding shard_ok_def by (rule shard_index_okI) (auto simp: NULL_BLOCK_def SHARDS_def split: if_splits)
  show ?thesis using eviction_finds_a_frame [OF s, of "[\<lparr>ar_bytes = [], ar_count = 1\<rparr>]" 0 0] by simp
qed

text \<open>
  C15. The cached file is a store of blocks. A write of one block succeeds, reading it
  through the cache gives what was written, reading any other block gives what it held
  before, and the pins readers hold keep their bytes valid.
\<close>

theorem block_store_refined:
  assumes "zf_ok held z" "zf_writable z" "di_writable (zf_disk z)" "check_ptr ptr z = Inr ()"
    and "(unat ptr + 1) * BLOCK_SIZE < 2 ^ 64" "length data = BLOCK_SIZE"
    and "q \<noteq> ptr" "check_ptr q z = Inr ()" "unat q * BLOCK_SIZE < 2 ^ 64" "block_at z q = Some b"
  shows "\<exists>z1 z2 z3. write_block ptr data z = Some (Inr (), z1) \<and> read_block ptr z1 = Some (Inr data, z2) \<and>
    read_block q z2 = Some (Inr b, z3) \<and> zf_ok held z3 \<and> zf_disk z3 = zf_disk z1"
proof -
  obtain z1 where w: "write_block ptr data z = Some (Inr (), z1)" "zf_ok held z1" "wrote z z1" "block_at z1 ptr = Some data"
      "block_at z1 q = Some b"
    using write_block_ok [OF assms(1-6)] assms(7,10) by blast
  have c: "check_ptr ptr z1 = Inr ()" "check_ptr q z1 = Inr ()" using wrote_keeps [OF w(3)] assms(4,8) by simp_all
  have "unat ptr * BLOCK_SIZE < 2 ^ 64" using assms(5) by simp
  then obtain r z2 where r: "read_block ptr z1 = Some (r, z2)" "zf_ok held z2" "quiet z1 z2"
      "case r of Inl e \<Rightarrow> block_at z1 ptr = None | Inr b \<Rightarrow> block_at z1 ptr = Some b"
    using read_block_quiet [OF w(2) c(1)] by blast
  have k: "block_at z2 q = Some b" "check_ptr q z2 = Inr ()" using quiet_keeps [OF r(3)] w(5) c(2) by simp_all
  obtain r3 z3 where r3: "read_block q z2 = Some (r3, z3)" "zf_ok held z3" "quiet z2 z3"
      "case r3 of Inl e \<Rightarrow> block_at z2 q = None | Inr b \<Rightarrow> block_at z2 q = Some b"
    using read_block_quiet [OF r(2) k(2) assms(9)] by blast
  have "r = Inr data" using r(4) w(4) by (cases r) auto
  moreover have "r3 = Inr b" using r3(4) k(1) by (cases r3) auto
  ultimately show ?thesis using w(1) r(1) r3(1,2) quiet_keeps [OF r(3)] quiet_keeps [OF r3(3)] by auto
qed


text \<open>Two fresh blocks: the second is written, the first read back unchanged.\<close>

theorem block_store_refined_witness:
  "\<exists>z p q z1 z2 z3. p \<noteq> q \<and> write_block p (replicate BLOCK_SIZE 7) z = Some (Inr (), z1) \<and>
    read_block p z1 = Some (Inr (replicate BLOCK_SIZE 7), z2) \<and> read_block q z2 = Some (Inr (replicate BLOCK_SIZE 4), z3)"
proof -
  obtain z where z: "history (\<lambda>_. 0) (starts z)" "zf_free z = []" "zf_db z = first_db" "zf_writable z" "di_writable (zf_disk z)"
    using created_example [of "\<lambda>_. 0"] by metis
  have ok: "zf_ok [] z" using session_facts(1) history_ok [OF z(1)] by (fastforce simp: starts_def)
  have "free_ok z" "unat (dh_block_count (zf_db z)) + 2 < 2 ^ 64" by (simp_all add: free_ok_def z(2,3) first_db_def)
  then obtain ptrs za where a: "length ptrs = 2" "distinct ptrs" "grew z za" "\<forall>q \<in> set ptrs. check_ptr q za = Inr ()"
      "unat (dh_block_count (zf_db za)) \<le> unat (dh_block_count (zf_db z)) + 2"
    using alloc_blocks_ok [of z 2] by metis
  obtain p q where pq: "ptrs = [p, q]" using a(1) by (auto simp: numeral_2_eq_2 length_Suc_conv)
  have n: "unat (dh_block_count (zf_db za)) \<le> 2" using a(5) by (simp add: z(3) first_db_def)
  have c: "p \<noteq> q" "check_ptr p za = Inr ()" "check_ptr q za = Inr ()" using a(2,4) pq by simp_all
  then have "unat p \<le> 2" "unat q \<le> 2" using n by (auto simp: check_ptr_Inr word_le_nat_alt)
  then have small: "(unat p + 1) * BLOCK_SIZE < 2 ^ 64" "(unat q + 1) * BLOCK_SIZE < 2 ^ 64" "unat q * BLOCK_SIZE < 2 ^ 64"
    by (simp_all add: BLOCK_SIZE_def)
  note g = grew_keeps [OF a(3)]
  have oka: "zf_ok [] za" "zf_writable za" "di_writable (zf_disk za)" using g ok z(4,5) by simp_all
  obtain zb where b: "zf_ok [] zb" "wrote za zb" "di_writable (zf_disk zb)" "block_at zb q = Some (replicate BLOCK_SIZE 4)"
    using write_block_ok [OF oka c(3) small(2), of "replicate BLOCK_SIZE 4"] by auto
  have k: "zf_writable zb" "check_ptr p zb = Inr ()" "check_ptr q zb = Inr ()" using wrote_keeps [OF b(2)] c(2,3) oka(2) by simp_all
  obtain z1 z2 z3 where "write_block p (replicate BLOCK_SIZE 7) zb = Some (Inr (), z1)"
      "read_block p z1 = Some (Inr (replicate BLOCK_SIZE 7), z2)" "read_block q z2 = Some (Inr (replicate BLOCK_SIZE 4), z3)"
    using block_store_refined [OF b(1) k(1) b(3) k(2) small(1) _ _ k(3) small(3) b(4), of "replicate BLOCK_SIZE 7"] c(1) by auto
  then show ?thesis using c(1) by blast
qed

section \<open>The write ahead log\<close>

text \<open>
  C16. A crash leaves a prefix of the transactions. Take a log on the platter with some
  transactions, write any part of further ones to it, staged, spilled, reserved and committed as
  the code does, and let the process die anywhere. If torn frames are told by their checksum,
  then opening the log succeeds, and replaying it delivers, for every floor and every sink,
  all the transactions that were on the platter and the first few of the new ones, each whole.
\<close>

theorem log_survives_crash:
  assumes "wal_ok crc (log_of old) [] w" "list_all txn_ok old" "list_all txn_ok new"
    and "log_runs crc w (take i (log_of new)) w1"
    and "crash (drop (length (di_log (wl_disk w))) (di_log (wl_disk w1))) (di_image (wl_disk w)) (di_image d)"
    and "tear_told crc (di_image (wl_disk w1)) (di_image d) (wl_len w) (take i (log_of new))" "di_writable d"
  shows "\<exists>w2 m. open_on crc d = Inr w2 \<and> m \<le> length new \<and>
    (\<forall>low sink s. replay_log crc low sink s w2 = deliver sink (committed_above low (old @ take m new)) s)"
  by (rule log_crash [OF assms])

text \<open>One transaction is on the platter, the next was appended and not a byte of it arrived.\<close>

theorem log_survives_crash_witness:
  "\<exists>w w1 w2 d. wal_ok (\<lambda>_. 9) (log_of [(1, [DdlCatalog [7]])]) [] w \<and> log_runs (\<lambda>_. 9) w (log_of [(2, [Delete 3 [4]])]) w1 \<and>
    di_image d = di_image (wl_disk w) \<and> open_on (\<lambda>_. 9) d = Inr w2 \<and>
    (\<exists>m. \<forall>sink s. replay_log (\<lambda>_. 9) 0 sink s w2 = deliver sink (committed_above 0 ((1, [DdlCatalog [7]]) # take m [(2, [Delete 3 [4]])])) (s :: nat))"
proof -
  define d0 where "d0 = \<lparr>di_image = [], di_writable = True, di_log = []\<rparr>"
  obtain wa where wa: "wal_ok (\<lambda>_. 9) [] [] wa" using open_empty [of d0 "\<lambda>_. 9"] by (auto simp: d0_def)
  have t: "txn_ok (1, [DdlCatalog [7]])" "txn_ok (2, [Delete 3 [4]])"
    by (simp_all add: txn_ok_def plain_def body_ok_def record_body_def MIN_BODY_def put_u64s_def)
  obtain w where w: "wal_ok (\<lambda>_. 9) (log_of [(1, [DdlCatalog [7]])]) [] w" using put_txn [OF wa t(1)] by (auto simp: log_of_def)
  obtain w1 where w1: "log_runs (\<lambda>_. 9) w (log_of [(2, [Delete 3 [4]])]) w1" using put_txn [OF w t(2)] by (auto simp: log_of_def)
  let ?evs = "drop (length (di_log (wl_disk w))) (di_log (wl_disk w1))" and ?img = "di_image (wl_disk w)"
  have cr: "crash ?evs ?img ?img" using crash.lost [of "[]" ?img ?img ?evs] by (simp add: torn_def)
  have none: "next_frame (\<lambda>_. 9) ?img (wl_len w + n) = None" for n
  proof (cases "wl_len w + n \<le> length ?img")
    case True
    then show ?thesis
      using w by (intro next_frame_zeros [of _ _ "wl_reserved w - wl_len w - n"]) (simp_all add: wal_ok_def)
  qed (simp add: next_frame_def PREFIX_def)
  have told: "tear_told (\<lambda>_. 9) (di_image (wl_disk w1)) ?img (wl_len w) (take i (log_of [(2, [Delete 3 [4]])]))" for i
    by (simp add: tear_told_def none)
  have dw: "di_writable (wl_disk w)" using w by (simp add: wal_ok_def)
  have ok: "list_all txn_ok [(1, [DdlCatalog [7]])]" "list_all txn_ok [(2, [Delete 3 [4]])]" using t by simp_all
  have run: "log_runs (\<lambda>_. 9) w (take (length (log_of [(2, [Delete 3 [4]])])) (log_of [(2, [Delete 3 [4]])])) w1" using w1 by simp
  from log_survives_crash [OF w ok run cr told dw] obtain w2 m where o: "open_on (\<lambda>_. 9) (wl_disk w) = Inr w2"
      "\<forall>low sink s. replay_log (\<lambda>_. 9) low sink s w2 =
         deliver sink (committed_above low ([(1, [DdlCatalog [7]])] @ take m [(2, [Delete 3 [4]])])) (s :: nat)" by blast
  show ?thesis using w w1 o by (intro exI [of _ w] exI [of _ w1] exI [of _ w2] exI [of _ "wl_disk w"]) auto
qed

text \<open>
  C17. Replay delivers what was committed. From a log that holds transactions and, behind
  them, the beginning of one that never committed, replay hands the sink every record of every
  transaction above the floor, begin and commit included, in log order, and nothing else.
\<close>

theorem replay_delivers_commits:
  assumes "list_all txn_ok (txns @ [t])" "n < length (txn_bodies t)" "wal_ok crc (log_of txns @ take n (txn_bodies t)) st w"
  shows "replay_log crc low sink s w = deliver sink (committed_above low txns) s"
proof -
  have "set (log_of txns @ take n (txn_bodies t)) \<subseteq> set (log_of (txns @ [t]))" by (auto simp: log_of_def dest: in_set_takeD)
  then have "raise_floor low (log_of txns @ take n (txn_bodies t)) = low" by (rule no_notes [OF assms(1)])
  then have "replay_log crc low sink s w = replay_bodies low sink (log_of txns @ take n (txn_bodies t)) [] s"
    using wal_frames [OF assms(3)] by (simp add: replay_log_def Let_def)
  then show ?thesis
    using replay_txns [of txns low sink _ s] replay_part [of t n] assms(1,2) by (auto split: prod.splits sum.splits)
qed

theorem replay_delivers_commits_witness:
  "\<exists>w. wal_ok (\<lambda>_. 9) (log_of [(1, [DdlCatalog [7]]), (2, [])]) [] w \<and>
    replay_log (\<lambda>_. 9) 1 (\<lambda>e rec s. (Inr (), s @ [e])) [] w = (Inr (), [2, 2])"
proof -
  define d0 where "d0 = \<lparr>di_image = [], di_writable = True, di_log = []\<rparr>"
  obtain wa where wa: "wal_ok (\<lambda>_. 9) [] [] wa" using open_empty [of d0 "\<lambda>_. 9"] by (auto simp: d0_def)
  have t: "txn_ok (1, [DdlCatalog [7]])" "txn_ok (2, [])"
    by (simp_all add: txn_ok_def plain_def body_ok_def record_body_def MIN_BODY_def)
  obtain wb where wb: "wal_ok (\<lambda>_. 9) (txn_bodies (1, [DdlCatalog [7]])) [] wb" using put_txn [OF wa t(1)] by auto
  obtain w where w: "wal_ok (\<lambda>_. 9) (log_of [(1, [DdlCatalog [7]]), (2, [])]) [] w" using put_txn [OF wb t(2)] by (auto simp: log_of_def)
  then have "wal_ok (\<lambda>_. 9) (log_of [(1, [DdlCatalog [7]]), (2, [])] @ take 0 (txn_bodies (2, []))) [] w" by simp
  from replay_delivers_commits [OF _ _ this, of 1 "\<lambda>e rec s. (Inr (), s @ [e])" "[]"] t
  have "replay_log (\<lambda>_. 9) 1 (\<lambda>e rec s. (Inr (), s @ [e])) [] w = (Inr (), [2, 2])"
    by (simp add: committed_above_def entries_def txn_bodies_def)
  then show ?thesis using w by blast
qed



text \<open>
  C20. Only what was written decodes. A payload decodes to a record under a kind exactly when
  the kind is the record's, the payload is its encoding, the counts fit their fields and the
  lists that run side by side are equally long; every other payload is an error.
\<close>

theorem wal_record_exact:
  "record_decode kind \<lparr>rd_buf = b, rd_pos = 0\<rparr> = Inr rec \<longleftrightarrow> kind = wal_kind rec \<and> b = encode_payload rec \<and> wal_fits rec"
  by (rule record_exact)

text \<open>
  C21. A commit that returned is on the platter. Whatever the interleaving of writers staging,
  leading, pausing, sleeping, waking for no reason and failing to sync, as long as no cut is
  made while a sync is in the air: a caller that was told yes has its bytes covered by a sync,
  or the log has been cut since; what is marked durable is on the platter and never more than
  is staged; and there is at most one leader.
\<close>

theorem group_commit_durable:
  assumes "(gc_step True)\<^sup>*\<^sup>* (gc_start len n) s"
  shows "(\<forall>need g. Returned need g True \<in> set (gc_calls s) \<longrightarrow> g < gc_cuts s \<or> need \<le> gc_platter s) \<and>
    mk_durable (gc_marks s) \<le> gc_platter s \<and> gc_platter s \<le> mk_staged (gc_marks s) \<and> many leads (gc_calls s) \<le> 1"
  using run_durable [OF assms] run_ok [OF assms] by (fastforce simp: gc_durable_def gc_ok_def list_all_iff caller_ok_def)

text \<open>One writer stages a commit of fifty bytes, leads, and its sync lands.\<close>

theorem group_commit_durable_witness:
  "\<exists>s. (gc_step True)\<^sup>*\<^sup>* (gc_start 0 1) s \<and> Returned 50 0 True \<in> set (gc_calls s) \<and> 50 \<le> gc_platter s"
proof -
  define m1 where "m1 = (commits_new 0)\<lparr>mk_staged := 50\<rparr>"
  define m2 where "m2 = m1\<lparr>mk_waiting := 1, mk_running := Some 50\<rparr>"
  define m3 where "m3 = m2\<lparr>mk_running := None, mk_durable := 50, mk_cost := 4, mk_group := 1, mk_waiting := 0\<rparr>"
  note defs = m1_def m2_def m3_def commits_new_def
  let ?s = "\<lambda>m cs p. \<lparr>gc_marks = m, gc_calls = cs, gc_platter = p, gc_cuts = 0\<rparr>"
  have "gc_step True (gc_start 0 1) (?s m1 [Called 50 0 False] 0)"
    using gc_env.stage [of 0 "gc_start 0 1" 50 True] by (simp add: gc_step_def gc_start_def marks_staged_def defs)
  moreover have "gc_step True (?s m1 [Called 50 0 False] 0) (?s m2 [Syncing 50 0 50 0] 0)"
    using gc_act.turn [of 0 "?s m1 [Called 50 0 False] 0" 50 0 False "Sync 50" m2]
    by (simp add: gc_step_def after_turn_def sync_turn_def covered_def gather_def lead_def defs)
  moreover have "gc_step True (?s m2 [Syncing 50 0 50 0] 0) (?s m3 [Returned 50 0 True] 50)"
    using gc_act.land [of 0 "?s m2 [Syncing 50 0 50 0] 0" 50 0 50 0 True 4 m3]
    by (simp add: gc_step_def sync_land_def stop_waiting_def wake_def defs)
  ultimately have run: "(gc_step True)\<^sup>*\<^sup>* (gc_start 0 1) (?s m3 [Returned 50 0 True] 50)"
    by (meson rtranclp.rtrancl_refl rtranclp.rtrancl_into_rtrancl)
  show ?thesis using group_commit_durable [OF run] run by (intro exI [of _ "?s m3 [Returned 50 0 True] 50"]) simp
qed

text \<open>
  C22. No commit waits for ever. In every state of every interleaving, cuts in the air
  included, the callers cannot take steps without end, and as long as one has not returned
  some caller can take a step: nobody sleeps through the landing it waits for, and the count
  of the waiting never underflows. So every call returns.
\<close>

theorem group_commit_returns:
  assumes "(gc_step calm)\<^sup>*\<^sup>* (gc_start len n) s"
  shows "(\<nexists>f. f 0 = s \<and> (\<forall>k :: nat. gc_act (f k) (f (Suc k)))) \<and>
    (\<exists>s1. gc_act\<^sup>*\<^sup>* s s1 \<and> list_all at_rest (gc_calls s1)) \<and>
    (list_all at_rest (gc_calls s) \<or> (\<exists>s1. gc_act s s1))"
  using no_endless_run all_return [OF run_ok [OF assms]] someone_acts [OF run_ok [OF assms]] by blast

theorem group_commit_returns_witness:
  "\<exists>s s1. (gc_step False)\<^sup>*\<^sup>* (gc_start 0 1) s \<and> gc_calls s = [Called 8 0 False] \<and> gc_act\<^sup>*\<^sup>* s s1 \<and> list_all at_rest (gc_calls s1)"
proof -
  let ?s = "(gc_start 0 1)\<lparr>gc_marks := marks_staged 8 (commits_new 0), gc_calls := [Called 8 0 False]\<rparr>"
  have "gc_env False (gc_start 0 1) ?s"
    using gc_env.stage [of 0 "gc_start 0 1" 8 False] by (simp add: gc_start_def commits_new_def)
  then have run: "(gc_step False)\<^sup>*\<^sup>* (gc_start 0 1) ?s" by (simp add: gc_step_def r_into_rtranclp)
  obtain s1 where "gc_act\<^sup>*\<^sup>* ?s s1" "list_all at_rest (gc_calls s1)" using group_commit_returns [OF run] by blast
  then show ?thesis using run by (intro exI [of _ ?s] exI [of _ s1]) simp
qed

section \<open>The encoding cascade\<close>

text \<open>
  C23. What the cascade writes, the dispatcher reads back. For every chunk up to the size
  bound and whatever chunks the counting table has seen before, \<^verbatim>\<open>segment::encode_auto\<close>
  returns without a panic, the buffer opens with the id it reports, and
  \<^verbatim>\<open>segment::decode_any\<close> on that buffer, with any bytes behind it and any ceiling that
  admits the chunk, appends exactly the chunk.
\<close>

theorem cascade_roundtrip:
  assumes "table_ok t" "length vs \<le> 2 ^ 27" "length vs \<le> max_values"
  shows "\<exists>e b t'. encode_auto t vs = Some (e, b, t') \<and> hd b = id_byte e \<and> table_ok t' \<and>
    decode_any (b @ rest) max_values out = Some (Inr (), out @ vs)"
proof -
  obtain e t1 b t2 where c: "encode_with e t1 vs = Some (b, t2)"
      "encode_auto t vs = Some (e, id_byte e # b, t2)" "table_ok t1" "table_ok t2" "legal_for e vs"
    using encode_auto_correct [OF assms(1,2)] by metis
  moreover have "decode_any (id_byte e # b @ rest) max_values out = Some (Inr (), out @ vs)"
    by (rule decode_any_roundtrip [OF c(1) c(5) c(3) assms(2,3)])
  ultimately show ?thesis by simp
qed

theorem cascade_roundtrip_witness:
  "\<exists>e b t'. encode_auto empty_table [7, 7, 9, 7] = Some (e, b, t') \<and> hd b = id_byte e \<and> table_ok t' \<and>
    decode_any (b @ [255]) 4 [1] = Some (Inr (), [1, 7, 7, 9, 7])"
  using cascade_roundtrip [OF table_ok_empty, of "[7, 7, 9, 7]" 4 "[255]" "[1]"] by simp

text \<open>
  C24. The cascade never ships more than the plain layout. The encoding it picks is the one
  it writes (the size guard behind the choice is never taken), and the body is at most as
  long as the plain body of the chunk, so the buffer is at most one byte longer.
\<close>

theorem cascade_never_larger_than_plain:
  assumes "table_ok t" "length vs \<le> 2 ^ 27"
  shows "\<exists>e t1 b t2. choose_encoding t vs = Some (e, t1) \<and> encode_with e t1 vs = Some (b, t2) \<and>
    encode_auto t vs = Some (e, id_byte e # b, t2) \<and> length b \<le> length (encode_plain vs)"
proof -
  have "length (encode_plain vs) = 4 + 8 * length vs"
    using length_concat_uniform [of "map u64_le vs" 8] by (simp add: encode_plain_def)
  then show ?thesis using encode_auto_correct [OF assms] by metis
qed

theorem cascade_never_larger_than_plain_witness:
  "\<exists>e t1 b t2. choose_encoding empty_table [4, 2, 6] = Some (e, t1) \<and> encode_with e t1 [4, 2, 6] = Some (b, t2) \<and>
    encode_auto empty_table [4, 2, 6] = Some (e, id_byte e # b, t2) \<and> length b \<le> length (encode_plain [4, 2, 6])"
  using cascade_never_larger_than_plain [OF table_ok_empty, of "[4, 2, 6]"] by simp

text \<open>
  C25. No bytes break the dispatcher. On every input \<^verbatim>\<open>segment::decode_any\<close> returns (no
  panic, no index out of range), what it leaves in the caller's vector extends what was
  there, and the extension is never longer than the caller's ceiling, whether the call
  succeeds or fails.
\<close>

theorem decode_any_hostile:
  "\<exists>r vs. decode_any bytes max_values out = Some (r, out @ vs) \<and> length vs \<le> max_values"
  by (rule decode_any_safe)

text \<open>
  The prices the cascade compares are sound. For a chunk and the shape one pass reads
  off it, the bytes an encoding writes are at most its price; for the two frame of
  reference forms, the patched deltas and the boolean form they are the price to the byte.
\<close>

theorem price_sound:
  assumes "table_ok t" "length vs \<le> 2 ^ 27" "vs \<noteq> []" "shape_read t vs = Some (sh, t1)"
    and "price sh e = Some n" "encode_with e t1 vs = Some (b, t2)"
  shows "length b \<le> n \<and> (e \<notin> {ForBitPack, DeltaBitPack, DeltaPatch, BoolBitpackId} \<or> length b = n)"
proof -
  have sh: "table_ok t1" "shape_of vs sh"
    using shape_read_correct [OF assms(1-3)] assms(4) by auto
  then show ?thesis using price_bounds [OF sh(2) assms(5) sh(1) assms(2,6,3)]
      price_exact [OF sh(2) assms(5) _ assms(6,3)] by blast
qed

theorem price_sound_witness:
  "\<exists>sh t1 n b t2. shape_read empty_table [500, 300] = Some (sh, t1) \<and> price sh ForBitPack = Some n \<and>
    encode_with ForBitPack t1 [500, 300] = Some (b, t2) \<and> length b = n"
proof -
  obtain sh t1 where sh: "shape_read empty_table [500, 300] = Some (sh, t1)" "table_ok t1"
    by (rule shape_read_correct [OF table_ok_empty, of "[500, 300]"]) auto
  moreover obtain n where n: "price sh ForBitPack = Some n" by (simp add: price_def Let_def)
  moreover obtain b t2 where b: "encode_with ForBitPack t1 [500, 300] = Some (b, t2)"
    using encode_with_total [of ForBitPack "[500, 300]" t1] sh(2) by (auto simp: legal_for_def)
  moreover have "length b = n"
    using price_sound [OF table_ok_empty _ _ sh(1) n b] by simp
  ultimately show ?thesis by blast
qed

text \<open>
  C26. The choice is the best of the frame containers: for a non-empty chunk no plain, frame
  of reference, delta or patched delta body is shorter than the body the cascade wrote.
\<close>

theorem cascade_unbeaten:
  assumes "table_ok t" "length vs \<le> 2 ^ 27" "vs \<noteq> []" "encode_auto t vs = Some (e, b, t2)"
    and "e' \<in> {Plain, ForBitPack, DeltaBitPack, DeltaPatch}" "encode_with e' t' vs = Some (b', t'')"
  shows "length b \<le> 1 + length b'"
  by (rule encode_auto_unbeaten [OF assms])

theorem cascade_unbeaten_witness:
  "\<exists>e b t2 b'. encode_auto empty_table [10, 20, 30] = Some (e, b, t2) \<and>
    encode_with DeltaPatch empty_table [10, 20, 30] = Some (b', empty_table) \<and> length b \<le> 1 + length b'"
proof -
  obtain e b t2 where a: "encode_auto empty_table [10, 20, 30] = Some (e, b, t2)"
    by (rule encode_auto_correct [OF table_ok_empty, of "[10, 20, 30]"]) auto
  obtain b' where b': "encode_with DeltaPatch empty_table [10, 20, 30] = Some (b', empty_table)"
    using encode_with_total [of DeltaPatch "[10, 20, 30]" empty_table] table_ok_empty
    by (auto simp: legal_for_def encode_with_def)
  show ?thesis using cascade_unbeaten [OF table_ok_empty _ _ a _ b'] a b' by auto
qed

text \<open>
  C27. Every encoding the format allows for a chunk round trips on its own, not only the one
  the cascade would pick: encoding with it never fails, and the dispatcher reads the id
  byte and the body back to the chunk. A dictionary is allowed up to its format cap, the
  boolean form for 0 and 1 only, the constant form for one repeated value.
\<close>

theorem every_legal_encoding_roundtrips:
  assumes "legal_for e vs" "table_ok t" "length vs \<le> 2 ^ 27" "length vs \<le> max_values"
  shows "\<exists>b t'. encode_with e t vs = Some (b, t') \<and>
    decode_any (id_byte e # b @ rest) max_values out = Some (Inr (), out @ vs)"
  using encode_with_total [OF assms(1-3)] decode_any_roundtrip [OF _ assms] by metis

theorem every_legal_encoding_roundtrips_witness:
  "\<exists>b t'. encode_with DictId empty_table [900, 3, 900] = Some (b, t') \<and>
    decode_any (id_byte DictId # b @ [0]) 3 [] = Some (Inr (), [900, 3, 900])"
proof -
  have "legal_for DictId [900, 3, 900]"
    using card_length [of "[900, 3, 900 :: u64]"] by (simp add: legal_for_def MAX_ENTRIES_def)
  then show ?thesis
    using every_legal_encoding_roundtrips [OF _ table_ok_empty, of DictId "[900, 3, 900]" 3 "[0]" "[]"] by simp
qed

text \<open>
  A rejected payload leaves the caller's vector as it was, for the three decoders that
  promise it: run lengths, the frequency form and the boolean form either append at most
  the ceiling and succeed, or fail and append nothing.
\<close>

theorem rejected_payload_leaves_no_values:
  "\<forall>dec \<in> {rle_decode, freq_decode, bool_decode}.
     (\<exists>vs. dec bytes max_values out = Some (Inr (), out @ vs) \<and> length vs \<le> max_values) \<or>
     (\<exists>err. dec bytes max_values out = Some (Inl err, out))"
proof -
  have "(\<exists>vs. d = Some (Inr (), out @ vs) \<and> length vs \<le> max_values) \<or> (\<exists>err. d = Some (Inl err, out))"
    if d: "\<exists>r vs. d = Some (r, out @ vs) \<and> length vs \<le> max_values \<and> ((\<exists>e. r = Inl e) \<longrightarrow> vs = [])"
    for d :: "(unit result \<times> u64 list) option"
  proof -
    obtain r vs where "d = Some (r, out @ vs)" "length vs \<le> max_values" "(\<exists>e. r = Inl e) \<longrightarrow> vs = []"
      using d by blast
    then show ?thesis by (cases r) auto
  qed
  note this [OF rle_decode_total] this [OF freq_decode_total] this [OF bool_decode_total]
  then show ?thesis by blast
qed

theorem rejected_payload_leaves_no_values_witness:
  "\<exists>err. bool_decode [9, 0, 0, 0, 255] 4 [5] = Some (Inl err, [5])"
proof -
  have "(\<exists>vs. bool_decode [9, 0, 0, 0, 255] 4 [5] = Some (Inr (), [5] @ vs) \<and> length vs \<le> 4) \<or>
     (\<exists>err. bool_decode [9, 0, 0, 0, 255] 4 [5] = Some (Inl err, [5]))"
    using rejected_payload_leaves_no_values [of "[9, 0, 0, 0, 255]" 4 "[5]"] by blast
  moreover have "read_u32 [9, 0, 0, 0] = 9" by (simp add: read_u32_def)
  ultimately show ?thesis by (auto simp: bool_decode_def get_range_def)
qed

section \<open>What the containers rest on\<close>

text \<open>
  C28. The counting table counts. From any table an earlier pass left, one pass returns
  without a panic, reports the number of distinct values exactly when it is within the cap
  and nothing past it, names a value of the chunk with its true number of occurrences, and
  below the cap no value occurs more often than the one it names.
\<close>

theorem count_values_exact:
  assumes "table_ok t" "length vs \<le> 2 ^ 27" "0 < cap" "vs \<noteq> []"
  shows "\<exists>c t'. count_values t vs cap = Some (c, t') \<and> table_ok t' \<and>
    c_distinct c = (if card (set vs) \<le> cap then Some (card (set vs)) else None) \<and>
    c_top c \<in> set vs \<and> c_top_count c = count_list vs (c_top c) \<and>
    (card (set vs) \<le> cap \<longrightarrow> (\<forall>v. count_list vs v \<le> c_top_count c))"
  using assms(4) by (rule_tac count_values_correct [OF assms(1-3)]) blast

theorem count_values_exact_witness:
  "\<exists>c t'. count_values empty_table [5, 6, 5] 100 = Some (c, t') \<and> c_distinct c = Some 2 \<and> 2 \<le> c_top_count c"
proof -
  have card: "card (set [5, 6, 5 :: u64]) = 2"
    by (subst list.set, subst card_insert_if, simp, subst if_P, simp) (simp add: card_insert_if)
  define vs where "vs = [5, 6, 5 :: u64]"
  have vs: "length vs \<le> 2 ^ 27" "vs \<noteq> []" "count_list vs 5 = 2" "card (set vs) = 2"
    using card by (simp_all add: vs_def)
  obtain c t' where "count_values empty_table vs 100 = Some (c, t')" "c_distinct c = Some 2"
      "\<forall>v. count_list vs v \<le> c_top_count c"
    using count_values_exact [OF table_ok_empty vs(1) _ vs(2), of 100] vs(4) by auto
  then show ?thesis using vs(3) unfolding vs_def by metis
qed

text \<open>
  C29. The patched container picks the best width: the bytes it writes for a block are at
  most what any other width would cost, counting the packed body, the presence bitmap and
  the exceptions above that width.
\<close>

theorem patch_width_optimal:
  assumes "length chunk \<le> CHUNK" "patch_encode_chunk chunk = Some b" "w \<le> chunk_max_width chunk"
  shows "length b \<le> 2 + patch_cost chunk w"
  using patch_encode_chunk_length [OF assms(1,2)] patch_width_best [of chunk] assms(3) by auto

theorem patch_width_optimal_witness:
  "\<exists>b. patch_encode_chunk [1, 2, 3, 2 ^ 40] = Some b \<and> length b \<le> 2 + patch_cost [1, 2, 3, 2 ^ 40] 2"
proof -
  let ?c = "[1, 2, 3, 2 ^ 40] :: u64 list"
  have l: "length ?c \<le> CHUNK" by (simp add: CHUNK_def)
  obtain b where b: "patch_encode_chunk ?c = Some b"
    using patch_encode_chunk_Some [OF l] by blast
  have "bits_needed (2 ^ 40 :: u64) \<le> chunk_max_width ?c" 
    using fold_max_width [of 0 ?c] by (simp add: chunk_max_width_def)
  moreover have "\<not> bits_needed (2 ^ 40 :: u64) \<le> 1" by (simp add: bits_needed_le_iff)
  ultimately have "2 \<le> chunk_max_width ?c" by linarith
  then show ?thesis using patch_width_optimal [OF l b] b by blast
qed

text \<open>
  C30. Packing loses nothing below its width, in either layout. For every width and up to a
  full block, \<^verbatim>\<open>bitpack::pack\<close> writes exactly \<^verbatim>\<open>packed_bytes\<close> bytes and \<^verbatim>\<open>unpack\<close> gives back
  every value modulo two to the width, then zeros to the end of the block.
\<close>

theorem pack_unpack_exact:
  assumes "w \<le> 64" "length vs \<le> CHUNK"
  shows "\<exists>b. pack vs w = Some b \<and> length b = packed_bytes w (length vs) \<and>
    unpack b w = Some (map (take_bit w) vs @ replicate (CHUNK - length vs) 0)"
  by (rule pack_unpack [OF assms]) blast

theorem pack_unpack_exact_witness:
  "\<exists>b. pack [5, 0, 7] 3 = Some b \<and> length b = 8 \<and> unpack b 3 = Some ([5, 0, 7] @ replicate 1021 0)"
  using pack_unpack_exact [of 3 "[5, 0, 7]"] by (simp add: CHUNK_def packed_bytes_def)

text \<open>
  Zigzag is the map it is named for, on every 64 bit difference: a non-negative
  difference becomes its double, a negative one the odd number below the double of its
  size, and \<^verbatim>\<open>unzigzag\<close> is its two sided inverse.
\<close>

theorem zigzag_exact:
  "uint (zigzag v) = (if sint v < 0 then - 2 * sint v - 1 else 2 * sint v) \<and>
   unzigzag (zigzag v) = v \<and> zigzag (unzigzag v) = v"
  by (simp add: zigzag_value)

section \<open>String compression\<close>

text \<open>
  C31. Training, encoding and decoding compose to the identity. On every buffer below 4 GiB
  training ends with a table, the encoder writes with it, and the decoder returns the
  buffer, whatever the ceiling that admits it and whatever was in the output before.
\<close>

theorem fsst_train_encode_decode:
  assumes "length bytes < 2 ^ 32" "length bytes \<le> max_bytes"
  shows "\<exists>b. fsst_encode bytes = Some b \<and> fsst_decode b max_bytes out = Some (Inr (), out @ bytes)"
  by (rule fsst_roundtrip [OF assms])

theorem fsst_train_encode_decode_witness:
  "\<exists>b. fsst_encode [97, 98, 97, 98] = Some b \<and> fsst_decode b 10 [1] = Some (Inr (), [1, 97, 98, 97, 98])"
  using fsst_train_encode_decode [of "[97, 98, 97, 98]" 10 "[1]"] by simp

text \<open>
  The index finds the longest match. On any legal symbol table, at any position inside
  the buffer, the lookup returns without a panic; a match it reports is a symbol the rest
  of the buffer starts with and no such symbol is longer, and when it reports none there is
  none.
\<close>

theorem best_match_is_longest:
  assumes "symbols_ok syms" "index_new syms = Some ix" "pos < length bytes"
  shows "\<exists>m. best_match ix bytes pos = Some m \<and> longest syms (drop pos bytes) m"
proof -
  obtain ix' where "index_new syms = Some ix'" "fi_syms ix' = syms" "index_ok ix'"
    by (rule index_new_ok [OF assms(1)])
  then show ?thesis using best_match_longest [of ix pos bytes] assms(2,3) by fastforce
qed

theorem best_match_is_longest_witness:
  "\<exists>ix m. index_new [[1], [1, 2], [1, 2, 3]] = Some ix \<and> best_match ix [0, 1, 2, 4] 1 = Some m \<and>
    longest [[1], [1, 2], [1, 2, 3]] [1, 2, 4] m"
proof -
  let ?s = "[[1], [1, 2], [1, 2, 3]] :: u8 list list"
  have ok: "symbols_ok ?s" by (simp add: symbols_ok_def MAX_SYMBOLS_def MAX_SYMBOL_LEN_def)
  obtain ix where ix: "index_new ?s = Some ix" using index_new_ok [OF ok] by blast
  then show ?thesis using best_match_is_longest [OF ok ix, of 1 "[0, 1, 2, 4]"] by auto
qed

text \<open>
  A table can be recovered from any buffer written with it: \<^verbatim>\<open>Table::read\<close> on the
  encoded buffer is the trained table, so a rewrite encodes every buffer to the same bytes,
  and \<^verbatim>\<open>header_len\<close> is exactly what the table costs a buffer (an empty buffer is its
  header).
\<close>

theorem fsst_table_recovered:
  assumes "symbols_ok syms" "index_new syms = Some ix" "table_encode ix bytes = Some b"
  shows "table_read b = Some (Inr ix) \<and> table_encode ix [] = Some (take (header_len ix) (len_le 0 @ drop 4 b))"
proof -
  obtain ix' where "index_new syms = Some ix'" "fi_syms ix' = syms" "index_ok ix'"
    by (rule index_new_ok [OF assms(1)])
  then have ok: "index_ok ix" "fi_syms ix = syms" using assms(2) by auto
  have "table_read b = Some (Inr ix)" using fsst_table_read [OF ok(1) assms(3)] ok(2) assms(2) by simp
  moreover have "table_encode ix [] = Some (take (header_len ix) (len_le 0 @ drop 4 b))"
    by (rule header_of_empty [OF assms(3)])
  ultimately show ?thesis by blast
qed

theorem fsst_table_recovered_witness:
  "\<exists>ix b. index_new [[104, 105], [33]] = Some ix \<and> table_encode ix [104, 105, 33, 7] = Some b \<and>
    table_read b = Some (Inr ix)"
proof -
  let ?s = "[[104, 105], [33]] :: u8 list list"
  have ok: "symbols_ok ?s" by (simp add: symbols_ok_def MAX_SYMBOLS_def MAX_SYMBOL_LEN_def)
  obtain ix where ix: "index_new ?s = Some ix" "index_ok ix" using index_new_ok [OF ok] by blast
  obtain b where b: "table_encode ix [104, 105, 33, 7] = Some b"
    by (rule table_encode_Some [OF ix(2), of "[104, 105, 33, 7]"]) blast
  show ?thesis using fsst_table_recovered [OF ok ix(1) b] ix(1) b by blast
qed

text \<open>
  C32. No payload breaks the string decoder: on every input it returns, and either it
  appends at most the ceiling, or it reports an error with the output as it was.
\<close>

theorem fsst_decode_hostile:
  "(\<exists>vs. fsst_decode bytes max_bytes out = Some (Inr (), out @ vs) \<and> length vs \<le> max_bytes) \<or>
   (\<exists>err. fsst_decode bytes max_bytes out = Some (Inl err, out))"
proof -
  obtain r vs where "fsst_decode bytes max_bytes out = Some (r, out @ vs)" "length vs \<le> max_bytes"
      "(\<exists>e. r = Inl e) \<longrightarrow> vs = []"
    using fsst_decode_total by metis
  then show ?thesis by (cases r) auto
qed

section \<open>Validity bitmaps\<close>

text \<open>
  C33. The bitmap container keeps its bitmap: a well formed bitmap of fewer than
  \<open>2 ^ 32\<close> rows, encoded and decoded with any bytes behind it, is the same bitmap.
\<close>

theorem validity_codec:
  assumes "validity_wf v" "v_len v < 2 ^ 32"
  shows "validity_decode (validity_encode v @ rest) = Inr v"
  by (rule validity_roundtrip [OF assms])

theorem validity_codec_witness:
  "validity_decode (validity_encode (new_all_valid 70) @ [1]) = Inr (new_all_valid 70)"
proof -
  have "v_len (new_all_valid 70) = 70" by (simp add: new_all_valid_def clear_tail_def Let_def)
  then show ?thesis using validity_codec [of "new_all_valid 70" "[1]"] new_all_valid_get [of 70] by simp
qed

text \<open>
  C34. Only canonical bytes decode: a bitmap that decodes is well formed (its word count
  matches its length and no bit is set past the end) and the input is its encoding followed
  by bytes the decoder does not look at.
\<close>

theorem validity_decode_only_canonical:
  assumes "validity_decode bytes = Inr v"
  shows "validity_wf v \<and> (\<exists>rest. bytes = validity_encode v @ rest)"
  using validity_decode_wf [OF assms] validity_decode_canonical [OF assms] by blast

theorem validity_decode_only_canonical_witness:
  "\<exists>rest. validity_encode (new_all_null 3) @ [8] = validity_encode (new_all_null 3) @ rest \<and> validity_wf (new_all_null 3)"
proof -
  have "validity_decode (validity_encode (new_all_null 3) @ [8]) = Inr (new_all_null 3)"
    by (rule validity_roundtrip) (simp_all add: wf_new_all_null, simp add: new_all_null_def)
  then show ?thesis using validity_decode_only_canonical by blast
qed

text \<open>
  Rows are independent and counted. Setting a row of a well formed bitmap succeeds,
  keeps it well formed, makes that row valid and leaves every other row as it was; the
  number of valid rows grows by one exactly when the row was null.
\<close>

theorem validity_set_one_row:
  assumes "validity_wf v" "i < v_len v"
  shows "\<exists>v'. v_set v i = Some v' \<and> validity_wf v' \<and> v_len v' = v_len v \<and>
    (\<forall>j. v_get v' j = (if j = i then Some True else v_get v j)) \<and>
    count_valid v' = count_valid v + (if v_get v i = Some True then 0 else 1)"
proof -
  obtain v' where v': "v_set v i = Some v'" "validity_wf v'" "v_len v' = v_len v"
      "\<forall>j < v_len v. v_get v' j = (if j = i then Some True else v_get v j)"
    using validity_bits.put1_law [OF assms] by blast
  have out: "v_get v' j = v_get v j" if "\<not> j < v_len v" for j using that v'(3) by (simp add: v_get_def)
  have "v_get v' j = (if j = i then Some True else v_get v j)" for j
    by (cases "j < v_len v") (use v'(4) out assms(2) in auto)
  moreover have "count_valid v' = count_valid v + (if v_get v i = Some True then 0 else 1)"
    using validity_bits.count_put1 [OF assms v'(1)] by simp
  ultimately show ?thesis using v'(1-3) by blast
qed

theorem validity_set_one_row_witness:
  "\<exists>v'. v_set (new_all_null 66) 65 = Some v' \<and> v_get v' 65 = Some True \<and> count_valid v' = count_valid (new_all_null 66) + 1"
proof -
  have "v_len (new_all_null 66) = 66" "v_get (new_all_null 66) 65 = Some False"
    by (simp_all add: new_all_null_def v_get_def words_for_def test_bit_def)
  then show ?thesis using validity_set_one_row [OF wf_new_all_null, of 65 66] by fastforce
qed

section \<open>Identifiers and keys\<close>

text \<open>
  C35. A packed node id holds its parts and sorts by them. When the constructor's checks
  pass, the three readers give back table, group and row, the eleven reserved bits are
  zero, the row index of the table is \<open>group * 2 ^ 17 + row\<close>, and comparing two ids as
  integers compares table, then group, then row.
\<close>

theorem node_id_packs:
  assumes "node_new t g r = Some a" "node_new t' g' r' = Some b"
  shows "node_table a = t \<and> node_group a = g \<and> node_row a = r \<and>
    (case a of NodeId w \<Rightarrow> take_bit 11 w = 0) \<and> unat (table_row a) = unat g * 2 ^ 17 + unat r \<and>
    (a < b \<longleftrightarrow> t < t' \<or> t = t' \<and> (g < g' \<or> g = g' \<and> r < r'))"
proof -
  obtain w where w: "a = NodeId w" by (cases a)
  have "take_bit 11 w = 0"
    using node_reserved [of t g r w] assms(1) w by (intro bit_word_eqI) (auto simp: bit_take_bit_iff)
  then show ?thesis
    using node_unpack [OF assms(1)] table_row_value(1) [OF assms(1)] node_order [OF assms] w by simp
qed

theorem node_id_packs_witness:
  "\<exists>a b. node_new 3 4 5 = Some a \<and> node_new 3 4 6 = Some b \<and> node_row a = 5 \<and> a < b"
proof -
  obtain a b where ab: "node_new 3 4 5 = Some a" "node_new 3 4 6 = Some b" by (simp add: node_new_Some)
  show ?thesis using node_id_packs [OF ab] ab by simp
qed

text \<open>
  C36. The byte key of an integer sorts as the integer: comparing two keys byte by byte,
  most significant first, is comparing the signed numbers.
\<close>

theorem int_key_sorts_signed: "int_key v < int_key w \<longleftrightarrow> sint v < sint w"
  using int_key_order [of v w] by (simp add: word_sless_alt)

text \<open>
  Byte strings survive their spelling. Every byte string has a spelling, two hexits to
  a byte, that reads back to it; reading ignores ASCII space wherever it stands.
\<close>

theorem byte_literal_roundtrip:
  "\<exists>h. hexits bs = Some h \<and> length h = 2 * length bs \<and> from_hexits h = Some bs"
  using hexits_roundtrip by blast

text \<open>
  What reads is canonical up to case and space: if a text reads as bytes, spelling
  those bytes gives the text with its space dropped and its letters raised.
\<close>

theorem byte_literal_canonical:
  assumes "from_hexits txt = Some bs"
  shows "hexits bs = Some (map ascii_upper (filter (\<lambda>c. \<not> ascii_space c) txt))"
  by (rule hexits_canonical [OF assms])

theorem byte_literal_canonical_witness: "hexits [171] = Some ''AB''"
proof -
  have r: "from_hexits ''a b'' = Some [171]" by code_simp
  have "map ascii_upper (filter (\<lambda>c. \<not> ascii_space c) ''a b'') = ''AB''" by code_simp
  then show ?thesis using byte_literal_canonical [OF r] by simp
qed

text \<open>
  The id hash loses nothing: mixing one key is a bijection of the 64 bit words, so two
  ids of a map never collide on the whole hash.
\<close>

theorem id_hash_injective: "bij mix" by (rule mix_bij)

section \<open>Snapshots\<close>

text \<open>
  C37. The fold horizon never passes a reader. In every state the interleavings of readers
  pinning and unpinning with the writer advancing and scanning can reach, each horizon the
  writer has been given is at or below every epoch a reader holds pinned, and at or below
  the committed epoch.
\<close>

theorem horizon_never_passes_a_pin:
  assumes "epoch_reachable e0 st" "e0 \<noteq> EMPTY" "h \<in> set (es_returned st)" "es_readers st s = Pinned e"
  shows "h \<le> e \<and> h \<le> lg_committed (es_ledger st)"
  using horizon_below_pins [OF assms(1-3)] assms(4) by blast

text \<open>One reader pins, then the writer scans all eight slots.\<close>

theorem horizon_never_passes_a_pin_witness:
  "\<exists>st h e. epoch_reachable 7 st \<and> h \<in> set (es_returned st) \<and> es_readers st 2 = Pinned e \<and>
    h \<le> e \<and> h \<le> lg_committed (es_ledger st)"
proof -
  obtain st where st: "epoch_reachable 7 st" "7 \<in> set (es_returned st)" "es_readers st 2 = Pinned 7"
    using epoch_example by metis
  have "(7 :: u64) \<noteq> EMPTY" by (simp add: EMPTY_def)
  then show ?thesis using horizon_never_passes_a_pin [OF st(1) _ st(2,3)] st by blast
qed

section \<open>Selections and intersections\<close>

text \<open>
  A filter keeps the rows its bitmap names. Over a bitmap of at most one vector,
  \<^verbatim>\<open>SelVector::from_bitmap\<close> succeeds whatever the recycled block holds and selects the rows
  whose bit is set, in order, as many as the bitmap counts.
\<close>

theorem bitmap_to_selection:
  assumes "bitmap_wf bits" "bm_len bits \<le> VECTOR_SIZE" "length buf = bm_len bits"
  shows "\<exists>sel. sel_from_bitmap buf bits = Some sel \<and> sv_len sel = bm_count_ones bits \<and>
    sel_slice sel = map word_of_nat (filter (\<lambda>i. bm_get bits i = Some True) [0..<bm_len bits])"
  by (rule sel_from_bitmap_correct [OF assms])

theorem bitmap_to_selection_witness:
  "\<exists>bits sel. bitmap_new [77] 3 True = Some bits \<and> sel_from_bitmap [9, 9, 9] bits = Some sel \<and> sel_slice sel = [0, 1, 2]"
proof -
  have "length [77 :: u64] = words_for 3" by (simp add: words_for_def)
  then obtain bits where b: "bitmap_new [77] 3 True = Some bits" "bitmap_wf bits" "bm_len bits = 3"
      "\<forall>i < 3. bm_get bits i = Some True"
    using bitmap_new_correct [of "[77]" 3 True] by auto
  have "[0..<3] = [0, 1, 2]" by (simp add: upt_rec)
  then show ?thesis
    using bitmap_to_selection [OF b(2), of "[9, 9, 9]"] b by (auto simp: VECTOR_SIZE_def)
qed

text \<open>
  Refining a selection by a bitmap is filtering it: the rows already selected whose
  bit is set stay, in order, and nothing else.
\<close>

theorem selection_refine_is_filter:
  assumes "bitmap_wf bits" "\<forall>r \<in> set (sel_slice sel). unat r < bm_len bits"
    and "length buf = length (sel_slice sel)" "length buf \<le> VECTOR_SIZE"
  shows "\<exists>out. sel_refine buf sel bits = Some out \<and>
    sel_slice out = filter (\<lambda>r. bm_get bits (unat r) = Some True) (sel_slice sel)"
  by (rule sel_refine_correct [OF assms])

theorem selection_refine_is_filter_witness:
  "\<exists>bits out. bitmap_new [77] 6 True = Some bits \<and>
    sel_refine [8, 8] \<lparr>sv_idx = [1, 4, 0], sv_len = 2\<rparr> bits = Some out \<and> sel_slice out = [1, 4]"
proof -
  have "length [77 :: u64] = words_for 6" by (simp add: words_for_def)
  then obtain bits where b: "bitmap_new [77] 6 True = Some bits" "bitmap_wf bits" "bm_len bits = 6"
      "\<forall>i < 6. bm_get bits i = Some True"
    using bitmap_new_correct [of "[77]" 6 True] by auto
  then show ?thesis
    using selection_refine_is_filter [OF b(2), of "\<lparr>sv_idx = [1, 4, 0], sv_len = 2\<rparr>" "[8, 8]"]
    by (auto simp: sel_slice_def VECTOR_SIZE_def)
qed

text \<open>
  A bitmap starts with the value asked for on every row, whatever its recycled block
  holds, and \<^verbatim>\<open>and_with\<close> and \<^verbatim>\<open>or_with\<close> combine two bitmaps row by row; all three keep the
  bits past the length zero, so the counts need no mask.
\<close>

theorem bitmap_new_and_or:
  assumes "length buf = words_for n" "n < 2 ^ 32" "bitmap_wf c" "bm_len c = n"
  shows "\<exists>b d e. bitmap_new buf n s = Some b \<and> and_with b c = Some d \<and> or_with b c = Some e \<and>
    bitmap_wf b \<and> bitmap_wf d \<and> bitmap_wf e \<and> bm_len d = n \<and> bm_len e = n \<and>
    (\<forall>i < n. bm_get b i = Some s \<and> bm_get d i = Some (s \<and> bm_get c i = Some True) \<and>
       bm_get e i = Some (s \<or> bm_get c i = Some True))"
proof -
  obtain b where b: "bitmap_new buf n s = Some b" "bitmap_wf b" "bm_len b = n" "\<forall>i < n. bm_get b i = Some s"
    using bitmap_new_correct [OF assms(1,2)] by blast
  have l: "bm_len b = bm_len c" using b assms(4) by simp
  show ?thesis
    using and_with_correct [OF b(2) assms(3) l] or_with_correct [OF b(2) assms(3) l] b by auto
qed

theorem bitmap_new_and_or_witness:
  "\<exists>b c d. bitmap_new [3, 4] 70 False = Some b \<and> bitmap_new [0, 0] 70 True = Some c \<and> or_with b c = Some d \<and>
    bm_get d 69 = Some True"
proof -
  have w: "length [3 :: u64, 4] = words_for 70" "length [0 :: u64, 0] = words_for 70" by (simp_all add: words_for_def)
  obtain c where c: "bitmap_new [0, 0] 70 True = Some c" "bitmap_wf c" "bm_len c = 70" "\<forall>i < 70. bm_get c i = Some True"
    using bitmap_new_correct [OF w(2), of True] by auto
  show ?thesis using bitmap_new_and_or [OF w(1) _ c(2,3), of False] c by auto
qed

text \<open>
  C38. Intersecting two neighbour lists. On ascending inputs and an output as long as the
  shorter, \<^verbatim>\<open>intersect_sorted\<close> returns without a panic on every path (gallop, interleaved
  segments or merge), and the output opens with exactly the common values, ascending; the
  rest of its length is kept.
\<close>

theorem intersect_sorted_exact:
  assumes "asc a" "asc b" "min (length a) (length b) \<le> length out"
  shows "\<exists>out'. intersect_sorted a b out = Some (length (meet a b), out') \<and> length out' = length out \<and>
    take (length (meet a b)) out' = meet a b"
  by (rule intersect_sorted_correct [OF assms])

theorem intersect_sorted_exact_witness:
  "\<exists>out'. intersect_sorted [1, 4, 6] [2, 4, 5, 6] [0, 0, 0] = Some (2, out') \<and> take 2 out' = [4, 6]"
proof -
  have m: "meet [1, 4, 6] [2, 4, 5, 6] = [4, 6]" and two: "length [4, 6 :: u64] = 2" by (simp_all add: meet_def)
  have "asc [1, 4, 6]" "asc [2, 4, 5, 6]" by simp_all
  then show ?thesis using intersect_sorted_exact [of "[1, 4, 6]" "[2, 4, 5, 6]" "[0, 0, 0]"] unfolding m two by auto
qed

section \<open>The object store manifest\<close>

text \<open>
  C39. The manifest format is exact. Whatever the checksum function, a byte string decodes
  to a snapshot precisely when it is that snapshot's encoding and the keys are UTF-8: what
  is written reads back, and no other bytes are accepted.
\<close>

theorem manifest_exact:
  "manifest_decode crc b = Inr m \<longleftrightarrow> manifest_encode crc m = Inr b \<and> list_all utf8_valid (m_segments m)"
  using manifest_roundtrip manifest_canonical by blast

section \<open>Overlays: commits, recovery and snapshots\<close>

text \<open>
  C2. A crash leaves a prefix of the commits. Take a store whose first commits are in a log on
  the platter, and write any part of the log of further commits, as the code stages, spills
  and reserves it. If the process dies anywhere in between and torn frames are told by their
  checksum, then the log opens, recovery returns a store without an error or a panic, and that store
  is the one the commits on the platter and the first few of the others leave: the same
  epoch, rows, values, labels, tombstones, edges and removed pairs.
\<close>

theorem crash_recovers_commits:
  assumes "run_fits low (olds @ news)" "txns_of low (olds @ news) = Some txns"
    and "wal_ok crc (log_of (take (length olds) txns)) [] w"
    and "log_runs crc w (take i (log_of (drop (length olds) txns))) w1"
    and "crash (drop (length (di_log (wl_disk w))) (di_log (wl_disk w1))) (di_image (wl_disk w)) (di_image d)"
    and "tear_told crc (di_image (wl_disk w1)) (di_image d) (wl_len w) (take i (log_of (drop (length olds) txns)))"
    and "di_writable d"
  shows "\<exists>w2 m k. open_on crc d = Inr w2 \<and> k \<le> length news \<and> recover_with crc resolve low w2 = Some (Inr m) \<and>
    same_store (fold live_commit (olds @ take k news) (mvcc_new low)) m"
  by (rule crash_run [OF assms])

text \<open>The only commit was staged and not a byte of it arrived.\<close>

theorem crash_recovers_commits_witness:
  "\<exists>w w1 w2 m k. wal_ok (\<lambda>_. 9) [] [] w \<and> log_runs (\<lambda>_. 9) w (log_of [(1, [Delete 3 [4]])]) w1 \<and> wl_disk w = \<lparr>di_image = [], di_writable = True, di_log = []\<rparr> \<and>
    open_on (\<lambda>_. 9) (wl_disk w) = Inr w2 \<and> recover_with (\<lambda>_. 9) no_resolver 0 w2 = Some (Inr m) \<and>
    same_store (fold live_commit (take k [[OpDelete 3 4]]) (mvcc_new 0)) m"
proof -
  define d0 where "d0 = \<lparr>di_image = [], di_writable = True, di_log = []\<rparr>"
  obtain w where w: "wal_ok (\<lambda>_. 9) [] [] w" "wl_disk w = d0" using open_empty [of d0 "\<lambda>_. 9"] by (auto simp: d0_def)
  have t: "txns_of 0 ([] @ [[OpDelete 3 4]]) = Some [(1, [Delete 3 [4]])]" using one_delete [of 0 3 4] by simp
  have fits: "run_fits 0 ([] @ [[OpDelete 3 4]])" using one_delete_fits [of 3 4] by simp
  have ok: "txn_ok (1, [Delete 3 [4]])" using txns_ok [OF fits t] by simp
  have base: "wal_ok (\<lambda>_. 9) (log_of (take (length ([] :: mv_op list list)) [(1, [Delete 3 [4]])])) [] w" using w(1) by (simp add: log_of_def)
  obtain w1 where w1: "log_runs (\<lambda>_. 9) w (log_of [(1, [Delete 3 [4]])]) w1" using put_txn [OF w(1) ok] by (auto simp: log_of_def)
  let ?l = "log_of (drop (length ([] :: mv_op list list)) [(1, [Delete 3 [4]])])"
  have run: "log_runs (\<lambda>_. 9) w (take (length ?l) ?l) w1" using w1 by simp
  let ?evs = "drop (length (di_log (wl_disk w))) (di_log (wl_disk w1))" and ?img = "di_image (wl_disk w)"
  have cr: "crash ?evs ?img ?img" using crash.lost [of "[]" ?img ?img ?evs] by (simp add: torn_def)
  have told: "tear_told (\<lambda>_. 9) (di_image (wl_disk w1)) ?img (wl_len w) (take (length ?l) ?l)"
    by (simp add: tear_told_def w(2) d0_def next_frame_def PREFIX_def)
  have dw: "di_writable (wl_disk w)" by (simp add: w(2) d0_def)
  from crash_recovers_commits [OF fits t base run cr told dw, of no_resolver] show ?thesis using w w1 by (force simp: d0_def)
qed

text \<open>
  C3. Recovery rebuilds the store. Stage any batches one after the other on a fresh log:
  every stage succeeds, and recovering from that log gives a store with the same epoch and
  the same overlays as the one the commits left in memory, although the log regroups their
  operations by table, column and kind.
\<close>

theorem recovery_rebuilds_the_store:
  assumes "run_fits low opss" "wal_ok crc [] [] w"
  shows "\<exists>w1 m1 m2. stage_all crc opss w (mvcc_new low) = Some (w1, m1) \<and> m1 = fold live_commit opss (mvcc_new low) \<and>
    recover_with crc resolve low w1 = Some (Inr m2) \<and> same_store m1 m2"
  using recover_run [OF assms] by blast

theorem recovery_rebuilds_the_store_witness:
  "\<exists>w w1 m1 m2. wal_ok (\<lambda>_. 5) [] [] w \<and> stage_all (\<lambda>_. 5) [[OpDelete 3 4]] w (mvcc_new 0) = Some (w1, m1) \<and> mv_epoch m1 = 1 \<and>
    recover_with (\<lambda>_. 5) no_resolver 0 w1 = Some (Inr m2) \<and> is_deleted m2 3 4 1"
proof -
  define d0 where "d0 = \<lparr>di_image = [], di_writable = True, di_log = []\<rparr>"
  obtain w where w: "wal_ok (\<lambda>_. 5) [] [] w" using open_empty [of d0 "\<lambda>_. 5"] by (auto simp: d0_def)
  obtain w1 m1 m2 where r: "stage_all (\<lambda>_. 5) [[OpDelete 3 4]] w (mvcc_new 0) = Some (w1, m1)" "m1 = fold live_commit [[OpDelete 3 4]] (mvcc_new 0)"
      "recover_with (\<lambda>_. 5) no_resolver 0 w1 = Some (Inr m2)" "same_store m1 m2"
    using recovery_rebuilds_the_store [OF one_delete_fits [of 3 4] w, of no_resolver] by blast
  have "mv_epoch m1 = 1" "is_deleted m1 3 4 1"
    by (simp_all add: r(2) live_commit_def mv_apply_def defer_op_def mvcc_new_def is_deleted_def at_table_def at_entry_def no_table_def bury_def or_insert_def)
  moreover have "is_deleted m2 3 4 1 = is_deleted m1 3 4 1" using r(4) by (simp add: same_store_def is_deleted_def)
  ultimately show ?thesis using w r(1,3) by blast
qed

text \<open>
  C5. A snapshot does not move. Whatever is committed later, a reader at an epoch no newer than
  the store's is answered the same: cells, deletions, row counts, edges with what they carry,
  neighbors, removed pairs, values on edges, tombstones, labels, and the columns a fold asks for.
\<close>

theorem snapshots_do_not_move:
  assumes "E \<le> mv_epoch m" "unat (mv_epoch m) + length opss < 2 ^ 64" "n = fold live_commit opss m"
  shows "mv_cell n t base off col E = mv_cell m t base off col E \<and> is_deleted n t off E = is_deleted m t off E \<and>
    appended_rows n t E = appended_rows m t E \<and> edge_cells n r E = edge_cells m r E \<and> edge_gone n r s d since E = edge_gone m r s d since E \<and>
    neighbors n r node reversed E out = neighbors m r node reversed E out \<and> dead_edges n r E = dead_edges m r E \<and>
    edge_updates n r E = edge_updates m r E \<and> tombstones n t E = tombstones m t E \<and> label_changes n t E = label_changes m t E \<and>
    col_updates n t col base E = col_updates m t col base E"
  using agree_reads [OF run_agrees [OF assms(1,2)]] unfolding assms(3) by simp

theorem snapshots_do_not_move_witness:
  "mv_cell (fold live_commit [[OpUpdate 1 0 0 (CInt 70)], [OpDelete 1 0]] (live_commit [OpUpdate 1 0 0 (CInt 7)] (mvcc_new 0))) 1 5 0 0 1 = Some (Some (CInt 7))"
proof -
  let ?m = "live_commit [OpUpdate 1 0 0 (CInt 7)] (mvcc_new 0)"
  have e: "mv_epoch ?m = 1" by (simp add: live_commit_def mv_apply_def mvcc_new_def)
  have "mv_cell ?m 1 5 0 0 1 = Some (Some (CInt 7))"
    by (simp add: live_commit_def mv_apply_def defer_op_def mvcc_new_def mv_cell_def newest_def at_table_def at_entry_def no_table_def push_update_def)
  then show ?thesis
    using snapshots_do_not_move [of 1 ?m "[[OpUpdate 1 0 0 (CInt 70)], [OpDelete 1 0]]" _ 1 5 0 0] e by simp
qed



text \<open>
  C19. What is staged is well formed. Every transaction the staging calls can build, from
  values that fit the 32 bit counts of the log, holds only batches whose columns agree on their row
  count and are of one kind each, and label changes whose masks are disjoint; staging never
  panics, and a refused call leaves the transaction as it was.
\<close>

theorem staging_is_well_formed:
  assumes "staged ops"
  shows "list_all op_ok ops \<and> (\<exists>r ops1. insert_nodes t cols ops = Some (r, ops1) \<and> (isl r \<longrightarrow> ops1 = ops)) \<and>
    (\<forall>ops1. update_labels t row add remove ops = (r, ops1) \<longrightarrow> (isl r \<longleftrightarrow> add AND remove \<noteq> 0) \<and> (isl r \<longrightarrow> ops1 = ops))"
  using staged_ok [OF assms] insert_nodes_total update_labels_keeps [of t row add remove ops]
  by (cases r) auto

theorem staging_is_well_formed_witness:
  "insert_nodes 1 [(0, [CInt 7, CInt 8]), (1, [CNull])] (insert_rel 9 0 1 []) =
     Some (Inl (InvalidArgument ''ragged node insert: columns disagree on row count''), insert_rel 9 0 1 []) \<and>
   list_all op_ok (insert_rel 9 0 1 [])"
  using staging_is_well_formed [of "insert_rel 9 0 1 []" undefined undefined undefined undefined undefined undefined, OF staged.edge [OF staged.nothing]]
  by (simp add: insert_nodes_def)

text \<open>
  C40. The tombstone chain is exact. The bytes of a chain (a slice is shorter than \<open>2 ^ 63\<close>)
  decode to a list of offsets exactly when the list is strictly ascending and the bytes are its
  encoding.
\<close>

theorem tombstones_exact:
  assumes "length bytes < 2 ^ 63"
  shows "decode_tombstones bytes = Some (Inr offs) \<longleftrightarrow> sorted_wrt (<) offs \<and> bytes = encode_tombstones offs"
  by (rule tombstones_decode_exact [OF assms])

theorem tombstones_exact_witness: "decode_tombstones (encode_tombstones [3, 9]) = Some (Inr [3, 9])"
  using tombstones_exact [of "encode_tombstones [3, 9]" "[3, 9]"] by (simp add: encode_tombstones_def)

end
